(* ===== verification/Prelude.thy ===== *)
theory Prelude
  imports Main "HOL-Library.Word"
begin

text \<open>
  Shared vocabulary of the development: the machine integers of the loader, the error codes of
  \<open>lib/errno.h\<close> as a datatype with the convention that an operation returns
  \<open>Inl e\<close> where the C code returns \<open>-e\<close>, block copies inside byte arrays, and the generic
  lemmas on lists and words that the component theories use.
  The 64-bit types are those of the aarch64 port (\<open>hal/aarch64/generic/types.h\<close>).
\<close>

unbundle bit_operations_syntax

named_theorems unat_norm \<open>moving word arithmetic to natural numbers\<close>
named_theorems ring_simps \<open>facts on circular indexing\<close>

type_synonym u8 = "8 word"
type_synonym u16 = "16 word"
type_synonym u32 = "32 word"
type_synonym u64 = "64 word"
type_synonym size_t = "64 word"
type_synonym addr_t = "64 word"
type_synonym bytes = "8 word list"

text \<open>
  \<open>time_t\<close> is a signed 64-bit count of milliseconds; a clock that started at zero never leaves the range, so it is kept as an
  integer. A negative time-out, such as \<open>(time_t)-1\<close>, is over at once.
\<close>

type_synonym time_t = int

section \<open>Error codes\<close>

datatype errno = EPERM | ENOENT | EINTR | EIO | ENXIO | EAGAIN | ENOMEM | EFAULT | EBUSY | ENODEV
  | EINVAL | ENOSPC | ERANGE | ENOSYS | ETIME | ERAW "32 word"

text \<open>
  The numbers of \<open>lib/errno.h\<close>; the C functions return their negations. \<open>ERAW v\<close> stands for a negative
  result \<open>v\<close> that is not an error code and is passed on as it is.
\<close>

fun errno_code :: "errno \<Rightarrow> int" where
  "errno_code EPERM = 1"
| "errno_code ENOENT = 2"
| "errno_code EINTR = 4"
| "errno_code EIO = 5"
| "errno_code ENXIO = 6"
| "errno_code EAGAIN = 11"
| "errno_code ENOMEM = 12"
| "errno_code EFAULT = 14"
| "errno_code EBUSY = 16"
| "errno_code ENODEV = 19"
| "errno_code EINVAL = 22"
| "errno_code ENOSPC = 28"
| "errno_code ERANGE = 34"
| "errno_code ENOSYS = 35"
| "errno_code ETIME = 37"
| "errno_code (ERAW v) = - sint v"

section \<open>Stores into arrays\<close>

text \<open>A store to \<open>xs[i]\<close>; \<open>None\<close> stands for a store outside the array.\<close>

definition store_at :: "nat \<Rightarrow> 'a \<Rightarrow> 'a list \<Rightarrow> 'a list option" where
  "store_at i x xs = (if i < length xs then Some (xs[i := x]) else None)"

section \<open>Operations on a world\<close>

text \<open>
  A device or file operation takes the world \<open>'w\<close> (registers, memory, queues of the devices) and
  returns a result, or the error it reports, and the new world; \<open>None\<close> stands for an operation that
  never returns. \<open>io_bind\<close> is the C idiom of returning at the first negative result, \<open>io_try\<close> hands
  the result, error or not, to the caller.
\<close>

type_synonym ('w, 'a) io = "'w \<Rightarrow> ((errno + 'a) \<times> 'w) option"

definition io_return :: "'a \<Rightarrow> ('w, 'a) io" where
  "io_return x w = Some (Inr x, w)"

definition io_throw :: "errno \<Rightarrow> ('w, 'a) io" where
  "io_throw e w = Some (Inl e, w)"

definition io_bind :: "('w, 'a) io \<Rightarrow> ('a \<Rightarrow> ('w, 'b) io) \<Rightarrow> ('w, 'b) io" where
  "io_bind m f w =
     (case m w of None \<Rightarrow> None | Some (r, w') \<Rightarrow> (case r of Inl e \<Rightarrow> Some (Inl e, w') | Inr x \<Rightarrow> f x w'))"

definition io_try :: "('w, 'a) io \<Rightarrow> ('w, errno + 'a) io" where
  "io_try m w = (case m w of None \<Rightarrow> None | Some (r, w') \<Rightarrow> Some (Inr r, w'))"

definition io_of :: "errno + 'a \<Rightarrow> ('w, 'a) io" where
  "io_of r w = Some (r, w)"

lemma io_return_bind [simp]: "io_bind (io_return x) f = f x"
  by (simp add: io_bind_def io_return_def fun_eq_iff)

lemma io_throw_bind [simp]: "io_bind (io_throw e) f = io_throw e"
  by (simp add: io_bind_def io_throw_def fun_eq_iff)

lemma io_bind_return [simp]: "io_bind m io_return = m"
  by (auto simp: io_bind_def io_return_def fun_eq_iff split: option.splits sum.splits)

lemma io_bind_assoc: "io_bind (io_bind m f) g = io_bind m (\<lambda>x. io_bind (f x) g)"
  by (auto simp: io_bind_def fun_eq_iff split: option.splits sum.splits)

lemma io_bind_Inr:
  "io_bind m f w = Some (Inr y, w') \<longleftrightarrow> (\<exists>x w1. m w = Some (Inr x, w1) \<and> f x w1 = Some (Inr y, w'))"
  by (auto simp: io_bind_def split: option.splits sum.splits)

lemma io_bind_Inl:
  "io_bind m f w = Some (Inl e, w') \<longleftrightarrow>
     m w = Some (Inl e, w') \<or> (\<exists>x w1. m w = Some (Inr x, w1) \<and> f x w1 = Some (Inl e, w'))"
  by (auto simp: io_bind_def split: option.splits sum.splits)

lemma io_bind_eq: "m w = Some (Inr x, w1) \<Longrightarrow> io_bind m f w = f x w1"
  by (simp add: io_bind_def)

lemma io_bind_err: "m w = Some (Inl e, w1) \<Longrightarrow> io_bind m f w = Some (Inl e, w1)"
  by (simp add: io_bind_def)

lemma io_try_eq: "m w = Some (r, w1) \<Longrightarrow> io_try m w = Some (Inr r, w1)"
  by (simp add: io_try_def)

lemmas io_defs = io_bind_def io_return_def io_throw_def io_try_def io_of_def

section \<open>Block copies\<close>

text \<open>\<open>hal_memcpy (d + off) s (length s)\<close> on the array \<open>d\<close>, and the bytes
  \<open>hal_memcpy\<close> reads from offset \<open>off\<close>.\<close>

definition memcpy_to :: "'a list \<Rightarrow> nat \<Rightarrow> 'a list \<Rightarrow> 'a list" where
  "memcpy_to d off s = take off d @ s @ drop (off + length s) d"

definition memcpy_from :: "'a list \<Rightarrow> nat \<Rightarrow> nat \<Rightarrow> 'a list" where
  "memcpy_from d off n = take n (drop off d)"

lemma length_memcpy_to [simp]:
  "off + length s \<le> length d \<Longrightarrow> length (memcpy_to d off s) = length d"
  by (simp add: memcpy_to_def)

lemma length_memcpy_from [simp]:
  "off + n \<le> length d \<Longrightarrow> length (memcpy_from d off n) = n"
  by (simp add: memcpy_from_def)

lemma nth_memcpy_to:
  assumes "off + length s \<le> length d" "i < length d"
  shows "memcpy_to d off s ! i = (if off \<le> i \<and> i < off + length s then s ! (i - off) else d ! i)"
  using assms by (auto simp: memcpy_to_def nth_append min_def)

lemma nth_memcpy_from [simp]:
  "off + n \<le> length d \<Longrightarrow> i < n \<Longrightarrow> memcpy_from d off n ! i = d ! (off + i)"
  by (simp add: memcpy_from_def)

lemma memcpy_from_to_same [simp]:
  "off + length s \<le> length d \<Longrightarrow> memcpy_from (memcpy_to d off s) off (length s) = s"
  by (simp add: memcpy_from_def memcpy_to_def)

lemma memcpy_to_Nil [simp]: "memcpy_to d off [] = d"
  by (simp add: memcpy_to_def)

lemma memcpy_to_all [simp]: "length s = length d \<Longrightarrow> memcpy_to d 0 s = s"
  by (simp add: memcpy_to_def)

lemma memcpy_to_single: "i < length d \<Longrightarrow> memcpy_to d i [x] = d[i := x]"
  by (simp add: memcpy_to_def upd_conv_take_nth_drop)

section \<open>Words as natural numbers\<close>

lemma unat_plus_small [unat_norm]:
  fixes a b :: "'a::len word"
  shows "unat a + unat b < 2 ^ LENGTH('a) \<Longrightarrow> unat (a + b) = unat a + unat b"
  by (simp add: unat_word_ariths)

lemma unat_minus_small [unat_norm]:
  fixes a b :: "'a::len word"
  shows "b \<le> a \<Longrightarrow> unat (a - b) = unat a - unat b"
  by (simp add: unat_sub word_le_nat_alt)

lemma unat_mod_word [unat_norm]: "unat ((a::'a::len word) mod b) = unat a mod unat b"
  by (rule unat_mod_distrib)

lemma unat_min [unat_norm]: "unat (min a b :: 'a::len word) = min (unat a) (unat b)"
  by (auto simp: min_def word_le_nat_alt)

lemma unat_less_exp: "unat (w::'a::len word) < 2 ^ LENGTH('a)"
  by (rule unsigned_less)

lemma unat_of_nat_small [unat_norm]:
  "n < 2 ^ LENGTH('a) \<Longrightarrow> unat (of_nat n :: 'a::len word) = n"
  by (simp add: unat_of_nat take_bit_nat_eq_self)

lemma unat_of_nat_le: "n \<le> unat (w::'a::len word) \<Longrightarrow> unat (of_nat n :: 'a word) = n"
  by (rule unat_of_nat_small, erule le_less_trans, rule unat_less_exp)

lemma and_not_mask: "(x::'a::len word) AND NOT (mask n) = x - take_bit n x"
proof -
  have "x AND NOT (mask n) = push_bit n (drop_bit n x)"
    by (rule bit_word_eqI) (auto simp: bit_simps)
  also have "\<dots> = x - take_bit n x"
    using bits_ident [of n x] by (simp add: eq_diff_eq)
  finally show ?thesis .
qed

section \<open>Circular indexing\<close>

text \<open>The \<open>n\<close> elements of the array \<open>d\<close> from index \<open>h\<close> on, wrapping at its end.\<close>

definition ring :: "'a list \<Rightarrow> nat \<Rightarrow> nat \<Rightarrow> 'a list" where
  "ring d h n = map (\<lambda>i. d ! ((h + i) mod length d)) [0..<n]"

lemma length_ring [simp]: "length (ring d h n) = n"
  by (simp add: ring_def)

lemma ring_0 [simp]: "ring d h 0 = []"
  by (simp add: ring_def)

lemma nth_ring [simp]: "i < n \<Longrightarrow> ring d h n ! i = d ! ((h + i) mod length d)"
  by (simp add: ring_def)

lemma ring_drop [ring_simps]:
  assumes "m \<le> n"
  shows "ring d ((h + m) mod length d) (n - m) = drop m (ring d h n)"
  by (rule nth_equalityI) (auto simp: mod_add_left_eq add.assoc)

lemma ring_extend [ring_simps]:
  assumes "m \<le> length src" "length d' = length d"
    and new: "\<And>j. j < m \<Longrightarrow> d' ! ((h + n + j) mod length d) = src ! j"
    and old: "\<And>i. i < n \<Longrightarrow> d' ! ((h + i) mod length d) = d ! ((h + i) mod length d)"
  shows "ring d' h (n + m) = ring d h n @ take m src"
proof (rule nth_equalityI)
  fix i assume "i < length (ring d' h (n + m))"
  then have i: "i < n + m" by simp
  show "ring d' h (n + m) ! i = (ring d h n @ take m src) ! i"
  proof (cases "i < n")
    case True
    then show ?thesis using i old assms(2) by (simp add: nth_append)
  next
    case False
    then have "d' ! ((h + n + (i - n)) mod length d) = src ! (i - n)"
      using i by (intro new) arith
    then show ?thesis using False i assms(1,2) by (simp add: nth_append)
  qed
qed (use assms(1) in simp)

lemma mod_less_bound [ring_simps]: "h < c \<Longrightarrow> x mod c < (c::nat)"
  by (cases c) auto

lemma mod_add_cases:
  fixes a b c :: nat
  assumes "a < c" "b \<le> c" "a + b < 2 * c"
  shows "(a + b) mod c = (if a + b < c then a + b else a + b - c)"
  using assms by (simp add: mod_if)

section \<open>Little-endian words in byte arrays\<close>

definition le32_bytes :: "u32 \<Rightarrow> bytes" where
  "le32_bytes x = [ucast x, ucast (drop_bit 8 x), ucast (drop_bit 16 x), ucast (drop_bit 24 x)]"

definition le32_of :: "bytes \<Rightarrow> u32" where
  "le32_of bs = ucast (bs ! 0) OR push_bit 8 (ucast (bs ! 1)) OR push_bit 16 (ucast (bs ! 2)) OR push_bit 24 (ucast (bs ! 3))"

lemma ucast_low_byte: "(ucast ((x :: u32) AND 0xff) :: u8) = ucast x"
proof -
  have "(0xff :: u32) = mask 8" by (simp add: mask_numeral)
  then have "x AND 0xff = take_bit 8 x" by (simp only: take_bit_eq_mask)
  then show ?thesis by (intro bit_word_eqI) (auto simp: bit_simps)
qed

lemma length_le32_bytes [simp]: "length (le32_bytes x) = 4"
  by (simp add: le32_bytes_def)

lemma le32_of_bytes [simp]: "le32_of (le32_bytes x) = x"
proof (rule bit_word_eqI)
  fix n assume "n < LENGTH(32)"
  then consider "n < 8" | "8 \<le> n" "n < 16" | "16 \<le> n" "n < 24" | "24 \<le> n" "n < 32" by fastforce
  then show "bit (le32_of (le32_bytes x)) n = bit x n"
    by cases (auto simp: le32_of_def le32_bytes_def bit_simps)
qed

lemma memcpy_from_to_disjoint:
  assumes "off + length s \<le> length d" "b + n \<le> off \<or> off + length s \<le> b" "b + n \<le> length d"
  shows "memcpy_from (memcpy_to d off s) b n = memcpy_from d b n"
  using assms by (intro nth_equalityI) (auto simp: nth_memcpy_to)

lemma memcpy_to_append:
  "off + length a + length b \<le> length d \<Longrightarrow> memcpy_to (memcpy_to d off a) (off + length a) b = memcpy_to d off (a @ b)"
  by (simp add: memcpy_to_def ac_simps)

lemma memcpy_from_append: "memcpy_from d a (m + n) = memcpy_from d a m @ memcpy_from d (a + m) n"
  by (simp add: memcpy_from_def take_add add.commute)

lemma memcpy_from_memcpy_from [simp]:
  "a + n \<le> m \<Longrightarrow> memcpy_from (memcpy_from d off m) a n = memcpy_from d (off + a) n"
  by (simp add: memcpy_from_def drop_take min_def add.commute)

end
