(* ===== verification/Cbuffer.thy ===== *)
theory Cbuffer
  imports Prelude
begin

text \<open>
  \<open>lib/cbuffer.c\<close>, the circular byte buffer between the interrupt handlers and the readers of the
  UART and USB drivers. \<open>cbuffer_t\<close> is the record below; the storage \<open>data\<close> points to is the
  byte list \<open>cb_data\<close>. The C functions hold the number of copied bytes in an \<open>int\<close>; the model
  truncates it as the conversion does (\<open>to_int\<close>), and the invariant bounds the capacity by the
  largest \<open>int\<close>.
\<close>

record cbuffer_t =
  cb_capacity :: size_t
  cb_tail :: size_t
  cb_head :: size_t
  cb_full :: bool
  cb_data :: bytes

text \<open>Assigning a \<open>size_t\<close> to an \<open>int\<close> and using the \<open>int\<close> as a \<open>size_t\<close> again.\<close>

definition to_int :: "size_t \<Rightarrow> size_t" where
  "to_int x = scast (ucast x :: 32 word)"

definition lib_cbufInit :: "bytes \<Rightarrow> size_t \<Rightarrow> cbuffer_t" where
  "lib_cbufInit mem cap =
     \<lparr>cb_capacity = cap, cb_tail = 0, cb_head = 0, cb_full = False, cb_data = mem\<rparr>"

definition lib_cbufSize :: "cbuffer_t \<Rightarrow> size_t" where
  "lib_cbufSize b =
     (if cb_tail b = cb_head b then (if cb_full b then cb_capacity b else 0)
      else (cb_tail b - cb_head b + cb_capacity b) mod cb_capacity b)"

definition lib_cbufEmpty :: "cbuffer_t \<Rightarrow> bool" where
  "lib_cbufEmpty b \<longleftrightarrow> cb_head b = cb_tail b \<and> \<not> cb_full b"

definition lib_cbufWrite :: "cbuffer_t \<Rightarrow> bytes \<Rightarrow> size_t \<Rightarrow> size_t \<times> cbuffer_t" where
  "lib_cbufWrite b src sz =
     (if sz = 0 \<or> cb_full b then (0, b)
      else
        let (bytes, dat) =
          (if cb_head b > cb_tail b then
             (let n = to_int (min sz (cb_head b - cb_tail b))
              in (n, memcpy_to (cb_data b) (unat (cb_tail b)) (take (unat n) src)))
           else
             (let n = to_int (min sz (cb_capacity b - cb_tail b));
                  d1 = memcpy_to (cb_data b) (unat (cb_tail b)) (take (unat n) src)
              in if n < sz \<and> cb_head b \<noteq> 0 then
                   (let k = min (sz - n) (cb_head b)
                    in (to_int (n + k), memcpy_to d1 0 (take (unat k) (drop (unat n) src))))
                 else (n, d1)));
            tl' = (cb_tail b + bytes) mod cb_capacity b
        in (bytes, b\<lparr>cb_data := dat, cb_tail := tl', cb_full := (tl' = cb_head b)\<rparr>))"

definition lib_cbufWriteByte :: "cbuffer_t \<Rightarrow> u8 \<Rightarrow> nat \<times> cbuffer_t" where
  "lib_cbufWriteByte b c =
     (if cb_full b then (0, b)
      else
        let tl' = (cb_tail b + 1) mod cb_capacity b
        in (1, b\<lparr>cb_data := (cb_data b)[unat (cb_tail b) := c], cb_tail := tl',
                 cb_full := (tl' = cb_head b)\<rparr>))"

definition lib_cbufRead :: "cbuffer_t \<Rightarrow> size_t \<Rightarrow> (size_t \<times> bytes) \<times> cbuffer_t" where
  "lib_cbufRead b sz =
     (if sz = 0 \<or> (cb_head b = cb_tail b \<and> \<not> cb_full b) then ((0, []), b)
      else
        let (bytes, out) =
          (if cb_tail b > cb_head b then
             (let n = to_int (min sz (cb_tail b - cb_head b))
              in (n, memcpy_from (cb_data b) (unat (cb_head b)) (unat n)))
           else
             (let n = to_int (min sz (cb_capacity b - cb_head b));
                  o1 = memcpy_from (cb_data b) (unat (cb_head b)) (unat n)
              in if n < sz then
                   (let k = min (sz - n) (cb_tail b)
                    in (to_int (n + k), o1 @ memcpy_from (cb_data b) 0 (unat k)))
                 else (n, o1)))
        in ((bytes, out), b\<lparr>cb_head := (cb_head b + bytes) mod cb_capacity b, cb_full := False\<rparr>))"

definition lib_cbufReadByte :: "cbuffer_t \<Rightarrow> u8 option \<times> cbuffer_t" where
  "lib_cbufReadByte b =
     (if cb_head b = cb_tail b \<and> \<not> cb_full b then (None, b)
      else (Some (cb_data b ! unat (cb_head b)),
            b\<lparr>cb_head := (cb_head b + 1) mod cb_capacity b, cb_full := False\<rparr>))"

section \<open>Invariant and contents\<close>

definition cbuf_inv :: "cbuffer_t \<Rightarrow> bool" where
  "cbuf_inv b \<longleftrightarrow>
     cb_capacity b \<noteq> 0 \<and> unat (cb_capacity b) < 2 ^ 31 \<and> length (cb_data b) = unat (cb_capacity b) \<and>
     cb_head b < cb_capacity b \<and> cb_tail b < cb_capacity b \<and> (cb_full b \<longrightarrow> cb_head b = cb_tail b)"

definition cbuf_list :: "cbuffer_t \<Rightarrow> bytes" where
  "cbuf_list b = ring (cb_data b) (unat (cb_head b)) (unat (lib_cbufSize b))"

lemma take_bit_small: "unat (x::64 word) < 2 ^ 31 \<Longrightarrow> take_bit 31 x = x"
  by (rule word_unat_eq_iff [THEN iffD2]) (simp add: unsigned_take_bit_eq take_bit_nat_eq_self)

lemma to_int_small:
  assumes "unat x < 2 ^ 31"
  shows "to_int x = x"
proof -
  have "\<not> bit (take_bit 31 x) 31" by (simp only: bit_take_bit_iff) simp
  then show ?thesis using take_bit_small [OF assms]
    by (simp add: to_int_def signed_ucast_eq signed_take_bit_eq_if_positive)
qed

lemma cbuf_invD:
  assumes "cbuf_inv b"
  shows "0 < unat (cb_capacity b)" "unat (cb_capacity b) < 2147483648"
    "length (cb_data b) = unat (cb_capacity b)"
    "unat (cb_head b) < unat (cb_capacity b)" "unat (cb_tail b) < unat (cb_capacity b)"
    "cb_full b \<Longrightarrow> unat (cb_head b) = unat (cb_tail b)"
  using assms by (auto simp: cbuf_inv_def word_less_nat_alt unat_gt_0)

lemma unat_cbufSize:
  assumes "cbuf_inv b"
  shows "unat (lib_cbufSize b) =
    (if unat (cb_tail b) = unat (cb_head b) then (if cb_full b then unat (cb_capacity b) else 0)
     else if unat (cb_head b) < unat (cb_tail b) then unat (cb_tail b) - unat (cb_head b)
     else unat (cb_tail b) + unat (cb_capacity b) - unat (cb_head b))"
proof -
  note inv = cbuf_invD [OF assms]
  have w: "cb_tail b - cb_head b + cb_capacity b = cb_tail b + cb_capacity b - cb_head b"
    by simp
  have s: "unat (cb_tail b + cb_capacity b) = unat (cb_tail b) + unat (cb_capacity b)"
    using inv by (intro unat_plus_small) simp
  have d: "unat (cb_tail b + cb_capacity b - cb_head b)
      = unat (cb_tail b) + unat (cb_capacity b) - unat (cb_head b)"
    using s inv by (subst unat_minus_small) (auto simp: word_le_nat_alt)
  have m: "unat ((cb_tail b - cb_head b + cb_capacity b) mod cb_capacity b)
      = (unat (cb_tail b) + unat (cb_capacity b) - unat (cb_head b)) mod unat (cb_capacity b)"
    unfolding w by (simp add: unat_mod_word d)
  show ?thesis
    using inv m unfolding lib_cbufSize_def
    by (auto simp: word_unat_eq_iff mod_if simp del: unat_mod_distrib)
qed

lemma cbuf_size_le: "cbuf_inv b \<Longrightarrow> unat (lib_cbufSize b) \<le> unat (cb_capacity b)"
  using cbuf_invD(4,5) [of b] by (auto simp: unat_cbufSize)

lemma length_cbuf_list [simp]: "length (cbuf_list b) = unat (lib_cbufSize b)"
  by (simp add: cbuf_list_def)

section \<open>Copies into and out of the ring\<close>

lemma ring_write1:
  assumes "h < length d" "t = (h + n) mod length d" "n + k \<le> length d" "t + k \<le> length d"
    "k \<le> length src"
  shows "ring (memcpy_to d t (take k src)) h (n + k) = ring d h n @ take k src"
proof (rule ring_extend)
  fix j assume j: "j < k"
  then have "(h + n + j) mod length d = t + j"
    using assms by (metis (no_types, lifting) add_less_cancel_left less_le_trans mod_add_left_eq mod_less)
  then show "memcpy_to d t (take k src) ! ((h + n + j) mod length d) = src ! j"
    using assms j by (simp add: nth_memcpy_to)
next
  fix i assume i: "i < n"
  have "\<not> (t \<le> (h + i) mod length d \<and> (h + i) mod length d < t + k)"
    using assms i mod_add_cases [of h "length d" i] mod_add_cases [of h "length d" n]
    by (auto split: if_splits)
  then show "memcpy_to d t (take k src) ! ((h + i) mod length d) = d ! ((h + i) mod length d)"
    using assms(1,4,5) by (subst nth_memcpy_to) (auto intro: mod_less_bound)
qed (use assms in simp_all)

lemma ring_write2:
  assumes "h < length d" "t = (h + n) mod length d" "n + (k1 + k2) \<le> length d" "t + k1 = length d"
    "k1 + k2 \<le> length src"
  shows "ring (memcpy_to (memcpy_to d t (take k1 src)) 0 (take k2 (drop k1 src))) h (n + (k1 + k2))
    = ring d h n @ take (k1 + k2) src"
proof -
  let ?d = "memcpy_to d t (take k1 src)"
  have len: "length ?d = length d" using assms by simp
  have "(h + (n + k1)) mod length d = 0"
    using assms(2,4) by (metis add.assoc mod_add_left_eq mod_self)
  then have "ring (memcpy_to ?d 0 (take k2 (drop k1 src))) h ((n + k1) + k2)
      = ring ?d h (n + k1) @ take k2 (drop k1 src)"
    using assms len by (intro ring_write1) auto
  also have "ring ?d h (n + k1) = ring d h n @ take k1 src"
    using assms by (intro ring_write1) auto
  finally show ?thesis by (simp add: take_add add.assoc)
qed

lemma ring_read1:
  "h + m \<le> length d \<Longrightarrow> m \<le> n \<Longrightarrow> memcpy_from d h m = take m (ring d h n)"
  by (rule nth_equalityI) (auto simp: mod_less)

lemma ring_read2:
  assumes "h + k1 = length d" "k1 + k2 \<le> n" "n \<le> length d"
  shows "memcpy_from d h k1 @ memcpy_from d 0 k2 = take (k1 + k2) (ring d h n)"
proof -
  have "memcpy_from d h k1 = take k1 (ring d h n)"
    using assms by (intro ring_read1) auto
  moreover have "memcpy_from d 0 k2 = take k2 (drop k1 (ring d h n))"
    using assms ring_read1 [of 0 k2 d "n - k1"] ring_drop [of k1 n d h] by simp
  ultimately show ?thesis by (simp add: take_add)
qed

lemma cbuf_put_state:
  assumes "cbuf_inv b" "\<not> cb_full b" "0 < k" "unat (lib_cbufSize b) + k \<le> unat (cb_capacity b)"
    "unat m = k" "length d' = length (cb_data b)"
    and b': "b' = b\<lparr>cb_data := d', cb_tail := (cb_tail b + m) mod cb_capacity b,
              cb_full := ((cb_tail b + m) mod cb_capacity b = cb_head b)\<rparr>"
  shows "cbuf_inv b'" and "unat (lib_cbufSize b') = unat (lib_cbufSize b) + k"
    and "(unat (cb_head b) + unat (lib_cbufSize b)) mod unat (cb_capacity b) = unat (cb_tail b)"
proof -
  note inv = cbuf_invD [OF assms(1)]
  have sz: "unat (lib_cbufSize b) = (if unat (cb_head b) \<le> unat (cb_tail b) then unat (cb_tail b) - unat (cb_head b)
     else unat (cb_tail b) + unat (cb_capacity b) - unat (cb_head b))"
    using assms(2) by (simp add: unat_cbufSize [OF assms(1)])
  have t: "unat ((cb_tail b + m) mod cb_capacity b) = (unat (cb_tail b) + k) mod unat (cb_capacity b)"
    using inv assms by (simp add: unat_mod_word unat_plus_small)
  have t': "unat (cb_tail b') = (if unat (cb_tail b) + k < unat (cb_capacity b) then unat (cb_tail b) + k
     else unat (cb_tail b) + k - unat (cb_capacity b))"
    using t b' inv assms by (simp add: mod_if)
  show i: "cbuf_inv b'"
    using assms(1,6) t inv by (auto simp: cbuf_inv_def b' word_less_nat_alt)
  have f: "cb_full b' \<longleftrightarrow> unat (cb_tail b') = unat (cb_head b)"
    by (simp add: b' word_unat_eq_iff)
  have hc: "unat (cb_head b') = unat (cb_head b)" "unat (cb_capacity b') = unat (cb_capacity b)"
    by (simp_all add: b')
  show "unat (lib_cbufSize b') = unat (lib_cbufSize b) + k"
    unfolding unat_cbufSize [OF i] f hc using sz t' inv assms(3,4) by (auto split: if_splits)
  show "(unat (cb_head b) + unat (lib_cbufSize b)) mod unat (cb_capacity b) = unat (cb_tail b)"
    using sz inv by (auto simp: mod_if)
qed

section \<open>The operations on the contents\<close>

text \<open>What the copies of a write establish: \<open>m\<close> bytes stored in the new data \<open>d'\<close>.\<close>

definition cbuf_stored :: "cbuffer_t \<Rightarrow> bytes \<Rightarrow> nat \<Rightarrow> size_t \<Rightarrow> bytes \<Rightarrow> bool" where
  "cbuf_stored b src k m d' \<longleftrightarrow> unat m = k \<and> length d' = length (cb_data b) \<and>
     ring d' (unat (cb_head b)) (unat (lib_cbufSize b) + k) = cbuf_list b @ take k src"

abbreviation "cbuf_put_upd b m d' \<equiv>
  b\<lparr>cb_data := d', cb_tail := (cb_tail b + m) mod cb_capacity b,
    cb_full := ((cb_tail b + m) mod cb_capacity b = cb_head b)\<rparr>"

abbreviation "cbuf_room b \<equiv> unat (cb_capacity b) - unat (lib_cbufSize b)"

lemma cbuf_not_full:
  assumes "cbuf_inv b" "\<not> cb_full b"
  shows "unat (lib_cbufSize b) =
      (if unat (cb_head b) \<le> unat (cb_tail b) then unat (cb_tail b) - unat (cb_head b)
       else unat (cb_tail b) + unat (cb_capacity b) - unat (cb_head b))"
    and "unat (lib_cbufSize b) < unat (cb_capacity b)"
    and "(unat (cb_head b) + unat (lib_cbufSize b)) mod unat (cb_capacity b) = unat (cb_tail b)"
proof -
  note inv = cbuf_invD [OF assms(1)]
  show n: "unat (lib_cbufSize b) =
      (if unat (cb_head b) \<le> unat (cb_tail b) then unat (cb_tail b) - unat (cb_head b)
       else unat (cb_tail b) + unat (cb_capacity b) - unat (cb_head b))"
    using assms(2) by (simp add: unat_cbufSize [OF assms(1)])
  show l: "unat (lib_cbufSize b) < unat (cb_capacity b)" using n inv by (auto split: if_splits)
  show "(unat (cb_head b) + unat (lib_cbufSize b)) mod unat (cb_capacity b) = unat (cb_tail b)"
    using n l inv mod_add_cases [of "unat (cb_head b)" "unat (cb_capacity b)" "unat (lib_cbufSize b)"]
    by (auto split: if_splits)
qed

lemma wrap_sum:
  fixes t m c s h n :: nat
  shows "t + m = c \<Longrightarrow> m < s \<Longrightarrow> h \<le> t \<Longrightarrow> n = t - h \<Longrightarrow> m + min (s - m) h = min s (c - n)"
  by arith

lemma cbufWrite_below_head:
  assumes "cbuf_inv b" "\<not> cb_full b" "sz \<noteq> 0" "unat sz \<le> length src" "cb_head b > cb_tail b"
  shows "\<exists>m d'. lib_cbufWrite b src sz = (m, cbuf_put_upd b m d') \<and>
    cbuf_stored b src (min (unat sz) (cbuf_room b)) m d'"
proof -
  note inv = cbuf_invD [OF assms(1)] and nf = cbuf_not_full [OF assms(1,2)]
  let ?m = "min sz (cb_head b - cb_tail b)" and ?k = "min (unat sz) (cbuf_room b)"
  let ?d = "memcpy_to (cb_data b) (unat (cb_tail b)) (take ?k src)"
  have lt: "unat (cb_tail b) < unat (cb_head b)" using assms(5) by (simp add: word_less_nat_alt)
  have um: "unat ?m = ?k"
    using lt nf inv by (auto simp: unat_min unat_minus_small word_le_nat_alt)
  have tm: "to_int ?m = ?m" using um inv by (intro to_int_small) simp
  have fit: "unat (cb_tail b) + ?k \<le> length (cb_data b)" using nf lt inv by (auto split: if_splits)
  have "ring ?d (unat (cb_head b)) (unat (lib_cbufSize b) + ?k) = cbuf_list b @ take ?k src"
    using inv nf(2,3) fit assms(4) unfolding cbuf_list_def by (intro ring_write1) auto
  then have "cbuf_stored b src ?k ?m ?d" using um fit assms(4) by (simp add: cbuf_stored_def)
  moreover have "lib_cbufWrite b src sz = (?m, cbuf_put_upd b ?m ?d)"
    using assms(2,3,5) tm um by (simp add: lib_cbufWrite_def Let_def)
  ultimately show ?thesis by blast
qed

lemma cbufWrite_to_end:
  assumes "cbuf_inv b" "\<not> cb_full b" "sz \<noteq> 0" "unat sz \<le> length src" "\<not> cb_head b > cb_tail b"
    and nowrap: "\<not> (min sz (cb_capacity b - cb_tail b) < sz \<and> cb_head b \<noteq> 0)"
  shows "\<exists>m d'. lib_cbufWrite b src sz = (m, cbuf_put_upd b m d') \<and>
    cbuf_stored b src (min (unat sz) (cbuf_room b)) m d'"
proof -
  note inv = cbuf_invD [OF assms(1)] and nf = cbuf_not_full [OF assms(1,2)]
  let ?m = "min sz (cb_capacity b - cb_tail b)" and ?k = "min (unat sz) (cbuf_room b)"
  let ?d = "memcpy_to (cb_data b) (unat (cb_tail b)) (take ?k src)"
  have le: "unat (cb_head b) \<le> unat (cb_tail b)" using assms(5) by (simp add: word_less_nat_alt)
  have um: "unat ?m = min (unat sz) (unat (cb_capacity b) - unat (cb_tail b))"
    using inv by (simp add: unat_min unat_minus_small word_le_nat_alt)
  have mk: "unat ?m = ?k"
    using nowrap le nf um inv
    by (auto simp: word_less_nat_alt unat_0_iff min_def not_less split: if_splits)
  have "unat ?m \<le> unat (cb_capacity b)" unfolding um by simp
  then have tm: "to_int ?m = ?m" using inv(2) by (intro to_int_small) simp
  have fit: "unat (cb_tail b) + ?k \<le> length (cb_data b)" using mk um inv by auto
  have "ring ?d (unat (cb_head b)) (unat (lib_cbufSize b) + ?k) = cbuf_list b @ take ?k src"
    using inv nf(2,3) fit assms(4) unfolding cbuf_list_def by (intro ring_write1) auto
  then have "cbuf_stored b src ?k ?m ?d" using mk fit assms(4) by (simp add: cbuf_stored_def)
  moreover have "lib_cbufWrite b src sz = (?m, cbuf_put_upd b ?m ?d)"
    using assms(2,3,5) nowrap tm mk by (auto simp: lib_cbufWrite_def Let_def)
  ultimately show ?thesis by blast
qed

lemma cbufWrite_wrap:
  assumes "cbuf_inv b" "\<not> cb_full b" "sz \<noteq> 0" "unat sz \<le> length src" "\<not> cb_head b > cb_tail b"
    and wrap: "min sz (cb_capacity b - cb_tail b) < sz \<and> cb_head b \<noteq> 0"
  shows "\<exists>m d'. lib_cbufWrite b src sz = (m, cbuf_put_upd b m d') \<and>
    cbuf_stored b src (min (unat sz) (cbuf_room b)) m d'"
proof -
  note inv = cbuf_invD [OF assms(1)] and nf = cbuf_not_full [OF assms(1,2)]
  let ?m = "min sz (cb_capacity b - cb_tail b)" and ?k = "min (unat sz) (cbuf_room b)"
  let ?m2 = "min (sz - ?m) (cb_head b)"
  let ?d = "memcpy_to (memcpy_to (cb_data b) (unat (cb_tail b)) (take (unat ?m) src)) 0
    (take (unat ?m2) (drop (unat ?m) src))"
  have le: "unat (cb_head b) \<le> unat (cb_tail b)" using assms(5) by (simp add: word_less_nat_alt)
  have um: "unat ?m = min (unat sz) (unat (cb_capacity b) - unat (cb_tail b))"
    using inv by (simp add: unat_min unat_minus_small word_le_nat_alt)
  have less: "unat ?m < unat sz" using wrap by (simp add: word_less_nat_alt)
  then have full: "unat (cb_tail b) + unat ?m = unat (cb_capacity b)"
    using um inv by (auto simp: min_def split: if_splits)
  have um2: "unat ?m2 = min (unat sz - unat ?m) (unat (cb_head b))"
    using less by (simp add: unat_min unat_minus_small word_le_nat_alt)
  have sum: "unat ?m + unat ?m2 = ?k" 
    unfolding um2 by (rule wrap_sum [OF full less le]) (simp add: nf(1) le)
  have us: "unat (?m + ?m2) = ?k" using sum nf(2) inv by (simp add: unat_plus_small)
  have "unat ?m \<le> unat (cb_capacity b)" unfolding um by simp
  then have tm: "to_int ?m = ?m" using inv(2) by (intro to_int_small) simp
  have ts: "to_int (?m + ?m2) = ?m + ?m2" using us nf(2) inv by (intro to_int_small) simp
  have "unat ?m2 \<le> unat (cb_capacity b)" unfolding um2 using inv(4) by simp
  then have len: "length ?d = length (cb_data b)"
    using full inv(3) by (subst length_memcpy_to) (simp_all add: min_def)
  have "ring ?d (unat (cb_head b)) (unat (lib_cbufSize b) + (unat ?m + unat ?m2))
      = cbuf_list b @ take (unat ?m + unat ?m2) src"
    using inv nf(2,3) full sum assms(4) unfolding cbuf_list_def by (intro ring_write2) auto
  then have "cbuf_stored b src ?k (?m + ?m2) ?d"
    using us len unfolding cbuf_stored_def sum by simp
  moreover have "lib_cbufWrite b src sz = (?m + ?m2, cbuf_put_upd b (?m + ?m2) ?d)"
    using assms(2,3,5) wrap tm ts by (simp add: lib_cbufWrite_def Let_def)
  ultimately show ?thesis by blast
qed

lemma cbufWrite_copies:
  assumes "cbuf_inv b" "\<not> cb_full b" "sz \<noteq> 0" "unat sz \<le> length src"
  shows "\<exists>m d'. lib_cbufWrite b src sz = (m, cbuf_put_upd b m d') \<and>
    cbuf_stored b src (min (unat sz) (cbuf_room b)) m d'"
  using cbufWrite_below_head [OF assms] cbufWrite_to_end [OF assms] cbufWrite_wrap [OF assms] by blast

theorem cbufWrite_law:
  assumes "cbuf_inv b" "unat sz \<le> length src" "lib_cbufWrite b src sz = (m, b')"
  shows "cbuf_inv b'" "cb_capacity b' = cb_capacity b" "unat m = min (unat sz) (cbuf_room b)"
    "cbuf_list b' = cbuf_list b @ take (unat m) src"
proof -
  let ?k = "min (unat sz) (cbuf_room b)"
  have "cbuf_inv b' \<and> cb_capacity b' = cb_capacity b \<and> unat m = ?k \<and>
    cbuf_list b' = cbuf_list b @ take (unat m) src"
  proof (cases "sz = 0 \<or> cb_full b")
    case True
    then show ?thesis
      using assms cbuf_invD(6) [OF assms(1)] by (auto simp: lib_cbufWrite_def unat_cbufSize)
  next
    case False
    then obtain d' where b': "b' = cbuf_put_upd b m d'" and st: "cbuf_stored b src ?k m d'"
      using cbufWrite_copies [OF assms(1) _ _ assms(2)] assms(3) by auto
    have k: "0 < ?k" using False cbuf_not_full(2) [OF assms(1)] by (simp add: unat_gt_0)
    note ps = cbuf_put_state [OF assms(1) _ k _ _ _ b']
    have "cbuf_inv b'" "unat (lib_cbufSize b') = unat (lib_cbufSize b) + ?k"
      using ps(1,2) False st cbuf_not_full(2) [OF assms(1)] by (auto simp: cbuf_stored_def)
    then show ?thesis using st b' by (simp add: cbuf_stored_def cbuf_list_def)
  qed
  then show "cbuf_inv b'" "cb_capacity b' = cb_capacity b" "unat m = ?k"
    "cbuf_list b' = cbuf_list b @ take (unat m) src" by auto
qed

lemma get_size:
  fixes h t c k n h' :: nat
  assumes "h < c" "t < c" "n = (if t = h then (if f then c else 0) else if h < t then t - h else t + c - h)"
    "0 < k" "k \<le> n" "h' = (if h + k < c then h + k else h + k - c)"
  shows "(if t = h' then (if False then c else 0) else if h' < t then t - h' else t + c - h') = n - k"
  using assms by (auto split: if_splits)

lemma cbuf_get_state:
  assumes "cbuf_inv b" "0 < k" "k \<le> unat (lib_cbufSize b)" "unat m = k"
    and b': "b' = b\<lparr>cb_head := (cb_head b + m) mod cb_capacity b, cb_full := False\<rparr>"
  shows "cbuf_inv b'" and "cbuf_list b' = drop k (cbuf_list b)"
proof -
  note inv = cbuf_invD [OF assms(1)]
  have kc: "k \<le> unat (cb_capacity b)" using assms(3) cbuf_size_le [OF assms(1)] by simp
  have h: "unat ((cb_head b + m) mod cb_capacity b) = (unat (cb_head b) + k) mod unat (cb_capacity b)"
    using inv kc assms(4) by (simp add: unat_mod_word unat_plus_small)
  then have h': "unat (cb_head b') = (if unat (cb_head b) + k < unat (cb_capacity b)
      then unat (cb_head b) + k else unat (cb_head b) + k - unat (cb_capacity b))"
    using mod_add_cases [of "unat (cb_head b)" "unat (cb_capacity b)" k] b' inv kc by simp
  show i: "cbuf_inv b'"
    using assms(1) inv h by (auto simp: cbuf_inv_def b' word_less_nat_alt)
  have tc: "unat (cb_tail b') = unat (cb_tail b)" "cb_full b' = False"
    "unat (cb_capacity b') = unat (cb_capacity b)"
    by (simp_all add: b')
  have sz: "unat (lib_cbufSize b') = unat (lib_cbufSize b) - k"
    unfolding unat_cbufSize [OF i] tc
    by (rule get_size [OF inv(4,5) unat_cbufSize [OF assms(1)] assms(2,3) h'])
  show "cbuf_list b' = drop k (cbuf_list b)"
    unfolding cbuf_list_def sz using ring_drop [OF assms(3), of "cb_data b" "unat (cb_head b)"]
    by (simp add: b' h inv)
qed

text \<open>The bytes delivered by the copies of \<open>lib_cbufRead\<close>.\<close>

abbreviation "cbuf_get_upd b m \<equiv> b\<lparr>cb_head := (cb_head b + m) mod cb_capacity b, cb_full := False\<rparr>"

lemma to_int_cbuf:
  assumes "cbuf_inv b" "unat x \<le> unat (cb_capacity b)"
  shows "to_int x = x"
  using assms(2) cbuf_invD(2) [OF assms(1)] by (intro to_int_small) simp

lemma cbufRead_straight:
  assumes "cbuf_inv b" "sz \<noteq> 0" "cb_tail b > cb_head b"
  shows "\<exists>m. lib_cbufRead b sz = ((m, take (unat m) (cbuf_list b)), cbuf_get_upd b m) \<and>
    unat m = min (unat sz) (unat (lib_cbufSize b))"
proof -
  note inv = cbuf_invD [OF assms(1)] and le = cbuf_size_le [OF assms(1)]
  let ?m = "min sz (cb_tail b - cb_head b)"
  have ht: "unat (cb_head b) < unat (cb_tail b)" using assms(3) by (simp add: word_less_nat_alt)
  have n: "unat (lib_cbufSize b) = unat (cb_tail b) - unat (cb_head b)"
    using ht by (simp add: unat_cbufSize [OF assms(1)])
  have um: "unat ?m = min (unat sz) (unat (lib_cbufSize b))"
    using ht n by (simp add: unat_min unat_minus_small word_le_nat_alt)
  have ms: "unat ?m \<le> unat (lib_cbufSize b)" unfolding um by simp
  then have tm: "to_int ?m = ?m" using le by (intro to_int_cbuf [OF assms(1)]) simp
  have "memcpy_from (cb_data b) (unat (cb_head b)) (unat ?m) = take (unat ?m) (cbuf_list b)"
    unfolding cbuf_list_def using inv(3,5) n ht ms by (intro ring_read1) auto
  then have "lib_cbufRead b sz = ((?m, take (unat ?m) (cbuf_list b)), cbuf_get_upd b ?m)"
    using assms(2,3) tm by (auto simp: lib_cbufRead_def Let_def)
  with um show ?thesis by blast
qed

lemma cbufRead_around:
  assumes "cbuf_inv b" "sz \<noteq> 0" "\<not> (cb_head b = cb_tail b \<and> \<not> cb_full b)" "\<not> cb_tail b > cb_head b"
  shows "\<exists>m. lib_cbufRead b sz = ((m, take (unat m) (cbuf_list b)), cbuf_get_upd b m) \<and>
    unat m = min (unat sz) (unat (lib_cbufSize b))"
proof -
  note inv = cbuf_invD [OF assms(1)] and le = cbuf_size_le [OF assms(1)]
  let ?m = "min sz (cb_capacity b - cb_head b)" and ?k = "min (unat sz) (unat (lib_cbufSize b))"
  let ?m2 = "min (sz - ?m) (cb_tail b)"
  have ht: "unat (cb_tail b) \<le> unat (cb_head b)" using assms(4) by (simp add: word_less_nat_alt)
  have n: "unat (lib_cbufSize b) = unat (cb_tail b) + unat (cb_capacity b) - unat (cb_head b)"
    using ht assms(3) by (auto simp: unat_cbufSize [OF assms(1)] word_unat_eq_iff)
  have um: "unat ?m = min (unat sz) (unat (cb_capacity b) - unat (cb_head b))"
    using inv by (simp add: unat_min unat_minus_small word_le_nat_alt)
  have tm: "to_int ?m = ?m" by (rule to_int_cbuf [OF assms(1)]) (simp add: um)
  show ?thesis
  proof (cases "?m < sz")
    case c: True
    then have less: "unat ?m < unat sz" by (simp add: word_less_nat_alt)
    then have full: "unat (cb_head b) + unat ?m = unat (cb_capacity b)"
      using um inv(4) by (simp add: min_def split: if_splits)
    have um2: "unat ?m2 = min (unat sz - unat ?m) (unat (cb_tail b))"
      using less by (simp add: unat_min unat_minus_small word_le_nat_alt)
    have sum: "unat ?m + unat ?m2 = ?k" unfolding um2 using full less ht n by arith
    have us: "unat (?m + ?m2) = ?k" using sum le inv(2) by (simp add: unat_plus_small)
    then have ts: "to_int (?m + ?m2) = ?m + ?m2" using le by (intro to_int_cbuf [OF assms(1)]) simp
    have "memcpy_from (cb_data b) (unat (cb_head b)) (unat ?m) @ memcpy_from (cb_data b) 0 (unat ?m2)
        = take (unat (?m + ?m2)) (cbuf_list b)"
      unfolding cbuf_list_def us sum [symmetric] using inv(3) full sum le by (intro ring_read2) auto
    then show ?thesis
      using assms(2-4) c us ts tm by (intro exI [of _ "?m + ?m2"]) (auto simp: lib_cbufRead_def Let_def)
  next
    case c: False
    then have uk: "unat ?m = ?k" using um n by (simp add: word_less_nat_alt)
    have "memcpy_from (cb_data b) (unat (cb_head b)) (unat ?m) = take (unat ?m) (cbuf_list b)"
      unfolding cbuf_list_def uk using inv um uk by (intro ring_read1) auto
    then show ?thesis
      using assms(2-4) c uk tm by (intro exI [of _ ?m]) (auto simp: lib_cbufRead_def Let_def)
  qed
qed

theorem cbufRead_law:
  assumes "cbuf_inv b" "lib_cbufRead b sz = ((m, out), b')"
  shows "cbuf_inv b'" "cb_capacity b' = cb_capacity b" "out = take (unat sz) (cbuf_list b)"
    "unat m = length out" "cbuf_list b' = drop (unat sz) (cbuf_list b)"
proof -
  have "cbuf_inv b' \<and> cb_capacity b' = cb_capacity b \<and> out = take (unat sz) (cbuf_list b) \<and>
    unat m = length out \<and> cbuf_list b' = drop (unat sz) (cbuf_list b)"
  proof (cases "sz = 0 \<or> (cb_head b = cb_tail b \<and> \<not> cb_full b)")
    case True
    then have "unat sz = 0 \<or> cbuf_list b = []"
      by (auto simp: cbuf_list_def unat_cbufSize [OF assms(1)])
    then show ?thesis using True assms by (auto simp: lib_cbufRead_def)
  next
    case False
    then have "\<exists>m. lib_cbufRead b sz = ((m, take (unat m) (cbuf_list b)), cbuf_get_upd b m) \<and>
        unat m = min (unat sz) (unat (lib_cbufSize b))"
      using cbufRead_straight [OF assms(1)] cbufRead_around [OF assms(1)] by blast
    then have b': "b' = cbuf_get_upd b m" and m: "unat m = min (unat sz) (unat (lib_cbufSize b))"
      and o: "out = take (unat m) (cbuf_list b)"
      using assms(2) by auto
    have "unat (lib_cbufSize b) \<noteq> 0"
      using False cbuf_invD(1,4,5) [OF assms(1)]
      by (auto simp: unat_cbufSize [OF assms(1)] word_unat_eq_iff)
    then have k: "0 < unat m" "unat m \<le> unat (lib_cbufSize b)"
      using False unfolding m by (auto simp: unat_gt_0)
    note cbuf_get_state [OF assms(1) k refl b']
    then show ?thesis using o m b' by (auto simp: min_def)
  qed
  then show "cbuf_inv b'" "cb_capacity b' = cb_capacity b" "out = take (unat sz) (cbuf_list b)"
    "unat m = length out" "cbuf_list b' = drop (unat sz) (cbuf_list b)" by auto
qed

section \<open>Byte operations\<close>

lemma memcpy_from_single: "i < length d \<Longrightarrow> memcpy_from d i 1 = [d ! i]"
  by (simp add: memcpy_from_def take_Suc_conv_app_nth hd_drop_conv_nth take_Suc Cons_nth_drop_Suc [symmetric])

lemma to_int_1: "to_int 1 = 1"
  by (rule to_int_small) simp

lemma min_one_word: "(x::size_t) \<noteq> 0 \<Longrightarrow> min 1 x = 1"
  by (auto simp: min_def word_le_nat_alt unat_gt_0 Suc_le_eq)

lemma cbufWriteByte_eq:
  assumes "cbuf_inv b"
  shows "lib_cbufWriteByte b c = map_prod unat id (lib_cbufWrite b [c] 1)"
proof -
  note inv = cbuf_invD [OF assms]
  have "cb_head b > cb_tail b \<Longrightarrow> min 1 (cb_head b - cb_tail b) = 1"
    by (rule min_one_word) auto
  moreover have "min 1 (cb_capacity b - cb_tail b) = 1"
    using inv(5) by (intro min_one_word) auto
  ultimately show ?thesis
    using inv(3,5) by (simp add: lib_cbufWriteByte_def lib_cbufWrite_def Let_def to_int_1 memcpy_to_single)
qed

lemma cbufReadByte_eq:
  assumes "cbuf_inv b"
  shows "lib_cbufReadByte b =
    (let ((m, out), b') = lib_cbufRead b 1 in (if m = 0 then None else Some (out ! 0), b'))"
proof -
  note inv = cbuf_invD [OF assms]
  have "cb_tail b > cb_head b \<Longrightarrow> min 1 (cb_tail b - cb_head b) = 1"
    by (rule min_one_word) auto
  moreover have "min 1 (cb_capacity b - cb_head b) = 1"
    using inv(4) by (intro min_one_word) auto
  ultimately show ?thesis
    using inv(3,4) by (simp add: lib_cbufReadByte_def lib_cbufRead_def Let_def to_int_1 memcpy_from_single [simplified])
qed

section \<open>The bounded queue interface\<close>

text \<open>
  What the drivers rely on: a bounded first-in first-out queue of bytes. \<open>put\<close> returns how many
  elements were accepted, \<open>get\<close> the elements delivered.
\<close>

datatype 'a qop = Put "'a list" | Get nat

fun queue_run :: "('q \<Rightarrow> 'a list \<Rightarrow> nat \<times> 'q) \<Rightarrow> ('q \<Rightarrow> nat \<Rightarrow> 'a list \<times> 'q) \<Rightarrow> 'q \<Rightarrow> 'a qop list \<Rightarrow>
    'a list \<times> 'a list \<times> 'q" where
  "queue_run put get q [] = ([], [], q)"
| "queue_run put get q (Put xs # ops) =
     (let (n, q1) = put q xs; (ins, outs, q2) = queue_run put get q1 ops in (take n xs @ ins, outs, q2))"
| "queue_run put get q (Get n # ops) =
     (let (ys, q1) = get q n; (ins, outs, q2) = queue_run put get q1 ops in (ins, ys @ outs, q2))"

fun qop_within :: "nat \<Rightarrow> 'a qop \<Rightarrow> bool" where
  "qop_within lim (Put xs) = (length xs < lim)"
| "qop_within lim (Get n) = (n < lim)"

locale bounded_queue =
  fixes qinv :: "'q \<Rightarrow> bool"
    and contents :: "'q \<Rightarrow> 'a list"
    and room :: "'q \<Rightarrow> nat"
    and lim :: nat
    and put :: "'q \<Rightarrow> 'a list \<Rightarrow> nat \<times> 'q"
    and get :: "'q \<Rightarrow> nat \<Rightarrow> 'a list \<times> 'q"
  assumes put_law: "qinv q \<Longrightarrow> length xs < lim \<Longrightarrow> put q xs = (n, q') \<Longrightarrow>
      qinv q' \<and> n = min (length xs) (room q) \<and> contents q' = contents q @ take n xs \<and>
      room q' = room q - n"
    and get_law: "qinv q \<Longrightarrow> n < lim \<Longrightarrow> get q n = (ys, q') \<Longrightarrow>
      qinv q' \<and> ys = take n (contents q) \<and> contents q' = drop n (contents q) \<and>
      room q' = room q + length ys"
begin

lemma run_fifo:
  "qinv q \<Longrightarrow> list_all (qop_within lim) ops \<Longrightarrow> queue_run put get q ops = (ins, outs, q') \<Longrightarrow>
   qinv q' \<and> contents q @ ins = outs @ contents q'"
proof (induction ops arbitrary: q ins outs q')
  case Nil
  then show ?case by simp
next
  case (Cons op ops)
  show ?case
  proof (cases op)
    case (Put xs)
    obtain n q1 where p: "put q xs = (n, q1)" by force
    obtain ins' outs' q2 where r: "queue_run put get q1 ops = (ins', outs', q2)"
      by (cases "queue_run put get q1 ops") auto
    have "qinv q1 \<and> contents q1 = contents q @ take n xs"
      using Cons.prems(1,2) Put put_law [OF _ _ p] by auto
    then show ?thesis using Cons.IH [OF _ _ r] Cons.prems p r Put by auto
  next
    case (Get n)
    obtain ys q1 where g: "get q n = (ys, q1)" by force
    obtain ins' outs' q2 where r: "queue_run put get q1 ops = (ins', outs', q2)"
      by (cases "queue_run put get q1 ops") auto
    have "qinv q1 \<and> contents q = ys @ contents q1"
      using Cons.prems(1,2) Get get_law [OF _ _ g] by auto
    then show ?thesis using Cons.IH [OF _ _ r] Cons.prems g r Get by auto
  qed
qed

lemma put_get_all:
  assumes "qinv q" "contents q = []" "length xs < lim" "length xs \<le> room q"
    and "put q xs = (n, q1)" "get q1 (length xs) = (ys, q2)"
  shows "n = length xs \<and> ys = xs \<and> contents q2 = [] \<and> room q2 = room q"
proof -
  have "qinv q1" "n = length xs" "contents q1 = xs" "room q1 = room q - n"
    using put_law [OF assms(1,3,5)] assms(2,4) by auto
  then show ?thesis using get_law [OF _ assms(3,6)] assms(4) by auto
qed

end

text \<open>The circular buffer implements the interface.\<close>

definition cbuf_put :: "cbuffer_t \<Rightarrow> bytes \<Rightarrow> nat \<times> cbuffer_t" where
  "cbuf_put b xs = map_prod unat id (lib_cbufWrite b xs (of_nat (length xs)))"

definition cbuf_get :: "cbuffer_t \<Rightarrow> nat \<Rightarrow> bytes \<times> cbuffer_t" where
  "cbuf_get b n = map_prod snd id (lib_cbufRead b (of_nat n))"

lemma unat_of_nat_size: "n < 2 ^ 64 \<Longrightarrow> unat (of_nat n :: size_t) = n"
  by (simp add: unat_of_nat_small)

interpretation cbq: bounded_queue cbuf_inv cbuf_list cbuf_room "2 ^ 64" cbuf_put cbuf_get
proof unfold_locales
  fix b b' :: cbuffer_t and xs :: bytes and n
  assume inv: "cbuf_inv b" and len: "length xs < 2 ^ 64" and put: "cbuf_put b xs = (n, b')"
  obtain m where w: "lib_cbufWrite b xs (of_nat (length xs)) = (m, b')" and n: "n = unat m"
    using put by (auto simp: cbuf_put_def map_prod_def split: prod.splits)
  note law = cbufWrite_law [OF inv _ w, unfolded unat_of_nat_size [OF len], OF order_refl]
  have "unat (lib_cbufSize b') = length (cbuf_list b')" by simp
  then have "unat (lib_cbufSize b') = unat (lib_cbufSize b) + n"
    unfolding law(4) using law(3) n by simp
  then show "cbuf_inv b' \<and> n = min (length xs) (cbuf_room b) \<and> cbuf_list b' = cbuf_list b @ take n xs \<and>
      cbuf_room b' = cbuf_room b - n"
    using law n by simp
next
  fix b b' :: cbuffer_t and ys :: bytes and n
  assume inv: "cbuf_inv b" and len: "n < 2 ^ 64" and get: "cbuf_get b n = (ys, b')"
  obtain m where r: "lib_cbufRead b (of_nat n) = ((m, ys), b')"
    using get by (auto simp: cbuf_get_def map_prod_def split: prod.splits)
  note law = cbufRead_law [OF inv r, unfolded unat_of_nat_size [OF len]]
  have "unat (lib_cbufSize b') = length (cbuf_list b')" "length ys \<le> unat (lib_cbufSize b)"
    using law(3) by simp_all
  then have "unat (lib_cbufSize b') = unat (lib_cbufSize b) - length ys"
    unfolding law(3,5) by (simp add: min_def)
  then show "cbuf_inv b' \<and> ys = take n (cbuf_list b) \<and> cbuf_list b' = drop n (cbuf_list b) \<and>
      cbuf_room b' = cbuf_room b + length ys"
    using law cbuf_size_le [OF inv] by simp
qed

section \<open>Properties\<close>

text \<open>
  C23: The circular buffer is a first-in first-out queue: for any sequence of writes and reads, of any
  sizes, the bytes accepted by the writes, after the bytes already stored, are exactly the bytes delivered by
  the reads followed by what is still stored, and the invariant of the buffer holds at the end.
\<close>

theorem cbuf_fifo:
  assumes "cbuf_inv b" "list_all (qop_within (2 ^ 64)) ops"
    "queue_run cbuf_put cbuf_get b ops = (ins, outs, b')"
  shows "cbuf_inv b' \<and> cbuf_list b @ ins = outs @ cbuf_list b'"
  by (rule cbq.run_fifo [OF assms])

theorem cbuf_fifo_witness:
  "\<exists>outs b'. queue_run cbuf_put cbuf_get (lib_cbufInit [0, 0, 0, 0] 4)
      [Put [1, 2, 3], Get 2, Put [4, 5, 6, 7], Get 1] = ([1, 2, 3, 4, 5, 6], outs, b') \<and>
    cbuf_inv b' \<and> [] @ [1, 2, 3, 4, 5, 6] = outs @ cbuf_list b'"
proof -
  let ?b = "lib_cbufInit [0, 0, 0, 0] 4"
  let ?ops = "[Put [1, 2, 3], Get 2, Put [4, 5, 6, 7], Get 1] :: u8 qop list"
  have run: "fst (queue_run cbuf_put cbuf_get ?b ?ops) = [1, 2, 3, 4, 5, 6]" by code_simp
  moreover have "cbuf_inv ?b" "cbuf_list ?b = []" "list_all (qop_within (2 ^ 64)) ?ops"
    by (simp_all add: cbuf_inv_def cbuf_list_def lib_cbufInit_def lib_cbufSize_def)
  moreover obtain ins outs b' where r: "queue_run cbuf_put cbuf_get ?b ?ops = (ins, outs, b')"
    by (metis prod_cases3)
  ultimately show ?thesis using cbuf_fifo [of ?b ?ops ins outs b'] by auto
qed

text \<open>
  A write to the circular buffer accepts as many bytes as fit, appends exactly those to the contents and
  reports their number; a following read of any size delivers a prefix of the contents and removes it. The capacity
  never changes.
\<close>

theorem cbuf_write_read:
  assumes "cbuf_inv b" "unat sz \<le> length src" "lib_cbufWrite b src sz = (n, b1)"
    "lib_cbufRead b1 sz' = ((m, out), b2)"
  shows "unat n = min (unat sz) (unat (cb_capacity b) - unat (lib_cbufSize b)) \<and>
    out = take (unat sz') (cbuf_list b @ take (unat n) src) \<and> unat m = length out \<and>
    cbuf_list b2 = drop (unat sz') (cbuf_list b @ take (unat n) src) \<and>
    cbuf_inv b2 \<and> cb_capacity b2 = cb_capacity b"
  using cbufWrite_law [OF assms(1-3)] cbufRead_law [OF _ assms(4)] by simp

theorem cbuf_write_read_witness:
  "\<exists>b2. lib_cbufRead (snd (lib_cbufWrite (lib_cbufInit [0, 0, 0, 0] 4) [1, 2, 3, 4, 5] 5)) 3 = ((3, [1, 2, 3]), b2) \<and>
     cbuf_list b2 = [4]"
proof -
  let ?b = "lib_cbufInit [0, 0, 0, 0] 4" and ?src = "[1, 2, 3, 4, 5] :: bytes"
  obtain n b1 where w: "lib_cbufWrite ?b ?src 5 = (n, b1)" by force
  obtain m out b2 where r: "lib_cbufRead b1 3 = ((m, out), b2)" by (metis prod.exhaust)
  have b: "cbuf_inv ?b" "cbuf_list ?b = []" "cb_capacity ?b = 4" "lib_cbufSize ?b = 0"
    by (simp_all add: cbuf_inv_def cbuf_list_def lib_cbufInit_def lib_cbufSize_def)
  note c = cbuf_write_read [OF b(1) _ w r]
  have "unat n = 4" using c b by simp
  then have "out = [1, 2, 3] \<and> unat m = 3 \<and> cbuf_list b2 = [4]" using c b(2) by simp
  moreover from this have "m = 3" by (simp add: word_unat_eq_iff)
  ultimately show ?thesis using w r by simp
qed

text \<open>
  The byte-wise operations of the circular buffer are the block operations on one byte, whatever the state
  of a well-formed buffer.
\<close>

theorem cbuf_byte_ops:
  assumes "cbuf_inv b"
  shows "lib_cbufWriteByte b c = map_prod unat id (lib_cbufWrite b [c] 1) \<and>
    lib_cbufReadByte b = (let ((m, out), b') = lib_cbufRead b 1 in (if m = 0 then None else Some (out ! 0), b'))"
  using cbufWriteByte_eq [OF assms] cbufReadByte_eq [OF assms] by simp

theorem cbuf_byte_ops_witness:
  "lib_cbufWriteByte (lib_cbufInit [0, 0] 2) 7 = map_prod unat id (lib_cbufWrite (lib_cbufInit [0, 0] 2) [7] 1)"
  by (rule cbuf_byte_ops [THEN conjunct1]) (simp add: cbuf_inv_def lib_cbufInit_def)

end
