(* ===== verification/Crc32.thy ===== *)
theory Crc32
  imports Prelude
begin

text \<open>
  \<open>lib/crc32.c\<close>: the CRC-32 of the partition table. The file holds two versions of
  \<open>lib_crc32\<close>, selected by \<open>USE_CRC32_TAB\<close>: a bitwise loop and a table driven one. Both are
  modelled; the main result is that they compute the same value on every input, which rests on the
  linearity of the shift step and on the 256 entries of the table.
\<close>

definition CRC32POLY_LE :: u32 where
  "CRC32POLY_LE = 0xedb88320"

definition crc32_tab :: "u32 list" where
  "crc32_tab =
    [
     0x00000000, 0x77073096, 0xee0e612c, 0x990951ba, 0x076dc419, 0x706af48f,
     0xe963a535, 0x9e6495a3, 0x0edb8832, 0x79dcb8a4, 0xe0d5e91e, 0x97d2d988,
     0x09b64c2b, 0x7eb17cbd, 0xe7b82d07, 0x90bf1d91, 0x1db71064, 0x6ab020f2,
     0xf3b97148, 0x84be41de, 0x1adad47d, 0x6ddde4eb, 0xf4d4b551, 0x83d385c7,
     0x136c9856, 0x646ba8c0, 0xfd62f97a, 0x8a65c9ec, 0x14015c4f, 0x63066cd9,
     0xfa0f3d63, 0x8d080df5, 0x3b6e20c8, 0x4c69105e, 0xd56041e4, 0xa2677172,
     0x3c03e4d1, 0x4b04d447, 0xd20d85fd, 0xa50ab56b, 0x35b5a8fa, 0x42b2986c,
     0xdbbbc9d6, 0xacbcf940, 0x32d86ce3, 0x45df5c75, 0xdcd60dcf, 0xabd13d59,
     0x26d930ac, 0x51de003a, 0xc8d75180, 0xbfd06116, 0x21b4f4b5, 0x56b3c423,
     0xcfba9599, 0xb8bda50f, 0x2802b89e, 0x5f058808, 0xc60cd9b2, 0xb10be924,
     0x2f6f7c87, 0x58684c11, 0xc1611dab, 0xb6662d3d, 0x76dc4190, 0x01db7106,
     0x98d220bc, 0xefd5102a, 0x71b18589, 0x06b6b51f, 0x9fbfe4a5, 0xe8b8d433,
     0x7807c9a2, 0x0f00f934, 0x9609a88e, 0xe10e9818, 0x7f6a0dbb, 0x086d3d2d,
     0x91646c97, 0xe6635c01, 0x6b6b51f4, 0x1c6c6162, 0x856530d8, 0xf262004e,
     0x6c0695ed, 0x1b01a57b, 0x8208f4c1, 0xf50fc457, 0x65b0d9c6, 0x12b7e950,
     0x8bbeb8ea, 0xfcb9887c, 0x62dd1ddf, 0x15da2d49, 0x8cd37cf3, 0xfbd44c65,
     0x4db26158, 0x3ab551ce, 0xa3bc0074, 0xd4bb30e2, 0x4adfa541, 0x3dd895d7,
     0xa4d1c46d, 0xd3d6f4fb, 0x4369e96a, 0x346ed9fc, 0xad678846, 0xda60b8d0,
     0x44042d73, 0x33031de5, 0xaa0a4c5f, 0xdd0d7cc9, 0x5005713c, 0x270241aa,
     0xbe0b1010, 0xc90c2086, 0x5768b525, 0x206f85b3, 0xb966d409, 0xce61e49f,
     0x5edef90e, 0x29d9c998, 0xb0d09822, 0xc7d7a8b4, 0x59b33d17, 0x2eb40d81,
     0xb7bd5c3b, 0xc0ba6cad, 0xedb88320, 0x9abfb3b6, 0x03b6e20c, 0x74b1d29a,
     0xead54739, 0x9dd277af, 0x04db2615, 0x73dc1683, 0xe3630b12, 0x94643b84,
     0x0d6d6a3e, 0x7a6a5aa8, 0xe40ecf0b, 0x9309ff9d, 0x0a00ae27, 0x7d079eb1,
     0xf00f9344, 0x8708a3d2, 0x1e01f268, 0x6906c2fe, 0xf762575d, 0x806567cb,
     0x196c3671, 0x6e6b06e7, 0xfed41b76, 0x89d32be0, 0x10da7a5a, 0x67dd4acc,
     0xf9b9df6f, 0x8ebeeff9, 0x17b7be43, 0x60b08ed5, 0xd6d6a3e8, 0xa1d1937e,
     0x38d8c2c4, 0x4fdff252, 0xd1bb67f1, 0xa6bc5767, 0x3fb506dd, 0x48b2364b,
     0xd80d2bda, 0xaf0a1b4c, 0x36034af6, 0x41047a60, 0xdf60efc3, 0xa867df55,
     0x316e8eef, 0x4669be79, 0xcb61b38c, 0xbc66831a, 0x256fd2a0, 0x5268e236,
     0xcc0c7795, 0xbb0b4703, 0x220216b9, 0x5505262f, 0xc5ba3bbe, 0xb2bd0b28,
     0x2bb45a92, 0x5cb36a04, 0xc2d7ffa7, 0xb5d0cf31, 0x2cd99e8b, 0x5bdeae1d,
     0x9b64c2b0, 0xec63f226, 0x756aa39c, 0x026d930a, 0x9c0906a9, 0xeb0e363f,
     0x72076785, 0x05005713, 0x95bf4a82, 0xe2b87a14, 0x7bb12bae, 0x0cb61b38,
     0x92d28e9b, 0xe5d5be0d, 0x7cdcefb7, 0x0bdbdf21, 0x86d3d2d4, 0xf1d4e242,
     0x68ddb3f8, 0x1fda836e, 0x81be16cd, 0xf6b9265b, 0x6fb077e1, 0x18b74777,
     0x88085ae6, 0xff0f6a70, 0x66063bca, 0x11010b5c, 0x8f659eff, 0xf862ae69,
     0x616bffd3, 0x166ccf45, 0xa00ae278, 0xd70dd2ee, 0x4e048354, 0x3903b3c2,
     0xa7672661, 0xd06016f7, 0x4969474d, 0x3e6e77db, 0xaed16a4a, 0xd9d65adc,
     0x40df0b66, 0x37d83bf0, 0xa9bcae53, 0xdebb9ec5, 0x47b2cf7f, 0x30b5ffe9,
     0xbdbdf21c, 0xcabac28a, 0x53b39330, 0x24b4a3a6, 0xbad03605, 0xcdd70693,
     0x54de5729, 0x23d967bf, 0xb3667a2e, 0xc4614ab8, 0x5d681b02, 0x2a6f2b94,
     0xb40bbe37, 0xc30c8ea1, 0x5a05df1b, 0x2d02ef8d]"

text \<open>One iteration of the inner loop, and the loop run \<open>n\<close> times.\<close>

definition crc_step :: "u32 \<Rightarrow> u32" where
  "crc_step crc = drop_bit 1 crc XOR (if crc AND 1 \<noteq> 0 then CRC32POLY_LE else 0)"

fun crc_steps :: "nat \<Rightarrow> u32 \<Rightarrow> u32" where
  "crc_steps 0 crc = crc"
| "crc_steps (Suc n) crc = crc_steps n (crc_step crc)"

fun crc32_bitwise :: "bytes \<Rightarrow> u32 \<Rightarrow> u32" where
  "crc32_bitwise [] crc = crc"
| "crc32_bitwise (b # bs) crc = crc32_bitwise bs (crc_steps 8 (crc XOR ucast b))"

fun crc32_table :: "bytes \<Rightarrow> u32 \<Rightarrow> u32" where
  "crc32_table [] crc = crc"
| "crc32_table (b # bs) crc =
     crc32_table bs (drop_bit 8 crc XOR crc32_tab ! unat ((crc XOR ucast b) AND 0xff))"

definition lib_crc32 :: "bytes \<Rightarrow> u32 \<Rightarrow> u32 \<Rightarrow> u32" where
  "lib_crc32 buf len base = crc32_bitwise (take (unat len) buf) base"

definition lib_crc32_usetab :: "bytes \<Rightarrow> u32 \<Rightarrow> u32 \<Rightarrow> u32" where
  "lib_crc32_usetab buf len base = crc32_table (take (unat len) buf) base"

section \<open>Linearity\<close>

lemma and_one_nonzero: "(x::u32) AND 1 \<noteq> 0 \<longleftrightarrow> odd x"
  by (simp add: and_one_eq odd_iff_mod_2_eq_one)

lemma crc_step_xor: "crc_step (a XOR b) = crc_step a XOR crc_step b"
  unfolding crc_step_def and_one_nonzero drop_bit_xor even_xor_iff
  by (auto simp: xor.assoc xor.left_commute)

lemma crc_steps_xor: "crc_steps n (a XOR b) = crc_steps n a XOR crc_steps n b"
  by (induction n arbitrary: a b) (simp_all add: crc_step_xor)

lemma crc_steps_high: "take_bit n x = 0 \<Longrightarrow> crc_steps n x = drop_bit n x"
proof (induction n arbitrary: x)
  case (Suc n)
  have e: "\<not> bit x 0" and h: "take_bit n (drop_bit 1 x) = 0"
    using Suc.prems bit_take_bit_iff [of "Suc n" x 0] by (auto simp: take_bit_drop_bit)
  have "crc_step x = drop_bit 1 x" using e by (simp add: crc_step_def and_one_nonzero bit_0)
  then show ?case using Suc.IH [OF h] by simp
qed simp

lemma crc_steps_8:
  "crc_steps 8 x = crc_step (crc_step (crc_step (crc_step (crc_step (crc_step (crc_step (crc_step x)))))))"
  by (simp add: numeral_eq_Suc)

lemma crc_step_even: "crc_step (numeral (Num.Bit0 n)) = drop_bit 1 (numeral (Num.Bit0 n))"
  by (simp add: crc_step_def)

lemma crc_step_odd: "crc_step (numeral (Num.Bit1 n)) = drop_bit 1 (numeral (Num.Bit1 n)) XOR 0xedb88320"
  by (simp add: crc_step_def CRC32POLY_LE_def)

lemma crc_step_1: "crc_step 1 = 0xedb88320" "crc_step 0 = 0"
  by (simp_all add: crc_step_def CRC32POLY_LE_def)

lemma crc_step_zero: "crc_step x = 0 \<longleftrightarrow> x = 0"
proof
  assume z: "crc_step x = 0"
  have p31: "bit CRC32POLY_LE 31" by (simp add: CRC32POLY_LE_def bit_numeral_rec)
  have d31: "\<not> bit (drop_bit 1 x) 31" by (auto simp: bit_simps dest: bit_imp_le_length)
  have "even x"
  proof (rule ccontr)
    assume "odd x"
    then have "drop_bit 1 x XOR CRC32POLY_LE = 0" using z by (simp add: crc_step_def and_one_nonzero)
    then have "bit (drop_bit 1 x XOR CRC32POLY_LE) 31 = bit (0::u32) 31" by simp
    then show False using p31 d31 unfolding bit_xor_iff by simp
  qed
  moreover from this have "drop_bit 1 x = 0" using z by (simp add: crc_step_def and_one_nonzero)
  ultimately show "x = 0"
    using bits_ident [of 1 x] by (simp add: take_bit_Suc even_iff_mod_2_eq_zero)
qed (simp add: crc_step_def)

lemma crc_steps_zero: "crc_steps n x = 0 \<longleftrightarrow> x = 0"
  by (induction n arbitrary: x) (simp_all add: crc_step_zero)

lemma xor_cancel_right: "(a::u32) XOR c = b XOR c \<longleftrightarrow> a = b"
proof
  assume "a XOR c = b XOR c"
  then have "(a XOR c) XOR c = (b XOR c) XOR c" by simp
  then show "a = b" by (simp only: xor.assoc xor_self_eq xor.right_neutral)
qed simp

lemma xor_eq_0: "(a::u32) XOR b = 0 \<longleftrightarrow> a = b"
  using xor_cancel_right [of a b b] by simp

lemma crc_steps_inj: "crc_steps n a = crc_steps n b \<longleftrightarrow> a = b"
proof -
  have "crc_steps n a = crc_steps n b \<longleftrightarrow> crc_steps n (a XOR b) = 0"
    unfolding crc_steps_xor by (rule xor_eq_0 [symmetric])
  then show ?thesis by (simp add: crc_steps_zero xor_eq_0)
qed

lemma crc32_bitwise_inj: "crc32_bitwise bs a = crc32_bitwise bs b \<longleftrightarrow> a = b"
proof (induction bs arbitrary: a b)
  case (Cons x bs)
  then show ?case by (simp add: crc_steps_inj xor_cancel_right)
qed simp

lemma crc32_tab_entries: "crc32_tab = map (\<lambda>i. crc_steps 8 (of_nat i)) [0..<256]"
  by (simp add: crc32_tab_def crc_steps_8 crc_step_even crc_step_odd crc_step_1 upt_conv_Cons)

lemma crc32_tab_nth:
  assumes "unat (x::u32) < 256"
  shows "crc32_tab ! unat x = crc_steps 8 x"
  using assms unfolding crc32_tab_entries by simp

lemma crc_steps_byte:
  "crc_steps 8 x = drop_bit 8 x XOR crc32_tab ! unat (x AND 0xff)"
proof -
  let ?lo = "take_bit 8 x" and ?hi = "x XOR take_bit 8 x"
  have lo: "x AND 0xff = ?lo" by (simp add: take_bit_eq_mask mask_numeral)
  have ub: "unat ?lo < 256"
    unfolding unsigned_take_bit_eq using take_bit_nat_less_exp [of 8 "unat x"] by simp
  have z: "take_bit 8 ?hi = 0" by (simp add: take_bit_xor)
  have d: "drop_bit 8 ?hi = drop_bit 8 x" by (simp add: drop_bit_xor drop_bit_take_bit)
  have "crc_steps 8 (?hi XOR ?lo) = crc_steps 8 ?hi XOR crc_steps 8 ?lo" by (rule crc_steps_xor)
  also have "crc_steps 8 ?hi = drop_bit 8 x" using crc_steps_high [OF z] d by simp
  also have "crc_steps 8 ?lo = crc32_tab ! unat ?lo" by (rule crc32_tab_nth [OF ub, symmetric])
  finally show ?thesis unfolding lo by (simp add: xor.assoc)
qed

lemma drop_bit_ucast_byte: "drop_bit 8 (ucast (b::u8) :: u32) = 0"
  by (rule bit_word_eqI) (auto simp: bit_simps dest: bit_imp_le_length)

lemma crc32_table_eq: "crc32_table bs crc = crc32_bitwise bs crc"
  by (induction bs arbitrary: crc) (simp_all add: crc_steps_byte drop_bit_xor drop_bit_ucast_byte)

lemma crc32_bitwise_append: "crc32_bitwise (xs @ ys) crc = crc32_bitwise ys (crc32_bitwise xs crc)"
  by (induction xs arbitrary: crc) simp_all

lemma ucast_u8_inj: "(ucast (a::u8) :: u32) = ucast b \<longleftrightarrow> a = b"
proof
  assume "(ucast a :: u32) = ucast b"
  then have "unat (ucast a :: u32) = unat (ucast b :: u32)" by simp
  then show "a = b"
    using unat_less_exp [of a] unat_less_exp [of b]
    by (simp add: unsigned_ucast_eq take_bit_nat_eq_self word_unat_eq_iff)
qed simp

section \<open>Properties\<close>

text \<open>
  C37: The table-driven checksum computes the same value as the bitwise one on every buffer, length and starting
  value: the 256 table entries are the ones the polynomial gives.
\<close>

theorem crc32_usetab_eq: "lib_crc32_usetab buf len base = lib_crc32 buf len base"
  by (simp add: lib_crc32_usetab_def lib_crc32_def crc32_table_eq)

text \<open>
  The checksum detects every change of a single byte: two buffers that differ in exactly one of the bytes
  covered never have the same checksum from the same starting value.
\<close>

theorem crc32_detects_byte:
  assumes "length pre < unat len" "a \<noteq> b"
  shows "lib_crc32 (pre @ a # post) len base \<noteq> lib_crc32 (pre @ b # post) len base"
proof -
  obtain k where "unat len - length pre = Suc k" using assms(1) by (metis Suc_diff_Suc)
  then show ?thesis
    using assms unfolding lib_crc32_def
    by (simp add: crc32_bitwise_append crc32_bitwise_inj crc_steps_inj)
       (metis xor.commute xor_cancel_right ucast_u8_inj)
qed

theorem crc32_detects_byte_witness:
  "lib_crc32 ([1, 2] @ 3 # [4]) 4 0 \<noteq> lib_crc32 ([1, 2] @ 5 # [4]) 4 0"
  by (rule crc32_detects_byte) simp_all

text \<open>
  A checksum can be computed piecewise, as the loader does when it copies a file in packets: the checksum of
  a concatenation is the checksum of the second part started from the checksum of the first.
\<close>

theorem crc32_piecewise:
  assumes "length (xs @ ys) < 2 ^ 32"
  shows "lib_crc32 (xs @ ys) (of_nat (length (xs @ ys))) base =
    lib_crc32 ys (of_nat (length ys)) (lib_crc32 xs (of_nat (length xs)) base)"
  using assms by (simp add: lib_crc32_def crc32_bitwise_append unat_of_nat_small del: of_nat_add)

theorem crc32_piecewise_witness:
  "lib_crc32 ([1, 2] @ [3]) (of_nat (length ([1, 2] @ [3 :: u8]))) 0 =
    lib_crc32 [3] (of_nat (length [3 :: u8])) (lib_crc32 [1, 2] (of_nat (length [1 :: u8, 2])) 0)"
  by (rule crc32_piecewise) simp

end
