(* ===== verification/Hal_String.thy ===== *)
theory Hal_String
  imports Prelude
begin

text \<open>
  \<open>hal/aarch64/string.c\<close> and \<open>lib/ctype.c\<close>. A C string is the character array that holds it: a
  list whose content ends at the first NUL, or at the end of the list, where the terminator is
  implicit. \<open>cstr\<close> is the content. Copies between memory regions work on a flat memory
  (\<open>mem\<close>), byte by byte in the order of the C loop, so overlapping regions behave as they do there.
\<close>

section \<open>Characters\<close>

definition NUL :: char where
  "NUL = CHR 0x00"

definition code :: "char \<Rightarrow> int" where
  "code c = of_char c"

definition lib_islower :: "int \<Rightarrow> bool" where
  "lib_islower c \<longleftrightarrow> c \<ge> code CHR ''a'' \<and> c \<le> code CHR ''z''"

definition lib_isupper :: "int \<Rightarrow> bool" where
  "lib_isupper c \<longleftrightarrow> c \<ge> code CHR ''A'' \<and> c \<le> code CHR ''Z''"

definition lib_isalpha :: "int \<Rightarrow> bool" where
  "lib_isalpha c \<longleftrightarrow> lib_islower c \<or> lib_isupper c"

definition lib_isdigit :: "int \<Rightarrow> bool" where
  "lib_isdigit c \<longleftrightarrow> c \<ge> code CHR ''0'' \<and> c \<le> code CHR ''9''"

definition lib_isalnum :: "int \<Rightarrow> bool" where
  "lib_isalnum c \<longleftrightarrow> lib_islower c \<or> lib_isupper c \<or> lib_isdigit c"

definition lib_isblank :: "int \<Rightarrow> bool" where
  "lib_isblank c \<longleftrightarrow> c = code CHR '' '' \<or> c = code CHR 0x09"

definition lib_isspace :: "int \<Rightarrow> bool" where
  "lib_isspace c \<longleftrightarrow> lib_isblank c \<or> (c \<ge> code CHR 0x0A \<and> c \<le> code CHR 0x0D)"

definition lib_isgraph :: "int \<Rightarrow> bool" where
  "lib_isgraph c \<longleftrightarrow> c > code CHR '' '' \<and> c < 0x7f"

definition lib_isprint :: "int \<Rightarrow> bool" where
  "lib_isprint c \<longleftrightarrow> c \<ge> code CHR '' '' \<and> c < 0x7f"

lemmas ctype_defs = lib_islower_def lib_isupper_def lib_isalpha_def lib_isdigit_def lib_isalnum_def
  lib_isblank_def lib_isspace_def lib_isgraph_def lib_isprint_def code_def

section \<open>Strings\<close>

definition chr0 :: "string \<Rightarrow> char" where
  "chr0 s = (case s of [] \<Rightarrow> NUL | c # _ \<Rightarrow> c)"

definition chr_at :: "string \<Rightarrow> nat \<Rightarrow> char" where
  "chr_at s i = chr0 (drop i s)"

definition cstr :: "string \<Rightarrow> string" where
  "cstr s = takeWhile (\<lambda>c. c \<noteq> NUL) s"

fun hal_strlen :: "string \<Rightarrow> nat" where
  "hal_strlen [] = 0"
| "hal_strlen (c # s) = (if c = NUL then 0 else Suc (hal_strlen s))"

fun hal_strcmp :: "string \<Rightarrow> string \<Rightarrow> int" where
  "hal_strcmp [] t = (if chr0 t \<noteq> NUL then -1 else 0)"
| "hal_strcmp (c # s) t =
     (if c = NUL then (if chr0 t \<noteq> NUL then -1 else 0)
      else if code c < code (chr0 t) then -1
      else if code c > code (chr0 t) then 1
      else hal_strcmp s (tl t))"

text \<open>The loop of \<open>hal_strncmp\<close> stops at \<open>(k, s, t)\<close>.\<close>

fun strncmp_loop :: "nat \<Rightarrow> string \<Rightarrow> string \<Rightarrow> nat \<Rightarrow> nat \<times> string \<times> string" where
  "strncmp_loop 0 s t k = (k, s, t)"
| "strncmp_loop (Suc n) s t k =
     (if chr0 s \<noteq> NUL \<and> chr0 t \<noteq> NUL \<and> chr0 s = chr0 t then strncmp_loop n (tl s) (tl t) (Suc k)
      else (k, s, t))"

definition hal_strncmp :: "string \<Rightarrow> string \<Rightarrow> nat \<Rightarrow> int" where
  "hal_strncmp s t count =
     (case strncmp_loop count s t 0 of (k, s', t') \<Rightarrow>
        if k = count \<or> (chr0 s' = NUL \<and> chr0 t' = NUL) then 0
        else if code (chr0 s') < code (chr0 t') then - int k - 1 else int k + 1)"

text \<open>The characters \<open>hal_strcpy\<close> and \<open>hal_strncpy\<close> store at the start of \<open>dest\<close>.\<close>

fun strcpy_chars :: "string \<Rightarrow> string" where
  "strcpy_chars [] = [NUL]"
| "strcpy_chars (c # s) = (if c = NUL then [NUL] else c # strcpy_chars s)"

fun strncpy_chars :: "string \<Rightarrow> nat \<Rightarrow> string" where
  "strncpy_chars s 0 = []"
| "strncpy_chars [] (Suc n) = [NUL]"
| "strncpy_chars (c # s) (Suc n) = (if c = NUL then [NUL] else c # strncpy_chars s n)"

definition hal_strcpy :: "string \<Rightarrow> string \<Rightarrow> string" where
  "hal_strcpy dest src = memcpy_to dest 0 (strcpy_chars src)"

definition hal_strncpy :: "string \<Rightarrow> string \<Rightarrow> nat \<Rightarrow> string" where
  "hal_strncpy dest src n = memcpy_to dest 0 (strncpy_chars src n)"

text \<open>\<open>hal_strchr\<close> returns the rest of the string from the character found.\<close>

fun hal_strchr :: "string \<Rightarrow> char \<Rightarrow> string option" where
  "hal_strchr [] c = (if c = NUL then Some [] else None)"
| "hal_strchr (x # s) c = (if x = c then Some (x # s) else if x = NUL then None else hal_strchr s c)"

section \<open>Memory\<close>

type_synonym mem = "addr_t \<Rightarrow> u8"

text \<open>The loop of \<open>hal_memcpy\<close>, run for the \<open>l\<close> bytes that separate \<open>dst\<close> from its end.\<close>

fun memcpy_loop :: "nat \<Rightarrow> mem \<Rightarrow> addr_t \<Rightarrow> addr_t \<Rightarrow> mem" where
  "memcpy_loop 0 m dst src = m"
| "memcpy_loop (Suc n) m dst src = memcpy_loop n (m(dst := m src)) (dst + 1) (src + 1)"

definition hal_memcpy :: "mem \<Rightarrow> addr_t \<Rightarrow> addr_t \<Rightarrow> size_t \<Rightarrow> mem" where
  "hal_memcpy m dst src l = memcpy_loop (unat l) m dst src"

fun memset_loop :: "nat \<Rightarrow> mem \<Rightarrow> addr_t \<Rightarrow> u8 \<Rightarrow> mem" where
  "memset_loop 0 m dst v = m"
| "memset_loop (Suc n) m dst v = memset_loop n (m(dst := v)) (dst + 1) v"

definition hal_memset :: "mem \<Rightarrow> addr_t \<Rightarrow> u8 \<Rightarrow> size_t \<Rightarrow> mem" where
  "hal_memset m dst v len = memset_loop (unat len) m dst v"

fun memcmp_bytes :: "bytes \<Rightarrow> bytes \<Rightarrow> int" where
  "memcmp_bytes (a # as) (b # bs) = (if a < b then -1 else if a > b then 1 else memcmp_bytes as bs)"
| "memcmp_bytes _ _ = 0"

definition hal_memcmp :: "bytes \<Rightarrow> bytes \<Rightarrow> nat \<Rightarrow> int" where
  "hal_memcmp p q num = memcmp_bytes (take num p) (take num q)"

definition mem_bytes :: "mem \<Rightarrow> addr_t \<Rightarrow> nat \<Rightarrow> bytes" where
  "mem_bytes m a n = map (\<lambda>i. m (a + of_nat i)) [0..<n]"

text \<open>Storing the bytes of a buffer outside the memory region at address \<open>a\<close>.\<close>

definition mem_store :: "mem \<Rightarrow> addr_t \<Rightarrow> bytes \<Rightarrow> mem" where
  "mem_store m a bs x = (if unat (x - a) < length bs then bs ! unat (x - a) else m x)"

section \<open>Printing a number in a base\<close>

text \<open>
  \<open>hal_i2s\<close>: the digits of \<open>i\<close> in base \<open>b\<close> in the buffer after \<open>prefix\<close>, least significant first,
  then reversed in place by the swap loop. \<open>l\<close> is an \<open>unsigned int\<close>: it bounds the number of
  digits by those of a 32-bit number, although \<open>i\<close> is an \<open>unsigned long\<close>. The result is \<open>None\<close> where
  the function leaves its arrays: for a base outside 2 to 16 (it divides by 0, does not end, or reads behind the
  table of digits), and where nothing at all is printed (an empty prefix, \<open>i = 0\<close> and no \<open>zero\<close>): there the
  unsigned \<open>k--\<close> makes \<open>k\<close> the largest \<open>unsigned int\<close>, and the swap loop starts behind the buffer.
\<close>

definition i2s_digits :: string where
  "i2s_digits = ''0123456789abcdef''"

function i2s_loop :: "u64 \<Rightarrow> u32 \<Rightarrow> nat \<Rightarrow> bool \<Rightarrow> string" where
  "i2s_loop i l b zero =
     (if l = 0 \<or> b < 2 \<or> (\<not> zero \<and> i = 0) then []
      else i2s_digits ! (unat i mod b) # i2s_loop (of_nat (unat i div b)) (of_nat (unat l div b)) b zero)"
  by pat_completeness auto
termination
proof (relation "measure (\<lambda>(i, l, b, zero). unat l)", goal_cases)
  case (2 i l b zero)
  then have "0 < unat l" "1 < b" by (auto simp: unat_gt_0)
  then have d: "unat l div b < unat l" by simp
  then have "unat (of_nat (unat l div b) :: u32) = unat l div b"
    by (intro unat_of_nat_le [of _ l]) simp
  then show ?case using d by simp
qed simp

declare i2s_loop.simps [simp del]

fun swap_loop :: "nat \<Rightarrow> string \<Rightarrow> nat \<Rightarrow> nat \<Rightarrow> string" where
  "swap_loop 0 s m k = s"
| "swap_loop (Suc f) s m k =
     (if k > m then swap_loop f (s[m := s ! k, k := s ! m]) (Suc m) (k - 1) else s)"

definition hal_i2s :: "string \<Rightarrow> u64 \<Rightarrow> nat \<Rightarrow> bool \<Rightarrow> (nat \<times> string) option" where
  "hal_i2s prefix i b zero =
     (let s = cstr prefix @ i2s_loop i (-1) b zero;
          m = hal_strlen prefix; l = length s
      in if b < 2 \<or> 16 < b \<or> l = 0 then None else Some (l, swap_loop l s m (l - 1)))"

section \<open>Facts on strings\<close>

lemma chr0_simps [simp]: "chr0 [] = NUL" "chr0 (c # s) = c"
  by (simp_all add: chr0_def)

lemma chr_at_simps [simp]: "chr_at s 0 = chr0 s" "chr_at (c # s) (Suc i) = chr_at s i" "chr_at [] i = NUL"
  by (simp_all add: chr_at_def)

lemma chr_at_nth: "chr_at s i = (if i < length s then s ! i else NUL)"
  by (auto simp: chr_at_def chr0_def Cons_nth_drop_Suc [symmetric])

lemma cstr_simps [simp]: "cstr [] = []" "cstr (c # s) = (if c = NUL then [] else c # cstr s)"
  by (simp_all add: cstr_def)

lemma cstr_id [simp]: "NUL \<notin> set s \<Longrightarrow> cstr s = s"
  by (induction s) auto

lemma NUL_notin_cstr [simp]: "NUL \<notin> set (cstr s)"
  by (induction s) auto

lemma cstr_append_NUL [simp]: "NUL \<notin> set s \<Longrightarrow> cstr (s @ NUL # t) = s"
  by (induction s) auto

lemma hal_strlen_cstr: "hal_strlen s = length (cstr s)"
  by (induction s) auto

lemma code_inj [simp]: "code a = code b \<longleftrightarrow> a = b"
  by (simp add: code_def)

lemma hal_strcmp_eq_0: "hal_strcmp s t = 0 \<longleftrightarrow> cstr s = cstr t"
proof (induction s t rule: hal_strcmp.induct)
  case (1 t)
  then show ?case by (cases t) auto
next
  case (2 c s t)
  then show ?case by (cases t) (auto simp: code_def)
qed

lemma strcpy_chars_eq: "strcpy_chars s = cstr s @ [NUL]"
  by (induction s) auto

lemma hal_strchr_Some: "hal_strchr s c = Some r \<Longrightarrow> chr0 r = c \<and> (\<exists>p. s = p @ r \<and> c \<notin> set p \<and> NUL \<notin> set p)"
proof (induction s)
  case (Cons x s)
  then show ?case
  proof (cases "x = c \<or> x = NUL")
    case False
    with Cons obtain p where "s = p @ r" "chr0 r = c" "c \<notin> set p" "NUL \<notin> set p" by auto
    with False show ?thesis by (intro conjI exI [of _ "x # p"]) auto
  qed (auto split: if_splits)
qed (simp split: if_splits)

lemma hal_strchr_None: "c \<noteq> NUL \<Longrightarrow> hal_strchr s c = None \<longleftrightarrow> c \<notin> set (cstr s)"
  by (induction s) auto

lemma memcmp_bytes_eq_0: "length p = length q \<Longrightarrow> memcmp_bytes p q = 0 \<longleftrightarrow> p = q"
  by (induction p q rule: list_induct2) auto


section \<open>Facts on memory\<close>

lemma length_mem_bytes [simp]: "length (mem_bytes m a n) = n"
  by (simp add: mem_bytes_def)

lemma mem_bytes_Suc: "mem_bytes m a (Suc n) = m a # mem_bytes m (a + 1) n"
  unfolding mem_bytes_def upt_conv_Cons [OF zero_less_Suc] map_Suc_upt [symmetric]
  by (simp add: ac_simps)

lemma mem_bytes_cong: "(\<And>i. i < n \<Longrightarrow> m (a + of_nat i) = m' (a' + of_nat i)) \<Longrightarrow> mem_bytes m a n = mem_bytes m' a' n"
  by (simp add: mem_bytes_def)

lemma of_nat_size_neq_0: "0 < n \<Longrightarrow> n < 2 ^ 64 \<Longrightarrow> (of_nat n :: addr_t) \<noteq> 0"
  using unat_of_nat_small [where 'a = 64, of n] by (auto simp: unat_0_iff [symmetric] simp del: unat_0_iff)

lemma memcpy_loop_frame:
  "(\<And>i. i < n \<Longrightarrow> a \<noteq> dst + of_nat i) \<Longrightarrow> memcpy_loop n m dst src a = m a"
proof (induction n arbitrary: m dst src)
  case (Suc n)
  have "a \<noteq> dst" using Suc.prems [of 0] by simp
  moreover have "a \<noteq> dst + 1 + of_nat i" if "i < n" for i
    using Suc.prems [of "Suc i"] that by (simp add: ac_simps)
  ultimately show ?case using Suc.IH [of "dst + 1"] by simp
qed simp

lemma memcpy_loop_bytes:
  assumes "\<And>i j. i < j \<Longrightarrow> j < n \<Longrightarrow> dst + of_nat i \<noteq> src + of_nat j" "n \<le> 2 ^ 64"
  shows "mem_bytes (memcpy_loop n m dst src) dst n = mem_bytes m src n"
  using assms
proof (induction n arbitrary: m dst src)
  case (Suc n)
  let ?m = "m(dst := m src)"
  have fr: "memcpy_loop n ?m (dst + 1) (src + 1) dst = ?m dst"
  proof (rule memcpy_loop_frame)
    fix i assume "i < n"
    then have "(of_nat (Suc i) :: addr_t) \<noteq> 0" using Suc.prems(2) by (intro of_nat_size_neq_0) auto
    then show "dst \<noteq> dst + 1 + of_nat i" by (simp add: add.assoc)
  qed
  have "dst + 1 + of_nat i \<noteq> src + 1 + of_nat j" if "i < j" "j < n" for i j
    using Suc.prems(1) [of "Suc i" "Suc j"] that by (simp add: ac_simps)
  then have "mem_bytes (memcpy_loop n ?m (dst + 1) (src + 1)) (dst + 1) n = mem_bytes ?m (src + 1) n"
    using Suc.prems(2) by (intro Suc.IH) auto
  also have "\<dots> = mem_bytes m (src + 1) n"
    using Suc.prems(1) [of 0 "Suc _"] by (intro mem_bytes_cong) (auto simp: ac_simps)
  finally show ?case using fr by (simp add: mem_bytes_Suc)
qed (simp add: mem_bytes_def)

lemma memset_loop_apply:
  "memset_loop n m dst v a = (if \<exists>i<n. a = dst + of_nat i then v else m a)"
proof (induction n arbitrary: m dst)
  case (Suc n)
  have "(\<exists>i<Suc n. a = dst + of_nat i) \<longleftrightarrow> a = dst \<or> (\<exists>i<n. a = dst + 1 + of_nat i)"
    by (simp add: Ex_less_Suc2 ac_simps)
  then show ?case using Suc.IH [of _ "dst + 1"] by auto
qed simp

lemma mem_bytes_nth [simp]: "i < n \<Longrightarrow> mem_bytes m a n ! i = m (a + of_nat i)"
  by (simp add: mem_bytes_def)

lemma mem_bytes_from: "off + n \<le> k \<Longrightarrow> memcpy_from (mem_bytes m a k) off n = mem_bytes m (a + of_nat off) n"
  by (rule nth_equalityI) (simp_all add: add.assoc)

lemma mem_bytes_store:
  assumes "off + length bs \<le> k" "k \<le> 2 ^ 64"
  shows "mem_bytes (mem_store m (a + of_nat off) bs) a k = memcpy_to (mem_bytes m a k) off bs"
proof (rule nth_equalityI)
  fix i assume "i < length (mem_bytes (mem_store m (a + of_nat off) bs) a k)"
  then have i: "i < k" by simp
  have "unat (of_nat i - of_nat off :: addr_t) = (if off \<le> i then i - off else 2 ^ 64 - (off - i))"
  proof (cases "off \<le> i")
    case True
    then have "of_nat i - of_nat off = (of_nat (i - off) :: addr_t)" by (simp add: of_nat_diff)
    moreover have "unat (of_nat (i - off) :: addr_t) = i - off"
      using i assms(2) by (intro unat_of_nat_small) simp
    ultimately show ?thesis using True by (simp only: if_True)
  next
    case False
    have "(of_nat (2 ^ 64) :: addr_t) = 0" by simp
    then have "of_nat i - of_nat off = (of_nat (2 ^ 64 - (off - i)) :: addr_t)"
      using False assms i by (simp add: of_nat_diff)
    moreover have "unat (of_nat (2 ^ 64 - (off - i)) :: addr_t) = 2 ^ 64 - (off - i)"
      using False by (intro unat_of_nat_small) simp
    ultimately show ?thesis using False by simp
  qed
  then have "unat (of_nat i - of_nat off :: addr_t) < length bs \<longleftrightarrow> off \<le> i \<and> i < off + length bs"
    and "off \<le> i \<Longrightarrow> unat (of_nat i - of_nat off :: addr_t) = i - off"
    using i assms by auto
  then show "mem_bytes (mem_store m (a + of_nat off) bs) a k ! i = memcpy_to (mem_bytes m a k) off bs ! i"
    using i assms(1) by (auto simp: mem_store_def nth_memcpy_to)
qed (use assms in simp)

section \<open>Facts on the number printer\<close>

lemma length_swap_loop [simp]: "length (swap_loop f s m k) = length s"
  by (induction f s m k rule: swap_loop.induct) auto

lemma nth_swap_loop:
  "k - m \<le> f \<Longrightarrow> k < length s \<Longrightarrow> i < length s \<Longrightarrow>
   swap_loop f s m k ! i = (if m \<le> i \<and> i \<le> k then s ! (m + k - i) else s ! i)"
proof (induction f s m k arbitrary: i rule: swap_loop.induct)
  case (2 f s m k)
  show ?case
  proof (cases "k > m")
    case True
    have "swap_loop f (s[m := s ! k, k := s ! m]) (Suc m) (k - 1) ! i =
      (if Suc m \<le> i \<and> i \<le> k - 1 then s[m := s ! k, k := s ! m] ! (Suc m + (k - 1) - i)
       else s[m := s ! k, k := s ! m] ! i)"
      using 2 True by (intro "2.IH") auto
    then show ?thesis using True 2(3,4) by (auto simp: nth_list_update)
  next
    case False
    then have "m \<le> i \<Longrightarrow> i \<le> k \<Longrightarrow> m + k - i = i" by simp
    then show ?thesis using False by auto
  qed
qed (auto intro!: arg_cong [where f = "nth _"])

lemma swap_loop_rev:
  assumes "m \<le> length s"
  shows "swap_loop (length s) s m (length s - 1) = take m s @ rev (drop m s)"
proof (cases "s = []")
  case False
  show ?thesis
  proof (rule nth_equalityI)
    fix i assume "i < length (swap_loop (length s) s m (length s - 1))"
    then have i: "i < length s" by simp
    then have "swap_loop (length s) s m (length s - 1) ! i =
        (if m \<le> i then s ! (m + (length s - 1) - i) else s ! i)"
      using False by (subst nth_swap_loop) auto
    then show "swap_loop (length s) s m (length s - 1) ! i = (take m s @ rev (drop m s)) ! i"
      using i assms by (auto simp: nth_append rev_nth intro!: arg_cong [where f = "nth s"])
  qed (use assms in simp)
qed (use assms in simp)

lemma hal_i2s_eq:
  "hal_i2s prefix i b zero =
     (let s = cstr prefix @ rev (i2s_loop i (-1) b zero)
      in if b < 2 \<or> 16 < b \<or> s = [] then None else Some (length s, s))"
  using swap_loop_rev [of "hal_strlen prefix" "cstr prefix @ i2s_loop i (-1) b zero"]
  by (simp add: hal_i2s_def Let_def hal_strlen_cstr)

section \<open>Properties\<close>

text \<open>
  String comparison returns 0 exactly on strings with the same content up to the terminator, which is what every
  table lookup of the loader (commands, devices, aliases, maps) relies on.
\<close>

theorem strcmp_equal: "hal_strcmp s t = 0 \<longleftrightarrow> takeWhile (\<lambda>c. c \<noteq> NUL) s = takeWhile (\<lambda>c. c \<noteq> NUL) t"
  by (simp add: hal_strcmp_eq_0 cstr_def)

text \<open>
  A memory copy delivers the original source bytes to the destination and leaves every other address alone,
  whenever no source byte is overwritten before it is read (in particular when the regions are disjoint, or the
  destination lies below the source); the copy may wrap around the address space.
\<close>

theorem memcpy_copies:
  assumes "\<And>i j. i < j \<Longrightarrow> j < unat l \<Longrightarrow> dst + of_nat i \<noteq> src + of_nat j"
  shows "mem_bytes (hal_memcpy m dst src l) dst (unat l) = mem_bytes m src (unat l) \<and>
    (\<forall>a. (\<forall>i. i < unat l \<longrightarrow> a \<noteq> dst + of_nat i) \<longrightarrow> hal_memcpy m dst src l a = m a)"
  using memcpy_loop_bytes [of "unat l" dst src m] memcpy_loop_frame [of "unat l" _ dst m src] assms
    less_imp_le [OF unat_less_exp [of l]]
  by (simp add: hal_memcpy_def)

theorem memcpy_copies_witness:
  "mem_bytes (hal_memcpy (\<lambda>a. ucast a) 0x100 0x101 3) 0x100 3 = [1, 2, 3]"
proof -
  have "mem_bytes (hal_memcpy (\<lambda>a. ucast a) 0x100 0x101 3) 0x100 (unat (3::size_t)) =
      mem_bytes (\<lambda>a. ucast a) 0x101 (unat (3::size_t))"
  proof (rule memcpy_copies [THEN conjunct1])
    fix i j :: nat assume ij: "i < j" "j < unat (3::size_t)"
    then have "(of_nat i :: addr_t) < 1 + of_nat j"
      by (simp add: word_less_nat_alt unat_of_nat_small unat_word_ariths)
    then show "(0x100 :: addr_t) + of_nat i \<noteq> 0x101 + of_nat j"
      using add_left_cancel [of "0x100 :: addr_t" "of_nat i" "1 + of_nat j"] by (auto simp: add.assoc [symmetric])
  qed
  moreover have "mem_bytes (\<lambda>a. ucast a) 0x101 3 = [1, 2, 3]" by (simp add: mem_bytes_def upt_rec)
  ultimately show ?thesis by simp
qed

end
