(* ===== verification/Strtoul.thy ===== *)
theory Strtoul
  imports Hal_String
begin

text \<open>
  \<open>lib/strtoul.c\<close>, the number parser behind every numeric argument of the loader's commands, and
  the digit sequences shared with the number printers. \<open>lib_strtoul\<close> returns the value and the
  rest of the string (\<open>*endptr\<close>). The value is an \<open>unsigned long\<close>, 64 bits wide on aarch64: it
  wraps silently.
\<close>

text \<open>The value of one character: \<open>t = *nptr - '0'; if (t > 9) t = (*nptr | 0x20) - 'a' + 10\<close>.\<close>

definition strtoul_digit :: "char \<Rightarrow> u64" where
  "strtoul_digit c =
     (let t = of_int (code c - code CHR ''0'') :: u64
      in if t > 9 then of_int ((code c OR 0x20) - code CHR ''a'' + 10) else t)"

fun strtoul_loop :: "u64 \<Rightarrow> string \<Rightarrow> u64 \<Rightarrow> u64 \<times> string" where
  "strtoul_loop base [] v = (v, [])"
| "strtoul_loop base (c # s) v =
     (if \<not> (lib_isdigit (code c) \<or> lib_isalpha (code c)) then (v, c # s)
      else let t = strtoul_digit c in
           if t \<ge> base then (v, c # s) else strtoul_loop base s (v * base + t))"

definition lib_strtoul :: "string \<Rightarrow> nat \<Rightarrow> u64 \<times> string" where
  "lib_strtoul nptr base =
     (if (base = 16 \<or> base = 0) \<and> chr_at nptr 0 = CHR ''0'' \<and>
         code (chr_at nptr 1) OR 0x20 = code CHR ''x'' then strtoul_loop 16 (drop 2 nptr) 0
      else if base = 0 \<and> chr_at nptr 0 = CHR ''0'' then strtoul_loop 8 nptr 0
      else if base = 0 then strtoul_loop 10 nptr 0
      else strtoul_loop (of_nat base) nptr 0)"

definition lib_strtol :: "string \<Rightarrow> nat \<Rightarrow> u64 \<times> string" where
  "lib_strtol nptr base =
     (if chr_at nptr 0 = CHR ''-'' then (case lib_strtoul (drop 1 nptr) base of (v, r) \<Rightarrow> (- v, r))
      else lib_strtoul nptr base)"

section \<open>Digit sequences\<close>

fun nat_digits :: "nat \<Rightarrow> nat \<Rightarrow> nat list" where
  "nat_digits b n = (if n = 0 \<or> b < 2 then [] else n mod b # nat_digits b (n div b))"

declare nat_digits.simps [simp del]

primrec nat_val :: "nat \<Rightarrow> nat list \<Rightarrow> nat" where
  "nat_val b [] = 0"
| "nat_val b (d # ds) = d + b * nat_val b ds"

lemma nat_val_digits: "2 \<le> b \<Longrightarrow> nat_val b (nat_digits b n) = n"
proof (induction b n rule: nat_digits.induct)
  case (1 b n)
  then show ?case
    by (cases "n = 0") (simp_all add: nat_digits.simps [of b n] nat_digits.simps [of b 0])
qed

lemma nat_digits_less: "d \<in> set (nat_digits b n) \<Longrightarrow> d < b"
proof (induction b n rule: nat_digits.induct)
  case (1 b n)
  then show ?case by (auto simp: nat_digits.simps [of b n] split: if_splits)
qed

lemma nat_digits_Nil: "2 \<le> b \<Longrightarrow> nat_digits b n = [] \<longleftrightarrow> n = 0"
  by (simp add: nat_digits.simps [of b n])

lemma nat_val_append: "nat_val b (xs @ ys) = nat_val b xs + b ^ length xs * nat_val b ys"
  by (induction xs) (simp_all add: algebra_simps)

text \<open>The value of a character as a digit, and the value of a string of digits, most significant first.\<close>

definition is_digit :: "nat \<Rightarrow> char \<Rightarrow> bool" where
  "is_digit b c \<longleftrightarrow> lib_isalnum (code c) \<and> unat (strtoul_digit c) < b"

definition str_val :: "nat \<Rightarrow> string \<Rightarrow> nat" where
  "str_val b s = nat_val b (rev (map (\<lambda>c. unat (strtoul_digit c)) s))"

lemma str_val_Nil [simp]: "str_val b [] = 0"
  by (simp add: str_val_def)

lemma str_val_snoc: "str_val b (s @ [c]) = str_val b s * b + unat (strtoul_digit c)"
  by (simp add: str_val_def)

lemma str_val_Cons: "str_val b (c # s) = unat (strtoul_digit c) * b ^ length s + str_val b s"
  by (simp add: str_val_def nat_val_append)

section \<open>The parser\<close>

lemma strtoul_loop_spec:
  assumes "0 < b" "b < 2 ^ 64"
  shows "strtoul_loop (of_nat b) s v =
    (v * of_nat (b ^ length (takeWhile (is_digit b) s)) + of_nat (str_val b (takeWhile (is_digit b) s)),
     dropWhile (is_digit b) s)"
proof (induction s arbitrary: v)
  case (Cons c s)
  have b: "strtoul_digit c \<ge> of_nat b \<longleftrightarrow> \<not> unat (strtoul_digit c) < b"
    using assms(2) by (auto simp: word_le_nat_alt unat_of_nat_small)
  have al: "lib_isdigit (code c) \<or> lib_isalpha (code c) \<longleftrightarrow> lib_isalnum (code c)"
    by (auto simp: lib_isalnum_def lib_isalpha_def)
  show ?case
  proof (cases "is_digit b c")
    case True
    then have "strtoul_loop (of_nat b) (c # s) v =
        strtoul_loop (of_nat b) s (v * of_nat b + strtoul_digit c)"
      using b al by (simp add: is_digit_def Let_def)
    then show ?thesis using True by (simp add: Cons.IH str_val_Cons algebra_simps)
  next
    case False
    then show ?thesis using b al by (auto simp: is_digit_def Let_def)
  qed
qed simp


lemma strtoul_loop_digits:
  assumes "list_all (is_digit b) s" "0 < b" "b < 2 ^ 64"
  shows "strtoul_loop (of_nat b) s 0 = (of_nat (str_val b s), [])"
proof -
  have "takeWhile (is_digit b) s = s" "dropWhile (is_digit b) s = []"
    using assms(1) by (simp_all add: takeWhile_eq_all_conv dropWhile_eq_Nil_conv list_all_iff)
  with strtoul_loop_spec [OF assms(2,3), of s 0] show ?thesis by (simp only: mult_zero_left add_0)
qed

section \<open>Printed digits are parsed back\<close>

definition hex_digits :: "bool \<Rightarrow> string" where
  "hex_digits large = (if large then ''0123456789ABCDEF'' else ''0123456789abcdef'')"

lemma less_16_cases:
  "(d::nat) < 16 \<longleftrightarrow> d \<in> {0, 1, 2, 3, 4, 5, 6, 7, 8, 9, 10, 11, 12, 13, 14, 15}"
  unfolding insert_iff empty_iff by arith

lemma strtoul_digit_hex:
  assumes "d < 16"
  shows "strtoul_digit (hex_digits u ! d) = of_nat d" "lib_isalnum (code (hex_digits u ! d))"
    "code (hex_digits u ! d) OR 0x20 \<noteq> code CHR ''x''"
proof -
  have "strtoul_digit (hex_digits u ! d) = of_nat d \<and> lib_isalnum (code (hex_digits u ! d)) \<and>
    code (hex_digits u ! d) OR 0x20 \<noteq> code CHR ''x''"
    using assms unfolding less_16_cases
    by (cases u) (elim insertE emptyE; simp add: hex_digits_def strtoul_digit_def ctype_defs)+
  then show "strtoul_digit (hex_digits u ! d) = of_nat d" "lib_isalnum (code (hex_digits u ! d))"
    "code (hex_digits u ! d) OR 0x20 \<noteq> code CHR ''x''"
    by auto
qed

lemma is_digit_hex: "d < b \<Longrightarrow> b \<le> 16 \<Longrightarrow> is_digit b (hex_digits u ! d)"
  by (simp add: is_digit_def strtoul_digit_hex unat_of_nat_small)

lemma str_val_hex:
  assumes "list_all (\<lambda>d. d < 16) ds"
  shows "str_val b (rev (map (nth (hex_digits u)) ds)) = nat_val b ds"
proof -
  have "map (\<lambda>d. unat (strtoul_digit (hex_digits u ! d))) ds = ds"
    using assms by (intro map_idI) (auto simp: list_all_iff strtoul_digit_hex unat_of_nat_small)
  then show ?thesis by (simp add: str_val_def rev_map comp_def)
qed

definition print_digits :: "bool \<Rightarrow> nat \<Rightarrow> nat \<Rightarrow> string" where
  "print_digits u b n = rev (map (nth (hex_digits u)) (nat_digits b n))"

lemma print_digits_digits: "b \<le> 16 \<Longrightarrow> list_all (is_digit b) (print_digits u b n)"
  by (auto simp: print_digits_def list_all_iff dest!: nat_digits_less intro: is_digit_hex)

lemma str_val_print: "2 \<le> b \<Longrightarrow> b \<le> 16 \<Longrightarrow> str_val b (print_digits u b n) = n"
  unfolding print_digits_def
  by (subst str_val_hex) (auto simp: list_all_iff nat_val_digits dest!: nat_digits_less)

lemma strtoul_loop_print:
  assumes "2 \<le> b" "b \<le> 16"
  shows "strtoul_loop (of_nat b) (print_digits u b n) 0 = (of_nat n, [])"
  using strtoul_loop_digits [OF print_digits_digits [OF assms(2)]] str_val_print [OF assms] assms by simp

lemma print_digits_hd:
  assumes "2 \<le> b" "b \<le> 16"
  shows "code (chr_at (print_digits u b n) i) OR 0x20 \<noteq> code CHR ''x''"
proof (cases "i < length (print_digits u b n)")
  case True
  then have "print_digits u b n ! i \<in> nth (hex_digits u) ` set (nat_digits b n)"
    using nth_mem [OF True] by (simp add: print_digits_def)
  then obtain d where d: "d \<in> set (nat_digits b n)" "print_digits u b n ! i = hex_digits u ! d" by auto
  then have "d < 16" using nat_digits_less [OF d(1)] assms(2) by simp
  then show ?thesis using True d(2) strtoul_digit_hex(3) [of d u] by (simp add: chr_at_nth)
next
  case False
  then show ?thesis by (simp add: chr_at_nth NUL_def code_def)
qed

section \<open>Numbers printed by \<open>hal_i2s\<close>\<close>

lemma i2s_loop_digits:
  assumes "unat i \<le> unat l" "2 \<le> b" "b \<le> 16"
  shows "i2s_loop i l b False = map (nth (hex_digits False)) (nat_digits b (unat i))"
  using assms
proof (induction i l b False rule: i2s_loop.induct)
  case (1 i l b)
  show ?case
  proof (cases "i = 0")
    case True
    then show ?thesis by (simp add: i2s_loop.simps [of 0] nat_digits.simps [of b 0])
  next
    case False
    then have i: "0 < unat i" by (simp add: unat_gt_0)
    then have l: "l \<noteq> 0" using "1.prems"(1) by auto
    have ui: "unat (of_nat (unat i div b) :: u64) = unat i div b" by (rule unat_of_nat_le [of _ i]) simp
    have ul: "unat (of_nat (unat l div b) :: u32) = unat l div b" by (rule unat_of_nat_le [of _ l]) simp
    have "i2s_loop (of_nat (unat i div b)) (of_nat (unat l div b)) b False
        = map (nth (hex_digits False)) (nat_digits b (unat i div b))"
      using "1.hyps" "1.prems" l False ui ul by (simp add: div_le_mono)
    then show ?thesis using i l False "1.prems"
      by (simp add: i2s_loop.simps [of i] nat_digits.simps [of b "unat i"] hex_digits_def i2s_digits_def)
  qed
qed

lemma hal_i2s_print:
  assumes "unat i < 2 ^ 32" "2 \<le> b" "b \<le> 16"
  shows "hal_i2s prefix i b False =
    (let s = cstr prefix @ print_digits False b (unat i) in if s = [] then None else Some (length s, s))"
proof -
  have "unat (-1 :: u32) = 2 ^ 32 - 1" by (simp add: unsigned_minus_1_eq_mask mask_eq_exp_minus_1)
  then have "unat i \<le> unat (-1 :: u32)" using assms(1) by simp
  then show ?thesis
    using assms(2,3) by (simp add: hal_i2s_eq i2s_loop_digits print_digits_def Let_def)
qed

lemma print_digits_Nil: "2 \<le> b \<Longrightarrow> print_digits u b n = [] \<longleftrightarrow> n = 0"
  by (simp add: print_digits_def nat_digits_Nil)

lemma hex_digits_pos: "0 < d \<Longrightarrow> d < 16 \<Longrightarrow> hex_digits u ! d \<noteq> CHR ''0''"
  unfolding less_16_cases by (elim insertE emptyE; cases u; simp add: hex_digits_def)

lemma last_nat_digits: "nat_digits b n \<noteq> [] \<Longrightarrow> 0 < last (nat_digits b n)"
proof (induction b n rule: nat_digits.induct)
  case (1 b n)
  show ?case
  proof (cases "nat_digits b (n div b) = []")
    case True
    then have "n < b" using "1.prems" by (auto simp: nat_digits.simps [of b n] nat_digits_Nil div_eq_0_iff split: if_splits)
    then show ?thesis using "1.prems" True by (auto simp: nat_digits.simps [of b n] split: if_splits)
  next
    case False
    then show ?thesis using 1 by (auto simp: nat_digits.simps [of b n] split: if_splits)
  qed
qed
lemma print_digits_not_0: "2 \<le> b \<Longrightarrow> b \<le> 16 \<Longrightarrow> chr_at (print_digits u b n) 0 \<noteq> CHR ''0''"
proof (cases "nat_digits b n = []")
  case True
  then show ?thesis by (simp add: print_digits_def NUL_def)
next
  case False
  assume "b \<le> 16"
  moreover have "last (nat_digits b n) < b" using False by (intro nat_digits_less [of _ b n]) simp
  ultimately have "hex_digits u ! last (nat_digits b n) \<noteq> CHR ''0''"
    using last_nat_digits [OF False] by (intro hex_digits_pos) simp_all
  moreover obtain ds d where "nat_digits b n = ds @ [d]" using False by (metis rev_exhaust)
  ultimately show ?thesis by (simp add: print_digits_def)
qed

section \<open>Properties\<close>

text \<open>
  The number parser reads the longest sequence of digits of its base at the start of the string and returns
  its value modulo the width of the result, with the rest of the string; it stops at the first other character.
\<close>

theorem strtoul_value:
  assumes "2 \<le> base" "base < 2 ^ 64" "base \<noteq> 16"
  shows "lib_strtoul s base =
    (of_nat (str_val base (takeWhile (is_digit base) s)), dropWhile (is_digit base) s)"
  using assms strtoul_loop_spec [of base s 0] by (simp add: lib_strtoul_def)

theorem strtoul_value_witness: "lib_strtoul ''1701x'' 8 = (961, ''x'')"
proof -
  have d: "takeWhile (is_digit 8) ''1701x'' = ''1701''" "dropWhile (is_digit 8) ''1701x'' = ''x''"
    by (simp_all add: is_digit_def strtoul_digit_def ctype_defs)
  have "str_val 8 ''1701'' = 961"
    by (simp add: str_val_def strtoul_digit_def ctype_defs)
  then show ?thesis using strtoul_value [of 8 "''1701x''", unfolded d] by simp
qed

text \<open>
  A 32-bit number other than 0 printed in decimal or, behind the prefix 0x, any 32-bit number in hexadecimal by
  \<open>hal_i2s\<close> is read back by the number parser with base 0, the way the commands parse their arguments, with
  nothing left over; 0 without a prefix makes the printer leave its buffer.
\<close>

theorem i2s_strtoul:
  assumes "unat i < 2 ^ 32"
  shows "(i \<noteq> 0 \<longrightarrow> (\<exists>s. hal_i2s '''' i 10 False = Some (length s, s) \<and> lib_strtoul s 0 = (i, []))) \<and>
    (\<exists>s. hal_i2s ''0x'' i 16 False = Some (length s, s) \<and> lib_strtoul s 0 = (i, [])) \<and>
    hal_i2s '''' 0 10 False = None"
  using assms strtoul_loop_print [of 10 False "unat i"] strtoul_loop_print [of 16 False "unat i"]
    print_digits_not_0 [of 10 False "unat i"]
  by (simp add: hal_i2s_print lib_strtoul_def NUL_def code_def print_digits_Nil unat_eq_0 Let_def)

theorem i2s_strtoul_witness:
  "\<exists>s. hal_i2s '''' 4294967295 10 False = Some (length s, s) \<and> lib_strtoul s 0 = (4294967295, [])"
  using i2s_strtoul [of 4294967295] by simp

end
