(* ===== verification/Getopt.thy ===== *)
theory Getopt
  imports Hal_String
begin

text \<open>
  \<open>lib/getopt.c\<close>: the option parser of the commands. The globals \<open>optarg\<close>, \<open>optind\<close>, \<open>opterr\<close>,
  \<open>optopt\<close> and \<open>getopt_common.optwhere\<close> form one record. \<open>lib_getopt\<close> returns \<open>None\<close> where the C
  function returns \<open>-1\<close>. The two messages it prints do not influence its result and are left out.
\<close>

record getopt_t =
  optarg :: "string option"
  optind :: int
  opterr :: int
  optopt :: int
  optwhere :: nat

definition lib_getoptReset :: getopt_t where
  "lib_getoptReset = \<lparr>optarg = None, optind = 1, opterr = 1, optopt = 0, optwhere = 1\<rparr>"

text \<open>The common exit: the next argument is examined from its first option character.\<close>

definition next_arg :: "getopt_t \<Rightarrow> getopt_t" where
  "next_arg st = st\<lparr>optind := optind st + 1, optwhere := 1\<rparr>"

definition getopt_option :: "string list \<Rightarrow> string \<Rightarrow> getopt_t \<Rightarrow> char option \<times> getopt_t" where
  "getopt_option argv optstring st0 =
     (let a = argv ! nat (optind st0);
          opt = chr_at a (optwhere st0);
          st = st0\<lparr>optwhere := Suc (optwhere st0)\<rparr>;
          more = chr_at a (optwhere st) \<noteq> NUL;
          leading_colon = (chr0 optstring = CHR '':'')
      in case hal_strchr optstring opt of
           None \<Rightarrow>
             (Some CHR ''?'', (if more then id else next_arg) (st\<lparr>optopt := code opt\<rparr>))
         | Some optspec \<Rightarrow>
             if chr_at optspec 1 = CHR '':'' then
               (if more then
                  (Some opt, next_arg (st\<lparr>optarg := Some (drop (optwhere st) a)\<rparr>))
                else if chr_at optspec 2 = CHR '':'' then
                  (Some opt, next_arg (st\<lparr>optarg := None\<rparr>))
                else if optind st + 1 < int (length argv) then
                  (Some opt, next_arg (st\<lparr>optarg := Some (argv ! nat (optind st + 1)), optind := optind st + 1\<rparr>))
                else
                  (Some (if leading_colon then CHR '':'' else CHR ''?''), next_arg (st\<lparr>optopt := code opt\<rparr>)))
             else if more then (Some opt, st)
             else (Some opt, next_arg st))"

definition lib_getopt :: "string list \<Rightarrow> string \<Rightarrow> getopt_t \<Rightarrow> char option \<times> getopt_t" where
  "lib_getopt argv optstring st1 =
     (let st = (if optind st1 \<le> 0 then lib_getoptReset else st1) in
      if argv = [] \<or> optind st \<ge> int (length argv) then (None, st)
      else let a = argv ! nat (optind st) in
        if chr_at a 0 \<noteq> CHR ''-'' \<or> chr_at a 1 = NUL then (None, st)
        else if chr_at a 1 = CHR ''-'' \<and> chr_at a 2 = NUL then
          (None, st\<lparr>optind := optind st + 1\<rparr>)
        else getopt_option argv optstring st)"

text \<open>The loop of a command: collect the options until \<open>-1\<close>, at most \<open>n\<close> of them.\<close>

fun getopt_collect :: "nat \<Rightarrow> string list \<Rightarrow> string \<Rightarrow> getopt_t \<Rightarrow>
    ((char \<times> string option) list \<times> getopt_t) option" where
  "getopt_collect 0 argv optstring st = None"
| "getopt_collect (Suc n) argv optstring st =
     (case lib_getopt argv optstring st of
        (None, st') \<Rightarrow> Some ([], st')
      | (Some c, st') \<Rightarrow>
          map_option (\<lambda>(cs, s). ((c, optarg st') # cs, s)) (getopt_collect n argv optstring st'))"

section \<open>Invariant and progress\<close>

text \<open>
  The option position points at a character of the argument under examination, never past its
  terminator: \<open>optwhere\<close> is 1, or a position whose character is not NUL.
\<close>

definition getopt_inv :: "string list \<Rightarrow> getopt_t \<Rightarrow> bool" where
  "getopt_inv argv st \<longleftrightarrow> list_all (\<lambda>a. NUL \<notin> set a) argv \<and> 0 < optind st \<and> 0 < optwhere st \<and>
     (optwhere st = 1 \<or> (optind st < int (length argv) \<and> optwhere st < length (argv ! nat (optind st)) \<and>
        chr_at (argv ! nat (optind st)) (optwhere st) \<noteq> NUL))"

text \<open>Characters still to be examined.\<close>

definition getopt_left :: "string list \<Rightarrow> getopt_t \<Rightarrow> nat" where
  "getopt_left argv st = sum_list (map (\<lambda>a. length a + 1) (drop (nat (optind st)) argv)) - (optwhere st - 1)"

lemma getopt_inv_reset: "list_all (\<lambda>a. NUL \<notin> set a) argv \<Longrightarrow> getopt_inv argv lib_getoptReset"
  by (simp add: getopt_inv_def lib_getoptReset_def)

lemma chr_at_not_NUL: "chr_at s i \<noteq> NUL \<Longrightarrow> i < length s"
  by (auto simp: chr_at_nth split: if_splits)

lemma getopt_option_inv:
  assumes "getopt_inv argv st" "optind st < int (length argv)"
  shows "getopt_inv argv (snd (getopt_option argv optstring st))"
  using assms
  by (auto simp: getopt_inv_def getopt_option_def Let_def next_arg_def chr_at_not_NUL
      split: option.splits)

lemma lib_getopt_inv:
  assumes "getopt_inv argv st"
  shows "getopt_inv argv (snd (lib_getopt argv optstring st))"
proof -
  have p: "optind st > 0" using assms by (simp add: getopt_inv_def)
  have dd: "optwhere st = 1"
    if "optind st < int (length argv)" "chr_at (argv ! nat (optind st)) 2 = NUL"
  proof -
    have "argv ! nat (optind st) \<in> set argv" using that(1) p by (intro nth_mem) simp
    then have "NUL \<notin> set (argv ! nat (optind st))" using assms by (auto simp: getopt_inv_def list_all_iff)
    then have "length (argv ! nat (optind st)) \<le> 2"
      using that(2) by (auto simp: chr_at_nth split: if_splits) (metis not_less nth_mem)
    then show ?thesis using assms by (auto simp: getopt_inv_def)
  qed
  show ?thesis
  proof (cases "snd (lib_getopt argv optstring st) = snd (getopt_option argv optstring st)")
    case True
    then show ?thesis
      using getopt_option_inv [OF assms] assms p
      by (cases "optind st < int (length argv)") (auto simp: lib_getopt_def)
  next
    case False
    then show ?thesis using p dd assms by (auto simp: lib_getopt_def Let_def getopt_inv_def)
  qed
qed

lemma sum_list_drop_le: "sum_list (map f (drop n xs)) \<le> (sum_list (map f xs) :: nat)"
  by (metis append_take_drop_id map_append sum_list_append le_add2)

lemma left_next_arg:
  assumes "0 < optind st" "optind st < int (length argv)" "0 < optwhere st"
    "optwhere st \<le> length (argv ! nat (optind st))"
    and "optind st' > optind st" "optwhere st' = 1"
  shows "getopt_left argv st' < getopt_left argv st"
proof -
  let ?i = "nat (optind st)" and ?j = "nat (optind st')"
  let ?S = "\<lambda>i. sum_list (map (\<lambda>a. length a + 1) (drop i argv))"
  have i: "?i < length argv" "?i < ?j" using assms by auto
  have "?S ?i = length (argv ! ?i) + 1 + ?S (Suc ?i)"
    using i(1) by (simp add: Cons_nth_drop_Suc [symmetric])
  moreover have "?S ?j \<le> ?S (Suc ?i)"
  proof -
    have "drop ?j argv = drop (?j - Suc ?i) (drop (Suc ?i) argv)"
      unfolding drop_drop using i(2) by (intro arg_cong2 [where f = drop]) arith+
    then show ?thesis
      using sum_list_drop_le [of "\<lambda>a. length a + 1" "?j - Suc ?i" "drop (Suc ?i) argv"] by metis
  qed
  ultimately show ?thesis using assms(3,4,6) unfolding getopt_left_def by linarith
qed

lemma left_same_arg:
  assumes "optind st < int (length argv)" "0 < optind st" "0 < optwhere st"
    "optwhere st < length (argv ! nat (optind st))"
    and "optind st' = optind st" "optwhere st' = Suc (optwhere st)"
  shows "getopt_left argv st' < getopt_left argv st"
proof -
  have i: "nat (optind st) < length argv" using assms by auto
  have "sum_list (map (\<lambda>a. length a + 1) (drop (nat (optind st)) argv)) \<ge> length (argv ! nat (optind st)) + 1"
    using i by (simp add: Cons_nth_drop_Suc [symmetric])
  then show ?thesis using assms by (simp add: getopt_left_def)
qed

lemma getopt_option_progress:
  assumes inv: "getopt_inv argv st" and "optind st < int (length argv)"
    and "chr_at (argv ! nat (optind st)) 1 \<noteq> NUL"
  shows "getopt_left argv (snd (getopt_option argv optstring st)) < getopt_left argv st"
proof -
  have w: "0 < optind st" "0 < optwhere st" "optwhere st < length (argv ! nat (optind st))"
    using inv assms(3) chr_at_not_NUL [OF assms(3)] by (auto simp: getopt_inv_def)
  note n = left_next_arg [OF w(1) assms(2) w(2) less_imp_le [OF w(3)]] and s = left_same_arg [OF assms(2) w]
  show ?thesis
    by (auto simp: getopt_option_def Let_def next_arg_def intro: n s split: option.split)
qed

lemma lib_getopt_progress:
  assumes "getopt_inv argv st" "lib_getopt argv optstring st = (Some c, st')"
  shows "getopt_left argv st' < getopt_left argv st"
proof -
  have p: "0 < optind st" using assms(1) by (simp add: getopt_inv_def)
  then have g: "getopt_option argv optstring st = (Some c, st')"
    and a: "optind st < int (length argv)" "chr_at (argv ! nat (optind st)) 1 \<noteq> NUL"
    using assms(2) by (auto simp: lib_getopt_def Let_def split: if_splits)
  show ?thesis using getopt_option_progress [OF assms(1) a, of optstring] g by simp
qed

lemma getopt_collect_terminates:
  "getopt_inv argv st \<Longrightarrow> getopt_left argv st < n \<Longrightarrow>
   \<exists>cs st'. getopt_collect n argv optstring st = Some (cs, st') \<and> length cs \<le> getopt_left argv st"
proof (induction n arbitrary: st)
  case (Suc n)
  show ?case
  proof (cases "lib_getopt argv optstring st")
    case (Pair r st')
    show ?thesis
    proof (cases r)
      case None
      then show ?thesis using Pair by simp
    next
      case (Some c)
      have less: "getopt_left argv st' < getopt_left argv st"
        using lib_getopt_progress [OF Suc.prems(1)] Pair Some by simp
      moreover have "getopt_inv argv st'" using lib_getopt_inv [OF Suc.prems(1), of optstring] Pair by simp
      ultimately obtain cs s where "getopt_collect n argv optstring st' = Some (cs, s)"
          "length cs \<le> getopt_left argv st'"
        using Suc.IH [of st'] Suc.prems(2) by auto
      then show ?thesis using Pair Some less by simp
    qed
  qed
qed simp

section \<open>Properties\<close>

text \<open>
  The option loop of a command ends: called on any argument vector until it reports -1, the option parser returns after at
  most as many options as the arguments have characters.
\<close>

theorem getopt_terminates:
  assumes "list_all (\<lambda>a. NUL \<notin> set a) argv"
  shows "\<exists>cs st. getopt_collect (Suc (getopt_left argv lib_getoptReset)) argv optstring lib_getoptReset = Some (cs, st) \<and>
    length cs \<le> sum_list (map (\<lambda>a. length a + 1) (drop 1 argv))"
  using getopt_collect_terminates [OF getopt_inv_reset [OF assms] lessI, of optstring]
  by (simp add: getopt_left_def lib_getoptReset_def)

theorem getopt_terminates_witness:
  "\<exists>cs st. getopt_collect (Suc (getopt_left [''cmd'', ''-ab'', ''x''] lib_getoptReset)) [''cmd'', ''-ab'', ''x''] ''ab:'' lib_getoptReset =
     Some (cs, st) \<and> length cs \<le> 6"
proof -
  have "list_all (\<lambda>a. NUL \<notin> set a) [''cmd'', ''-ab'', ''x'']" by (simp add: NUL_def)
  moreover have "sum_list (map (\<lambda>a. length a + 1) (drop 1 [''cmd'', ''-ab'', ''x''])) = 6" by simp
  ultimately show ?thesis using getopt_terminates [of "[''cmd'', ''-ab'', ''x'']" "''ab:''"] by presburger
qed

text \<open>
  The option parser never looks past an argument: if the option position is inside the argument under
  examination, it still is after any call, so each call reads characters of the argument vector only.
\<close>

theorem getopt_in_bounds:
  assumes "getopt_inv argv st" "lib_getopt argv optstring st = (r, st')"
  shows "getopt_inv argv st' \<and> (r \<noteq> None \<longrightarrow> optind st < int (length argv) \<and>
    optwhere st < length (argv ! nat (optind st)))"
proof -
  have "optind st < int (length argv) \<and> optwhere st < length (argv ! nat (optind st))" if "r \<noteq> None"
  proof -
    have p: "0 < optind st" using assms(1) by (simp add: getopt_inv_def)
    then have "optind st < int (length argv)" "chr_at (argv ! nat (optind st)) 1 \<noteq> NUL"
      using assms(2) that by (auto simp: lib_getopt_def Let_def split: if_splits)
    then show ?thesis using assms(1) chr_at_not_NUL by (auto simp: getopt_inv_def)
  qed
  then show ?thesis using lib_getopt_inv [OF assms(1), of optstring] assms(2) by simp
qed

theorem getopt_in_bounds_witness:
  "getopt_inv [''c'', ''-ab''] (snd (lib_getopt [''c'', ''-ab''] ''ab'' lib_getoptReset))"
  using getopt_in_bounds [OF getopt_inv_reset prod.collapse [symmetric], of "[''c'', ''-ab'']" "''ab''"]
  by (simp add: NUL_def)

end
