(* ===== verification/Devs.thy ===== *)
theory Devs
  imports Prelude
begin

text \<open>
  \<open>devices/devs.c\<close>: the table of device drivers, indexed by major and minor number, and the calls
  that dispatch to a driver. A driver operates on the world \<open>'w\<close> (its registers, memory, queues),
  which every operation takes and returns (see \<open>Prelude\<close>); a NULL function pointer is \<open>None\<close>. A read returns the
  bytes stored in the caller's buffer, a write the number of bytes taken, \<open>control\<close> the value left
  in its argument; a negative result is \<open>Inl\<close> of the error.
\<close>

datatype mappable = Mappable | NotMappable

record 'w dev_ops_t =
  op_sync :: "(nat \<Rightarrow> ('w, unit) io) option"
  op_map :: "(nat \<Rightarrow> addr_t \<Rightarrow> size_t \<Rightarrow> u32 \<Rightarrow> addr_t \<Rightarrow> size_t \<Rightarrow> u32 \<Rightarrow> ('w, mappable \<times> addr_t) io) option"
  op_control :: "(nat \<Rightarrow> nat \<Rightarrow> u64 \<Rightarrow> ('w, u64) io) option"
  op_read :: "(nat \<Rightarrow> addr_t \<Rightarrow> size_t \<Rightarrow> time_t \<Rightarrow> ('w, bytes) io) option"
  op_write :: "(nat \<Rightarrow> addr_t \<Rightarrow> bytes \<Rightarrow> ('w, size_t) io) option"
  op_erase :: "(nat \<Rightarrow> addr_t \<Rightarrow> size_t \<Rightarrow> u32 \<Rightarrow> ('w, size_t) io) option"

record 'w dev_t =
  dev_name :: "string option"
  dev_init :: "(nat \<Rightarrow> ('w, unit) io) option"
  dev_done :: "(nat \<Rightarrow> ('w, unit) io) option"
  dev_ops :: "'w dev_ops_t option"

type_synonym 'w devs = "nat \<Rightarrow> nat \<Rightarrow> 'w dev_t option"

definition SIZE_MAJOR :: nat where
  "SIZE_MAJOR = 11"

definition SIZE_MINOR :: nat where
  "SIZE_MINOR = 16"

definition DEV_STORAGE :: nat where
  "DEV_STORAGE = 2"

section \<open>Registration\<close>

text \<open>The scan for free minor numbers: \<open>k\<close> minors are left to look at, \<open>nb - i\<close> devices to place.\<close>

fun register_loop :: "nat \<Rightarrow> nat \<Rightarrow> nat \<Rightarrow> 'w dev_t \<Rightarrow> (nat \<Rightarrow> 'w dev_t option) \<Rightarrow> (nat \<Rightarrow> 'w dev_t option)" where
  "register_loop 0 left minor dev row = row"
| "register_loop (Suc k) left minor dev row =
     (if left = 0 then row
      else case row minor of
             None \<Rightarrow> register_loop k (left - 1) (Suc minor) dev (row(minor := Some dev))
           | Some _ \<Rightarrow> register_loop k left (Suc minor) dev row)"

definition devs_register :: "nat \<Rightarrow> nat \<Rightarrow> 'w dev_t \<Rightarrow> 'w devs \<Rightarrow> 'w devs" where
  "devs_register major nb dev devs =
     (if major \<ge> SIZE_MAJOR \<or> nb \<ge> SIZE_MINOR then devs
      else devs(major := register_loop SIZE_MINOR nb 0 dev (devs major)))"

section \<open>Enumeration\<close>

datatype 'w iter = Iter "'w dev_t option" nat nat | IterStop

text \<open>\<open>devs_iterNext\<close> with its context word; the inner loop of the C code returns in its first round.\<close>

function iter_loop :: "'w devs \<Rightarrow> u32 \<Rightarrow> nat \<Rightarrow> nat \<Rightarrow> 'w iter \<times> u32" where
  "iter_loop devs ctx currMajor currMinor =
     (if currMajor < SIZE_MAJOR then
        (if currMinor < SIZE_MINOR then
           (Iter (devs currMajor currMinor) currMajor currMinor,
            (ctx AND NOT 0xffff) + of_nat (Suc currMinor))
         else iter_loop devs ((ctx AND 0xffff) OR push_bit 16 (of_nat (Suc currMajor))) (Suc currMajor) 0)
      else (IterStop, ctx))"
  by pat_completeness auto
termination
  by (relation "measure (\<lambda>(devs, ctx, M, m). SIZE_MAJOR - M)") auto

declare iter_loop.simps [simp del]

definition devs_iterNext :: "'w devs \<Rightarrow> u32 \<Rightarrow> 'w iter \<times> u32" where
  "devs_iterNext devs ctx = iter_loop devs ctx (unat (drop_bit 16 ctx AND 0xffff)) (unat (ctx AND 0xffff))"

section \<open>Dispatch\<close>

definition devs_get :: "'w devs \<Rightarrow> nat \<Rightarrow> nat \<Rightarrow> 'w dev_t option" where
  "devs_get devs major minor = (if major < SIZE_MAJOR \<and> minor < SIZE_MINOR then devs major minor else None)"

definition devs_ops :: "'w devs \<Rightarrow> nat \<Rightarrow> nat \<Rightarrow> 'w dev_ops_t option" where
  "devs_ops devs major minor = (case devs_get devs major minor of None \<Rightarrow> None | Some dev \<Rightarrow> dev_ops dev)"

definition devs_check :: "'w devs \<Rightarrow> nat \<Rightarrow> nat \<Rightarrow> errno + unit" where
  "devs_check devs major minor =
     (case devs_get devs major minor of
        None \<Rightarrow> Inl ENODEV
      | Some dev \<Rightarrow> if dev_name dev \<noteq> None \<and> dev_init dev \<noteq> None \<and> dev_done dev \<noteq> None then Inr () else Inl ENODEV)"

text \<open>A call through a driver's operation, \<open>-ENOSYS\<close> where the driver or the operation is missing.\<close>

definition devs_call :: "'w devs \<Rightarrow> nat \<Rightarrow> nat \<Rightarrow> ('w dev_ops_t \<Rightarrow> 'f option) \<Rightarrow> ('f \<Rightarrow> ('w, 'a) io) \<Rightarrow> ('w, 'a) io" where
  "devs_call devs major minor sel app w =
     (case devs_ops devs major minor of
        None \<Rightarrow> io_throw ENOSYS w
      | Some ops \<Rightarrow> (case sel ops of None \<Rightarrow> io_throw ENOSYS w | Some f \<Rightarrow> app f w))"

definition devs_read :: "'w devs \<Rightarrow> nat \<Rightarrow> nat \<Rightarrow> addr_t \<Rightarrow> size_t \<Rightarrow> time_t \<Rightarrow> ('w, bytes) io" where
  "devs_read devs major minor offs len timeout =
     devs_call devs major minor op_read (\<lambda>f. f minor offs len timeout)"

definition devs_write :: "'w devs \<Rightarrow> nat \<Rightarrow> nat \<Rightarrow> addr_t \<Rightarrow> bytes \<Rightarrow> ('w, size_t) io" where
  "devs_write devs major minor offs buff =
     devs_call devs major minor op_write (\<lambda>f. f minor offs buff)"

definition devs_erase :: "'w devs \<Rightarrow> nat \<Rightarrow> nat \<Rightarrow> addr_t \<Rightarrow> size_t \<Rightarrow> u32 \<Rightarrow> ('w, size_t) io" where
  "devs_erase devs major minor offs len flags =
     devs_call devs major minor op_erase (\<lambda>f. f minor offs len flags)"

definition devs_sync :: "'w devs \<Rightarrow> nat \<Rightarrow> nat \<Rightarrow> ('w, unit) io" where
  "devs_sync devs major minor = devs_call devs major minor op_sync (\<lambda>f. f minor)"

definition devs_map :: "'w devs \<Rightarrow> nat \<Rightarrow> nat \<Rightarrow> addr_t \<Rightarrow> size_t \<Rightarrow> u32 \<Rightarrow> addr_t \<Rightarrow> size_t \<Rightarrow> u32 \<Rightarrow>
    ('w, mappable \<times> addr_t) io" where
  "devs_map devs major minor addr sz mode memaddr memsz memmode =
     devs_call devs major minor op_map (\<lambda>f. f minor addr sz mode memaddr memsz memmode)"

definition devs_control :: "'w devs \<Rightarrow> nat \<Rightarrow> nat \<Rightarrow> nat \<Rightarrow> u64 \<Rightarrow> ('w, u64) io" where
  "devs_control devs major minor cmd args =
     devs_call devs major minor op_control (\<lambda>f. f minor cmd args)"

text \<open>\<open>devs_init\<close> and \<open>devs_done\<close> visit the table row by row; the drivers' results are ignored.\<close>

definition slots :: "(nat \<times> nat) list" where
  "slots = List.product [0..<SIZE_MAJOR] [0..<SIZE_MINOR]"

fun devs_each :: "('w dev_t \<Rightarrow> (nat \<Rightarrow> ('w, unit) io) option) \<Rightarrow> 'w devs \<Rightarrow> (nat \<times> nat) list \<Rightarrow> ('w, unit) io" where
  "devs_each sel devs [] = io_return ()"
| "devs_each sel devs ((major, minor) # rest) =
     (case devs major minor of
        None \<Rightarrow> devs_each sel devs rest
      | Some dev \<Rightarrow>
          (case sel dev of
             None \<Rightarrow> devs_each sel devs rest
           | Some f \<Rightarrow> io_bind (io_try (f minor)) (\<lambda>_. devs_each sel devs rest)))"

definition devs_init :: "'w devs \<Rightarrow> ('w, unit) io" where
  "devs_init devs = devs_each dev_init devs slots"

definition devs_done :: "'w devs \<Rightarrow> ('w, unit) io" where
  "devs_done devs = devs_each dev_done devs slots"

section \<open>Registration places a device in the first free minors\<close>

lemma register_loop_frame: "(n < minor \<or> minor + k \<le> n) \<Longrightarrow> register_loop k left minor dev row n = row n"
  by (induction k left minor dev row rule: register_loop.induct) (auto split: option.splits)

lemma register_loop_keeps: "row n = Some d \<Longrightarrow> register_loop k left minor dev row n = Some d"
proof (induction k left minor dev row rule: register_loop.induct)
  case (2 k left minor dev row)
  then show ?case by (cases "row minor"; cases "n = minor") (simp_all add: fun_upd_def)
qed simp

lemma register_loop_free:
  "minor \<le> n \<Longrightarrow> n < minor + k \<Longrightarrow> row n = None \<Longrightarrow>
   register_loop k left minor dev row n =
     (if length (filter (\<lambda>j. row j = None) [minor..<n]) < left then Some dev else None)"
proof (induction k left minor dev row rule: register_loop.induct)
  case (2 k left minor dev row)
  show ?case
  proof (cases "n = minor")
    case True
    then show ?thesis using "2.prems" by (auto simp: register_loop_frame)
  next
    case False
    then have n: "Suc minor \<le> n" using "2.prems" by simp
    then have up: "[minor..<n] = minor # [Suc minor..<n]" by (simp add: upt_conv_Cons)
    show ?thesis
    proof (cases "row minor")
      case None
      have "filter (\<lambda>j. (row(minor := Some dev)) j = None) [Suc minor..<n] = filter (\<lambda>j. row j = None) [Suc minor..<n]"
        by (rule filter_cong) auto
      moreover have "left \<noteq> 0 \<Longrightarrow> register_loop k (left - 1) (Suc minor) dev (row(minor := Some dev)) n =
          (if length (filter (\<lambda>j. (row(minor := Some dev)) j = None) [Suc minor..<n]) < left - 1 then Some dev else None)"
        using "2.prems" n False by (intro "2.IH"(1) [OF _ None]) auto
      ultimately show ?thesis using "2.prems" None up by (simp del: fun_upd_apply add: less_diff_conv)
    next
      case (Some d)
      then show ?thesis using "2.IH"(2) "2.prems" n up by auto
    qed
  qed
qed simp

section \<open>Enumeration visits every slot once\<close>

definition iter_ctx :: "nat \<Rightarrow> nat \<Rightarrow> u32" where
  "iter_ctx M m = of_nat (M * 65536 + m)"

lemma unat_iter_ctx: "M < 65536 \<Longrightarrow> m < 65536 \<Longrightarrow> unat (iter_ctx M m) = M * 65536 + m"
  unfolding iter_ctx_def by (rule unat_of_nat_small) simp

lemma and_ffff: "(x::u32) AND 0xffff = take_bit 16 x"
  by (simp add: take_bit_eq_mask mask_numeral)

lemma iter_ctx_major: "M < 65536 \<Longrightarrow> m < 65536 \<Longrightarrow> unat (drop_bit 16 (iter_ctx M m) AND 0xffff) = M"
  unfolding and_ffff unsigned_take_bit_eq unat_drop_bit_eq unat_iter_ctx
  by (simp add: take_bit_eq_mod drop_bit_eq_div)

lemma iter_ctx_minor: "M < 65536 \<Longrightarrow> m < 65536 \<Longrightarrow> unat (iter_ctx M m AND 0xffff) = m"
  unfolding and_ffff unsigned_take_bit_eq unat_iter_ctx by (simp add: take_bit_eq_mod)

lemma iter_ctx_set_minor:
  assumes "M < 65536" "m < 65536"
  shows "(iter_ctx M m AND NOT 0xffff) + of_nat k = iter_ctx M k"
proof -
  have "iter_ctx M m AND NOT 0xffff = iter_ctx M m - (iter_ctx M m AND 0xffff)"
    using and_not_mask [of "iter_ctx M m" 16] by (simp add: and_ffff mask_numeral)
  also have "iter_ctx M m AND 0xffff = of_nat m"
    using iter_ctx_minor [OF assms] by (metis of_nat_unat ucast_id)
  finally show ?thesis by (simp add: iter_ctx_def)
qed

lemma iter_ctx_set_major:
  assumes "M < 65536" "m < 65536" "K < 65536"
  shows "(iter_ctx M m AND 0xffff) OR push_bit 16 (of_nat K) = iter_ctx K m"
proof -
  have m: "iter_ctx M m AND 0xffff = of_nat m"
    using iter_ctx_minor [OF assms(1,2)] by (metis of_nat_unat ucast_id)
  have "(iter_ctx M m AND 0xffff) AND push_bit 16 (of_nat K) = 0"
    unfolding and_ffff by (rule bit_word_eqI) (auto simp: bit_simps)
  then have "(iter_ctx M m AND 0xffff) OR push_bit 16 (of_nat K) = of_nat m + push_bit 16 (of_nat K)"
    unfolding m by (rule disjunctive_add_eq_or [symmetric])
  then show ?thesis by (simp add: iter_ctx_def push_bit_eq_mult)
qed

lemma devs_iterNext_step:
  assumes "M < SIZE_MAJOR" "m < SIZE_MINOR"
  shows "devs_iterNext devs (iter_ctx M m) = (Iter (devs M m) M m, iter_ctx M (Suc m))"
proof -
  have "M < 65536" "m < 65536" using assms by (simp_all add: SIZE_MAJOR_def SIZE_MINOR_def)
  then show ?thesis
    using assms iter_ctx_set_minor [of M m "Suc m"]
    by (simp add: devs_iterNext_def iter_loop.simps [of devs "iter_ctx M m" M m] iter_ctx_major iter_ctx_minor)
qed

lemma devs_iterNext_row:
  assumes "M < SIZE_MAJOR"
  shows "devs_iterNext devs (iter_ctx M SIZE_MINOR) =
    (if Suc M < SIZE_MAJOR then (Iter (devs (Suc M) 0) (Suc M) 0, iter_ctx (Suc M) 1)
     else (IterStop, iter_ctx (Suc M) SIZE_MINOR))"
proof -
  have b: "M < 65536" "Suc M < 65536" "SIZE_MINOR < 65536" "0 < SIZE_MINOR"
    using assms by (simp_all add: SIZE_MAJOR_def SIZE_MINOR_def)
  have "devs_iterNext devs (iter_ctx M SIZE_MINOR) = iter_loop devs (iter_ctx (Suc M) SIZE_MINOR) (Suc M) 0"
    unfolding devs_iterNext_def iter_ctx_major [OF b(1,3)] iter_ctx_minor [OF b(1,3)]
    using assms by (subst iter_loop.simps) (simp only: less_irrefl if_True if_False iter_ctx_set_major [OF b(1,3,2)])
  then show ?thesis
    using b iter_ctx_set_minor [OF b(2,3), of 1]
    by (simp add: iter_loop.simps [of _ _ "Suc M"])
qed

text \<open>Calling \<open>devs_iterNext\<close> until it stops.\<close>

fun iter_collect :: "nat \<Rightarrow> 'w devs \<Rightarrow> u32 \<Rightarrow> ('w dev_t option \<times> nat \<times> nat) list option" where
  "iter_collect 0 devs ctx = None"
| "iter_collect (Suc n) devs ctx =
     (case devs_iterNext devs ctx of
        (IterStop, _) \<Rightarrow> Some []
      | (Iter d M m, ctx') \<Rightarrow> map_option (Cons (d, M, m)) (iter_collect n devs ctx'))"

definition row_from :: "'w devs \<Rightarrow> nat \<Rightarrow> nat \<Rightarrow> ('w dev_t option \<times> nat \<times> nat) list" where
  "row_from devs M m = map (\<lambda>j. (devs M j, M, j)) [m..<SIZE_MINOR]"

lemma iter_collect_row:
  assumes "M < SIZE_MAJOR"
  shows "m \<le> SIZE_MINOR \<Longrightarrow>
    iter_collect (SIZE_MINOR - m + n) devs (iter_ctx M m) =
      map_option (append (row_from devs M m)) (iter_collect n devs (iter_ctx M SIZE_MINOR))"
proof (induction "SIZE_MINOR - m" arbitrary: m)
  case 0
  then show ?case by (simp add: row_from_def option.map_id0 [unfolded id_def])
next
  case (Suc k)
  then have m: "m < SIZE_MINOR" by simp
  then have "SIZE_MINOR - m + n = Suc (SIZE_MINOR - Suc m + n)" by simp
  moreover have "row_from devs M m = (devs M m, M, m) # row_from devs M (Suc m)"
    using m by (simp add: row_from_def upt_conv_Cons)
  moreover have "iter_collect (SIZE_MINOR - Suc m + n) devs (iter_ctx M (Suc m)) =
      map_option (append (row_from devs M (Suc m))) (iter_collect n devs (iter_ctx M SIZE_MINOR))"
    using Suc m by (intro Suc.hyps(1)) auto
  ultimately show ?case
    using devs_iterNext_step [OF assms m, of devs]
    by (cases "iter_collect n devs (iter_ctx M SIZE_MINOR)") simp_all
qed

lemma iter_collect_rows:
  "M < SIZE_MAJOR \<Longrightarrow>
   iter_collect (Suc ((SIZE_MAJOR - Suc M) * SIZE_MINOR)) devs (iter_ctx M SIZE_MINOR) =
     Some (concat (map (\<lambda>K. row_from devs K 0) [Suc M..<SIZE_MAJOR]))"
proof (induction "SIZE_MAJOR - Suc M" arbitrary: M)
  case 0
  then show ?case by (simp add: devs_iterNext_row)
next
  case (Suc k)
  then have M: "Suc M < SIZE_MAJOR" by simp
  have pos: "0 < SIZE_MINOR" by (simp add: SIZE_MINOR_def)
  let ?n = "Suc ((SIZE_MAJOR - Suc (Suc M)) * SIZE_MINOR)"
  have n: "Suc ((SIZE_MAJOR - Suc M) * SIZE_MINOR) = Suc (SIZE_MINOR - 1 + ?n)"
    using M pos by (simp add: Suc_diff_Suc [symmetric])
  have "iter_collect ?n devs (iter_ctx (Suc M) SIZE_MINOR) =
      Some (concat (map (\<lambda>K. row_from devs K 0) [Suc (Suc M)..<SIZE_MAJOR]))"
    using Suc M by (intro Suc.hyps(1)) auto
  moreover have "row_from devs (Suc M) 0 = (devs (Suc M) 0, Suc M, 0) # row_from devs (Suc M) 1"
    using pos by (simp add: row_from_def upt_conv_Cons)
  ultimately show ?case
    unfolding n using M pos iter_collect_row [OF M, of 1 ?n devs] devs_iterNext_row [OF Suc.prems, of devs]
    by (simp add: upt_conv_Cons)
qed

lemma iter_collect_all:
  "iter_collect (Suc (SIZE_MAJOR * SIZE_MINOR)) devs 0 =
     Some (map (\<lambda>(M, m). (devs M m, M, m)) slots)"
proof -
  have pos: "0 < SIZE_MAJOR" by (simp add: SIZE_MAJOR_def)
  let ?n = "Suc ((SIZE_MAJOR - Suc 0) * SIZE_MINOR)"
  have n: "Suc (SIZE_MAJOR * SIZE_MINOR) = SIZE_MINOR - 0 + ?n"
    by (simp add: SIZE_MAJOR_def SIZE_MINOR_def)
  have "iter_collect (Suc (SIZE_MAJOR * SIZE_MINOR)) devs (iter_ctx 0 0) =
      Some (row_from devs 0 0 @ concat (map (\<lambda>K. row_from devs K 0) [Suc 0..<SIZE_MAJOR]))"
    unfolding n iter_collect_row [OF pos le0] iter_collect_rows [OF pos] by simp
  also have "\<dots> = Some (map (\<lambda>(M, m). (devs M m, M, m)) slots)"
    using pos by (simp add: slots_def product_concat_map map_concat comp_def row_from_def upt_conv_Cons)
  finally show ?thesis by (simp add: iter_ctx_def)
qed

section \<open>Properties\<close>

text \<open>
  Registering \<open>nb\<close> devices of a class places the driver in the first \<open>nb\<close> free minor numbers of that class,
  as far as they exist, keeps every driver already registered and touches no other class.
\<close>

theorem register_places:
  assumes "major < SIZE_MAJOR" "nb < SIZE_MINOR" "minor < SIZE_MINOR"
  shows "devs_register major nb dev devs major minor =
      (case devs major minor of
         Some d \<Rightarrow> Some d
       | None \<Rightarrow> if length (filter (\<lambda>j. devs major j = None) [0..<minor]) < nb then Some dev else None) \<and>
    (\<forall>other. other \<noteq> major \<longrightarrow> devs_register major nb dev devs other = devs other)"
  using assms register_loop_free [of 0 minor SIZE_MINOR "devs major" nb dev]
    register_loop_keeps [of "devs major" minor _ SIZE_MINOR nb 0 dev]
  by (auto simp: devs_register_def split: option.splits)

theorem register_places_witness:
  "devs_register 2 1 \<lparr>dev_name = Some ''ram'', dev_init = None, dev_done = None, dev_ops = None\<rparr>
     ((\<lambda>_ _. None)(2 := (\<lambda>_. None)
        (0 := Some \<lparr>dev_name = Some ''flash'', dev_init = None, dev_done = None, dev_ops = None\<rparr>))) 2 1 =
   Some \<lparr>dev_name = Some ''ram'', dev_init = None, dev_done = None, dev_ops = None :: unit dev_ops_t option\<rparr>"
  by (subst register_places [of 2 1 1, THEN conjunct1]) (simp_all add: SIZE_MAJOR_def SIZE_MINOR_def upt_rec)

text \<open>
  Iterating over the device table from context 0 visits every slot exactly once, row by row, and then stops.
\<close>

theorem iter_visits_all:
  "iter_collect (Suc (SIZE_MAJOR * SIZE_MINOR)) devs 0 =
     Some (map (\<lambda>(major, minor). (devs major minor, major, minor)) (List.product [0..<SIZE_MAJOR] [0..<SIZE_MINOR]))"
  using iter_collect_all [of devs] by (simp add: slots_def)

end
