(* ===== verification/Msg.thy ===== *)
theory Msg
  imports Devs
begin

text \<open>
  \<open>phfs/msg.c\<close> and \<open>phfs/msg.h\<close>: the framed messages exchanged with the \<open>phoenixd\<close> server over a
  byte device. A frame is a mark followed by the header (checksum and sequence number, type and
  length) and the data, with the two special bytes escaped. Reading is a byte-driven state machine;
  \<open>msg_read\<close> runs it on the chunks the device delivers. That loop ends only when a frame is
  complete, an error occurs or the device reports a timeout, so it is a \<open>partial_function\<close> whose
  value is \<open>None\<close> where the C code never returns.
\<close>

definition MSG_MARK :: u8 where "MSG_MARK = 0x7e"
definition MSG_ESC :: u8 where "MSG_ESC = 0x7d"
definition MSG_ESCMARK :: u8 where "MSG_ESCMARK = 0x5e"
definition MSG_ESCESC :: u8 where "MSG_ESCESC = 0x5d"

lemmas msg_chars = MSG_MARK_def MSG_ESC_def MSG_ESCMARK_def MSG_ESCESC_def

definition MSG_HDRSZ :: nat where "MSG_HDRSZ = 8"
definition MSG_MAXLEN :: nat where "MSG_MAXLEN = 512"
definition MSGRECV_MAXRETR :: nat where "MSGRECV_MAXRETR = 3"

record msg_t =
  msg_csum :: u32
  msg_type :: u32
  msg_data :: bytes

definition msg_settype :: "u32 \<Rightarrow> msg_t \<Rightarrow> msg_t" where
  "msg_settype t m = m\<lparr>msg_type := (msg_type m AND NOT 0xffff) OR (t AND 0xffff)\<rparr>"

definition msg_gettype :: "msg_t \<Rightarrow> u32" where
  "msg_gettype m = msg_type m AND 0xffff"

definition msg_setlen :: "u32 \<Rightarrow> msg_t \<Rightarrow> msg_t" where
  "msg_setlen l m = m\<lparr>msg_type := (msg_type m AND 0xffff) OR push_bit 16 l\<rparr>"

definition msg_getlen :: "msg_t \<Rightarrow> u32" where
  "msg_getlen m = drop_bit 16 (msg_type m)"

definition msg_setcsum :: "u32 \<Rightarrow> msg_t \<Rightarrow> msg_t" where
  "msg_setcsum c m = m\<lparr>msg_csum := (msg_csum m AND NOT 0xffff) OR (c AND 0xffff)\<rparr>"

definition msg_getcsum :: "msg_t \<Rightarrow> u32" where
  "msg_getcsum m = msg_csum m AND 0xffff"

definition msg_setseq :: "u32 \<Rightarrow> msg_t \<Rightarrow> msg_t" where
  "msg_setseq s m = m\<lparr>msg_csum := (msg_csum m AND 0xffff) OR push_bit 16 s\<rparr>"

definition msg_getseq :: "msg_t \<Rightarrow> u32" where
  "msg_getseq m = drop_bit 16 (msg_csum m)"

definition msg_serialize32 :: "u32 \<Rightarrow> bytes" where
  "msg_serialize32 from =
     [ucast (from AND 0xff), ucast (drop_bit 8 from AND 0xff),
      ucast (drop_bit 16 from AND 0xff), ucast (drop_bit 24 from AND 0xff)]"

definition msg_deserialize32 :: "bytes \<Rightarrow> u32" where
  "msg_deserialize32 from =
     ucast (from ! 0) OR push_bit 8 (ucast (from ! 1)) OR push_bit 16 (ucast (from ! 2)) OR
     push_bit 24 (ucast (from ! 3))"

text \<open>The object representation of a message on the little-endian target: what \<open>(u8 * )msg\<close> reads.\<close>

definition msg_image :: "msg_t \<Rightarrow> bytes" where
  "msg_image m = msg_serialize32 (msg_csum m) @ msg_serialize32 (msg_type m) @ msg_data m"

definition msg_deserializeHeaders :: "msg_t \<Rightarrow> bytes \<Rightarrow> msg_t" where
  "msg_deserializeHeaders m buff =
     m\<lparr>msg_csum := msg_deserialize32 buff, msg_type := msg_deserialize32 (drop 4 buff)\<rparr>"

text \<open>
  The 16-bit sum of everything after the checksum word, and of the sequence number. For a length above \<open>MSG_MAXLEN\<close> the C code
  reads past the message object, and the sum here is that of the object only; no message that is sent in full or accepted has one.
\<close>

definition msg_body :: "msg_t \<Rightarrow> bytes" where
  "msg_body m = drop 4 (take (MSG_HDRSZ + unat (msg_getlen m)) (msg_image m))"

definition csum_of :: "msg_t \<Rightarrow> u32" where
  "csum_of m = ucast (sum_list (map ucast (msg_body m)) + ucast (msg_getseq m) :: u16)"

section \<open>Writing a frame\<close>

definition escape :: "u8 \<Rightarrow> bytes" where
  "escape c =
     (if c = MSG_MARK \<or> c = MSG_ESC then [MSG_ESC, if c = MSG_MARK then MSG_ESCMARK else MSG_ESCESC]
      else [c])"

text \<open>
  The counter \<open>k\<close> has 16 bits and the bound 32: for a length above 65527 it never reaches the bound. The loop reads the message
  object \<open>p\<close> byte by byte, and already a length above \<open>MSG_MAXLEN\<close> takes it out of the object. Both are \<open>None\<close>.
\<close>

partial_function (option) msg_write_loop ::
  "(bytes \<Rightarrow> ('w, size_t) io) \<Rightarrow> bytes \<Rightarrow> u32 \<Rightarrow> u16 \<Rightarrow> 'w \<Rightarrow> ((errno + nat) \<times> 'w) option" where
  "msg_write_loop dw p n k w =
     (if ucast k < n then
        (if unat k < length p then
           (case dw (escape (p ! unat k)) w of
              None \<Rightarrow> None
            | Some (Inl e, w') \<Rightarrow> Some (Inl e, w')
            | Some (Inr _, w') \<Rightarrow> msg_write_loop dw p n (k + 1) w')
         else None)
      else Some (Inr (unat k), w))"

definition msg_write :: "(bytes \<Rightarrow> ('w, size_t) io) \<Rightarrow> msg_t \<Rightarrow> ('w, nat) io" where
  "msg_write dw m =
     io_bind (dw [MSG_MARK]) (\<lambda>_. msg_write_loop dw (msg_image m) (of_nat MSG_HDRSZ + msg_getlen m) 0)"

section \<open>Reading a frame\<close>

datatype rx_state = MSGREAD_DESYN | MSGREAD_FRAME

record rx =
  rx_state :: rx_state
  rx_esc :: bool
  rx_len :: nat
  rx_hdr :: bytes
  rx_msg :: msg_t

text \<open>\<open>RxFault\<close> is a store outside the array \<open>headers\<close> or outside \<open>msg->data\<close>.\<close>

datatype rx_result = RxMore rx | RxDone "errno + nat" rx | RxFault

definition rx_store :: "u8 \<Rightarrow> rx \<Rightarrow> rx option" where
  "rx_store c r =
     map_option (\<lambda>r1.
         let r2 = r1\<lparr>rx_len := Suc (rx_len r)\<rparr>
         in if rx_len r2 = MSG_HDRSZ then r2\<lparr>rx_msg := msg_deserializeHeaders (rx_msg r2) (rx_hdr r2)\<rparr> else r2)
       (if rx_len r < MSG_HDRSZ then map_option (\<lambda>h. r\<lparr>rx_hdr := h\<rparr>) (store_at (rx_len r) c (rx_hdr r))
        else map_option (\<lambda>d. r\<lparr>rx_msg := (rx_msg r)\<lparr>msg_data := d\<rparr>\<rparr>) (store_at (rx_len r - MSG_HDRSZ) c (msg_data (rx_msg r))))"

definition rx_complete :: "rx \<Rightarrow> rx_result" where
  "rx_complete r =
     (if rx_len r \<ge> MSG_HDRSZ \<and> rx_len r = unat (msg_getlen (rx_msg r)) + MSG_HDRSZ then
        (let r1 = r\<lparr>rx_state := MSGREAD_DESYN\<rparr>
         in if msg_getcsum (rx_msg r) \<noteq> csum_of (rx_msg r) then RxDone (Inl ENXIO) r1
            else RxDone (Inr (rx_len r)) r1)
      else RxMore r)"

definition rx_byte :: "u8 \<Rightarrow> rx \<Rightarrow> rx_result" where
  "rx_byte c r =
     (if rx_state r = MSGREAD_FRAME then
        (if rx_len r = MSG_HDRSZ + MSG_MAXLEN then RxDone (Inl ENXIO) (r\<lparr>rx_state := MSGREAD_DESYN\<rparr>)
         else if c = MSG_MARK then RxDone (Inl ENXIO) r
         else if \<not> rx_esc r \<and> c = MSG_ESC then RxMore (r\<lparr>rx_esc := True\<rparr>)
         else
           let c1 = (if rx_esc r \<and> c = MSG_ESCMARK then MSG_MARK else c);
               c2 = (if rx_esc r \<and> c1 = MSG_ESCESC then MSG_ESC else c1)
           in case rx_store c2 (r\<lparr>rx_esc := False\<rparr>) of None \<Rightarrow> RxFault | Some r' \<Rightarrow> rx_complete r')
      else RxMore (if c = MSG_MARK then r\<lparr>rx_state := MSGREAD_FRAME\<rparr> else r))"

text \<open>The bytes of one chunk; what follows a complete frame in the chunk is dropped.\<close>

fun rx_feed :: "bytes \<Rightarrow> rx \<Rightarrow> rx_result" where
  "rx_feed [] r = RxMore r"
| "rx_feed (c # cs) r = (case rx_byte c r of RxMore r' \<Rightarrow> rx_feed cs r' | RxDone res r' \<Rightarrow> RxDone res r' | RxFault \<Rightarrow> RxFault)"

partial_function (option) msg_read_loop ::
  "('w, bytes) io \<Rightarrow> rx \<Rightarrow> 'w \<Rightarrow> ((errno + nat) \<times> rx \<times> 'w) option" where
  "msg_read_loop dr r w =
     (case dr w of
        None \<Rightarrow> None
      | Some (Inl e, w') \<Rightarrow> Some (Inl ENXIO, r\<lparr>rx_state := MSGREAD_DESYN\<rparr>, w')
      | Some (Inr chunk, w') \<Rightarrow>
          (case rx_feed chunk r of
             RxDone res r' \<Rightarrow> Some (res, r', w')
           | RxMore r' \<Rightarrow> msg_read_loop dr r' w'
           | RxFault \<Rightarrow> None))"

text \<open>\<open>headers0\<close> is the uninitialised local array \<open>headers\<close>.\<close>

definition msg_read :: "('w, bytes) io \<Rightarrow> bytes \<Rightarrow> msg_t \<Rightarrow> rx_state \<Rightarrow> 'w \<Rightarrow>
    ((errno + nat) \<times> (msg_t \<times> rx_state) \<times> 'w) option" where
  "msg_read dr headers0 m state w =
     map_option (\<lambda>(res, r, w'). (res, (rx_msg r, rx_state r), w'))
       (msg_read_loop dr \<lparr>rx_state = state, rx_esc = False, rx_len = 0, rx_hdr = headers0, rx_msg = m\<rparr> w)"

section \<open>Sending a request and receiving the answer\<close>

fun send_loop :: "nat \<Rightarrow> (bytes \<Rightarrow> ('w, size_t) io) \<Rightarrow> ('w, bytes) io \<Rightarrow> bytes \<Rightarrow>
    msg_t \<Rightarrow> msg_t \<Rightarrow> rx_state \<Rightarrow> 'w \<Rightarrow> ((errno + unit) \<times> msg_t \<times> 'w) option" where
  "send_loop 0 dw dr headers0 smsg rmsg state w = Some (Inl ENXIO, rmsg, w)"
| "send_loop (Suc n) dw dr headers0 smsg rmsg state w =
     (case msg_write dw smsg w of
        None \<Rightarrow> None
      | Some (Inl _, w1) \<Rightarrow> send_loop n dw dr headers0 smsg rmsg state w1
      | Some (Inr _, w1) \<Rightarrow>
          (case msg_read dr headers0 rmsg state w1 of
             None \<Rightarrow> None
           | Some (Inr len, (rmsg', state'), w2) \<Rightarrow>
               if len > 0 then Some (Inr (), rmsg', w2)
               else send_loop n dw dr headers0 smsg rmsg' state' w2
           | Some (Inl _, (rmsg', state'), w2) \<Rightarrow> send_loop n dw dr headers0 smsg rmsg' state' w2))"

definition msg_send :: "(bytes \<Rightarrow> ('w, size_t) io) \<Rightarrow> ('w, bytes) io \<Rightarrow> bytes \<Rightarrow>
    msg_t \<Rightarrow> msg_t \<Rightarrow> 'w \<Rightarrow> ((errno + unit) \<times> msg_t \<times> 'w) option" where
  "msg_send dw dr headers0 smsg rmsg w =
     send_loop MSGRECV_MAXRETR dw dr headers0 (msg_setcsum (csum_of smsg) smsg) rmsg MSGREAD_DESYN w"


section \<open>Fields and serialisation\<close>

lemma bit_ucast_u8: "bit (ucast (b::u8) :: u32) n \<longleftrightarrow> n < 8 \<and> bit b n"
  by (auto simp: bit_simps dest: bit_imp_le_length)

lemma mask_ff: "(0xff::u32) = mask 8" and mask_ffff: "(0xffff::u32) = mask 16"
  by (simp_all add: mask_numeral)

lemma msg_deserialize_serialize [simp]: "msg_deserialize32 (msg_serialize32 x @ r) = x"
proof (rule bit_word_eqI)
  fix n assume "n < LENGTH(32)"
  then consider "n < 8" | "8 \<le> n" "n < 16" | "16 \<le> n" "n < 24" | "24 \<le> n" "n < 32" by fastforce
  then show "bit (msg_deserialize32 (msg_serialize32 x @ r)) n = bit x n"
    by cases (auto simp: msg_deserialize32_def msg_serialize32_def mask_ff bit_simps)
qed

lemma length_serialize [simp]: "length (msg_serialize32 x) = 4"
  by (simp add: msg_serialize32_def)

lemma getlen_setlen: "unat l < 2 ^ 16 \<Longrightarrow> msg_getlen (msg_setlen l m) = l"
proof -
  assume "unat l < 2 ^ 16"
  then have "take_bit 16 l = l"
    by (intro word_unat_eq_iff [THEN iffD2]) (simp add: unsigned_take_bit_eq take_bit_nat_eq_self)
  then have "bit l n \<Longrightarrow> n < 16" for n by (metis bit_take_bit_iff)
  then show ?thesis
    unfolding msg_getlen_def msg_setlen_def mask_ffff
    by (intro bit_word_eqI) (auto simp: bit_simps)
qed

lemma gettype_setlen [simp]: "msg_gettype (msg_setlen l m) = msg_gettype m"
  unfolding msg_gettype_def msg_setlen_def mask_ffff by (intro bit_word_eqI) (auto simp: bit_simps)

lemma gettype_settype: "msg_gettype (msg_settype t m) = t AND 0xffff"
  unfolding msg_gettype_def msg_settype_def mask_ffff by (intro bit_word_eqI) (auto simp: bit_simps)

lemma getcsum_setcsum: "msg_getcsum (msg_setcsum c m) = c AND 0xffff"
  unfolding msg_getcsum_def msg_setcsum_def mask_ffff by (intro bit_word_eqI) (auto simp: bit_simps)

lemma getseq_setcsum [simp]: "msg_getseq (msg_setcsum c m) = msg_getseq m"
  unfolding msg_getseq_def msg_setcsum_def mask_ffff
  by (intro bit_word_eqI) (auto simp: bit_simps dest: bit_imp_le_length)

lemma setcsum_sel [simp]:
  "msg_type (msg_setcsum c m) = msg_type m" "msg_data (msg_setcsum c m) = msg_data m"
  "msg_getlen (msg_setcsum c m) = msg_getlen m"
  by (simp_all add: msg_setcsum_def msg_getlen_def)

lemma msg_body_eq: "msg_body m = msg_serialize32 (msg_type m) @ take (unat (msg_getlen m)) (msg_data m)"
  by (simp add: msg_body_def msg_image_def MSG_HDRSZ_def)

lemma csum_of_setcsum [simp]: "csum_of (msg_setcsum c m) = csum_of m"
  by (simp add: csum_of_def msg_body_eq)

lemma csum_of_u16: "csum_of m AND 0xffff = csum_of m"
  unfolding csum_of_def mask_ffff
  by (intro bit_word_eqI) (auto simp: bit_simps dest: bit_imp_le_length)

text \<open>A message whose checksum field holds its checksum.\<close>

definition msg_ok :: "msg_t \<Rightarrow> bool" where
  "msg_ok m \<longleftrightarrow> msg_getcsum m = csum_of m \<and> unat (msg_getlen m) \<le> MSG_MAXLEN \<and> length (msg_data m) = MSG_MAXLEN"

lemma msg_ok_setcsum:
  "unat (msg_getlen m) \<le> MSG_MAXLEN \<Longrightarrow> length (msg_data m) = MSG_MAXLEN \<Longrightarrow> msg_ok (msg_setcsum (csum_of m) m)"
  by (simp add: msg_ok_def getcsum_setcsum csum_of_u16)

section \<open>Frames\<close>

text \<open>
  What a frame is, independently of how it is written: a mark 0x7e, and then, after undoing the byte stuffing (0x7d 0x5e stands
  for 0x7e and 0x7d 0x5d for 0x7d, and no other use of these two bytes is allowed), the two header words in
  little-endian order and as many bytes of the data as the upper half of the second header word says.
\<close>

fun unstuff :: "bytes \<Rightarrow> bytes option" where
  "unstuff [] = Some []"
| "unstuff (b # bs) =
     (if b = 0x7e then None
      else if b = 0x7d then
        (case bs of
           [] \<Rightarrow> None
         | e # bs' \<Rightarrow>
             if e = 0x5e then map_option (Cons 0x7e) (unstuff bs')
             else if e = 0x5d then map_option (Cons 0x7d) (unstuff bs')
             else None)
      else map_option (Cons b) (unstuff bs))"

definition is_frame :: "msg_t \<Rightarrow> bytes \<Rightarrow> bool" where
  "is_frame m bs \<longleftrightarrow> (\<exists>body. bs = 0x7e # body \<and>
     unstuff body = Some (le32_bytes (msg_csum m) @ le32_bytes (msg_type m) @ take (unat (msg_type m) div 65536) (msg_data m)))"

text \<open>The message object holds the whole message.\<close>

definition msg_fits :: "msg_t \<Rightarrow> bool" where
  "msg_fits m \<longleftrightarrow> unat (msg_getlen m) \<le> MSG_MAXLEN \<and> length (msg_data m) = MSG_MAXLEN"

lemma msg_ok_fits: "msg_ok m \<Longrightarrow> msg_fits m"
  by (simp add: msg_ok_def msg_fits_def)

text \<open>The frame \<open>msg_write\<close> produces.\<close>

definition msg_payload :: "msg_t \<Rightarrow> bytes" where
  "msg_payload m = take (MSG_HDRSZ + unat (msg_getlen m)) (msg_image m)"

definition msg_frame :: "msg_t \<Rightarrow> bytes" where
  "msg_frame m = MSG_MARK # concat (map escape (msg_payload m))"

fun write_bytes :: "(bytes \<Rightarrow> ('w, size_t) io) \<Rightarrow> bytes \<Rightarrow> ('w, unit) io" where
  "write_bytes dw [] = io_return ()"
| "write_bytes dw (c # cs) = io_bind (dw (escape c)) (\<lambda>_. write_bytes dw cs)"

lemma unstuff_escape [simp]: "unstuff (escape c @ bs) = map_option (Cons c) (unstuff bs)"
  by (auto simp: escape_def msg_chars)

lemma unstuff_escapes: "unstuff (concat (map escape p)) = Some p"
  by (induction p) auto

lemma unstuff_Some: "unstuff bs = Some p \<Longrightarrow> bs = concat (map escape p)"
  by (induction bs arbitrary: p rule: unstuff.induct) (auto simp: escape_def msg_chars split: if_splits list.splits)

lemma le32_serialize: "msg_serialize32 x = le32_bytes x"
  by (simp add: msg_serialize32_def le32_bytes_def ucast_low_byte)

lemma msg_payload_eq:
  "msg_payload m = msg_serialize32 (msg_csum m) @ msg_serialize32 (msg_type m) @ take (unat (msg_getlen m)) (msg_data m)"
  by (simp add: msg_payload_def msg_image_def MSG_HDRSZ_def)

lemma msg_getlen_div: "unat (msg_getlen m) = unat (msg_type m) div 65536"
  unfolding msg_getlen_def unat_drop_bit_eq by (simp add: drop_bit_eq_div)

lemma is_frame_iff: "is_frame m bs \<longleftrightarrow> bs = msg_frame m"
proof -
  have "msg_payload m = le32_bytes (msg_csum m) @ le32_bytes (msg_type m) @ take (unat (msg_type m) div 65536) (msg_data m)"
    by (simp add: msg_payload_eq le32_serialize msg_getlen_div)
  then have "is_frame m bs \<longleftrightarrow> (\<exists>body. bs = 0x7e # body \<and> unstuff body = Some (msg_payload m))"
    by (simp only: is_frame_def)
  also have "\<dots> \<longleftrightarrow> bs = 0x7e # concat (map escape (msg_payload m))"
    using unstuff_escapes unstuff_Some by blast
  finally show ?thesis by (simp only: msg_frame_def MSG_MARK_def)
qed

lemma unat_u16_up: "unat (ucast (k :: u16) :: u32) = unat k"
proof -
  have "unat k < 2 ^ 16" using unsigned_less [of k] by simp
  then show ?thesis by (simp add: unsigned_ucast_eq take_bit_nat_eq_self)
qed

text \<open>For a message that fits, the loop of \<open>msg_write\<close> sends its payload.\<close>

lemma msg_write_loop_bytes:
  assumes "n \<le> length p" "length p < 65536"
  shows "k \<le> n \<Longrightarrow> msg_write_loop dw p (of_nat n) (of_nat k) w =
    io_bind (write_bytes dw (drop k (take n p))) (\<lambda>_. io_return n) w"
proof (induction "n - k" arbitrary: k w)
  case 0
  then have "k = n" "unat (of_nat n :: u16) = n" "unat (of_nat n :: u32) = n" using assms by (simp_all add: unat_of_nat_small)
  then show ?case by (subst msg_write_loop.simps) (simp add: io_bind_eq io_return_def word_less_nat_alt unat_u16_up)
next
  case (Suc d)
  then have k: "k < n" "unat (of_nat k :: u16) = k" "unat (of_nat n :: u32) = n" using assms by (simp_all add: unat_of_nat_small)
  then have d: "drop k (take n p) = p ! k # drop (Suc k) (take n p)" using assms by (simp add: Cons_nth_drop_Suc [symmetric])
  have i: "msg_write_loop dw p (of_nat n) (of_nat k + 1) w' = io_bind (write_bytes dw (drop (Suc k) (take n p))) (\<lambda>_. io_return n) w'" for w'
    using Suc.hyps(1) [of "Suc k" w'] Suc.hyps(2) k(1) by (simp add: add.commute)
  show ?case
    using k assms by (subst msg_write_loop.simps)
      (auto simp: word_less_nat_alt unat_u16_up d i io_bind_def split: option.splits sum.splits)
qed

lemma msg_write_fits:
  assumes "msg_fits m"
  shows "msg_write dw m = io_bind (dw [MSG_MARK]) (\<lambda>_. io_bind (write_bytes dw (msg_payload m)) (\<lambda>_. io_return (MSG_HDRSZ + unat (msg_getlen m))))"
proof -
  let ?n = "MSG_HDRSZ + unat (msg_getlen m)"
  have l: "length (msg_image m) = MSG_HDRSZ + MSG_MAXLEN" "?n \<le> length (msg_image m)"
    using assms by (simp_all add: msg_image_def msg_fits_def MSG_HDRSZ_def)
  have "(of_nat MSG_HDRSZ + msg_getlen m :: u32) = of_nat ?n" by simp
  then have "msg_write_loop dw (msg_image m) (of_nat MSG_HDRSZ + msg_getlen m) 0 =
      io_bind (write_bytes dw (msg_payload m)) (\<lambda>_. io_return ?n)"
    using msg_write_loop_bytes [OF l(2), of 0 dw] l(1) by (simp add: fun_eq_iff msg_payload_def MSG_HDRSZ_def MSG_MAXLEN_def)
  then show ?thesis by (simp add: msg_write_def)
qed

section \<open>The reader follows the writer\<close>

lemma rx_feed_append:
  "rx_feed (xs @ ys) r = (case rx_feed xs r of RxMore r' \<Rightarrow> rx_feed ys r' | RxDone res r' \<Rightarrow> RxDone res r' | RxFault \<Rightarrow> RxFault)"
  by (induction xs arbitrary: r) (auto split: rx_result.splits)

text \<open>An escaped byte arrives as the byte itself.\<close>

lemma rx_feed_escape:
  assumes "rx_state r = MSGREAD_FRAME" "\<not> rx_esc r" "rx_len r < MSG_HDRSZ + MSG_MAXLEN"
  shows "rx_feed (escape c) r = (case rx_store c r of None \<Rightarrow> RxFault | Some r' \<Rightarrow> rx_complete r')"
  using assms
  by (cases r) (auto simp: escape_def rx_byte_def msg_chars Let_def split: rx_result.split option.split)

text \<open>The receiver after the first \<open>n\<close> bytes of a payload.\<close>

definition rx_after :: "msg_t \<Rightarrow> nat \<Rightarrow> rx \<Rightarrow> bool" where
  "rx_after m n r \<longleftrightarrow>
     rx_state r = MSGREAD_FRAME \<and> \<not> rx_esc r \<and> rx_len r = n \<and> length (rx_hdr r) = MSG_HDRSZ \<and>
     length (msg_data (rx_msg r)) = MSG_MAXLEN \<and>
     take (min n MSG_HDRSZ) (rx_hdr r) = take (min n MSG_HDRSZ) (msg_payload m) \<and>
     take (n - MSG_HDRSZ) (msg_data (rx_msg r)) = take (n - MSG_HDRSZ) (msg_data m) \<and>
     (MSG_HDRSZ \<le> n \<longrightarrow> msg_csum (rx_msg r) = msg_csum m \<and> msg_type (rx_msg r) = msg_type m)"

lemma take_Suc_update: "n < length xs \<Longrightarrow> take (Suc n) (xs[n := x]) = take n xs @ [x]"
  by (simp add: take_Suc_conv_app_nth)

lemma rx_store_after:
  assumes "rx_after m n r" "n < MSG_HDRSZ + unat (msg_getlen m)" "msg_ok m"
  shows "\<exists>r'. rx_store (msg_payload m ! n) r = Some r' \<and> rx_after m (Suc n) r'"
proof (cases "n < MSG_HDRSZ")
  case True
  have len: "n < length (msg_payload m)" using True by (simp add: msg_payload_eq MSG_HDRSZ_def)
  have hdr: "take (Suc n) ((rx_hdr r)[n := msg_payload m ! n]) = take (Suc n) (msg_payload m)"
    using assms(1) True len by (simp add: rx_after_def take_Suc_update take_Suc_conv_app_nth)
  show ?thesis
  proof (cases "Suc n = MSG_HDRSZ")
    case c: True
    have "(rx_hdr r)[n := msg_payload m ! n] = msg_serialize32 (msg_csum m) @ msg_serialize32 (msg_type m)"
      using hdr c assms(1) by (simp add: rx_after_def msg_payload_eq MSG_HDRSZ_def)
    moreover have "take 8 (msg_payload m) = msg_serialize32 (msg_csum m) @ msg_serialize32 (msg_type m)"
      by (simp add: msg_payload_eq)
    ultimately show ?thesis
      using assms(1) c True msg_deserialize_serialize [of "msg_type m" "[]"]
      by (auto simp: rx_after_def rx_store_def store_at_def Let_def msg_deserializeHeaders_def MSG_HDRSZ_def)
  next
    case False
    then show ?thesis using assms(1) hdr True by (auto simp: rx_after_def rx_store_def store_at_def Let_def)
  qed
next
  case False
  let ?k = "n - MSG_HDRSZ"
  have k: "?k < unat (msg_getlen m)" "Suc n - MSG_HDRSZ = Suc ?k" using assms(2) False by auto
  have c: "msg_payload m ! n = msg_data m ! ?k"
    using False k assms(3) by (auto simp: msg_payload_eq nth_append MSG_HDRSZ_def msg_ok_def)
  have "take (Suc ?k) ((msg_data (rx_msg r))[?k := msg_data m ! ?k]) = take (Suc ?k) (msg_data m)"
    using assms(1,3) k by (simp add: rx_after_def take_Suc_update take_Suc_conv_app_nth msg_ok_def MSG_MAXLEN_def)
  then show ?thesis
    using assms(1,3) False k c by (auto simp: rx_after_def rx_store_def store_at_def Let_def min_def msg_ok_def split: if_splits)
qed

lemma rx_complete_after:
  assumes "rx_after m n r" "msg_ok m"
  shows "rx_complete r =
    (if n = MSG_HDRSZ + unat (msg_getlen m) then RxDone (Inr n) (r\<lparr>rx_state := MSGREAD_DESYN\<rparr>) else RxMore r)"
proof (cases "MSG_HDRSZ \<le> n")
  case True
  then have eq: "msg_csum (rx_msg r) = msg_csum m" "msg_type (rx_msg r) = msg_type m" "rx_len r = n"
    using assms(1) by (simp_all add: rx_after_def)
  then have len: "msg_getlen (rx_msg r) = msg_getlen m" by (simp add: msg_getlen_def)
  have "csum_of (rx_msg r) = csum_of m" if "n = MSG_HDRSZ + unat (msg_getlen m)"
    using assms(1) that eq len by (simp add: rx_after_def csum_of_def msg_body_eq msg_getseq_def)
  then show ?thesis
    using assms(2) True eq len by (auto simp: rx_complete_def msg_ok_def msg_getcsum_def Let_def)
next
  case False
  then show ?thesis using assms(1) by (auto simp: rx_complete_def rx_after_def)
qed

text \<open>What the receiver holds once the whole frame of \<open>m\<close> has arrived.\<close>

definition msg_same :: "msg_t \<Rightarrow> msg_t \<Rightarrow> bool" where
  "msg_same m m' \<longleftrightarrow> msg_csum m' = msg_csum m \<and> msg_type m' = msg_type m \<and> length (msg_data m') = length (msg_data m) \<and>
     take (unat (msg_getlen m)) (msg_data m') = take (unat (msg_getlen m)) (msg_data m)"

lemma rx_feed_payload:
  assumes "msg_ok m"
  shows "rx_after m n r \<Longrightarrow> n < MSG_HDRSZ + unat (msg_getlen m) \<Longrightarrow>
    \<exists>r'. rx_feed (concat (map escape (drop n (msg_payload m)))) r =
          RxDone (Inr (MSG_HDRSZ + unat (msg_getlen m))) r' \<and>
      rx_state r' = MSGREAD_DESYN \<and> msg_same m (rx_msg r')"
proof (induction "MSG_HDRSZ + unat (msg_getlen m) - n" arbitrary: n r)
  case (Suc k)
  let ?N = "MSG_HDRSZ + unat (msg_getlen m)" and ?c = "msg_payload m ! n"
  have l: "length (msg_payload m) = ?N" using assms by (simp add: msg_payload_eq MSG_HDRSZ_def msg_ok_def)
  have "rx_len r < MSG_HDRSZ + MSG_MAXLEN" using Suc.prems assms by (simp add: rx_after_def msg_ok_def)
  moreover obtain r1 where s: "rx_store ?c r = Some r1" and after: "rx_after m (Suc n) r1"
    using rx_store_after [OF Suc.prems assms] by blast
  ultimately have f: "rx_feed (escape ?c) r = rx_complete r1"
    using Suc.prems(1) by (subst rx_feed_escape) (auto simp: rx_after_def)
  have d: "drop n (msg_payload m) = ?c # drop (Suc n) (msg_payload m)"
    using Suc.prems(2) l by (simp add: Cons_nth_drop_Suc)
  show ?case
  proof (cases "Suc n = ?N")
    case True
    then have "msg_same m (rx_msg r1)"
      using after assms by (simp add: rx_after_def msg_same_def msg_ok_def)
    then show ?thesis
      using f rx_complete_after [OF after assms] True unfolding d by (simp add: rx_feed_append)
  next
    case False
    then have "rx_feed (escape ?c) r = RxMore r1"
      using f rx_complete_after [OF after assms] by simp
    then show ?thesis
      using Suc.hyps(1) [OF _ after] Suc.hyps(2) False Suc.prems(2) unfolding d by (simp add: rx_feed_append)
  qed
qed simp

lemma rx_feed_noise:
  "rx_state r = MSGREAD_DESYN \<Longrightarrow> MSG_MARK \<notin> set noise \<Longrightarrow> rx_feed noise r = RxMore r"
  by (induction noise) (auto simp: rx_byte_def)

lemma rx_feed_frame:
  assumes "msg_ok m" "rx_state r = MSGREAD_DESYN" "\<not> rx_esc r" "rx_len r = 0"
    "length (rx_hdr r) = MSG_HDRSZ" "length (msg_data (rx_msg r)) = MSG_MAXLEN" "MSG_MARK \<notin> set noise"
  shows "\<exists>r'. rx_feed (noise @ msg_frame m @ rest) r = RxDone (Inr (MSG_HDRSZ + unat (msg_getlen m))) r' \<and>
      rx_state r' = MSGREAD_DESYN \<and> msg_same m (rx_msg r')"
proof -
  let ?r = "r\<lparr>rx_state := MSGREAD_FRAME\<rparr>"
  have "rx_after m 0 ?r" using assms by (simp add: rx_after_def MSG_HDRSZ_def)
  then have "\<exists>r'. rx_feed (concat (map escape (drop 0 (msg_payload m)))) ?r =
          RxDone (Inr (MSG_HDRSZ + unat (msg_getlen m))) r' \<and>
      rx_state r' = MSGREAD_DESYN \<and> msg_same m (rx_msg r')"
    by (rule rx_feed_payload [OF assms(1)]) (simp add: MSG_HDRSZ_def)
  moreover have "rx_byte MSG_MARK r = RxMore ?r" using assms(2) by (simp add: rx_byte_def)
  ultimately show ?thesis
    using assms(2,7) by (auto simp: rx_feed_append rx_feed_noise msg_frame_def)
qed


section \<open>The link the messages travel on\<close>

text \<open>
  What \<open>msg_write\<close> needs of the device: while there is room, every write is taken whole and appended
  to the bytes in transit. What \<open>msg_read\<close> needs: while bytes are pending, a read delivers a
  non-empty prefix of them, in chunks of any size.
\<close>

locale byte_sink =
  fixes sinv :: "'w \<Rightarrow> bool"
    and out :: "'w \<Rightarrow> bytes"
    and room :: "'w \<Rightarrow> nat"
    and dw :: "bytes \<Rightarrow> ('w, size_t) io"
  assumes sink_law: "sinv w \<Longrightarrow> length p \<le> room w \<Longrightarrow>
    \<exists>n w'. dw p w = Some (Inr n, w') \<and> sinv w' \<and> out w' = out w @ p \<and> room w' = room w - length p"
begin

lemma write_bytes_sink:
  "sinv w \<Longrightarrow> length (concat (map escape cs)) \<le> room w \<Longrightarrow>
   \<exists>w'. write_bytes dw cs w = Some (Inr (), w') \<and> sinv w' \<and> out w' = out w @ concat (map escape cs) \<and>
     room w' = room w - length (concat (map escape cs))"
proof (induction cs arbitrary: w)
  case Nil
  then show ?case by (simp add: io_return_def)
next
  case (Cons c cs)
  then obtain n w1 where w1: "dw (escape c) w = Some (Inr n, w1)" "sinv w1" "out w1 = out w @ escape c"
      "room w1 = room w - length (escape c)"
    using sink_law [of w "escape c"] by auto
  moreover have "length (concat (map escape cs)) \<le> room w1" using Cons.prems(2) w1(4) by simp
  then obtain w2 where "write_bytes dw cs w1 = Some (Inr (), w2)" "sinv w2"
      "out w2 = out w1 @ concat (map escape cs)" "room w2 = room w1 - length (concat (map escape cs))"
    using Cons.IH [OF w1(2)] by blast
  ultimately show ?case by (auto simp: io_bind_eq)
qed

lemma msg_write_sink:
  assumes "sinv w" "length (msg_frame m) \<le> room w" "msg_fits m"
  shows "\<exists>w'. msg_write dw m w = Some (Inr (MSG_HDRSZ + unat (msg_getlen m)), w') \<and> sinv w' \<and>
    out w' = out w @ msg_frame m \<and> room w' = room w - length (msg_frame m)"
proof -
  obtain n w1 where w1: "dw [MSG_MARK] w = Some (Inr n, w1)" "sinv w1" "out w1 = out w @ [MSG_MARK]"
      "room w1 = room w - 1"
    using sink_law [of w "[MSG_MARK]"] assms by (auto simp: msg_frame_def)
  moreover have "length (concat (map escape (msg_payload m))) \<le> room w1"
    using assms(2) w1(4) by (simp add: msg_frame_def)
  then obtain w2 where "write_bytes dw (msg_payload m) w1 = Some (Inr (), w2)" "sinv w2"
      "out w2 = out w1 @ concat (map escape (msg_payload m))"
      "room w2 = room w1 - length (concat (map escape (msg_payload m)))"
    using write_bytes_sink [OF w1(2)] by blast
  ultimately show ?thesis by (auto simp: msg_write_fits [OF assms(3)] msg_frame_def io_bind_eq io_return_def)
qed

end

locale byte_source =
  fixes rinv :: "'w \<Rightarrow> bool"
    and inp :: "'w \<Rightarrow> bytes"
    and dr :: "('w, bytes) io"
  assumes source_law: "rinv w \<Longrightarrow> inp w \<noteq> [] \<Longrightarrow>
    \<exists>chunk w'. dr w = Some (Inr chunk, w') \<and> chunk \<noteq> [] \<and> inp w = chunk @ inp w' \<and> rinv w'"
begin

lemma read_loop_feed:
  "rinv w \<Longrightarrow> rx_feed (inp w) r = RxDone res r' \<Longrightarrow> \<exists>w'. msg_read_loop dr r w = Some (res, r', w') \<and> rinv w'"
proof (induction "length (inp w)" arbitrary: w r rule: less_induct)
  case less
  then have "inp w \<noteq> []" by auto
  then obtain chunk w' where c: "dr w = Some (Inr chunk, w')" "chunk \<noteq> []" "inp w = chunk @ inp w'" "rinv w'"
    using source_law [OF less.prems(1)] by blast
  show ?case
  proof (cases "rx_feed chunk r")
    case (RxDone res1 r1)
    then show ?thesis
      using c less.prems(2) by (subst msg_read_loop.simps) (auto simp: rx_feed_append)
  next
    case (RxMore r1)
    then have "rx_feed (inp w') r1 = RxDone res r'" using c less.prems(2) by (simp add: rx_feed_append)
    moreover have "length (inp w') < length (inp w)" using c(2,3) by simp
    ultimately obtain w2 where "msg_read_loop dr r1 w' = Some (res, r', w2)" "rinv w2"
      using less.hyps c(4) by blast
    then show ?thesis using c RxMore by (subst msg_read_loop.simps) simp
  next
    case RxFault
    then show ?thesis using c less.prems(2) by (simp add: rx_feed_append)
  qed
qed

lemma msg_read_source:
  assumes "rinv w" "inp w = noise @ msg_frame m @ rest" "msg_ok m" "MSG_MARK \<notin> set noise"
    "length hdr0 = MSG_HDRSZ" "length (msg_data m0) = MSG_MAXLEN"
  shows "\<exists>m' w'. msg_read dr hdr0 m0 MSGREAD_DESYN w =
      Some (Inr (MSG_HDRSZ + unat (msg_getlen m)), (m', MSGREAD_DESYN), w') \<and> msg_same m m' \<and> rinv w'"
proof -
  let ?r = "\<lparr>rx_state = MSGREAD_DESYN, rx_esc = False, rx_len = 0, rx_hdr = hdr0, rx_msg = m0\<rparr>"
  obtain r' where r': "rx_feed (inp w) ?r = RxDone (Inr (MSG_HDRSZ + unat (msg_getlen m))) r'"
      "rx_state r' = MSGREAD_DESYN" "msg_same m (rx_msg r')"
    using rx_feed_frame [of m ?r noise rest] assms by auto
  then obtain w' where "msg_read_loop dr ?r w = Some (Inr (MSG_HDRSZ + unat (msg_getlen m)), r', w')" "rinv w'"
    using read_loop_feed [OF assms(1) r'(1)] by blast
  then show ?thesis using r' by (auto simp: msg_read_def)
qed

end

section \<open>What the receiver accepts\<close>

text \<open>The buffers of the receiver keep their sizes and the position stays inside them.\<close>

definition rx_inv :: "rx \<Rightarrow> bool" where
  "rx_inv r \<longleftrightarrow> length (rx_hdr r) = MSG_HDRSZ \<and> length (msg_data (rx_msg r)) = MSG_MAXLEN \<and>
     rx_len r \<le> MSG_HDRSZ + MSG_MAXLEN"

fun rx_valid :: "rx_result \<Rightarrow> bool" where
  "rx_valid (RxMore r) = rx_inv r"
| "rx_valid RxFault = False"
| "rx_valid (RxDone (Inl e) r) = (rx_inv r \<and> e = ENXIO)"
| "rx_valid (RxDone (Inr n) r) = (rx_inv r \<and> rx_state r = MSGREAD_DESYN \<and> msg_ok (rx_msg r) \<and>
     n = MSG_HDRSZ + unat (msg_getlen (rx_msg r)))"

lemma rx_store_inv:
  "rx_inv r \<Longrightarrow> rx_len r < MSG_HDRSZ + MSG_MAXLEN \<Longrightarrow> \<exists>r'. rx_store c r = Some r' \<and> rx_inv r'"
  by (auto simp: rx_inv_def rx_store_def store_at_def Let_def msg_deserializeHeaders_def)

lemma rx_complete_valid: "rx_inv r \<Longrightarrow> rx_valid (rx_complete r)"
  by (auto simp: rx_complete_def rx_inv_def Let_def msg_ok_def)

lemma rx_byte_valid:
  assumes "rx_inv r"
  shows "rx_valid (rx_byte c r)"
proof -
  have "rx_valid (case rx_store c' (r\<lparr>rx_esc := False\<rparr>) of None \<Rightarrow> RxFault | Some r' \<Rightarrow> rx_complete r')"
    if "rx_len r \<noteq> MSG_HDRSZ + MSG_MAXLEN" for c'
    using assms that rx_store_inv [of "r\<lparr>rx_esc := False\<rparr>" c'] rx_complete_valid by (auto simp: rx_inv_def)
  then show ?thesis using assms unfolding rx_byte_def Let_def by (auto simp: rx_inv_def)
qed

lemma rx_feed_valid: "rx_inv r \<Longrightarrow> rx_valid (rx_feed cs r)"
proof (induction cs arbitrary: r)
  case (Cons c cs)
  have "rx_valid (rx_byte c r)" by (rule rx_byte_valid [OF Cons.prems])
  then show ?case using Cons.IH by (cases "rx_byte c r") auto
qed simp

lemma msg_read_loop_valid:
  assumes "msg_read_loop dr r w = Some y"
  shows "rx_inv r \<longrightarrow> rx_valid (RxDone (fst y) (fst (snd y)))"
proof (rule msg_read_loop.raw_induct [OF _ assms])
  fix f :: "('w, bytes) io \<Rightarrow> rx \<Rightarrow> 'w \<Rightarrow> ((errno + nat) \<times> rx \<times> 'w) option" and dr r w y
  assume IH: "\<And>dr r w y. f dr r w = Some y \<Longrightarrow> rx_inv r \<longrightarrow> rx_valid (RxDone (fst y) (fst (snd y)))"
    and eq: "(case dr w of None \<Rightarrow> None
      | Some (Inl e, w') \<Rightarrow> Some (Inl ENXIO, r\<lparr>rx_state := MSGREAD_DESYN\<rparr>, w')
      | Some (Inr chunk, w') \<Rightarrow>
          (case rx_feed chunk r of RxMore r' \<Rightarrow> f dr r' w' | RxDone res r' \<Rightarrow> Some (res, r', w') | RxFault \<Rightarrow> None)) = Some y"
  show "rx_inv r \<longrightarrow> rx_valid (RxDone (fst y) (fst (snd y)))"
  proof
    assume inv: "rx_inv r"
    show "rx_valid (RxDone (fst y) (fst (snd y)))"
    proof (cases "dr w")
      case (Some p)
      obtain res w' where p: "p = (res, w')" by force
      show ?thesis
      proof (cases res)
        case (Inl e)
        then show ?thesis using eq Some p inv by (auto simp: rx_inv_def)
      next
        case (Inr chunk)
        have v: "rx_valid (rx_feed chunk r)" by (rule rx_feed_valid [OF inv])
        show ?thesis
        proof (cases "rx_feed chunk r")
          case (RxMore r')
          then show ?thesis using IH [of dr r' w' y] v eq Some p Inr by simp
        next
          case (RxDone res' r')
          then show ?thesis using v eq Some p Inr by auto
        next
          case RxFault
          then show ?thesis using v by simp
        qed
      qed
    qed (use eq in simp)
  qed
qed

section \<open>Properties\<close>

text \<open>
  C32: Whatever bytes the device delivers, the receiver never stores outside its header array and the 512 data bytes of the message.
  A message it accepts is well formed: its checksum field holds its checksum, and its length is the one reported and fits the
  buffer; every rejection is ENXIO.
\<close>

theorem msg_read_valid:
  assumes "length hdr0 = MSG_HDRSZ" "length (msg_data m0) = MSG_MAXLEN"
  shows "rx_feed input \<lparr>rx_state = state, rx_esc = False, rx_len = 0, rx_hdr = hdr0, rx_msg = m0\<rparr> \<noteq> RxFault \<and>
    (case msg_read dr hdr0 m0 state w of
       None \<Rightarrow> True
     | Some (Inl e, (m, state'), w') \<Rightarrow> e = ENXIO \<and> length (msg_data m) = MSG_MAXLEN
     | Some (Inr n, (m, state'), w') \<Rightarrow> msg_getcsum m = csum_of m \<and> n = MSG_HDRSZ + unat (msg_getlen m) \<and>
         n \<le> MSG_HDRSZ + MSG_MAXLEN \<and> length (msg_data m) = MSG_MAXLEN \<and> state' = MSGREAD_DESYN)"
proof -
  let ?r = "\<lparr>rx_state = state, rx_esc = False, rx_len = 0, rx_hdr = hdr0, rx_msg = m0\<rparr>"
  have inv: "rx_inv ?r" using assms by (simp add: rx_inv_def)
  have "rx_feed input ?r \<noteq> RxFault" using rx_feed_valid [OF inv, of input] by (cases "rx_feed input ?r") auto
  moreover have "rx_valid (RxDone res r)" if "msg_read_loop dr ?r w = Some (res, r, w')" for res r w'
    using msg_read_loop_valid [OF that] inv by simp
  ultimately show ?thesis
    by (cases "msg_read_loop dr ?r w") (auto simp: msg_read_def rx_inv_def msg_ok_def split: sum.split)
qed

theorem msg_read_valid_witness:
  "\<exists>m. msg_read (\<lambda>w. Some (Inr [0x7e, 1, 0, 0, 0, 1, 0, 0, 0], w)) (replicate MSG_HDRSZ 0)
     \<lparr>msg_csum = 0, msg_type = 0, msg_data = replicate MSG_MAXLEN 0\<rparr> MSGREAD_DESYN () =
       Some (Inr 8, (m, MSGREAD_DESYN), ()) \<and> msg_getcsum m = csum_of m \<and> msg_gettype m = 1 \<and>
     rx_feed (0x7e # replicate 600 1) \<lparr>rx_state = MSGREAD_DESYN, rx_esc = False, rx_len = 0, rx_hdr = replicate MSG_HDRSZ 0,
       rx_msg = \<lparr>msg_csum = 0, msg_type = 0, msg_data = replicate MSG_MAXLEN 0\<rparr>\<rparr> \<noteq> RxFault"
proof -
  let ?m = "\<lparr>msg_csum = 0, msg_type = 0, msg_data = replicate MSG_MAXLEN 0\<rparr>"
  let ?m' = "\<lparr>msg_csum = 1, msg_type = 1, msg_data = replicate MSG_MAXLEN 0\<rparr>"
  let ?r = "\<lparr>rx_state = MSGREAD_DESYN, rx_esc = False, rx_len = 0, rx_hdr = replicate MSG_HDRSZ 0, rx_msg = ?m\<rparr>"
  let ?dr = "\<lambda>w. Some (Inr [0x7e, 1, 0, 0, 0, 1, 0, 0, 0], w)"
  have "rx_feed [0x7e, 1, 0, 0, 0, 1, 0, 0, 0] ?r =
      RxDone (Inr 8) \<lparr>rx_state = MSGREAD_DESYN, rx_esc = False, rx_len = 8, rx_hdr = [1, 0, 0, 0, 1, 0, 0, 0], rx_msg = ?m'\<rparr>"
    by code_simp
  then have r: "msg_read ?dr (replicate MSG_HDRSZ 0) ?m MSGREAD_DESYN () = Some (Inr 8, (?m', MSGREAD_DESYN), ())"
    by (simp add: msg_read_def msg_read_loop.simps)
  then show ?thesis
    using msg_read_valid [of "replicate MSG_HDRSZ 0" ?m "0x7e # replicate 600 1" MSGREAD_DESYN ?dr "()"]
    by (auto simp: msg_gettype_def)
qed

end
