(* ===== verification/Rtt.thy ===== *)
theory Rtt
  imports Cbuffer Msg
begin

text \<open>
  \<open>devices/pipe-rtt\<close>: the pipe to a debugger over two sets of ring buffers in memory, the device
  over which the loader usually talks to \<open>phoenixd\<close>. The world holds the descriptor (\<open>None\<close> while
  the static pointer \<open>rtt\<close> is NULL), whether the console hooks are installed, and the state \<open>'h\<close>
  of everything outside: the timer, and the debugger, which may fill and drain the rings whenever
  the timer is read. \<open>timer\<close> stands for \<open>hal_timerGet\<close> and is a parameter. The model is that of a
  build without \<open>RTT_PERF_BUFFERS\<close>: two channels in each direction.
\<close>

record rtt_pipe =
  rp_name :: string
  rp_ptr :: bytes
  rp_sz :: u32
  rp_wr :: u32
  rp_rd :: u32
  rp_flags :: u32

record rtt_desc =
  rtt_tag :: string
  rtt_txChannels :: u32
  rtt_rxChannels :: u32
  rtt_txChannel :: "rtt_pipe list"
  rtt_rxChannel :: "rtt_pipe list"

record 'h rtt_world =
  rtt :: "rtt_desc option"
  rtt_hooks :: bool
  rtt_host :: 'h

definition RTT_TXCHANNELS :: nat where "RTT_TXCHANNELS = 2"
definition RTT_RXCHANNELS :: nat where "RTT_RXCHANNELS = 2"

definition rtt_check :: "int \<Rightarrow> ('h rtt_world, rtt_desc) io" where
  "rtt_check chan w =
     (case rtt w of
        None \<Rightarrow> io_throw ENODEV w
      | Some d \<Rightarrow> if chan < 0 \<or> chan \<ge> int RTT_TXCHANNELS then io_throw ENODEV w else io_return d w)"

section \<open>The rings\<close>

fun rtt_read_loop :: "u32 \<Rightarrow> bytes \<Rightarrow> u32 \<Rightarrow> nat \<Rightarrow> u32 \<Rightarrow> bytes \<times> u32" where
  "rtt_read_loop sz srcBuf wr 0 rd = ([], rd)"
| "rtt_read_loop sz srcBuf wr (Suc todo) rd =
     (if rd = wr then ([], rd)
      else case rtt_read_loop sz srcBuf wr todo ((rd + 1) mod sz) of
             (out, rd') \<Rightarrow> (srcBuf ! unat rd # out, rd'))"

fun rtt_write_loop :: "u32 \<Rightarrow> u32 \<Rightarrow> bytes \<Rightarrow> bytes \<Rightarrow> u32 \<Rightarrow> nat \<times> bytes \<times> u32" where
  "rtt_write_loop sz rd [] dstBuf wr = (0, dstBuf, wr)"
| "rtt_write_loop sz rd (c # src) dstBuf wr =
     (if rd = wr then (length (c # src), dstBuf, wr)
      else rtt_write_loop sz rd src (dstBuf[unat wr := c]) ((wr + 1) mod sz))"

text \<open>One channel: the bytes taken out of it, and the number of bytes put into it.\<close>

definition rtt_get :: "rtt_pipe \<Rightarrow> nat \<Rightarrow> bytes \<times> rtt_pipe" where
  "rtt_get p count =
     (case rtt_read_loop (rp_sz p) (rp_ptr p) (rp_wr p) count (rp_rd p) of
        (out, rd) \<Rightarrow> (out, p\<lparr>rp_rd := rd\<rparr>))"

definition rtt_put :: "rtt_pipe \<Rightarrow> bytes \<Rightarrow> nat \<times> rtt_pipe" where
  "rtt_put p src =
     (case rtt_write_loop (rp_sz p) ((rp_rd p + rp_sz p - 1) mod rp_sz p) src (rp_ptr p) (rp_wr p) of
        (todo, buf, wr) \<Rightarrow> (length src - todo, p\<lparr>rp_ptr := buf, rp_wr := wr\<rparr>))"

definition rtt_read :: "int \<Rightarrow> size_t \<Rightarrow> ('h rtt_world, bytes) io" where
  "rtt_read chan count =
     io_bind (rtt_check chan) (\<lambda>d w.
       case rtt_get (rtt_rxChannel d ! nat chan) (unat count) of
         (out, p) \<Rightarrow> io_return out
           (w\<lparr>rtt := Some (d\<lparr>rtt_rxChannel := (rtt_rxChannel d)[nat chan := p]\<rparr>)\<rparr>))"

definition rtt_write :: "int \<Rightarrow> bytes \<Rightarrow> ('h rtt_world, size_t) io" where
  "rtt_write chan buf =
     io_bind (rtt_check chan) (\<lambda>d w.
       case rtt_put (rtt_txChannel d ! nat chan) buf of
         (n, p) \<Rightarrow> io_return (of_nat n)
           (w\<lparr>rtt := Some (d\<lparr>rtt_txChannel := (rtt_txChannel d)[nat chan := p]\<rparr>)\<rparr>))"

text \<open>
  \<open>rtt_writeBlocking\<close>, the console hook: after 100 ms without room the channel is emptied
  (\<open>wr := rd\<close>). The descriptor is not NULL when the hook is installed.
\<close>

partial_function (option) writeBlocking_loop ::
  "('h rtt_world \<Rightarrow> time_t \<times> 'h rtt_world) \<Rightarrow> int \<Rightarrow> time_t \<Rightarrow> bytes \<Rightarrow> 'h rtt_world \<Rightarrow> ((errno + unit) \<times> 'h rtt_world) option" where
  "writeBlocking_loop timer chan start todo w =
     (if todo = [] then Some (Inr (), w)
      else case timer w of (now, w1) \<Rightarrow>
        if now - start \<ge> 100 then
          Some (Inl ETIME,
            (case rtt w1 of
               None \<Rightarrow> w1
             | Some d \<Rightarrow> w1\<lparr>rtt := Some (d\<lparr>rtt_txChannel :=
                 (rtt_txChannel d)[nat chan := (rtt_txChannel d ! nat chan)
                   \<lparr>rp_wr := rp_rd (rtt_txChannel d ! nat chan)\<rparr>]\<rparr>)\<rparr>))
        else case rtt_write chan todo w1 of
               None \<Rightarrow> None
             | Some (Inl e, w2) \<Rightarrow> Some (Inl e, w2)
             | Some (Inr len, w2) \<Rightarrow> writeBlocking_loop timer chan start (drop (unat len) todo) w2)"

definition rtt_writeBlocking :: "('h rtt_world \<Rightarrow> time_t \<times> 'h rtt_world) \<Rightarrow> int \<Rightarrow> bytes \<Rightarrow> ('h rtt_world, unit) io" where
  "rtt_writeBlocking timer chan buf w =
     (case timer w of (start, w1) \<Rightarrow> writeBlocking_loop timer chan start buf w1)"

section \<open>Initialisation\<close>

text \<open>\<open>txdefs\<close> and \<open>rxdefs\<close> are \<open>channelDefs\<close>: the buffers, their sizes and names.\<close>

definition rtt_channel :: "bytes \<times> string \<Rightarrow> rtt_pipe" where
  "rtt_channel def = \<lparr>rp_name = snd def, rp_ptr = fst def, rp_sz = of_nat (length (fst def)), rp_wr = 0,
     rp_rd = 0, rp_flags = 0\<rparr>"

definition rtt_tagBackward :: string where
  "rtt_tagBackward = ''EPIP TTR''"

definition rtt_init :: "(bytes \<times> string) list \<Rightarrow> (bytes \<times> string) list \<Rightarrow> 'h rtt_world \<Rightarrow> 'h rtt_world" where
  "rtt_init txdefs rxdefs w =
     (case rtt w of
        Some _ \<Rightarrow> w
      | None \<Rightarrow>
          w\<lparr>rtt := Some \<lparr>rtt_tag = take 16 (rev rtt_tagBackward @ replicate 16 (CHR 0x00)),
                rtt_txChannels = of_nat RTT_TXCHANNELS, rtt_rxChannels = of_nat RTT_RXCHANNELS,
                rtt_txChannel = map rtt_channel (take RTT_TXCHANNELS txdefs),
                rtt_rxChannel = map rtt_channel (take RTT_RXCHANNELS rxdefs)\<rparr>,
            rtt_hooks := True\<rparr>)"

definition rtt_done :: "'h rtt_world \<Rightarrow> 'h rtt_world" where
  "rtt_done w = (if rtt w \<noteq> None then w\<lparr>rtt := None, rtt_hooks := False\<rparr> else w)"

section \<open>The device\<close>

partial_function (option) pipe_read_loop ::
  "('h rtt_world \<Rightarrow> time_t \<times> 'h rtt_world) \<Rightarrow> int \<Rightarrow> time_t \<Rightarrow> size_t \<Rightarrow> time_t \<Rightarrow> 'h rtt_world \<Rightarrow>
     ((errno + bytes) \<times> 'h rtt_world) option" where
  "pipe_read_loop timer chan start len timeout w =
     (case rtt_read chan len w of
        None \<Rightarrow> None
      | Some (Inl e, w1) \<Rightarrow> Some (Inl e, w1)
      | Some (Inr out, w1) \<Rightarrow>
          if out \<noteq> [] then Some (Inr out, w1)
          else case timer w1 of (now, w2) \<Rightarrow>
            if now - start \<ge> timeout then Some (Inl ETIME, w2)
            else pipe_read_loop timer chan start len timeout w2)"

definition pipe_read :: "('h rtt_world \<Rightarrow> time_t \<times> 'h rtt_world) \<Rightarrow> nat \<Rightarrow> addr_t \<Rightarrow> size_t \<Rightarrow> time_t \<Rightarrow> ('h rtt_world, bytes) io" where
  "pipe_read timer minor offs len timeout w =
     (case timer w of (start, w1) \<Rightarrow> pipe_read_loop timer (int minor + 1) start len timeout w1)"

definition pipe_write :: "nat \<Rightarrow> addr_t \<Rightarrow> bytes \<Rightarrow> ('h rtt_world, size_t) io" where
  "pipe_write minor offs buff = rtt_write (int minor + 1) buff"

definition pipe_sync :: "nat \<Rightarrow> ('h rtt_world, unit) io" where
  "pipe_sync minor = io_bind (rtt_check (int minor + 1)) (\<lambda>_. io_return ())"

definition pipe_map :: "nat \<Rightarrow> addr_t \<Rightarrow> size_t \<Rightarrow> u32 \<Rightarrow> addr_t \<Rightarrow> size_t \<Rightarrow> u32 \<Rightarrow> ('h rtt_world, mappable \<times> addr_t) io" where
  "pipe_map minor addr sz mode memaddr memsz memmode =
     io_bind (rtt_check (int minor + 1)) (\<lambda>_.
       if (mode AND memmode) \<noteq> mode then io_throw EINVAL else io_return (NotMappable, 0))"

definition opsPipeRTT :: "('h rtt_world \<Rightarrow> time_t \<times> 'h rtt_world) \<Rightarrow> 'h rtt_world dev_ops_t" where
  "opsPipeRTT timer = \<lparr>op_sync = Some pipe_sync, op_map = Some pipe_map, op_control = None,
     op_read = Some (pipe_read timer), op_write = Some pipe_write, op_erase = None\<rparr>"

definition DEV_PIPE :: nat where "DEV_PIPE = 8"

definition pipe_init :: "nat \<Rightarrow> ('h rtt_world, unit) io" where
  "pipe_init minor = io_bind (rtt_check (int minor + 1)) (\<lambda>_. io_return ())"

definition pipe_done :: "nat \<Rightarrow> ('h rtt_world, unit) io" where
  "pipe_done minor = io_bind (rtt_check (int minor + 1)) (\<lambda>_. io_return ())"

definition pipe_reg :: "('h rtt_world \<Rightarrow> time_t \<times> 'h rtt_world) \<Rightarrow> 'h rtt_world devs \<Rightarrow> 'h rtt_world devs" where
  "pipe_reg timer = devs_register DEV_PIPE 1
     \<lparr>dev_name = Some ''pipe-rtt'', dev_init = Some pipe_init, dev_done = Some pipe_done,
      dev_ops = Some (opsPipeRTT timer)\<rparr>"

section \<open>A channel is a bounded queue\<close>

definition pipe_inv :: "rtt_pipe \<Rightarrow> bool" where
  "pipe_inv p \<longleftrightarrow> rp_sz p \<noteq> 0 \<and> unat (rp_sz p) < 2 ^ 31 \<and> length (rp_ptr p) = unat (rp_sz p) \<and>
     rp_wr p < rp_sz p \<and> rp_rd p < rp_sz p"

definition pipe_len :: "rtt_pipe \<Rightarrow> nat" where
  "pipe_len p = (if unat (rp_rd p) \<le> unat (rp_wr p) then unat (rp_wr p) - unat (rp_rd p)
     else unat (rp_wr p) + unat (rp_sz p) - unat (rp_rd p))"

definition pipe_list :: "rtt_pipe \<Rightarrow> bytes" where
  "pipe_list p = ring (rp_ptr p) (unat (rp_rd p)) (pipe_len p)"

definition pipe_room :: "rtt_pipe \<Rightarrow> nat" where
  "pipe_room p = unat (rp_sz p) - 1 - pipe_len p"

lemma pipe_invD:
  assumes "pipe_inv p"
  shows "0 < unat (rp_sz p)" "unat (rp_sz p) < 2147483648" "length (rp_ptr p) = unat (rp_sz p)"
    "unat (rp_wr p) < unat (rp_sz p)" "unat (rp_rd p) < unat (rp_sz p)"
  using assms by (auto simp: pipe_inv_def word_less_nat_alt unat_gt_0)

lemma unat_step:
  assumes "unat (i::u32) < unat sz" "unat sz < 2147483648"
  shows "unat ((i + 1) mod sz) = (if unat i + 1 = unat sz then 0 else unat i + 1)"
proof -
  have "unat (i + 1) = unat i + 1" using assms unat_plus_small [of i 1] by simp
  then show ?thesis using assms by (simp add: unat_mod_word mod_if)
qed

lemma unat_before:
  assumes "unat (i::u32) < unat sz" "unat sz < 2147483648"
  shows "unat ((i + sz - 1) mod sz) = (if unat i = 0 then unat sz - 1 else unat i - 1)"
proof -
  have "unat (i + sz) = unat i + unat sz" using assms by (intro unat_plus_small) simp
  then have "unat (i + sz - 1) = unat i + unat sz - 1"
    using assms by (subst unat_minus_small) (auto simp: word_le_nat_alt)
  then show ?thesis using assms by (simp add: unat_mod_word mod_if)
qed

lemma pipe_get_step:
  assumes inv: "pipe_inv p" and ne: "rp_rd p \<noteq> rp_wr p"
  defines "p' \<equiv> p\<lparr>rp_rd := (rp_rd p + 1) mod rp_sz p\<rparr>"
  shows "pipe_inv p'" "pipe_list p = rp_ptr p ! unat (rp_rd p) # pipe_list p'" "pipe_len p = Suc (pipe_len p')"
proof -
  note i = pipe_invD [OF inv]
  have ne': "unat (rp_rd p) \<noteq> unat (rp_wr p)" using ne by (simp add: word_unat_eq_iff)
  have rd: "unat (rp_rd p') = (if unat (rp_rd p) + 1 = unat (rp_sz p) then 0 else unat (rp_rd p) + 1)"
    using unat_step [OF i(5,2)] by (simp add: p'_def)
  show "pipe_inv p'" using inv rd i by (auto simp: pipe_inv_def p'_def word_less_nat_alt)
  have oth: "rp_wr p' = rp_wr p" "rp_sz p' = rp_sz p" "rp_ptr p' = rp_ptr p" by (simp_all add: p'_def)
  show len: "pipe_len p = Suc (pipe_len p')"
    using rd ne' i unfolding pipe_len_def oth by (auto split: if_splits)
  have "(unat (rp_rd p) + 1) mod length (rp_ptr p) = unat (rp_rd p')"
    using rd i by (simp add: mod_if)
  then have "pipe_list p' = drop 1 (pipe_list p)"
    using ring_drop [of 1 "pipe_len p" "rp_ptr p" "unat (rp_rd p)"] len by (simp add: pipe_list_def oth)
  moreover have "pipe_list p \<noteq> []" "hd (pipe_list p) = rp_ptr p ! unat (rp_rd p)"
    using len i by (auto simp: pipe_list_def hd_conv_nth simp flip: length_greater_0_conv)
  ultimately show "pipe_list p = rp_ptr p ! unat (rp_rd p) # pipe_list p'"
    by (metis drop_Suc drop_0 list.collapse One_nat_def)
qed

lemma pipe_empty: "pipe_inv p \<Longrightarrow> rp_rd p = rp_wr p \<longleftrightarrow> pipe_len p = 0"
  using pipe_invD(4,5) [of p] by (auto simp: pipe_len_def word_unat_eq_iff)

lemma read_loop_law:
  "pipe_inv p \<Longrightarrow> rtt_read_loop (rp_sz p) (rp_ptr p) (rp_wr p) n (rp_rd p) = (out, rd) \<Longrightarrow>
   pipe_inv (p\<lparr>rp_rd := rd\<rparr>) \<and> out = take n (pipe_list p) \<and> pipe_list (p\<lparr>rp_rd := rd\<rparr>) = drop n (pipe_list p)"
proof (induction n arbitrary: p out)
  case (Suc n)
  show ?case
  proof (cases "rp_rd p = rp_wr p")
    case True
    then have "pipe_list p = []" using pipe_empty [OF Suc.prems(1)] by (simp add: pipe_list_def)
    moreover have "out = []" "p\<lparr>rp_rd := rd\<rparr> = p" using Suc.prems(2) True by auto
    ultimately show ?thesis using Suc.prems(1) by simp
  next
    case False
    let ?p = "p\<lparr>rp_rd := (rp_rd p + 1) mod rp_sz p\<rparr>"
    obtain o' where o': "rtt_read_loop (rp_sz ?p) (rp_ptr ?p) (rp_wr ?p) n (rp_rd ?p) = (o', rd)"
        "out = rp_ptr p ! unat (rp_rd p) # o'"
      using Suc.prems(2) False by (auto split: prod.splits)
    note st = pipe_get_step [OF Suc.prems(1) False]
    show ?thesis using Suc.IH [OF st(1) o'(1)] o'(2) st(2) by simp
  qed
qed auto

lemma pipe_put_step:
  fixes c :: u8
  assumes inv: "pipe_inv p" and ne: "(rp_rd p + rp_sz p - 1) mod rp_sz p \<noteq> rp_wr p"
  defines "p' \<equiv> p\<lparr>rp_ptr := (rp_ptr p)[unat (rp_wr p) := c], rp_wr := (rp_wr p + 1) mod rp_sz p\<rparr>"
  shows "pipe_inv p'" "pipe_list p' = pipe_list p @ [c]" "pipe_len p' = Suc (pipe_len p)"
    "Suc (pipe_len p) < unat (rp_sz p)"
proof -
  note i = pipe_invD [OF inv]
  have wr: "unat (rp_wr p') = (if unat (rp_wr p) + 1 = unat (rp_sz p) then 0 else unat (rp_wr p) + 1)"
    using unat_step [OF i(4,2)] by (simp add: p'_def)
  have ne': "(if unat (rp_rd p) = 0 then unat (rp_sz p) - 1 else unat (rp_rd p) - 1) \<noteq> unat (rp_wr p)"
    using ne unat_before [OF i(5,2)] by (metis word_unat_eq_iff)
  show "pipe_inv p'" using inv wr i by (auto simp: pipe_inv_def p'_def word_less_nat_alt)
  have oth: "rp_rd p' = rp_rd p" "rp_sz p' = rp_sz p" by (simp_all add: p'_def)
  show len: "pipe_len p' = Suc (pipe_len p)"
    using wr ne' i unfolding pipe_len_def oth by (auto split: if_splits)
  show "Suc (pipe_len p) < unat (rp_sz p)"
    using ne' i unfolding pipe_len_def by (auto split: if_splits)
  have m: "(unat (rp_rd p) + pipe_len p) mod length (rp_ptr p) = unat (rp_wr p)"
    using i unfolding pipe_len_def by (auto simp: mod_if)
  have "ring (memcpy_to (rp_ptr p) (unat (rp_wr p)) (take 1 [c])) (unat (rp_rd p)) (pipe_len p + 1) =
      ring (rp_ptr p) (unat (rp_rd p)) (pipe_len p) @ take 1 [c]"
    using i m \<open>Suc (pipe_len p) < unat (rp_sz p)\<close> by (intro ring_write1) auto
  then show "pipe_list p' = pipe_list p @ [c]"
    using i len by (simp add: pipe_list_def oth p'_def memcpy_to_single)
qed

lemma pipe_full:
  assumes "pipe_inv p"
  shows "(rp_rd p + rp_sz p - 1) mod rp_sz p = rp_wr p \<longleftrightarrow> pipe_room p = 0"
proof
  note i = pipe_invD [OF assms]
  assume "(rp_rd p + rp_sz p - 1) mod rp_sz p = rp_wr p"
  then have "unat (rp_wr p) = (if unat (rp_rd p) = 0 then unat (rp_sz p) - 1 else unat (rp_rd p) - 1)"
    using unat_before [OF i(5,2)] by simp
  then show "pipe_room p = 0" using i by (auto simp: pipe_room_def pipe_len_def split: if_splits)
next
  assume "pipe_room p = 0"
  then show "(rp_rd p + rp_sz p - 1) mod rp_sz p = rp_wr p"
    using pipe_put_step(4) [OF assms] by (force simp: pipe_room_def)
qed

lemma write_loop_law:
  "pipe_inv p \<Longrightarrow> rtt_write_loop (rp_sz p) ((rp_rd p + rp_sz p - 1) mod rp_sz p) src (rp_ptr p) (rp_wr p) = (todo, buf, wr) \<Longrightarrow>
   pipe_inv (p\<lparr>rp_ptr := buf, rp_wr := wr\<rparr>) \<and> length src - todo = min (length src) (pipe_room p) \<and> todo \<le> length src \<and>
   pipe_list (p\<lparr>rp_ptr := buf, rp_wr := wr\<rparr>) = pipe_list p @ take (pipe_room p) src \<and>
   pipe_room (p\<lparr>rp_ptr := buf, rp_wr := wr\<rparr>) = pipe_room p - (length src - todo)"
proof (induction src arbitrary: p)
  case (Cons c src)
  show ?case
  proof (cases "(rp_rd p + rp_sz p - 1) mod rp_sz p = rp_wr p")
    case True
    then have "pipe_room p = 0" "todo = length (c # src)" "p\<lparr>rp_ptr := buf, rp_wr := wr\<rparr> = p"
      using Cons.prems pipe_full [OF Cons.prems(1)] by auto
    then show ?thesis using Cons.prems(1) by simp
  next
    case False
    let ?p = "p\<lparr>rp_ptr := (rp_ptr p)[unat (rp_wr p) := c], rp_wr := (rp_wr p + 1) mod rp_sz p\<rparr>"
    note st = pipe_put_step(1-3) [OF Cons.prems(1) False, where c = c] pipe_put_step(4) [OF Cons.prems(1) False]
    have "rtt_write_loop (rp_sz ?p) ((rp_rd ?p + rp_sz ?p - 1) mod rp_sz ?p) src (rp_ptr ?p) (rp_wr ?p) = (todo, buf, wr)"
      using Cons.prems(2) False by simp
    note IH = Cons.IH [OF st(1) this]
    have "pipe_room p = Suc (pipe_room ?p)" using st(3,4) by (simp add: pipe_room_def)
    then show ?thesis using IH st(2) by (auto simp: Suc_diff_le)
  qed
qed auto

interpretation rttq: bounded_queue pipe_inv pipe_list pipe_room "2 ^ 64" rtt_put rtt_get
proof unfold_locales
  fix p p' :: rtt_pipe and xs :: bytes and n
  assume inv: "pipe_inv p" and "length xs < 2 ^ 64" and put: "rtt_put p xs = (n, p')"
  obtain todo buf wr where l: "rtt_write_loop (rp_sz p) ((rp_rd p + rp_sz p - 1) mod rp_sz p) xs (rp_ptr p) (rp_wr p) = (todo, buf, wr)"
    by (metis prod_cases3)
  then have "n = length xs - todo" "p' = p\<lparr>rp_ptr := buf, rp_wr := wr\<rparr>" using put by (auto simp: rtt_put_def)
  then show "pipe_inv p' \<and> n = min (length xs) (pipe_room p) \<and> pipe_list p' = pipe_list p @ take n xs \<and>
      pipe_room p' = pipe_room p - n"
    using write_loop_law [OF inv l] by (auto simp: min_def)
next
  fix p p' :: rtt_pipe and ys :: bytes and n
  assume inv: "pipe_inv p" and "n < 2 ^ 64" and get: "rtt_get p n = (ys, p')"
  obtain rd where l: "rtt_read_loop (rp_sz p) (rp_ptr p) (rp_wr p) n (rp_rd p) = (ys, rd)" "p' = p\<lparr>rp_rd := rd\<rparr>"
    using get by (auto simp: rtt_get_def split: prod.splits)
  note law = read_loop_law [OF inv l(1), folded l(2)]
  have "pipe_len p' = pipe_len p - length ys" "length ys \<le> pipe_len p"
    using law by (auto simp: pipe_list_def dest: arg_cong [where f = length])
  moreover have "pipe_len p < unat (rp_sz p)"
    using pipe_invD [OF inv] by (auto simp: pipe_len_def)
  ultimately show "pipe_inv p' \<and> ys = take n (pipe_list p) \<and> pipe_list p' = drop n (pipe_list p) \<and>
      pipe_room p' = pipe_room p + length ys"
    using law l(2) by (simp add: pipe_room_def)
qed


section \<open>The pipe is a link for messages\<close>

text \<open>
  The channels of minor 0 (channel 1) as the link of \<open>Msg\<close>: the transmit ring is the sink; the receive
  ring, together with what the debugger is still going to put into it, is the source. The receive ring can hold a byte.
\<close>

definition rtt_ok :: "'h rtt_world \<Rightarrow> bool" where
  "rtt_ok w \<longleftrightarrow> (case rtt w of None \<Rightarrow> False | Some d \<Rightarrow>
     length (rtt_txChannel d) = RTT_TXCHANNELS \<and> length (rtt_rxChannel d) = RTT_RXCHANNELS \<and>
     list_all pipe_inv (rtt_txChannel d) \<and> list_all pipe_inv (rtt_rxChannel d) \<and> 2 \<le> rp_sz (rtt_rxChannel d ! 1))"

definition rtt_tx :: "'h rtt_world \<Rightarrow> rtt_pipe" where
  "rtt_tx w = rtt_txChannel (the (rtt w)) ! 1"

definition rtt_rx :: "'h rtt_world \<Rightarrow> rtt_pipe" where
  "rtt_rx w = rtt_rxChannel (the (rtt w)) ! 1"

lemma rtt_okE:
  assumes "rtt_ok w"
  obtains d where "rtt w = Some d" "pipe_inv (rtt_txChannel d ! 1)" "pipe_inv (rtt_rxChannel d ! 1)"
    "1 < length (rtt_txChannel d)" "1 < length (rtt_rxChannel d)"
    "length (rtt_txChannel d) = RTT_TXCHANNELS" "length (rtt_rxChannel d) = RTT_RXCHANNELS"
    "list_all pipe_inv (rtt_txChannel d)" "list_all pipe_inv (rtt_rxChannel d)" "2 \<le> rp_sz (rtt_rxChannel d ! 1)"
proof -
  obtain d where d: "rtt w = Some d" using assms by (auto simp: rtt_ok_def split: option.splits)
  have "length (rtt_txChannel d) = 2" "length (rtt_rxChannel d) = 2"
    using assms d by (auto simp: rtt_ok_def RTT_TXCHANNELS_def RTT_RXCHANNELS_def)
  then show thesis
    using that [OF d] assms d
    by (simp add: rtt_ok_def RTT_TXCHANNELS_def RTT_RXCHANNELS_def list_all_length)
qed

lemma list_all_update: "list_all P xs \<Longrightarrow> P x \<Longrightarrow> list_all P (xs[i := x])"
  by (cases "i < length xs") (auto simp: list_all_length nth_list_update)

lemma rtt_check_ok: "rtt w = Some d \<Longrightarrow> rtt_check 1 w = Some (Inr d, w)"
  by (simp add: rtt_check_def io_return_def RTT_TXCHANNELS_def)

lemma pipe_write_law:
  assumes "rtt_ok w" "length p \<le> pipe_room (rtt_tx w)"
  shows "\<exists>n w'. pipe_write 0 offs p w = Some (Inr n, w') \<and> rtt_ok w' \<and>
    pipe_list (rtt_tx w') = pipe_list (rtt_tx w) @ p \<and> pipe_room (rtt_tx w') = pipe_room (rtt_tx w) - length p"
proof -
  obtain d where d: "rtt w = Some d" "pipe_inv (rtt_txChannel d ! 1)" "1 < length (rtt_txChannel d)"
    "length (rtt_txChannel d) = RTT_TXCHANNELS" "length (rtt_rxChannel d) = RTT_RXCHANNELS"
    "list_all pipe_inv (rtt_txChannel d)" "list_all pipe_inv (rtt_rxChannel d)" "2 \<le> rp_sz (rtt_rxChannel d ! 1)"
    using rtt_okE [OF assms(1)] by metis
  obtain n t where t: "rtt_put (rtt_txChannel d ! 1) p = (n, t)" by force
  have "length p < 2 ^ 64"
    using assms(2) d(1) pipe_invD(2) [OF d(2)] by (simp add: rtt_tx_def pipe_room_def)
  note law = rttq.put_law [OF d(2) this t]
  have n: "n = length p" using law assms(2) d(1) by (simp add: rtt_tx_def)
  have "pipe_write 0 offs p w = Some (Inr (of_nat n), w\<lparr>rtt := Some (d\<lparr>rtt_txChannel := (rtt_txChannel d)[1 := t]\<rparr>)\<rparr>)"
    using t by (simp add: pipe_write_def rtt_write_def io_bind_def rtt_check_ok [OF d(1)] io_return_def)
  moreover have "list_all pipe_inv ((rtt_txChannel d)[1 := t])"
    using law d by (intro list_all_update) auto
  ultimately show ?thesis
    using law n d by (auto simp: rtt_ok_def rtt_tx_def)
qed

interpretation rtt_sink: byte_sink rtt_ok "\<lambda>w. pipe_list (rtt_tx w)" "\<lambda>w. pipe_room (rtt_tx w)" "pipe_write 0 0"
  by unfold_locales (rule pipe_write_law)

text \<open>What reading the receive ring does: the oldest bytes, and nothing else changes.\<close>

lemma rtt_read_law:
  assumes "rtt_ok w"
  shows "\<exists>w'. rtt_read 1 len w = Some (Inr (take (unat len) (pipe_list (rtt_rx w))), w') \<and> rtt_ok w' \<and>
    pipe_list (rtt_rx w') = drop (unat len) (pipe_list (rtt_rx w)) \<and> rtt_host w' = rtt_host w \<and>
    (pipe_list (rtt_rx w) = [] \<longrightarrow> w' = w)"
proof -
  obtain d where d: "rtt w = Some d" "pipe_inv (rtt_rxChannel d ! 1)" "1 < length (rtt_rxChannel d)"
    "length (rtt_txChannel d) = RTT_TXCHANNELS" "length (rtt_rxChannel d) = RTT_RXCHANNELS"
    "list_all pipe_inv (rtt_txChannel d)" "list_all pipe_inv (rtt_rxChannel d)" "2 \<le> rp_sz (rtt_rxChannel d ! 1)"
    using rtt_okE [OF assms] by metis
  obtain out r where g: "rtt_get (rtt_rxChannel d ! 1) (unat len) = (out, r)" by force
  have "unat len < 2 ^ 64" using unat_less_exp [of len] by simp
  note law = rttq.get_law [OF d(2) this g]
  have r: "\<exists>rd. r = (rtt_rxChannel d ! 1)\<lparr>rp_rd := rd\<rparr>" using g by (auto simp: rtt_get_def split: prod.splits)
  let ?w = "w\<lparr>rtt := Some (d\<lparr>rtt_rxChannel := (rtt_rxChannel d)[1 := r]\<rparr>)\<rparr>"
  have "rtt_read 1 len w = Some (Inr out, ?w)"
    using g by (simp add: rtt_read_def io_bind_def rtt_check_ok [OF d(1)] io_return_def)
  moreover have "rtt_ok ?w"
    using law d r list_all_update [OF d(7), of r 1] by (auto simp: rtt_ok_def)
  moreover have "?w = w" if "pipe_list (rtt_rx w) = []"
  proof -
    have "pipe_len (rtt_rxChannel d ! 1) = 0" using d(1) arg_cong [OF that, of length] by (simp add: rtt_rx_def pipe_list_def)
    then have "rp_rd (rtt_rxChannel d ! 1) = rp_wr (rtt_rxChannel d ! 1)" using pipe_empty [OF d(2)] by blast
    then have "rtt_read_loop (rp_sz (rtt_rxChannel d ! 1)) (rp_ptr (rtt_rxChannel d ! 1)) (rp_wr (rtt_rxChannel d ! 1)) n
        (rp_rd (rtt_rxChannel d ! 1)) = ([], rp_rd (rtt_rxChannel d ! 1))" for n by (cases n) auto
    then have "r = rtt_rxChannel d ! 1" using g by (simp add: rtt_get_def)
    then show ?thesis using d(1) by (cases w; cases d) simp
  qed
  ultimately show ?thesis using law d(1,3) by (auto simp: rtt_rx_def)
qed

subsection \<open>The debugger\<close>

text \<open>
  The debugger works while the loader looks at the clock: reading the timer may move bytes from what is still \<open>coming\<close> to the
  end of the receive ring. \<open>arrives\<close>: looking at the clock again and again finds a byte in the ring before the deadline.
\<close>

inductive arrives :: "('h rtt_world \<Rightarrow> time_t \<times> 'h rtt_world) \<Rightarrow> time_t \<Rightarrow> 'h rtt_world \<Rightarrow> bool" for timer deadline where
  arrived: "pipe_list (rtt_rx w) \<noteq> [] \<Longrightarrow> arrives timer deadline w"
| waiting: "timer w = (t, w') \<Longrightarrow> t < deadline \<Longrightarrow> arrives timer deadline w' \<Longrightarrow> arrives timer deadline w"

text \<open>
  The contract of the debugger: it keeps the discipline of the rings, what it takes from the bytes to come it appends to the
  receive ring, and as long as there are bytes to come, the ring does not stay empty for the whole time-out of a read.
\<close>

locale rtt_debugger =
  fixes timer :: "'h rtt_world \<Rightarrow> time_t \<times> 'h rtt_world"
    and coming :: "'h \<Rightarrow> bytes"
    and timeout :: time_t
  assumes deliver: "rtt_ok w \<Longrightarrow> timer w = (t, w') \<Longrightarrow> rtt_ok w' \<and>
      (\<exists>bs. pipe_list (rtt_rx w') = pipe_list (rtt_rx w) @ bs \<and> coming (rtt_host w) = bs @ coming (rtt_host w'))"
    and in_time: "rtt_ok w \<Longrightarrow> coming (rtt_host w) \<noteq> [] \<Longrightarrow> timer w = (start, w1) \<Longrightarrow> arrives timer (start + timeout) w1"
begin

definition incoming :: "'h rtt_world \<Rightarrow> bytes" where
  "incoming w = pipe_list (rtt_rx w) @ coming (rtt_host w)"

lemma timer_incoming: "rtt_ok w \<Longrightarrow> timer w = (t, w') \<Longrightarrow> rtt_ok w' \<and> incoming w' = incoming w"
  using deliver [of w t w'] by (auto simp: incoming_def)

lemma read_loop_arrives:
  assumes "arrives timer (start + timeout) w" "rtt_ok w" "len \<noteq> 0"
  shows "\<exists>chunk w'. pipe_read_loop timer 1 start len timeout w = Some (Inr chunk, w') \<and> chunk \<noteq> [] \<and>
    incoming w = chunk @ incoming w' \<and> rtt_ok w'"
  using assms(1,2)
proof induction
  case (arrived w)
  obtain w' where w': "rtt_read 1 len w = Some (Inr (take (unat len) (pipe_list (rtt_rx w))), w')" "rtt_ok w'"
      "pipe_list (rtt_rx w') = drop (unat len) (pipe_list (rtt_rx w))" "rtt_host w' = rtt_host w"
    using rtt_read_law [OF arrived(2), of len] by blast
  have ne: "take (unat len) (pipe_list (rtt_rx w)) \<noteq> []" using arrived(1) assms(3) by (simp add: unat_0_iff)
  have "pipe_read_loop timer 1 start len timeout w = Some (Inr (take (unat len) (pipe_list (rtt_rx w))), w')"
    using w'(1) ne by (subst pipe_read_loop.simps) simp
  then show ?case using ne w'(2-) by (auto simp: incoming_def)
next
  case (waiting w t w')
  show ?case
  proof (cases "pipe_list (rtt_rx w) = []")
    case False
    obtain w1 where w1: "rtt_read 1 len w = Some (Inr (take (unat len) (pipe_list (rtt_rx w))), w1)" "rtt_ok w1"
        "pipe_list (rtt_rx w1) = drop (unat len) (pipe_list (rtt_rx w))" "rtt_host w1 = rtt_host w"
      using rtt_read_law [OF waiting.prems, of len] by blast
    have ne: "take (unat len) (pipe_list (rtt_rx w)) \<noteq> []" using False assms(3) by (simp add: unat_0_iff)
    have "pipe_read_loop timer 1 start len timeout w = Some (Inr (take (unat len) (pipe_list (rtt_rx w))), w1)"
      using w1(1) ne by (subst pipe_read_loop.simps) simp
    then show ?thesis using ne w1(2-) by (auto simp: incoming_def)
  next
    case True
    then have "rtt_read 1 len w = Some (Inr [], w)" using rtt_read_law [OF waiting.prems, of len] by auto
    then have "pipe_read_loop timer 1 start len timeout w = pipe_read_loop timer 1 start len timeout w'"
      using waiting.hyps(1,2) by (subst pipe_read_loop.simps) simp
    then show ?thesis using waiting.IH timer_incoming [OF waiting.prems waiting.hyps(1)] by simp
  qed
qed

lemma pipe_read_law:
  assumes "rtt_ok w" "incoming w \<noteq> []" "len \<noteq> 0"
  shows "\<exists>chunk w'. pipe_read timer 0 offs len timeout w = Some (Inr chunk, w') \<and> chunk \<noteq> [] \<and>
    incoming w = chunk @ incoming w' \<and> rtt_ok w'"
proof -
  obtain start w1 where w1: "timer w = (start, w1)" by force
  note l = timer_incoming [OF assms(1) w1]
  have "arrives timer (start + timeout) w1"
  proof (cases "pipe_list (rtt_rx w) = []")
    case True
    then show ?thesis using in_time [OF assms(1) _ w1] assms(2) by (simp add: incoming_def)
  next
    case False
    then show ?thesis using deliver [OF assms(1) w1] by (intro arrived) auto
  qed
  then show ?thesis using read_loop_arrives [of start w1 len] l assms(3) w1 by (simp add: pipe_read_def)
qed

lemma source: "len \<noteq> 0 \<Longrightarrow> byte_source rtt_ok incoming (pipe_read timer 0 0 len timeout)"
  by unfold_locales (rule pipe_read_law)

end

sublocale rtt_debugger \<subseteq> src: byte_source rtt_ok incoming "pipe_read timer 0 0 520 timeout"
  by (rule source) simp

context rtt_debugger
begin

lemmas msg_read_incoming = src.msg_read_source [unfolded incoming_def]

end

text \<open>
  An emulated debugger: one millisecond passes between two looks at the clock, and in every \<open>every\<close>-th millisecond up to \<open>chunk\<close>
  bytes are put into the ring, as far as they fit.
\<close>

record dbg =
  dbg_clock :: nat
  dbg_coming :: bytes

definition dbg_timer :: "nat \<Rightarrow> nat \<Rightarrow> dbg rtt_world \<Rightarrow> time_t \<times> dbg rtt_world" where
  "dbg_timer every chunk w =
     (let c = Suc (dbg_clock (rtt_host w)); w1 = w\<lparr>rtt_host := (rtt_host w)\<lparr>dbg_clock := c\<rparr>\<rparr>
      in (int c,
          (case rtt w of
             None \<Rightarrow> w1
           | Some d \<Rightarrow>
               if c mod every \<noteq> 0 then w1
               else (case rtt_put (rtt_rxChannel d ! 1) (take chunk (dbg_coming (rtt_host w))) of
                       (n, p) \<Rightarrow> w1\<lparr>rtt := Some (d\<lparr>rtt_rxChannel := (rtt_rxChannel d)[1 := p]\<rparr>),
                                   rtt_host := (rtt_host w1)\<lparr>dbg_coming := drop n (dbg_coming (rtt_host w))\<rparr>\<rparr>))))"

text \<open>What one look at the clock does.\<close>

lemma dbg_timer_law:
  assumes "rtt_ok w" "dbg_timer every chunk w = (t, w')" "chunk < 2 ^ 64"
  shows "rtt_ok w' \<and> t = int (dbg_clock (rtt_host w')) \<and> dbg_clock (rtt_host w') = Suc (dbg_clock (rtt_host w)) \<and>
    (\<exists>bs. pipe_list (rtt_rx w') = pipe_list (rtt_rx w) @ bs \<and> dbg_coming (rtt_host w) = bs @ dbg_coming (rtt_host w') \<and>
      (dbg_clock (rtt_host w') mod every = 0 \<longrightarrow> 0 < chunk \<longrightarrow> pipe_list (rtt_rx w) = [] \<longrightarrow> dbg_coming (rtt_host w) \<noteq> [] \<longrightarrow> bs \<noteq> []))"
proof -
  obtain d where d: "rtt w = Some d" "pipe_inv (rtt_rxChannel d ! 1)" "1 < length (rtt_rxChannel d)"
    "length (rtt_txChannel d) = RTT_TXCHANNELS" "length (rtt_rxChannel d) = RTT_RXCHANNELS"
    "list_all pipe_inv (rtt_txChannel d)" "list_all pipe_inv (rtt_rxChannel d)" "2 \<le> rp_sz (rtt_rxChannel d ! 1)"
    using rtt_okE [OF assms(1)] by metis
  let ?xs = "take chunk (dbg_coming (rtt_host w))"
  obtain n p where put: "rtt_put (rtt_rxChannel d ! 1) ?xs = (n, p)" by force
  have "length ?xs < 2 ^ 64" using assms(3) by simp
  note law = rttq.put_law [OF d(2) this put]
  have n: "n = min (length ?xs) (pipe_room (rtt_rxChannel d ! 1))" using law by simp
  then have tk: "take n ?xs = take n (dbg_coming (rtt_host w))" by (simp add: min_def)
  have sz: "rp_sz p = rp_sz (rtt_rxChannel d ! 1)" using put by (auto simp: rtt_put_def split: prod.splits)
  have ne: "take n (dbg_coming (rtt_host w)) \<noteq> []"
    if "0 < chunk" "pipe_list (rtt_rx w) = []" "dbg_coming (rtt_host w) \<noteq> []"
  proof -
    have "pipe_len (rtt_rxChannel d ! 1) = 0" using arg_cong [OF that(2), of length] d(1) by (simp add: rtt_rx_def pipe_list_def)
    then have "0 < pipe_room (rtt_rxChannel d ! 1)" using d(8) by (simp add: pipe_room_def word_le_nat_alt)
    then show ?thesis using that(1,3) n by simp
  qed
  have ok: "rtt_ok (w\<lparr>rtt := Some (d\<lparr>rtt_rxChannel := (rtt_rxChannel d)[1 := p]\<rparr>), rtt_host := h\<rparr>)" for h
    using law d sz list_all_update [OF d(7), of p 1] by (auto simp: rtt_ok_def)
  show ?thesis
  proof (cases "Suc (dbg_clock (rtt_host w)) mod every = 0")
    case True
    let ?h = "(rtt_host w)\<lparr>dbg_clock := Suc (dbg_clock (rtt_host w)), dbg_coming := drop n (dbg_coming (rtt_host w))\<rparr>"
    have w': "w' = w\<lparr>rtt := Some (d\<lparr>rtt_rxChannel := (rtt_rxChannel d)[1 := p]\<rparr>), rtt_host := ?h\<rparr>" "t = int (Suc (dbg_clock (rtt_host w)))"
      using assms(2) d(1) put True by (simp_all add: dbg_timer_def Let_def)
    have "pipe_list (rtt_rx w') = pipe_list (rtt_rx w) @ take n (dbg_coming (rtt_host w))"
      using law d(1,3) tk w'(1) by (simp add: rtt_rx_def)
    moreover have "rtt_ok w'" unfolding w'(1) by (rule ok)
    moreover have "dbg_clock (rtt_host w') = Suc (dbg_clock (rtt_host w))" "t = int (dbg_clock (rtt_host w'))"
        "dbg_coming (rtt_host w) = take n (dbg_coming (rtt_host w)) @ dbg_coming (rtt_host w')"
      using w' by simp_all
    ultimately show ?thesis using ne by blast
  next
    case False
    then have "w' = w\<lparr>rtt_host := (rtt_host w)\<lparr>dbg_clock := Suc (dbg_clock (rtt_host w))\<rparr>\<rparr>" "t = int (Suc (dbg_clock (rtt_host w)))"
      using assms(2) d(1) by (simp_all add: dbg_timer_def Let_def)
    then show ?thesis using assms(1) False by (simp add: rtt_ok_def rtt_rx_def)
  qed
qed

lemma dbg_arrives:
  assumes "0 < every" "0 < chunk" "chunk < 2 ^ 64"
  shows "rtt_ok w \<Longrightarrow> dbg_coming (rtt_host w) \<noteq> [] \<Longrightarrow> int (dbg_clock (rtt_host w) + n) < deadline \<Longrightarrow>
    0 < n \<Longrightarrow> (dbg_clock (rtt_host w) + n) mod every = 0 \<Longrightarrow> arrives (dbg_timer every chunk) deadline w"
proof (induction n arbitrary: w)
  case (Suc n)
  show ?case
  proof (cases "pipe_list (rtt_rx w) = []")
    case True
    obtain t w' where t: "dbg_timer every chunk w = (t, w')" by force
    note l = dbg_timer_law [OF Suc.prems(1) t assms(3)]
    have "arrives (dbg_timer every chunk) deadline w'"
    proof (cases "pipe_list (rtt_rx w') = []")
      case e: True
      then have "dbg_coming (rtt_host w') \<noteq> []" using l Suc.prems(2) by auto
      moreover have "n \<noteq> 0" using l e True Suc.prems(2,5) assms(2) by (metis One_nat_def add.commute append_is_Nil_conv plus_1_eq_Suc)
      ultimately have "dbg_coming (rtt_host w') \<noteq> []" "0 < n" by simp_all
      then show ?thesis using l Suc.prems(3,5) by (intro Suc.IH) simp_all
    qed (rule arrived)
    moreover have "t < deadline" using l Suc.prems(3) by simp
    ultimately show ?thesis using arrives.waiting [of "dbg_timer every chunk" w t w' deadline] t by blast
  qed (rule arrived)
qed simp

interpretation dbg: rtt_debugger "dbg_timer 7 3" dbg_coming 500
proof
  fix w t w'
  assume "rtt_ok w" "dbg_timer 7 3 w = (t, w')"
  from dbg_timer_law [OF this] show "rtt_ok w' \<and>
      (\<exists>bs. pipe_list (rtt_rx w') = pipe_list (rtt_rx w) @ bs \<and> dbg_coming (rtt_host w) = bs @ dbg_coming (rtt_host w'))" by auto
next
  fix w start w1
  assume w: "rtt_ok w" "dbg_coming (rtt_host w) \<noteq> []" and t: "dbg_timer 7 3 w = (start, w1)"
  note l = dbg_timer_law [OF w(1) t]
  show "arrives (dbg_timer 7 3) (start + 500) w1"
  proof (cases "pipe_list (rtt_rx w1) = []")
    case True
    let ?c = "dbg_clock (rtt_host w1)" and ?n = "7 - dbg_clock (rtt_host w1) mod 7"
    have "?c + ?n = (?c div 7 + 1) * 7" by presburger
    moreover have "?n \<le> 7" "0 < ?n" by simp_all
    moreover have "dbg_coming (rtt_host w1) \<noteq> []" using l True w(2) by auto
    ultimately show ?thesis using l by (intro dbg_arrives [where n = ?n]) (simp_all only: mod_mult_self2_is_0, simp_all)
  qed (rule arrived)
qed

section \<open>A pipe with concrete rings\<close>

text \<open>
  A descriptor with rings of \<open>n\<close> bytes, the received bytes \<open>inp\<close> pending on channel 1 and more bytes to come, and a message
  without data.
\<close>

definition rtt_example :: "nat \<Rightarrow> bytes \<Rightarrow> bytes \<Rightarrow> dbg rtt_world" where
  "rtt_example n inp later =
     (let ch = (\<lambda>bs. \<lparr>rp_name = [], rp_ptr = bs @ replicate (n - length bs) 0, rp_sz = of_nat n, rp_wr = of_nat (length bs),
                  rp_rd = 0, rp_flags = 0\<rparr>)
      in \<lparr>rtt = Some \<lparr>rtt_tag = [], rtt_txChannels = 2, rtt_rxChannels = 2, rtt_txChannel = [ch [], ch []],
            rtt_rxChannel = [ch [], ch inp]\<rparr>, rtt_hooks = True, rtt_host = \<lparr>dbg_clock = 0, dbg_coming = later\<rparr>\<rparr>)"

definition msg_example :: msg_t where
  "msg_example = \<lparr>msg_csum = 0x7e, msg_type = 0x7e, msg_data = replicate MSG_MAXLEN 0\<rparr>"

lemma msg_example_frame: "msg_frame msg_example = [0x7e, 0x7d, 0x5e, 0, 0, 0, 0x7d, 0x5e, 0, 0, 0]"
  by code_simp

lemma msg_example_ok: "msg_ok msg_example" "unat (msg_getlen msg_example) = 0"
  by code_simp+

lemma rtt_example_ok:
  assumes "length inp < n" "n < 2147483648" "2 \<le> n"
  shows "rtt_ok (rtt_example n inp later)"
proof -
  have "unat (of_nat n :: u32) = n" "unat (of_nat (length inp) :: u32) = length inp"
    using assms by (simp_all add: unat_of_nat_small)
  then show ?thesis
    using assms
    by (simp add: rtt_example_def rtt_ok_def Let_def RTT_TXCHANNELS_def RTT_RXCHANNELS_def pipe_inv_def
        word_less_nat_alt word_le_nat_alt word_unat_eq_iff)
qed

lemma rtt_example_rings:
  assumes "length inp < n" "n < 2147483648"
  shows "pipe_list (rtt_rx (rtt_example n inp later)) = inp" "pipe_room (rtt_tx (rtt_example n inp later)) = n - 1"
    "pipe_list (rtt_tx (rtt_example n inp later)) = []" "dbg_coming (rtt_host (rtt_example n inp later)) = later"
proof -
  have u: "unat (of_nat n :: u32) = n" "unat (of_nat (length inp) :: u32) = length inp"
    using assms by (simp_all add: unat_of_nat_small)
  have "ring (inp @ replicate (n - length inp) 0) 0 (length inp) = inp"
    using assms by (intro nth_equalityI) (auto simp: nth_append)
  then show "pipe_list (rtt_rx (rtt_example n inp later)) = inp"
    using u assms by (simp add: rtt_rx_def rtt_example_def Let_def pipe_list_def pipe_len_def)
  show "pipe_room (rtt_tx (rtt_example n inp later)) = n - 1" "pipe_list (rtt_tx (rtt_example n inp later)) = []"
    using u by (simp_all add: rtt_tx_def rtt_example_def Let_def pipe_room_def pipe_list_def pipe_len_def)
qed (simp add: rtt_example_def Let_def)

section \<open>Properties\<close>

text \<open>
  C38: A channel of the debugger pipe is a first-in first-out queue that keeps one slot of its ring free: over
  any sequence of writes and reads the bytes accepted, after those already in the ring, are the bytes delivered
  followed by those still in the ring.
\<close>

theorem rtt_channel_fifo:
  assumes "pipe_inv p" "list_all (qop_within (2 ^ 64)) ops"
    "queue_run rtt_put rtt_get p ops = (ins, outs, p')"
  shows "pipe_inv p' \<and> pipe_list p @ ins = outs @ pipe_list p'"
  by (rule rttq.run_fifo [OF assms])

theorem rtt_channel_fifo_witness:
  "\<exists>outs p'. queue_run rtt_put rtt_get (rtt_channel ([0, 0, 0, 0], ''up''))
      [Put [1, 2, 3, 4], Get 2, Put [5, 6, 7], Get 1] = ([1, 2, 3, 5, 6], outs, p') \<and>
    pipe_inv p' \<and> [] @ [1, 2, 3, 5, 6] = outs @ pipe_list p'"
proof -
  let ?p = "rtt_channel ([0, 0, 0, 0], ''up'')"
  let ?ops = "[Put [1, 2, 3, 4], Get 2, Put [5, 6, 7], Get 1] :: u8 qop list"
  have run: "fst (queue_run rtt_put rtt_get ?p ?ops) = [1, 2, 3, 5, 6]" by code_simp
  moreover have "pipe_inv ?p" "pipe_list ?p = []" "list_all (qop_within (2 ^ 64)) ?ops"
    by (simp_all add: pipe_inv_def pipe_list_def pipe_len_def rtt_channel_def)
  moreover obtain ins outs p' where "queue_run rtt_put rtt_get ?p ?ops = (ins, outs, p')"
    by (metis prod_cases3)
  ultimately show ?thesis using rtt_channel_fifo [of ?p ?ops ins outs p'] by auto
qed

text \<open>
  A message that fits its object, written to the debugger pipe, arrives at its far end as exactly one frame, after the bytes already
  in transit, provided that the ring has room for the escaped frame.
\<close>

theorem msg_write_rtt:
  assumes "rtt_ok w" "length (msg_frame m) \<le> pipe_room (rtt_tx w)" "msg_fits m"
  shows "\<exists>w' bs. msg_write (pipe_write 0 0) m w = Some (Inr (MSG_HDRSZ + unat (msg_getlen m)), w') \<and> rtt_ok w' \<and> is_frame m bs \<and>
    pipe_list (rtt_tx w') = pipe_list (rtt_tx w) @ bs"
  using rtt_sink.msg_write_sink [OF assms] by (auto simp: is_frame_iff)

theorem msg_write_rtt_witness:
  "\<exists>w'. msg_write (pipe_write 0 0) msg_example (rtt_example 16 [] []) = Some (Inr 8, w') \<and>
    pipe_list (rtt_tx w') = [0x7e, 0x7d, 0x5e, 0, 0, 0, 0x7d, 0x5e, 0, 0, 0]"
  using msg_write_rtt [OF rtt_example_ok [of "[]" 16], of msg_example] msg_ok_fits [OF msg_example_ok(1)]
  by (auto simp: msg_example_frame msg_example_ok(2) MSG_HDRSZ_def rtt_example_rings is_frame_iff)

text \<open>
  C3: A frame sent over the debugger pipe is received as the message that was framed: the bytes pending in the receive ring and those
  the debugger still delivers, while the receiver waits, in chunks of any size, are some bytes other than the frame mark, the frame of
  a message with a correct checksum, and anything. The debugger has to keep the discipline of the rings and not to leave the ring
  empty for the 500 ms of the time-out. In particular the receiver returns. The frame is described by the decoding of its bytes.
\<close>

theorem msg_read_rtt:
  assumes "rtt_debugger timer coming 500" "rtt_ok w"
    "pipe_list (rtt_rx w) @ coming (rtt_host w) = noise @ frame @ rest" "is_frame m frame" "msg_ok m" "0x7e \<notin> set noise"
    "length hdr0 = MSG_HDRSZ" "length (msg_data m0) = MSG_MAXLEN"
  shows "\<exists>m' w'. msg_read (pipe_read timer 0 0 520 500) hdr0 m0 MSGREAD_DESYN w =
      Some (Inr (MSG_HDRSZ + unat (msg_getlen m)), (m', MSGREAD_DESYN), w') \<and> msg_same m m'"
  using rtt_debugger.msg_read_incoming [OF assms(1,2), of noise m rest hdr0 m0] assms(3-) by (auto simp: is_frame_iff MSG_MARK_def)

text \<open>Here the ring holds seven bytes, and all but one byte of the noise and the frame come later, three at a time.\<close>

theorem msg_read_rtt_witness:
  "\<exists>m' w'. msg_read (pipe_read (dbg_timer 7 3) 0 0 520 500) (replicate MSG_HDRSZ 0)
      \<lparr>msg_csum = 0, msg_type = 0, msg_data = replicate MSG_MAXLEN 0\<rparr> MSGREAD_DESYN
      (rtt_example 8 [1] [2, 0x7e, 0x7d, 0x5e, 0, 0, 0, 0x7d, 0x5e, 0, 0, 0, 3]) =
    Some (Inr 8, (m', MSGREAD_DESYN), w') \<and> msg_same msg_example m'"
proof -
  have "is_frame msg_example [0x7e, 0x7d, 0x5e, 0, 0, 0, 0x7d, 0x5e, 0, 0, 0]" by (simp add: is_frame_iff msg_example_frame)
  then show ?thesis
    using msg_read_rtt [OF dbg.rtt_debugger_axioms rtt_example_ok [of "[1]" 8 "[2, 0x7e, 0x7d, 0x5e, 0, 0, 0, 0x7d, 0x5e, 0, 0, 0, 3]"],
        of "[1, 2]" "[0x7e, 0x7d, 0x5e, 0, 0, 0, 0x7d, 0x5e, 0, 0, 0]" "[3]" msg_example "replicate MSG_HDRSZ 0"
        "\<lparr>msg_csum = 0, msg_type = 0, msg_data = replicate MSG_MAXLEN 0\<rparr>"]
    by (simp add: msg_example_ok MSG_HDRSZ_def rtt_example_rings)
qed

end
