(* ===== verification/Ptable.thy ===== *)
theory Ptable
  imports Crc32 Hal_String
begin

text \<open>
  \<open>lib/ptable.c\<close> and \<open>lib/ptable.h\<close>: the partition table of a storage device. The table is the byte
  image of the device block that holds it, as in the C code, which casts the block to \<open>ptable_t\<close>: a header of 28
  bytes, the partitions of 32 bytes each and four magic bytes. The loader runs on little-endian
  machines, where \<open>le32toh\<close> and \<open>htole32\<close> are the identity. An operation returns whether the C function
  returns 0. The size of a table with more than \<open>2\<^sup>2\<^sup>7 - 2\<close> partitions wraps around 32
  bits (\<open>ptable_size\<close>) and the C code then reads outside the block, where the image is unspecified.
\<close>

definition PTABLE_VERSION :: u8 where "PTABLE_VERSION = 2"

definition ptable_magic :: bytes where "ptable_magic = [0xde, 0xad, 0xfc, 0xbe]"

definition PTABLE_HDRSZ :: nat where "PTABLE_HDRSZ = 28"
definition PTABLE_PARTSZ :: nat where "PTABLE_PARTSZ = 32"

record ptable_part_t =
  part_name :: bytes
  part_offset :: u32
  part_size :: u32
  part_type :: u8
  part_reserved :: bytes
  part_crc :: u32

text \<open>The fields of the header, and the partition at index \<open>i\<close>.\<close>

definition ptable_count :: "bytes \<Rightarrow> u32" where
  "ptable_count img = le32_of (memcpy_from img 0 4)"

definition ptable_version :: "bytes \<Rightarrow> u8" where
  "ptable_version img = img ! 4"

definition ptable_hdrcrc :: "bytes \<Rightarrow> u32" where
  "ptable_hdrcrc img = le32_of (memcpy_from img 24 4)"

definition part_at :: "nat \<Rightarrow> nat" where
  "part_at i = PTABLE_HDRSZ + PTABLE_PARTSZ * i"

definition ptable_part :: "bytes \<Rightarrow> nat \<Rightarrow> ptable_part_t" where
  "ptable_part img i =
     \<lparr>part_name = memcpy_from img (part_at i) 8,
      part_offset = le32_of (memcpy_from img (part_at i + 8) 4),
      part_size = le32_of (memcpy_from img (part_at i + 12) 4),
      part_type = img ! (part_at i + 16),
      part_reserved = memcpy_from img (part_at i + 17) 11,
      part_crc = le32_of (memcpy_from img (part_at i + 28) 4)\<rparr>"

definition ptable_size :: "u32 \<Rightarrow> u32" where
  "ptable_size count = of_nat PTABLE_HDRSZ + count * of_nat PTABLE_PARTSZ + of_nat (length ptable_magic)"

definition ptable_typeName :: "nat \<Rightarrow> string option" where
  "ptable_typeName t =
     (if t = 0x51 then Some ''raw'' else if t = 0x72 then Some ''jffs2''
      else if t = 0x75 then Some ''meterfs'' else if t = 0x78 then Some ''futurefs'' else None)"

definition ptable_crc32 :: "bytes \<Rightarrow> u32" where
  "ptable_crc32 dat = NOT (lib_crc32 dat (of_nat (length dat)) 0xffffffff)"

section \<open>Verification\<close>

definition name_str :: "bytes \<Rightarrow> string" where
  "name_str bs = map (\<lambda>b. char_of (unat b)) bs"

text \<open>The loop over the name stops at the first character that is not alphanumeric.\<close>

definition name_ok :: "bytes \<Rightarrow> bool" where
  "name_ok name =
     (let i = length (takeWhile (\<lambda>b. lib_isalnum (uint b)) name)
      in i \<noteq> 0 \<and> i < length name \<and> name ! i = 0)"

definition ptable_partVerify :: "bytes \<Rightarrow> nat \<Rightarrow> u32 \<Rightarrow> u32 \<Rightarrow> bool \<Rightarrow> bool" where
  "ptable_partVerify img i memsz blksz crcCheck =
     (let part = ptable_part img i; size = part_size part; offset = part_offset part in
      if crcCheck \<and> part_crc part \<noteq> ptable_crc32 (memcpy_from img (part_at i) 28) then False
      else if size = 0 then False
      else if size mod blksz \<noteq> 0 then False
      else if offset mod blksz \<noteq> 0 then False
      else if offset + size > memsz then False
      else if offset + size < offset then False
      else if \<not> name_ok (part_name part) then False
      else list_all (\<lambda>j.
        let p = ptable_part img j in
        \<not> (offset \<le> part_offset p + part_size p - 1 \<and> offset + size - 1 \<ge> part_offset p) \<and>
        hal_strcmp (name_str (part_name part)) (name_str (part_name p)) \<noteq> 0) [0..<i])"

definition ptable_verify :: "bytes \<Rightarrow> u32 \<Rightarrow> u32 \<Rightarrow> bool" where
  "ptable_verify img memsz blksz =
     (let count = ptable_count img;
          crcCheck = \<not> (ptable_version img = 0 \<or> ptable_version img = 1 \<or> ptable_version img = 0xff);
          size = ptable_size count in
      if crcCheck \<and> ptable_hdrcrc img \<noteq> ptable_crc32 (memcpy_from img 0 24) then False
      else if size > blksz then False
      else if hal_memcmp (drop (unat size - length ptable_magic) img) ptable_magic (length ptable_magic) \<noteq> 0 then False
      else list_all (\<lambda>i. ptable_partVerify img i memsz blksz crcCheck) [0..<unat count])"

text \<open>The conversions to the byte order of the host leave a little-endian image as it is.\<close>

definition ptable_deserialize :: "bytes \<Rightarrow> u32 \<Rightarrow> u32 \<Rightarrow> bool \<times> bytes" where
  "ptable_deserialize img memsz blksz = (ptable_verify img memsz blksz, img)"

definition part_set_crc :: "nat \<Rightarrow> bytes \<Rightarrow> bytes" where
  "part_set_crc i img =
     memcpy_to img (part_at i + 28) (le32_bytes (ptable_crc32 (memcpy_from img (part_at i) 28)))"

definition ptable_set_header :: "bytes \<Rightarrow> bytes" where
  "ptable_set_header img =
     (let img1 = img[4 := PTABLE_VERSION]
      in memcpy_to img1 24 (le32_bytes (ptable_crc32 (memcpy_from img1 0 24))))"

definition ptable_serialize :: "bytes \<Rightarrow> u32 \<Rightarrow> u32 \<Rightarrow> bool \<times> bytes" where
  "ptable_serialize img memsz blksz =
     (let img2 = ptable_set_header img;
          img3 = fold part_set_crc [0..<unat (ptable_count img2)] img2;
          img4 = memcpy_to img3 (unat (ptable_size (ptable_count img3)) - length ptable_magic) ptable_magic
      in (ptable_verify img4 memsz blksz, img4))"

section \<open>Checked partitions do not overlap\<close>

lemma ranges_apart:
  fixes a b :: u32
  assumes "unat a + unat s < 2 ^ 32" "unat b + unat t < 2 ^ 32" "s \<noteq> 0" "t \<noteq> 0"
    and "\<not> (a \<le> b + t - 1 \<and> a + s - 1 \<ge> b)"
  shows "unat a + unat s \<le> unat b \<or> unat b + unat t \<le> unat a"
proof -
  have *: "unat (x + y - 1) = unat x + unat y - 1" if "unat x + unat y < 2 ^ 32" "y \<noteq> 0" for x y :: u32
  proof -
    have s: "unat (x + y) = unat x + unat y" using that(1) by (intro unat_plus_small) simp
    have "0 < unat y" using that(2) by (simp add: unat_gt_0)
    then show ?thesis using s by (subst unat_minus_small) (auto simp: word_le_nat_alt)
  qed
  have "0 < unat s" "0 < unat t" using assms(3,4) by (simp_all add: unat_gt_0)
  then show ?thesis using assms(5) * [OF assms(1,3)] * [OF assms(2,4)] by (auto simp: word_le_nat_alt)
qed

lemma sum_in_bounds:
  fixes a s m :: u32
  assumes "\<not> a + s > m" "\<not> a + s < a"
  shows "unat a + unat s \<le> unat m"
proof -
  have "unat a + unat s < 2 ^ 32"
    using assms(2) no_olen_add_nat [of a s] by (simp add: word_less_nat_alt not_less word_le_nat_alt)
  then show ?thesis using assms(1) by (simp add: unat_plus_small word_less_nat_alt not_less)
qed

lemma word_mod_0: "(x::u32) mod b = 0 \<longleftrightarrow> unat b dvd unat x"
  by (simp only: word_unat_eq_iff unat_mod_word dvd_eq_mod_eq_0 unsigned_0)

lemma partVerify_geometry:
  assumes "ptable_partVerify img i memsz blksz crc"
  defines "p \<equiv> ptable_part img i"
  shows "part_size p \<noteq> 0" "unat (part_offset p) + unat (part_size p) \<le> unat memsz"
    "unat blksz dvd unat (part_size p)" "unat blksz dvd unat (part_offset p)" "name_ok (part_name p)"
    "\<And>j. j < i \<Longrightarrow> \<not> (part_offset p \<le> part_offset (ptable_part img j) + part_size (ptable_part img j) - 1 \<and>
        part_offset p + part_size p - 1 \<ge> part_offset (ptable_part img j)) \<and>
        hal_strcmp (name_str (part_name p)) (name_str (part_name (ptable_part img j))) \<noteq> 0"
  using assms sum_in_bounds [of memsz "part_offset p" "part_size p"]
  by (auto simp: ptable_partVerify_def Let_def list_all_iff word_mod_0 split: if_splits)

lemma verify_parts:
  "ptable_verify img memsz blksz \<Longrightarrow> i < unat (ptable_count img) \<Longrightarrow> \<exists>crc. ptable_partVerify img i memsz blksz crc"
  by (auto simp: ptable_verify_def Let_def list_all_iff split: if_splits)

section \<open>Serialisation\<close>

lemma part_at_mono: "i < j \<Longrightarrow> part_at i + 32 \<le> part_at j"
  by (simp add: part_at_def PTABLE_PARTSZ_def)

text \<open>The image holds a table with \<open>n\<close> partitions.\<close>

definition holds_parts :: "bytes \<Rightarrow> nat \<Rightarrow> bool" where
  "holds_parts img n \<longleftrightarrow> part_at n + 4 \<le> length img"

lemma part_in: "holds_parts img n \<Longrightarrow> i < n \<Longrightarrow> part_at i + 32 \<le> part_at n \<and> part_at n + 4 \<le> length img"
  using part_at_mono [of i n] by (simp add: holds_parts_def)

lemma length_part_set_crc [simp]:
  "holds_parts img n \<Longrightarrow> i < n \<Longrightarrow> length (part_set_crc i img) = length img"
  using part_in [of img n i] by (simp add: part_set_crc_def)

lemma part_set_crc_from:
  assumes "holds_parts img n" "i < n" "b + k \<le> part_at i + 28 \<or> part_at i + 32 \<le> b" "b + k \<le> length img"
  shows "memcpy_from (part_set_crc i img) b k = memcpy_from img b k"
  using part_in [OF assms(1,2)] assms(3,4)
  unfolding part_set_crc_def by (intro memcpy_from_to_disjoint) auto

text \<open>After the loop over the partitions, every partition carries its checksum and nothing else has changed.\<close>

lemma fold_crc:
  assumes "m \<le> n" "holds_parts img n"
  shows "length (fold part_set_crc [0..<m] img) = length img \<and>
    (\<forall>b k. b + k \<le> length img \<longrightarrow> (\<forall>i<m. b + k \<le> part_at i + 28 \<or> part_at i + 32 \<le> b) \<longrightarrow>
      memcpy_from (fold part_set_crc [0..<m] img) b k = memcpy_from img b k) \<and>
    (\<forall>i<m. memcpy_from (fold part_set_crc [0..<m] img) (part_at i + 28) 4 =
      le32_bytes (ptable_crc32 (memcpy_from img (part_at i) 28)))"
  using assms(1)
proof (induction m)
  case (Suc m)
  let ?f = "fold part_set_crc [0..<m] img"
  have m: "m < n" using Suc.prems by simp
  have len: "length ?f = length img" using Suc by simp
  have hp: "holds_parts ?f n" using assms(2) len by (simp add: holds_parts_def)
  have body: "memcpy_from ?f (part_at m) 28 = memcpy_from img (part_at m) 28"
    using Suc.IH Suc.prems part_in [OF assms(2) m] part_at_mono [of _ m] by simp
  have own: "memcpy_from (part_set_crc m ?f) (part_at m + 28) 4 = le32_bytes (ptable_crc32 (memcpy_from img (part_at m) 28))"
    using part_in [OF hp m] memcpy_from_to_same [of "part_at m + 28" "le32_bytes (ptable_crc32 (memcpy_from ?f (part_at m) 28))" ?f]
    by (simp add: part_set_crc_def body)
  have other: "memcpy_from (part_set_crc m ?f) (part_at i + 28) 4 = memcpy_from ?f (part_at i + 28) 4" if "i < m" for i
    using part_at_mono [OF that] part_in [OF hp m] len by (intro part_set_crc_from [OF hp m]) auto
  show ?case
    using Suc own other len length_part_set_crc [OF hp m] part_set_crc_from [OF hp m]
    by (auto simp: less_Suc_eq)
qed simp

lemma part_cong:
  assumes "memcpy_from img' (part_at i) 28 = memcpy_from img (part_at i) 28"
    "part_at i + 28 \<le> length img" "part_at i + 28 \<le> length img'"
  shows "ptable_part img' i = (ptable_part img i)\<lparr>part_crc := part_crc (ptable_part img' i)\<rparr>"
proof -
  have sl: "memcpy_from img' (part_at i + a) k = memcpy_from img (part_at i + a) k" if "a + k \<le> 28" for a k
    using assms(1) memcpy_from_memcpy_from [OF that, of img "part_at i"]
      memcpy_from_memcpy_from [OF that, of img' "part_at i"] by simp
  have "img' ! (part_at i + 16) = img ! (part_at i + 16)"
    using nth_memcpy_from [OF assms(2), of 16] nth_memcpy_from [OF assms(3), of 16] assms(1) by simp
  then show ?thesis using sl [of 0 8] sl [of 8 4] sl [of 12 4] sl [of 17 11] by (simp add: ptable_part_def)
qed

text \<open>The image after serialisation: the checksums are right and the rest of the table is as it was.\<close>

definition serialized :: "bytes \<Rightarrow> bytes \<Rightarrow> bool" where
  "serialized img img' \<longleftrightarrow>
     (let n = unat (ptable_count img) in
      length img' = length img \<and> ptable_count img' = ptable_count img \<and> ptable_version img' = PTABLE_VERSION \<and>
      ptable_hdrcrc img' = ptable_crc32 (memcpy_from img' 0 24) \<and>
      (\<forall>i<n. memcpy_from img' (part_at i) 28 = memcpy_from img (part_at i) 28 \<and>
         part_crc (ptable_part img' i) = ptable_crc32 (memcpy_from img (part_at i) 28)) \<and>
      memcpy_from img' (part_at n) 4 = ptable_magic)"

lemma length_magic [simp]: "length ptable_magic = 4"
  by (simp add: ptable_magic_def)

lemma unat_ptable_size:
  assumes "part_at (unat count) + 4 < 2 ^ 32"
  shows "unat (ptable_size count) = part_at (unat count) + 4"
proof -
  have "ptable_size count = of_nat (part_at (unat count) + 4)"
    by (simp add: ptable_size_def part_at_def PTABLE_HDRSZ_def PTABLE_PARTSZ_def algebra_simps)
  then show ?thesis using unat_of_nat_small [where 'a = 32, of "part_at (unat count) + 4"] assms by simp
qed

lemma set_header:
  assumes "28 \<le> length img"
  defines "img2 \<equiv> ptable_set_header img"
  shows "length img2 = length img"
    "b + k \<le> 4 \<or> 28 \<le> b \<Longrightarrow> b + k \<le> length img \<Longrightarrow> memcpy_from img2 b k = memcpy_from img b k"
    "memcpy_from img2 4 1 = [PTABLE_VERSION]"
    "memcpy_from img2 24 4 = le32_bytes (ptable_crc32 (memcpy_from img2 0 24))"
proof -
  define img1 where "img1 = memcpy_to img 4 [PTABLE_VERSION]"
  have l1: "length img1 = length img" using assms by (simp add: img1_def)
  have i2: "img2 = memcpy_to img1 24 (le32_bytes (ptable_crc32 (memcpy_from img1 0 24)))"
    using assms by (simp add: img2_def ptable_set_header_def Let_def img1_def memcpy_to_single)
  have f2: "memcpy_from img2 b k = memcpy_from img1 b k" if "b + k \<le> 24 \<or> 28 \<le> b" "b + k \<le> length img" for b k
    unfolding i2 using that assms(1) l1 by (intro memcpy_from_to_disjoint) auto
  show "length img2 = length img" using assms(1) l1 by (simp add: i2)
  show "memcpy_from img2 b k = memcpy_from img b k" if "b + k \<le> 4 \<or> 28 \<le> b" "b + k \<le> length img"
  proof -
    have "memcpy_from img1 b k = memcpy_from img b k"
      unfolding img1_def using that assms(1) by (intro memcpy_from_to_disjoint) auto
    then show ?thesis using f2 that by auto
  qed
  show "memcpy_from img2 4 1 = [PTABLE_VERSION]"
    using f2 [of 4 1] assms(1) memcpy_from_to_same [of 4 "[PTABLE_VERSION]" img] by (simp add: img1_def)
  show "memcpy_from img2 24 4 = le32_bytes (ptable_crc32 (memcpy_from img2 0 24))"
    using f2 [of 0 24] assms(1) l1
      memcpy_from_to_same [of 24 "le32_bytes (ptable_crc32 (memcpy_from img1 0 24))" img1] by (simp add: i2)
qed

lemma part_slices_apart:
  "part_at i + 28 \<le> part_at j + 28 \<or> part_at j + 32 \<le> part_at i"
  using part_at_mono [of j i] by (cases "j < i") (auto simp: part_at_def)

lemma ptable_serialize_image:
  assumes hp: "holds_parts img (unat (ptable_count img))" and small: "part_at (unat (ptable_count img)) + 4 < 2 ^ 32"
    and ser: "ptable_serialize img memsz blksz = (ok, img')"
  shows "serialized img img'"
proof -
  define n where "n = unat (ptable_count img)"
  define img2 where "img2 = ptable_set_header img"
  define img3 where "img3 = fold part_set_crc [0..<n] img2"
  have pi: "28 \<le> part_at i" for i by (simp add: part_at_def PTABLE_HDRSZ_def)
  have pn: "part_at n + 4 \<le> length img" using hp by (simp add: n_def holds_parts_def)
  then have len: "28 \<le> length img" using pi [of n] by simp
  note h = set_header [OF len, folded img2_def]
  have hp2: "holds_parts img2 n" using pn h(1) by (simp add: holds_parts_def)
  note f3 = fold_crc [OF order_refl hp2, folded img3_def]
  have g3: "memcpy_from img3 b k = memcpy_from img2 b k" if "b + k \<le> 28" for b k
  proof -
    have "b + k \<le> part_at i + 28" for i using that by simp
    then show ?thesis using f3 that h(1) len by simp
  qed
  have c2: "ptable_count img2 = ptable_count img" "ptable_count img3 = ptable_count img"
    using h(2) [of 0 4] g3 [of 0 4] len by (simp_all add: ptable_count_def)
  have img': "img' = memcpy_to img3 (part_at n) ptable_magic"
    using ser small unat_ptable_size [OF small]
    by (simp add: ptable_serialize_def Let_def img2_def [symmetric] c2 n_def [symmetric] img3_def [symmetric])
  have l3: "length img3 = length img" "length img' = length img" using f3 h(1) pn by (simp_all add: img')
  have f4: "memcpy_from img' b k = memcpy_from img3 b k" if "b + k \<le> part_at n" for b k
    unfolding img' using that pn l3 by (intro memcpy_from_to_disjoint) auto
  have hd: "memcpy_from img' b k = memcpy_from img2 b k" if "b + k \<le> 28" for b k
    using f4 [of b k] g3 [of b k] that pi [of n] by simp
  have parts: "memcpy_from img' (part_at i) 28 = memcpy_from img (part_at i) 28 \<and>
      part_crc (ptable_part img' i) = ptable_crc32 (memcpy_from img (part_at i) 28)" if "i < n" for i
  proof -
    have b: "part_at i + 32 \<le> part_at n" using part_in [OF hp2 that] by simp
    have "memcpy_from img2 (part_at i) 28 = memcpy_from img (part_at i) 28"
      using h(2) [of "part_at i" 28] pi [of i] b pn by simp
    moreover have "memcpy_from img3 (part_at i) 28 = memcpy_from img2 (part_at i) 28"
      using f3 part_slices_apart h(1) b pn by simp
    moreover have "memcpy_from img3 (part_at i + 28) 4 = le32_bytes (ptable_crc32 (memcpy_from img2 (part_at i) 28))"
      using f3 that by simp
    ultimately show ?thesis
      using f4 [of "part_at i" 28] f4 [of "part_at i + 28" 4] b by (simp add: ptable_part_def)
  qed
  have "ptable_version img' = memcpy_from img' 4 1 ! 0" using len l3 by (simp add: ptable_version_def)
  then have "ptable_version img' = PTABLE_VERSION" using hd [of 4 1] h(3) by simp
  moreover have "ptable_hdrcrc img' = ptable_crc32 (memcpy_from img' 0 24)"
    using hd [of 24 4] hd [of 0 24] h(4) by (simp add: ptable_hdrcrc_def)
  moreover have "ptable_count img' = ptable_count img" using hd [of 0 4] c2(1) by (simp add: ptable_count_def)
  moreover have "memcpy_from img' (part_at n) 4 = ptable_magic"
    using memcpy_from_to_same [of "part_at n" ptable_magic img3] pn l3(1) by (simp add: img')
  ultimately show ?thesis using parts l3(2) by (simp add: serialized_def Let_def n_def)
qed

text \<open>The geometry and name checks of a partition do not look at the checksums.\<close>

lemma partVerify_serialized:
  assumes "serialized img img'" "holds_parts img (unat (ptable_count img))" "i < unat (ptable_count img)"
  shows "ptable_partVerify img' i memsz blksz True = ptable_partVerify img i memsz blksz False"
proof -
  define n where "n = unat (ptable_count img)"
  have hp: "holds_parts img n" "i < n" using assms(2,3) by (simp_all add: n_def)
  have s: "length img' = length img" "\<And>j. j < n \<Longrightarrow> memcpy_from img' (part_at j) 28 = memcpy_from img (part_at j) 28"
    "\<And>j. j < n \<Longrightarrow> part_crc (ptable_part img' j) = ptable_crc32 (memcpy_from img (part_at j) 28)"
    using assms(1) by (simp_all add: serialized_def Let_def n_def)
  have eq: "part_size (ptable_part img' j) = part_size (ptable_part img j) \<and>
      part_offset (ptable_part img' j) = part_offset (ptable_part img j) \<and>
      part_name (ptable_part img' j) = part_name (ptable_part img j)" if "j < n" for j
  proof -
    have "part_at j + 28 \<le> length img" using part_in [OF hp(1) that] by simp
    then obtain c where "ptable_part img' j = (ptable_part img j)\<lparr>part_crc := c\<rparr>"
      using s(1,2) \<open>j < n\<close> part_cong [of img' j img] by auto
    then show ?thesis by simp
  qed
  have "list_all (\<lambda>j. let p = ptable_part img' j in
        \<not> (off \<le> part_offset p + part_size p - 1 \<and> last \<ge> part_offset p) \<and>
        hal_strcmp name (name_str (part_name p)) \<noteq> 0) [0..<i] =
      list_all (\<lambda>j. let p = ptable_part img j in
        \<not> (off \<le> part_offset p + part_size p - 1 \<and> last \<ge> part_offset p) \<and>
        hal_strcmp name (name_str (part_name p)) \<noteq> 0) [0..<i]" for off last name
    by (rule list.pred_cong) (use eq hp(2) in \<open>simp_all add: Let_def\<close>)
  then show ?thesis
    using s(2,3) [OF hp(2)] eq [OF hp(2)] unfolding ptable_partVerify_def Let_def by simp
qed

lemma verify_serialized:
  assumes "serialized img img'" "holds_parts img (unat (ptable_count img))"
    "part_at (unat (ptable_count img)) + 4 < 2 ^ 32"
  shows "ptable_verify img' memsz blksz \<longleftrightarrow> ptable_size (ptable_count img) \<le> blksz \<and>
    (\<forall>i<unat (ptable_count img). ptable_partVerify img i memsz blksz False)"
proof -
  have s: "ptable_count img' = ptable_count img" "ptable_version img' = 2"
      "ptable_hdrcrc img' = ptable_crc32 (memcpy_from img' 0 24)"
      "memcpy_from img' (part_at (unat (ptable_count img))) 4 = ptable_magic"
    using assms(1) by (simp_all add: serialized_def Let_def PTABLE_VERSION_def)
  have "hal_memcmp (drop (part_at (unat (ptable_count img))) img') ptable_magic 4 = 0"
    using s(4) by (simp add: hal_memcmp_def memcmp_bytes_eq_0 memcpy_from_def)
  then show ?thesis
    using s(1-3) unat_ptable_size [OF assms(3)] partVerify_serialized [OF assms(1,2)]
    by (auto simp: ptable_verify_def Let_def list_all_iff)
qed

section \<open>A table with two partitions\<close>

definition part_bytes :: "bytes \<Rightarrow> u32 \<Rightarrow> u32 \<Rightarrow> bytes" where
  "part_bytes name off sz = take 8 (name @ replicate 8 0) @ le32_bytes off @ le32_bytes sz @ [0x51] @ replicate 15 0"

text \<open>A legacy table (version 0, no checksums): partitions \<open>a\<close> and \<open>b1\<close>.\<close>

definition ptable_example :: bytes where
  "ptable_example = le32_bytes 2 @ replicate 24 0 @ part_bytes [0x61] 128 256 @ part_bytes [0x62, 0x31] 384 128 @ ptable_magic"

lemma ptable_example_count: "ptable_count ptable_example = 2"
  by code_simp

lemma ptable_example_verify: "ptable_verify ptable_example 1024 128"
  by code_simp

lemma ptable_example_parts: "i < 2 \<Longrightarrow> ptable_partVerify ptable_example i 1024 128 False"
proof -
  have "list_all (\<lambda>i. ptable_partVerify ptable_example i 1024 128 False) [0, 1]" by code_simp
  then show "i < 2 \<Longrightarrow> ptable_partVerify ptable_example i 1024 128 False" by (auto simp: less_2_cases_iff)
qed

section \<open>Properties\<close>

text \<open>
  C18: In a partition table that passes verification, the partitions lie inside the device, are not empty, start and
  end on block boundaries, are pairwise disjoint and have pairwise different names.
\<close>

theorem ptable_verify_sound:
  assumes "ptable_verify img memsz blksz" "i < unat (ptable_count img)"
  defines "p \<equiv> ptable_part img i"
  shows "0 < unat (part_size p) \<and> unat (part_offset p) + unat (part_size p) \<le> unat memsz \<and>
    unat blksz dvd unat (part_offset p) \<and> unat blksz dvd unat (part_size p) \<and>
    (\<forall>j<i. let q = ptable_part img j in
       (unat (part_offset p) + unat (part_size p) \<le> unat (part_offset q) \<or>
        unat (part_offset q) + unat (part_size q) \<le> unat (part_offset p)) \<and>
       cstr (name_str (part_name p)) \<noteq> cstr (name_str (part_name q)))"
proof -
  obtain crc where "ptable_partVerify img i memsz blksz crc" using verify_parts [OF assms(1,2)] by auto
  note g = partVerify_geometry [OF this, folded p_def]
  have m: "unat memsz < 2 ^ 32" using unat_less_exp [of memsz] by simp
  have "let q = ptable_part img j in
       (unat (part_offset p) + unat (part_size p) \<le> unat (part_offset q) \<or>
        unat (part_offset q) + unat (part_size q) \<le> unat (part_offset p)) \<and>
       cstr (name_str (part_name p)) \<noteq> cstr (name_str (part_name q))" if j: "j < i" for j
  proof -
    obtain crc' where "ptable_partVerify img j memsz blksz crc'" using verify_parts [OF assms(1), of j] assms(2) j by auto
    note h = partVerify_geometry(1,2) [OF this]
    show ?thesis
      using ranges_apart [of "part_offset p" "part_size p" "part_offset (ptable_part img j)" "part_size (ptable_part img j)"]
        g(1,2,6) h m j by (simp add: Let_def hal_strcmp_eq_0)
  qed
  then show ?thesis using g by (simp add: unat_gt_0)
qed

theorem ptable_verify_sound_witness:
  "unat (part_offset (ptable_part ptable_example 1)) + unat (part_size (ptable_part ptable_example 1)) \<le> 1024 \<and>
   cstr (name_str (part_name (ptable_part ptable_example 1))) \<noteq> cstr (name_str (part_name (ptable_part ptable_example 0)))"
  using ptable_verify_sound [OF ptable_example_verify, of 1] by (simp add: ptable_example_count Let_def)

text \<open>
  C24: Let a table have room for its partitions and the magic bytes, with a size below 4 GiB. Serialisation sets the version, the checksum of the 24 bytes of the header before it, the checksum of the 28 bytes of each
  partition and the magic bytes behind the last one, without touching the count or the description of any
  partition; it succeeds exactly if the table fits a block and its partitions pass the geometry and name
  checks; a table serialised successfully is accepted by deserialisation as it is.
\<close>

theorem ptable_roundtrip:
  assumes "part_at (unat (ptable_count img)) + 4 \<le> length img" "part_at (unat (ptable_count img)) + 4 < 2 ^ 32"
    "ptable_serialize img memsz blksz = (ok, img')"
  shows "(ok \<longleftrightarrow> ptable_size (ptable_count img) \<le> blksz \<and>
      (\<forall>i<unat (ptable_count img). ptable_partVerify img i memsz blksz False)) \<and>
    ptable_count img' = ptable_count img \<and>
    img' ! 4 = 2 \<and> le32_of (memcpy_from img' 24 4) = ptable_crc32 (memcpy_from img' 0 24) \<and>
    (\<forall>i<unat (ptable_count img). memcpy_from img' (part_at i) 28 = memcpy_from img (part_at i) 28 \<and>
       le32_of (memcpy_from img' (part_at i + 28) 4) = ptable_crc32 (memcpy_from img (part_at i) 28)) \<and>
    memcpy_from img' (part_at (unat (ptable_count img))) 4 = [0xde, 0xad, 0xfc, 0xbe] \<and>
    ptable_deserialize img' memsz blksz = (ok, img')"
proof -
  have hp: "holds_parts img (unat (ptable_count img))" using assms(1) by (simp add: holds_parts_def)
  have s: "serialized img img'" by (rule ptable_serialize_image [OF hp assms(2,3)])
  have "ok = ptable_verify img' memsz blksz" using assms(3) by (auto simp: ptable_serialize_def Let_def)
  then show ?thesis
    using s verify_serialized [OF s hp assms(2)]
    by (simp add: serialized_def Let_def ptable_deserialize_def ptable_version_def PTABLE_VERSION_def ptable_hdrcrc_def ptable_part_def ptable_magic_def)
qed

theorem ptable_roundtrip_witness:
  "fst (ptable_serialize ptable_example 1024 128) \<and> snd (ptable_serialize ptable_example 1024 128) ! 4 = 2 \<and>
   memcpy_from (snd (ptable_serialize ptable_example 1024 128)) 92 4 = [0xde, 0xad, 0xfc, 0xbe] \<and>
   ptable_count (snd (ptable_serialize ptable_example 1024 128)) = 2"
proof -
  obtain ok img' where s: "ptable_serialize ptable_example 1024 128 = (ok, img')" by force
  have "length ptable_example = 96" "part_at 2 = 92" "ptable_size 2 = 96" by code_simp+
  then show ?thesis
    using ptable_roundtrip [OF _ _ s] ptable_example_parts s by (simp add: ptable_example_count word_le_nat_alt)
qed

end
