(* ===== verification/Phoenixd.thy ===== *)
theory Phoenixd
  imports Hal_String Rtt
begin

text \<open>
  \<open>phfs/phoenixd.c\<close>: files of the \<open>phoenixd\<close> server, opened, read, written and queried by messages over a
  device. The buffers \<open>smsg\<close>, \<open>rmsg\<close> and \<open>headers\<close> are uninitialised locals of the C functions: their contents
  are the parameter \<open>stk\<close>. A message is sent through \<open>devs_write\<close> and \<open>devs_read\<close> of the device table.
\<close>

record stack_t =
  st_smsg :: msg_t
  st_rmsg :: msg_t
  st_headers :: bytes

definition MSG_OPEN :: u32 where "MSG_OPEN = 1"
definition MSG_READ :: u32 where "MSG_READ = 2"
definition MSG_WRITE :: u32 where "MSG_WRITE = 3"
definition MSG_FSTAT :: u32 where "MSG_FSTAT = 6"
definition PHOENIXD_HDRSZ :: nat where "PHOENIXD_HDRSZ = 12"
definition PHOENIXD_STATSZ :: nat where "PHOENIXD_STATSZ = 44"
definition ST_SIZE_OFFS :: nat where "ST_SIZE_OFFS = 20"
definition MSGRECV_TIMEOUT :: time_t where "MSGRECV_TIMEOUT = 500"

record msg_phoenixd_t =
  io_handle :: u32
  io_pos :: u32
  io_len :: u32

definition phoenixd_serializeMsgPhd :: "bytes \<Rightarrow> u32 \<Rightarrow> u32 \<Rightarrow> u32 \<Rightarrow> bytes" where
  "phoenixd_serializeMsgPhd buff handle pos len =
     memcpy_to (memcpy_to (memcpy_to buff 0 (msg_serialize32 handle)) 4 (msg_serialize32 pos)) 8 (msg_serialize32 len)"

definition phoenixd_serializeDataMsgPhd :: "bytes \<Rightarrow> u32 \<Rightarrow> u32 \<Rightarrow> u32 \<Rightarrow> bytes \<Rightarrow> bytes" where
  "phoenixd_serializeDataMsgPhd buff handle pos len dat =
     memcpy_to (phoenixd_serializeMsgPhd buff handle pos len) 12 (take (unat len) dat)"

definition phoenixd_deserializeMsgPhd :: "bytes \<Rightarrow> msg_phoenixd_t" where
  "phoenixd_deserializeMsgPhd buff =
     \<lparr>io_handle = msg_deserialize32 buff, io_pos = msg_deserialize32 (drop 4 buff), io_len = msg_deserialize32 (drop 8 buff)\<rparr>"

text \<open>\<open>msg_send\<close> over device \<open>major.minor\<close>: the answer, or \<open>-EIO\<close> as every caller returns.\<close>

definition phd_send :: "stack_t \<Rightarrow> 'w devs \<Rightarrow> nat \<Rightarrow> nat \<Rightarrow> msg_t \<Rightarrow> ('w, msg_t) io" where
  "phd_send stk devs major minor smsg w =
     (case msg_send (devs_write devs major minor 0)
        (devs_read devs major minor 0 (of_nat (MSG_HDRSZ + MSG_MAXLEN)) MSGRECV_TIMEOUT)
        (st_headers stk) smsg (st_rmsg stk) w of
        None \<Rightarrow> None
      | Some (Inl _, _, w') \<Rightarrow> Some (Inl EIO, w')
      | Some (Inr _, rmsg, w') \<Rightarrow> Some (Inr rmsg, w'))"

definition phd_request :: "stack_t \<Rightarrow> u32 \<Rightarrow> nat \<Rightarrow> (bytes \<Rightarrow> bytes) \<Rightarrow> msg_t" where
  "phd_request stk t len fill =
     msg_setlen (of_nat len) (msg_settype t ((st_smsg stk)\<lparr>msg_data := fill (msg_data (st_smsg stk))\<rparr>))"

text \<open>The file name with its terminator has to fit into the message, which the C code does not check.\<close>

definition phoenixd_open :: "stack_t \<Rightarrow> 'w devs \<Rightarrow> string \<Rightarrow> nat \<Rightarrow> nat \<Rightarrow> u32 \<Rightarrow> ('w, u32) io" where
  "phoenixd_open stk devs file major minor flags =
     (let l = hal_strlen file + 1;
          smsg = phd_request stk MSG_OPEN (l + 4) (\<lambda>dat.
            memcpy_to (memcpy_to dat 0 (msg_serialize32 flags)) 4 (map of_char (cstr file @ [NUL])))
      in io_bind (phd_send stk devs major minor smsg) (\<lambda>rmsg.
        if msg_gettype rmsg \<noteq> MSG_OPEN then io_throw EIO
        else if msg_getlen rmsg \<noteq> 4 then io_throw EIO
        else if msg_deserialize32 (msg_data rmsg) = 0 then io_throw EIO
        else io_return (msg_deserialize32 (msg_data rmsg))))"

text \<open>
  \<open>l = min(io->len, msg_getlen(&rmsg) - PHOENIXD_HDRSZ)\<close> is computed on 64 bits, where the difference wraps,
  and then cut to 32.
\<close>

definition phd_read_len :: "msg_t \<Rightarrow> u32" where
  "phd_read_len rmsg =
     ucast (min (ucast (io_len (phoenixd_deserializeMsgPhd (msg_data rmsg))) :: size_t)
       (ucast (msg_getlen rmsg) - of_nat PHOENIXD_HDRSZ))"

definition phoenixd_read :: "stack_t \<Rightarrow> 'w devs \<Rightarrow> u32 \<Rightarrow> nat \<Rightarrow> nat \<Rightarrow> addr_t \<Rightarrow> size_t \<Rightarrow> ('w, bytes) io" where
  "phoenixd_read stk devs fd major minor offs len =
     (if unat len > MSG_MAXLEN - PHOENIXD_HDRSZ then io_throw EINVAL
      else
        let smsg = phd_request stk MSG_READ PHOENIXD_HDRSZ (\<lambda>dat. phoenixd_serializeMsgPhd dat fd (ucast offs) (ucast len))
        in io_bind (phd_send stk devs major minor smsg) (\<lambda>rmsg.
          if msg_gettype rmsg \<noteq> MSG_READ then io_throw EIO
          else if sint (io_len (phoenixd_deserializeMsgPhd (msg_data rmsg))) < 0 then io_throw EIO
          else io_return (memcpy_from (msg_data rmsg) 12 (unat (phd_read_len rmsg)))))"

definition phoenixd_write :: "stack_t \<Rightarrow> 'w devs \<Rightarrow> u32 \<Rightarrow> nat \<Rightarrow> nat \<Rightarrow> addr_t \<Rightarrow> bytes \<Rightarrow> ('w, size_t) io" where
  "phoenixd_write stk devs fd major minor offs buff =
     (if length buff > MSG_MAXLEN - PHOENIXD_HDRSZ then io_throw EINVAL
      else
        let smsg = phd_request stk MSG_WRITE (PHOENIXD_HDRSZ + length buff)
          (\<lambda>dat. phoenixd_serializeDataMsgPhd dat fd (ucast offs) (of_nat (length buff)) buff)
        in io_bind (phd_send stk devs major minor smsg) (\<lambda>rmsg.
          if msg_gettype rmsg \<noteq> MSG_WRITE then io_throw EIO
          else if sint (io_len (phoenixd_deserializeMsgPhd (msg_data rmsg))) < 0 then io_throw EIO
          else io_return (ucast (io_len (phoenixd_deserializeMsgPhd (msg_data rmsg))))))"

definition phoenixd_stat :: "stack_t \<Rightarrow> 'w devs \<Rightarrow> u32 \<Rightarrow> nat \<Rightarrow> nat \<Rightarrow> ('w, u32) io" where
  "phoenixd_stat stk devs fd major minor =
     (let smsg = phd_request (stk\<lparr>st_smsg := (st_smsg stk)\<lparr>msg_type := 0\<rparr>\<rparr>) MSG_FSTAT PHOENIXD_HDRSZ
        (\<lambda>dat. phoenixd_serializeMsgPhd dat fd 0 0)
      in io_bind (phd_send stk devs major minor smsg) (\<lambda>rmsg.
        if msg_gettype rmsg \<noteq> MSG_FSTAT then io_throw EIO
        else if io_len (phoenixd_deserializeMsgPhd (msg_data rmsg)) \<noteq> of_nat PHOENIXD_STATSZ then io_throw EIO
        else io_return (msg_deserialize32 (drop (12 + ST_SIZE_OFFS) (msg_data rmsg)))))"

definition phoenixd_close :: "u32 \<Rightarrow> nat \<Rightarrow> nat \<Rightarrow> ('w, unit) io" where
  "phoenixd_close fd major minor = io_return ()"

section \<open>A link in both directions\<close>

text \<open>Sending does not disturb what has been received.\<close>

locale byte_link = byte_sink sinv out room dw + byte_source sinv inp dr
  for sinv :: "'w \<Rightarrow> bool"
    and out :: "'w \<Rightarrow> bytes"
    and room :: "'w \<Rightarrow> nat"
    and dw :: "bytes \<Rightarrow> ('w, size_t) io"
    and inp :: "'w \<Rightarrow> bytes"
    and dr :: "('w, bytes) io" +
  assumes dw_keeps: "dw p w = Some (r, w') \<Longrightarrow> inp w' = inp w"
begin

lemma write_bytes_keeps: "write_bytes dw cs w = Some (r, w') \<Longrightarrow> inp w' = inp w"
proof (induction cs arbitrary: w)
  case Nil
  then show ?case by (simp add: io_return_def)
next
  case (Cons c cs)
  then show ?case using dw_keeps by (auto simp: io_bind_def split: option.splits sum.splits)
qed

lemma msg_write_keeps: "msg_fits m \<Longrightarrow> msg_write dw m w = Some (r, w') \<Longrightarrow> inp w' = inp w"
  using dw_keeps write_bytes_keeps
  by (auto simp: msg_write_fits io_bind_def io_return_def split: option.splits sum.splits)

text \<open>A request for which there is room, answered by the frame of \<open>m\<close>, succeeds at the first attempt.\<close>

lemma msg_send_link:
  assumes "sinv w" "length (msg_frame (msg_setcsum (csum_of smsg) smsg)) \<le> room w" "msg_fits smsg"
    "inp w = noise @ msg_frame m @ rest" "msg_ok m" "MSG_MARK \<notin> set noise"
    "length hdr0 = MSG_HDRSZ" "length (msg_data m0) = MSG_MAXLEN"
  shows "\<exists>rmsg w'. msg_send dw dr hdr0 smsg m0 w = Some (Inr (), rmsg, w') \<and> msg_same m rmsg \<and> sinv w'"
proof -
  let ?s = "msg_setcsum (csum_of smsg) smsg"
  have fits: "msg_fits ?s" using assms(3) by (simp add: msg_fits_def)
  obtain w1 where w1: "msg_write dw ?s w = Some (Inr (MSG_HDRSZ + unat (msg_getlen ?s)), w1)" "sinv w1"
    using msg_write_sink [OF assms(1,2) fits] by blast
  have "inp w1 = noise @ msg_frame m @ rest" using msg_write_keeps [OF fits w1(1)] assms(4) by simp
  then obtain m' w2 where "msg_read dr hdr0 m0 MSGREAD_DESYN w1 =
      Some (Inr (MSG_HDRSZ + unat (msg_getlen m)), (m', MSGREAD_DESYN), w2)" "msg_same m m'" "sinv w2"
    using msg_read_source [OF w1(2) _ assms(5-8)] by blast
  then show ?thesis
    using w1 by (auto simp: msg_send_def MSGRECV_MAXRETR_def numeral_3_eq_3 MSG_HDRSZ_def)
qed

end
section \<open>The server behind the debugger pipe\<close>

definition pipe_devs :: "('h rtt_world \<Rightarrow> time_t \<times> 'h rtt_world) \<Rightarrow> 'h rtt_world devs" where
  "pipe_devs timer = pipe_reg timer (\<lambda>_ _. None)"

lemma pipe_devs_ops: "devs_ops (pipe_devs timer) DEV_PIPE 0 = Some (opsPipeRTT timer)"
proof -
  have "devs_get (pipe_devs timer) DEV_PIPE 0 = Some \<lparr>dev_name = Some ''pipe-rtt'', dev_init = Some pipe_init,
      dev_done = Some pipe_done, dev_ops = Some (opsPipeRTT timer)\<rparr>"
    unfolding pipe_devs_def pipe_reg_def devs_get_def devs_register_def
    by (simp add: register_loop_free DEV_PIPE_def SIZE_MAJOR_def SIZE_MINOR_def)
  then show ?thesis by (simp add: devs_ops_def)
qed

lemma pipe_devs_rw:
  "devs_write (pipe_devs timer) DEV_PIPE 0 offs = pipe_write 0 offs"
  "devs_read (pipe_devs timer) DEV_PIPE 0 offs len timeout = pipe_read timer 0 offs len timeout"
  by (simp_all add: fun_eq_iff devs_write_def devs_read_def devs_call_def pipe_devs_ops opsPipeRTT_def)

lemma pipe_write_keeps:
  "pipe_write 0 offs p w = Some (r, w') \<Longrightarrow> pipe_list (rtt_rx w') = pipe_list (rtt_rx w) \<and> rtt_host w' = rtt_host w"
  by (auto simp: pipe_write_def rtt_write_def rtt_check_def rtt_rx_def io_defs split: option.splits if_splits prod.splits)

context rtt_debugger
begin

lemma link:
  assumes "len \<noteq> 0"
  shows "byte_link rtt_ok (\<lambda>w. pipe_list (rtt_tx w)) (\<lambda>w. pipe_room (rtt_tx w)) (devs_write (pipe_devs timer) DEV_PIPE 0 0) incoming
    (devs_read (pipe_devs timer) DEV_PIPE 0 0 len timeout)"
proof -
  have "incoming w' = incoming w" if "pipe_write 0 0 p w = Some (r, w')" for p w w' r
    using pipe_write_keeps [OF that] by (simp add: incoming_def)
  then show ?thesis
    unfolding pipe_devs_rw byte_link_def byte_link_axioms_def using source [OF assms] rtt_sink.byte_sink_axioms by blast
qed

end

sublocale rtt_debugger \<subseteq> lnk: byte_link rtt_ok "\<lambda>w. pipe_list (rtt_tx w)" "\<lambda>w. pipe_room (rtt_tx w)"
  "devs_write (pipe_devs timer) DEV_PIPE 0 0" incoming "devs_read (pipe_devs timer) DEV_PIPE 0 0 (of_nat (MSG_HDRSZ + MSG_MAXLEN)) timeout"
  by (rule link) (simp add: MSG_HDRSZ_def MSG_MAXLEN_def)

context rtt_debugger
begin

lemmas msg_send_incoming = lnk.msg_send_link [unfolded incoming_def]

end

lemma length_escape: "length (escape c) \<le> 2"
  by (simp add: escape_def)

lemma length_escapes: "length (concat (map escape cs)) \<le> 2 * length cs"
proof (induction cs)
  case (Cons c cs)
  then show ?case using length_escape [of c] by simp
qed simp

lemma length_msg_frame: "length (msg_frame m) \<le> 1 + 2 * (MSG_HDRSZ + unat (msg_getlen m))"
proof -
  have "length (msg_payload m) \<le> MSG_HDRSZ + unat (msg_getlen m)" by (simp add: msg_payload_def)
  then show ?thesis using length_escapes [of "msg_payload m"] by (simp add: msg_frame_def)
qed

lemma getlen_request: "len < 2 ^ 16 \<Longrightarrow> msg_getlen (phd_request stk t len fill) = of_nat len"
  unfolding phd_request_def by (rule getlen_setlen) (simp add: unat_of_nat_small)

lemma phd_send_rtt:
  assumes "rtt_debugger timer coming MSGRECV_TIMEOUT" "rtt_ok w" "1 + 2 * (MSG_HDRSZ + len) \<le> pipe_room (rtt_tx w)"
    "len \<le> MSG_MAXLEN" "length (fill (msg_data (st_smsg stk'))) = MSG_MAXLEN"
    "pipe_list (rtt_rx w) @ coming (rtt_host w) = noise @ msg_frame m @ rest" "msg_ok m" "MSG_MARK \<notin> set noise"
    "length (st_headers stk) = MSG_HDRSZ" "length (msg_data (st_rmsg stk)) = MSG_MAXLEN"
  shows "\<exists>rmsg w'. phd_send stk (pipe_devs timer) DEV_PIPE 0 (phd_request stk' t len fill) w = Some (Inr rmsg, w') \<and>
    msg_same m rmsg \<and> rtt_ok w'"
proof -
  let ?s = "phd_request stk' t len fill"
  have l: "unat (msg_getlen ?s) = len"
    using assms(4) by (simp add: getlen_request unat_of_nat_small MSG_MAXLEN_def)
  then have "length (msg_frame (msg_setcsum (csum_of ?s) ?s)) \<le> pipe_room (rtt_tx w)"
    using length_msg_frame [of "msg_setcsum (csum_of ?s) ?s"] assms(3) by simp
  moreover have "msg_fits ?s" using l assms(4,5) by (simp add: msg_fits_def phd_request_def msg_setlen_def msg_settype_def)
  ultimately obtain rmsg w' where "msg_send (devs_write (pipe_devs timer) DEV_PIPE 0 0)
      (devs_read (pipe_devs timer) DEV_PIPE 0 0 (of_nat (MSG_HDRSZ + MSG_MAXLEN)) MSGRECV_TIMEOUT)
      (st_headers stk) ?s (st_rmsg stk) w = Some (Inr (), rmsg, w')" "msg_same m rmsg" "rtt_ok w'"
    using rtt_debugger.msg_send_incoming [OF assms(1,2) _ _ assms(6-10)] by blast
  then show ?thesis by (auto simp: phd_send_def)
qed

text \<open>A well-formed answer that carries \<open>d\<close>.\<close>

definition phd_answer :: "u32 \<Rightarrow> bytes \<Rightarrow> msg_t \<Rightarrow> bool" where
  "phd_answer t d m \<longleftrightarrow> msg_ok m \<and> msg_gettype m = t \<and> length d \<le> MSG_MAXLEN - PHOENIXD_HDRSZ \<and>
     unat (msg_getlen m) = PHOENIXD_HDRSZ + length d \<and>
     io_len (phoenixd_deserializeMsgPhd (msg_data m)) = of_nat (length d) \<and> memcpy_from (msg_data m) 12 (length d) = d"

lemma take_nth_eq: "take n xs = take n ys \<Longrightarrow> i < n \<Longrightarrow> xs ! i = ys ! i"
  by (metis nth_take)

lemma drop_nth_eq: "take n xs = take n ys \<Longrightarrow> n \<le> length xs \<Longrightarrow> n \<le> length ys \<Longrightarrow> k + 3 < n \<Longrightarrow>
    msg_deserialize32 (drop k xs) = msg_deserialize32 (drop k ys)"
  using take_nth_eq [of n xs ys k] take_nth_eq [of n xs ys "k + 1"] take_nth_eq [of n xs ys "k + 2"] take_nth_eq [of n xs ys "k + 3"]
  by (simp add: msg_deserialize32_def)

lemma phd_answer_same:
  assumes "phd_answer t d m" "msg_same m rmsg"
  shows "msg_gettype rmsg = t" "io_len (phoenixd_deserializeMsgPhd (msg_data rmsg)) = of_nat (length d)"
    "unat (phd_read_len rmsg) = length d" "memcpy_from (msg_data rmsg) 12 (length d) = d"
    "sint (io_len (phoenixd_deserializeMsgPhd (msg_data rmsg))) \<ge> 0"
proof -
  let ?n = "12 + length d"
  have d: "length d \<le> 500" and ml: "length (msg_data m) = 512" and ok: "unat (msg_getlen m) = ?n"
    using assms(1) by (simp_all add: phd_answer_def msg_ok_def MSG_MAXLEN_def PHOENIXD_HDRSZ_def)
  have same: "msg_type rmsg = msg_type m" "take ?n (msg_data rmsg) = take ?n (msg_data m)"
    using assms(2) ok by (simp_all add: msg_same_def)
  have gl: "msg_getlen rmsg = msg_getlen m" using same(1) by (simp add: msg_getlen_def)
  show "msg_gettype rmsg = t" using assms(1) same(1) by (simp add: phd_answer_def msg_gettype_def)
  have "msg_deserialize32 (drop 8 (msg_data rmsg)) = msg_deserialize32 (drop 8 (msg_data m))"
    using same(2) ml assms(2) d by (intro drop_nth_eq [of ?n]) (simp_all add: msg_same_def)
  then show il: "io_len (phoenixd_deserializeMsgPhd (msg_data rmsg)) = of_nat (length d)"
    using assms(1) by (simp add: phd_answer_def phoenixd_deserializeMsgPhd_def)
  have ud: "unat (of_nat (length d) :: u32) = length d" using d by (simp add: unat_of_nat_small)
  have "(ucast (msg_getlen rmsg) :: size_t) = of_nat ?n" using ok gl by (metis of_nat_unat)
  moreover have "(ucast (of_nat (length d) :: u32) :: size_t) = of_nat (length d)" using ud by (metis of_nat_unat)
  ultimately have "phd_read_len rmsg = ucast (of_nat (length d) :: size_t)"
    unfolding phd_read_len_def il by (simp add: PHOENIXD_HDRSZ_def)
  then show "unat (phd_read_len rmsg) = length d"
    using d by (simp add: unat_of_nat_small unsigned_ucast_eq take_bit_nat_eq_self)
  show "memcpy_from (msg_data rmsg) 12 (length d) = d"
    using assms(1) arg_cong [OF same(2), of "drop 12"] by (simp add: phd_answer_def memcpy_from_def drop_take)
  show "sint (io_len (phoenixd_deserializeMsgPhd (msg_data rmsg))) \<ge> 0"
    using d unfolding il by (simp add: signed_of_nat signed_take_bit_int_eq_self)
qed

section \<open>A concrete answer\<close>

definition answer_example :: msg_t where
  "answer_example = \<lparr>msg_csum = 0x1d, msg_type = 0xe0002,
     msg_data = [0, 0, 0, 0, 0, 0, 0, 0, 2, 0, 0, 0, 5, 6] @ replicate 498 0\<rparr>"

lemma answer_example_ok: "phd_answer MSG_READ [5, 6] answer_example"
  by code_simp

section \<open>Properties\<close>

text \<open>
  Reading a file of the server over the debugger pipe returns exactly the data of the answer, provided that the transmit
  ring has room for the request and that a well-formed answer arrives in time, whatever noise precedes it and
  whatever the uninitialised buffers held.
\<close>

theorem phoenixd_read_data:
  assumes "rtt_debugger timer coming MSGRECV_TIMEOUT" "rtt_ok w" "41 \<le> pipe_room (rtt_tx w)" "unat len \<le> 500"
    "pipe_list (rtt_rx w) @ coming (rtt_host w) = noise @ msg_frame m @ rest" "phd_answer MSG_READ d m" "MSG_MARK \<notin> set noise"
    "length (st_headers stk) = MSG_HDRSZ" "length (msg_data (st_rmsg stk)) = MSG_MAXLEN" "length (msg_data (st_smsg stk)) = MSG_MAXLEN"
  shows "\<exists>w'. phoenixd_read stk (pipe_devs timer) fd DEV_PIPE 0 offs len w = Some (Inr d, w') \<and> rtt_ok w'"
proof -
  let ?f = "\<lambda>dat. phoenixd_serializeMsgPhd dat fd (ucast offs) (ucast len)"
  let ?s = "phd_request stk MSG_READ PHOENIXD_HDRSZ ?f"
  have "msg_ok m" using assms(6) by (simp add: phd_answer_def)
  moreover have "length (?f (msg_data (st_smsg stk))) = MSG_MAXLEN"
    using assms(10) by (simp add: phoenixd_serializeMsgPhd_def memcpy_to_def MSG_MAXLEN_def)
  ultimately obtain rmsg w' where r: "phd_send stk (pipe_devs timer) DEV_PIPE 0 ?s w = Some (Inr rmsg, w')" "msg_same m rmsg" "rtt_ok w'"
    using phd_send_rtt [OF assms(1,2) _ _ _ assms(5) _ assms(7-9), of PHOENIXD_HDRSZ ?f stk MSG_READ] assms(3)
    by (simp add: PHOENIXD_HDRSZ_def MSG_HDRSZ_def MSG_MAXLEN_def) blast
  note a = phd_answer_same [OF assms(6) r(2)]
  have "phoenixd_read stk (pipe_devs timer) fd DEV_PIPE 0 offs len w = Some (Inr d, w')"
    using assms(4) a r(1) unfolding phoenixd_read_def Let_def io_bind_def
    by (simp add: MSG_MAXLEN_def PHOENIXD_HDRSZ_def io_return_def)
  then show ?thesis using r(3) by blast
qed

theorem phoenixd_read_data_witness:
  "\<exists>w'. phoenixd_read \<lparr>st_smsg = msg_example, st_rmsg = msg_example, st_headers = replicate MSG_HDRSZ 0\<rparr>
      (pipe_devs (dbg_timer 7 3)) 3 DEV_PIPE 0 0 2 (rtt_example 64 [] (msg_frame answer_example)) = Some (Inr [5, 6], w')"
  using phoenixd_read_data [OF dbg.rtt_debugger_axioms [folded MSGRECV_TIMEOUT_def] rtt_example_ok [of "[]" 64 "msg_frame answer_example"],
      of 2 "[]" answer_example "[]" "[5, 6]" "\<lparr>st_smsg = msg_example, st_rmsg = msg_example, st_headers = replicate MSG_HDRSZ 0\<rparr>" 3 0]
    answer_example_ok
  by (auto simp: rtt_example_rings msg_example_def)

end
