(* ===== verification/Ramdrv.thy ===== *)
theory Ramdrv
  imports Devs Hal_String
begin

text \<open>
  \<open>devices/ram-storage/ramdrv.c\<close>: a RAM bank as a storage device. The bank (\<open>ramParams[0]\<close>, whose bounds
  \<open>RAM_ADDR\<close> and \<open>RAM_BANK_SIZE\<close> come from the board configuration) is a parameter; the world is the memory.
  Before the driver stands the contract of a storage device, on which the layers above rely.
\<close>

section \<open>The storage interface\<close>

text \<open>
  The device holds the bytes \<open>content\<close>. A transfer inside the device moves all its bytes, a transfer that
  leaves it is refused and changes nothing.
\<close>

locale storage =
  fixes sinv :: "'w \<Rightarrow> bool"
    and content :: "'w \<Rightarrow> bytes"
    and rd :: "addr_t \<Rightarrow> size_t \<Rightarrow> ('w, bytes) io"
    and wr :: "addr_t \<Rightarrow> bytes \<Rightarrow> ('w, size_t) io"
  assumes rd_law: "sinv w \<Longrightarrow>
      rd offs len w =
        (if unat offs < length (content w) \<and> unat offs + unat len \<le> length (content w)
         then Some (Inr (memcpy_from (content w) (unat offs) (unat len)), w) else Some (Inl EINVAL, w))"
    and wr_in: "sinv w \<Longrightarrow> unat offs < length (content w) \<Longrightarrow> unat offs + length bs \<le> length (content w) \<Longrightarrow>
      \<exists>w'. wr offs bs w = Some (Inr (of_nat (length bs)), w') \<and> sinv w' \<and> content w' = memcpy_to (content w) (unat offs) bs"
    and wr_out: "sinv w \<Longrightarrow> length bs < 2 ^ 64 \<Longrightarrow> unat offs + length bs > length (content w) \<Longrightarrow>
      wr offs bs w = Some (Inl EINVAL, w)"
    and content_size: "sinv w \<Longrightarrow> length (content w) < 2 ^ 64"
begin

text \<open>What was written is read back, and what lies elsewhere is still there.\<close>

lemma write_read:
  assumes "sinv w" "unat offs < length (content w)" "unat offs + length bs \<le> length (content w)"
  shows "\<exists>w'. wr offs bs w = Some (Inr (of_nat (length bs)), w') \<and> sinv w' \<and>
    rd offs (of_nat (length bs)) w' = Some (Inr bs, w')"
proof -
  obtain w' where w': "wr offs bs w = Some (Inr (of_nat (length bs)), w')" "sinv w'"
      "content w' = memcpy_to (content w) (unat offs) bs"
    using wr_in [OF assms] by blast
  have "unat (of_nat (length bs) :: size_t) = length bs"
    using content_size [OF assms(1)] assms(3) by (simp add: unat_of_nat_small)
  then show ?thesis using w' assms(2,3) by (simp add: rd_law)
qed

lemma write_other:
  assumes "sinv w" "unat offs < length (content w)" "unat offs + length bs \<le> length (content w)"
    "wr offs bs w = Some (r, w')" "rd o' l' w = Some (Inr d, w)"
    "unat o' + unat l' \<le> unat offs \<or> unat offs + length bs \<le> unat o'"
  shows "rd o' l' w' = Some (Inr d, w')"
proof -
  have "sinv w'" "content w' = memcpy_to (content w) (unat offs) bs" using wr_in [OF assms(1-3)] assms(4) by auto
  then show ?thesis
    using assms(1,3,5,6) by (auto simp: rd_law memcpy_from_to_disjoint split: if_splits)
qed

end

section \<open>The driver\<close>

record ram_params =
  ram_start :: addr_t
  ram_end :: addr_t

definition RAM_NO :: nat where "RAM_NO = 1"
definition DEV_RAM :: nat where "DEV_RAM = 4"

definition ram_size :: "ram_params \<Rightarrow> size_t" where
  "ram_size p = ram_end p - ram_start p"

definition ramdrv_isValidAddress :: "ram_params \<Rightarrow> addr_t \<Rightarrow> size_t \<Rightarrow> bool" where
  "ramdrv_isValidAddress p off sz \<longleftrightarrow> off < ram_size p \<and> sz \<le> ram_size p - off"

definition ramdrv_isValidMinor :: "nat \<Rightarrow> bool" where
  "ramdrv_isValidMinor minor \<longleftrightarrow> minor < RAM_NO"

definition ramdrv_read :: "ram_params \<Rightarrow> nat \<Rightarrow> addr_t \<Rightarrow> size_t \<Rightarrow> time_t \<Rightarrow> (mem, bytes) io" where
  "ramdrv_read p minor offs len timeout m =
     (if ramdrv_isValidMinor minor \<and> ramdrv_isValidAddress p offs len
      then io_return (mem_bytes m (ram_start p + offs) (unat len)) m
      else io_throw EINVAL m)"

definition ramdrv_write :: "ram_params \<Rightarrow> nat \<Rightarrow> addr_t \<Rightarrow> bytes \<Rightarrow> (mem, size_t) io" where
  "ramdrv_write p minor offs buff m =
     (if \<not> ramdrv_isValidMinor minor \<or> \<not> ramdrv_isValidAddress p offs (of_nat (length buff)) then io_throw EINVAL m
      else io_return (of_nat (length buff)) (mem_store m (ram_start p + offs) buff))"

definition ramdrv_done :: "nat \<Rightarrow> (mem, unit) io" where
  "ramdrv_done minor = (if \<not> ramdrv_isValidMinor minor then io_throw EINVAL else io_return ())"

definition ramdrv_sync :: "nat \<Rightarrow> (mem, unit) io" where
  "ramdrv_sync minor = (if \<not> ramdrv_isValidMinor minor then io_throw EINVAL else io_return ())"

definition ramdrv_map :: "ram_params \<Rightarrow> nat \<Rightarrow> addr_t \<Rightarrow> size_t \<Rightarrow> u32 \<Rightarrow> addr_t \<Rightarrow> size_t \<Rightarrow> u32 \<Rightarrow>
    (mem, mappable \<times> addr_t) io" where
  "ramdrv_map p minor addr sz mode memaddr memsz memmode =
     (if \<not> ramdrv_isValidMinor minor then io_throw EINVAL
      else if addr + sz \<ge> ram_size p then io_throw EINVAL
      else if ram_start p \<le> memaddr \<and> ram_start p + ram_size p \<ge> memaddr + memsz then io_return (Mappable, ram_start p)
      else if (mode AND memmode) \<noteq> mode then io_throw EINVAL
      else io_return (NotMappable, 0))"

definition ramdrv_init :: "nat \<Rightarrow> (mem, unit) io" where
  "ramdrv_init minor = (if \<not> ramdrv_isValidMinor minor then io_throw EINVAL else io_return ())"

definition opsRamStorage :: "ram_params \<Rightarrow> mem dev_ops_t" where
  "opsRamStorage p = \<lparr>op_sync = Some ramdrv_sync, op_map = Some (ramdrv_map p), op_control = None,
     op_read = Some (ramdrv_read p), op_write = Some (ramdrv_write p), op_erase = None\<rparr>"

definition ramdrv_reg :: "ram_params \<Rightarrow> mem devs \<Rightarrow> mem devs" where
  "ramdrv_reg p = devs_register DEV_RAM RAM_NO
     \<lparr>dev_name = Some ''ram-storage'', dev_init = Some ramdrv_init, dev_done = Some ramdrv_done,
      dev_ops = Some (opsRamStorage p)\<rparr>"

section \<open>The bank as storage\<close>

definition ram_content :: "ram_params \<Rightarrow> mem \<Rightarrow> bytes" where
  "ram_content p m = mem_bytes m (ram_start p) (unat (ram_size p))"

lemma length_ram_content [simp]: "length (ram_content p m) = unat (ram_size p)"
  by (simp add: ram_content_def)

lemma validAddress_unat:
  "ramdrv_isValidAddress p off sz \<longleftrightarrow> unat off < unat (ram_size p) \<and> unat off + unat sz \<le> unat (ram_size p)"
proof (cases "off < ram_size p")
  case True
  then have "unat (ram_size p - off) = unat (ram_size p) - unat off"
    by (intro unat_minus_small) simp
  then show ?thesis using True by (auto simp: ramdrv_isValidAddress_def word_less_nat_alt word_le_nat_alt)
qed (simp add: ramdrv_isValidAddress_def word_less_nat_alt)

text \<open>Through the device table, the bank is a storage device.\<close>

definition ram_devs :: "ram_params \<Rightarrow> mem devs" where
  "ram_devs p = ramdrv_reg p (\<lambda>_ _. None)"

lemma ram_devs_ops: "devs_ops (ram_devs p) DEV_RAM 0 = Some (opsRamStorage p)"
proof -
  have "devs_get (ram_devs p) DEV_RAM 0 = Some \<lparr>dev_name = Some ''ram-storage'', dev_init = Some ramdrv_init,
      dev_done = Some ramdrv_done, dev_ops = Some (opsRamStorage p)\<rparr>"
    unfolding ram_devs_def ramdrv_reg_def devs_get_def devs_register_def
    by (simp add: register_loop_free DEV_RAM_def RAM_NO_def SIZE_MAJOR_def SIZE_MINOR_def)
  then show ?thesis by (simp add: devs_ops_def)
qed

interpretation ram: storage "\<lambda>_. True" "ram_content p"
  "\<lambda>offs len. devs_read (ram_devs p) DEV_RAM 0 offs len timeout" "devs_write (ram_devs p) DEV_RAM 0"
proof unfold_locales
  fix w :: mem and offs len
  show "devs_read (ram_devs p) DEV_RAM 0 offs len timeout w =
      (if unat offs < length (ram_content p w) \<and> unat offs + unat len \<le> length (ram_content p w)
       then Some (Inr (memcpy_from (ram_content p w) (unat offs) (unat len)), w) else Some (Inl EINVAL, w))"
    by (simp add: devs_read_def devs_call_def ram_devs_ops opsRamStorage_def ramdrv_read_def validAddress_unat
        ramdrv_isValidMinor_def RAM_NO_def io_return_def io_throw_def ram_content_def mem_bytes_from)
next
  fix w :: mem and offs :: addr_t and bs :: bytes
  assume b: "unat offs < length (ram_content p w)" "unat offs + length bs \<le> length (ram_content p w)"
  have l: "unat (of_nat (length bs) :: size_t) = length bs"
    using b(2) by (intro unat_of_nat_le [of _ "ram_size p"]) simp
  have s: "unat (ram_size p) \<le> 2 ^ 64" using unat_less_exp [of "ram_size p"] by simp
  show "\<exists>w'. devs_write (ram_devs p) DEV_RAM 0 offs bs w = Some (Inr (of_nat (length bs)), w') \<and> True \<and>
      ram_content p w' = memcpy_to (ram_content p w) (unat offs) bs"
    using b l mem_bytes_store [OF _ s, of "unat offs" bs w "ram_start p"]
    by (simp add: devs_write_def devs_call_def ram_devs_ops opsRamStorage_def ramdrv_write_def validAddress_unat
        ramdrv_isValidMinor_def RAM_NO_def io_return_def ram_content_def)
next
  fix w :: mem and offs :: addr_t and bs :: bytes
  assume "length bs < 2 ^ 64" "unat offs + length bs > length (ram_content p w)"
  then show "devs_write (ram_devs p) DEV_RAM 0 offs bs w = Some (Inl EINVAL, w)"
    by (simp add: devs_write_def devs_call_def ram_devs_ops opsRamStorage_def ramdrv_write_def validAddress_unat
        ramdrv_isValidMinor_def RAM_NO_def io_throw_def unat_of_nat_small)
next
  fix w show "length (ram_content p w) < 2 ^ 64" using unat_less_exp [of "ram_size p"] by simp
qed

end
