(* ===== verification/Phfs.thy ===== *)
theory Phfs
  imports Phoenixd Ramdrv
begin

text \<open>
  \<open>phfs/phfs.c\<close>: the loader's view of storage. A table of at most 8 devices, each with an alias, a device number and
  a protocol, and a table of at most 32 file aliases, each an offset and a size on a raw device. Both
  tables are arrays with a count of the entries in use; the entries behind it are zero. The operations
  on handles go to the device table or to the \<open>phoenixd\<close> server.
\<close>

datatype prot = phfs_prot_raw | phfs_prot_phoenixd

record phfs_device_t =
  pd_alias :: string
  pd_major :: nat
  pd_minor :: nat
  pd_prot :: prot

record phfs_file_t =
  f_alias :: string
  f_addr :: addr_t
  f_size :: size_t

record phfs_t =
  ph_devices :: "phfs_device_t list"
  ph_dCnt :: nat
  ph_files :: "phfs_file_t list"
  ph_fCnt :: nat

record handler_t =
  h_pd :: nat
  h_id :: u32

definition SIZE_PHFS_HANDLERS :: nat where "SIZE_PHFS_HANDLERS = 8"
definition SIZE_PHFS_ALIASES :: nat where "SIZE_PHFS_ALIASES = 32"
definition PHFS_TIMEOUT_MS :: time_t where "PHFS_TIMEOUT_MS = 500"
definition DEV_ALIASSZ :: nat where "DEV_ALIASSZ = 8"
definition FILE_ALIASSZ :: nat where "FILE_ALIASSZ = 34"
definition PHFS_OPEN_RAWONLY :: u32 where "PHFS_OPEN_RAWONLY = 0x80000000"

text \<open>\<open>phfs_common\<close> as the loader starts with it.\<close>

definition phfs_common :: phfs_t where
  "phfs_common =
     \<lparr>ph_devices = replicate SIZE_PHFS_HANDLERS
        \<lparr>pd_alias = replicate DEV_ALIASSZ NUL, pd_major = 0, pd_minor = 0, pd_prot = phfs_prot_raw\<rparr>,
      ph_dCnt = 0,
      ph_files = replicate SIZE_PHFS_ALIASES \<lparr>f_alias = replicate FILE_ALIASSZ NUL, f_addr = 0, f_size = 0\<rparr>,
      ph_fCnt = 0\<rparr>"

section \<open>The tables\<close>

definition phfs_getProtName :: "prot \<Rightarrow> string" where
  "phfs_getProtName p = (case p of phfs_prot_raw \<Rightarrow> ''raw'' | phfs_prot_phoenixd \<Rightarrow> ''phoenixd'')"

definition phfs_setProt :: "string option \<Rightarrow> errno + prot" where
  "phfs_setProt prot =
     (case prot of
        None \<Rightarrow> Inr phfs_prot_raw
      | Some p \<Rightarrow>
          if hal_strcmp p ''raw'' = 0 then Inr phfs_prot_raw
          else if hal_strcmp p ''phoenixd'' = 0 then Inr phfs_prot_phoenixd
          else Inl EINVAL)"

text \<open>The first index whose entry satisfies the comparison of the loop.\<close>

fun index_of :: "('a \<Rightarrow> bool) \<Rightarrow> 'a list \<Rightarrow> nat option" where
  "index_of P [] = None"
| "index_of P (x # xs) = (if P x then Some 0 else map_option Suc (index_of P xs))"

definition phfs_getHandlerId :: "phfs_t \<Rightarrow> string \<Rightarrow> nat option" where
  "phfs_getHandlerId ph alias = index_of (\<lambda>pd. hal_strcmp alias (pd_alias pd) = 0) (take (ph_dCnt ph) (ph_devices ph))"

definition phfs_getAliasId :: "phfs_t \<Rightarrow> string \<Rightarrow> nat option" where
  "phfs_getAliasId ph alias = index_of (\<lambda>f. hal_strcmp alias (f_alias f) = 0) (take (ph_fCnt ph) (ph_files ph))"

text \<open>An alias is copied into an array of \<open>n\<close> characters: with its terminator if it fits, cut to \<open>n - 1\<close> otherwise.\<close>

definition set_alias :: "nat \<Rightarrow> string \<Rightarrow> string \<Rightarrow> string" where
  "set_alias n old alias =
     (let l = hal_strlen alias;
          sz = (if l < n - 1 then l + 1 else n - 1)
      in (memcpy_to old 0 (take sz (cstr alias @ [NUL])))[sz := NUL])"

definition phfs_devReg :: "'w devs \<Rightarrow> string option \<Rightarrow> nat \<Rightarrow> nat \<Rightarrow> string option \<Rightarrow> phfs_t \<Rightarrow> (errno + unit) \<times> phfs_t" where
  "phfs_devReg devs alias major minor prot ph =
     (case alias of
        None \<Rightarrow> (Inl EINVAL, ph)
      | Some al \<Rightarrow>
          if ph_dCnt ph \<ge> SIZE_PHFS_HANDLERS then (Inl EINVAL, ph)
          else if devs_check devs major minor = Inl ENODEV then (Inl EINVAL, ph)
          else if phfs_getHandlerId ph al \<noteq> None then (Inl EINVAL, ph)
          else (case phfs_setProt prot of
              Inl _ \<Rightarrow> (Inl EINVAL, ph)
            | Inr p \<Rightarrow>
                (Inr (), ph\<lparr>ph_devices := (ph_devices ph)[ph_dCnt ph :=
                     \<lparr>pd_alias = set_alias DEV_ALIASSZ (pd_alias (ph_devices ph ! ph_dCnt ph)) al,
                      pd_major = major, pd_minor = minor, pd_prot = p\<rparr>],
                   ph_dCnt := Suc (ph_dCnt ph)\<rparr>)))"

definition phfs_devGet :: "phfs_t \<Rightarrow> string \<Rightarrow> errno + (nat \<times> nat \<times> prot)" where
  "phfs_devGet ph alias =
     (if ph_dCnt ph = 0 then Inl ENODEV
      else case index_of (\<lambda>pd. hal_strcmp (pd_alias pd) alias = 0) (take (ph_dCnt ph) (ph_devices ph)) of
             None \<Rightarrow> Inl ENODEV
           | Some i \<Rightarrow> (let pd = ph_devices ph ! i in Inr (pd_major pd, pd_minor pd, pd_prot pd)))"

definition phfs_aliasAddrResolve :: "phfs_t \<Rightarrow> handler_t \<Rightarrow> errno + addr_t" where
  "phfs_aliasAddrResolve ph h =
     (if unat (h_id h) \<ge> SIZE_PHFS_ALIASES \<or> unat (h_id h) \<ge> ph_fCnt ph then Inl EINVAL
      else Inr (f_addr (ph_files ph ! unat (h_id h))))"

definition phfs_aliasReg :: "string option \<Rightarrow> addr_t \<Rightarrow> size_t \<Rightarrow> phfs_t \<Rightarrow> (errno + unit) \<times> phfs_t" where
  "phfs_aliasReg alias addr sz ph =
     (case alias of
        None \<Rightarrow> (Inl EINVAL, ph)
      | Some al \<Rightarrow>
          if ph_fCnt ph \<ge> SIZE_PHFS_ALIASES then (Inl EINVAL, ph)
          else if phfs_getAliasId ph al \<noteq> None then (Inl EINVAL, ph)
          else (Inr (), ph\<lparr>ph_files := (ph_files ph)[ph_fCnt ph :=
                  \<lparr>f_alias = set_alias FILE_ALIASSZ (f_alias (ph_files ph ! ph_fCnt ph)) al, f_addr = addr, f_size = sz\<rparr>],
                ph_fCnt := Suc (ph_fCnt ph)\<rparr>))"

section \<open>Handles\<close>

text \<open>
  A server descriptor with the sign bit set is a negative \<open>int\<close> and returned as an error. The C code
  fills \<open>handler->pd\<close> before it fails; callers do not use the handle of a failed open. Without a file name the C code
  hands NULL to the server protocol, which reads it as a string; the model sends an empty name.
\<close>

definition phfs_open :: "stack_t \<Rightarrow> 'w devs \<Rightarrow> phfs_t \<Rightarrow> string \<Rightarrow> string option \<Rightarrow> u32 \<Rightarrow> ('w, handler_t) io" where
  "phfs_open stk devs ph alias file flags =
     (case phfs_getHandlerId ph alias of
        None \<Rightarrow> io_throw EINVAL
      | Some i \<Rightarrow>
          let pd = ph_devices ph ! i in
          if (flags AND PHFS_OPEN_RAWONLY) \<noteq> 0 \<and> pd_prot pd \<noteq> phfs_prot_raw then io_throw ENXIO
          else case pd_prot pd of
            phfs_prot_phoenixd \<Rightarrow>
              io_bind (phoenixd_open stk devs (case file of None \<Rightarrow> [] | Some f \<Rightarrow> f) (pd_major pd) (pd_minor pd) flags) (\<lambda>fd.
                if sint fd < 0 then io_throw (ERAW fd) else io_return \<lparr>h_pd = i, h_id = fd\<rparr>)
          | phfs_prot_raw \<Rightarrow>
              (case file of
                 None \<Rightarrow> io_return \<lparr>h_pd = i, h_id = -1\<rparr>
               | Some f \<Rightarrow> (case phfs_getAliasId ph f of
                     None \<Rightarrow> io_throw EINVAL
                   | Some k \<Rightarrow> io_return \<lparr>h_pd = i, h_id = of_nat k\<rparr>)))"

definition phfs_read :: "stack_t \<Rightarrow> 'w devs \<Rightarrow> phfs_t \<Rightarrow> handler_t \<Rightarrow> addr_t \<Rightarrow> size_t \<Rightarrow> ('w, bytes) io" where
  "phfs_read stk devs ph h offs len =
     (if h_pd h \<ge> SIZE_PHFS_HANDLERS then io_throw EINVAL
      else let pd = ph_devices ph ! h_pd h in
        case pd_prot pd of
          phfs_prot_phoenixd \<Rightarrow> phoenixd_read stk devs (h_id h) (pd_major pd) (pd_minor pd) offs len
        | phfs_prot_raw \<Rightarrow>
            if h_id h = -1 then devs_read devs (pd_major pd) (pd_minor pd) offs len PHFS_TIMEOUT_MS
            else if unat (h_id h) \<ge> SIZE_PHFS_ALIASES then io_throw EINVAL
            else let file = ph_files ph ! unat (h_id h) in
              devs_read devs (pd_major pd) (pd_minor pd) (f_addr file + offs) (min len (f_size file - offs)) PHFS_TIMEOUT_MS)"

definition phfs_write :: "stack_t \<Rightarrow> 'w devs \<Rightarrow> phfs_t \<Rightarrow> handler_t \<Rightarrow> addr_t \<Rightarrow> bytes \<Rightarrow> ('w, size_t) io" where
  "phfs_write stk devs ph h offs buff =
     (if h_pd h \<ge> SIZE_PHFS_HANDLERS then io_throw EINVAL
      else let pd = ph_devices ph ! h_pd h in
        case pd_prot pd of
          phfs_prot_phoenixd \<Rightarrow> phoenixd_write stk devs (h_id h) (pd_major pd) (pd_minor pd) offs buff
        | phfs_prot_raw \<Rightarrow>
            if h_id h = -1 then devs_write devs (pd_major pd) (pd_minor pd) offs buff
            else if unat (h_id h) \<ge> SIZE_PHFS_ALIASES then io_throw EINVAL
            else let file = ph_files ph ! unat (h_id h) in
              devs_write devs (pd_major pd) (pd_minor pd) (f_addr file + offs)
                (take (unat (min (of_nat (length buff)) (f_size file - offs))) buff))"

definition phfs_erase :: "'w devs \<Rightarrow> phfs_t \<Rightarrow> handler_t \<Rightarrow> addr_t \<Rightarrow> size_t \<Rightarrow> u32 \<Rightarrow> ('w, size_t) io" where
  "phfs_erase devs ph h offs len flags =
     (if h_pd h \<ge> SIZE_PHFS_HANDLERS then io_throw EINVAL
      else let pd = ph_devices ph ! h_pd h in
        if pd_minor pd \<noteq> DEV_STORAGE \<and> pd_prot pd \<noteq> phfs_prot_raw then io_throw EINVAL
        else devs_erase devs (pd_major pd) (pd_minor pd) offs len flags)"

definition phfs_close :: "'w devs \<Rightarrow> phfs_t \<Rightarrow> handler_t \<Rightarrow> ('w, unit) io" where
  "phfs_close devs ph h =
     (if h_pd h \<ge> SIZE_PHFS_HANDLERS then io_throw EINVAL
      else let pd = ph_devices ph ! h_pd h in
        io_bind (case pd_prot pd of
            phfs_prot_phoenixd \<Rightarrow> phoenixd_close (h_id h) (pd_major pd) (pd_minor pd)
          | phfs_prot_raw \<Rightarrow> io_return ()) (\<lambda>_.
        io_bind (io_try (devs_sync devs (pd_major pd) (pd_minor pd))) (\<lambda>r.
        case r of Inl _ \<Rightarrow> io_throw EINVAL | Inr _ \<Rightarrow> io_return ())))"

definition phfs_map :: "'w devs \<Rightarrow> phfs_t \<Rightarrow> handler_t \<Rightarrow> addr_t \<Rightarrow> size_t \<Rightarrow> u32 \<Rightarrow> addr_t \<Rightarrow> size_t \<Rightarrow> u32 \<Rightarrow>
    ('w, mappable \<times> addr_t) io" where
  "phfs_map devs ph h addr sz mode memaddr memsz memmode =
     (if h_pd h \<ge> SIZE_PHFS_HANDLERS then io_throw EINVAL
      else let pd = ph_devices ph ! h_pd h in
        devs_map devs (pd_major pd) (pd_minor pd) addr sz mode memaddr memsz memmode)"

text \<open>The size reported is a 32-bit field.\<close>

definition phfs_stat :: "stack_t \<Rightarrow> 'w devs \<Rightarrow> phfs_t \<Rightarrow> handler_t \<Rightarrow> ('w, u32) io" where
  "phfs_stat stk devs ph h =
     (if h_pd h \<ge> SIZE_PHFS_HANDLERS then io_throw EINVAL
      else let pd = ph_devices ph ! h_pd h in
        case pd_prot pd of
          phfs_prot_phoenixd \<Rightarrow> phoenixd_stat stk devs (h_id h) (pd_major pd) (pd_minor pd)
        | phfs_prot_raw \<Rightarrow>
            if h_id h = -1 \<or> unat (h_id h) \<ge> SIZE_PHFS_ALIASES then io_throw EINVAL
            else io_return (ucast (f_size (ph_files ph ! unat (h_id h)))))"

section \<open>Invariant of the tables\<close>

definition phfs_inv :: "phfs_t \<Rightarrow> bool" where
  "phfs_inv ph \<longleftrightarrow> length (ph_devices ph) = SIZE_PHFS_HANDLERS \<and> ph_dCnt ph \<le> SIZE_PHFS_HANDLERS \<and>
     length (ph_files ph) = SIZE_PHFS_ALIASES \<and> ph_fCnt ph \<le> SIZE_PHFS_ALIASES \<and>
     list_all (\<lambda>pd. length (pd_alias pd) = DEV_ALIASSZ) (ph_devices ph) \<and>
     list_all (\<lambda>f. length (f_alias f) = FILE_ALIASSZ) (ph_files ph)"

lemma index_of_Some: "index_of P xs = Some i \<Longrightarrow> i < length xs \<and> P (xs ! i)"
  by (induction xs arbitrary: i) (auto split: if_splits)

lemma index_of_None: "index_of P xs = None \<longleftrightarrow> (\<forall>x\<in>set xs. \<not> P x)"
  by (induction xs) auto

lemma index_of_snoc:
  "index_of P (xs @ [x]) = (case index_of P xs of Some i \<Rightarrow> Some i | None \<Rightarrow> if P x then Some (length xs) else None)"
  by (induction xs) (auto split: option.splits)

lemma length_set_alias [simp]: "length old = n \<Longrightarrow> 0 < n \<Longrightarrow> length (set_alias n old alias) = n"
  by (auto simp: set_alias_def Let_def memcpy_to_def hal_strlen_cstr)

lemma cstr_set_alias:
  assumes "length old = n" "0 < n"
  shows "cstr (set_alias n old alias) = take (n - 1) (cstr alias)"
proof -
  let ?c = "cstr alias"
  have nn: "NUL \<notin> set (take k ?c)" for k using NUL_notin_cstr [of "alias"] by (meson in_set_takeD)
  show ?thesis
  proof (cases "length ?c < n - 1")
    case True
    then have "set_alias n old alias = ?c @ NUL # drop (length ?c + 1) (old[length ?c + 1 := NUL])"
      using assms by (auto simp: set_alias_def Let_def hal_strlen_cstr memcpy_to_def list_update_append drop_update_swap Suc_diff_Suc)
    then show ?thesis using True by simp
  next
    case False
    obtain x where x: "drop (n - 1) old = [x]"
    proof -
      have "length (drop (n - 1) old) = 1" using assms by simp
      then show thesis using that by (metis One_nat_def length_0_conv length_Suc_conv)
    qed
    have "set_alias n old alias = take (n - 1) ?c @ [NUL]"
      using False assms x by (simp add: set_alias_def Let_def hal_strlen_cstr memcpy_to_def list_update_append)
    then show ?thesis using nn by simp
  qed
qed

lemma inv_devReg:
  assumes "phfs_inv ph" "phfs_devReg devs al major minor prot ph = (r, ph')"
  shows "phfs_inv ph'"
proof -
  have "ph_dCnt ph < SIZE_PHFS_HANDLERS \<Longrightarrow> length (pd_alias (ph_devices ph ! ph_dCnt ph)) = DEV_ALIASSZ"
    using assms(1) by (auto simp: phfs_inv_def list_all_length)
  then show ?thesis
    using assms by (auto simp: phfs_devReg_def phfs_inv_def DEV_ALIASSZ_def list_all_update
        split: option.splits if_splits sum.splits)
qed

lemma inv_aliasReg:
  assumes "phfs_inv ph" "phfs_aliasReg al addr sz ph = (r, ph')"
  shows "phfs_inv ph'"
proof -
  have "ph_fCnt ph < SIZE_PHFS_ALIASES \<Longrightarrow> length (f_alias (ph_files ph ! ph_fCnt ph)) = FILE_ALIASSZ"
    using assms(1) by (auto simp: phfs_inv_def list_all_length)
  then show ?thesis
    using assms by (auto simp: phfs_aliasReg_def phfs_inv_def FILE_ALIASSZ_def list_all_update
        split: option.splits if_splits)
qed

text \<open>A registered device is found under its alias, cut to seven characters, and the others as before.\<close>

lemma devReg_lookup:
  assumes "phfs_inv ph" "phfs_devReg devs (Some al) major minor prot ph = (Inr (), ph')"
  shows "phfs_getHandlerId ph' name =
      (case phfs_getHandlerId ph name of Some i \<Rightarrow> Some i
       | None \<Rightarrow> if cstr name = take 7 (cstr al) then Some (ph_dCnt ph) else None)"
    "i < ph_dCnt ph \<Longrightarrow> ph_devices ph' ! i = ph_devices ph ! i"
    "phfs_setProt prot = Inr p \<Longrightarrow> \<exists>a. ph_devices ph' ! ph_dCnt ph = \<lparr>pd_alias = a, pd_major = major, pd_minor = minor, pd_prot = p\<rparr>"
    "ph_dCnt ph' = Suc (ph_dCnt ph)" "ph_dCnt ph < SIZE_PHFS_HANDLERS" "phfs_getHandlerId ph al = None"
    "ph_files ph' = ph_files ph" "ph_fCnt ph' = ph_fCnt ph"
proof -
  let ?old = "pd_alias (ph_devices ph ! ph_dCnt ph)"
  have lt: "ph_dCnt ph < SIZE_PHFS_HANDLERS" "phfs_getHandlerId ph al = None"
    using assms(2) by (auto simp: phfs_devReg_def split: if_splits sum.splits)
  obtain p where p: "phfs_setProt prot = Inr p"
    and ph': "ph' = ph\<lparr>ph_devices := (ph_devices ph)[ph_dCnt ph :=
        \<lparr>pd_alias = set_alias DEV_ALIASSZ ?old al, pd_major = major, pd_minor = minor, pd_prot = p\<rparr>], ph_dCnt := Suc (ph_dCnt ph)\<rparr>"
    using assms(2) by (auto simp: phfs_devReg_def split: if_splits sum.splits)
  have len: "length ?old = DEV_ALIASSZ" "ph_dCnt ph < length (ph_devices ph)"
    using assms(1) lt(1) by (auto simp: phfs_inv_def list_all_length)
  have "cstr (set_alias DEV_ALIASSZ ?old al) = take 7 (cstr al)"
    using cstr_set_alias [OF len(1), of al] by (simp add: DEV_ALIASSZ_def)
  then show "phfs_getHandlerId ph' name =
      (case phfs_getHandlerId ph name of Some i \<Rightarrow> Some i
       | None \<Rightarrow> if cstr name = take 7 (cstr al) then Some (ph_dCnt ph) else None)"
    using len(2) by (simp add: phfs_getHandlerId_def ph' take_Suc_update index_of_snoc hal_strcmp_eq_0 split: option.splits)
  show "ph_dCnt ph < SIZE_PHFS_HANDLERS" "phfs_getHandlerId ph al = None" by (fact lt)+
  show "phfs_setProt prot = Inr p \<Longrightarrow> \<exists>a. ph_devices ph' ! ph_dCnt ph = \<lparr>pd_alias = a, pd_major = major, pd_minor = minor, pd_prot = p\<rparr>" for p
    using p len(2) by (simp add: ph')
qed (use assms(2) in \<open>auto simp: phfs_devReg_def split: if_splits sum.splits\<close>)

lemma aliasReg_lookup:
  assumes "phfs_inv ph" "phfs_aliasReg (Some al) addr sz ph = (Inr (), ph')"
  shows "phfs_getAliasId ph' name =
      (case phfs_getAliasId ph name of Some i \<Rightarrow> Some i
       | None \<Rightarrow> if cstr name = take 33 (cstr al) then Some (ph_fCnt ph) else None)"
    "i < ph_fCnt ph \<Longrightarrow> ph_files ph' ! i = ph_files ph ! i"
    "f_addr (ph_files ph' ! ph_fCnt ph) = addr" "f_size (ph_files ph' ! ph_fCnt ph) = sz"
    "ph_fCnt ph' = Suc (ph_fCnt ph)" "ph_fCnt ph < SIZE_PHFS_ALIASES" "phfs_getAliasId ph al = None"
    "ph_devices ph' = ph_devices ph" "ph_dCnt ph' = ph_dCnt ph"
proof -
  let ?old = "f_alias (ph_files ph ! ph_fCnt ph)"
  have lt: "ph_fCnt ph < SIZE_PHFS_ALIASES" "phfs_getAliasId ph al = None"
    using assms(2) by (auto simp: phfs_aliasReg_def split: if_splits)
  have ph': "ph' = ph\<lparr>ph_files := (ph_files ph)[ph_fCnt ph :=
        \<lparr>f_alias = set_alias FILE_ALIASSZ ?old al, f_addr = addr, f_size = sz\<rparr>], ph_fCnt := Suc (ph_fCnt ph)\<rparr>"
    using assms(2) by (auto simp: phfs_aliasReg_def split: if_splits)
  have len: "length ?old = FILE_ALIASSZ" "ph_fCnt ph < length (ph_files ph)"
    using assms(1) lt(1) by (auto simp: phfs_inv_def list_all_length)
  have "cstr (set_alias FILE_ALIASSZ ?old al) = take 33 (cstr al)"
    using cstr_set_alias [OF len(1), of al] by (simp add: FILE_ALIASSZ_def)
  then show "phfs_getAliasId ph' name =
      (case phfs_getAliasId ph name of Some i \<Rightarrow> Some i
       | None \<Rightarrow> if cstr name = take 33 (cstr al) then Some (ph_fCnt ph) else None)"
    using len(2) by (simp add: phfs_getAliasId_def ph' take_Suc_update index_of_snoc hal_strcmp_eq_0 split: option.splits)
  show "f_addr (ph_files ph' ! ph_fCnt ph) = addr" "f_size (ph_files ph' ! ph_fCnt ph) = sz"
    using len(2) by (simp_all add: ph')
  show "ph_fCnt ph < SIZE_PHFS_ALIASES" "phfs_getAliasId ph al = None" by (fact lt)+
qed (use assms(2) in \<open>auto simp: phfs_aliasReg_def split: if_splits\<close>)

section \<open>Reachable tables\<close>

definition fits :: "nat \<Rightarrow> string option \<Rightarrow> bool" where
  "fits n al = (case al of None \<Rightarrow> True | Some a \<Rightarrow> hal_strlen a \<le> n)"

text \<open>The tables after registrations, successful or not, whose names fit into the alias arrays.\<close>

inductive phfs_reach :: "'w devs \<Rightarrow> phfs_t \<Rightarrow> bool" for devs where
  start: "phfs_reach devs phfs_common"
| reg_dev: "phfs_reach devs ph \<Longrightarrow> fits 7 al \<Longrightarrow> phfs_devReg devs al major minor prot ph = (r, ph') \<Longrightarrow> phfs_reach devs ph'"
| reg_file: "phfs_reach devs ph \<Longrightarrow> fits 33 al \<Longrightarrow> phfs_aliasReg al addr sz ph = (r, ph') \<Longrightarrow> phfs_reach devs ph'"

definition dev_names :: "phfs_t \<Rightarrow> string list" where
  "dev_names ph = map (\<lambda>pd. cstr (pd_alias pd)) (take (ph_dCnt ph) (ph_devices ph))"

definition file_names :: "phfs_t \<Rightarrow> string list" where
  "file_names ph = map (\<lambda>f. cstr (f_alias f)) (take (ph_fCnt ph) (ph_files ph))"

lemma inv_start: "phfs_inv phfs_common" "dev_names phfs_common = []" "file_names phfs_common = []"
  by (simp_all add: phfs_inv_def phfs_common_def dev_names_def file_names_def list_all_iff)

lemma devReg_names:
  assumes "phfs_inv ph" "fits 7 al" "phfs_devReg devs al major minor prot ph = (r, ph')" "distinct (dev_names ph)"
  shows "distinct (dev_names ph') \<and> file_names ph' = file_names ph"
proof (cases r)
  case (Inl e)
  then have "ph' = ph" using assms(3) by (auto simp: phfs_devReg_def split: option.splits if_splits sum.splits)
  then show ?thesis using assms(4) by simp
next
  case (Inr u)
  then obtain a where a: "al = Some a" "phfs_devReg devs (Some a) major minor prot ph = (Inr (), ph')"
    using assms(3) by (cases al) (auto simp: phfs_devReg_def)
  have len: "ph_dCnt ph < length (ph_devices ph)" "length (pd_alias (ph_devices ph ! ph_dCnt ph)) = DEV_ALIASSZ"
    using devReg_lookup(5) [OF assms(1) a(2)] assms(1) by (auto simp: phfs_inv_def list_all_length)
  have "dev_names ph' = dev_names ph @ [take 7 (cstr a)]"
    using a(2) len cstr_set_alias [OF len(2), of a]
    by (auto simp: phfs_devReg_def dev_names_def take_Suc_update DEV_ALIASSZ_def split: if_splits sum.splits)
  moreover have "take 7 (cstr a) = cstr a" using assms(2) a(1) by (simp add: fits_def hal_strlen_cstr)
  moreover have "cstr a \<notin> set (dev_names ph)"
    using devReg_lookup(6) [OF assms(1) a(2)]
    by (auto simp: phfs_getHandlerId_def index_of_None dev_names_def hal_strcmp_eq_0)
  ultimately show ?thesis
    using assms(4) devReg_lookup(7,8) [OF assms(1) a(2)] by (simp add: file_names_def)
qed

lemma aliasReg_names:
  assumes "phfs_inv ph" "fits 33 al" "phfs_aliasReg al addr sz ph = (r, ph')" "distinct (file_names ph)"
  shows "distinct (file_names ph') \<and> dev_names ph' = dev_names ph"
proof (cases r)
  case (Inl e)
  then have "ph' = ph" using assms(3) by (auto simp: phfs_aliasReg_def split: option.splits if_splits)
  then show ?thesis using assms(4) by simp
next
  case (Inr u)
  then obtain a where a: "al = Some a" "phfs_aliasReg (Some a) addr sz ph = (Inr (), ph')"
    using assms(3) by (cases al) (auto simp: phfs_aliasReg_def)
  have len: "ph_fCnt ph < length (ph_files ph)" "length (f_alias (ph_files ph ! ph_fCnt ph)) = FILE_ALIASSZ"
    using aliasReg_lookup(6) [OF assms(1) a(2)] assms(1) by (auto simp: phfs_inv_def list_all_length)
  have "file_names ph' = file_names ph @ [take 33 (cstr a)]"
    using a(2) len cstr_set_alias [OF len(2), of a]
    by (auto simp: phfs_aliasReg_def file_names_def take_Suc_update FILE_ALIASSZ_def split: if_splits)
  moreover have "take 33 (cstr a) = cstr a" using assms(2) a(1) by (simp add: fits_def hal_strlen_cstr)
  moreover have "cstr a \<notin> set (file_names ph)"
    using aliasReg_lookup(7) [OF assms(1) a(2)]
    by (auto simp: phfs_getAliasId_def index_of_None file_names_def hal_strcmp_eq_0)
  ultimately show ?thesis
    using assms(4) aliasReg_lookup(8,9) [OF assms(1) a(2)] by (simp add: dev_names_def)
qed

lemma reach_inv: "phfs_reach devs ph \<Longrightarrow> phfs_inv ph \<and> distinct (dev_names ph) \<and> distinct (file_names ph)"
proof (induction rule: phfs_reach.induct)
  case start
  then show ?case by (simp add: inv_start)
next
  case (reg_dev ph al major minor prot r ph')
  then show ?case using inv_devReg devReg_names by metis
next
  case (reg_file ph al addr sz r ph')
  then show ?case using inv_aliasReg aliasReg_names by metis
qed

section \<open>Files on the RAM storage\<close>

definition is_ram :: "phfs_t \<Rightarrow> nat \<Rightarrow> bool" where
  "is_ram ph i \<longleftrightarrow> i < SIZE_PHFS_HANDLERS \<and> pd_major (ph_devices ph ! i) = DEV_RAM \<and> pd_minor (ph_devices ph ! i) = 0 \<and>
     pd_prot (ph_devices ph ! i) = phfs_prot_raw"

lemma getHandlerId_less: "phfs_inv ph \<Longrightarrow> phfs_getHandlerId ph name = Some i \<Longrightarrow> i < ph_dCnt ph \<and> i < SIZE_PHFS_HANDLERS"
  by (auto simp: phfs_getHandlerId_def phfs_inv_def dest: index_of_Some)

lemma min_file_size:
  fixes sz offs len :: size_t
  shows "offs \<le> sz \<Longrightarrow> unat (min len (sz - offs)) = min (unat len) (unat sz - unat offs)"
  by (simp add: unat_min unat_minus_small)

lemma file_read_ram:
  assumes "is_ram ph (h_pd h)" "unat (h_id h) < SIZE_PHFS_ALIASES"
    "f_addr (ph_files ph ! unat (h_id h)) = addr" "f_size (ph_files ph ! unat (h_id h)) = sz"
    and fit: "unat addr < unat (ram_size p)" "unat addr + unat sz \<le> unat (ram_size p)" "offs < sz"
  shows "phfs_read stk (ram_devs p) ph h offs len m =
    Some (Inr (memcpy_from (ram_content p m) (unat addr + unat offs) (min (unat len) (unat sz - unat offs))), m)"
proof -
  have o: "unat offs < unat sz" using fit(3) by (simp add: word_less_nat_alt)
  have a: "unat (addr + offs) = unat addr + unat offs"
    using fit(2) o unat_less_exp [of "ram_size p"] by (intro unat_plus_small) simp
  have ne: "h_id h \<noteq> -1"
    using assms(2) by (auto simp: SIZE_PHFS_ALIASES_def unsigned_minus_1_eq_mask mask_eq_exp_minus_1)
  have l: "unat (min len (sz - offs)) = min (unat len) (unat sz - unat offs)" using fit(3) by (intro min_file_size) simp
  show ?thesis
    using assms(1-4) ne o a l fit(2)
    by (simp add: phfs_read_def is_ram_def Let_def ram.rd_law [OF TrueI])
qed

section \<open>A concrete RAM storage device\<close>

definition ram_example :: ram_params where
  "ram_example = \<lparr>ram_start = 0, ram_end = 0x20\<rparr>"

definition stack_example :: stack_t where
  "stack_example = \<lparr>st_smsg = msg_example, st_rmsg = msg_example, st_headers = replicate MSG_HDRSZ 0\<rparr>"

definition phfs_ram :: phfs_t where
  "phfs_ram = snd (phfs_devReg (ram_devs ram_example) (Some ''ram0'') DEV_RAM 0 None phfs_common)"

lemma ram_devs_check: "devs_check (ram_devs p) DEV_RAM 0 = Inr ()"
  unfolding ram_devs_def ramdrv_reg_def devs_check_def devs_get_def devs_register_def
  by (simp add: register_loop_free DEV_RAM_def RAM_NO_def SIZE_MAJOR_def SIZE_MINOR_def)

lemma phfs_ram_reg: "phfs_devReg (ram_devs ram_example) (Some ''ram0'') DEV_RAM 0 None phfs_common = (Inr (), phfs_ram)"
  by (simp add: phfs_ram_def phfs_devReg_def phfs_common_def SIZE_PHFS_HANDLERS_def phfs_getHandlerId_def phfs_setProt_def ram_devs_check)

lemma phfs_ram_ok:
  "phfs_inv phfs_ram" "phfs_getHandlerId phfs_ram ''ram0'' = Some 0" "is_ram phfs_ram 0"
proof -
  note l = devReg_lookup [OF inv_start(1) phfs_ram_reg]
  show "phfs_inv phfs_ram" by (rule inv_devReg [OF inv_start(1) phfs_ram_reg])
  have c: "ph_dCnt phfs_common = 0" by (simp add: phfs_common_def)
  show "phfs_getHandlerId phfs_ram ''ram0'' = Some 0" using l(1) [of "''ram0''"] l(6) c by (simp add: NUL_def)
  show "is_ram phfs_ram 0" using l(3) [of phfs_prot_raw] c by (auto simp: is_ram_def phfs_setProt_def SIZE_PHFS_HANDLERS_def)
qed

section \<open>Properties\<close>

text \<open>
  C30: In every state the registrations can reach, as long as the names fit the alias arrays, the tables stay
  within their bounds and no two devices and no two files have the same alias.
\<close>

theorem phfs_aliases_unique:
  assumes "phfs_reach devs ph"
  shows "ph_dCnt ph \<le> 8 \<and> ph_fCnt ph \<le> 32 \<and> length (ph_devices ph) = 8 \<and> length (ph_files ph) = 32 \<and>
    distinct (map (\<lambda>pd. cstr (pd_alias pd)) (take (ph_dCnt ph) (ph_devices ph))) \<and>
    distinct (map (\<lambda>f. cstr (f_alias f)) (take (ph_fCnt ph) (ph_files ph)))"
  using reach_inv [OF assms]
  by (simp add: phfs_inv_def SIZE_PHFS_HANDLERS_def SIZE_PHFS_ALIASES_def dev_names_def file_names_def)

theorem phfs_aliases_unique_witness:
  "ph_fCnt (snd (phfs_aliasReg (Some ''kernel'') 0x100 0x40 phfs_common)) = 1 \<and>
   distinct (map (\<lambda>f. cstr (f_alias f)) (take 1 (ph_files (snd (phfs_aliasReg (Some ''kernel'') 0x100 0x40 phfs_common)))))"
proof -
  let ?ph = "snd (phfs_aliasReg (Some ''kernel'') 0x100 0x40 phfs_common)"
  have "phfs_reach (\<lambda>_ _. None :: unit dev_t option) ?ph"
    by (rule reg_file [OF start]) (auto simp: fits_def NUL_def intro: prod.collapse [symmetric])
  moreover have "ph_fCnt ?ph = 1"
    by (simp add: phfs_aliasReg_def phfs_common_def SIZE_PHFS_ALIASES_def phfs_getAliasId_def)
  ultimately show ?thesis using phfs_aliases_unique [of "\<lambda>_ _. None :: unit dev_t option" ?ph] by simp
qed

text \<open>
  A device registered under an alias of at most seven characters is found under exactly that alias with its
  number and protocol, and the devices registered before are found as before.
\<close>

theorem phfs_device_found:
  assumes "phfs_inv ph" "phfs_devReg devs (Some al) major minor prot ph = (Inr (), ph')" "hal_strlen al \<le> 7"
  shows "phfs_getHandlerId ph al = None \<and> phfs_getHandlerId ph' al = Some (ph_dCnt ph) \<and>
    (\<forall>name i. phfs_getHandlerId ph name = Some i \<longrightarrow> phfs_getHandlerId ph' name = Some i \<and> ph_devices ph' ! i = ph_devices ph ! i) \<and>
    (\<exists>p. phfs_setProt prot = Inr p \<and> phfs_devGet ph' al = Inr (major, minor, p))"
proof -
  note l = devReg_lookup [OF assms(1,2)]
  have t: "take 7 (cstr al) = cstr al" using assms(3) by (simp add: hal_strlen_cstr)
  have f: "phfs_getHandlerId ph' al = Some (ph_dCnt ph)" using l(1) [of al] l(6) t by simp
  obtain p where p: "phfs_setProt prot = Inr p"
    using assms(2) by (auto simp: phfs_devReg_def split: if_splits sum.splits)
  have sym: "hal_strcmp (pd_alias pd) al = 0 \<longleftrightarrow> hal_strcmp al (pd_alias pd) = 0" for pd :: phfs_device_t
    by (auto simp: hal_strcmp_eq_0)
  have "phfs_devGet ph' al = Inr (major, minor, p)"
    using f l(3) [OF p] l(4) by (auto simp: phfs_devGet_def phfs_getHandlerId_def Let_def sym)
  moreover have "phfs_getHandlerId ph' name = Some i \<and> ph_devices ph' ! i = ph_devices ph ! i"
    if "phfs_getHandlerId ph name = Some i" for name i
    using that l(1) [of name] l(2) [of i] getHandlerId_less [OF assms(1) that] by simp
  ultimately show ?thesis using f p l(6) by blast
qed

theorem phfs_device_found_witness: "phfs_devGet phfs_ram ''ram0'' = Inr (DEV_RAM, 0, phfs_prot_raw)"
  using phfs_device_found [OF inv_start(1) phfs_ram_reg] by (simp add: NUL_def phfs_setProt_def)

text \<open>
  C19: A file registered under an alias of at most 33 characters inside a RAM storage device can be opened by that alias on the
  device; reading it from an offset before its end returns the bytes of the device from that place of the file on, as many as were asked
  for but never past the end of the file; the size reported is the one registered, cut to 32 bits. (For an offset behind the end nothing is said: there the code goes past the file.)
\<close>

theorem phfs_file_read:
  assumes "phfs_inv ph" "phfs_aliasReg (Some al) addr sz ph = (Inr (), ph')" "hal_strlen al \<le> 33"
    "phfs_getHandlerId ph dev = Some i" "is_ram ph i"
    "unat addr < unat (ram_size p)" "unat addr + unat sz \<le> unat (ram_size p)" "offs < sz"
  shows "\<exists>h. phfs_open stk (ram_devs p) ph' dev (Some al) flags m = Some (Inr h, m) \<and>
    phfs_read stk (ram_devs p) ph' h offs len m =
      Some (Inr (memcpy_from (ram_content p m) (unat addr + unat offs) (min (unat len) (unat sz - unat offs))), m) \<and>
    phfs_stat stk (ram_devs p) ph' h m = Some (Inr (ucast sz), m)"
proof -
  note l = aliasReg_lookup [OF assms(1,2)]
  have t: "take 33 (cstr al) = cstr al" using assms(3) by (simp add: hal_strlen_cstr)
  have f: "phfs_getAliasId ph' al = Some (ph_fCnt ph)" using l(1) [of al] l(7) t by simp
  have d: "phfs_getHandlerId ph' dev = Some i" "is_ram ph' i"
    using assms(4,5) l(8,9) by (simp_all add: phfs_getHandlerId_def is_ram_def)
  let ?h = "\<lparr>h_pd = i, h_id = of_nat (ph_fCnt ph)\<rparr>"
  have id: "unat (h_id ?h) = ph_fCnt ph" using l(6) by (simp add: SIZE_PHFS_ALIASES_def unat_of_nat_small)
  have "phfs_open stk (ram_devs p) ph' dev (Some al) flags m = Some (Inr ?h, m)"
    using d f by (simp add: phfs_open_def is_ram_def Let_def io_return_def)
  moreover have "phfs_read stk (ram_devs p) ph' ?h offs len m =
      Some (Inr (memcpy_from (ram_content p m) (unat addr + unat offs) (min (unat len) (unat sz - unat offs))), m)"
    using d(2) id l(3,4,6) assms(6-8) by (intro file_read_ram) simp_all
  moreover have "h_id ?h \<noteq> -1"
    using id l(6) by (auto simp: SIZE_PHFS_ALIASES_def unsigned_minus_1_eq_mask mask_eq_exp_minus_1)
  then have "phfs_stat stk (ram_devs p) ph' ?h m = Some (Inr (ucast sz), m)"
    using d(2) id l(4,6) by (simp add: phfs_stat_def is_ram_def Let_def io_return_def)
  ultimately show ?thesis by blast
qed

theorem phfs_file_read_witness:
  "\<exists>h. phfs_open stack_example (ram_devs ram_example) (snd (phfs_aliasReg (Some ''kernel'') 0x10 4 phfs_ram)) ''ram0'' (Some ''kernel'') 0 ucast = Some (Inr h, ucast) \<and>
     phfs_read stack_example (ram_devs ram_example) (snd (phfs_aliasReg (Some ''kernel'') 0x10 4 phfs_ram)) h 1 8 ucast = Some (Inr [0x11, 0x12, 0x13], ucast)"
proof -
  let ?ph = "snd (phfs_aliasReg (Some ''kernel'') 0x10 4 phfs_ram)"
  have "ph_fCnt phfs_ram = 0" "phfs_getAliasId phfs_ram ''kernel'' = None"
    using devReg_lookup(7,8) [OF inv_start(1) phfs_ram_reg] by (simp_all add: phfs_common_def phfs_getAliasId_def)
  then have e: "phfs_aliasReg (Some ''kernel'') 0x10 4 phfs_ram = (Inr (), ?ph)"
    by (simp add: phfs_aliasReg_def SIZE_PHFS_ALIASES_def)
  have d: "memcpy_from (ram_content ram_example ucast) (16 + 1) 3 = [0x11, 0x12, 0x13]"
    by code_simp
  show ?thesis
    using phfs_file_read [OF phfs_ram_ok(1) e _ phfs_ram_ok(2,3), of ram_example 1 stack_example 0 ucast 8] d
    by (auto simp: ram_example_def ram_size_def NUL_def)
qed

text \<open>
  Data written through a raw handle to a RAM storage device is read back unchanged, and a transfer that leaves
  the device is refused with EINVAL and leaves the memory as it was.
\<close>

theorem phfs_raw_write_read:
  assumes "is_ram ph (h_pd h)" "h_id h = -1" "length bs < 2 ^ 64"
  shows "if unat offs < unat (ram_size p) \<and> unat offs + length bs \<le> unat (ram_size p)
    then \<exists>m'. phfs_write stk (ram_devs p) ph h offs bs m = Some (Inr (of_nat (length bs)), m') \<and>
      phfs_read stk (ram_devs p) ph h offs (of_nat (length bs)) m' = Some (Inr bs, m') \<and>
      ram_content p m' = memcpy_to (ram_content p m) (unat offs) bs
    else unat offs + length bs > unat (ram_size p) \<longrightarrow> phfs_write stk (ram_devs p) ph h offs bs m = Some (Inl EINVAL, m)"
proof (cases "unat offs < unat (ram_size p) \<and> unat offs + length bs \<le> unat (ram_size p)")
  case True
  have w: "phfs_write stk (ram_devs p) ph h offs bs = devs_write (ram_devs p) DEV_RAM 0 offs bs"
    "phfs_read stk (ram_devs p) ph h offs n = devs_read (ram_devs p) DEV_RAM 0 offs n PHFS_TIMEOUT_MS" for n
    using assms(1,2) by (simp_all add: phfs_write_def phfs_read_def is_ram_def Let_def)
  show ?thesis
    using True ram.write_read [OF TrueI, where p = p and timeout = PHFS_TIMEOUT_MS and w = m and offs = offs and bs = bs]
      ram.wr_in [OF TrueI, where p = p and w = m and offs = offs and bs = bs]
    unfolding w by auto
next
  case False
  then show ?thesis
    using assms ram.wr_out [OF TrueI, where p = p and w = m and offs = offs and bs = bs]
    by (auto simp: phfs_write_def is_ram_def Let_def)
qed

theorem phfs_raw_write_read_witness:
  "\<exists>m'. phfs_write stack_example (ram_devs ram_example) phfs_ram \<lparr>h_pd = 0, h_id = -1\<rparr> 4 [7, 8, 9] (\<lambda>_. 0) = Some (Inr 3, m') \<and>
     phfs_read stack_example (ram_devs ram_example) phfs_ram \<lparr>h_pd = 0, h_id = -1\<rparr> 4 3 m' = Some (Inr [7, 8, 9], m')"
  using phfs_raw_write_read [of phfs_ram "\<lparr>h_pd = 0, h_id = -1\<rparr>" "[7, 8, 9]" 4 ram_example stack_example "\<lambda>_. 0"] phfs_ram_ok(3)
  by (auto simp: ram_example_def ram_size_def)

end
