(* ===== verification/Clist.thy ===== *)
theory Clist
  imports Prelude
begin

text \<open>
  \<open>lib/list.c\<close> and the sorted insertion of \<open>syspage.c\<close>: circular doubly linked lists. The links are two fields of every
  node, each a function from the address of a node to an address (the words the C code reaches at the
  offsets \<open>noff\<close> and \<open>poff\<close>); NULL is 0. A list is the address of its head. \<open>circ\<close> relates the
  links to the sequence of nodes, head first; the operations are shown to be the operations on sequences that the other
  theories work with.
\<close>

record links =
  lnext :: "addr_t \<Rightarrow> addr_t"
  lprev :: "addr_t \<Rightarrow> addr_t"

definition NULL :: addr_t where "NULL = 0"

definition lib_listAdd :: "addr_t \<Rightarrow> addr_t \<Rightarrow> links \<Rightarrow> addr_t \<times> links" where
  "lib_listAdd lst t h =
     (if t = NULL then (lst, h)
      else if lst = NULL then (t, h\<lparr>lnext := (lnext h)(t := t), lprev := (lprev h)(t := t)\<rparr>)
      else
        let h1 = h\<lparr>lprev := (lprev h)(t := lprev h lst)\<rparr>;
            h2 = h1\<lparr>lnext := (lnext h1)(lprev h1 lst := t)\<rparr>;
            h3 = h2\<lparr>lnext := (lnext h2)(t := lst)\<rparr>
        in (lst, h3\<lparr>lprev := (lprev h3)(lst := t)\<rparr>))"

definition lib_listRemove :: "addr_t \<Rightarrow> addr_t \<Rightarrow> links \<Rightarrow> addr_t \<times> links" where
  "lib_listRemove lst t h =
     (if t = NULL then (lst, h)
      else
        let (lst', h') =
          (if lnext h t = t \<and> lprev h t = t then (NULL, h)
           else
             let h1 = h\<lparr>lnext := (lnext h)(lprev h t := lnext h t)\<rparr>;
                 h2 = h1\<lparr>lprev := (lprev h1)(lnext h1 t := lprev h1 t)\<rparr>
             in (if t = lst then lnext h2 t else lst, h2))
        in (lst', h'\<lparr>lnext := (lnext h')(t := NULL), lprev := (lprev h')(t := NULL)\<rparr>))"

text \<open>
  \<open>syspage_sortedInsert\<close>: the search for the first entry that starts behind the new one; it ends at the
  head again if there is none.
\<close>

partial_function (option) sorted_search ::
  "(addr_t \<Rightarrow> addr_t) \<Rightarrow> links \<Rightarrow> addr_t \<Rightarrow> addr_t \<Rightarrow> addr_t \<Rightarrow> addr_t option option" where
  "sorted_search start h entries new e =
     (if start new < start e then Some (Some e)
      else let e' = lnext h e
        in if e' = entries then Some None else sorted_search start h entries new e')"

text \<open>The four assignments that link \<open>new\<close> in before \<open>e\<close>, in the two orders of the C code.\<close>

definition link_before :: "addr_t \<Rightarrow> addr_t \<Rightarrow> links \<Rightarrow> links" where
  "link_before e new h =
     (let h1 = h\<lparr>lnext := (lnext h)(new := e), lprev := (lprev h)(new := lprev h e)\<rparr>;
          h2 = h1\<lparr>lnext := (lnext h1)(lprev h1 e := new)\<rparr>
      in h2\<lparr>lprev := (lprev h2)(e := new)\<rparr>)"

definition link_last :: "addr_t \<Rightarrow> addr_t \<Rightarrow> links \<Rightarrow> links" where
  "link_last e new h =
     (let h1 = h\<lparr>lprev := (lprev h)(new := lprev h e)\<rparr>;
          h2 = h1\<lparr>lnext := (lnext h1)(lprev h1 e := new)\<rparr>;
          h3 = h2\<lparr>lnext := (lnext h2)(new := e)\<rparr>
      in h3\<lparr>lprev := (lprev h3)(e := new)\<rparr>)"

definition syspage_sortedInsert :: "(addr_t \<Rightarrow> addr_t) \<Rightarrow> addr_t \<Rightarrow> addr_t \<Rightarrow> links \<Rightarrow> (addr_t \<times> links) option" where
  "syspage_sortedInsert start entries new h =
     (if entries = NULL then
        Some (new, h\<lparr>lnext := (lnext h)(new := new), lprev := (lprev h)(new := new)\<rparr>)
      else case sorted_search start h entries new entries of
          None \<Rightarrow> None
        | Some (Some e) \<Rightarrow> Some (if e = entries then new else entries, link_before e new h)
        | Some None \<Rightarrow> Some (entries, link_last entries new h))"

section \<open>Circular sequences\<close>

definition circ :: "links \<Rightarrow> addr_t list \<Rightarrow> bool" where
  "circ h xs \<longleftrightarrow> xs \<noteq> [] \<and> distinct xs \<and> NULL \<notin> set xs \<and>
     (\<forall>(x, y) \<in> set (zip xs (rotate1 xs)). lnext h x = y \<and> lprev h y = x)"

text \<open>The list with head \<open>p\<close> holds \<open>xs\<close>.\<close>

definition clist :: "links \<Rightarrow> addr_t \<Rightarrow> addr_t list \<Rightarrow> bool" where
  "clist h p xs \<longleftrightarrow> (if xs = [] then p = NULL else circ h xs \<and> p = hd xs)"

lemma zip_rotate1: "length xs = length ys \<Longrightarrow> zip (rotate1 xs) (rotate1 ys) = rotate1 (zip xs ys)"
  by (cases xs; cases ys) (auto simp: zip_append)

lemma circ_rotate1: "circ h (rotate1 xs) = circ h xs"
  by (auto simp: circ_def zip_rotate1)

lemma circ_append: "circ h (xs @ ys) = circ h (ys @ xs)"
proof -
  have "circ h (rotate n zs) = circ h zs" for n zs
    by (induction n) (simp_all add: circ_rotate1)
  from this [of "length xs" "xs @ ys"] show ?thesis by (simp add: rotate_append)
qed

lemma zip_shift: "zip (e # ys) (ys @ [z]) = zip (butlast (e # ys)) ys @ [(last (e # ys), z)]"
  by (induction ys arbitrary: e) auto

lemma circ_Cons:
  "circ h (e # ys) \<longleftrightarrow> distinct (e # ys) \<and> NULL \<notin> set (e # ys) \<and>
     (\<forall>(x, y) \<in> set (zip (butlast (e # ys)) ys). lnext h x = y \<and> lprev h y = x) \<and>
     lnext h (last (e # ys)) = e \<and> lprev h e = last (e # ys)"
  unfolding circ_def rotate1.simps zip_shift by auto

lemma butlast_not_last: "distinct zs \<Longrightarrow> x \<in> set (butlast zs) \<Longrightarrow> x \<noteq> last zs"
  by (cases zs rule: rev_cases) auto

text \<open>Linking a node in before the first one puts it at the end of the cycle.\<close>

lemma circ_link:
  assumes "circ h (e # ys)" "t \<notin> set (e # ys)" "t \<noteq> NULL"
    and n: "lnext h' = (lnext h)(lprev h e := t, t := e)" and p: "lprev h' = (lprev h)(t := lprev h e, e := t)"
  shows "circ h' (e # ys @ [t])"
proof -
  let ?l = "last (e # ys)"
  have c: "distinct (e # ys)" "NULL \<notin> set (e # ys)" "lnext h ?l = e" "lprev h e = ?l"
    "\<And>x y. (x, y) \<in> set (zip (butlast (e # ys)) ys) \<Longrightarrow> lnext h x = y \<and> lprev h y = x"
    using assms(1) by (auto simp: circ_Cons)
  have old: "lnext h' x = y \<and> lprev h' y = x" if "(x, y) \<in> set (zip (butlast (e # ys)) ys)" for x y
  proof -
    have xy: "x \<in> set (butlast (e # ys))" "y \<in> set ys" using that by (auto dest: set_zip_leftD set_zip_rightD)
    from xy(1) have "x \<in> set (e # ys)" by (rule in_set_butlastD)
    then have "x \<noteq> t" "y \<noteq> e" "y \<noteq> t" using xy(2) c(1) assms(2) by auto
    moreover have "x \<noteq> ?l" using butlast_not_last [OF _ xy(1)] c(1) by simp
    ultimately show ?thesis using c(5) [OF that] c(4) n p by simp
  qed
  have z: "zip (butlast (e # ys @ [t])) (ys @ [t]) = zip (butlast (e # ys)) ys @ [(?l, t)]"
    using zip_shift [of e ys t] by simp
  have "lnext h' ?l = t" "lprev h' t = ?l" "lnext h' t = e" "lprev h' e = t"
    using c(4) n p assms(2) by auto
  then show ?thesis using old c(1,2) assms(2,3) z by (auto simp: circ_Cons simp del: zip_append)
qed

lemma link_before_circ:
  assumes "circ h (a @ e # b)" "t \<notin> set (a @ e # b)" "t \<noteq> NULL"
  shows "circ (link_before e t h) (a @ t # e # b)" "circ (link_last e t h) (a @ t # e # b)"
proof -
  have c: "circ h (e # (b @ a))" using assms(1) circ_append [of h a "e # b"] by simp
  have ne: "e \<noteq> t" "lprev h e \<noteq> t" "t \<notin> set (e # (b @ a))"
    using assms(2) c last_in_set [of "e # b @ a"] by (auto simp: circ_Cons split: if_splits)
  have "circ (link_before e t h) (e # (b @ a) @ [t])"
    by (rule circ_link [OF c ne(3) assms(3)]) (use ne(1,2) in \<open>auto simp: link_before_def Let_def fun_eq_iff\<close>)
  moreover have "circ (link_last e t h) (e # (b @ a) @ [t])"
    by (rule circ_link [OF c ne(3) assms(3)]) (use ne(1,2) in \<open>auto simp: link_last_def Let_def fun_eq_iff\<close>)
  ultimately show "circ (link_before e t h) (a @ t # e # b)" "circ (link_last e t h) (a @ t # e # b)"
    using circ_append [of _ "a @ [t]" "e # b"] by simp_all
qed

lemma circ_single: "t \<noteq> NULL \<Longrightarrow> circ (h\<lparr>lnext := (lnext h)(t := t), lprev := (lprev h)(t := t)\<rparr>) [t]"
  by (simp add: circ_def)

lemma listAdd_clist:
  assumes "clist h lst xs" "t \<notin> set xs" "t \<noteq> NULL" "lib_listAdd lst t h = (lst', h')"
  shows "clist h' lst' (xs @ [t])"
proof (cases xs)
  case Nil
  then show ?thesis using assms circ_single [OF assms(3), of h] by (auto simp: clist_def lib_listAdd_def)
next
  case (Cons e ys)
  then have c: "circ h ([] @ e # ys)" and lst: "lst = e" "e \<noteq> NULL" using assms(1) by (auto simp: clist_def circ_def)
  have "e \<noteq> t" using assms(2) Cons by auto
  then have "lst' = e" "h' = link_last e t h"
    using assms(3,4) lst by (auto simp: lib_listAdd_def link_last_def Let_def)
  then show ?thesis
    using link_before_circ(2) [OF c _ assms(3)] assms(2) Cons circ_append [of "link_last e t h" "[t]" "e # ys"]
    by (simp add: clist_def)
qed

text \<open>Taking the first node out of a cycle of at least two.\<close>

lemma circ_unlink:
  assumes "circ h (t # e # ys)"
    and n: "lnext h' = (lnext h)(lprev h t := lnext h t, t := NULL)" and p: "lprev h' = (lprev h)(lnext h t := lprev h t, t := NULL)"
  shows "circ h' (e # ys)"
proof -
  let ?l = "last (e # ys)"
  have c: "distinct (t # e # ys)" "NULL \<notin> set (t # e # ys)" "lprev h t = ?l" "lnext h t = e"
    "\<And>x y. (x, y) \<in> set (zip (butlast (e # ys)) ys) \<Longrightarrow> lnext h x = y \<and> lprev h y = x"
    using assms(1) by (auto simp: circ_Cons split: if_splits)
  have l: "?l \<noteq> t" using c(1) last_in_set [of "e # ys"] by auto
  have "lnext h' x = y \<and> lprev h' y = x" if "(x, y) \<in> set (zip (butlast (e # ys)) ys)" for x y
  proof -
    have xy: "x \<in> set (butlast (e # ys))" "y \<in> set ys" using that by (auto dest: set_zip_leftD set_zip_rightD)
    from xy(1) have "x \<in> set (e # ys)" by (rule in_set_butlastD)
    then have "x \<noteq> t" "y \<noteq> e" "y \<noteq> t" using xy(2) c(1) by auto
    moreover have "x \<noteq> ?l" using butlast_not_last [OF _ xy(1)] c(1) by simp
    ultimately show ?thesis using c(3,4) c(5) [OF that] n p by simp
  qed
  moreover have "lnext h' ?l = e" "lprev h' e = ?l" using c(1,3,4) n p l by auto
  ultimately show ?thesis using c(1,2) by (auto simp: circ_Cons)
qed

lemma listRemove_clist:
  assumes "clist h lst (a @ t # b)" "lib_listRemove lst t h = (lst', h')"
  shows "clist h' lst' (a @ b)"
proof (cases "b @ a")
  case Nil
  then have "circ h [t]" using assms(1) by (simp add: clist_def)
  then have "lst' = NULL" using assms(2) by (auto simp: lib_listRemove_def circ_Cons)
  then show ?thesis using Nil by (simp add: clist_def)
next
  case (Cons e ys)
  have c: "circ h (t # e # ys)" and lst: "lst = hd (a @ [t])"
    using assms(1) circ_append [of h a "t # b"] Cons by (auto simp: clist_def hd_append)
  have nt: "t \<noteq> NULL" "lnext h t = e" "e \<noteq> t" "lprev h t \<noteq> t"
    using c last_in_set [of "e # ys"] by (auto simp: circ_Cons split: if_splits)
  have h': "lnext h' = (lnext h)(lprev h t := lnext h t, t := NULL)" "lprev h' = (lprev h)(lnext h t := lprev h t, t := NULL)"
    and lst': "lst' = (if t = lst then e else lst)"
    using assms(2) nt by (auto simp: lib_listRemove_def Let_def)
  have "circ h' (a @ b)" using circ_unlink [OF c h'] Cons circ_append [of h' b a] by simp
  moreover have "lst' = hd (a @ b)"
  proof (cases a)
    case Nil
    then show ?thesis using lst' lst Cons by simp
  next
    case (Cons x xs)
    then have "x \<noteq> t" using assms(1) by (auto simp: clist_def circ_def)
    then show ?thesis using lst' lst Cons by simp
  qed
  ultimately show ?thesis using Cons by (auto simp: clist_def)
qed

section \<open>Sorted insertion\<close>

definition insert_before :: "('a \<Rightarrow> 'b::linorder) \<Rightarrow> 'a \<Rightarrow> 'a list \<Rightarrow> 'a list" where
  "insert_before key x xs = takeWhile (\<lambda>y. \<not> key x < key y) xs @ x # dropWhile (\<lambda>y. \<not> key x < key y) xs"

lemma circ_next:
  assumes "circ h (a @ e # f # b)"
  shows "lnext h e = f"
proof -
  have "circ h (e # f # b @ a)" using assms circ_append [of h a "e # f # b"] by simp
  then show ?thesis by (auto simp: circ_Cons)
qed

lemma circ_next_last:
  assumes "circ h (a @ [e])"
  shows "lnext h e = hd (a @ [e])"
proof -
  have "circ h (e # a)" using assms circ_append [of h a "[e]"] by simp
  then show ?thesis by (cases a) (auto simp: circ_Cons)
qed

lemma sorted_search_circ:
  assumes "circ h (a @ e # b)" "list_all (\<lambda>y. \<not> start new < start y) a"
  shows "sorted_search start h (hd (a @ e # b)) new e =
    Some (case dropWhile (\<lambda>y. \<not> start new < start y) (a @ e # b) of [] \<Rightarrow> None | f # _ \<Rightarrow> Some f)"
  using assms
proof (induction b arbitrary: a e)
  case Nil
  then show ?case
    using circ_next_last [of h a e]
    by (subst sorted_search.simps) (auto simp: Let_def list_all_iff dropWhile_append split: list.splits)
next
  case (Cons f b)
  show ?case
  proof (cases "start new < start e")
    case True
    then show ?thesis
      using Cons.prems(2) by (subst sorted_search.simps) (auto simp: list_all_iff dropWhile_append)
  next
    case False
    have n: "lnext h e = f" using circ_next [OF Cons.prems(1)] .
    have "f \<noteq> hd (a @ e # f # b)" using Cons.prems(1) by (cases a) (auto simp: circ_def)
    moreover have "sorted_search start h (hd (a @ e # f # b)) new f =
        Some (case dropWhile (\<lambda>y. \<not> start new < start y) (a @ e # f # b) of [] \<Rightarrow> None | f # _ \<Rightarrow> Some f)"
      using Cons.IH [of "a @ [e]" f] Cons.prems False by simp
    ultimately show ?thesis
      using False n by (subst sorted_search.simps) (simp only: Let_def if_False simp_thms)
  qed
qed

lemma sortedInsert_clist:
  assumes "clist h entries xs" "new \<notin> set xs" "new \<noteq> NULL"
  shows "\<exists>p' h'. syspage_sortedInsert start entries new h = Some (p', h') \<and> clist h' p' (insert_before start new xs)"
proof (cases xs)
  case Nil
  then show ?thesis
    using assms circ_single [OF assms(3), of h] by (auto simp: clist_def syspage_sortedInsert_def insert_before_def)
next
  case (Cons x ys)
  let ?P = "\<lambda>y. \<not> start new < start y"
  have c: "circ h xs" "entries = x" "entries \<noteq> NULL" using assms(1) Cons by (auto simp: clist_def circ_def)
  have s: "sorted_search start h entries new entries = Some (case dropWhile ?P xs of [] \<Rightarrow> None | f # _ \<Rightarrow> Some f)"
    using sorted_search_circ [of h "[]" x ys start new] c Cons by simp
  show ?thesis
  proof (cases "dropWhile ?P xs")
    case N: Nil
    then have all: "takeWhile ?P xs = xs" by (simp add: takeWhile_eq_all_conv dropWhile_eq_Nil_conv)
    have "circ (link_last x new h) (new # x # ys)"
      using link_before_circ(2) [of h "[]" x ys new] c(1) assms(2,3) Cons by simp
    then have "circ (link_last x new h) (xs @ [new])" using Cons circ_append [of _ "[new]" xs] by simp
    then show ?thesis
      using s N all c Cons by (simp add: syspage_sortedInsert_def insert_before_def clist_def)
  next
    case D: (Cons e b)
    define a where "a = takeWhile ?P xs"
    have xs: "xs = a @ e # b" unfolding a_def using D takeWhile_dropWhile_id [of ?P xs] by simp
    have "circ (link_before e new h) (a @ new # e # b)"
      using link_before_circ(1) [of h a e b new] c(1) assms(2,3) xs by simp
    moreover have "(if e = entries then new else entries) = hd (a @ new # e # b)"
      using c(1,2) xs Cons by (cases a) (auto simp: circ_def)
    ultimately show ?thesis
      using s D c(3) by (simp add: syspage_sortedInsert_def insert_before_def clist_def a_def)
  qed
qed

lemma sorted_insert_before:
  assumes "sorted (map key xs)"
  shows "sorted (map key (insert_before key x xs))"
proof -
  let ?P = "\<lambda>y. \<not> key x < key y"
  have xs: "sorted (map key (takeWhile ?P xs @ dropWhile ?P xs))" using assms by simp
  have "\<forall>y\<in>set (takeWhile ?P xs). key y \<le> key x" by (auto dest: set_takeWhileD)
  moreover have "\<forall>y\<in>set (dropWhile ?P xs). key x \<le> key y"
  proof (cases "dropWhile ?P xs")
    case (Cons e b)
    then have "key x < key e" using hd_dropWhile [of ?P xs] by auto
    moreover have "\<forall>y\<in>set b. key e \<le> key y"
      using xs unfolding Cons by (auto simp: sorted_append)
    ultimately show ?thesis unfolding Cons by auto
  next
    case Nil
    then show ?thesis by (simp only: list.set) simp
  qed
  moreover note xs [unfolded map_append sorted_append]
  ultimately show ?thesis by (auto simp: insert_before_def sorted_append)
qed

lemma set_insert_before [simp]: "set (insert_before key x xs) = insert x (set xs)"
  unfolding insert_before_def using takeWhile_dropWhile_id [of _ xs] by (metis Un_insert_right list.simps(15) set_append)

section \<open>Properties\<close>

text \<open>
  On a circular doubly linked list, adding a node appends it to the sequence and removing a node deletes it from
  the sequence, head and both link fields of every node included; the list of one node becomes the empty list.
\<close>

theorem list_add_remove:
  assumes "clist h lst (a @ b)" "t \<notin> set (a @ b)" "t \<noteq> NULL"
  shows "(case lib_listAdd lst t h of (lst', h') \<Rightarrow> clist h' lst' (a @ b @ [t])) \<and>
    (\<forall>h lst. clist h lst (a @ t # b) \<longrightarrow> (case lib_listRemove lst t h of (lst', h') \<Rightarrow> clist h' lst' (a @ b)))"
  using listAdd_clist [OF assms] listRemove_clist by (auto split: prod.splits)

theorem list_add_remove_witness:
  "case lib_listAdd 8 24 \<lparr>lnext = (\<lambda>_. 0)(8 := 16, 16 := 8), lprev = (\<lambda>_. 0)(8 := 16, 16 := 8)\<rparr> of
     (lst', h') \<Rightarrow> clist h' lst' ([8] @ [16] @ [24])"
  by (rule list_add_remove [THEN conjunct1]) (simp_all add: clist_def circ_def NULL_def)

text \<open>
  C31: Sorted insertion into the circular list of a map's entries returns, puts the new node before the
  first node that starts behind it (at the end if there is none), updates the head when the new node becomes the
  first, and keeps a sorted list sorted.
\<close>

theorem sorted_insert_refines:
  assumes "clist h entries xs" "new \<notin> set xs" "new \<noteq> NULL" "sorted (map start xs)"
  shows "\<exists>p' h' ys. syspage_sortedInsert start entries new h = Some (p', h') \<and> clist h' p' ys \<and>
    ys = takeWhile (\<lambda>e. start e \<le> start new) xs @ new # dropWhile (\<lambda>e. start e \<le> start new) xs \<and> sorted (map start ys)"
  using sortedInsert_clist [OF assms(1-3), of start] sorted_insert_before [OF assms(4), of new]
  by (auto simp: insert_before_def not_less)

theorem sorted_insert_refines_witness:
  "\<exists>p' h'. syspage_sortedInsert id 8 12 \<lparr>lnext = (\<lambda>_. 0)(8 := 16, 16 := 8), lprev = (\<lambda>_. 0)(8 := 16, 16 := 8)\<rparr> = Some (p', h') \<and>
     clist h' p' [8, 12, 16]"
  using sorted_insert_refines [of "\<lparr>lnext = (\<lambda>_. 0)(8 := 16, 16 := 8), lprev = (\<lambda>_. 0)(8 := 16, 16 := 8)\<rparr>" 8 "[8, 16]" 12 id]
  by (auto simp: clist_def circ_def NULL_def)

end
