(* ===== verification/Syspage.thy ===== *)
theory Syspage
  imports Clist Hal_String
begin

text \<open>
  \<open>syspage.c\<close> and the memory functions of \<open>hal/aarch64/generic/hal.c\<close> it calls: the page with the memory maps and the
  programs that the loader hands to the kernel. The structures live in a heap from which they are cut off one after
  the other. The circular lists of maps, entries and programs are lists here, head first; \<open>Clist\<close> shows that the
  insertions of the C code on the linked structures are the insertions used below.

  The sizes of the structures and of a page and the attribute bits are defined by the kernel's headers, which are
  not part of the loader: they are the parameters \<open>sz\<close> and \<open>ab\<close>. The regions the loader itself occupies come
  from the linker: they are the parameter \<open>ld\<close>.
\<close>

datatype entry_type = hal_entryReserved | hal_entryAllocated | hal_entryTemp | hal_entryInvalid

record mapent_t =
  e_start :: addr_t
  e_end :: addr_t
  e_type :: entry_type

record syspage_map_t =
  m_name :: string
  m_start :: addr_t
  m_end :: addr_t
  m_attr :: u32
  m_id :: u8
  m_entries :: "mapent_t list"

record syspage_prog_t =
  p_argv :: string
  p_imaps :: "u8 list"
  p_dmaps :: "u8 list"
  p_imapSz :: size_t
  p_dmapSz :: size_t
  p_start :: addr_t
  p_end :: addr_t

record syspage_t =
  sp_base :: addr_t
  sp_heapTop :: addr_t
  sp_heapEnd :: addr_t
  sp_size :: size_t
  sp_pkernel :: addr_t
  sp_console :: u32
  sp_maps :: "syspage_map_t list"
  sp_progs :: "syspage_prog_t list"

record struct_sizes =
  sizeof_syspage :: size_t
  sizeof_map :: size_t
  sizeof_mapent :: size_t
  sizeof_prog :: size_t
  size_page :: u32

record attr_bits =
  mAttrRead :: u32
  mAttrWrite :: u32
  mAttrExec :: u32
  mAttrShareable :: u32
  mAttrCacheable :: u32
  mAttrBufferable :: u32

section \<open>The heap\<close>

text \<open>
  \<open>ALIGN_ADDR\<close> with a \<open>size_t\<close> alignment, and with an \<open>unsigned int\<close> one: there the mask \<open>~(align - 1)\<close> has 32 bits,
  and the conjunction clears the upper half of a 64-bit address.
\<close>

definition align_long :: "addr_t \<Rightarrow> addr_t" where
  "align_long a = (a + (8 - 1)) AND NOT (8 - 1)"

definition ALIGN_ADDR :: "addr_t \<Rightarrow> u32 \<Rightarrow> addr_t" where
  "ALIGN_ADDR a align = (if align \<noteq> 0 then (a + ucast (align - 1)) AND ucast (NOT (align - 1)) else a)"

definition syspage_init :: "struct_sizes \<Rightarrow> addr_t \<Rightarrow> addr_t \<Rightarrow> u32 \<Rightarrow> syspage_t \<Rightarrow> syspage_t" where
  "syspage_init sz heap_base heap_limit console_default sp =
     (let top = align_long (heap_base + sizeof_syspage sz)
      in sp\<lparr>sp_base := heap_base, sp_maps := [], sp_progs := [], sp_console := console_default,
            sp_heapTop := top, sp_heapEnd := heap_limit, sp_size := top - heap_base\<rparr>)"

definition syspage_alloc :: "size_t \<Rightarrow> syspage_t \<Rightarrow> addr_t option \<times> syspage_t" where
  "syspage_alloc siz sp =
     (let newTop = align_long (sp_heapTop sp + siz)
      in if newTop \<ge> sp_heapEnd sp then (None, sp)
         else (Some (sp_heapTop sp), sp\<lparr>sp_heapTop := newTop, sp_size := newTop - sp_base sp\<rparr>))"

definition syspage_kernelPAddrAdd :: "addr_t \<Rightarrow> syspage_t \<Rightarrow> syspage_t" where
  "syspage_kernelPAddrAdd address sp = sp\<lparr>sp_pkernel := address\<rparr>"

definition syspage_consoleSet :: "u32 \<Rightarrow> syspage_t \<Rightarrow> syspage_t" where
  "syspage_consoleSet i sp = sp\<lparr>sp_console := i\<rparr>"

section \<open>Attributes\<close>

definition syspage_etype2str :: "entry_type \<Rightarrow> string" where
  "syspage_etype2str t =
     (case t of hal_entryReserved \<Rightarrow> ''reserved'' | hal_entryAllocated \<Rightarrow> ''allocated''
      | hal_entryTemp \<Rightarrow> ''temp'' | hal_entryInvalid \<Rightarrow> ''invalid'')"

definition attr_of_char :: "attr_bits \<Rightarrow> char \<Rightarrow> u32 option" where
  "attr_of_char ab c =
     (if c = CHR ''r'' then Some (mAttrRead ab) else if c = CHR ''w'' then Some (mAttrWrite ab)
      else if c = CHR ''x'' then Some (mAttrExec ab) else if c = CHR ''s'' then Some (mAttrShareable ab)
      else if c = CHR ''c'' then Some (mAttrCacheable ab) else if c = CHR ''b'' then Some (mAttrBufferable ab)
      else None)"

fun strAttr_loop :: "attr_bits \<Rightarrow> string \<Rightarrow> u32 \<Rightarrow> errno + u32" where
  "strAttr_loop ab [] attr = Inr attr"
| "strAttr_loop ab (c # s) attr =
     (if c = NUL then Inr attr
      else case attr_of_char ab c of None \<Rightarrow> Inl EINVAL | Some b \<Rightarrow> strAttr_loop ab s (attr OR b))"

definition syspage_strAttr2ui :: "attr_bits \<Rightarrow> string \<Rightarrow> errno + u32" where
  "syspage_strAttr2ui ab str = strAttr_loop ab str 0"

text \<open>A \<open>switch\<close> over distinct bits: the case that equals the bit, if any.\<close>

definition char_of_attr :: "attr_bits \<Rightarrow> u32 \<Rightarrow> string" where
  "char_of_attr ab v =
     (if v = mAttrRead ab then ''r'' else if v = mAttrWrite ab then ''w'' else if v = mAttrExec ab then ''x''
      else if v = mAttrShareable ab then ''s'' else if v = mAttrCacheable ab then ''c''
      else if v = mAttrBufferable ab then ''b'' else '''')"

definition syspage_uiAttr2str :: "attr_bits \<Rightarrow> u32 \<Rightarrow> string" where
  "syspage_uiAttr2str ab attr = concat (map (\<lambda>i. char_of_attr ab (attr AND push_bit i 1)) [0..<32])"

section \<open>Regions of the loader\<close>

record linker =
  ld_hs :: addr_t
  ld_heap_limit :: addr_t
  ld_entries :: "mapent_t list"

text \<open>The entry of lowest start so far; \<open>None\<close> stands for the initial \<open>minEntry.start == -1\<close>.\<close>

definition hal_getMinOverlappedRange :: "addr_t \<Rightarrow> addr_t \<Rightarrow> mapent_t \<Rightarrow> mapent_t option \<Rightarrow> mapent_t option" where
  "hal_getMinOverlappedRange start ende entry minEntry =
     (if start < e_end entry \<and> ende > e_start entry then
        (let s = (if start > e_start entry then start else e_start entry);
             t = (if ende < e_end entry then ende else e_end entry)
         in if s < (case minEntry of None \<Rightarrow> -1 | Some m \<Rightarrow> e_start m)
            then Some \<lparr>e_start = s, e_end = t, e_type = e_type entry\<rparr> else minEntry)
      else minEntry)"

definition hal_memoryGetNextEntry :: "linker \<Rightarrow> addr_t \<Rightarrow> addr_t \<Rightarrow> mapent_t option" where
  "hal_memoryGetNextEntry ld start ende =
     (if start = ende then None
      else fold (\<lambda>e m. if e_start e \<ge> e_end e then m else hal_getMinOverlappedRange start ende e m) (ld_entries ld)
        (hal_getMinOverlappedRange start ende
           \<lparr>e_start = ld_hs ld, e_end = ld_heap_limit ld, e_type = hal_entryReserved\<rparr> None))"

definition hal_memoryAddMap :: "addr_t \<Rightarrow> addr_t \<Rightarrow> u32 \<Rightarrow> u8 \<Rightarrow> errno + unit" where
  "hal_memoryAddMap start ende attr mapId = Inr ()"

section \<open>Maps\<close>

text \<open>The index of the first map for which the condition of the loop holds.\<close>

fun map_index :: "(syspage_map_t \<Rightarrow> bool) \<Rightarrow> syspage_map_t list \<Rightarrow> nat option" where
  "map_index P [] = None"
| "map_index P (m # ms) = (if P m then Some 0 else map_option Suc (map_index P ms))"

definition syspage_mapGet :: "string \<Rightarrow> syspage_t \<Rightarrow> nat option" where
  "syspage_mapGet name sp = map_index (\<lambda>m. hal_strcmp name (m_name m) = 0) (sp_maps sp)"

definition entry_insert :: "nat \<Rightarrow> mapent_t \<Rightarrow> syspage_t \<Rightarrow> syspage_t" where
  "entry_insert i e sp =
     sp\<lparr>sp_maps := (sp_maps sp)[i := (sp_maps sp ! i)\<lparr>m_entries := insert_before e_start e (m_entries (sp_maps sp ! i))\<rparr>]\<rparr>"

text \<open>The entries the loader's own regions cause in the new map, number \<open>i\<close>.\<close>

partial_function (option) map_entries ::
  "struct_sizes \<Rightarrow> linker \<Rightarrow> nat \<Rightarrow> addr_t \<Rightarrow> addr_t \<Rightarrow> syspage_t \<Rightarrow> ((errno + unit) \<times> syspage_t) option" where
  "map_entries sz ld i start ende sp =
     (case hal_memoryGetNextEntry ld start ende of
        None \<Rightarrow> Some (Inr (), sp)
      | Some temp \<Rightarrow>
          (case syspage_alloc (sizeof_mapent sz) sp of
             (None, sp1) \<Rightarrow> Some (Inl ENOMEM, sp1)
           | (Some _, sp1) \<Rightarrow> map_entries sz ld i (e_end temp) ende (entry_insert i temp sp1)))"

definition syspage_mapAdd :: "struct_sizes \<Rightarrow> attr_bits \<Rightarrow> linker \<Rightarrow> string \<Rightarrow> addr_t \<Rightarrow> addr_t \<Rightarrow> string \<Rightarrow> syspage_t \<Rightarrow>
    ((errno + unit) \<times> syspage_t) option" where
  "syspage_mapAdd sz ab ld name start ende attr sp =
     (if list_ex (\<lambda>m. (m_start m < ende \<and> m_end m > start) \<or> hal_strcmp name (m_name m) = 0) (sp_maps sp)
      then Some (Inl EINVAL, sp)
      else case syspage_alloc (sizeof_map sz) sp of
          (None, sp1) \<Rightarrow> Some (Inl ENOMEM, sp1)
        | (Some _, sp1) \<Rightarrow>
          (case syspage_alloc (of_nat (hal_strlen name + 1)) sp1 of
             (None, sp2) \<Rightarrow> Some (Inl ENOMEM, sp2)
           | (Some _, sp2) \<Rightarrow>
             (case syspage_strAttr2ui ab attr of
                Inl e \<Rightarrow> Some (Inl e, sp2)
              | Inr iattr \<Rightarrow>
                  let i = length (sp_maps sp2);
                      mapid = (if i = 0 then 0 else m_id (last (sp_maps sp2)) + 1);
                      m = \<lparr>m_name = cstr name, m_start = start, m_end = ende, m_attr = iattr, m_id = mapid, m_entries = []\<rparr>
                  in (case map_entries sz ld i start ende (sp2\<lparr>sp_maps := sp_maps sp2 @ [m]\<rparr>) of
                        None \<Rightarrow> None
                      | Some (Inl e, sp3) \<Rightarrow> Some (Inl e, sp3)
                      | Some (Inr _, sp3) \<Rightarrow> Some (hal_memoryAddMap start ende iattr mapid, sp3)))))"

text \<open>\<open>syspage_bestFit\<close>: the state of the loop is \<open>tempStart\<close>, \<open>bestStart\<close> and \<open>bestSz\<close>.\<close>

definition better :: "size_t \<Rightarrow> addr_t \<Rightarrow> size_t \<Rightarrow> addr_t \<times> size_t \<Rightarrow> addr_t \<times> size_t" where
  "better siz tempStart tempSz best =
     (if tempSz < snd best \<and> tempSz \<ge> siz then (tempStart, tempSz) else best)"

fun fit_loop :: "size_t \<Rightarrow> u32 \<Rightarrow> mapent_t list \<Rightarrow> addr_t \<Rightarrow> addr_t \<times> size_t \<Rightarrow> addr_t \<times> size_t" where
  "fit_loop siz align [] tempStart best = best"
| "fit_loop siz align (e # es) tempStart best =
     fit_loop siz align es (ALIGN_ADDR (e_end e) align)
       (if \<not> (e_start e < tempStart + siz \<and> e_end e > tempStart) then better siz tempStart (e_start e - tempStart) best
        else best)"

definition syspage_bestFit :: "syspage_map_t \<Rightarrow> size_t \<Rightarrow> u32 \<Rightarrow> errno + addr_t" where
  "syspage_bestFit m siz align =
     (let tempStart = ALIGN_ADDR (m_start m) align in
      if m_entries m = [] then Inr tempStart
      else
        let best = fit_loop siz align (m_entries m) tempStart (-1, -1);
            afterLast = ALIGN_ADDR (e_end (last (m_entries m))) align;
            (bestStart, bestSz) = better siz afterLast (m_end m - afterLast) best
        in if bestSz = -1 \<or> bestStart = -1 then Inl EFAULT else Inr bestStart)"

definition entry_overlaps :: "addr_t \<Rightarrow> size_t \<Rightarrow> mapent_t \<Rightarrow> bool" where
  "entry_overlaps start siz e \<longleftrightarrow> e_start e < start + siz \<and> e_end e > start"

definition syspage_entryAdd :: "struct_sizes \<Rightarrow> string option \<Rightarrow> addr_t \<Rightarrow> size_t \<Rightarrow> u32 \<Rightarrow> syspage_t \<Rightarrow>
    mapent_t option \<times> syspage_t" where
  "syspage_entryAdd sz mapName start siz align sp =
     (let found = (case mapName of
            None \<Rightarrow> map_index (\<lambda>m. m_start m \<le> start \<and> m_end m \<ge> start + siz) (sp_maps sp)
          | Some name \<Rightarrow> syspage_mapGet name sp)
      in case found of
           None \<Rightarrow> (None, sp)
         | Some i \<Rightarrow>
             let m = sp_maps sp ! i;
                 place = (if mapName \<noteq> None \<and> start = -1 then
                     (case syspage_bestFit m siz align of Inl _ \<Rightarrow> None | Inr s \<Rightarrow> Some s)
                   else
                     let s = ALIGN_ADDR (if mapName = None then start else m_start m + start) align
                     in if list_ex (entry_overlaps s siz) (m_entries m) then None else Some s)
             in case place of
                  None \<Rightarrow> (None, sp)
                | Some s \<Rightarrow>
                    (case syspage_alloc (sizeof_mapent sz) sp of
                       (None, sp1) \<Rightarrow> (None, sp1)
                     | (Some _, sp1) \<Rightarrow>
                         let e = \<lparr>e_start = s, e_end = s + siz, e_type = hal_entryAllocated\<rparr>
                         in (Some e, entry_insert i e sp1)))"

definition syspage_mapAttrResolve :: "string \<Rightarrow> syspage_t \<Rightarrow> errno + u32" where
  "syspage_mapAttrResolve name sp =
     (case syspage_mapGet name sp of None \<Rightarrow> Inl EINVAL | Some i \<Rightarrow> Inr (m_attr (sp_maps sp ! i)))"

definition syspage_mapNameResolve :: "string \<Rightarrow> syspage_t \<Rightarrow> errno + u8" where
  "syspage_mapNameResolve name sp =
     (case syspage_mapGet name sp of None \<Rightarrow> Inl EINVAL | Some i \<Rightarrow> Inr (m_id (sp_maps sp ! i)))"

definition syspage_mapRangeResolve :: "string \<Rightarrow> syspage_t \<Rightarrow> errno + addr_t \<times> addr_t" where
  "syspage_mapRangeResolve name sp =
     (case syspage_mapGet name sp of None \<Rightarrow> Inl EINVAL | Some i \<Rightarrow> Inr (m_start (sp_maps sp ! i), m_end (sp_maps sp ! i)))"

definition syspage_mapRangeCheck :: "addr_t \<Rightarrow> addr_t \<Rightarrow> syspage_t \<Rightarrow> u32 option" where
  "syspage_mapRangeCheck start ende sp =
     map_option (\<lambda>i. m_attr (sp_maps sp ! i)) (map_index (\<lambda>m. m_start m \<le> start \<and> ende < m_end m) (sp_maps sp))"

definition syspage_mapName :: "u8 \<Rightarrow> syspage_t \<Rightarrow> string option" where
  "syspage_mapName i sp = map_option (\<lambda>k. m_name (sp_maps sp ! k)) (map_index (\<lambda>m. m_id m = i) (sp_maps sp))"

section \<open>Programs\<close>

definition flagSyspageExec :: u32 where "flagSyspageExec = 1"
definition flagSyspageNoCopy :: u32 where "flagSyspageNoCopy = 2"

text \<open>
  \<open>prog0\<close> is what the heap held where the new structure lies. The result tells whether the program was
  added, at the end of the list.
\<close>

definition syspage_progAdd :: "struct_sizes \<Rightarrow> syspage_prog_t \<Rightarrow> string \<Rightarrow> u32 \<Rightarrow> syspage_t \<Rightarrow> bool \<times> syspage_t" where
  "syspage_progAdd sz prog0 argv flags sp =
     (let isExec = (flags AND flagSyspageExec \<noteq> 0);
          siz = (if isExec then 1 else 0) + hal_strlen argv + 1
      in case syspage_alloc (sizeof_prog sz) sp of
           (None, sp1) \<Rightarrow> (False, sp1)
         | (Some _, sp1) \<Rightarrow>
             (case syspage_alloc (of_nat siz) sp1 of
                (None, sp2) \<Rightarrow> (False, sp2)
              | (Some _, sp2) \<Rightarrow>
                  (True, sp2\<lparr>sp_progs := sp_progs sp2 @
                     [prog0\<lparr>p_argv := (if isExec then ''X'' else '''') @ cstr argv, p_dmaps := [], p_imaps := []\<rparr>]\<rparr>)))"

definition prog_name :: "syspage_prog_t \<Rightarrow> string" where
  "prog_name p = (if chr_at (p_argv p) 0 = CHR ''X'' then drop 1 (p_argv p) else p_argv p)"

definition syspage_progAllocateAndAdd :: "struct_sizes \<Rightarrow> syspage_prog_t \<Rightarrow> string \<Rightarrow> size_t \<Rightarrow> string \<Rightarrow> u32 \<Rightarrow> bool \<Rightarrow>
    syspage_t \<Rightarrow> addr_t option \<times> syspage_t" where
  "syspage_progAllocateAndAdd sz prog0 mapName siz argv flags allowOverwrite sp =
     (if \<not> allowOverwrite \<and> list_ex (\<lambda>p. hal_strcmp argv (prog_name p) = 0) (sp_progs sp) then (None, sp)
      else case syspage_entryAdd sz (Some mapName) (-1) siz (size_page sz) sp of
          (None, sp1) \<Rightarrow> (None, sp1)
        | (Some e, sp1) \<Rightarrow>
            (case syspage_progAdd sz prog0 argv flags sp1 of
               (False, sp2) \<Rightarrow> (None, sp2)
             | (True, sp2) \<Rightarrow>
                 (Some (e_start e),
                  sp2\<lparr>sp_progs := butlast (sp_progs sp2) @
                    [(last (sp_progs sp2))\<lparr>p_imaps := [], p_imapSz := 0, p_dmaps := [], p_dmapSz := 0,
                       p_start := e_start e, p_end := e_end e\<rparr>]\<rparr>)))"

section \<open>Allocation\<close>

lemma unat_align_long:
  assumes "unat a + 7 < 2 ^ 64"
  shows "unat (align_long a) = 8 * ((unat a + 7) div 8)"
proof -
  have s: "unat (a + 7) = unat a + 7" using assms unat_plus_small [of a 7] by simp
  have "align_long a = (a + 7) - take_bit 3 (a + 7)"
    using and_not_mask [of "a + 7" 3] by (simp add: align_long_def mask_numeral)
  moreover have "take_bit 3 (a + 7) \<le> a + 7" by (simp add: word_le_nat_alt unsigned_take_bit_eq take_bit_nat_less_eq_self)
  ultimately have "unat (align_long a) = (unat a + 7) - (unat a + 7) mod 8"
    by (simp add: unat_minus_small unsigned_take_bit_eq s take_bit_eq_mod unat_mod_word)
  then show ?thesis by (simp add: minus_mod_eq_mult_div)
qed

text \<open>A heap that lies far from the end of the address space and sizes that fit into it.\<close>

definition heap_ok :: "syspage_t \<Rightarrow> bool" where
  "heap_ok sp \<longleftrightarrow> 8 dvd unat (sp_heapTop sp) \<and> unat (sp_base sp) \<le> unat (sp_heapTop sp) \<and>
     unat (sp_heapTop sp) \<le> unat (sp_heapEnd sp) \<and> unat (sp_heapEnd sp) < 2 ^ 63"

lemma syspage_alloc_law:
  assumes "heap_ok sp" "unat siz < 2 ^ 62" "syspage_alloc siz sp = (r, sp')"
  shows "heap_ok sp'" "sp_maps sp' = sp_maps sp" "sp_progs sp' = sp_progs sp" "sp_base sp' = sp_base sp" "sp_heapEnd sp' = sp_heapEnd sp"
    "r = None \<Longrightarrow> sp' = sp"
    "r = Some a \<Longrightarrow> a = sp_heapTop sp \<and> unat a + unat siz \<le> unat (sp_heapTop sp') \<and> unat (sp_heapTop sp') < unat (sp_heapEnd sp) \<and>
       unat (sp_size sp') = unat (sp_heapTop sp') - unat (sp_base sp)"
proof -
  have b: "unat (sp_heapTop sp) + unat siz + 7 < 2 ^ 64" using assms(1,2) by (simp add: heap_ok_def)
  then have u: "unat (sp_heapTop sp + siz) = unat (sp_heapTop sp) + unat siz" by (intro unat_plus_small) simp
  have t: "unat (align_long (sp_heapTop sp + siz)) = 8 * ((unat (sp_heapTop sp) + unat siz + 7) div 8)"
    using b u unat_align_long [of "sp_heapTop sp + siz"] by simp
  then have le: "unat (sp_heapTop sp) + unat siz \<le> unat (align_long (sp_heapTop sp + siz))"
      "8 dvd unat (align_long (sp_heapTop sp + siz))" by simp_all
  have "heap_ok sp' \<and> (\<forall>a. r = Some a \<longrightarrow> a = sp_heapTop sp \<and> unat a + unat siz \<le> unat (sp_heapTop sp') \<and>
      unat (sp_heapTop sp') < unat (sp_heapEnd sp) \<and> unat (sp_size sp') = unat (sp_heapTop sp') - unat (sp_base sp))"
  proof (cases "align_long (sp_heapTop sp + siz) \<ge> sp_heapEnd sp")
    case True
    then show ?thesis using assms(1,3) by (auto simp: syspage_alloc_def Let_def)
  next
    case False
    then show ?thesis
      using assms(1,3) le by (auto simp: syspage_alloc_def Let_def heap_ok_def word_le_nat_alt unat_minus_small)
  qed
  then show "heap_ok sp'" "r = Some a \<Longrightarrow> a = sp_heapTop sp \<and> unat a + unat siz \<le> unat (sp_heapTop sp') \<and>
      unat (sp_heapTop sp') < unat (sp_heapEnd sp) \<and> unat (sp_size sp') = unat (sp_heapTop sp') - unat (sp_base sp)" by auto
qed (use assms(3) in \<open>auto simp: syspage_alloc_def Let_def split: if_splits\<close>)

text \<open>A sequence of allocations and the blocks it returns.\<close>

fun alloc_run :: "size_t list \<Rightarrow> syspage_t \<Rightarrow> (addr_t \<times> size_t) list \<times> syspage_t" where
  "alloc_run [] sp = ([], sp)"
| "alloc_run (s # ss) sp =
     (case syspage_alloc s sp of
        (None, sp1) \<Rightarrow> alloc_run ss sp1
      | (Some a, sp1) \<Rightarrow> (case alloc_run ss sp1 of (bs, sp2) \<Rightarrow> ((a, s) # bs, sp2)))"

lemma alloc_run_blocks:
  "heap_ok sp \<Longrightarrow> list_all (\<lambda>s. unat s < 2 ^ 62) ss \<Longrightarrow> alloc_run ss sp = (bs, sp') \<Longrightarrow>
   heap_ok sp' \<and> unat (sp_heapTop sp) \<le> unat (sp_heapTop sp') \<and> sp_heapEnd sp' = sp_heapEnd sp \<and>
   (\<forall>(a, s)\<in>set bs. unat (sp_heapTop sp) \<le> unat a \<and> 8 dvd unat a \<and> unat a + unat s \<le> unat (sp_heapTop sp')) \<and>
   sorted_wrt (\<lambda>(a, s) (b, _). unat a + unat s \<le> unat b) bs"
proof (induction ss arbitrary: sp bs)
  case (Cons s ss)
  have s: "unat s < 2 ^ 62" using Cons.prems(2) by simp
  obtain r sp1 where r: "syspage_alloc s sp = (r, sp1)" by force
  note law = syspage_alloc_law [OF Cons.prems(1) s r]
  have ss: "list_all (\<lambda>s. unat s < 2 ^ 62) ss" using Cons.prems(2) by simp
  show ?case
  proof (cases r)
    case None
    then show ?thesis using Cons.IH [OF Cons.prems(1) ss, of bs] Cons.prems(3) r law(6) by simp
  next
    case (Some a)
    obtain bs' where bs': "alloc_run ss sp1 = (bs', sp')" "bs = (a, s) # bs'"
      using Cons.prems(3) r Some by (auto split: prod.splits)
    have h: "8 dvd unat (sp_heapTop sp)" using Cons.prems(1) by (simp add: heap_ok_def)
    show ?thesis
      using Cons.IH [OF law(1) ss bs'(1)] law(5) law(7) [of a] Some bs'(2) h by fastforce
  qed
qed simp

section \<open>Entries\<close>

text \<open>Entries in ascending order that do not overlap.\<close>

definition entries_ok :: "mapent_t list \<Rightarrow> bool" where
  "entries_ok es \<longleftrightarrow> list_all (\<lambda>e. e_start e \<le> e_end e) es \<and> sorted_wrt (\<lambda>e f. e_end e \<le> e_start f) es"

lemma entries_ok_simps [simp]: "entries_ok []"
  "entries_ok (e # es) \<longleftrightarrow> e_start e \<le> e_end e \<and> (\<forall>f\<in>set es. e_end e \<le> e_start f) \<and> entries_ok es"
  by (auto simp: entries_ok_def)

lemma entries_ok_append:
  "entries_ok (xs @ ys) \<longleftrightarrow> entries_ok xs \<and> entries_ok ys \<and> (\<forall>e\<in>set xs. \<forall>f\<in>set ys. e_end e \<le> e_start f)"
  by (auto simp: entries_ok_def sorted_wrt_append)

lemma insert_entry_ok:
  assumes "entries_ok es" "e_start x < e_end x"
    and free: "\<And>e. e \<in> set es \<Longrightarrow> \<not> (e_start e < e_end x \<and> e_end e > e_start x)"
  shows "entries_ok (insert_before e_start x es)"
proof -
  let ?P = "\<lambda>y. \<not> e_start x < e_start y"
  define a b where "a = takeWhile ?P es" and "b = dropWhile ?P es"
  have es: "es = a @ b" by (simp add: a_def b_def)
  then have ok: "entries_ok a" "entries_ok b" "\<forall>e\<in>set a. \<forall>f\<in>set b. e_end e \<le> e_start f"
    using assms(1) by (simp_all add: entries_ok_append)
  have below: "e_end e \<le> e_start x" if "e \<in> set a" for e
  proof -
    have "e_start e \<le> e_start x" using that by (auto simp: a_def dest!: set_takeWhileD)
    then show ?thesis using free [of e] that es assms(2) by fastforce
  qed
  have above: "e_end x \<le> e_start e" if "e \<in> set b" for e
  proof (cases b)
    case (Cons f c)
    have "e_start x < e_start f" using Cons by (auto simp: b_def dropWhile_eq_Cons_conv)
    moreover have "e_start f \<le> e_start e" "e_start e \<le> e_end e"
      using ok(2) that Cons by (auto simp: entries_ok_def list_all_iff)
    ultimately show ?thesis using free [of e] that es by fastforce
  qed (use that in simp)
  show ?thesis
    using ok below above assms(2) by (auto simp: insert_before_def entries_ok_append a_def [symmetric] b_def [symmetric])
qed

section \<open>Alignment\<close>

definition is_align :: "u32 \<Rightarrow> bool" where
  "is_align align \<longleftrightarrow> align = 0 \<or> (\<exists>k<32. align = 2 ^ k)"

definition granule :: "u32 \<Rightarrow> nat" where
  "granule align = (if align = 0 then 1 else unat align)"

lemma granule_pos [simp]: "0 < granule align"
  by (simp add: granule_def unat_gt_0)

lemma and_low_mask:
  assumes "unat (x::addr_t) < 2 ^ 32"
  shows "x AND ucast (NOT (mask k :: u32)) = x - take_bit k x"
proof -
  have "take_bit 32 x = x"
    using assms by (intro word_unat_eq_iff [THEN iffD2]) (simp add: unsigned_take_bit_eq take_bit_nat_eq_self)
  then have low: "bit x n \<Longrightarrow> n < 32" for n by (metis bit_take_bit_iff)
  have "x AND ucast (NOT (mask k :: u32)) = x AND NOT (mask k)"
    by (rule bit_word_eqI) (auto simp: bit_simps dest: low)
  then show ?thesis by (simp add: and_not_mask)
qed

lemma unat_pow2:
  assumes "k < 32"
  shows "unat (2 ^ k :: u32) = 2 ^ k"
proof -
  have "(2 ^ k :: nat) < 2 ^ LENGTH(32)" using assms by (intro power_strict_increasing) simp_all
  from unat_of_nat_small [OF this] show ?thesis by simp
qed

lemma unat_ALIGN_ADDR:
  assumes "is_align align" "unat a + granule align \<le> 2 ^ 32"
  shows "unat (ALIGN_ADDR a align) = granule align * ((unat a + granule align - 1) div granule align)"
proof (cases "align = 0")
  case True
  then show ?thesis by (simp add: ALIGN_ADDR_def granule_def)
next
  case False
  then obtain k where k: "k < 32" "align = 2 ^ k" using assms(1) by (auto simp: is_align_def)
  have g: "granule align = 2 ^ k" using k False by (simp add: granule_def unat_pow2)
  have m: "align - 1 = mask k" using k(2) by (simp add: mask_eq_exp_minus_1)
  have um: "unat (ucast (align - 1) :: addr_t) = 2 ^ k - 1"
  proof -
    have "unat (align - 1) = 2 ^ k - 1"
      using k unat_pow2 [OF k(1)] by (subst unat_minus_small) (auto simp: word_le_nat_alt)
    then show ?thesis using unat_less_exp [of "align - 1"] by (simp add: unsigned_ucast_eq take_bit_nat_eq_self)
  qed
  let ?x = "a + ucast (align - 1)"
  have x: "unat ?x = unat a + 2 ^ k - 1"
    using assms(2) g um by (subst unat_plus_small) auto
  then have x32: "unat ?x < 2 ^ 32" using assms(2) g by simp
  have "ALIGN_ADDR a align = ?x - take_bit k ?x"
    using False and_low_mask [OF x32, of k] by (simp add: ALIGN_ADDR_def m)
  moreover have "take_bit k ?x \<le> ?x" by (simp add: word_le_nat_alt unsigned_take_bit_eq take_bit_nat_less_eq_self)
  moreover have "unat (take_bit k ?x) = unat ?x mod 2 ^ k"
    unfolding unsigned_take_bit_eq by (rule take_bit_eq_mod)
  ultimately have "unat (ALIGN_ADDR a align) = unat ?x - unat ?x mod 2 ^ k" by (simp add: unat_minus_small)
  then show ?thesis unfolding x g by (simp only: minus_mod_eq_mult_div)
qed

lemma ALIGN_ADDR_least:
  assumes "is_align align" "unat a + granule align \<le> 2 ^ 32"
  shows "unat a \<le> unat (ALIGN_ADDR a align)" "granule align dvd unat (ALIGN_ADDR a align)"
    "granule align dvd n \<Longrightarrow> unat a \<le> n \<Longrightarrow> unat (ALIGN_ADDR a align) \<le> n"
    "unat (ALIGN_ADDR a align) < unat a + granule align"
proof -
  let ?g = "granule align" and ?q = "(unat a + granule align - 1) div granule align"
  note u = unat_ALIGN_ADDR [OF assms]
  have g: "0 < ?g" by simp
  have r: "?g * ?q + (unat a + ?g - 1) mod ?g = unat a + ?g - 1" "(unat a + ?g - 1) mod ?g < ?g" using g by simp_all
  show "unat a \<le> unat (ALIGN_ADDR a align)" "unat (ALIGN_ADDR a align) < unat a + ?g" unfolding u using r g by arith+
  show "?g dvd unat (ALIGN_ADDR a align)" unfolding u by simp
  show "unat (ALIGN_ADDR a align) \<le> n" if n: "?g dvd n" "unat a \<le> n"
  proof -
    obtain j where j: "n = ?g * j" using n(1) by (auto simp: dvd_def)
    have "unat a + ?g - 1 < ?g * (j + 1)" unfolding distrib_left mult_1_right using n(2) j g by linarith
    then have "?q < j + 1" using g by (simp add: less_mult_imp_div_less mult.commute)
    then show ?thesis unfolding u j by simp
  qed
qed

section \<open>The gaps of a map\<close>

text \<open>The aligned start and the end of the room before each entry and after the last one.\<close>

fun gaps :: "u32 \<Rightarrow> addr_t \<Rightarrow> mapent_t list \<Rightarrow> addr_t \<Rightarrow> (addr_t \<times> addr_t) list" where
  "gaps align T [] mend = [(T, mend)]"
| "gaps align T (e # es) mend = (T, e_start e) # gaps align (ALIGN_ADDR (e_end e) align) es mend"

definition best_of :: "size_t \<Rightarrow> (addr_t \<times> addr_t) list \<Rightarrow> addr_t \<times> size_t \<Rightarrow> addr_t \<times> size_t" where
  "best_of siz gs best = fold (\<lambda>(t, g). better siz t (g - t)) gs best"

lemma best_of_Cons [simp]: "best_of siz ((t, g) # gs) best = best_of siz gs (better siz t (g - t) best)"
  by (simp add: best_of_def)

lemma best_of_Nil [simp]: "best_of siz [] best = best"
  by (simp add: best_of_def)

lemma best_of_spec:
  assumes "best_of siz gs best = r"
  shows "(r = best \<or> (\<exists>(t, g)\<in>set gs. r = (t, g - t) \<and> siz \<le> g - t)) \<and> snd r \<le> snd best \<and>
    (\<forall>(t, g)\<in>set gs. siz \<le> g - t \<longrightarrow> snd r \<le> g - t)"
  using assms
proof (induction gs arbitrary: best)
  case (Cons p gs)
  obtain t g where p: "p = (t, g)" by force
  show ?case
    using Cons.IH [of "better siz t (g - t) best"] Cons.prems p
    by (auto simp: better_def split: if_splits)
qed simp

lemma better_overlap:
  assumes "T \<le> e_start e" "e_start e < T + siz" "unat T + unat siz < 2 ^ 64"
  shows "better siz T (e_start e - T) best = best"
proof -
  have "unat (e_start e - T) < unat siz"
    using assms by (simp add: unat_minus_small word_less_nat_alt word_le_nat_alt unat_plus_small)
  then show ?thesis by (simp add: better_def word_le_nat_alt)
qed

lemma fit_loop_gaps:
  assumes "\<And>t g. (t, g) \<in> set (gaps align T es mend) \<Longrightarrow> t \<le> g \<and> unat t + unat siz < 2 ^ 64"
  shows "best_of siz (gaps align T es mend) best =
    (let L = (if es = [] then T else ALIGN_ADDR (e_end (last es)) align)
     in better siz L (mend - L) (fit_loop siz align es T best))"
  using assms
proof (induction es arbitrary: T best)
  case (Cons e es)
  have T: "T \<le> e_start e" "unat T + unat siz < 2 ^ 64" using Cons.prems [of T "e_start e"] by auto
  let ?b = "better siz T (e_start e - T) best"
  have "(if \<not> (e_start e < T + siz \<and> e_end e > T) then ?b else best) = ?b"
    using better_overlap [of T e siz best] T by auto
  then have fit: "fit_loop siz align (e # es) T best = fit_loop siz align es (ALIGN_ADDR (e_end e) align) ?b"
    by simp
  have "t \<le> g \<and> unat t + unat siz < 2 ^ 64" if "(t, g) \<in> set (gaps align (ALIGN_ADDR (e_end e) align) es mend)" for t g
    using Cons.prems [of t g] that by simp
  note IH = Cons.IH [OF this, where best = ?b]
  show ?case unfolding fit using IH by (simp add: Let_def)
qed (simp add: Let_def)

text \<open>A map as the allocations keep it: entries in order and inside the map, entries and the end of the map aligned.\<close>

definition map_good :: "u32 \<Rightarrow> addr_t \<Rightarrow> addr_t \<Rightarrow> mapent_t list \<Rightarrow> bool" where
  "map_good align lo mend es \<longleftrightarrow> is_align align \<and> entries_ok es \<and> unat lo \<le> unat mend \<and>
     (\<forall>e\<in>set es. lo \<le> e_start e \<and> e_end e \<le> mend \<and> granule align dvd unat (e_start e)) \<and>
     granule align dvd unat mend \<and> unat mend + granule align \<le> 2 ^ 32"

lemma map_good_tail:
  assumes "map_good align T mend (e # es)"
  shows "map_good align (ALIGN_ADDR (e_end e) align) mend es" "e_end e \<le> ALIGN_ADDR (e_end e) align"
proof -
  have al: "is_align align" and b: "unat (e_end e) + granule align \<le> 2 ^ 32" "e_end e \<le> mend"
    using assms by (auto simp: map_good_def word_le_nat_alt)
  note A = ALIGN_ADDR_least [OF al b(1)]
  show "e_end e \<le> ALIGN_ADDR (e_end e) align" using A(1) by (simp add: word_le_nat_alt)
  have "ALIGN_ADDR (e_end e) align \<le> e_start f" if "f \<in> set es" for f
    using assms that A(3) by (auto simp: map_good_def word_le_nat_alt)
  moreover have "unat (ALIGN_ADDR (e_end e) align) \<le> unat mend"
    using assms b(2) by (intro A(3)) (auto simp: map_good_def word_le_nat_alt)
  ultimately show "map_good align (ALIGN_ADDR (e_end e) align) mend es"
    using assms by (auto simp: map_good_def)
qed

lemma gaps_sound:
  assumes "map_good align T mend es" "granule align dvd unat T" "(t, g) \<in> set (gaps align T es mend)"
  shows "granule align dvd unat t \<and> T \<le> t \<and> t \<le> g \<and> g \<le> mend \<and> (\<forall>e\<in>set es. e_end e \<le> t \<or> g \<le> e_start e)"
  using assms
proof (induction es arbitrary: T)
  case Nil
  then show ?case by (auto simp: map_good_def word_le_nat_alt)
next
  case (Cons e es)
  let ?A = "ALIGN_ADDR (e_end e) align"
  have ok: "T \<le> e_start e" "e_start e \<le> e_end e" "e_end e \<le> mend" "\<forall>f\<in>set es. e_end e \<le> e_start f"
    using Cons.prems(1) by (auto simp: map_good_def)
  have "is_align align" "unat (e_end e) + granule align \<le> 2 ^ 32"
    using Cons.prems(1) by (auto simp: map_good_def word_le_nat_alt)
  note A = ALIGN_ADDR_least(2) [OF this] map_good_tail [OF Cons.prems(1)]
  consider "t = T" "g = e_start e" | "(t, g) \<in> set (gaps align ?A es mend)" using Cons.prems(3) by auto
  then show ?case
  proof cases
    case 1
    then show ?thesis using ok Cons.prems(2) by fastforce
  next
    case 2
    note IH = Cons.IH [OF A(2) A(1) 2]
    then show ?thesis using ok A(3) by (auto intro: order_trans)
  qed
qed

lemma gaps_complete:
  assumes "map_good align T mend es" "granule align dvd unat s" "T \<le> s" "s \<le> u" "u \<le> mend" "s < u"
    and free: "\<And>e. e \<in> set es \<Longrightarrow> \<not> (e_start e < u \<and> e_end e > s)"
  shows "\<exists>(t, g)\<in>set (gaps align T es mend). t \<le> s \<and> u \<le> g"
  using assms
proof (induction es arbitrary: T)
  case (Cons e es)
  let ?A = "ALIGN_ADDR (e_end e) align"
  show ?case
  proof (cases "u \<le> e_start e")
    case True
    then show ?thesis using Cons.prems(3) by auto
  next
    case False
    then have le: "e_end e \<le> s" using Cons.prems(7) [of e] by auto
    have "is_align align" "unat (e_end e) + granule align \<le> 2 ^ 32"
      using Cons.prems(1) by (auto simp: map_good_def word_le_nat_alt)
    then have "?A \<le> s" using ALIGN_ADDR_least(3) Cons.prems(2) le by (simp add: word_le_nat_alt)
    then have "\<exists>(t, g)\<in>set (gaps align ?A es mend). t \<le> s \<and> u \<le> g"
      using Cons.prems by (intro Cons.IH [OF map_good_tail(1) [OF Cons.prems(1)]]) auto
    then show ?thesis by auto
  qed
qed auto

lemma map_good_end: "map_good align lo mend es \<Longrightarrow> unat mend < 2 ^ 32"
  unfolding map_good_def using granule_pos [of align] by linarith

lemma map_good_start:
  assumes "map_good align lo mend es"
  shows "map_good align (ALIGN_ADDR lo align) mend es" "granule align dvd unat (ALIGN_ADDR lo align)" "lo \<le> ALIGN_ADDR lo align"
proof -
  have al: "is_align align" and b: "unat lo + granule align \<le> 2 ^ 32" using assms by (auto simp: map_good_def)
  note A = ALIGN_ADDR_least [OF al b]
  show "granule align dvd unat (ALIGN_ADDR lo align)" "lo \<le> ALIGN_ADDR lo align" using A by (simp_all add: word_le_nat_alt)
  have "unat (ALIGN_ADDR lo align) \<le> unat mend" "\<forall>e\<in>set es. ALIGN_ADDR lo align \<le> e_start e"
    using assms A(3) by (auto simp: map_good_def word_le_nat_alt)
  then show "map_good align (ALIGN_ADDR lo align) mend es" using assms by (auto simp: map_good_def)
qed

lemma minus_one_max: "(x::addr_t) \<noteq> -1 \<longleftrightarrow> x < -1"
  by (metis word_order.not_eq_extremum)

text \<open>\<open>syspage_bestFit\<close> picks the smallest gap that is large enough.\<close>

lemma bestFit_best_of:
  assumes g: "map_good align (m_start m) (m_end m) (m_entries m)" and "m_entries m \<noteq> []" "unat siz < 2 ^ 32"
  shows "syspage_bestFit m siz align =
    (case best_of siz (gaps align (ALIGN_ADDR (m_start m) align) (m_entries m) (m_end m)) (-1, -1) of
       (bs, bz) \<Rightarrow> if bz = -1 \<or> bs = -1 then Inl EFAULT else Inr bs)"
proof -
  let ?T = "ALIGN_ADDR (m_start m) align"
  have "t \<le> g \<and> unat t + unat siz < 2 ^ 64" if "(t, g) \<in> set (gaps align ?T (m_entries m) (m_end m))" for t g
  proof -
    have "t \<le> g" "g \<le> m_end m" using gaps_sound [OF map_good_start(1,2) [OF g] that] by auto
    moreover have "unat (m_end m) < 2 ^ 32" by (rule map_good_end [OF g])
    ultimately show ?thesis using assms(3) by (auto simp: word_le_nat_alt)
  qed
  note fit_loop_gaps [OF this, where best = "(-1, -1)"]
  then show ?thesis using assms(2) by (simp add: syspage_bestFit_def Let_def)
qed

lemma bestFit_spec:
  assumes g: "map_good align (m_start m) (m_end m) (m_entries m)" and "m_entries m \<noteq> []" "unat siz < 2 ^ 32" "siz \<noteq> 0"
  shows "case syspage_bestFit m siz align of
      Inr s \<Rightarrow> granule align dvd unat s \<and> m_start m \<le> s \<and> unat s + unat siz \<le> unat (m_end m) \<and>
        (\<forall>e\<in>set (m_entries m). \<not> entry_overlaps s siz e)
    | Inl e \<Rightarrow> e = EFAULT \<and> (\<forall>s. granule align dvd unat s \<longrightarrow> m_start m \<le> s \<longrightarrow> unat s + unat siz \<le> unat (m_end m) \<longrightarrow>
        (\<exists>e\<in>set (m_entries m). entry_overlaps s siz e))"
proof -
  let ?gs = "gaps align (ALIGN_ADDR (m_start m) align) (m_entries m) (m_end m)"
  note T = map_good_start [OF g] and G = gaps_sound [OF map_good_start(1,2) [OF g]]
  obtain bs bz where b: "best_of siz ?gs (-1, -1) = (bs, bz)" by force
  note spec = best_of_spec [OF b]
  have mend: "unat (m_end m) < 2 ^ 32" by (rule map_good_end [OF g])
  have small: "g - t \<noteq> -1 \<and> t \<noteq> -1 \<and> unat (g - t) = unat g - unat t" if "(t, g) \<in> set ?gs" for t g
  proof -
    have "t \<le> g" "g \<le> m_end m" using G [OF that] by auto
    then have "unat (g - t) < 2 ^ 32" "unat t < 2 ^ 32" "unat (g - t) = unat g - unat t"
      using mend by (auto simp: unat_minus_small word_le_nat_alt)
    then show ?thesis by (auto simp: unsigned_minus_1_eq_mask mask_eq_exp_minus_1)
  qed
  have sum: "unat (s + siz) = unat s + unat siz" if "unat s + unat siz \<le> unat (m_end m)" for s
    using that mend by (intro unat_plus_small) simp
  show ?thesis
  proof (cases "(bs, bz) = (-1, -1)")
    case True
    have "\<exists>e\<in>set (m_entries m). entry_overlaps s siz e"
      if s: "granule align dvd unat s" "m_start m \<le> s" "unat s + unat siz \<le> unat (m_end m)" for s
    proof (rule ccontr)
      assume n: "\<not> ?thesis"
      have "ALIGN_ADDR (m_start m) align \<le> s"
        using g s(1,2) ALIGN_ADDR_least(3) [of align "m_start m"] by (auto simp: map_good_def word_le_nat_alt)
      moreover have "s < s + siz" "s + siz \<le> m_end m" using sum [OF s(3)] s(3) assms(4)
        by (auto simp: word_less_nat_alt word_le_nat_alt unat_gt_0)
      ultimately have "\<exists>(t, g)\<in>set ?gs. t \<le> s \<and> s + siz \<le> g"
        using n s(1) by (intro gaps_complete [OF T(1)]) (auto simp: entry_overlaps_def)
      then obtain t g where tg: "(t, g) \<in> set ?gs" "t \<le> s" "s + siz \<le> g" by auto
      then have "siz \<le> g - t" using small [OF tg(1)] sum [OF s(3)] by (simp add: word_le_nat_alt)
      then have "bz \<le> g - t" using spec tg(1) by auto
      then show False using True small [OF tg(1)] by (auto simp: minus_one_max dest: leD)
    qed
    then show ?thesis using b True bestFit_best_of [OF g assms(2,3)] by simp
  next
    case False
    then obtain t g where tg: "(t, g) \<in> set ?gs" "bs = t" "bz = g - t" "siz \<le> g - t" using spec by auto
    have "unat t + unat siz \<le> unat g" "t \<le> g"
      using small [OF tg(1)] tg(4) G [OF tg(1)] by (auto simp: word_le_nat_alt)
    moreover from this have "unat t + unat siz \<le> unat (m_end m)" using G [OF tg(1)] by (auto simp: word_le_nat_alt)
    ultimately have "\<not> entry_overlaps t siz e" if "e \<in> set (m_entries m)" for e
      using G [OF tg(1)] that sum [of t] by (auto simp: entry_overlaps_def word_le_nat_alt word_less_nat_alt)
    moreover have "syspage_bestFit m siz align = Inr t"
      using b tg small [OF tg(1)] bestFit_best_of [OF g assms(2,3)] by simp
    ultimately show ?thesis
      using G [OF tg(1)] T(3) \<open>unat t + unat siz \<le> unat (m_end m)\<close> by (auto intro: order_trans)
  qed
qed

section \<open>Adding an entry\<close>

lemma map_index_Some: "map_index P ms = Some i \<Longrightarrow> i < length ms \<and> P (ms ! i)"
  by (induction ms arbitrary: i) (auto split: if_splits)

lemma map_index_None: "map_index P ms = None \<longleftrightarrow> (\<forall>m\<in>set ms. \<not> P m)"
  by (induction ms) auto

lemma map_good_insert:
  assumes "map_good align lo mend es" "granule align dvd unat (e_start x)" "lo \<le> e_start x" "e_end x \<le> mend" "e_start x < e_end x"
    and "\<And>e. e \<in> set es \<Longrightarrow> \<not> (e_start e < e_end x \<and> e_end e > e_start x)"
  shows "map_good align lo mend (insert_before e_start x es)"
  using assms insert_entry_ok [of es x] by (auto simp: map_good_def)

definition sizes_ok :: "struct_sizes \<Rightarrow> bool" where
  "sizes_ok sz \<longleftrightarrow> unat (sizeof_map sz) < 2 ^ 62 \<and> unat (sizeof_mapent sz) < 2 ^ 62 \<and> unat (sizeof_prog sz) < 2 ^ 62"

lemma entryAdd_fit:
  assumes "heap_ok sp" "sizes_ok sz" "syspage_mapGet name sp = Some i"
    and m: "m = sp_maps sp ! i" and g: "map_good align (m_start m) (m_end m) (m_entries m)"
    and "m_entries m \<noteq> []" "unat siz < 2 ^ 32" "siz \<noteq> 0"
    and add: "syspage_entryAdd sz (Some name) (-1) siz align sp = (Some e, sp')"
  shows "heap_ok sp' \<and> e_end e = e_start e + siz \<and> granule align dvd unat (e_start e) \<and>
    m_start m \<le> e_start e \<and> unat (e_start e) + unat siz \<le> unat (m_end m) \<and>
    (\<forall>f\<in>set (m_entries m). e_end f \<le> e_start e \<or> e_end e \<le> e_start f) \<and>
    sp_maps sp' = (sp_maps sp)[i := m\<lparr>m_entries := insert_before e_start e (m_entries m)\<rparr>] \<and>
    map_good align (m_start m) (m_end m) (insert_before e_start e (m_entries m))"
proof -
  obtain s a sp1 where s: "syspage_bestFit m siz align = Inr s" "syspage_alloc (sizeof_mapent sz) sp = (Some a, sp1)"
      "e = \<lparr>e_start = s, e_end = s + siz, e_type = hal_entryAllocated\<rparr>" "sp' = entry_insert i e sp1"
    using add assms(3) by (auto simp: syspage_entryAdd_def Let_def m split: option.splits sum.splits prod.splits if_splits)
  note spec = bestFit_spec [OF g assms(6-8), unfolded s(1), simplified]
  have "unat (sizeof_mapent sz) < 2 ^ 62" using assms(2) by (simp add: sizes_ok_def)
  note law = syspage_alloc_law [OF assms(1) this s(2)]
  have sum: "unat (s + siz) = unat s + unat siz" using spec map_good_end [OF g] by (intro unat_plus_small) simp
  have free: "\<not> (e_start f < e_end e \<and> e_end f > e_start e)" if "f \<in> set (m_entries m)" for f
    using spec that s(3) by (auto simp: entry_overlaps_def)
  have "e_start e < e_end e" "e_end e \<le> m_end m"
    using spec sum s(3) assms(8) by (auto simp: word_less_nat_alt word_le_nat_alt unat_gt_0)
  then have "map_good align (m_start m) (m_end m) (insert_before e_start e (m_entries m))"
    using g spec s(3) free by (intro map_good_insert) auto
  moreover have "heap_ok sp'" "sp_maps sp' = (sp_maps sp)[i := m\<lparr>m_entries := insert_before e_start e (m_entries m)\<rparr>]"
    using law s(4) by (auto simp: entry_insert_def heap_ok_def m)
  ultimately show ?thesis using spec s(3) free by (auto simp: not_less)
qed

end
