(* ===== verification/Syspage_Props.thy ===== *)
theory Syspage_Props
  imports Syspage
begin

text \<open>
  The properties of the system page: what the heap hands out, where entries are placed, which entries a new map
  gets and what holds of the maps of every page that was built by adding maps, entries and programs.
\<close>

section \<open>The regions of the loader inside a map\<close>

definition loader_regions :: "linker \<Rightarrow> mapent_t list" where
  "loader_regions ld = \<lparr>e_start = ld_hs ld, e_end = ld_heap_limit ld, e_type = hal_entryReserved\<rparr> #
     filter (\<lambda>e. e_start e < e_end e) (ld_entries ld)"

definition overlaps :: "addr_t \<Rightarrow> addr_t \<Rightarrow> mapent_t \<Rightarrow> bool" where
  "overlaps start ende e \<longleftrightarrow> start < e_end e \<and> ende > e_start e"

definition clip :: "addr_t \<Rightarrow> addr_t \<Rightarrow> mapent_t \<Rightarrow> mapent_t" where
  "clip start ende e = \<lparr>e_start = max start (e_start e), e_end = min ende (e_end e), e_type = e_type e\<rparr>"

definition lowest_start :: "mapent_t option \<Rightarrow> addr_t" where
  "lowest_start m = (case m of None \<Rightarrow> -1 | Some e \<Rightarrow> e_start e)"

lemma lowest_start_simps [simp]: "lowest_start None = -1" "lowest_start (Some e) = e_start e"
  by (simp_all add: lowest_start_def)

lemma minOverlapped_eq:
  "hal_getMinOverlappedRange start ende e m =
     (if overlaps start ende e \<and> max start (e_start e) < lowest_start m then Some (clip start ende e) else m)"
proof -
  have "(if start > e_start e then start else e_start e) = max start (e_start e)"
    "(if ende < e_end e then ende else e_end e) = min ende (e_end e)" by (auto simp: max_def min_def)
  then show ?thesis by (simp add: hal_getMinOverlappedRange_def overlaps_def clip_def lowest_start_def Let_def)
qed

lemma nextEntry_fold:
  "hal_memoryGetNextEntry ld start ende =
     (if start = ende then None else fold (hal_getMinOverlappedRange start ende) (loader_regions ld) None)"
proof -
  have "fold (\<lambda>e m. if e_start e \<ge> e_end e then m else hal_getMinOverlappedRange start ende e m) es m =
      fold (hal_getMinOverlappedRange start ende) (filter (\<lambda>e. e_start e < e_end e) es) m" for es m
    by (induction es arbitrary: m) (auto simp: not_less)
  then show ?thesis by (simp add: hal_memoryGetNextEntry_def loader_regions_def)
qed

lemma lowest_start_fold:
  "lowest_start (fold (hal_getMinOverlappedRange start ende) es m) \<le> lowest_start m \<and>
   (\<forall>e\<in>set es. overlaps start ende e \<longrightarrow>
      lowest_start (fold (hal_getMinOverlappedRange start ende) es m) \<le> max start (e_start e))"
proof (induction es arbitrary: m)
  case (Cons e es)
  have "lowest_start (hal_getMinOverlappedRange start ende e m) \<le> lowest_start m"
    "overlaps start ende e \<Longrightarrow> lowest_start (hal_getMinOverlappedRange start ende e m) \<le> max start (e_start e)"
    by (auto simp: minOverlapped_eq clip_def le_max_iff_disj not_less)
  then show ?case using Cons.IH [of "hal_getMinOverlappedRange start ende e m"] by (auto intro: order_trans)
qed simp

lemma fold_origin:
  "fold (hal_getMinOverlappedRange start ende) es m = Some t \<Longrightarrow>
   m = Some t \<or> (\<exists>e\<in>set es. overlaps start ende e \<and> t = clip start ende e)"
proof (induction es arbitrary: m)
  case (Cons e es)
  then show ?case using Cons.IH [of "hal_getMinOverlappedRange start ende e m"]
    by (auto simp: minOverlapped_eq split: if_splits)
qed simp

text \<open>\<open>hal_memoryGetNextEntry\<close> returns the lowest overlap of the range with a region.\<close>

lemma nextEntry_Some:
  assumes "hal_memoryGetNextEntry ld start ende = Some t"
  obtains r where "r \<in> set (loader_regions ld)" "overlaps start ende r" "t = clip start ende r"
    "\<And>e. e \<in> set (loader_regions ld) \<Longrightarrow> overlaps start ende e \<Longrightarrow> e_start t \<le> max start (e_start e)"
  using assms fold_origin [of start ende "loader_regions ld" None t]
    lowest_start_fold [of start ende "loader_regions ld" None]
  by (auto simp: nextEntry_fold lowest_start_def split: if_splits)

lemma nextEntry_None:
  assumes "hal_memoryGetNextEntry ld start ende = None" "start < ende" "e \<in> set (loader_regions ld)"
  shows "\<not> overlaps start ende e"
proof
  assume o: "overlaps start ende e"
  have "fold (hal_getMinOverlappedRange start ende) (loader_regions ld) None = None"
    using assms(1,2) by (simp add: nextEntry_fold split: if_splits)
  then have "-1 \<le> max start (e_start e)"
    using assms(3) o lowest_start_fold [of start ende "loader_regions ld" None] by fastforce
  moreover have "max start (e_start e) < max (e_end e) ende" using o by (auto simp: overlaps_def max_def)
  ultimately show False by (meson leD order_less_le_trans word_order.extremum)
qed


lemma insert_before_last:
  assumes "\<And>e. e \<in> set es \<Longrightarrow> e_start e \<le> e_start t"
  shows "insert_before e_start t es = es @ [t]"
proof -
  have "takeWhile (\<lambda>y. \<not> e_start t < e_start y) es = es" "dropWhile (\<lambda>y. \<not> e_start t < e_start y) es = []"
    using assms by (auto simp: takeWhile_eq_all_conv not_less)
  then show ?thesis by (simp add: insert_before_def)
qed

text \<open>The entries \<open>new\<close> are the parts of the regions of the loader between two addresses.\<close>

definition region_parts :: "linker \<Rightarrow> addr_t \<Rightarrow> addr_t \<Rightarrow> mapent_t list \<Rightarrow> bool" where
  "region_parts ld start ende new \<longleftrightarrow> entries_ok new \<and>
     (\<forall>e\<in>set new. start \<le> e_start e \<and> e_start e < e_end e \<and> e_end e \<le> ende \<and>
        (\<exists>r\<in>set (loader_regions ld). e_start r \<le> e_start e \<and> e_end e \<le> e_end r \<and> e_type e = e_type r))"

definition regions_covered :: "linker \<Rightarrow> addr_t \<Rightarrow> addr_t \<Rightarrow> mapent_t list \<Rightarrow> bool" where
  "regions_covered ld start ende new \<longleftrightarrow>
     (\<forall>r\<in>set (loader_regions ld). \<forall>x. start \<le> x \<and> x < ende \<and> e_start r \<le> x \<and> x < e_end r \<longrightarrow>
        (\<exists>e\<in>set new. e_start e \<le> x \<and> x < e_end e))"

lemma region_step:
  assumes "hal_memoryGetNextEntry ld start ende = Some t" "start \<le> ende" "ld_hs ld < ld_heap_limit ld"
  shows "start \<le> e_start t" "e_start t < e_end t" "e_end t \<le> ende" "start < e_end t"
    "region_parts ld (e_end t) ende new \<Longrightarrow> region_parts ld start ende (t # new)"
    "regions_covered ld (e_end t) ende new \<Longrightarrow> regions_covered ld start ende (t # new)"
proof -
  have ne: "start < ende" using assms by (cases "start = ende") (auto simp: hal_memoryGetNextEntry_def)
  obtain r where r: "r \<in> set (loader_regions ld)" "overlaps start ende r" "t = clip start ende r"
    and low: "\<And>e. e \<in> set (loader_regions ld) \<Longrightarrow> overlaps start ende e \<Longrightarrow> e_start t \<le> max start (e_start e)"
    using nextEntry_Some [OF assms(1)] by blast
  show le: "start \<le> e_start t" "e_start t < e_end t" "e_end t \<le> ende" "start < e_end t"
    using r ne assms(3) by (auto simp: clip_def overlaps_def loader_regions_def)
  have t: "e_start r \<le> e_start t" "e_end t \<le> e_end r" "e_type t = e_type r" using r(3) by (auto simp: clip_def)
  then show "region_parts ld start ende (t # new)" if "region_parts ld (e_end t) ende new"
    using that le r(1) by (fastforce simp: region_parts_def)
  show "regions_covered ld start ende (t # new)" if c: "regions_covered ld (e_end t) ende new"
    unfolding regions_covered_def
  proof (intro ballI allI impI)
    fix e x assume e: "e \<in> set (loader_regions ld)" and x: "start \<le> x \<and> x < ende \<and> e_start e \<le> x \<and> x < e_end e"
    have "overlaps start ende e" using x by (auto simp: overlaps_def)
    then have "e_start t \<le> max start (e_start e)" by (rule low [OF e])
    also have "\<dots> \<le> x" using x by simp
    finally have "e_start t \<le> x" .
    then show "\<exists>f\<in>set (t # new). e_start f \<le> x \<and> x < e_end f"
      using c e x by (cases "x < e_end t") (auto simp: regions_covered_def not_less)
  qed
qed

lemma map_entries_spec:
  assumes "heap_ok sp" "sizes_ok sz" "i < length (sp_maps sp)" "start \<le> ende" "m = sp_maps sp ! i"
    and "ld_hs ld < ld_heap_limit ld" "\<And>e. e \<in> set (m_entries m) \<Longrightarrow> e_start e \<le> start"
  shows "\<exists>r sp' new. map_entries sz ld i start ende sp = Some (r, sp') \<and> heap_ok sp' \<and>
    sp_maps sp' = (sp_maps sp)[i := m\<lparr>m_entries := m_entries m @ new\<rparr>] \<and> region_parts ld start ende new \<and>
    (r = Inr () \<and> regions_covered ld start ende new \<or> r = Inl ENOMEM)"
  using assms
proof (induction "unat ende - unat start" arbitrary: start sp m rule: less_induct)
  case less
  note unfold = map_entries.simps [of sz ld i start ende sp]
  show ?case
  proof (cases "hal_memoryGetNextEntry ld start ende")
    case None
    have "regions_covered ld start ende []"
      using nextEntry_None [OF None] less.prems(4) by (fastforce simp: regions_covered_def overlaps_def)
    moreover have "region_parts ld start ende []" by (simp add: region_parts_def)
    ultimately show ?thesis using None less.prems unfold by (intro exI [of _ "Inr ()"] exI [of _ sp] exI [of _ "[]"]) simp
  next
    case (Some t)
    note step = region_step [OF Some less.prems(4,6)]
    obtain a sp1 where a: "syspage_alloc (sizeof_mapent sz) sp = (a, sp1)" by force
    have siz: "unat (sizeof_mapent sz) < 2 ^ 62" using less.prems(2) by (simp add: sizes_ok_def)
    note law = syspage_alloc_law [OF less.prems(1) siz a]
    show ?thesis
    proof (cases a)
      case None
      then show ?thesis using Some a law less.prems unfold
        by (intro exI [of _ "Inl ENOMEM"] exI [of _ sp1] exI [of _ "[]"]) (auto simp: region_parts_def)
    next
      case (Some b)
      let ?sp = "entry_insert i t sp1" and ?m = "m\<lparr>m_entries := m_entries m @ [t]\<rparr>"
      have ins: "insert_before e_start t (m_entries m) = m_entries m @ [t]"
        using less.prems(7) step(1) by (intro insert_before_last) (auto intro: order_trans)
      have sp: "heap_ok ?sp" "sp_maps ?sp = (sp_maps sp)[i := ?m]"
        using law less.prems(5) ins by (auto simp: entry_insert_def heap_ok_def)
      have "\<exists>r sp' new. map_entries sz ld i (e_end t) ende ?sp = Some (r, sp') \<and> heap_ok sp' \<and>
          sp_maps sp' = (sp_maps ?sp)[i := ?m\<lparr>m_entries := m_entries ?m @ new\<rparr>] \<and> region_parts ld (e_end t) ende new \<and>
          (r = Inr () \<and> regions_covered ld (e_end t) ende new \<or> r = Inl ENOMEM)"
      proof (rule less.hyps [OF _ sp(1) less.prems(2)])
        show "unat ende - unat (e_end t) < unat ende - unat start"
          using step(3,4) by (auto simp: word_less_nat_alt word_le_nat_alt)
        show "e_start e \<le> e_end t" if "e \<in> set (m_entries ?m)" for e
          using that less.prems(7) [of e] step(2,4) by auto
      qed (use sp less.prems step(3) in auto)
      then obtain r sp' new where IH: "map_entries sz ld i (e_end t) ende ?sp = Some (r, sp')" "heap_ok sp'"
          "sp_maps sp' = (sp_maps ?sp)[i := ?m\<lparr>m_entries := m_entries ?m @ new\<rparr>]" "region_parts ld (e_end t) ende new"
          "r = Inr () \<and> regions_covered ld (e_end t) ende new \<or> r = Inl ENOMEM" by blast
      then show ?thesis using \<open>hal_memoryGetNextEntry ld start ende = Some t\<close> a Some unfold step(5,6) [of new] sp(2)
        by (intro exI [of _ r] exI [of _ sp'] exI [of _ "t # new"]) auto
    qed
  qed
qed


section \<open>Adding a map\<close>

text \<open>What holds of the maps of a page: they do not overlap, their names differ, their entries are ordered and inside.\<close>

definition maps_apart :: "syspage_map_t \<Rightarrow> syspage_map_t \<Rightarrow> bool" where
  "maps_apart m k \<longleftrightarrow> \<not> (m_start m < m_end k \<and> m_end m > m_start k) \<and> m_name m \<noteq> m_name k"

definition map_ok :: "syspage_map_t \<Rightarrow> bool" where
  "map_ok m \<longleftrightarrow> NUL \<notin> set (m_name m) \<and> m_start m \<le> m_end m \<and> entries_ok (m_entries m) \<and>
     (\<forall>e\<in>set (m_entries m). m_start m \<le> e_start e \<and> e_end e \<le> m_end m)"

definition page_ok :: "syspage_t \<Rightarrow> bool" where
  "page_ok sp \<longleftrightarrow> heap_ok sp \<and> list_all map_ok (sp_maps sp) \<and> sorted_wrt maps_apart (sp_maps sp)"

lemma page_ok_append:
  assumes "page_ok sp" "map_ok m" "heap_ok sp'" "sp_maps sp' = sp_maps sp @ [m]"
    and "\<not> list_ex (\<lambda>k. (m_start k < m_end m \<and> m_end k > m_start m) \<or> m_name m = m_name k) (sp_maps sp)"
  shows "page_ok sp'"
  using assms by (auto simp: page_ok_def sorted_wrt_append maps_apart_def list_ex_iff)

lemma mapAdd_cases:
  assumes "page_ok sp" "sizes_ok sz" "ld_hs ld < ld_heap_limit ld" "start \<le> ende" "hal_strlen name < 2 ^ 62 - 1"
  shows "\<exists>r sp'. syspage_mapAdd sz ab ld name start ende attr sp = Some (r, sp') \<and> page_ok sp' \<and>
    (sp_maps sp' = sp_maps sp \<and> r \<noteq> Inr () \<or>
     (\<exists>m. sp_maps sp' = sp_maps sp @ [m] \<and> m_name m = cstr name \<and> m_start m = start \<and> m_end m = ende \<and>
        Inr (m_attr m) = syspage_strAttr2ui ab attr \<and> region_parts ld start ende (m_entries m) \<and>
        (r = Inr () \<and> regions_covered ld start ende (m_entries m) \<or> r = Inl ENOMEM)))"
proof (cases "list_ex (\<lambda>m. (m_start m < ende \<and> m_end m > start) \<or> hal_strcmp name (m_name m) = 0) (sp_maps sp)")
  case True
  then show ?thesis using assms(1) by (simp add: syspage_mapAdd_def)
next
  case False
  have heap: "heap_ok sp" "page_ok sp' \<longleftrightarrow> heap_ok sp'" if "sp_maps sp' = sp_maps sp" for sp'
    using assms(1) that by (auto simp: page_ok_def)
  have sizes: "unat (sizeof_map sz) < 2 ^ 62" "unat (of_nat (hal_strlen name + 1) :: size_t) < 2 ^ 62"
    using assms(2,5) unat_of_nat_small [of "hal_strlen name + 1", where ?'a = 64]
    by (simp_all add: sizes_ok_def del: of_nat_add of_nat_Suc)
  obtain a sp1 where a: "syspage_alloc (sizeof_map sz) sp = (a, sp1)" by force
  note la = syspage_alloc_law(1,2) [OF heap(1) [OF refl] sizes(1) a]
  obtain b sp2 where b: "syspage_alloc (of_nat (hal_strlen name + 1)) sp1 = (b, sp2)" by force
  note lb = syspage_alloc_law(1,2) [OF la(1) sizes(2) b]
  show ?thesis
  proof (cases "a = None \<or> b = None \<or> (\<exists>e. syspage_strAttr2ui ab attr = Inl e)")
    case True
    then show ?thesis using False a b la lb heap
      by (cases a; cases b) (auto simp: syspage_mapAdd_def Let_def split: sum.splits)
  next
    case more: False
    then obtain iattr where iattr: "syspage_strAttr2ui ab attr = Inr iattr" by (cases "syspage_strAttr2ui ab attr") auto
    define m where "m = \<lparr>m_name = cstr name, m_start = start, m_end = ende, m_attr = iattr,
      m_id = (if sp_maps sp = [] then 0 else m_id (last (sp_maps sp)) + 1), m_entries = []\<rparr>"
    let ?sp = "sp2\<lparr>sp_maps := sp_maps sp2 @ [m]\<rparr>" and ?i = "length (sp_maps sp)"
    have "heap_ok ?sp" using lb by (simp add: heap_ok_def)
    then have "\<exists>r sp' new. map_entries sz ld ?i start ende ?sp = Some (r, sp') \<and> heap_ok sp' \<and>
        sp_maps sp' = (sp_maps ?sp)[?i := m\<lparr>m_entries := m_entries m @ new\<rparr>] \<and> region_parts ld start ende new \<and>
        (r = Inr () \<and> regions_covered ld start ende new \<or> r = Inl ENOMEM)"
      using assms la lb by (intro map_entries_spec) (auto simp: m_def)
    then obtain r sp' new where e: "map_entries sz ld ?i start ende ?sp = Some (r, sp')" "heap_ok sp'"
        "sp_maps sp' = sp_maps sp @ [m\<lparr>m_entries := new\<rparr>]" "region_parts ld start ende new"
        "r = Inr () \<and> regions_covered ld start ende new \<or> r = Inl ENOMEM"
      using la lb by (auto simp: m_def)
    have "syspage_mapAdd sz ab ld name start ende attr sp = Some (r, sp')"
      using False a b more iattr e(1,5) la lb
      by (auto simp: syspage_mapAdd_def Let_def m_def hal_memoryAddMap_def)
    moreover have "map_ok (m\<lparr>m_entries := new\<rparr>)" using e(4) assms(4) by (auto simp: map_ok_def m_def region_parts_def)
    then have "page_ok sp'"
      by (rule page_ok_append [OF assms(1) _ e(2,3)])
        (use False assms(1) in \<open>auto simp: m_def list_ex_iff hal_strcmp_eq_0 page_ok_def map_ok_def list_all_iff\<close>)
    ultimately show ?thesis using e iattr by (auto simp: m_def)
  qed
qed

section \<open>Attribute strings\<close>

definition attr_list :: "attr_bits \<Rightarrow> u32 list" where
  "attr_list ab = [mAttrRead ab, mAttrWrite ab, mAttrExec ab, mAttrShareable ab, mAttrCacheable ab, mAttrBufferable ab]"

text \<open>The attributes are six different single bits.\<close>

definition attrs_ok :: "attr_bits \<Rightarrow> bool" where
  "attrs_ok ab \<longleftrightarrow> distinct (attr_list ab) \<and> list_all (\<lambda>b. \<exists>k\<in>set [0..<32]. b = 2 ^ k) (attr_list ab)"

definition attr_all :: "attr_bits \<Rightarrow> u32" where
  "attr_all ab = foldr (OR) (attr_list ab) 0"

lemma strAttr_char:
  "strAttr_loop ab (char_of_attr ab v @ s) acc =
    strAttr_loop ab s (acc OR (if v \<in> set (attr_list ab) then v else 0))"
proof (cases "v \<in> set (attr_list ab)")
  case True
  have c: "strAttr_loop ab (CHR ''r'' # s) acc = strAttr_loop ab s (acc OR mAttrRead ab)"
    "strAttr_loop ab (CHR ''w'' # s) acc = strAttr_loop ab s (acc OR mAttrWrite ab)"
    "strAttr_loop ab (CHR ''x'' # s) acc = strAttr_loop ab s (acc OR mAttrExec ab)"
    "strAttr_loop ab (CHR ''s'' # s) acc = strAttr_loop ab s (acc OR mAttrShareable ab)"
    "strAttr_loop ab (CHR ''c'' # s) acc = strAttr_loop ab s (acc OR mAttrCacheable ab)"
    "strAttr_loop ab (CHR ''b'' # s) acc = strAttr_loop ab s (acc OR mAttrBufferable ab)"
    by (simp_all add: attr_of_char_def NUL_def)
  have "strAttr_loop ab (char_of_attr ab v @ s) acc = strAttr_loop ab s (acc OR v)"
    using True by (simp add: char_of_attr_def attr_list_def c del: strAttr_loop.simps) blast
  then show ?thesis using True by simp
next
  case False
  then show ?thesis by (simp add: char_of_attr_def attr_list_def)
qed

lemma strAttr_concat:
  "strAttr_loop ab (concat (map (\<lambda>i. char_of_attr ab (f i)) is)) acc =
    Inr (foldl (OR) acc (map (\<lambda>i. if f i \<in> set (attr_list ab) then f i else 0) is))"
  by (induction "is" arbitrary: acc) (simp_all add: strAttr_char)

lemma bit_foldl_or: "bit (foldl (OR) (acc::u32) xs) j \<longleftrightarrow> bit acc j \<or> (\<exists>x\<in>set xs. bit x j)"
  by (induction xs arbitrary: acc) (auto simp: bit_or_iff)

lemma bit_foldr_or: "bit (foldr (OR) xs (acc::u32)) j \<longleftrightarrow> bit acc j \<or> (\<exists>x\<in>set xs. bit x j)"
  by (induction xs) (auto simp: bit_or_iff)

lemma bit_and_single: "bit ((a::u32) AND 2 ^ i) j \<longleftrightarrow> j = i \<and> bit a j"
  by (auto simp: bit_and_iff bit_exp_iff possible_bit_def dest: bit_imp_le_length)

lemma and_single: "bit (a::u32) i \<Longrightarrow> a AND 2 ^ i = 2 ^ i"
  by (rule bit_word_eqI) (auto simp: bit_and_iff bit_exp_iff)

lemma attr_bit:
  assumes "attrs_ok ab" "j < 32"
  shows "bit (attr_all ab) j \<longleftrightarrow> 2 ^ j \<in> set (attr_list ab)"
proof -
  have single: "bit b j \<longleftrightarrow> b = 2 ^ j" if b: "b \<in> set (attr_list ab)" for b
  proof -
    obtain k where "k < 32" "b = 2 ^ k" using assms(1) b unfolding attrs_ok_def list_all_iff by auto
    moreover have "k = j" if eq: "2 ^ k = (2 ^ j :: u32)"
    proof -
      have "bit (2 ^ j :: u32) j" using assms(2) by (simp add: bit_exp_iff possible_bit_def)
      then show ?thesis unfolding eq [symmetric] by (simp add: bit_exp_iff)
    qed
    ultimately show ?thesis using assms(2) by (auto simp: bit_exp_iff possible_bit_def)
  qed
  then show ?thesis by (auto simp: attr_all_def bit_foldr_or)
qed

lemma attr_string_value:
  assumes "attrs_ok ab"
  shows "syspage_strAttr2ui ab (syspage_uiAttr2str ab attr) = Inr (attr AND attr_all ab)"
proof -
  let ?v = "\<lambda>i. if attr AND 2 ^ i \<in> set (attr_list ab) then attr AND 2 ^ i else 0"
  have "foldl (OR) 0 (map ?v [0..<32]) = attr AND attr_all ab"
  proof (rule bit_word_eqI)
    fix j assume j: "j < LENGTH(32)"
    have "bit (?v i) j \<longleftrightarrow> i = j \<and> bit attr j \<and> 2 ^ j \<in> set (attr_list ab)" for i
      using and_single [of attr j] by (auto simp: bit_and_single)
    then have "(\<exists>i\<in>set [0..<32]. bit (?v i) j) \<longleftrightarrow> bit attr j \<and> 2 ^ j \<in> set (attr_list ab)" using j by simp
    then show "bit (foldl (OR) 0 (map ?v [0..<32])) j = bit (attr AND attr_all ab) j"
      using j attr_bit [OF assms, of j] unfolding bit_foldl_or set_map bex_simps bit_and_iff by simp
  qed
  then show ?thesis
    using strAttr_concat [of ab "\<lambda>i. attr AND 2 ^ i" "[0..<32]" 0]
    by (simp add: syspage_strAttr2ui_def syspage_uiAttr2str_def)
qed

section \<open>Pages the loader builds\<close>

text \<open>
  What an entry needs to be placed inside its map, which \<open>syspage_entryAdd\<close> does not check: at a fixed address, that the aligned
  block lies in the map; where the place is searched in a map without entries, that it fits at the aligned start of the map; in a map with
  entries, that they and the end of the map are aligned and the map lies below 4 GiB (\<open>map_good\<close>).
\<close>

definition fits_at :: "size_t \<Rightarrow> syspage_map_t \<Rightarrow> addr_t \<Rightarrow> bool" where
  "fits_at siz m s \<longleftrightarrow> m_start m \<le> s \<and> unat s + unat siz \<le> unat (m_end m)"

definition search_fine :: "size_t \<Rightarrow> u32 \<Rightarrow> syspage_map_t \<Rightarrow> bool" where
  "search_fine siz align m \<longleftrightarrow> unat siz < 2 ^ 32 \<and>
     (if m_entries m = [] then fits_at siz m (ALIGN_ADDR (m_start m) align)
      else map_good align (m_start m) (m_end m) (m_entries m))"

definition entry_fine :: "string option \<Rightarrow> addr_t \<Rightarrow> size_t \<Rightarrow> u32 \<Rightarrow> syspage_t \<Rightarrow> bool" where
  "entry_fine mapName start siz align sp \<longleftrightarrow> siz \<noteq> 0 \<and>
     (case mapName of
        None \<Rightarrow> (case map_index (\<lambda>m. m_start m \<le> start \<and> m_end m \<ge> start + siz) (sp_maps sp) of
                   None \<Rightarrow> True
                 | Some i \<Rightarrow> fits_at siz (sp_maps sp ! i) (ALIGN_ADDR start align))
      | Some name \<Rightarrow> (case syspage_mapGet name sp of
                   None \<Rightarrow> True
                 | Some i \<Rightarrow>
                     if start = -1 then search_fine siz align (sp_maps sp ! i)
                     else fits_at siz (sp_maps sp ! i) (ALIGN_ADDR (m_start (sp_maps sp ! i) + start) align)))"

text \<open>
  The pages that arise from the initial one by adding maps, entries and programs, allocating, and setting the kernel's
  address and the console.
\<close>

inductive page_reach :: "struct_sizes \<Rightarrow> attr_bits \<Rightarrow> linker \<Rightarrow> syspage_t \<Rightarrow> bool" for sz ab ld where
  init: "unat base + unat (sizeof_syspage sz) + 7 \<le> unat limit \<Longrightarrow> unat limit < 2 ^ 63 \<Longrightarrow>
    page_reach sz ab ld (syspage_init sz base limit console sp)"
| mapAdd: "page_reach sz ab ld sp \<Longrightarrow> start \<le> ende \<Longrightarrow> hal_strlen name < 2 ^ 62 - 1 \<Longrightarrow>
    syspage_mapAdd sz ab ld name start ende attr sp = Some (r, sp') \<Longrightarrow> page_reach sz ab ld sp'"
| alloc: "page_reach sz ab ld sp \<Longrightarrow> unat siz < 2 ^ 62 \<Longrightarrow> syspage_alloc siz sp = (a, sp') \<Longrightarrow> page_reach sz ab ld sp'"
| progAdd: "page_reach sz ab ld sp \<Longrightarrow> hal_strlen argv < 2 ^ 62 - 2 \<Longrightarrow>
    syspage_progAdd sz prog argv flags sp = (ok, sp') \<Longrightarrow> page_reach sz ab ld sp'"
| entryAdd: "page_reach sz ab ld sp \<Longrightarrow> entry_fine mapName start siz align sp \<Longrightarrow>
    syspage_entryAdd sz mapName start siz align sp = (e, sp') \<Longrightarrow> page_reach sz ab ld sp'"
| progAllocate: "page_reach sz ab ld sp \<Longrightarrow> entry_fine (Some name) (-1) siz (size_page sz) sp \<Longrightarrow> hal_strlen argv < 2 ^ 62 - 2 \<Longrightarrow>
    syspage_progAllocateAndAdd sz prog name siz argv flags overwrite sp = (place, sp') \<Longrightarrow> page_reach sz ab ld sp'"
| kernel: "page_reach sz ab ld sp \<Longrightarrow> page_reach sz ab ld (syspage_kernelPAddrAdd address sp)"
| console: "page_reach sz ab ld sp \<Longrightarrow> page_reach sz ab ld (syspage_consoleSet i sp)"

lemma init_ok:
  assumes "unat base + unat (sizeof_syspage sz) + 7 \<le> unat limit" "unat limit < 2 ^ 63"
  shows "page_ok (syspage_init sz base limit console sp)"
proof -
  let ?a = "base + sizeof_syspage sz"
  have a: "unat ?a = unat base + unat (sizeof_syspage sz)" using assms by (intro unat_plus_small) simp
  then have "unat (align_long ?a) = 8 * ((unat ?a + 7) div 8)" using assms by (intro unat_align_long) simp
  then have "8 dvd unat (align_long ?a)" "unat ?a \<le> unat (align_long ?a)" "unat (align_long ?a) \<le> unat ?a + 7" by simp_all
  then show ?thesis using a assms by (simp add: page_ok_def syspage_init_def Let_def heap_ok_def)
qed

lemma alloc_page_ok:
  assumes "page_ok sp" "unat siz < 2 ^ 62" "syspage_alloc siz sp = (a, sp')"
  shows "page_ok sp'"
  using assms syspage_alloc_law(1,2) [OF _ assms(2,3)] by (simp add: page_ok_def)

lemma progAdd_page_ok:
  assumes "page_ok sp" "sizes_ok sz" "hal_strlen argv < 2 ^ 62 - 2" "syspage_progAdd sz prog argv flags sp = (ok, sp')"
  shows "page_ok sp'"
proof -
  have siz: "unat (sizeof_prog sz) < 2 ^ 62" using assms(2) by (simp add: sizes_ok_def)
  let ?n = "(if flags AND flagSyspageExec \<noteq> 0 then 1 else 0) + hal_strlen argv + 1"
  have n: "unat (of_nat ?n :: size_t) < 2 ^ 62"
    using assms(3) unat_of_nat_small [of ?n, where ?'a = 64] by (simp split: if_splits del: of_nat_add of_nat_Suc)
  obtain a sp1 where a: "syspage_alloc (sizeof_prog sz) sp = (a, sp1)" by force
  note ok1 = alloc_page_ok [OF assms(1) siz a]
  obtain b sp2 where b: "syspage_alloc (of_nat ?n) sp1 = (b, sp2)" by force
  note ok2 = alloc_page_ok [OF ok1 n b]
  have "page_ok (sp2\<lparr>sp_progs := ps\<rparr>)" for ps using ok2 by (simp add: page_ok_def heap_ok_def)
  then show ?thesis
    using assms(4) a b ok1 ok2 by (auto simp: syspage_progAdd_def Let_def split: option.splits simp del: of_nat_add)
qed

lemma map_ok_insert:
  assumes "map_ok m" "fits_at siz m s" "siz \<noteq> 0" "\<not> list_ex (entry_overlaps s siz) (m_entries m)"
  shows "map_ok (m\<lparr>m_entries := insert_before e_start \<lparr>e_start = s, e_end = s + siz, e_type = t\<rparr> (m_entries m)\<rparr>)"
proof -
  let ?e = "\<lparr>e_start = s, e_end = s + siz, e_type = t\<rparr>"
  have "unat (m_end m) < 2 ^ 64" using unsigned_less [of "m_end m"] by simp
  then have "unat (s + siz) = unat s + unat siz" using assms(2) by (intro unat_plus_small) (simp add: fits_at_def)
  then have b: "s < s + siz" "s + siz \<le> m_end m" "m_start m \<le> s"
    using assms(2,3) by (auto simp: fits_at_def word_less_nat_alt word_le_nat_alt unat_gt_0)
  have "entries_ok (insert_before e_start ?e (m_entries m))"
    using assms(1,4) b by (intro insert_entry_ok) (auto simp: map_ok_def list_ex_iff entry_overlaps_def)
  moreover have "set (insert_before e_start ?e (m_entries m)) \<subseteq> insert ?e (set (m_entries m))"
    by (auto simp: insert_before_def dest: set_takeWhileD set_dropWhileD)
  ultimately show ?thesis using assms(1) b by (auto simp: map_ok_def)
qed

lemma entry_insert_page_ok:
  assumes "page_ok sp" "map_ok ((sp_maps sp ! i)\<lparr>m_entries := insert_before e_start e (m_entries (sp_maps sp ! i))\<rparr>)"
  shows "page_ok (entry_insert i e sp)"
proof (cases "i < length (sp_maps sp)")
  case True
  let ?m = "(sp_maps sp ! i)\<lparr>m_entries := insert_before e_start e (m_entries (sp_maps sp ! i))\<rparr>"
  have "maps_apart ?m k = maps_apart (sp_maps sp ! i) k" "maps_apart k ?m = maps_apart k (sp_maps sp ! i)" for k
    by (simp_all add: maps_apart_def)
  then have "sorted_wrt maps_apart ((sp_maps sp)[i := ?m])"
    using assms(1) True by (auto simp: page_ok_def sorted_wrt_iff_nth_less nth_list_update)
  then show ?thesis
    using assms True by (auto simp: page_ok_def entry_insert_def heap_ok_def list_all_length nth_list_update)
qed (use assms(1) in \<open>simp add: entry_insert_def list_update_beyond page_ok_def heap_ok_def\<close>)

lemma placed_page_ok:
  assumes "page_ok sp" "sizes_ok sz" "i < length (sp_maps sp)" "fits_at siz (sp_maps sp ! i) s" "siz \<noteq> 0"
    "\<not> list_ex (entry_overlaps s siz) (m_entries (sp_maps sp ! i))" "syspage_alloc (sizeof_mapent sz) sp = (a, sp1)"
  shows "page_ok sp1" "page_ok (entry_insert i \<lparr>e_start = s, e_end = s + siz, e_type = t\<rparr> sp1)"
proof -
  have l: "unat (sizeof_mapent sz) < 2 ^ 62" using assms(2) by (simp add: sizes_ok_def)
  show 1: "page_ok sp1" by (rule alloc_page_ok [OF assms(1) l assms(7)])
  have "heap_ok sp" using assms(1) by (simp add: page_ok_def)
  from syspage_alloc_law(2) [OF this l assms(7)] have "sp_maps sp1 = sp_maps sp" .
  moreover have "map_ok (sp_maps sp ! i)" using assms(1,3) by (simp add: page_ok_def list_all_length)
  ultimately show "page_ok (entry_insert i \<lparr>e_start = s, e_end = s + siz, e_type = t\<rparr> sp1)"
    using map_ok_insert [OF _ assms(4-6)] by (intro entry_insert_page_ok [OF 1]) simp
qed

lemma search_fits:
  assumes "search_fine siz align m" "siz \<noteq> 0" "syspage_bestFit m siz align = Inr s"
  shows "fits_at siz m s \<and> \<not> list_ex (entry_overlaps s siz) (m_entries m)"
proof (cases "m_entries m = []")
  case True
  then show ?thesis using assms by (simp add: search_fine_def syspage_bestFit_def Let_def)
next
  case False
  then show ?thesis
    using assms bestFit_spec [of align m siz] by (auto simp: search_fine_def fits_at_def list_ex_iff)
qed

lemma entryAdd_page_ok:
  assumes "page_ok sp" "sizes_ok sz" "entry_fine mapName start siz align sp" "syspage_entryAdd sz mapName start siz align sp = (e, sp')"
  shows "page_ok sp'"
proof (cases "sp' = sp")
  case False
  define found where "found = (case mapName of
      None \<Rightarrow> map_index (\<lambda>m. m_start m \<le> start \<and> m_end m \<ge> start + siz) (sp_maps sp) | Some name \<Rightarrow> syspage_mapGet name sp)"
  obtain i where i: "found = Some i" using False assms(4) by (cases found) (auto simp: syspage_entryAdd_def Let_def found_def)
  let ?m = "sp_maps sp ! i"
  have il: "i < length (sp_maps sp)"
    using i by (auto simp: found_def syspage_mapGet_def dest!: map_index_Some split: option.splits)
  define place where "place = (if mapName \<noteq> None \<and> start = -1 then
       (case syspage_bestFit ?m siz align of Inl _ \<Rightarrow> None | Inr s \<Rightarrow> Some s)
     else let s = ALIGN_ADDR (if mapName = None then start else m_start ?m + start) align
          in if list_ex (entry_overlaps s siz) (m_entries ?m) then None else Some s)"
  have add: "(case place of None \<Rightarrow> (None, sp)
      | Some s \<Rightarrow> (case syspage_alloc (sizeof_mapent sz) sp of (None, sp1) \<Rightarrow> (None, sp1)
        | (Some _, sp1) \<Rightarrow> (Some \<lparr>e_start = s, e_end = s + siz, e_type = hal_entryAllocated\<rparr>,
            entry_insert i \<lparr>e_start = s, e_end = s + siz, e_type = hal_entryAllocated\<rparr> sp1))) = (e, sp')"
    using assms(4) i unfolding syspage_entryAdd_def Let_def found_def place_def by simp
  then obtain s where s: "place = Some s" using False by (cases place) auto
  have nz: "siz \<noteq> 0" using assms(3) by (simp add: entry_fine_def)
  have "fits_at siz ?m s \<and> \<not> list_ex (entry_overlaps s siz) (m_entries ?m)"
    using s assms(3) i search_fits [of siz align ?m s] nz
    by (auto simp: place_def found_def entry_fine_def Let_def split: option.splits if_splits sum.splits)
  then show ?thesis
    using placed_page_ok [OF assms(1,2) il _ nz] add s by (auto split: prod.splits option.splits)
qed (use assms(1) in simp)

lemma progAllocate_page_ok:
  assumes "page_ok sp" "sizes_ok sz" "entry_fine (Some name) (-1) siz (size_page sz) sp" "hal_strlen argv < 2 ^ 62 - 2"
    "syspage_progAllocateAndAdd sz prog name siz argv flags overwrite sp = (place, sp')"
  shows "page_ok sp'"
proof -
  obtain e sp1 where e: "syspage_entryAdd sz (Some name) (-1) siz (size_page sz) sp = (e, sp1)" by force
  note 1 = entryAdd_page_ok [OF assms(1-3) e]
  obtain ok sp2 where p: "syspage_progAdd sz prog argv flags sp1 = (ok, sp2)" by force
  note 2 = progAdd_page_ok [OF 1 assms(2,4) p]
  have "page_ok (sp2\<lparr>sp_progs := ps\<rparr>)" for ps using 2 by (simp add: page_ok_def heap_ok_def)
  then show ?thesis
    using assms(1,5) 1 2 e p by (auto simp: syspage_progAllocateAndAdd_def split: option.splits if_splits bool.splits)
qed

lemma page_reach_invariant:
  assumes "page_reach sz ab ld sp" "sizes_ok sz" "ld_hs ld < ld_heap_limit ld"
  shows "page_ok sp"
  using assms(1)
proof (induction rule: page_reach.induct)
  case (mapAdd sp start ende name attr r sp')
  then show ?case using mapAdd_cases [OF mapAdd.IH assms(2,3) mapAdd.hyps(2,3), of ab attr] by auto
next
  case (progAdd sp argv prog flags ok sp')
  then show ?case using progAdd_page_ok assms(2) by blast
next
  case (alloc sp siz a sp')
  then show ?case using alloc_page_ok by blast
next
  case (entryAdd sp mapName start siz align e sp')
  then show ?case using entryAdd_page_ok assms(2) by blast
next
  case (progAllocate sp name siz argv prog flags overwrite place sp')
  then show ?case using progAllocate_page_ok assms(2) by blast
next
  case (init base limit console sp)
  then show ?case by (rule init_ok)
qed (auto simp: page_ok_def heap_ok_def syspage_kernelPAddrAdd_def syspage_consoleSet_def)

section \<open>Examples\<close>

definition sizes_example :: struct_sizes where
  "sizes_example = \<lparr>sizeof_syspage = 128, sizeof_map = 64, sizeof_mapent = 40, sizeof_prog = 72, size_page = 0x1000\<rparr>"

definition attrs_example :: attr_bits where
  "attrs_example = \<lparr>mAttrRead = 1, mAttrWrite = 2, mAttrExec = 4, mAttrShareable = 8, mAttrCacheable = 16, mAttrBufferable = 32\<rparr>"

definition linker_example :: linker where
  "linker_example = \<lparr>ld_hs = 0x20000010, ld_heap_limit = 0x20002000,
     ld_entries = [\<lparr>e_start = 0x20002000, e_end = 0x20003000, e_type = hal_entryTemp\<rparr>]\<rparr>"

definition page_example :: syspage_t where
  "page_example = syspage_init sizes_example 0x20000000 0x20002000 0
     \<lparr>sp_base = 0, sp_heapTop = 0, sp_heapEnd = 0, sp_size = 0, sp_pkernel = 0, sp_console = 0, sp_maps = [], sp_progs = []\<rparr>"

definition map_example :: syspage_map_t where
  "map_example = \<lparr>m_name = ''ddr'', m_start = 0x40000000, m_end = 0x40010000, m_attr = 3, m_id = 0,
     m_entries = [\<lparr>e_start = 0x40001000, e_end = 0x40001800, e_type = hal_entryTemp\<rparr>]\<rparr>"

lemma examples_ok: "sizes_ok sizes_example" "ld_hs linker_example < ld_heap_limit linker_example" "page_ok page_example"
  "page_reach sizes_example ab ld page_example" "heap_ok page_example"
  using init_ok [where base = "0x20000000" and sz = sizes_example and limit = "0x20002000"]
    page_reach.init [where base = "0x20000000" and sz = sizes_example and limit = "0x20002000"]
  by (simp_all add: sizes_ok_def sizes_example_def linker_example_def page_example_def page_ok_def)

lemma map_example_good: "map_good 0x1000 (m_start map_example) (m_end map_example) (m_entries map_example)"
proof -
  have "is_align 0x1000" unfolding is_align_def by (intro disjI2 exI [of _ 12]) simp
  then show ?thesis by (simp add: map_good_def map_example_def granule_def)
qed

section \<open>Properties\<close>

text \<open>
  Whatever sequence of requests \<open>syspage_alloc\<close> gets, the blocks it returns are 8-byte aligned, lie inside the heap, one after
  the other, and do not overlap; a request that does not fit fails and leaves the page as it was.
\<close>

theorem alloc_blocks_apart:
  assumes "heap_ok sp" "list_all (\<lambda>s. unat s < 2 ^ 62) ss" "alloc_run ss sp = (bs, sp')"
  shows "(\<forall>(a, s)\<in>set bs. 8 dvd unat a \<and> unat (sp_heapTop sp) \<le> unat a \<and> unat a + unat s \<le> unat (sp_heapEnd sp)) \<and>
    (\<forall>i j. i < j \<and> j < length bs \<longrightarrow> unat (fst (bs ! i)) + unat (snd (bs ! i)) \<le> unat (fst (bs ! j))) \<and>
    (\<forall>t. fst (syspage_alloc t sp') = None \<longrightarrow> snd (syspage_alloc t sp') = sp')"
proof -
  note run = alloc_run_blocks [OF assms]
  then have "unat (sp_heapTop sp') \<le> unat (sp_heapEnd sp)" by (auto simp: heap_ok_def)
  then have "\<forall>(a, s)\<in>set bs. 8 dvd unat a \<and> unat (sp_heapTop sp) \<le> unat a \<and> unat a + unat s \<le> unat (sp_heapEnd sp)"
    using run by fastforce
  moreover have "\<forall>i j. i < j \<and> j < length bs \<longrightarrow> unat (fst (bs ! i)) + unat (snd (bs ! i)) \<le> unat (fst (bs ! j))"
    using run by (auto simp: sorted_wrt_iff_nth_less split_def)
  moreover have "\<forall>t. fst (syspage_alloc t sp') = None \<longrightarrow> snd (syspage_alloc t sp') = sp'"
    by (auto simp: syspage_alloc_def Let_def split: if_splits)
  ultimately show ?thesis by blast
qed

theorem alloc_blocks_apart_witness:
  "list_all (\<lambda>(a, s). 8 dvd unat a \<and> 0x20000000 \<le> unat a \<and> unat a + unat s \<le> 0x20002000)
     (fst (alloc_run [5, 24] page_example))"
proof -
  have top: "unat (sp_heapTop page_example) = 0x20000080" "unat (sp_heapEnd page_example) = 0x20002000"
    by (simp_all add: page_example_def syspage_init_def align_long_def sizes_example_def)
  have "list_all (\<lambda>s::size_t. unat s < 2 ^ 62) [5, 24]" by simp
  from alloc_blocks_apart [OF examples_ok(5) this surjective_pairing] show ?thesis unfolding top list_all_iff by fastforce
qed

text \<open>
  C4: Let a map have at least one entry, all entries ordered, disjoint, inside the map and starting at multiples of the alignment, let the end of the
  map be a multiple of the alignment and, with one alignment added, not above 4 GiB, and let the alignment be 0 or a power of two and the size not 0 and below 4 GiB. Then \<open>syspage_bestFit\<close> succeeds
  exactly if some aligned block of the size is free: the address it returns is aligned and the block there lies in the map and meets no entry; \<open>EFAULT\<close> means
  that every aligned block of the size in the map meets an entry. (In a map without entries the size is not looked at, and addresses above 4 GiB are cut off.)
\<close>

theorem bestFit_correct:
  assumes "map_good align (m_start m) (m_end m) (m_entries m)" "m_entries m \<noteq> []" "unat siz < 2 ^ 32" "siz \<noteq> 0"
  shows "case syspage_bestFit m siz align of
      Inr s \<Rightarrow> granule align dvd unat s \<and> m_start m \<le> s \<and> unat s + unat siz \<le> unat (m_end m) \<and>
        (\<forall>e\<in>set (m_entries m). \<not> entry_overlaps s siz e)
    | Inl e \<Rightarrow> e = EFAULT \<and> (\<forall>s. granule align dvd unat s \<longrightarrow> m_start m \<le> s \<longrightarrow> unat s + unat siz \<le> unat (m_end m) \<longrightarrow>
        (\<exists>e\<in>set (m_entries m). entry_overlaps s siz e))"
  by (rule bestFit_spec [OF assms])

theorem bestFit_correct_witness:
  "syspage_bestFit map_example 0x800 0x1000 = Inr 0x40000000 \<and>
   list_all (\<lambda>e. \<not> entry_overlaps 0x40000000 0x800 e) (m_entries map_example)"
proof -
  have fit: "syspage_bestFit map_example 0x800 0x1000 = Inr 0x40000000" by code_simp
  show ?thesis using bestFit_correct [OF map_example_good, of "0x800"] by (simp add: fit) (simp add: map_example_def)
qed

text \<open>
  C22: Let a named map have at least one entry, all entries ordered, disjoint, inside the map and starting at multiples of the alignment, let its end be a multiple of the
  alignment and, with one alignment added, not above 4 GiB, and let the size be not 0 and below 4 GiB. Then an entry that \<open>syspage_entryAdd\<close> places there by search has the requested size, is aligned, lies inside the
  map and apart from all entries that were there; it is inserted in order and the map keeps this form, so the next placement works in the same way.
\<close>

theorem entryAdd_places:
  assumes "heap_ok sp" "sizes_ok sz" "syspage_mapGet name sp = Some i"
    and "map_good align (m_start (sp_maps sp ! i)) (m_end (sp_maps sp ! i)) (m_entries (sp_maps sp ! i))"
    and "m_entries (sp_maps sp ! i) \<noteq> []" "unat siz < 2 ^ 32" "siz \<noteq> 0"
    and "syspage_entryAdd sz (Some name) (-1) siz align sp = (Some e, sp')"
  shows "e_end e = e_start e + siz \<and> granule align dvd unat (e_start e) \<and>
    m_start (sp_maps sp ! i) \<le> e_start e \<and> unat (e_start e) + unat siz \<le> unat (m_end (sp_maps sp ! i)) \<and>
    (\<forall>f\<in>set (m_entries (sp_maps sp ! i)). e_end f \<le> e_start e \<or> e_end e \<le> e_start f) \<and>
    (\<exists>m'. sp_maps sp' = (sp_maps sp)[i := m'] \<and> set (m_entries m') = insert e (set (m_entries (sp_maps sp ! i))) \<and>
       map_good align (m_start m') (m_end m') (m_entries m'))"
proof -
  note fit = entryAdd_fit [OF assms(1-3) refl assms(4-8)]
  have "set (insert_before e_start e es) = insert e (set es)" for es
    by (auto simp: insert_before_def dest: set_takeWhileD set_dropWhileD)
      (metis UnE set_append takeWhile_dropWhile_id)
  then show ?thesis using fit
    by (intro conjI exI [of _ "(sp_maps sp ! i)\<lparr>m_entries := insert_before e_start e (m_entries (sp_maps sp ! i))\<rparr>"]) auto
qed

theorem entryAdd_places_witness:
  "\<exists>e sp'. syspage_entryAdd sizes_example (Some ''ddr'') (-1) 0x800 0x1000 (page_example\<lparr>sp_maps := [map_example]\<rparr>) = (Some e, sp') \<and>
     unat (e_start e) + 0x800 \<le> 0x40010000"
proof -
  let ?sp = "page_example\<lparr>sp_maps := [map_example]\<rparr>"
  have "heap_ok ?sp" using examples_ok(5) by (simp add: heap_ok_def)
  moreover have "syspage_mapGet ''ddr'' ?sp = Some 0"
    by (simp add: syspage_mapGet_def map_example_def hal_strcmp_eq_0 NUL_def)
  moreover have "fst (syspage_entryAdd sizes_example (Some ''ddr'') (-1) 0x800 0x1000 ?sp) =
      Some \<lparr>e_start = 0x40000000, e_end = 0x40000800, e_type = hal_entryAllocated\<rparr>" by code_simp
  moreover obtain e sp' where add: "syspage_entryAdd sizes_example (Some ''ddr'') (-1) 0x800 0x1000 ?sp = (e, sp')" by force
  ultimately obtain f where f: "e = Some f" "unat (e_start f) + unat (0x800 :: size_t) \<le> unat (m_end (sp_maps ?sp ! 0))"
    using entryAdd_places [OF _ examples_ok(1), of ?sp "''ddr''" 0 "0x1000" "0x800"] map_example_good
    by (auto simp: map_example_def)
  then show ?thesis using add by (auto simp: map_example_def)
qed

text \<open>
  C1: \<open>syspage_mapAdd\<close> always returns. It rejects a map that overlaps another or reuses a name; a map it adds has, in order, exactly
  the entries that the regions of the loader cause: every entry is part of a region, and every address of the map that lies in a region is
  covered. It stops early only for lack of memory for the entries.
\<close>

theorem mapAdd_reserves_loader:
  assumes "page_ok sp" "sizes_ok sz" "ld_hs ld < ld_heap_limit ld" "start \<le> ende" "hal_strlen name < 2 ^ 62 - 1"
  shows "\<exists>r sp'. syspage_mapAdd sz ab ld name start ende attr sp = Some (r, sp') \<and> page_ok sp' \<and>
    (sp_maps sp' = sp_maps sp \<and> r \<noteq> Inr () \<or>
     (\<exists>m. sp_maps sp' = sp_maps sp @ [m] \<and> m_name m = cstr name \<and> m_start m = start \<and> m_end m = ende \<and>
        Inr (m_attr m) = syspage_strAttr2ui ab attr \<and> region_parts ld start ende (m_entries m) \<and>
        (r = Inr () \<and> regions_covered ld start ende (m_entries m) \<or> r = Inl ENOMEM)))"
  by (rule mapAdd_cases [OF assms])

theorem mapAdd_reserves_loader_witness:
  "\<exists>r sp'. syspage_mapAdd sizes_example attrs_example linker_example ''ram'' 0x20000000 0x20004000 ''rwx'' page_example =
     Some (r, sp') \<and> page_ok sp'"
  using mapAdd_reserves_loader [OF examples_ok(3,1,2), of "0x20000000" "0x20004000" "''ram''" attrs_example "''rwx''"]
  by (auto simp: hal_strlen_cstr NUL_def)

text \<open>
  C20: On every page built from the initial one by adding maps (with start not above end), entries and programs, allocating and setting the kernel's address and the console, the maps do not overlap and have different
  names, and the entries of every map are ordered, pairwise disjoint and inside the map. Entries and programs, which the code does not check against the end of the map, have to be added so
  that they fit: at a fixed place, the aligned block lies in the map; where the place is searched, the block fits at the start of a map without entries, or the
  map with entries has them and its end aligned and lies below 4 GiB; the size is not 0.
\<close>

theorem page_maps_disjoint:
  assumes "page_reach sz ab ld sp" "sizes_ok sz" "ld_hs ld < ld_heap_limit ld"
  shows "(\<forall>j<length (sp_maps sp). entries_ok (m_entries (sp_maps sp ! j)) \<and>
      (\<forall>e\<in>set (m_entries (sp_maps sp ! j)). m_start (sp_maps sp ! j) \<le> e_start e \<and> e_end e \<le> m_end (sp_maps sp ! j)) \<and>
      (\<forall>i<j. \<not> (m_start (sp_maps sp ! i) < m_end (sp_maps sp ! j) \<and> m_end (sp_maps sp ! i) > m_start (sp_maps sp ! j)) \<and>
        m_name (sp_maps sp ! i) \<noteq> m_name (sp_maps sp ! j)))"
  using page_reach_invariant [OF assms]
  by (auto simp: page_ok_def sorted_wrt_iff_nth_less maps_apart_def list_all_length map_ok_def)

lemma no_entries: "hal_memoryGetNextEntry ld start ende = None \<Longrightarrow> map_entries sz ld i start ende sp = Some (Inr (), sp)"
  by (simp add: map_entries.simps)

definition page_with :: "string \<Rightarrow> addr_t \<Rightarrow> addr_t \<Rightarrow> syspage_t \<Rightarrow> syspage_t" where
  "page_with name start ende sp = snd (the (syspage_mapAdd sizes_example attrs_example linker_example name start ende ''rw'' sp))"

lemma page_with_reach:
  assumes "page_reach sizes_example attrs_example linker_example sp" "start \<le> ende" "hal_strlen name < 2 ^ 62 - 1"
  shows "page_reach sizes_example attrs_example linker_example (page_with name start ende sp)"
proof -
  have "page_ok sp" using page_reach_invariant [OF assms(1)] examples_ok by blast
  then obtain r sp' where "syspage_mapAdd sizes_example attrs_example linker_example name start ende ''rw'' sp = Some (r, sp')"
    using mapAdd_cases [OF _ examples_ok(1,2) assms(2,3)] by blast
  then show ?thesis using assms page_reach.mapAdd by (fastforce simp: page_with_def)
qed

definition page_two :: syspage_t where
  "page_two = page_with ''b'' 0x2000 0x3000 (page_with ''a'' 0x1000 0x2000 page_example)"

lemmas page_evaluation = page_with_def page_example_def syspage_init_def sizes_example_def attrs_example_def
  linker_example_def syspage_mapAdd_def Let_def syspage_alloc_def align_long_def syspage_strAttr2ui_def attr_of_char_def
  NUL_def hal_strlen_cstr hal_strcmp_eq_0 hal_memoryAddMap_def no_entries hal_memoryGetNextEntry_def hal_getMinOverlappedRange_def

lemma page_two_maps:
  "sp_maps page_two = [\<lparr>m_name = ''a'', m_start = 0x1000, m_end = 0x2000, m_attr = 3, m_id = 0, m_entries = []\<rparr>,
     \<lparr>m_name = ''b'', m_start = 0x2000, m_end = 0x3000, m_attr = 3, m_id = 1, m_entries = []\<rparr>]"
  "page_reach sizes_example attrs_example linker_example page_two"
proof -
  show "sp_maps page_two = [\<lparr>m_name = ''a'', m_start = 0x1000, m_end = 0x2000, m_attr = 3, m_id = 0, m_entries = []\<rparr>,
     \<lparr>m_name = ''b'', m_start = 0x2000, m_end = 0x3000, m_attr = 3, m_id = 1, m_entries = []\<rparr>]"
    by (simp add: page_two_def page_evaluation)
  show "page_reach sizes_example attrs_example linker_example page_two"
    unfolding page_two_def by (intro page_with_reach examples_ok(4)) (simp_all add: hal_strlen_cstr NUL_def)
qed

text \<open>A program of 2 KiB placed in the first of the two maps, where a search finds its start.\<close>

definition page_prog :: syspage_t where
  "page_prog = snd (syspage_progAllocateAndAdd sizes_example
     \<lparr>p_argv = [], p_imaps = [], p_dmaps = [], p_imapSz = 0, p_dmapSz = 0, p_start = 0, p_end = 0\<rparr> ''a'' 0x800 ''psh'' 1 False page_two)"

lemma align_example: "ALIGN_ADDR 0x1000 0x1000 = 0x1000"
  by code_simp

lemma page_prog_reach: "page_reach sizes_example attrs_example linker_example page_prog"
proof -
  have "entry_fine (Some ''a'') (-1) 0x800 (size_page sizes_example) page_two"
    by (simp add: entry_fine_def syspage_mapGet_def page_two_maps(1) hal_strcmp_eq_0 NUL_def search_fine_def fits_at_def sizes_example_def align_example)
  then show ?thesis
    unfolding page_prog_def by (rule progAllocate [OF page_two_maps(2) _ _ surjective_pairing]) (simp add: hal_strlen_cstr NUL_def)
qed

lemma page_prog_maps:
  "sp_maps page_prog = [\<lparr>m_name = ''a'', m_start = 0x1000, m_end = 0x2000, m_attr = 3, m_id = 0,
       m_entries = [\<lparr>e_start = 0x1000, e_end = 0x1800, e_type = hal_entryAllocated\<rparr>]\<rparr>,
     \<lparr>m_name = ''b'', m_start = 0x2000, m_end = 0x3000, m_attr = 3, m_id = 1, m_entries = []\<rparr>]"
  by (simp add: page_prog_def syspage_progAllocateAndAdd_def syspage_entryAdd_def syspage_mapGet_def syspage_bestFit_def align_example
      entry_insert_def insert_before_def syspage_progAdd_def page_two_def page_evaluation)

theorem page_maps_disjoint_witness:
  "length (sp_maps page_prog) = 2 \<and>
   (\<exists>e. m_entries (sp_maps page_prog ! 0) = [e] \<and> 0x1000 \<le> e_start e \<and> e_end e \<le> 0x2000) \<and>
   m_name (sp_maps page_prog ! 0) \<noteq> m_name (sp_maps page_prog ! 1)"
  using page_maps_disjoint [OF page_prog_reach examples_ok(1,2)] by (simp add: page_prog_maps)

text \<open>
  The attributes of a map survive printing and parsing: from the string \<open>syspage_uiAttr2str\<close> writes, \<open>syspage_strAttr2ui\<close> reads
  back the attributes that have a letter, provided that the six attributes are different bits.
\<close>

theorem attr_roundtrip:
  assumes "attrs_ok ab"
  shows "syspage_strAttr2ui ab (syspage_uiAttr2str ab attr) = Inr (attr AND attr_all ab)"
  by (rule attr_string_value [OF assms])

theorem attr_roundtrip_witness: "syspage_strAttr2ui attrs_example (syspage_uiAttr2str attrs_example 0x45) = Inr 5"
proof -
  have "attrs_ok attrs_example" "attr_all attrs_example = 63" by code_simp+
  then show ?thesis using attr_roundtrip [of attrs_example "0x45"] by simp
qed

text \<open>
  In a map without entries \<open>syspage_bestFit\<close> does not look at the size: a block larger than the map is granted.
\<close>

lemma bestFit_empty_map: "m_entries m = [] \<Longrightarrow> syspage_bestFit m siz align = Inr (ALIGN_ADDR (m_start m) align)"
  by (simp add: syspage_bestFit_def Let_def)

end
