(* ===== verification/Cmd.thy ===== *)
theory Cmd
  imports Phfs Syspage Getopt Strtoul
begin

text \<open>
  \<open>cmds/cmd.c\<close>: the command interpreter. A line is split into at most 10 arguments that are copied, each with its
  terminator, into a buffer of 256 characters; a script is a sequence of lines, each run by the command its first word
  names; the prompt edits a line key by key and keeps the last eight.

  A command gets its arguments and the state of the loader and returns its exit status and the new state;
  \<open>None\<close> means that it does not return. The state has the devices' world \<open>'w\<close>, the file system tables, the system page, the option
  parser, the base address of the \<open>alias\<close> command and the kernel's entry point. What the loader prints is not modelled.
\<close>

record 'w plo =
  plo_w :: 'w
  plo_ph :: phfs_t
  plo_sp :: syspage_t
  plo_opt :: getopt_t
  plo_aliasBase :: addr_t
  plo_entry :: addr_t

type_synonym 'w run = "string list \<Rightarrow> 'w plo \<Rightarrow> (int \<times> 'w plo) option"

record 'w cmd_t =
  cmd_name :: string
  cmd_run_fn :: "'w run"

definition SIZE_HIST :: nat where "SIZE_HIST = 8"
definition SIZE_CMD_ARG_LINE :: nat where "SIZE_CMD_ARG_LINE = 256"
definition SIZE_MSG_BUFF :: nat where "SIZE_MSG_BUFF = 0x100"
definition SIZE_MAGIC_NB :: nat where "SIZE_MAGIC_NB = 8"
definition SIZE_CMD_ARGV :: nat where "SIZE_CMD_ARGV = 10 + 1"
definition CMD_EXIT_FAILURE :: int where "CMD_EXIT_FAILURE = 1"
definition CMD_EXIT_SUCCESS :: int where "CMD_EXIT_SUCCESS = 0"

section \<open>Arguments\<close>

text \<open>
  The loop of \<open>cmd_parseArgLine\<close>: \<open>used\<close> characters of the buffer are taken, \<open>args\<close> are the arguments so far. The result
  is the argument list or the error, and the rest of the script.
\<close>

definition graph_prefix :: "string \<Rightarrow> string" where
  "graph_prefix s = takeWhile (\<lambda>c. lib_isgraph (code c)) s"

function parse_args :: "string \<Rightarrow> nat \<Rightarrow> nat \<Rightarrow> nat \<Rightarrow> string list \<Rightarrow> (errno + string list) \<times> string" where
  "parse_args s bufsz argvsz used args =
     (if chr0 s = NUL then (Inr args, s)
      else if lib_isspace (code (chr0 s)) then
        (if lib_isblank (code (chr0 s)) then parse_args (tl s) bufsz argvsz used args else (Inr args, tl s))
      else if length args + 1 \<ge> argvsz then (Inl EINVAL, s)
      else
        let w = take (bufsz - used) (graph_prefix s);
            used' = used + length w;
            rest = drop (length w) s
        in if used' \<ge> bufsz then (Inl ENOMEM, rest)
           else parse_args rest bufsz argvsz (used' + 1) (args @ [w]))"
  by pat_completeness auto
termination
proof (relation "measures [\<lambda>(s, b, n, u, args). n - length args, \<lambda>(s, b, n, u, args). length s]", goal_cases)
  case (2 s bufsz argvsz used args)
  then show ?case by (cases s) (auto simp: chr0_def)
qed auto

declare parse_args.simps [simp del]

datatype arg_line = EOF | Args "string list" | ArgError errno

definition cmd_parseArgLine :: "string \<Rightarrow> arg_line \<times> string" where
  "cmd_parseArgLine lines =
     (if chr0 lines = NUL then (EOF, lines)
      else case parse_args lines SIZE_CMD_ARG_LINE SIZE_CMD_ARGV 0 [] of
             (Inl e, rest) \<Rightarrow> (ArgError e, rest)
           | (Inr args, rest) \<Rightarrow> (Args args, rest))"

text \<open>
  The same function with its arrays: \<open>pos\<close> is \<open>buf\<close> as an offset into the buffer, and the pointers in \<open>argv\<close> are offsets, \<open>None\<close>
  for NULL. A store outside the buffer or outside \<open>argv\<close> is \<open>None\<close>. The result is the end of the script (\<open>None\<close>), the error or the number of arguments.
\<close>

fun copy_graph :: "string \<Rightarrow> nat \<Rightarrow> nat \<Rightarrow> string \<Rightarrow> (string \<times> nat \<times> string) option" where
  "copy_graph [] bufsz pos buf = Some ([], pos, buf)"
| "copy_graph (c # s) bufsz pos buf =
     (if lib_isgraph (code c) \<and> pos < bufsz then
        (case store_at pos c buf of None \<Rightarrow> None | Some buf' \<Rightarrow> copy_graph s bufsz (pos + 1) buf')
      else Some (c # s, pos, buf))"

type_synonym arg_store = "(errno + nat) option \<times> string \<times> string \<times> nat option list"

definition args_end :: "nat \<Rightarrow> string \<Rightarrow> string \<Rightarrow> nat option list \<Rightarrow> arg_store option" where
  "args_end argc s buf argv = map_option (\<lambda>argv'. (Some (Inr argc), s, buf, argv')) (store_at argc None argv)"

function arg_loop :: "string \<Rightarrow> nat \<Rightarrow> nat \<Rightarrow> nat \<Rightarrow> nat \<Rightarrow> string \<Rightarrow> nat option list \<Rightarrow> arg_store option" where
  "arg_loop s bufsz argvsz argc pos buf argv =
     (if chr0 s = NUL then args_end argc s buf argv
      else if lib_isspace (code (chr0 s)) then
        (if lib_isblank (code (chr0 s)) then arg_loop (tl s) bufsz argvsz argc pos buf argv else args_end argc (tl s) buf argv)
      else if argc + 1 \<ge> argvsz then Some (Some (Inl EINVAL), s, buf, argv)
      else case store_at argc (Some pos) argv of
          None \<Rightarrow> None
        | Some argv' \<Rightarrow>
            (case copy_graph s bufsz pos buf of
               None \<Rightarrow> None
             | Some (s', pos', buf') \<Rightarrow>
                 if pos' \<ge> bufsz then Some (Some (Inl ENOMEM), s', buf', argv')
                 else case store_at pos' NUL buf' of
                     None \<Rightarrow> None
                   | Some buf'' \<Rightarrow> arg_loop s' bufsz argvsz (argc + 1) (pos' + 1) buf'' argv'))"
  by pat_completeness auto
termination
proof (relation "measures [\<lambda>(s, b, n, argc, pos, buf, argv). n - argc, \<lambda>(s, b, n, argc, pos, buf, argv). length s]", goal_cases)
  case (2 s bufsz argvsz argc pos buf argv)
  then show ?case by (cases s) (auto simp: chr0_def)
qed auto

declare arg_loop.simps [simp del]

definition parseArgLine_store :: "string \<Rightarrow> string \<Rightarrow> nat option list \<Rightarrow> arg_store option" where
  "parseArgLine_store lines buf argv =
     (if chr0 lines = NUL then Some (None, lines, buf, argv) else arg_loop lines SIZE_CMD_ARG_LINE SIZE_CMD_ARGV 0 0 buf argv)"

section \<open>Scripts\<close>

definition cmd_getCmd :: "'w cmd_t list \<Rightarrow> nat \<Rightarrow> 'w cmd_t option" where
  "cmd_getCmd cmds i = (if i < length cmds then Some (cmds ! i) else None)"

text \<open>The first command whose name is \<open>argv[0]\<close>.\<close>

definition cmd_find :: "'w cmd_t list \<Rightarrow> string \<Rightarrow> 'w cmd_t option" where
  "cmd_find cmds name = List.find (\<lambda>c. hal_strcmp name (cmd_name c) = 0) cmds"

definition cmd_exec :: "'w cmd_t list \<Rightarrow> string list \<Rightarrow> 'w plo \<Rightarrow> (int \<times> 'w plo) option" where
  "cmd_exec cmds argv s =
     (case cmd_find cmds (hd argv) of
        None \<Rightarrow> Some (- errno_code EINVAL, s)
      | Some c \<Rightarrow>
          (case cmd_run_fn c argv (s\<lparr>plo_opt := lib_getoptReset\<rparr>) of
             None \<Rightarrow> None
           | Some (ret, s') \<Rightarrow>
               Some (if ret = CMD_EXIT_SUCCESS then 0 else if ret < 0 then ret else - errno_code EINVAL, s')))"

partial_function (option) cmd_parse :: "'w cmd_t list \<Rightarrow> string \<Rightarrow> 'w plo \<Rightarrow> (int \<times> 'w plo) option" where
  "cmd_parse cmds script s =
     (case cmd_parseArgLine script of
        (EOF, _) \<Rightarrow> Some (0, s)
      | (ArgError e, _) \<Rightarrow> Some (- errno_code e, s)
      | (Args argv, rest) \<Rightarrow>
          if argv = [] then cmd_parse cmds rest s
          else (case cmd_exec cmds argv s of
                  None \<Rightarrow> None
                | Some (ret, s') \<Rightarrow> if ret = 0 then cmd_parse cmds rest s' else Some (ret, s')))"

text \<open>The script linked into the image is the parameter \<open>script\<close>.\<close>

definition cmd_run :: "'w cmd_t list \<Rightarrow> string \<Rightarrow> 'w plo \<Rightarrow> (int \<times> 'w plo) option" where
  "cmd_run cmds script s = cmd_parse cmds script s"

section \<open>The prompt\<close>

record prompt_t =
  pr_ll :: nat
  pr_cl :: nat
  pr_lines :: "string list"
  pr_pos :: nat
  pr_newline :: bool

text \<open>A key: a character, or the code of a cursor key with character 0; the rest is what is still to be read.\<close>

definition read_key :: "string \<Rightarrow> (char \<times> nat \<times> string) option" where
  "read_key inp =
     (case inp of
        [] \<Rightarrow> None
      | c # r \<Rightarrow>
          if c = CHR 0x7F then Some (CHR 0x08, 0, r)
          else if c = CHR 0x1B then
            (case r of
               [] \<Rightarrow> None
             | d # r2 \<Rightarrow>
                 if d = CHR ''['' then
                   (case r2 of
                      [] \<Rightarrow> None
                    | e # r3 \<Rightarrow> Some (NUL, if e = CHR ''A'' then 72 else if e = CHR ''B'' then 80 else 0, r3))
                 else Some (NUL, 0, r2))
          else Some (c, 0, r))"

definition cur_line :: "prompt_t \<Rightarrow> string" where
  "cur_line p = pr_lines p ! pr_ll p"

definition set_line :: "prompt_t \<Rightarrow> string \<Rightarrow> prompt_t" where
  "set_line p l = p\<lparr>pr_lines := (pr_lines p)[pr_ll p := l]\<rparr>"

text \<open>\<open>hal_memcpy\<close> of line \<open>k\<close> with its terminator over the current line.\<close>

definition copy_line :: "nat \<Rightarrow> prompt_t \<Rightarrow> prompt_t" where
  "copy_line k p = (let l = pr_lines p ! k in set_line p (memcpy_to (cur_line p) 0 (take (hal_strlen l + 1) l)))"

text \<open>The history keys; \<open>pos\<close> becomes the length of the new line.\<close>

definition history_key :: "nat \<Rightarrow> prompt_t \<Rightarrow> prompt_t" where
  "history_key sc p =
     (let redraw = (\<lambda>q. q\<lparr>pr_pos := hal_strlen (cur_line q)\<rparr>) in
      if sc = 72 then
        (let ncl = (pr_cl p + SIZE_HIST - 1) mod SIZE_HIST in
         if ncl \<noteq> pr_ll p \<and> chr0 (pr_lines p ! ncl) \<noteq> NUL then redraw (copy_line ncl (p\<lparr>pr_cl := ncl\<rparr>)) else p)
      else if sc = 80 then
        (let ncl = (pr_cl p + 1) mod SIZE_HIST in
         if pr_cl p \<noteq> pr_ll p then
           redraw (if ncl \<noteq> pr_ll p then copy_line ncl (p\<lparr>pr_cl := ncl\<rparr>)
                   else set_line (p\<lparr>pr_cl := ncl\<rparr>) ((cur_line p)[0 := NUL]))
         else p)
      else p)"

definition edit_key :: "char \<Rightarrow> prompt_t \<Rightarrow> prompt_t" where
  "edit_key c p =
     (if c \<noteq> CHR 0x08 \<and> pr_pos p < SIZE_CMD_ARG_LINE - 1 then
        (set_line p ((cur_line p)[pr_pos p := c, Suc (pr_pos p) := NUL]))\<lparr>pr_pos := Suc (pr_pos p)\<rparr>
      else if c = CHR 0x08 \<and> pr_pos p > 0 then
        (set_line p ((cur_line p)[pr_pos p - 1 := NUL]))\<lparr>pr_pos := pr_pos p - 1\<rparr>
      else p)"

text \<open>One round of the loop: the new prompt state and the line to execute, if any.\<close>

definition prompt_key :: "char \<Rightarrow> nat \<Rightarrow> prompt_t \<Rightarrow> prompt_t \<times> string option" where
  "prompt_key c sc p =
     (if c = NUL then (history_key sc p, None)
      else if c = CHR 0x0D \<or> c = CHR 0x0A then
        (if c = CHR 0x0A \<and> pr_newline p then (p\<lparr>pr_newline := False\<rparr>, None)
         else
           let q = (if c = CHR 0x0D then p\<lparr>pr_newline := True\<rparr> else p) in
           if pr_pos q \<noteq> 0 then
             (let n = (pr_ll q + 1) mod SIZE_HIST in (q\<lparr>pr_ll := n, pr_cl := n, pr_pos := 0\<rparr>, Some (cur_line q)))
           else (q, None))
      else if c = CHR 0x09 then (p, None)
      else (edit_key c (p\<lparr>pr_newline := False\<rparr>), None))"

definition prompt_start :: "string list \<Rightarrow> prompt_t" where
  "prompt_start lines = \<lparr>pr_ll = 0, pr_cl = 0, pr_lines = map (\<lambda>l. l[0 := NUL]) lines, pr_pos = 0, pr_newline = False\<rparr>"

text \<open>
  The prompt on the characters \<open>inp\<close> the console delivers: it ends with the character \<open>#\<close>, or waits when the input is
  used up. The result of a command line is ignored, as in the C code.
\<close>

function prompt_loop :: "'w cmd_t list \<Rightarrow> string \<Rightarrow> prompt_t \<Rightarrow> 'w plo \<Rightarrow> (prompt_t \<times> 'w plo) option" where
  "prompt_loop cmds inp p s =
     (case read_key inp of
        None \<Rightarrow> Some (p, s)
      | Some (c, sc, rest) \<Rightarrow>
          (case prompt_key c sc p of
             (p', None) \<Rightarrow> if c = CHR ''#'' then Some (p', s) else prompt_loop cmds rest p' s
           | (p', Some l) \<Rightarrow>
               (case cmd_parse cmds l s of None \<Rightarrow> None | Some (_, s') \<Rightarrow> prompt_loop cmds rest p' s')))"
  by pat_completeness auto
termination
  by (relation "measure (\<lambda>(cmds, inp, p, s). length inp)")
    (auto simp: read_key_def split: list.splits if_splits)

declare prompt_loop.simps [simp del]

definition cmd_prompt :: "'w cmd_t list \<Rightarrow> string list \<Rightarrow> string \<Rightarrow> 'w plo \<Rightarrow> (prompt_t \<times> 'w plo) option" where
  "cmd_prompt cmds lines inp s = prompt_loop cmds inp (prompt_start lines) s"

section \<open>Splitting a line\<close>

lemma graph_not_space: "lib_isgraph (code c) \<Longrightarrow> \<not> lib_isspace (code c) \<and> c \<noteq> NUL"
  by (auto simp: ctype_defs NUL_def)

lemma graph_prefix_append:
  assumes "list_all (\<lambda>c. lib_isgraph (code c)) w" "s = [] \<or> \<not> lib_isgraph (code (hd s))"
  shows "graph_prefix (w @ s) = w"
proof -
  have "graph_prefix (w @ s) = w @ graph_prefix s"
    unfolding graph_prefix_def using assms(1) by (intro takeWhile_append2) (auto simp: list_all_iff)
  moreover have "graph_prefix s = []" using assms(2) by (cases s) (auto simp: graph_prefix_def)
  ultimately show ?thesis by simp
qed

text \<open>Every word fits: at most \<open>argvsz - 1\<close> of them, with their terminators at most \<open>bufsz\<close> characters.\<close>

definition buf_need :: "string list \<Rightarrow> nat" where
  "buf_need ws = sum_list (map (\<lambda>w. Suc (length w)) ws)"

lemma buf_need_simps [simp]: "buf_need [] = 0" "buf_need (w # ws) = Suc (length w) + buf_need ws"
  "buf_need (xs @ ys) = buf_need xs + buf_need ys"
  by (simp_all add: buf_need_def)

definition is_word :: "string \<Rightarrow> bool" where
  "is_word w \<longleftrightarrow> w \<noteq> [] \<and> list_all (\<lambda>c. lib_isgraph (code c)) w"

lemma parse_args_bounds:
  "parse_args s bufsz argvsz used args = (Inr r, rest) \<Longrightarrow> used = buf_need args \<Longrightarrow> used \<le> bufsz \<Longrightarrow>
   (args = [] \<or> length args < argvsz) \<Longrightarrow> list_all (\<lambda>w. list_all (\<lambda>c. lib_isgraph (code c)) w) args \<Longrightarrow>
   buf_need r \<le> bufsz \<and> (r = [] \<or> length r < argvsz) \<and> list_all (\<lambda>w. list_all (\<lambda>c. lib_isgraph (code c)) w) r \<and>
   length rest \<le> length s \<and> (chr0 s \<noteq> NUL \<longrightarrow> length rest < length s)"
proof (induction s bufsz argvsz used args rule: parse_args.induct)
  case (1 s bufsz argvsz used args)
  let ?w = "take (bufsz - used) (graph_prefix s)"
  let ?s' = "drop (length ?w) s"
  note eq = parse_args.simps [of s bufsz argvsz used args]
  consider (stop) "chr0 s = NUL" | (blank) "chr0 s \<noteq> NUL" "lib_isspace (code (chr0 s))" "lib_isblank (code (chr0 s))"
    | (line) "chr0 s \<noteq> NUL" "lib_isspace (code (chr0 s))" "\<not> lib_isblank (code (chr0 s))"
    | (word) "chr0 s \<noteq> NUL" "\<not> lib_isspace (code (chr0 s))" by blast
  then show ?case
  proof cases
    case stop
    then show ?thesis using "1.prems" eq by auto
  next
    case blank
    have "s \<noteq> []" using blank(1) by (auto simp: chr0_def)
    moreover have "parse_args (tl s) bufsz argvsz used args = (Inr r, rest)" using "1.prems"(1) blank eq by simp
    note "1.IH"(1) [OF blank this "1.prems"(2-5)]
    ultimately show ?thesis by (cases s) auto
  next
    case line
    then have "s \<noteq> []" "r = args" "rest = tl s" using "1.prems"(1) eq by (auto simp: chr0_def)
    then show ?thesis using "1.prems" by (cases s) auto
  next
    case word
    then have c: "\<not> length args + 1 \<ge> argvsz" "\<not> used + length ?w \<ge> bufsz"
      and rec: "parse_args ?s' bufsz argvsz (used + length ?w + 1) (args @ [?w]) = (Inr r, rest)"
      using "1.prems"(1) eq by (auto simp: Let_def split: if_splits)
    have g: "list_all (\<lambda>c. lib_isgraph (code c)) ?w"
      by (auto simp: list_all_iff graph_prefix_def dest!: in_set_takeD set_takeWhileD)
    note IH = "1.IH"(2) [OF word c(1) refl refl refl c(2) rec]
    have "buf_need r \<le> bufsz \<and> (r = [] \<or> length r < argvsz) \<and> list_all (\<lambda>w. list_all (\<lambda>c. lib_isgraph (code c)) w) r \<and>
        length rest \<le> length ?s' \<and> (chr0 ?s' \<noteq> NUL \<longrightarrow> length rest < length ?s')"
      using "1.prems" c g by (intro IH) auto
    moreover have "?w = [] \<Longrightarrow> ?s' = s" "?w \<noteq> [] \<Longrightarrow> length ?s' < length s"
      using word(1) by (auto simp: graph_prefix_def chr0_def split: list.splits)
    ultimately show ?thesis using word(1) by (cases "?w = []") auto
  qed
qed

text \<open>
  The arrays while a line is read: the buffer begins with the words so far, each with its terminator, and the pointers are their offsets.
\<close>

definition args_held :: "string list \<Rightarrow> string \<Rightarrow> nat option list \<Rightarrow> bool" where
  "args_held args buf argv \<longleftrightarrow> buf_need args \<le> length buf \<and> length args < length argv \<and>
     take (buf_need args) buf = concat (map (\<lambda>w. w @ [NUL]) args) \<and> (\<forall>i<length args. argv ! i = Some (buf_need (take i args)))"

lemma copy_graph_law:
  fixes s buf :: string
  assumes "bufsz \<le> length buf" "pos \<le> bufsz"
  defines "w \<equiv> take (bufsz - pos) (graph_prefix s)"
  shows "\<exists>buf'. copy_graph s bufsz pos buf = Some (drop (length w) s, pos + length w, buf') \<and> length buf' = length buf \<and>
    take (pos + length w) buf' = take pos buf @ w"
  unfolding w_def using assms(1,2)
proof (induction s arbitrary: pos buf)
  case Nil
  then show ?case by (simp add: graph_prefix_def)
next
  case (Cons c s)
  show ?case
  proof (cases "lib_isgraph (code c) \<and> pos < bufsz")
    case True
    then have st: "store_at pos c buf = Some (buf[pos := c])" "take (Suc pos) (buf[pos := c]) = take pos buf @ [c]"
      using Cons.prems by (simp_all add: store_at_def take_Suc_conv_app_nth)
    have "graph_prefix (c # s) = c # graph_prefix s" using True by (simp add: graph_prefix_def)
    moreover have "bufsz - pos = Suc (bufsz - Suc pos)" using True by (simp add: Suc_diff_Suc)
    ultimately have w: "take (bufsz - pos) (graph_prefix (c # s)) = c # take (bufsz - Suc pos) (graph_prefix s)" by simp
    show ?thesis using Cons.IH [of "buf[pos := c]" "Suc pos"] Cons.prems True st unfolding w by auto
  next
    case False
    then have "take (bufsz - pos) (graph_prefix (c # s)) = []" by (auto simp: graph_prefix_def)
    then show ?thesis using False by auto
  qed
qed

lemma args_held_step:
  assumes "args_held args buf argv" "length buf' = length buf" "take (buf_need args + length w) buf' = take (buf_need args) buf @ w"
    and "buf_need args + length w < length buf" "length args + 1 < length argv"
  shows "args_held (args @ [w]) (buf'[buf_need args + length w := NUL]) (argv[length args := Some (buf_need args)])"
proof -
  have "take (Suc (buf_need args + length w)) (buf'[buf_need args + length w := NUL]) = concat (map (\<lambda>w. w @ [NUL]) args) @ w @ [NUL]"
    using assms by (simp add: take_Suc_conv_app_nth args_held_def)
  then show ?thesis using assms by (auto simp: args_held_def nth_list_update less_Suc_eq)
qed

lemma arg_loop_law:
  "args_held args buf argv \<Longrightarrow> bufsz = length buf \<Longrightarrow> argvsz = length argv \<Longrightarrow>
   (case parse_args s bufsz argvsz (buf_need args) args of
      (Inl e, rest) \<Rightarrow> \<exists>buf' argv'. arg_loop s bufsz argvsz (length args) (buf_need args) buf argv = Some (Some (Inl e), rest, buf', argv')
    | (Inr ws, rest) \<Rightarrow> \<exists>buf' argv'. arg_loop s bufsz argvsz (length args) (buf_need args) buf argv =
        Some (Some (Inr (length ws)), rest, buf', argv') \<and> args_held ws buf' argv' \<and> argv' ! length ws = None \<and> length buf' = bufsz)"
proof (induction s bufsz argvsz "buf_need args" args arbitrary: buf argv rule: parse_args.induct)
  case (1 s bufsz argvsz args)
  let ?w = "take (bufsz - buf_need args) (graph_prefix s)"
  note eq = parse_args.simps [of s bufsz argvsz "buf_need args" args] arg_loop.simps [of s bufsz argvsz "length args" "buf_need args" buf argv]
  have fin: "\<exists>argv'. args_end (length args) rest buf argv = Some (Some (Inr (length args)), rest, buf, argv') \<and> args_held args buf argv' \<and>
      argv' ! length args = None" for rest
    using "1.prems"(1) by (auto simp: args_end_def store_at_def args_held_def)
  consider (stop) "chr0 s = NUL" | (blank) "chr0 s \<noteq> NUL" "lib_isspace (code (chr0 s))" "lib_isblank (code (chr0 s))"
    | (line) "chr0 s \<noteq> NUL" "lib_isspace (code (chr0 s))" "\<not> lib_isblank (code (chr0 s))"
    | (many) "chr0 s \<noteq> NUL" "\<not> lib_isspace (code (chr0 s))" "length args + 1 \<ge> argvsz"
    | (word) "chr0 s \<noteq> NUL" "\<not> lib_isspace (code (chr0 s))" "\<not> length args + 1 \<ge> argvsz" by blast
  then show ?case
  proof cases
    case stop
    then show ?thesis using fin [of s] "1.prems"(2) unfolding eq by auto
  next
    case blank
    then have "arg_loop s bufsz argvsz (length args) (buf_need args) buf argv = arg_loop (tl s) bufsz argvsz (length args) (buf_need args) buf argv"
      "parse_args s bufsz argvsz (buf_need args) args = parse_args (tl s) bufsz argvsz (buf_need args) args" unfolding eq by simp_all
    then show ?thesis using "1.hyps"(1) [OF blank "1.prems"] by (simp only:)
  next
    case line
    then show ?thesis using fin [of "tl s"] "1.prems"(2) unfolding eq by auto
  next
    case many
    then show ?thesis unfolding eq by simp
  next
    case word
    obtain w where w: "take (bufsz - buf_need args) (graph_prefix s) = w" by blast
    have h: "buf_need args \<le> bufsz" "bufsz \<le> length buf" using "1.prems" by (simp_all add: args_held_def)
    obtain buf' where c: "copy_graph s bufsz (buf_need args) buf = Some (drop (length w) s, buf_need args + length w, buf')" "length buf' = length buf"
        "take (buf_need args + length w) buf' = take (buf_need args) buf @ w"
      using copy_graph_law [OF h(2,1), of s] unfolding w by blast
    have st: "store_at (length args) (Some (buf_need args)) argv = Some (argv[length args := Some (buf_need args)])"
      using word(3) "1.prems"(3) by (simp add: store_at_def)
    show ?thesis
    proof (cases "buf_need args + length w \<ge> bufsz")
      case True
      then show ?thesis using word c(1) st unfolding eq Let_def w by simp
    next
      case False
      let ?buf = "buf'[buf_need args + length w := NUL]" and ?argv = "argv[length args := Some (buf_need args)]"
      have held: "args_held (args @ [w]) ?buf ?argv"
        using False word(3) "1.prems" c by (intro args_held_step) (simp_all add: not_le)
      have need: "buf_need args + length w + 1 = buf_need (args @ [w])" by simp
      have "store_at (buf_need args + length w) NUL buf' = Some ?buf" using False "1.prems"(2) c(2) by (simp add: store_at_def)
      then have e: "arg_loop s bufsz argvsz (length args) (buf_need args) buf argv =
          arg_loop (drop (length w) s) bufsz argvsz (length (args @ [w])) (buf_need (args @ [w])) ?buf ?argv"
        "parse_args s bufsz argvsz (buf_need args) args = parse_args (drop (length w) s) bufsz argvsz (buf_need (args @ [w])) (args @ [w])"
        using word False c(1) st unfolding eq Let_def w by simp_all
      show ?thesis unfolding e
        by (rule "1.hyps"(2) [OF word w [symmetric] refl refl False need held]) (use "1.prems" c(2) in simp_all)
    qed
  qed
qed

lemma args_held_word:
  assumes "args_held ws buf argv" "i < length ws"
  shows "\<exists>off. argv ! i = Some off \<and> off + length (ws ! i) < length buf \<and> take (Suc (length (ws ! i))) (drop off buf) = ws ! i @ [NUL]"
proof -
  let ?t = "\<lambda>xs. concat (map (\<lambda>w. w @ [NUL]) xs)" and ?off = "buf_need (take i ws)"
  have ws: "ws = take i ws @ ws ! i # drop (Suc i) ws" using assms(2) by (rule id_take_nth_drop)
  have need: "buf_need ws = ?off + (Suc (length (ws ! i)) + buf_need (drop (Suc i) ws))" by (subst ws) simp
  have lt: "length (?t xs) = buf_need xs" for xs by (induction xs) simp_all
  have "take (buf_need ws) buf = ?t (take i ws) @ (ws ! i @ [NUL]) @ ?t (drop (Suc i) ws)"
    using assms(1) arg_cong [OF ws, of ?t] by (simp add: args_held_def)
  then have "take (Suc (length (ws ! i))) (drop ?off (take (buf_need ws) buf)) = ws ! i @ [NUL]" using lt [of "take i ws"] by simp
  moreover have "take (Suc (length (ws ! i))) (drop ?off (take (buf_need ws) buf)) = take (Suc (length (ws ! i))) (drop ?off buf)"
    unfolding need drop_take by simp
  ultimately show ?thesis using assms need by (auto simp: args_held_def)
qed

lemma parseArgLine_shorter:
  assumes "cmd_parseArgLine script = (Args argv, rest)"
  shows "length rest < length script"
  using assms parse_args_bounds [of script SIZE_CMD_ARG_LINE SIZE_CMD_ARGV 0 "[]" argv rest]
  by (auto simp: cmd_parseArgLine_def split: if_splits prod.splits sum.splits)

text \<open>A line as one would write it: words, each followed by a blank, and the end of the line.\<close>

definition print_line :: "string list \<Rightarrow> string" where
  "print_line ws = concat (map (\<lambda>w. w @ '' '') ws) @ [CHR 0x0A]"

definition line_ok :: "string list \<Rightarrow> bool" where
  "line_ok ws \<longleftrightarrow> list_all is_word ws \<and> length ws < SIZE_CMD_ARGV \<and> buf_need ws \<le> SIZE_CMD_ARG_LINE"

lemma parse_args_print:
  "list_all is_word ws \<Longrightarrow> length args + length ws < argvsz \<Longrightarrow> used + buf_need ws \<le> bufsz \<Longrightarrow>
   parse_args (print_line ws @ rest) bufsz argvsz used args = (Inr (args @ ws), rest)"
proof (induction ws arbitrary: used args)
  case Nil
  then show ?case by (simp add: print_line_def parse_args.simps [of "CHR 0x0A # rest"] chr0_def ctype_defs NUL_def)
next
  case (Cons w ws)
  let ?t = "'' '' @ print_line ws @ rest"
  have w: "w \<noteq> []" "list_all (\<lambda>c. lib_isgraph (code c)) w" using Cons.prems(1) by (auto simp: is_word_def)
  then obtain c v where cv: "w = c # v" by (cases w) auto
  have s: "print_line (w # ws) @ rest = w @ ?t" by (simp add: print_line_def)
  have p: "graph_prefix (w @ ?t) = w" using w(2) by (intro graph_prefix_append) (simp_all add: ctype_defs)
  have c: "chr0 (w @ ?t) = c" "lib_isgraph (code c)" using cv w(2) by (simp_all add: chr0_def)
  have "parse_args (w @ ?t) bufsz argvsz used args = parse_args ?t bufsz argvsz (used + length w + 1) (args @ [w])"
    using graph_not_space [OF c(2)] c(1) Cons.prems(2,3) p by (subst parse_args.simps) (simp add: Let_def)
  also have "\<dots> = parse_args (print_line ws @ rest) bufsz argvsz (used + length w + 1) (args @ [w])"
    by (simp add: parse_args.simps [of "CHR '' '' # print_line ws @ rest"] chr0_def ctype_defs NUL_def)
  also have "\<dots> = (Inr ((args @ [w]) @ ws), rest)" using Cons.prems by (intro Cons.IH) simp_all
  finally show ?case using s by simp
qed

lemma parseArgLine_print:
  assumes "line_ok ws"
  shows "cmd_parseArgLine (print_line ws @ rest) = (Args ws, rest)"
proof -
  have "chr0 (print_line ws @ rest) \<noteq> NUL"
  proof (cases ws)
    case Nil
    then show ?thesis by (simp add: print_line_def chr0_def NUL_def)
  next
    case (Cons w vs)
    then obtain c v where "w = c # v" "lib_isgraph (code c)" using assms by (cases w) (auto simp: line_ok_def is_word_def)
    then show ?thesis using Cons graph_not_space [of c] by (simp add: print_line_def chr0_def)
  qed
  moreover have "parse_args (print_line ws @ rest) SIZE_CMD_ARG_LINE SIZE_CMD_ARGV 0 [] = (Inr ([] @ ws), rest)"
    using assms by (intro parse_args_print) (simp_all add: line_ok_def)
  ultimately show ?thesis by (simp add: cmd_parseArgLine_def)
qed

section \<open>Running a script\<close>

text \<open>The commands of a script one after the other, up to the first that fails.\<close>

fun run_lines :: "'w cmd_t list \<Rightarrow> string list list \<Rightarrow> 'w plo \<Rightarrow> (int \<times> 'w plo) option" where
  "run_lines cmds [] s = Some (0, s)"
| "run_lines cmds (argv # ls) s =
     (if argv = [] then run_lines cmds ls s
      else case cmd_exec cmds argv s of
             None \<Rightarrow> None
           | Some (ret, s') \<Rightarrow> if ret = 0 then run_lines cmds ls s' else Some (ret, s'))"

lemma cmd_parse_lines:
  "list_all line_ok ls \<Longrightarrow> cmd_parse cmds (concat (map print_line ls)) s = run_lines cmds ls s"
proof (induction ls arbitrary: s)
  case Nil
  then show ?case by (simp add: cmd_parse.simps [of _ "[]"] cmd_parseArgLine_def chr0_def)
next
  case (Cons argv ls)
  have "cmd_parseArgLine (concat (map print_line (argv # ls))) = (Args argv, concat (map print_line ls))"
    using Cons.prems parseArgLine_print [of argv "concat (map print_line ls)"] by simp
  then show ?case using Cons by (subst cmd_parse.simps) (auto split: option.splits)
qed

lemma cmd_parse_returns:
  assumes "\<And>c argv s. c \<in> set cmds \<Longrightarrow> cmd_run_fn c argv s \<noteq> None"
  shows "\<exists>ret s'. cmd_parse cmds script s = Some (ret, s')"
proof (induction script arbitrary: s rule: length_induct)
  case (1 script)
  obtain r rest where r: "cmd_parseArgLine script = (r, rest)" by force
  show ?case
  proof (cases r)
    case (Args argv)
    have IH: "\<exists>ret s'. cmd_parse cmds rest t = Some (ret, s')" for t
      using 1 parseArgLine_shorter r Args by blast
    have "cmd_exec cmds argv s \<noteq> None"
    proof (cases "cmd_find cmds (hd argv)")
      case (Some c)
      then have "c \<in> set cmds" by (auto simp: cmd_find_def find_Some_iff)
      then have "cmd_run_fn c argv (s\<lparr>plo_opt := lib_getoptReset\<rparr>) \<noteq> None" by (rule assms)
      then show ?thesis using Some by (auto simp: cmd_exec_def)
    qed (simp add: cmd_exec_def)
    then obtain ret s' where "cmd_exec cmds argv s = Some (ret, s')" by auto
    then show ?thesis using IH r Args by (subst cmd_parse.simps) simp
  qed (use r in \<open>auto simp: cmd_parse.simps [of _ script]\<close>)
qed


section \<open>Editing a line\<close>

text \<open>
  The state of the prompt: eight lines of 256 characters, each with a terminator, and \<open>pos\<close> the length of the current
  line; only an empty line may still hold the characters of an old one.
\<close>

definition prompt_ok :: "prompt_t \<Rightarrow> bool" where
  "prompt_ok p \<longleftrightarrow> length (pr_lines p) = SIZE_HIST \<and>
     list_all (\<lambda>l. length l = SIZE_CMD_ARG_LINE \<and> NUL \<in> set l) (pr_lines p) \<and>
     pr_ll p < SIZE_HIST \<and> pr_cl p < SIZE_HIST \<and> pr_pos p < SIZE_CMD_ARG_LINE \<and>
     (pr_pos p \<noteq> 0 \<longrightarrow> length (cstr (cur_line p)) = pr_pos p)"

lemma cstr_prefix: "l = w @ NUL # r \<Longrightarrow> NUL \<notin> set w \<Longrightarrow> cstr l = w"
  by simp

lemma cstr_split: "NUL \<in> set l \<Longrightarrow> \<exists>r. l = cstr l @ NUL # r"
proof (induction l)
  case (Cons c l)
  then show ?case by (cases "c = NUL") auto
qed simp

lemma set_line_simps [simp]:
  "pr_ll (set_line p l) = pr_ll p" "pr_cl (set_line p l) = pr_cl p" "pr_pos (set_line p l) = pr_pos p"
  "length (pr_lines (set_line p l)) = length (pr_lines p)"
  "pr_ll p < length (pr_lines p) \<Longrightarrow> cur_line (set_line p l) = l"
  by (simp_all add: set_line_def cur_line_def)

lemma set_line_ok:
  assumes "prompt_ok p" "length l = SIZE_CMD_ARG_LINE" "length (cstr l) = n" "n < SIZE_CMD_ARG_LINE" "cl < SIZE_HIST"
  shows "prompt_ok ((set_line p l)\<lparr>pr_cl := cl, pr_pos := n\<rparr>)"
proof -
  have "NUL \<in> set l"
  proof (rule ccontr)
    assume "NUL \<notin> set l"
    then show False using assms(2-4) by simp
  qed
  then show ?thesis
    using assms by (auto simp: prompt_ok_def set_line_def cur_line_def list_all_length nth_list_update)
qed

lemma cur_line_ok:
  assumes "prompt_ok p"
  shows "length (cur_line p) = SIZE_CMD_ARG_LINE" "NUL \<in> set (cur_line p)" "pr_ll p < length (pr_lines p)"
  using assms by (auto simp: prompt_ok_def cur_line_def list_all_length)

lemma cstr_update:
  assumes "n \<le> length (cstr l)" "Suc n < length l" "c \<noteq> NUL"
  shows "cstr (l[n := c, Suc n := NUL]) = take n (cstr l) @ [c]" "cstr (l[n := NUL]) = take n (cstr l)"
proof -
  have t: "take n l = take n (cstr l)"
    using assms(1) by (metis append_take_drop_id cstr_def take_append take_take min.absorb1 takeWhile_eq_take)
  have n: "NUL \<notin> set (take n l)" unfolding t by (meson NUL_notin_cstr in_set_takeD)
  have "l = take n l @ l ! n # l ! Suc n # drop (Suc (Suc n)) l"
    using assms(2) by (metis Cons_nth_drop_Suc Suc_lessD append_take_drop_id)
  then obtain a b d where l: "l = take n l @ a # b # d" by blast
  have len: "length (take n l) = n" using assms(2) by simp
  have "(take n l @ a # b # d)[n := c, Suc n := NUL] = (take n l @ [c]) @ NUL # d"
    using assms(2) by (simp add: list_update_append)
  then have "l[n := c, Suc n := NUL] = (take n l @ [c]) @ NUL # d" using l by simp
  moreover have "NUL \<notin> set (take n l @ [c])" using n assms(3) by simp
  ultimately show "cstr (l[n := c, Suc n := NUL]) = take n (cstr l) @ [c]"
    using cstr_append_NUL [of "take n l @ [c]" d] t by simp
  have "l[n := NUL] = take n l @ NUL # drop (Suc n) l" using assms(2) by (simp add: upd_conv_take_nth_drop)
  then show "cstr (l[n := NUL]) = take n (cstr l)" using n t by simp
qed


lemma edit_key_ok:
  assumes "prompt_ok p" "c \<noteq> NUL"
  shows "prompt_ok (edit_key c p)"
proof -
  note cur = cur_line_ok [OF assms(1)]
  have pos: "pr_pos p < SIZE_CMD_ARG_LINE" "pr_pos p \<le> length (cstr (cur_line p))" "pr_cl p < SIZE_HIST"
    using assms(1) by (auto simp: prompt_ok_def)
  let ?ins = "(cur_line p)[pr_pos p := c, Suc (pr_pos p) := NUL]" and ?del = "(cur_line p)[pr_pos p - 1 := NUL]"
  have id: "(set_line p l)\<lparr>pr_cl := pr_cl p, pr_pos := n\<rparr> = (set_line p l)\<lparr>pr_pos := n\<rparr>" for l n
    by (simp add: set_line_def)
  have "length (cstr ?ins) = Suc (pr_pos p)" if "Suc (pr_pos p) < SIZE_CMD_ARG_LINE"
    using cstr_update(1) [OF pos(2) _ assms(2)] that cur(1) pos(2) by simp
  moreover have "length (cstr ?del) = pr_pos p - 1" if "0 < pr_pos p"
    using cstr_update(2) [of "pr_pos p - 1" "cur_line p", OF _ _ assms(2)] that cur(1) pos by simp
  ultimately show ?thesis
    using assms(1) cur(1) pos set_line_ok [OF assms(1), of ?ins _ "pr_cl p"] set_line_ok [OF assms(1), of ?del _ "pr_cl p"]
    by (auto simp: edit_key_def id)
qed

lemma copy_line_eq:
  assumes "prompt_ok p" "k < SIZE_HIST" "k \<noteq> pr_ll p"
  shows "length (memcpy_to (cur_line p) 0 (take (hal_strlen (pr_lines p ! k) + 1) (pr_lines p ! k))) = SIZE_CMD_ARG_LINE"
    "cstr (memcpy_to (cur_line p) 0 (take (hal_strlen (pr_lines p ! k) + 1) (pr_lines p ! k))) = cstr (pr_lines p ! k)"
    "length (cstr (pr_lines p ! k)) < SIZE_CMD_ARG_LINE"
proof -
  let ?l = "pr_lines p ! k"
  have l: "length ?l = SIZE_CMD_ARG_LINE" "NUL \<in> set ?l" using assms by (auto simp: prompt_ok_def list_all_length)
  obtain r where r: "?l = cstr ?l @ NUL # r" using cstr_split [OF l(2)] by blast
  have "length ?l = Suc (length (cstr ?l) + length r)" by (subst r) simp
  then show len: "length (cstr ?l) < SIZE_CMD_ARG_LINE" using l(1) by simp
  have t: "take (hal_strlen ?l + 1) ?l = cstr ?l @ [NUL]"
    unfolding hal_strlen_cstr by (subst (2) r) simp
  have c: "length (cur_line p) = SIZE_CMD_ARG_LINE" by (rule cur_line_ok [OF assms(1)])
  have "memcpy_to (cur_line p) 0 (cstr ?l @ [NUL]) = cstr ?l @ NUL # drop (Suc (length (cstr ?l))) (cur_line p)"
    using c len by (simp add: memcpy_to_def)
  then show "length (memcpy_to (cur_line p) 0 (take (hal_strlen ?l + 1) ?l)) = SIZE_CMD_ARG_LINE"
    "cstr (memcpy_to (cur_line p) 0 (take (hal_strlen ?l + 1) ?l)) = cstr ?l"
    unfolding t using c len by simp_all
qed

lemma redraw_ok:
  assumes "prompt_ok p" "length l = SIZE_CMD_ARG_LINE" "length (cstr l) < SIZE_CMD_ARG_LINE" "k < SIZE_HIST"
    and q: "q = (set_line p l)\<lparr>pr_cl := k\<rparr>"
  shows "prompt_ok (q\<lparr>pr_pos := hal_strlen (cur_line q)\<rparr>)"
proof -
  have "cur_line q = l" using cur_line_ok(3) [OF assms(1)] q by (simp add: set_line_def cur_line_def)
  then show ?thesis using set_line_ok [OF assms(1,2) refl assms(3,4)] by (simp add: q hal_strlen_cstr)
qed

lemma history_key_ok:
  assumes "prompt_ok p"
  shows "prompt_ok (history_key sc p)"
proof -
  note cur = cur_line_ok [OF assms]
  have copy: "prompt_ok ((copy_line k (p\<lparr>pr_cl := k\<rparr>))\<lparr>pr_pos := hal_strlen (cur_line (copy_line k (p\<lparr>pr_cl := k\<rparr>)))\<rparr>)"
    if k: "k < SIZE_HIST" "k \<noteq> pr_ll p" for k
  proof -
    note c = copy_line_eq [OF assms k]
    show ?thesis using c
      by (intro redraw_ok [OF assms c(1) _ k(1)]) (simp_all add: copy_line_def set_line_def cur_line_def Let_def)
  qed
  have clear: "prompt_ok ((set_line (p\<lparr>pr_cl := k\<rparr>) ((cur_line p)[0 := NUL]))\<lparr>pr_pos :=
      hal_strlen (cur_line (set_line (p\<lparr>pr_cl := k\<rparr>) ((cur_line p)[0 := NUL])))\<rparr>)" if "k < SIZE_HIST" for k
  proof -
    let ?m = "(cur_line p)[0 := NUL]"
    have m: "cstr ?m = []" using cur(1) by (cases "cur_line p") (simp_all add: SIZE_CMD_ARG_LINE_def)
    show ?thesis
      using m cur(1) by (intro redraw_ok [OF assms _ _ that, where l = ?m]) (simp_all add: SIZE_CMD_ARG_LINE_def set_line_def cur_line_def)
  qed
  have mod: "k mod SIZE_HIST < SIZE_HIST" for k by (simp add: SIZE_HIST_def)
  have ll: "pr_ll p < SIZE_HIST" using assms by (simp add: prompt_ok_def)
  define up down where "up = (pr_cl p + SIZE_HIST - 1) mod SIZE_HIST" and "down = (pr_cl p + 1) mod SIZE_HIST"
  have k: "up < SIZE_HIST" "down < SIZE_HIST" using mod by (simp_all add: up_def down_def)
  have "history_key sc p = p \<or> (\<exists>n<SIZE_HIST. n \<noteq> pr_ll p \<and>
      history_key sc p = (copy_line n (p\<lparr>pr_cl := n\<rparr>))\<lparr>pr_pos := hal_strlen (cur_line (copy_line n (p\<lparr>pr_cl := n\<rparr>)))\<rparr>) \<or>
      history_key sc p = (set_line (p\<lparr>pr_cl := pr_ll p\<rparr>) ((cur_line p)[0 := NUL]))\<lparr>pr_pos :=
        hal_strlen (cur_line (set_line (p\<lparr>pr_cl := pr_ll p\<rparr>) ((cur_line p)[0 := NUL])))\<rparr>"
    unfolding history_key_def Let_def up_def [symmetric] down_def [symmetric] using k by (auto split: if_split)
  then show ?thesis using assms copy clear [OF ll] by auto
qed

lemma prompt_key_ok:
  assumes "prompt_ok p" "prompt_key c sc p = (p', r)"
  shows "prompt_ok p'" "r = Some l \<Longrightarrow> l = cur_line p \<and> length (cstr l) = pr_pos p \<and> 0 < pr_pos p \<and> pr_pos p < SIZE_CMD_ARG_LINE"
proof -
  have nl: "prompt_ok (p\<lparr>pr_newline := b\<rparr>)" for b using assms(1) by (simp add: prompt_ok_def cur_line_def)
  have next_ok: "prompt_ok (q\<lparr>pr_ll := (pr_ll q + 1) mod SIZE_HIST, pr_cl := (pr_ll q + 1) mod SIZE_HIST, pr_pos := 0\<rparr>)"
    if "prompt_ok q" for q using that by (simp add: prompt_ok_def SIZE_HIST_def SIZE_CMD_ARG_LINE_def)
  show "prompt_ok p'"
    using assms nl next_ok [OF nl] next_ok [OF assms(1)] history_key_ok [OF assms(1)] edit_key_ok [OF nl]
    by (auto simp: prompt_key_def Let_def split: if_splits)
  show "r = Some l \<Longrightarrow> l = cur_line p \<and> length (cstr l) = pr_pos p \<and> 0 < pr_pos p \<and> pr_pos p < SIZE_CMD_ARG_LINE"
    using assms by (auto simp: prompt_key_def Let_def prompt_ok_def cur_line_def split: if_splits)
qed

lemma prompt_loop_ok:
  "prompt_loop cmds inp p s = Some (p', s') \<Longrightarrow> prompt_ok p \<Longrightarrow> prompt_ok p'"
proof (induction cmds inp p s rule: prompt_loop.induct)
  case (1 cmds inp p s)
  show ?case
  proof (cases "read_key inp")
    case None
    then show ?thesis using "1.prems" by (simp add: prompt_loop.simps)
  next
    case (Some k)
    obtain c sc rest where k: "k = (c, sc, rest)" by (cases k)
    obtain q r where q: "prompt_key c sc p = (q, r)" by force
    note ok = prompt_key_ok(1) [OF "1.prems"(2) q]
    show ?thesis
      using "1.prems"(1) "1.IH" Some k q ok
      by (subst (asm) prompt_loop.simps) (auto split: option.splits if_splits)
  qed
qed

section \<open>Typing a line\<close>

definition plain :: "char \<Rightarrow> bool" where
  "plain c \<longleftrightarrow> c \<notin> {NUL, CHR 0x08, CHR 0x09, CHR 0x0A, CHR 0x0D, CHR 0x1B, CHR ''#'', CHR 0x7F}"

lemma edit_plain:
  assumes "prompt_ok p" "plain c" "Suc (pr_pos p) < SIZE_CMD_ARG_LINE"
  shows "pr_pos (edit_key c p) = Suc (pr_pos p)" "pr_ll (edit_key c p) = pr_ll p"
    "take (Suc (pr_pos p)) (cstr (cur_line (edit_key c p))) = take (pr_pos p) (cstr (cur_line p)) @ [c]"
proof -
  let ?l = "(cur_line p)[pr_pos p := c, Suc (pr_pos p) := NUL]"
  note cur = cur_line_ok [OF assms(1)]
  have e: "edit_key c p = (set_line p ?l)\<lparr>pr_pos := Suc (pr_pos p)\<rparr>"
    using assms(2,3) by (simp add: edit_key_def plain_def)
  have pos: "pr_pos p \<le> length (cstr (cur_line p))" using assms(1) by (auto simp: prompt_ok_def)
  have "c \<noteq> NUL" using assms(2) by (simp add: plain_def)
  then have "cstr ?l = take (pr_pos p) (cstr (cur_line p)) @ [c]" using cstr_update(1) [OF pos] cur(1) assms(3) by simp
  then show "take (Suc (pr_pos p)) (cstr (cur_line (edit_key c p))) = take (pr_pos p) (cstr (cur_line p)) @ [c]"
    using cur(3) pos by (simp add: e set_line_def cur_line_def)
  show "pr_pos (edit_key c p) = Suc (pr_pos p)" "pr_ll (edit_key c p) = pr_ll p" by (simp_all add: e)
qed

lemma type_line:
  assumes "prompt_ok p" "list_all plain w" "pr_pos p + length w < SIZE_CMD_ARG_LINE"
  shows "\<exists>p'. prompt_loop cmds (w @ r) p s = prompt_loop cmds r p' s \<and> prompt_ok p' \<and> pr_ll p' = pr_ll p \<and>
    pr_pos p' = pr_pos p + length w \<and> take (pr_pos p') (cstr (cur_line p')) = take (pr_pos p) (cstr (cur_line p)) @ w"
  using assms
proof (induction w arbitrary: p)
  case Nil
  then show ?case by (intro exI [of _ p]) simp
next
  case (Cons c w)
  have c: "plain c" using Cons.prems(2) by simp
  let ?q = "p\<lparr>pr_newline := False\<rparr>"
  have q: "prompt_ok ?q" "cur_line ?q = cur_line p" using Cons.prems(1) by (simp_all add: prompt_ok_def cur_line_def)
  have b: "Suc (pr_pos ?q) < SIZE_CMD_ARG_LINE" using Cons.prems(3) by simp
  note e = edit_plain [OF q(1) c b]
  have "prompt_loop cmds ((c # w) @ r) p s = prompt_loop cmds (w @ r) (edit_key c ?q) s"
    using c by (subst prompt_loop.simps) (simp add: read_key_def prompt_key_def plain_def)
  moreover have "c \<noteq> NUL" using c by (simp add: plain_def)
  then have "prompt_ok (edit_key c ?q)" by (rule edit_key_ok [OF q(1)])
  then obtain p' where "prompt_loop cmds (w @ r) (edit_key c ?q) s = prompt_loop cmds r p' s" "prompt_ok p'"
      "pr_ll p' = pr_ll (edit_key c ?q)" "pr_pos p' = pr_pos (edit_key c ?q) + length w"
      "take (pr_pos p') (cstr (cur_line p')) = take (pr_pos (edit_key c ?q)) (cstr (cur_line (edit_key c ?q))) @ w"
    using Cons.IH [of "edit_key c ?q"] Cons.prems(2,3) e(1) by auto
  ultimately show ?case using e q(2) by (intro exI [of _ p']) simp
qed

lemma typed_enter:
  assumes "prompt_ok p" "pr_pos p = 0" "list_all plain w" "w \<noteq> []" "length w < SIZE_CMD_ARG_LINE"
  shows "\<exists>line p'. cstr line = w \<and> prompt_ok p' \<and> pr_pos p' = 0 \<and> pr_ll p' = (pr_ll p + 1) mod SIZE_HIST \<and>
    pr_lines p' ! pr_ll p = line \<and>
    prompt_loop cmds (w @ CHR 0x0D # r) p s =
      (case cmd_parse cmds line s of None \<Rightarrow> None | Some (_, s') \<Rightarrow> prompt_loop cmds r p' s')"
proof -
  obtain q where q: "prompt_loop cmds (w @ CHR 0x0D # r) p s = prompt_loop cmds (CHR 0x0D # r) q s" "prompt_ok q"
      "pr_ll q = pr_ll p" "pr_pos q = length w" "take (pr_pos q) (cstr (cur_line q)) = w"
    using type_line [OF assms(1,3), of cmds "CHR 0x0D # r" s] assms(2,5) by auto
  have "length (cstr (cur_line q)) = pr_pos q" using q(2,4) assms(4) by (auto simp: prompt_ok_def)
  then have line: "cstr (cur_line q) = w" using q(5) by simp
  define n where "n = (pr_ll q + 1) mod SIZE_HIST"
  let ?p = "q\<lparr>pr_newline := True, pr_ll := n, pr_cl := n, pr_pos := 0\<rparr>"
  have key: "prompt_key (CHR 0x0D) 0 q = (?p, Some (cur_line q))"
    using q(4) assms(4) by (simp add: prompt_key_def Let_def NUL_def cur_line_def n_def)
  then have "prompt_ok ?p" using prompt_key_ok(1) [OF q(2)] by blast
  moreover have "prompt_loop cmds (CHR 0x0D # r) q s =
      (case cmd_parse cmds (cur_line q) s of None \<Rightarrow> None | Some (_, s') \<Rightarrow> prompt_loop cmds r ?p s')"
    using key by (subst prompt_loop.simps) (simp add: read_key_def)
  ultimately show ?thesis using q(1,3) line
    by (intro exI [of _ "cur_line q"] exI [of _ ?p]) (simp add: cur_line_def n_def)
qed

lemma prompt_start_ok:
  assumes "length lines = SIZE_HIST" "list_all (\<lambda>l. length l = SIZE_CMD_ARG_LINE) lines"
  shows "prompt_ok (prompt_start lines)"
proof -
  have "NUL \<in> set (l[0 := NUL])" if "length l = SIZE_CMD_ARG_LINE" for l
    using that by (intro set_update_memI) (simp add: SIZE_CMD_ARG_LINE_def)
  then show ?thesis
    using assms by (auto simp: prompt_ok_def prompt_start_def SIZE_HIST_def SIZE_CMD_ARG_LINE_def list_all_iff)
qed

section \<open>Properties\<close>

text \<open>
  C40: Whatever the script holds, \<open>cmd_parseArgLine\<close> returns, and every store it makes is inside the buffer of 256 characters and the array of 11 pointers, on accepted and on refused lines. An accepted
  line has at most 10 arguments of printable characters; each pointer leads to its argument with the terminator in the buffer, a NULL pointer follows the last one, and some of the script is
  consumed. The arguments, errors and the rest of the script are those of the list model that the other properties use.
\<close>

theorem parseArgLine_in_bounds:
  assumes "length buf = 256" "length argv = 11"
  shows "\<exists>r rest buf' argv'. parseArgLine_store script buf argv = Some (r, rest, buf', argv') \<and>
    (case cmd_parseArgLine script of
       (EOF, rest0) \<Rightarrow> r = None \<and> rest = rest0
     | (ArgError e, rest0) \<Rightarrow> r = Some (Inl e) \<and> rest = rest0
     | (Args ws, rest0) \<Rightarrow> r = Some (Inr (length ws)) \<and> rest = rest0 \<and> length rest < length script \<and> length ws \<le> 10 \<and>
         (\<forall>w\<in>set ws. \<forall>c\<in>set w. lib_isgraph (code c)) \<and>
         (\<forall>i<length ws. \<exists>off. argv' ! i = Some off \<and> off + length (ws ! i) < 256 \<and> take (Suc (length (ws ! i))) (drop off buf') = ws ! i @ [NUL]) \<and>
         argv' ! length ws = None)"
proof (cases "chr0 script = NUL")
  case True
  then show ?thesis by (simp add: parseArgLine_store_def cmd_parseArgLine_def)
next
  case False
  obtain res rest where p: "parse_args script 256 11 0 [] = (res, rest)" by force
  have held: "args_held [] buf argv" using assms(2) by (simp add: args_held_def)
  show ?thesis
  proof (cases res)
    case (Inl e)
    then show ?thesis
      using False p arg_loop_law [OF held, of 256 11 script] assms
      by (auto simp: parseArgLine_store_def cmd_parseArgLine_def SIZE_CMD_ARG_LINE_def SIZE_CMD_ARGV_def)
  next
    case (Inr ws)
    obtain buf' argv' where a: "arg_loop script 256 11 0 0 buf argv = Some (Some (Inr (length ws)), rest, buf', argv')" "args_held ws buf' argv'"
        "argv' ! length ws = None" "length buf' = 256"
      using False p Inr arg_loop_law [OF held, of 256 11 script] assms by auto
    have b: "length ws \<le> 10" "list_all (\<lambda>w. list_all (\<lambda>c. lib_isgraph (code c)) w) ws" "length rest < length script"
      using parse_args_bounds [of script 256 11 0 "[]" ws rest] p Inr False by auto
    show ?thesis
      using False p Inr a b args_held_word [OF a(2)]
      by (auto simp: parseArgLine_store_def cmd_parseArgLine_def SIZE_CMD_ARG_LINE_def SIZE_CMD_ARGV_def list_all_iff)
  qed
qed

theorem parseArgLine_in_bounds_witness:
  "\<exists>buf' argv'. parseArgLine_store (print_line [''map'', ''ddr''] @ ''wait'') (replicate 256 NUL) (replicate 11 None) =
      Some (Some (Inr 2), ''wait'', buf', argv') \<and> (\<exists>off. argv' ! 1 = Some off \<and> take 4 (drop off buf') = ''ddr'' @ [NUL]) \<and> argv' ! 2 = None"
proof -
  have p: "cmd_parseArgLine (print_line [''map'', ''ddr''] @ ''wait'') = (Args [''map'', ''ddr''], ''wait'')"
    by (rule parseArgLine_print)
      (simp add: line_ok_def is_word_def SIZE_CMD_ARGV_def SIZE_CMD_ARG_LINE_def ctype_defs)
  have l: "length (replicate 256 NUL) = 256" "length (replicate 11 (None :: nat option)) = 11" by (simp_all only: length_replicate)
  obtain r rest buf' argv' where a: "parseArgLine_store (print_line [''map'', ''ddr''] @ ''wait'') (replicate 256 NUL) (replicate 11 None) = Some (r, rest, buf', argv')"
      "r = Some (Inr (length [''map'', ''ddr'']))" "rest = ''wait''"
      "\<forall>i<length [''map'', ''ddr'']. \<exists>off. argv' ! i = Some off \<and> off + length ([''map'', ''ddr''] ! i) < 256 \<and>
         take (Suc (length ([''map'', ''ddr''] ! i))) (drop off buf') = [''map'', ''ddr''] ! i @ [NUL]"
      "argv' ! length [''map'', ''ddr''] = None"
    using parseArgLine_in_bounds [OF l, of "print_line [''map'', ''ddr''] @ ''wait''"] unfolding p prod.case arg_line.case by (elim exE conjE) (rule that)
  have "\<exists>off. argv' ! 1 = Some off \<and> take 4 (drop off buf') = ''ddr'' @ [NUL]"
    using a(4) [rule_format, of 1] by (auto simp: eval_nat_numeral)
  then show ?thesis using a(1,2,3,5) by (intro exI [of _ buf'] exI [of _ argv']) (simp add: numeral_2_eq_2)
qed

text \<open>
  C7: A script of lines that fit the buffers, written with one blank after every word, runs its commands in order, each with exactly the
  words of its line, up to the first that fails; the script's result is that of the failed command, 0 if there is none.
\<close>

theorem script_runs_lines:
  assumes "list_all line_ok ls"
  shows "cmd_parse cmds (concat (map print_line ls)) s = run_lines cmds ls s"
  by (rule cmd_parse_lines [OF assms])

theorem script_runs_lines_witness:
  "\<forall>s. cmd_parse [\<lparr>cmd_name = ''echo'', cmd_run_fn = \<lambda>argv s. Some (int (length argv) - 2, s)\<rparr>]
     (concat (map print_line [[''echo'', ''a''], [], [''echo''], [''echo'', ''b'']])) (s :: unit plo) =
   Some (-1, s\<lparr>plo_opt := lib_getoptReset\<rparr>)"
proof -
  have ok: "list_all line_ok [[''echo'', ''a''], [], [''echo''], [''echo'', ''b'']]"
    by (simp add: line_ok_def is_word_def SIZE_CMD_ARGV_def SIZE_CMD_ARG_LINE_def ctype_defs)
  show ?thesis unfolding script_runs_lines [OF ok]
    by (simp add: cmd_exec_def cmd_find_def hal_strcmp_eq_0 NUL_def CMD_EXIT_SUCCESS_def)
qed

text \<open>
  C39: If every command returns, \<open>cmd_parse\<close> returns on every script, well-formed or not.
\<close>

theorem cmd_parse_terminates:
  assumes "\<And>c argv s. c \<in> set cmds \<Longrightarrow> cmd_run_fn c argv s \<noteq> None"
  shows "\<exists>ret s'. cmd_parse cmds script s = Some (ret, s')"
  by (rule cmd_parse_returns) (rule assms)

theorem cmd_parse_terminates_witness:
  "\<forall>s. \<exists>ret s'. cmd_parse [\<lparr>cmd_name = ''echo'', cmd_run_fn = \<lambda>_ s. Some (0, s)\<rparr>] ''echo a'' (s :: unit plo) = Some (ret, s')"
  by (intro allI cmd_parse_terminates) auto

text \<open>
  C33: Whatever is typed, the prompt stays inside its arrays: the line and history indices are below 8, the cursor below 256, and every line
  of the history is terminated; a line that is executed has the length of the cursor position, which is not 0.
\<close>

theorem prompt_in_bounds:
  assumes "length lines = 8" "list_all (\<lambda>l. length l = 256) lines" "cmd_prompt cmds lines inp s = Some (p, s')"
  shows "pr_ll p < 8 \<and> pr_cl p < 8 \<and> pr_pos p < 256 \<and> length (pr_lines p) = 8 \<and>
    (\<forall>l\<in>set (pr_lines p). length l = 256 \<and> NUL \<in> set l) \<and>
    (\<forall>c sc p' l. prompt_key c sc p = (p', Some l) \<longrightarrow> hal_strlen l = pr_pos p \<and> 0 < pr_pos p)"
proof -
  have "prompt_ok (prompt_start lines)"
    using assms(1,2) by (intro prompt_start_ok) (simp_all add: SIZE_HIST_def SIZE_CMD_ARG_LINE_def)
  then have ok: "prompt_ok p" using assms(3) prompt_loop_ok unfolding cmd_prompt_def by blast
  have "hal_strlen l = pr_pos p \<and> 0 < pr_pos p" if "prompt_key c sc p = (p', Some l)" for c sc p' l
    using prompt_key_ok(2) [OF ok that, of l] by (auto simp: hal_strlen_cstr)
  then show ?thesis using ok by (simp add: prompt_ok_def SIZE_HIST_def SIZE_CMD_ARG_LINE_def list_all_iff)
qed

definition lines_example :: "string list" where
  "lines_example = replicate SIZE_HIST (replicate SIZE_CMD_ARG_LINE NUL)"

theorem prompt_in_bounds_witness:
  "\<forall>s. \<exists>p s'. cmd_prompt [] lines_example ''ab#'' (s :: unit plo) = Some (p, s') \<and> pr_pos p < 256"
proof
  fix s :: "unit plo"
  have "\<exists>p s'. cmd_prompt [] lines_example ''ab#'' s = Some (p, s')"
    by (simp add: cmd_prompt_def prompt_loop.simps read_key_def prompt_key_def NUL_def)
  then show "\<exists>p s'. cmd_prompt [] lines_example ''ab#'' s = Some (p, s') \<and> pr_pos p < 256"
    using prompt_in_bounds [of lines_example "[]" "''ab#''" s]
    by (auto simp: lines_example_def SIZE_HIST_def SIZE_CMD_ARG_LINE_def list_all_iff)
qed

text \<open>
  C36: A line of 1 to 255 ordinary characters typed at an empty prompt and ended by the return key is executed as it was typed, is kept in the
  history, and leaves an empty prompt in the next slot.
\<close>

theorem prompt_runs_typed_line:
  assumes "prompt_ok p" "pr_pos p = 0" "list_all plain w" "0 < length w" "length w < 256"
  shows "\<exists>line p'. cstr line = w \<and> prompt_ok p' \<and> pr_pos p' = 0 \<and> pr_ll p' = (pr_ll p + 1) mod 8 \<and> pr_lines p' ! pr_ll p = line \<and>
    prompt_loop cmds (w @ CHR 0x0D # r) p s =
      (case cmd_parse cmds line s of None \<Rightarrow> None | Some (_, s') \<Rightarrow> prompt_loop cmds r p' s')"
  using typed_enter [of p w cmds r s] assms by (simp add: SIZE_CMD_ARG_LINE_def SIZE_HIST_def)

theorem prompt_runs_typed_line_witness:
  "\<forall>s. \<exists>line p'. cstr line = ''go'' \<and> pr_ll p' = 1 \<and>
     prompt_loop [] [CHR ''g'', CHR ''o'', CHR 0x0D] (prompt_start lines_example) (s :: unit plo) =
       (case cmd_parse [] line s of None \<Rightarrow> None | Some (_, s') \<Rightarrow> prompt_loop [] [] p' s')"
proof
  fix s :: "unit plo"
  have "prompt_ok (prompt_start lines_example)"
    by (rule prompt_start_ok) (simp_all add: lines_example_def list_all_iff)
  then show "\<exists>line p'. cstr line = ''go'' \<and> pr_ll p' = 1 \<and>
     prompt_loop [] [CHR ''g'', CHR ''o'', CHR 0x0D] (prompt_start lines_example) s =
       (case cmd_parse [] line s of None \<Rightarrow> None | Some (_, s') \<Rightarrow> prompt_loop [] [] p' s')"
    using prompt_runs_typed_line [of "prompt_start lines_example" "''go''" "[]" "[]" s]
    by (auto simp: prompt_start_def plain_def NUL_def)
qed

end
