(* ===== verification/Cmd_Files.thy ===== *)
theory Cmd_Files
  imports Cmd
begin

text \<open>
  The commands that work on files and devices: \<open>phfs\<close>, \<open>alias\<close>, \<open>map\<close>, \<open>copy\<close> and \<open>erase\<close> (\<open>cmds/phfs.c\<close>, \<open>alias.c\<close>, \<open>map.c\<close>,
  \<open>copy.c\<close>, \<open>erase.c\<close>). The environment \<open>'w env\<close> has what is fixed while the loader runs: the device table, the sizes and attribute bits from
  the kernel's headers, the regions from the linker, the memory write of the processor, the kernel's addresses and file name from the board configuration, and the contents of locals the C code does not
  initialise. A read through a NULL pointer does not return (\<open>None\<close>).
\<close>

record 'w env =
  env_stk :: stack_t
  env_devs :: "'w devs"
  env_sizes :: struct_sizes
  env_attr :: attr_bits
  env_ld :: linker
  env_store :: "addr_t \<Rightarrow> bytes \<Rightarrow> 'w \<Rightarrow> 'w"
  env_frame :: bytes
  env_prog0 :: syspage_prog_t
  env_addr0 :: addr_t
  env_vkernel :: addr_t
  env_pkernel :: addr_t
  env_kname :: string

definition lift_io :: "('w, 'a) io \<Rightarrow> ('w plo, 'a) io" where
  "lift_io m s = (case m (plo_w s) of None \<Rightarrow> None | Some (r, w') \<Rightarrow> Some (r, s\<lparr>plo_w := w'\<rparr>))"

definition io_ph :: "(phfs_t \<Rightarrow> (errno + 'a) \<times> phfs_t) \<Rightarrow> ('w plo, 'a) io" where
  "io_ph f s = (case f (plo_ph s) of (r, ph) \<Rightarrow> Some (r, s\<lparr>plo_ph := ph\<rparr>))"

definition io_sp :: "(syspage_t \<Rightarrow> (errno + 'a) \<times> syspage_t) \<Rightarrow> ('w plo, 'a) io" where
  "io_sp f s = (case f (plo_sp s) of (r, sp) \<Rightarrow> Some (r, s\<lparr>plo_sp := sp\<rparr>))"

text \<open>The two ways the commands turn the result of their steps into an exit status.\<close>

definition exit_status :: "('w plo, unit) io \<Rightarrow> 'w plo \<Rightarrow> (int \<times> 'w plo) option" where
  "exit_status m s =
     (case m s of None \<Rightarrow> None | Some (r, s') \<Rightarrow> Some (case r of Inl _ \<Rightarrow> CMD_EXIT_FAILURE | Inr _ \<Rightarrow> CMD_EXIT_SUCCESS, s'))"

definition exit_code :: "('w plo, unit) io \<Rightarrow> 'w plo \<Rightarrow> (int \<times> 'w plo) option" where
  "exit_code m s =
     (case m s of None \<Rightarrow> None | Some (r, s') \<Rightarrow> Some (case r of Inl e \<Rightarrow> - errno_code e | Inr _ \<Rightarrow> CMD_EXIT_SUCCESS, s'))"

definition open_file :: "'w env \<Rightarrow> string \<Rightarrow> string option \<Rightarrow> u32 \<Rightarrow> ('w plo, handler_t) io" where
  "open_file env dev file flags s = lift_io (phfs_open (env_stk env) (env_devs env) (plo_ph s) dev file flags) s"

definition close_file :: "'w env \<Rightarrow> handler_t \<Rightarrow> ('w plo, unit) io" where
  "close_file env h s = io_bind (io_try (lift_io (phfs_close (env_devs env) (plo_ph s) h))) (\<lambda>_. io_return ()) s"

text \<open>Run \<open>m\<close>, then close the file whatever the result; the result of closing is not looked at.\<close>

definition closing :: "'w env \<Rightarrow> handler_t \<Rightarrow> ('w plo, 'a) io \<Rightarrow> ('w plo, 'a) io" where
  "closing env h m = io_bind (io_try m) (\<lambda>r. io_bind (close_file env h) (\<lambda>_. io_of r))"

section \<open>\<open>phfs\<close>, \<open>alias\<close>, \<open>map\<close>\<close>

definition cmd_phfs :: "'w env \<Rightarrow> 'w run" where
  "cmd_phfs env argv s =
     (if length argv = 1 then Some (CMD_EXIT_SUCCESS, s)
      else if length argv < 3 \<or> length argv > 4 then Some (CMD_EXIT_FAILURE, s)
      else
        let (major, end1) = lib_strtoul (argv ! 2) 0 in
        if chr0 end1 \<noteq> CHR ''.'' then Some (CMD_EXIT_FAILURE, s)
        else
          let (minor, end2) = lib_strtoul (drop 1 end1) 0 in
          if chr0 end2 \<noteq> NUL then Some (CMD_EXIT_FAILURE, s)
          else exit_status (io_ph (phfs_devReg (env_devs env) (Some (argv ! 1)) (unat (ucast major :: u32)) (unat (ucast minor :: u32))
                 (if length argv = 3 then None else Some (argv ! 3)))) s)"

definition alias_register :: "bool \<Rightarrow> 'w run" where
  "alias_register relative argv s =
     (let ind = nat (optind (plo_opt s)) in
      if int (length argv) - optind (plo_opt s) \<noteq> 3 then Some (CMD_EXIT_FAILURE, s)
      else
        let (addr, end1) = lib_strtoul (argv ! (ind + 1)) 0 in
        if chr0 end1 \<noteq> NUL then Some (CMD_EXIT_FAILURE, s)
        else
          let (sz, end2) = lib_strtoul (argv ! (ind + 2)) 0 in
          if chr0 end2 \<noteq> NUL then Some (CMD_EXIT_FAILURE, s)
          else if relative \<and> addr + plo_aliasBase s < addr then Some (CMD_EXIT_FAILURE, s)
          else exit_status (io_ph (phfs_aliasReg (Some (argv ! ind)) (if relative then addr + plo_aliasBase s else addr) sz)) s)"

partial_function (option) alias_loop :: "bool \<Rightarrow> string list \<Rightarrow> 'w plo \<Rightarrow> (int \<times> 'w plo) option" where
  "alias_loop relative argv s =
     (case lib_getopt argv ''rb:'' (plo_opt s) of
        (None, opt) \<Rightarrow> alias_register relative argv (s\<lparr>plo_opt := opt\<rparr>)
      | (Some c, opt) \<Rightarrow>
          (let s1 = s\<lparr>plo_opt := opt\<rparr> in
           if c = CHR ''r'' then alias_loop True argv s1
           else if c = CHR ''b'' then
             (if length argv \<noteq> 3 then Some (CMD_EXIT_FAILURE, s1)
              else case optarg opt of
                  None \<Rightarrow> None
                | Some a \<Rightarrow>
                    (case lib_strtol a 0 of
                       (newBase, end1) \<Rightarrow>
                         if chr0 end1 \<noteq> NUL then Some (CMD_EXIT_FAILURE, s1)
                         else Some (CMD_EXIT_SUCCESS, s1\<lparr>plo_aliasBase := (if relative then plo_aliasBase s1 + newBase else newBase)\<rparr>)))
           else Some (CMD_EXIT_FAILURE, s1)))"

definition cmd_alias :: "'w run" where
  "cmd_alias argv s = (if length argv = 1 then Some (CMD_EXIT_SUCCESS, s) else alias_loop False argv s)"

definition cmd_map :: "'w env \<Rightarrow> 'w run" where
  "cmd_map env argv s =
     (if length argv = 1 then Some (CMD_EXIT_SUCCESS, s)
      else if length argv \<noteq> 5 then Some (CMD_EXIT_FAILURE, s)
      else
        let (start, end1) = lib_strtoul (argv ! 2) 0 in
        if chr0 end1 \<noteq> NUL then Some (CMD_EXIT_FAILURE, s)
        else
          let (ende, end2) = lib_strtoul (argv ! 3) 0 in
          if chr0 end2 \<noteq> NUL then Some (CMD_EXIT_FAILURE, s)
          else case syspage_mapAdd (env_sizes env) (env_attr env) (env_ld env) (argv ! 1) start ende (argv ! 4) (plo_sp s) of
                 None \<Rightarrow> None
               | Some (Inl _, sp) \<Rightarrow> Some (CMD_EXIT_FAILURE, s\<lparr>plo_sp := sp\<rparr>)
               | Some (Inr _, sp) \<Rightarrow> Some (CMD_EXIT_SUCCESS, s\<lparr>plo_sp := sp\<rparr>))"

section \<open>\<open>copy\<close>\<close>

text \<open>
  The inner loop writes what one read delivered: \<open>chunk\<close> bytes are left, \<open>wsz\<close> are written in all, \<open>res\<close> is the last
  result. Every round passes the start of the buffer.
\<close>

partial_function (option) copy_write :: "(addr_t \<Rightarrow> bytes \<Rightarrow> ('w, size_t) io) \<Rightarrow> addr_t \<Rightarrow> bytes \<Rightarrow> size_t \<Rightarrow> size_t \<Rightarrow> size_t \<Rightarrow>
    'w \<Rightarrow> ((errno + (size_t \<times> size_t)) \<times> 'w) option" where
  "copy_write wr dstAddr buff chunk wsz res w =
     (if chunk = 0 then Some (Inr (wsz, res), w)
      else case wr (dstAddr + wsz) (take (unat chunk) buff) w of
             None \<Rightarrow> None
           | Some (r, w1) \<Rightarrow>
               (case r of
                  Inl e \<Rightarrow> Some (Inl e, w1)
                | Inr n \<Rightarrow> copy_write wr dstAddr buff (chunk - n) (wsz + n) n w1))"

partial_function (option) copy_loop :: "(addr_t \<Rightarrow> size_t \<Rightarrow> ('w, bytes) io) \<Rightarrow> (addr_t \<Rightarrow> bytes \<Rightarrow> ('w, size_t) io) \<Rightarrow>
    addr_t \<Rightarrow> addr_t \<Rightarrow> size_t \<Rightarrow> size_t \<Rightarrow> size_t \<Rightarrow> 'w \<Rightarrow> ((errno + size_t) \<times> 'w) option" where
  "copy_loop rd wr srcAddr dstAddr srcSz rsz wsz w =
     (case rd (srcAddr + rsz) (if srcSz - rsz > of_nat SIZE_MSG_BUFF then of_nat SIZE_MSG_BUFF else srcSz - rsz) w of
        None \<Rightarrow> None
      | Some (r, w1) \<Rightarrow>
          (case r of
             Inl e \<Rightarrow> Some (Inl e, w1)
           | Inr buff \<Rightarrow>
               (case copy_write wr dstAddr buff (of_nat (length buff)) wsz (of_nat (length buff)) w1 of
                  None \<Rightarrow> None
                | Some (r2, w2) \<Rightarrow>
                    (case r2 of
                       Inl e \<Rightarrow> Some (Inl e, w2)
                     | Inr (wsz1, res) \<Rightarrow>
                         if srcSz - (rsz + of_nat (length buff)) > 0 \<and> sint res > 0
                         then copy_loop rd wr srcAddr dstAddr srcSz (rsz + of_nat (length buff)) wsz1 w2
                         else Some (Inr wsz1, w2)))))"

definition copy_size :: "size_t \<Rightarrow> size_t \<Rightarrow> size_t" where
  "copy_size srcSz dstSz =
     (if srcSz = 0 \<and> dstSz = 0 then -1
      else if srcSz \<noteq> 0 \<and> dstSz \<noteq> 0 then (if srcSz < dstSz then srcSz else dstSz)
      else (if srcSz > dstSz then srcSz else dstSz))"

definition cmd_cpphfs2phfs :: "'w env \<Rightarrow> phfs_t \<Rightarrow> handler_t \<Rightarrow> addr_t \<Rightarrow> size_t \<Rightarrow> handler_t \<Rightarrow> addr_t \<Rightarrow> size_t \<Rightarrow> ('w, size_t) io" where
  "cmd_cpphfs2phfs env ph srcHandler srcAddr srcSz dstHandler dstAddr dstSz =
     copy_loop (phfs_read (env_stk env) (env_devs env) ph srcHandler) (phfs_write (env_stk env) (env_devs env) ph dstHandler)
       srcAddr dstAddr (copy_size srcSz dstSz) 0 0"

record dev_arg =
  da_h :: handler_t
  da_offs :: addr_t
  da_sz :: size_t
  da_file :: "string option"
  da_next :: nat

definition PHFS_OPEN_RDONLY :: u32 where "PHFS_OPEN_RDONLY = 0"
definition PHFS_OPEN_RDWR :: u32 where "PHFS_OPEN_RDWR = 1"
definition PHFS_OPEN_CREATE :: u32 where "PHFS_OPEN_CREATE = 2"

definition cmd_devParse :: "'w env \<Rightarrow> string list \<Rightarrow> bool \<Rightarrow> nat \<Rightarrow> ('w plo, dev_arg) io" where
  "cmd_devParse env argv isDst argvID =
     (let flags = (if isDst then PHFS_OPEN_CREATE OR PHFS_OPEN_RDWR else PHFS_OPEN_RDONLY);
          i = argvID + 1
      in if i \<ge> length argv then io_throw EINVAL
         else
           let (offs, endptr) = lib_strtoul (argv ! i) 0 in
           if chr0 endptr \<noteq> NUL then
             io_bind (open_file env (argv ! argvID) (Some (argv ! i)) flags) (\<lambda>h.
             io_return \<lparr>da_h = h, da_offs = 0, da_sz = 0, da_file = Some (argv ! i), da_next = i + 1\<rparr>)
           else if i + 1 \<ge> length argv then (\<lambda>_. None)
           else
             let (sz, endptr2) = lib_strtoul (argv ! (i + 1)) 0 in
             if chr0 endptr2 \<noteq> NUL then io_throw EINVAL
             else io_bind (open_file env (argv ! argvID) None 0) (\<lambda>h.
                  io_return \<lparr>da_h = h, da_offs = offs, da_sz = sz, da_file = None, da_next = i + 2\<rparr>))"

definition cmd_copy :: "'w env \<Rightarrow> 'w run" where
  "cmd_copy env argv =
     exit_status
       (if length argv < 5 then io_throw EINVAL
        else
          io_bind (cmd_devParse env argv False 1) (\<lambda>src.
          io_bind (io_try (cmd_devParse env argv True (da_next src))) (\<lambda>rd.
          case rd of
            Inl e \<Rightarrow> io_bind (close_file env (da_h src)) (\<lambda>_. io_throw e)
          | Inr dst \<Rightarrow>
              io_bind (closing env (da_h dst) (closing env (da_h src)
                (\<lambda>s. lift_io (cmd_cpphfs2phfs env (plo_ph s) (da_h src) (da_offs src) (da_sz src) (da_h dst) (da_offs dst) (da_sz dst)) s)))
                (\<lambda>res. if sint res < 0 then io_throw EINVAL
                   else io_ph (phfs_aliasReg (case da_file dst of None \<Rightarrow> da_file src | Some f \<Rightarrow> Some f) (da_offs dst) res)))))"

section \<open>\<open>erase\<close>\<close>

text \<open>Built without \<open>PLO_ERASE_NEEDS_CONFIRMATION\<close>. Where \<open>lib_strtoul\<close> reads no digit, its end is the argument.\<close>

definition parse_num :: "string \<Rightarrow> errno + u64" where
  "parse_num a = (case lib_strtoul a 0 of (v, endptr) \<Rightarrow> if length endptr = length a then Inl EINVAL else Inr v)"

definition cmd_erase :: "'w env \<Rightarrow> 'w run" where
  "cmd_erase env argv =
     exit_status
       (if length argv \<noteq> 2 \<and> length argv \<noteq> 4 then io_throw EINVAL
        else
          io_bind (io_of (if length argv = 2 then Inr 0 else parse_num (argv ! 2))) (\<lambda>offs.
          io_bind (io_of (if length argv = 2 then Inr (-1) else parse_num (argv ! 3))) (\<lambda>len.
          io_bind (open_file env (argv ! 1) None PHFS_OPEN_RAWONLY) (\<lambda>h.
          io_bind (closing env h (\<lambda>s. lift_io (phfs_erase (env_devs env) (plo_ph s) h offs len 0) s)) (\<lambda>_.
          io_return ())))))"

lemma sint_of_nat_small: "n < 2 ^ 63 \<Longrightarrow> sint (of_nat n :: size_t) = int n"
proof -
  assume n: "n < 2 ^ 63"
  then have "uint (of_nat n :: size_t) = int n" by (simp add: uint_nat unat_of_nat_small)
  moreover have "signed_take_bit 63 (int n) = int n" using n by (intro signed_take_bit_int_eq_self) simp_all
  ultimately show ?thesis by (simp add: sint_uint)
qed

section \<open>What copying needs of its two ends\<close>

text \<open>
  The source delivers \<open>data\<close>, block by block, from \<open>src\<close> on; the destination is a device whose content \<open>out\<close> takes blocks at \<open>dst\<close>, which is
  position \<open>pos\<close> of it, without disturbing the source.
\<close>

locale copy_ends =
  fixes ok :: "'w \<Rightarrow> bool" and data :: bytes and out :: "'w \<Rightarrow> bytes" and pos :: nat
    and rd :: "addr_t \<Rightarrow> size_t \<Rightarrow> ('w, bytes) io" and wr :: "addr_t \<Rightarrow> bytes \<Rightarrow> ('w, size_t) io"
    and src dst :: addr_t
  assumes rd_in: "ok w \<Longrightarrow> k < length data \<Longrightarrow> k + unat len \<le> length data \<Longrightarrow>
      rd (src + of_nat k) len w = Some (Inr (memcpy_from data k (unat len)), w)"
    and wr_in: "ok w \<Longrightarrow> k < length data \<Longrightarrow> k + length bs \<le> length data \<Longrightarrow>
      \<exists>w'. wr (dst + of_nat k) bs w = Some (Inr (of_nat (length bs)), w') \<and> ok w' \<and> out w' = memcpy_to (out w) (pos + k) bs"
    and room: "ok w \<Longrightarrow> pos + length data \<le> length (out w)"
    and small: "ok w \<Longrightarrow> length data < 2 ^ 63"
begin

lemma write_chunk:
  assumes "ok w" "k < length data" "bs \<noteq> []" "k + length bs \<le> length data"
  shows "\<exists>w'. copy_write wr dst bs (of_nat (length bs)) (of_nat k) res w =
      Some (Inr (of_nat (k + length bs), of_nat (length bs)), w') \<and> ok w' \<and> out w' = memcpy_to (out w) (pos + k) bs"
proof -
  obtain w' where w': "wr (dst + of_nat k) bs w = Some (Inr (of_nat (length bs)), w')" "ok w'"
      "out w' = memcpy_to (out w) (pos + k) bs" using wr_in [OF assms(1,2,4)] by blast
  have l: "unat (of_nat (length bs) :: size_t) = length bs" using small [OF assms(1)] assms(4) by (intro unat_of_nat_small) simp
  then have "(of_nat (length bs) :: size_t) \<noteq> 0" using assms(3) by (metis length_0_conv unat_0)
  then show ?thesis
    using w' l by (simp add: copy_write.simps [of _ _ _ "of_nat (length bs)"] copy_write.simps [of _ _ _ 0])
qed

lemma memcpy_to_step:
  assumes "ok w" "k + n \<le> length data" "out w = memcpy_to o0 pos (take k data)" "pos + length data \<le> length o0"
  shows "memcpy_to (out w) (pos + k) (memcpy_from data k n) = memcpy_to o0 pos (take (k + n) data)"
proof -
  have "length (take k data) = k" "take (k + n) data = take k data @ memcpy_from data k n"
    using assms(2) by (simp_all add: memcpy_from_def take_add)
  then show ?thesis
    using assms memcpy_to_append [of pos "take k data" "memcpy_from data k n" o0] by simp
qed

text \<open>A round of the outer loop that reads and writes \<open>n\<close> bytes.\<close>

lemma copy_round:
  assumes "ok w" "k < length data" "0 < n" "k + n \<le> length data"
    and rd: "rd (src + of_nat k) (if srcSz - of_nat k > of_nat SIZE_MSG_BUFF then of_nat SIZE_MSG_BUFF else srcSz - of_nat k) w =
      Some (Inr (memcpy_from data k n), w)"
    and out: "out w = memcpy_to o0 pos (take k data)" "pos + length data \<le> length o0"
  shows "\<exists>w'. ok w' \<and> out w' = memcpy_to o0 pos (take (k + n) data) \<and>
    copy_loop rd wr src dst srcSz (of_nat k) (of_nat k) w =
      (if srcSz - of_nat (k + n) > 0 then copy_loop rd wr src dst srcSz (of_nat (k + n)) (of_nat (k + n)) w'
       else Some (Inr (of_nat (k + n)), w'))"
proof -
  let ?bs = "memcpy_from data k n"
  have l: "length ?bs = n" using assms(4) by simp
  then have "?bs \<noteq> []" using assms(3) by auto
  then obtain w' where w': "copy_write wr dst ?bs (of_nat n) (of_nat k) (of_nat n) w = Some (Inr (of_nat (k + n), of_nat n), w')"
      "ok w'" "out w' = memcpy_to (out w) (pos + k) ?bs"
    using write_chunk [OF assms(1,2), of ?bs "of_nat n"] assms(4) l by auto
  have "sint (of_nat n :: size_t) > 0"
    using small [OF assms(1)] assms(3,4) by (simp add: sint_of_nat_small)
  then show ?thesis
    using w' rd l memcpy_to_step [OF assms(1,4) out]
    by (intro exI [of _ w']) (subst copy_loop.simps, simp add: add.assoc)
qed

lemma word_left:
  assumes "ok w" "k \<le> length data"
  shows "unat (of_nat (length data) - of_nat k :: size_t) = length data - k"
    "(of_nat (length data) - of_nat k > (0 :: size_t)) \<longleftrightarrow> k < length data"
proof -
  have u: "unat (of_nat (length data) :: size_t) = length data" "unat (of_nat k :: size_t) = k"
    using small [OF assms(1)] assms(2) by (auto intro!: unat_of_nat_small)
  then have "(of_nat k :: size_t) \<le> of_nat (length data)" using assms(2) by (simp add: word_le_nat_alt)
  then show "unat (of_nat (length data) - of_nat k :: size_t) = length data - k" using u by (simp add: unat_minus_small)
  then show "(of_nat (length data) - of_nat k > (0 :: size_t)) \<longleftrightarrow> k < length data" by (simp add: word_less_nat_alt)
qed

text \<open>With the size given, all of it is copied.\<close>

lemma copy_sized:
  assumes "ok w" "k < length data" "out w = memcpy_to o0 pos (take k data)" "pos + length data \<le> length o0"
  shows "\<exists>w'. copy_loop rd wr src dst (of_nat (length data)) (of_nat k) (of_nat k) w = Some (Inr (of_nat (length data)), w') \<and>
    ok w' \<and> out w' = memcpy_to o0 pos data"
  using assms
proof (induction "length data - k" arbitrary: k w rule: less_induct)
  case less
  let ?n = "min SIZE_MSG_BUFF (length data - k)"
  let ?left = "of_nat (length data) - of_nat k :: size_t"
  have left: "unat ?left = length data - k" using word_left(1) [OF less.prems(1)] less.prems(2) by simp
  have len: "unat (if ?left > of_nat SIZE_MSG_BUFF then of_nat SIZE_MSG_BUFF else ?left) = ?n"
    using left by (auto simp: word_less_nat_alt SIZE_MSG_BUFF_def)
  have n: "0 < ?n" "k + ?n \<le> length data" using less.prems(2) by (auto simp: SIZE_MSG_BUFF_def)
  have "rd (src + of_nat k) (if ?left > of_nat SIZE_MSG_BUFF then of_nat SIZE_MSG_BUFF else ?left) w =
      Some (Inr (memcpy_from data k ?n), w)"
    using rd_in [OF less.prems(1,2)] len n(2) by metis
  from copy_round [OF less.prems(1,2) n this less.prems(3,4)]
  obtain w1 where w1: "ok w1" "out w1 = memcpy_to o0 pos (take (k + ?n) data)"
    "copy_loop rd wr src dst (of_nat (length data)) (of_nat k) (of_nat k) w =
      (if k + ?n < length data then copy_loop rd wr src dst (of_nat (length data)) (of_nat (k + ?n)) (of_nat (k + ?n)) w1
       else Some (Inr (of_nat (k + ?n)), w1))"
    using word_left(2) [OF less.prems(1) n(2)] by auto
  show ?case
  proof (cases "k + ?n < length data")
    case True
    have "length data - (k + ?n) < length data - k" using n(1) less.prems(2) by linarith
    from less.hyps [OF this w1(1) True w1(2) less.prems(4)] show ?thesis using w1(3) True by auto
  next
    case False
    then have "k + ?n = length data" using n(2) by linarith
    then show ?thesis using w1 False by auto
  qed
qed

end

text \<open>A source that ends: a read past the end of the data delivers what is left, and nothing at the end.\<close>

locale copy_file = copy_ends +
  assumes rd_any: "ok w \<Longrightarrow> k \<le> length data \<Longrightarrow> rd (src + of_nat k) len w = Some (Inr (take (unat len) (drop k data)), w)"
begin

text \<open>Without a size, the whole file is copied.\<close>

lemma copy_whole:
  assumes "ok w" "k \<le> length data" "out w = memcpy_to o0 pos (take k data)" "pos + length data \<le> length o0"
  shows "\<exists>w'. copy_loop rd wr src dst (-1) (of_nat k) (of_nat k) w = Some (Inr (of_nat (length data)), w') \<and>
    ok w' \<and> out w' = memcpy_to o0 pos data"
  using assms
proof (induction "length data - k" arbitrary: k w rule: less_induct)
  case less
  have k: "k < 2 ^ 63" using small [OF less.prems(1)] less.prems(2) by simp
  have left: "unat (-1 - of_nat k :: size_t) = 2 ^ 64 - 1 - k"
    using k by (subst unat_minus_small) (auto simp: word_le_nat_alt unat_of_nat_small unsigned_minus_1_eq_mask mask_eq_exp_minus_1)
  have c: "-1 - of_nat k > (of_nat SIZE_MSG_BUFF :: size_t)"
    using left k by (simp add: word_less_nat_alt SIZE_MSG_BUFF_def)
  have u: "unat (of_nat SIZE_MSG_BUFF :: size_t) = SIZE_MSG_BUFF" by (simp add: SIZE_MSG_BUFF_def)
  have rd: "rd (src + of_nat k) (if -1 - of_nat k > (of_nat SIZE_MSG_BUFF :: size_t) then of_nat SIZE_MSG_BUFF else -1 - of_nat k) w =
      Some (Inr (memcpy_from data k SIZE_MSG_BUFF), w)"
    using rd_any [OF less.prems(1,2)] c u by (simp add: memcpy_from_def)
  show ?case
  proof (cases "k = length data")
    case True
    have "copy_loop rd wr src dst (-1) (of_nat k) (of_nat k) w = Some (Inr (of_nat k), w)"
      using rd True by (subst copy_loop.simps) (simp add: memcpy_from_def copy_write.simps [of _ _ _ 0])
    then show ?thesis using less.prems True by auto
  next
    case False
    then have lt: "k < length data" using less.prems(2) by simp
    let ?n = "min SIZE_MSG_BUFF (length data - k)"
    have n: "0 < ?n" "k + ?n \<le> length data" using lt by (auto simp: SIZE_MSG_BUFF_def)
    have "memcpy_from data k SIZE_MSG_BUFF = memcpy_from data k ?n" by (simp add: memcpy_from_def min_def)
    from copy_round [OF less.prems(1) lt n rd [unfolded this] less.prems(3,4)]
    obtain w1 where w1: "ok w1" "out w1 = memcpy_to o0 pos (take (k + ?n) data)"
      "copy_loop rd wr src dst (-1) (of_nat k) (of_nat k) w =
        (if (-1 - of_nat (k + ?n) :: size_t) > 0 then copy_loop rd wr src dst (-1) (of_nat (k + ?n)) (of_nat (k + ?n)) w1
         else Some (Inr (of_nat (k + ?n)), w1))" by blast
    have "k + ?n < 2 ^ 63" using small [OF less.prems(1)] n(2) by linarith
    then have "(of_nat (k + ?n) :: size_t) \<noteq> -1"
      by (metis unat_of_nat_small sint_of_nat_small sint_n1 of_nat_less_0_iff neg_less_0_iff_less zero_less_one)
    then have "(-1 - of_nat (k + ?n) :: size_t) > 0" by (metis right_minus_eq word_neq_0_conv)
    moreover have "length data - (k + ?n) < length data - k" using n(1) lt by linarith
    note less.hyps [OF this w1(1) n(2) w1(2) less.prems(4)]
    ultimately show ?thesis using w1(3) by auto
  qed
qed

end

section \<open>Copies on the RAM storage\<close>

lemma raw_ops:
  assumes "is_ram ph (h_pd h)" "h_id h = -1"
  shows "phfs_write stk (ram_devs p) ph h = devs_write (ram_devs p) DEV_RAM 0"
    "phfs_read stk (ram_devs p) ph h offs n = devs_read (ram_devs p) DEV_RAM 0 offs n PHFS_TIMEOUT_MS"
  using assms by (simp_all add: phfs_write_def phfs_read_def is_ram_def Let_def fun_eq_iff)

text \<open>Two raw handles and two ranges of the bank that do not meet; the source range holds \<open>data\<close>.\<close>

definition dst_range :: "ram_params \<Rightarrow> phfs_t \<Rightarrow> handler_t \<Rightarrow> addr_t \<Rightarrow> nat \<Rightarrow> nat \<Rightarrow> bool" where
  "dst_range p ph h d n s \<longleftrightarrow> is_ram ph (h_pd h) \<and> h_id h = -1 \<and> n < 2 ^ 63 \<and>
     unat d + n \<le> unat (ram_size p) \<and> s + n \<le> unat (ram_size p) \<and> (s + n \<le> unat d \<or> unat d + n \<le> s)"

definition raw_ends :: "ram_params \<Rightarrow> phfs_t \<Rightarrow> handler_t \<Rightarrow> handler_t \<Rightarrow> addr_t \<Rightarrow> addr_t \<Rightarrow> bytes \<Rightarrow> mem \<Rightarrow> bool" where
  "raw_ends p ph h1 h2 s d data m \<longleftrightarrow> is_ram ph (h_pd h1) \<and> h_id h1 = -1 \<and> dst_range p ph h2 d (length data) (unat s) \<and>
     memcpy_from (ram_content p m) (unat s) (length data) = data"

lemma unat_offset:
  assumes "unat (a :: addr_t) + n \<le> unat (b :: size_t)" "k \<le> n"
  shows "unat (a + of_nat k) = unat a + k"
proof -
  have u: "unat (of_nat k :: addr_t) = k" using assms unat_less_exp [of b] by (intro unat_of_nat_small) simp
  then show ?thesis using assms unat_less_exp [of b] by (subst unat_plus_small) simp_all
qed

lemma write_keeps_source:
  assumes "dst_range p ph h d n s" "memcpy_from (ram_content p m) s n = data" "k < n" "k + length bs \<le> n"
  shows "\<exists>m'. phfs_write stk (ram_devs p) ph h (d + of_nat k) bs m = Some (Inr (of_nat (length bs)), m') \<and>
    memcpy_from (ram_content p m') s n = data \<and> ram_content p m' = memcpy_to (ram_content p m) (unat d + k) bs"
proof -
  have h: "is_ram ph (h_pd h)" "h_id h = -1" using assms(1) by (simp_all add: dst_range_def)
  have fit: "unat d + n \<le> unat (ram_size p)" "s + n \<le> unat d \<or> unat d + n \<le> s" "s + n \<le> unat (ram_size p)"
    using assms(1) by (simp_all add: dst_range_def)
  have u: "unat (d + of_nat k) = unat d + k" using unat_offset [OF fit(1)] assms(3) by simp
  have "unat (d + of_nat k) < length (ram_content p m)" "unat (d + of_nat k) + length bs \<le> length (ram_content p m)"
    using u fit(1) assms(3,4) by simp_all
  from ram.wr_in [OF TrueI this] obtain m' where
    m': "devs_write (ram_devs p) DEV_RAM 0 (d + of_nat k) bs m = Some (Inr (of_nat (length bs)), m')"
      "ram_content p m' = memcpy_to (ram_content p m) (unat d + k) bs" using u by auto
  have "memcpy_from (ram_content p m') s n = memcpy_from (ram_content p m) s n"
    unfolding m'(2) using fit assms(4) by (intro memcpy_from_to_disjoint) auto
  then show ?thesis using m' assms(2) by (auto simp: raw_ops(1) [OF h])
qed

interpretation raw_copy: copy_ends "raw_ends p ph h1 h2 s d data" data "ram_content p" "unat d"
  "phfs_read stk (ram_devs p) ph h1" "phfs_write stk (ram_devs p) ph h2" s d
proof unfold_locales
  fix m :: mem and k and len :: size_t
  assume ok: "raw_ends p ph h1 h2 s d data m" and k: "k < length data" "k + unat len \<le> length data"
  then have h: "is_ram ph (h_pd h1)" "h_id h1 = -1" and fit: "unat s + length data \<le> unat (ram_size p)"
    and data: "memcpy_from (ram_content p m) (unat s) (length data) = data"
    by (simp_all add: raw_ends_def dst_range_def)
  have "memcpy_from (ram_content p m) (unat s + k) (unat len) = memcpy_from data k (unat len)"
    using k memcpy_from_memcpy_from [of k "unat len" "length data" "ram_content p m" "unat s"] data by simp
  then show "phfs_read stk (ram_devs p) ph h1 (s + of_nat k) len m = Some (Inr (memcpy_from data k (unat len)), m)"
    using unat_offset [OF fit, of k] k fit by (simp add: raw_ops(2) [OF h] ram.rd_law [OF TrueI])
next
  fix m :: mem and k and bs :: bytes
  assume ok: "raw_ends p ph h1 h2 s d data m" and k: "k < length data" "k + length bs \<le> length data"
  show "\<exists>m'. phfs_write stk (ram_devs p) ph h2 (d + of_nat k) bs m = Some (Inr (of_nat (length bs)), m') \<and>
      raw_ends p ph h1 h2 s d data m' \<and> ram_content p m' = memcpy_to (ram_content p m) (unat d + k) bs"
    using ok write_keeps_source [OF _ _ k, of p ph h2 d "unat s" m data stk] by (fastforce simp: raw_ends_def)
qed (auto simp: raw_ends_def dst_range_def)

text \<open>A file of the alias table as the source. A read at its end needs the end to lie inside the bank.\<close>

definition file_ends :: "ram_params \<Rightarrow> phfs_t \<Rightarrow> handler_t \<Rightarrow> handler_t \<Rightarrow> addr_t \<Rightarrow> bytes \<Rightarrow> mem \<Rightarrow> bool" where
  "file_ends p ph h1 h2 d data m \<longleftrightarrow>
     (let f = ph_files ph ! unat (h_id h1) in
      is_ram ph (h_pd h1) \<and> unat (h_id h1) < SIZE_PHFS_ALIASES \<and> unat (f_size f) = length data \<and>
      unat (f_addr f) + length data < unat (ram_size p) \<and> dst_range p ph h2 d (length data) (unat (f_addr f)) \<and>
      memcpy_from (ram_content p m) (unat (f_addr f)) (length data) = data)"

lemma file_read_end:
  assumes "file_ends p ph h1 h2 d data m" "k \<le> length data"
  shows "phfs_read stk (ram_devs p) ph h1 (of_nat k) len m = Some (Inr (take (unat len) (drop k data)), m)"
proof -
  let ?f = "ph_files ph ! unat (h_id h1)"
  have h: "is_ram ph (h_pd h1)" "unat (h_id h1) < SIZE_PHFS_ALIASES" "unat (f_size ?f) = length data"
      "unat (f_addr ?f) + length data < unat (ram_size p)" "memcpy_from (ram_content p m) (unat (f_addr ?f)) (length data) = data"
    using assms(1) by (simp_all add: file_ends_def Let_def)
  have ne: "h_id h1 \<noteq> -1"
    using h(2) by (auto simp: SIZE_PHFS_ALIASES_def unsigned_minus_1_eq_mask mask_eq_exp_minus_1)
  have uk: "unat (of_nat k :: addr_t) = k" using assms(2) h(3) unat_less_exp [of "f_size ?f"] by (intro unat_of_nat_small) simp
  then have l: "unat (min len (f_size ?f - of_nat k)) = min (unat len) (length data - k)"
    using h(3) assms(2) by (subst min_file_size) (simp_all add: word_le_nat_alt)
  have a: "unat (f_addr ?f + of_nat k) = unat (f_addr ?f) + k" using unat_offset [of "f_addr ?f" "length data" "ram_size p" k] h(4) assms(2) by simp
  have "memcpy_from (ram_content p m) (unat (f_addr ?f) + k) (min (unat len) (length data - k)) =
      memcpy_from data k (min (unat len) (length data - k))"
    using memcpy_from_memcpy_from [of k "min (unat len) (length data - k)" "length data" "ram_content p m" "unat (f_addr ?f)"] h(5) assms(2) by simp
  also have "\<dots> = take (unat len) (drop k data)" by (simp add: memcpy_from_def min_def)
  finally show ?thesis
    using h(1,2,4) ne a l assms(2) by (simp add: phfs_read_def is_ram_def Let_def ram.rd_law [OF TrueI])
qed

interpretation ram_file_copy: copy_file "file_ends p ph h1 h2 d data" data "ram_content p" "unat d"
  "phfs_read stk (ram_devs p) ph h1" "phfs_write stk (ram_devs p) ph h2" 0 d
proof unfold_locales
  fix m :: mem and k and bs :: bytes
  assume ok: "file_ends p ph h1 h2 d data m" and k: "k < length data" "k + length bs \<le> length data"
  let ?a = "unat (f_addr (ph_files ph ! unat (h_id h1)))"
  show "\<exists>m'. phfs_write stk (ram_devs p) ph h2 (d + of_nat k) bs m = Some (Inr (of_nat (length bs)), m') \<and>
      file_ends p ph h1 h2 d data m' \<and> ram_content p m' = memcpy_to (ram_content p m) (unat d + k) bs"
    using ok write_keeps_source [OF _ _ k, of p ph h2 d ?a m data stk] by (fastforce simp: file_ends_def Let_def)
next
  fix m :: mem assume "file_ends p ph h1 h2 d data m"
  then show "unat d + length data \<le> length (ram_content p m)" "length data < 2 ^ 63"
    by (simp_all add: file_ends_def dst_range_def Let_def)
qed (simp_all add: file_read_end memcpy_from_def)

text \<open>A file alias on the RAM storage of the examples.\<close>

lemma kernel_alias:
  "is_ram (snd (phfs_aliasReg (Some ''kernel'') a sz phfs_ram)) 0"
  "f_addr (ph_files (snd (phfs_aliasReg (Some ''kernel'') a sz phfs_ram)) ! 0) = a"
  "f_size (ph_files (snd (phfs_aliasReg (Some ''kernel'') a sz phfs_ram)) ! 0) = sz"
proof -
  let ?ph = "snd (phfs_aliasReg (Some ''kernel'') a sz phfs_ram)"
  have "ph_fCnt phfs_ram = 0" "phfs_getAliasId phfs_ram ''kernel'' = None"
    using devReg_lookup(7,8) [OF inv_start(1) phfs_ram_reg] by (simp_all add: phfs_common_def phfs_getAliasId_def)
  then have reg: "phfs_aliasReg (Some ''kernel'') a sz phfs_ram = (Inr (), ?ph)" and c: "ph_fCnt phfs_ram = 0"
    by (simp_all add: phfs_aliasReg_def SIZE_PHFS_ALIASES_def)
  note l = aliasReg_lookup [OF phfs_ram_ok(1) reg]
  show "f_addr (ph_files ?ph ! 0) = a" "f_size (ph_files ?ph ! 0) = sz" using l(3,4) c by simp_all
  show "is_ram ?ph 0" using phfs_ram_ok(3) l(8,9) by (simp add: is_ram_def)
qed

section \<open>Properties\<close>

text \<open>
  C25: Copying between two ranges of a RAM storage device that do not meet, with at least one size given, returns and moves exactly the
  smaller of the given sizes: the destination range holds what the source range held, and the rest of the device is as before.
\<close>

theorem copy_moves_region:
  assumes "env_devs env = ram_devs p" "is_ram ph (h_pd h1)" "h_id h1 = -1" "is_ram ph (h_pd h2)" "h_id h2 = -1"
    and "n1 \<noteq> 0 \<or> n2 \<noteq> 0" "n = unat (if n1 = 0 then n2 else if n2 = 0 then n1 else min n1 n2)" "n < 2 ^ 63"
    and "unat s + n \<le> unat (ram_size p)" "unat d + n \<le> unat (ram_size p)" "unat s + n \<le> unat d \<or> unat d + n \<le> unat s"
  shows "\<exists>m'. cmd_cpphfs2phfs env ph h1 s n1 h2 d n2 m = Some (Inr (of_nat n), m') \<and>
    ram_content p m' = memcpy_to (ram_content p m) (unat d) (memcpy_from (ram_content p m) (unat s) n)"
proof -
  let ?data = "memcpy_from (ram_content p m) (unat s) n"
  have l: "length ?data = n" using assms(9) by simp
  have n: "copy_size n1 n2 = of_nat n" "0 < n"
    using assms(6) unfolding assms(7) by (auto simp: copy_size_def min_def unat_gt_0 word_neq_0_conv)
  have "raw_ends p ph h1 h2 s d ?data m" using assms l by (simp add: raw_ends_def dst_range_def)
  then have "\<exists>m'. copy_loop (phfs_read (env_stk env) (ram_devs p) ph h1) (phfs_write (env_stk env) (ram_devs p) ph h2) s d
      (of_nat (length ?data)) (of_nat 0) (of_nat 0) m = Some (Inr (of_nat (length ?data)), m') \<and>
      raw_ends p ph h1 h2 s d ?data m' \<and> ram_content p m' = memcpy_to (ram_content p m) (unat d) ?data"
    using n(2) l assms(10) by (intro raw_copy.copy_sized) simp_all
  then show ?thesis using l n(1) assms(1) by (auto simp: cmd_cpphfs2phfs_def)
qed

definition env_ram :: "mem env" where
  "env_ram = \<lparr>env_stk = stack_example, env_devs = ram_devs ram_example, env_sizes = \<lparr>sizeof_syspage = 128, sizeof_map = 64,
     sizeof_mapent = 40, sizeof_prog = 72, size_page = 0x1000\<rparr>, env_attr = \<lparr>mAttrRead = 1, mAttrWrite = 2, mAttrExec = 4,
     mAttrShareable = 8, mAttrCacheable = 16, mAttrBufferable = 32\<rparr>, env_ld = \<lparr>ld_hs = 0, ld_heap_limit = 0, ld_entries = []\<rparr>,
     env_store = (\<lambda>a bs m. mem_store m a bs), env_frame = [], env_prog0 = \<lparr>p_argv = [], p_imaps = [], p_dmaps = [], p_imapSz = 0,
     p_dmapSz = 0, p_start = 0, p_end = 0\<rparr>, env_addr0 = 0, env_vkernel = 0, env_pkernel = 0, env_kname = ''phoenix''\<rparr>"

theorem copy_moves_region_witness:
  "\<exists>m'. cmd_cpphfs2phfs env_ram phfs_ram \<lparr>h_pd = 0, h_id = -1\<rparr> 4 3 \<lparr>h_pd = 0, h_id = -1\<rparr> 16 0 ucast = Some (Inr 3, m') \<and>
     memcpy_from (ram_content ram_example m') 16 3 = [4, 5, 6]"
proof -
  have d: "memcpy_from (ram_content ram_example ucast) 4 3 = [4, 5, 6]" by code_simp
  have e: "memcpy_from (memcpy_to (ram_content ram_example ucast) 16 [4, 5, 6]) 16 3 = [4, 5, 6]" by code_simp
  show ?thesis
    using copy_moves_region [of env_ram ram_example phfs_ram "\<lparr>h_pd = 0, h_id = -1\<rparr>" "\<lparr>h_pd = 0, h_id = -1\<rparr>" 3 0 3 4 16 ucast]
      phfs_ram_ok(3) d e
    by (auto simp: env_ram_def ram_example_def ram_size_def)
qed

text \<open>
  C9: Copying a file of the alias table without sizes returns and moves the whole file, byte for byte, to the raw offset of the destination,
  if the file ends inside the device and the destination range does not meet it.
\<close>

theorem copy_moves_file:
  assumes "env_devs env = ram_devs p" "is_ram ph (h_pd h1)" "unat (h_id h1) < 32" "f = ph_files ph ! unat (h_id h1)"
    and "is_ram ph (h_pd h2)" "h_id h2 = -1" "unat (f_size f) < 2 ^ 63" "unat (f_addr f) + unat (f_size f) < unat (ram_size p)"
    and "unat d + unat (f_size f) \<le> unat (ram_size p)"
    and "unat (f_addr f) + unat (f_size f) \<le> unat d \<or> unat d + unat (f_size f) \<le> unat (f_addr f)"
  shows "\<exists>m'. cmd_cpphfs2phfs env ph h1 0 0 h2 d 0 m = Some (Inr (f_size f), m') \<and>
    ram_content p m' = memcpy_to (ram_content p m) (unat d) (memcpy_from (ram_content p m) (unat (f_addr f)) (unat (f_size f)))"
proof -
  let ?data = "memcpy_from (ram_content p m) (unat (f_addr f)) (unat (f_size f))"
  have l: "length ?data = unat (f_size f)" using assms(8) by simp
  have "file_ends p ph h1 h2 d ?data m" using assms l by (simp add: file_ends_def dst_range_def SIZE_PHFS_ALIASES_def)
  then have "\<exists>m'. copy_loop (phfs_read (env_stk env) (ram_devs p) ph h1) (phfs_write (env_stk env) (ram_devs p) ph h2) 0 d
      (-1) (of_nat 0) (of_nat 0) m = Some (Inr (of_nat (length ?data)), m') \<and>
      file_ends p ph h1 h2 d ?data m' \<and> ram_content p m' = memcpy_to (ram_content p m) (unat d) ?data"
    using l assms(9) by (intro ram_file_copy.copy_whole) simp_all
  then show ?thesis using l assms(1) by (auto simp: cmd_cpphfs2phfs_def copy_size_def)
qed

theorem copy_moves_file_witness:
  "\<exists>m'. cmd_cpphfs2phfs env_ram (snd (phfs_aliasReg (Some ''kernel'') 4 3 phfs_ram)) \<lparr>h_pd = 0, h_id = 0\<rparr> 0 0
       \<lparr>h_pd = 0, h_id = -1\<rparr> 16 0 ucast = Some (Inr 3, m') \<and>
     memcpy_from (ram_content ram_example m') 16 3 = [4, 5, 6]"
proof -
  let ?ph = "snd (phfs_aliasReg (Some ''kernel'') 4 3 phfs_ram)"
  have d: "memcpy_from (ram_content ram_example ucast) 4 3 = [4, 5, 6]" by code_simp
  have e: "memcpy_from (memcpy_to (ram_content ram_example ucast) 16 [4, 5, 6]) 16 3 = [4, 5, 6]" by code_simp
  show ?thesis
    using copy_moves_file [of env_ram ram_example ?ph "\<lparr>h_pd = 0, h_id = 0\<rparr>" _ "\<lparr>h_pd = 0, h_id = -1\<rparr>" 16 ucast] kernel_alias d e
    by (auto simp: env_ram_def ram_example_def ram_size_def)
qed

end
