(* ===== verification/Cmd_Load.thy ===== *)
theory Cmd_Load
  imports Cmd_Files
begin

text \<open>
  The commands that load programs and scripts: \<open>app\<close>, \<open>blob\<close>, \<open>kernel\<close>, \<open>call\<close> and \<open>script\<close> (\<open>cmds/app.c\<close>, \<open>blob.c\<close>, \<open>kernel.c\<close>,
  \<open>call.c\<close>, \<open>script.c\<close>), and the table of the modelled commands. \<open>call\<close> runs the interpreter on the lines of a file, which may contain
  further \<open>call\<close>s; the table is built for a nesting depth, beyond which the interpreter does not return (the C
  stack is exhausted).
\<close>

section \<open>Loading a file into an entry\<close>

definition read_file :: "'w env \<Rightarrow> handler_t \<Rightarrow> addr_t \<Rightarrow> size_t \<Rightarrow> ('w plo, bytes) io" where
  "read_file env h offs len s = lift_io (phfs_read (env_stk env) (env_devs env) (plo_ph s) h offs len) s"

text \<open>
  The loop of \<open>cmd_cp2ent\<close> and of the segments of the kernel: read at \<open>offs + done\<close>, store at \<open>start + done\<close>.
\<close>

partial_function (option) load_loop :: "(addr_t \<Rightarrow> size_t \<Rightarrow> ('w, bytes) io) \<Rightarrow> (addr_t \<Rightarrow> bytes \<Rightarrow> 'w \<Rightarrow> 'w) \<Rightarrow>
    addr_t \<Rightarrow> addr_t \<Rightarrow> size_t \<Rightarrow> size_t \<Rightarrow> 'w \<Rightarrow> ((errno + unit) \<times> 'w) option" where
  "load_loop rd st offs start sz pos w =
     (if pos < sz then
        (case rd (offs + pos) (min (of_nat SIZE_MSG_BUFF) (sz - pos)) w of
           None \<Rightarrow> None
         | Some (r, w1) \<Rightarrow>
             (case r of
                Inl e \<Rightarrow> Some (Inl e, w1)
              | Inr bs \<Rightarrow> load_loop rd st offs start sz (pos + of_nat (length bs)) (st (start + pos) bs w1)))
      else Some (Inr (), w))"

definition cmd_cp2ent :: "'w env \<Rightarrow> handler_t \<Rightarrow> mapent_t \<Rightarrow> ('w plo, unit) io" where
  "cmd_cp2ent env h entry s =
     lift_io (load_loop (phfs_read (env_stk env) (env_devs env) (plo_ph s) h) (env_store env) 0 (e_start entry)
       (e_end entry - e_start entry) 0) s"

text \<open>\<open>syspage_entryAdd\<close>, whose NULL the callers turn into \<open>ENOMEM\<close>.\<close>

definition entry_add :: "'w env \<Rightarrow> string option \<Rightarrow> addr_t \<Rightarrow> size_t \<Rightarrow> u32 \<Rightarrow> ('w plo, mapent_t) io" where
  "entry_add env mapName start siz align =
     io_sp (\<lambda>sp. case syspage_entryAdd (env_sizes env) mapName start siz align sp of
       (None, sp1) \<Rightarrow> (Inl ENOMEM, sp1) | (Some e, sp1) \<Rightarrow> (Inr e, sp1))"

definition prog_add :: "'w env \<Rightarrow> string \<Rightarrow> u32 \<Rightarrow> ('w plo, unit) io" where
  "prog_add env argv flags =
     io_sp (\<lambda>sp. case syspage_progAdd (env_sizes env) (env_prog0 env) argv flags sp of
       (False, sp1) \<Rightarrow> (Inl ENOMEM, sp1) | (True, sp1) \<Rightarrow> (Inr (), sp1))"

definition sp_alloc :: "size_t \<Rightarrow> ('w plo, unit) io" where
  "sp_alloc siz = io_sp (\<lambda>sp. case syspage_alloc siz sp of (None, sp1) \<Rightarrow> (Inl ENOMEM, sp1) | (Some _, sp1) \<Rightarrow> (Inr (), sp1))"

text \<open>A change of the program added last.\<close>

definition prog_update :: "(syspage_prog_t \<Rightarrow> syspage_prog_t) \<Rightarrow> ('w plo, unit) io" where
  "prog_update f = io_sp (\<lambda>sp. (Inr (), sp\<lparr>sp_progs := butlast (sp_progs sp) @ [f (last (sp_progs sp))]\<rparr>))"

section \<open>\<open>app\<close>\<close>

fun cmd_mapsParse :: "string \<Rightarrow> char \<Rightarrow> nat \<times> string" where
  "cmd_mapsParse [] sep = (1, [])"
| "cmd_mapsParse (c # s) sep =
     (if c = NUL then (1, c # s)
      else case cmd_mapsParse s sep of (nb, t) \<Rightarrow> if c = sep then (Suc nb, NUL # t) else (nb, c # t))"

text \<open>The identifiers written before the first unknown name, and the result.\<close>

fun cmd_mapsAdd2Prog :: "syspage_t \<Rightarrow> nat \<Rightarrow> string \<Rightarrow> u8 list \<times> (errno + unit)" where
  "cmd_mapsAdd2Prog sp 0 mapNames = ([], Inr ())"
| "cmd_mapsAdd2Prog sp (Suc nb) mapNames =
     (case syspage_mapNameResolve mapNames sp of
        Inl e \<Rightarrow> ([], Inl e)
      | Inr i \<Rightarrow> (case cmd_mapsAdd2Prog sp nb (drop (hal_strlen mapNames + 1) mapNames) of (ids, r) \<Rightarrow> (i # ids, r)))"

definition ELF_MAGIC :: bytes where "ELF_MAGIC = [0x7f, 0x45, 0x4c, 0x46]"

definition SIZE_EHDR32 :: nat where "SIZE_EHDR32 = 52"

definition add_maps :: "nat \<Rightarrow> string \<Rightarrow> (u8 list \<Rightarrow> syspage_prog_t \<Rightarrow> syspage_prog_t) \<Rightarrow> ('w plo, unit) io" where
  "add_maps nb names set_maps s =
     (case cmd_mapsAdd2Prog (plo_sp s) nb names of (ids, r) \<Rightarrow> io_bind (prog_update (set_maps ids)) (\<lambda>_. io_of r) s)"

text \<open>Where the program goes: in place on the device, or copied into the map.\<close>

definition app_place :: "'w env \<Rightarrow> handler_t \<Rightarrow> size_t \<Rightarrow> string \<Rightarrow> bool \<Rightarrow> mappable \<Rightarrow> addr_t \<Rightarrow> ('w plo, mapent_t) io" where
  "app_place env h siz imap noCopy res addr =
     (if res = Mappable \<or> noCopy then entry_add env None addr siz (size_page (env_sizes env))
      else io_bind (entry_add env (Some imap) (-1) siz (size_page (env_sizes env))) (\<lambda>e.
           io_bind (cmd_cp2ent env h e) (\<lambda>_. io_return e)))"

definition cmd_appLoad :: "'w env \<Rightarrow> handler_t \<Rightarrow> size_t \<Rightarrow> string \<Rightarrow> string \<Rightarrow> string \<Rightarrow> u32 \<Rightarrow> ('w plo, unit) io" where
  "cmd_appLoad env h siz imaps0 dmaps0 appArgv flags =
     io_bind (read_file env h 0 (of_nat SIZE_EHDR32)) (\<lambda>hdr.
     if take 4 (memcpy_to (env_frame env) 0 hdr) \<noteq> ELF_MAGIC then io_throw EIO
     else
       let (imapSz, imaps) = cmd_mapsParse imaps0 (CHR '';'');
           (dmapSz, dmaps) = cmd_mapsParse dmaps0 (CHR '';'')
       in (\<lambda>s.
         case (syspage_mapAttrResolve imaps (plo_sp s), syspage_mapRangeResolve imaps (plo_sp s)) of
           (Inr attr, Inr (start, ende)) \<Rightarrow>
             (let offs = (case phfs_aliasAddrResolve (plo_ph s) h of Inl _ \<Rightarrow> 0 | Inr a \<Rightarrow> a) in
              io_bind (lift_io (phfs_map (env_devs env) (plo_ph s) h offs siz (mAttrRead (env_attr env) OR mAttrExec (env_attr env))
                  start (ende - start) attr)) (\<lambda>(res, a).
              let addr = (if res = Mappable then a else env_addr0 env) in
              io_bind (app_place env h siz imaps (flags AND flagSyspageNoCopy \<noteq> 0) res (addr + offs)) (\<lambda>entry.
              io_bind (prog_add env appArgv flags) (\<lambda>_.
              io_bind (sp_alloc (of_nat imapSz)) (\<lambda>_.
              io_bind (sp_alloc (of_nat dmapSz)) (\<lambda>_.
              io_bind (add_maps imapSz imaps (\<lambda>ids p. p\<lparr>p_imaps := ids\<rparr>)) (\<lambda>_.
              io_bind (add_maps dmapSz dmaps (\<lambda>ids p. p\<lparr>p_dmaps := ids\<rparr>)) (\<lambda>_.
              prog_update (\<lambda>p. p\<lparr>p_imapSz := of_nat imapSz, p_dmapSz := of_nat dmapSz,
                p_start := e_start entry, p_end := e_end entry\<rparr>)))))))) s)
         | _ \<Rightarrow> io_throw EINVAL s))"

definition app_flags :: "string \<Rightarrow> (u32 \<times> nat) option" where
  "app_flags a =
     (if chr_at a 0 = CHR ''-'' then
        (if code (chr_at a 1) OR 0x20 = code CHR ''x'' \<and> chr_at a 2 = NUL then Some (flagSyspageExec, 3)
         else if code (chr_at a 1) OR 0x20 = code CHR ''x'' \<and> code (chr_at a 2) OR 0x20 = code CHR ''n'' \<and> chr_at a 3 = NUL
         then Some (flagSyspageExec OR flagSyspageNoCopy, 3)
         else None)
      else Some (0, 2))"

definition app_name :: "string \<Rightarrow> string" where
  "app_name appArgv = takeWhile (\<lambda>c. c \<noteq> CHR '';'') (cstr appArgv)"

definition cmd_app :: "'w env \<Rightarrow> 'w run" where
  "cmd_app env argv =
     exit_status
       (if length argv = 1 then io_return ()
        else if length argv < 5 \<or> length argv > 6 then io_throw EINVAL
        else case app_flags (argv ! 2) of
            None \<Rightarrow> io_throw EINVAL
          | Some (flags, i) \<Rightarrow>
              if i \<noteq> length argv - 3 then io_throw EINVAL
              else
                io_bind (open_file env (argv ! 1) (Some (app_name (argv ! i))) 0) (\<lambda>h.
                closing env h
                  (io_bind (\<lambda>s. lift_io (phfs_stat (env_stk env) (env_devs env) (plo_ph s) h) s) (\<lambda>siz.
                   cmd_appLoad env h (ucast siz) (argv ! (i + 1)) (argv ! (i + 2)) (argv ! i) flags))))"

section \<open>\<open>blob\<close>\<close>

text \<open>
  When \<open>syspage_progAdd\<close> fails, the C code prints an error and goes on to write through the NULL it returned.
\<close>

definition cmd_blobLoad :: "'w env \<Rightarrow> handler_t \<Rightarrow> size_t \<Rightarrow> string \<Rightarrow> string \<Rightarrow> ('w plo, unit) io" where
  "cmd_blobLoad env h siz name mapName s =
     (let offs = (case phfs_aliasAddrResolve (plo_ph s) h of Inl _ \<Rightarrow> 0 | Inr a \<Rightarrow> a) in
      case (syspage_mapAttrResolve mapName (plo_sp s), syspage_mapRangeResolve mapName (plo_sp s)) of
        (Inr attr, Inr (start, ende)) \<Rightarrow>
          io_bind (lift_io (phfs_map (env_devs env) (plo_ph s) h offs siz (mAttrRead (env_attr env)) start (ende - start) attr)) (\<lambda>(res, a).
          io_bind (app_place env h siz mapName False res (a + offs)) (\<lambda>entry.
          io_bind (io_try (prog_add env name 0)) (\<lambda>r.
          case r of
            Inl _ \<Rightarrow> (\<lambda>_. None)
          | Inr _ \<Rightarrow> prog_update (\<lambda>p. p\<lparr>p_imaps := [], p_imapSz := 0, p_dmaps := [], p_dmapSz := 0,
              p_start := e_start entry, p_end := e_end entry\<rparr>)))) s
      | _ \<Rightarrow> io_throw EINVAL s)"

definition cmd_blob :: "'w env \<Rightarrow> 'w run" where
  "cmd_blob env argv =
     exit_status
       (if length argv = 1 then io_return ()
        else if length argv \<noteq> 4 then io_throw EINVAL
        else
          io_bind (open_file env (argv ! 1) (Some (argv ! 2)) 0) (\<lambda>h.
          closing env h
            (io_bind (\<lambda>s. lift_io (phfs_stat (env_stk env) (env_devs env) (plo_ph s) h) s) (\<lambda>siz.
             cmd_blobLoad env h (ucast siz) (argv ! 2) (argv ! 3)))))"

section \<open>\<open>kernel\<close>\<close>

text \<open>The 64-bit ELF structures (\<open>cmds/elf.h\<close>) as bytes; numbers are little-endian.\<close>

definition le_num :: "bytes \<Rightarrow> nat \<Rightarrow> nat \<Rightarrow> nat" where
  "le_num bs off n = foldr (\<lambda>b v. unat b + 256 * v) (memcpy_from bs off n) 0"

definition SIZE_EHDR64 :: nat where "SIZE_EHDR64 = 64"
definition SIZE_PHDR64 :: nat where "SIZE_PHDR64 = 56"
definition PHT_LOAD :: nat where "PHT_LOAD = 1"
definition PHF_X :: nat where "PHF_X = 1"

record Elf64_Phdr =
  p_type :: nat
  p_flags :: nat
  p_offset :: u64
  p_vaddr :: u64
  p_filesz :: u64
  p_memsz :: u64
  p_align :: u64

definition elf_phdr :: "bytes \<Rightarrow> Elf64_Phdr" where
  "elf_phdr bs = \<lparr>p_type = le_num bs 0 4, p_flags = le_num bs 4 4, p_offset = of_nat (le_num bs 8 8), p_vaddr = of_nat (le_num bs 16 8),
     p_filesz = of_nat (le_num bs 32 8), p_memsz = of_nat (le_num bs 40 8), p_align = of_nat (le_num bs 48 8)\<rparr>"

definition hal_kernelGetAddress :: "'w env \<Rightarrow> addr_t \<Rightarrow> addr_t" where
  "hal_kernelGetAddress env addr =
     (if env_vkernel env \<noteq> env_pkernel env then env_pkernel env + (addr - env_vkernel env) else addr)"

definition hal_kernelEntryPoint :: "addr_t \<Rightarrow> ('w plo, unit) io" where
  "hal_kernelEntryPoint addr s = Some (Inr (), s\<lparr>plo_entry := addr\<rparr>)"

text \<open>One program header; the last component is the header buffer, kept between the rounds, the middle one \<open>kernelPAddr\<close>.\<close>

definition kernel_segment :: "'w env \<Rightarrow> handler_t \<Rightarrow> u64 \<Rightarrow> nat \<Rightarrow> addr_t \<Rightarrow> bytes \<Rightarrow> ('w plo, addr_t \<times> bytes) io" where
  "kernel_segment env h phoff i paddr buf =
     io_bind (read_file env h (phoff + of_nat (i * SIZE_PHDR64)) (of_nat SIZE_PHDR64)) (\<lambda>bs.
     let buf1 = memcpy_to buf 0 bs;
         ph = elf_phdr buf1
     in if p_type ph = PHT_LOAD then
          io_bind (entry_add env None (hal_kernelGetAddress env (p_vaddr ph)) (p_memsz ph) (ucast (p_align ph))) (\<lambda>entry.
          io_bind (\<lambda>s. lift_io (load_loop (phfs_read (env_stk env) (env_devs env) (plo_ph s) h) (env_store env)
              (p_offset ph) (e_start entry) (p_filesz ph) 0) s) (\<lambda>_.
          io_return (if odd (p_flags ph) then e_start entry else paddr, buf1)))
        else io_return (paddr, buf1))"

fun kernel_segments :: "'w env \<Rightarrow> handler_t \<Rightarrow> u64 \<Rightarrow> nat \<Rightarrow> nat \<Rightarrow> addr_t \<Rightarrow> bytes \<Rightarrow> ('w plo, addr_t) io" where
  "kernel_segments env h phoff 0 i paddr buf = io_return paddr"
| "kernel_segments env h phoff (Suc n) i paddr buf =
     io_bind (kernel_segment env h phoff i paddr buf) (\<lambda>(paddr1, buf1). kernel_segments env h phoff n (Suc i) paddr1 buf1)"

definition cmd_kernel :: "'w env \<Rightarrow> 'w run" where
  "cmd_kernel env argv =
     exit_status
       (if length argv = 1 \<or> length argv > 3 then io_throw EINVAL
        else
          io_bind (open_file env (argv ! 1) (Some (if length argv = 3 then argv ! 2 else env_kname env)) 0) (\<lambda>h.
          closing env h
            (io_bind (read_file env h 0 (of_nat SIZE_EHDR64)) (\<lambda>bs.
             let hdr = memcpy_to (env_frame env) 0 bs in
             if take 4 hdr \<noteq> ELF_MAGIC then io_throw EIO
             else
               io_bind (kernel_segments env h (of_nat (le_num hdr 32 8)) (le_num hdr 56 2) 0 (-1) (env_frame env)) (\<lambda>paddr.
               io_bind (hal_kernelEntryPoint (hal_kernelGetAddress env (of_nat (le_num hdr 24 8)))) (\<lambda>_.
               io_sp (\<lambda>sp. (Inr (), syspage_kernelPAddrAdd paddr sp))))))))"

section \<open>\<open>call\<close> and \<open>script\<close>\<close>

definition chars_of :: "bytes \<Rightarrow> string" where
  "chars_of bs = map (\<lambda>b. char_of (unat b)) bs"

text \<open>
  The loop of \<open>cmd_call\<close>: \<open>c\<close> is the last character read (kept when a read delivers nothing), \<open>line\<close> the characters in the
  buffer. The result is the exit status. A line that fails ends the command without closing the file.
\<close>

partial_function (option) call_loop :: "'w env \<Rightarrow> (string \<Rightarrow> 'w plo \<Rightarrow> (int \<times> 'w plo) option) \<Rightarrow> handler_t \<Rightarrow> addr_t \<Rightarrow> char \<Rightarrow>
    string \<Rightarrow> 'w plo \<Rightarrow> (int \<times> 'w plo) option" where
  "call_loop env parse h offs c line s =
     (case read_file env h offs 1 s of
        None \<Rightarrow> None
      | Some (r, s1) \<Rightarrow>
          (case r of
             Inl e \<Rightarrow> exit_code (io_bind (close_file env h) (\<lambda>_. io_throw e)) s1
           | Inr bs \<Rightarrow>
               let c1 = (if bs = [] then c else hd (chars_of bs));
                   offs1 = offs + of_nat (length bs)
               in if bs = [] \<or> c1 = CHR 0x0A \<or> c1 = NUL then
                    (case parse line s1 of
                       None \<Rightarrow> None
                     | Some (res, s2) \<Rightarrow>
                         if res \<noteq> CMD_EXIT_SUCCESS then Some (if res < 0 then res else - errno_code EINVAL, s2)
                         else if c1 = NUL \<or> bs = [] then exit_code (close_file env h) s2
                         else call_loop env parse h offs1 c1 [] s2)
                  else if length line = SIZE_CMD_ARG_LINE - 1 then
                    exit_code (io_bind (close_file env h) (\<lambda>_. io_throw ENOMEM)) s1
                  else call_loop env parse h offs1 c1 (line @ [c1]) s1))"

text \<open>\<open>c0\<close> is the initial content of the character buffer.\<close>

definition cmd_call :: "'w env \<Rightarrow> char \<Rightarrow> (string \<Rightarrow> 'w plo \<Rightarrow> (int \<times> 'w plo) option) \<Rightarrow> 'w run" where
  "cmd_call env c0 parse argv s =
     (if length argv \<noteq> 4 then Some (- errno_code EINVAL, s)
      else case open_file env (argv ! 1) (Some (argv ! 2)) 0 s of
          None \<Rightarrow> None
        | Some (Inl e, s1) \<Rightarrow> Some (- errno_code e, s1)
        | Some (Inr h, s1) \<Rightarrow>
            (case read_file env h 0 (of_nat SIZE_MAGIC_NB) s1 of
               None \<Rightarrow> None
             | Some (Inl e, s2) \<Rightarrow> exit_code (io_bind (close_file env h) (\<lambda>_. io_throw e)) s2
             | Some (Inr bs, s2) \<Rightarrow>
                 if length bs \<noteq> SIZE_MAGIC_NB then exit_code (io_bind (close_file env h) (\<lambda>_. io_throw EIO)) s2
                 else if hal_strcmp (chars_of bs) (argv ! 3) \<noteq> 0 then exit_code (close_file env h) s2
                 else call_loop env parse h (of_nat SIZE_MAGIC_NB) c0 [] s2))"

text \<open>\<open>script\<close> prints the file; what is left without the output is that it is read to its end.\<close>

partial_function (option) script_loop :: "'w env \<Rightarrow> handler_t \<Rightarrow> addr_t \<Rightarrow> 'w plo \<Rightarrow> ((errno + unit) \<times> 'w plo) option" where
  "script_loop env h offs s =
     (case read_file env h offs (of_nat (SIZE_CMD_ARG_LINE - 1)) s of
        None \<Rightarrow> None
      | Some (r, s1) \<Rightarrow>
          (case r of
             Inl e \<Rightarrow> Some (Inl e, s1)
           | Inr bs \<Rightarrow> if bs \<noteq> [] then script_loop env h (offs + of_nat (length bs)) s1 else Some (Inr (), s1)))"

definition cmd_script :: "'w env \<Rightarrow> 'w run" where
  "cmd_script env argv =
     exit_status
       (if length argv = 1 then io_return ()
        else if length argv \<noteq> 4 then io_throw EINVAL
        else
          io_bind (open_file env (argv ! 1) (Some (argv ! 2)) 0) (\<lambda>h.
          closing env h
            (io_bind (read_file env h 0 (of_nat SIZE_MAGIC_NB)) (\<lambda>bs.
             if hal_strcmp (chars_of bs) (argv ! 3) \<noteq> 0 then io_return ()
             else script_loop env h (of_nat (length bs))))))"

section \<open>The command table\<close>

fun plo_cmds :: "'w env \<Rightarrow> char \<Rightarrow> nat \<Rightarrow> 'w cmd_t list" where
  "plo_cmds env c0 depth =
     [\<lparr>cmd_name = ''alias'', cmd_run_fn = cmd_alias\<rparr>, \<lparr>cmd_name = ''app'', cmd_run_fn = cmd_app env\<rparr>,
      \<lparr>cmd_name = ''blob'', cmd_run_fn = cmd_blob env\<rparr>,
      \<lparr>cmd_name = ''call'', cmd_run_fn = cmd_call env c0
         (case depth of 0 \<Rightarrow> (\<lambda>_ _. None) | Suc n \<Rightarrow> cmd_parse (plo_cmds env c0 n))\<rparr>,
      \<lparr>cmd_name = ''copy'', cmd_run_fn = cmd_copy env\<rparr>, \<lparr>cmd_name = ''erase'', cmd_run_fn = cmd_erase env\<rparr>,
      \<lparr>cmd_name = ''kernel'', cmd_run_fn = cmd_kernel env\<rparr>, \<lparr>cmd_name = ''map'', cmd_run_fn = cmd_map env\<rparr>,
      \<lparr>cmd_name = ''phfs'', cmd_run_fn = cmd_phfs env\<rparr>, \<lparr>cmd_name = ''script'', cmd_run_fn = cmd_script env\<rparr>]"

declare plo_cmds.simps [simp del]

section \<open>What loading needs\<close>

text \<open>
  The source delivers \<open>data\<close> from \<open>offs\<close> on; what is stored at \<open>start\<close> appears in the \<open>image\<close> and does not disturb the source.
\<close>

locale load_ends =
  fixes ok :: "'w \<Rightarrow> bool" and data :: bytes and image :: "'w \<Rightarrow> bytes"
    and rd :: "addr_t \<Rightarrow> size_t \<Rightarrow> ('w, bytes) io" and st :: "addr_t \<Rightarrow> bytes \<Rightarrow> 'w \<Rightarrow> 'w" and offs start :: addr_t
  assumes rd_in: "ok w \<Longrightarrow> k < length data \<Longrightarrow> k + unat len \<le> length data \<Longrightarrow>
      rd (offs + of_nat k) len w = Some (Inr (memcpy_from data k (unat len)), w)"
    and st_in: "ok w \<Longrightarrow> k + length bs \<le> length data \<Longrightarrow>
      ok (st (start + of_nat k) bs w) \<and> image (st (start + of_nat k) bs w) = memcpy_to (image w) k bs"
    and image_size: "ok w \<Longrightarrow> length (image w) = length data"
    and small: "ok w \<Longrightarrow> length data < 2 ^ 64"
begin

lemma load_rest:
  assumes "ok w" "k \<le> length data" "take k (image w) = take k data"
  shows "\<exists>w'. load_loop rd st offs start (of_nat (length data)) (of_nat k) w = Some (Inr (), w') \<and> ok w' \<and> image w' = data"
  using assms
proof (induction "length data - k" arbitrary: k w rule: less_induct)
  case less
  have u: "unat (of_nat (length data) :: size_t) = length data" "unat (of_nat k :: size_t) = k"
    using small [OF less.prems(1)] less.prems(2) by (auto intro!: unat_of_nat_small)
  show ?case
  proof (cases "k = length data")
    case True
    then show ?thesis using less.prems image_size [OF less.prems(1)] by (subst load_loop.simps) simp
  next
    case False
    then have lt: "k < length data" using less.prems(2) by simp
    let ?n = "min SIZE_MSG_BUFF (length data - k)"
    let ?len = "min (of_nat SIZE_MSG_BUFF) (of_nat (length data) - of_nat k) :: size_t"
    have "(of_nat k :: size_t) \<le> of_nat (length data)" using u lt by (simp add: word_le_nat_alt)
    then have len: "unat ?len = ?n" using u by (simp add: unat_min unat_minus_small SIZE_MSG_BUFF_def)
    have n: "0 < ?n" "k + ?n \<le> length data" using lt by (auto simp: SIZE_MSG_BUFF_def)
    let ?w = "st (start + of_nat k) (memcpy_from data k ?n) w"
    have lb: "length (memcpy_from data k ?n) = ?n" using n(2) by simp
    have s: "ok ?w" "image ?w = memcpy_to (image w) k (memcpy_from data k ?n)"
      using st_in [OF less.prems(1), of k "memcpy_from data k ?n"] n(2) lb by auto
    have "take (k + ?n) (image ?w) = take k (image w) @ memcpy_from data k ?n"
      using n(2) image_size [OF less.prems(1)] lb by (simp add: s(2) memcpy_to_def)
    also have "\<dots> = take (k + ?n) data" unfolding less.prems(3) by (simp add: memcpy_from_def take_add)
    finally have pre: "take (k + ?n) (image ?w) = take (k + ?n) data" .
    have "load_loop rd st offs start (of_nat (length data)) (of_nat k) w =
        load_loop rd st offs start (of_nat (length data)) (of_nat (k + ?n)) ?w"
      using u lt len lb n(2) rd_in [OF less.prems(1) lt, of ?len]
      by (subst load_loop.simps) (simp add: word_less_nat_alt)
    moreover have "length data - (k + ?n) < length data - k" using n(1) lt by linarith
    note less.hyps [OF this s(1) n(2) pre]
    ultimately show ?thesis by auto
  qed
qed

lemma load_all:
  assumes "ok w"
  shows "\<exists>w'. load_loop rd st offs start (of_nat (length data)) 0 w = Some (Inr (), w') \<and> ok w' \<and> image w' = data"
  using load_rest [OF assms, of 0] by simp

end

section \<open>Loading from the RAM storage\<close>

lemma outside_range:
  assumes "x < a \<or> unat a + n \<le> unat x" "unat (a :: addr_t) + n \<le> 2 ^ 64"
  shows "\<not> unat (x - a) < n"
proof (cases "a \<le> x")
  case True
  then have "unat a + n \<le> unat x" "unat (x - a) = unat x - unat a" using assms(1) by (auto simp: unat_minus_small)
  then show ?thesis by linarith
next
  case False
  then have lt: "unat x < unat a" by (simp add: word_le_nat_alt)
  have "unat (x - a) = 2 ^ 64 - unat a + unat x"
    using lt unat_less_exp [of a] unat_sub_if_size [of x a] by (simp add: word_size)
  then show ?thesis using assms(2) by simp
qed

lemma mem_store_other:
  assumes "unat a + length bs \<le> 2 ^ 64" "unat x < unat a \<or> unat a + length bs \<le> unat x"
  shows "mem_store m a bs x = m x"
  using outside_range [of x a "length bs"] assms by (simp add: mem_store_def word_less_nat_alt)

lemma ram_content_store:
  assumes "unat a + length bs \<le> unat (ram_start p) \<or> unat (ram_start p) + unat (ram_size p) \<le> unat a"
    "unat a + length bs \<le> 2 ^ 64" "unat (ram_start p) + unat (ram_size p) \<le> 2 ^ 64"
  shows "ram_content p (mem_store m a bs) = ram_content p m"
  unfolding ram_content_def
proof (rule mem_bytes_cong)
  fix i assume i: "i < unat (ram_size p)"
  have u: "unat (of_nat i :: addr_t) = i" using i by (intro unat_of_nat_le [of _ "ram_size p"]) simp
  have "unat (ram_start p + of_nat i) = unat (ram_start p) + i" using u i assms(3) by (subst unat_plus_small) simp_all
  then show "mem_store m a bs (ram_start p + of_nat i) = m (ram_start p + of_nat i)"
    using assms(1,2) i by (intro mem_store_other) auto
qed

text \<open>A file of the bank as the source and a range of the memory outside the bank as the destination.\<close>

definition load_ok :: "ram_params \<Rightarrow> phfs_t \<Rightarrow> handler_t \<Rightarrow> addr_t \<Rightarrow> mem \<Rightarrow> bytes \<Rightarrow> mem \<Rightarrow> bool" where
  "load_ok p ph h start m0 data m \<longleftrightarrow>
     (let f = ph_files ph ! unat (h_id h) in
      is_ram ph (h_pd h) \<and> unat (h_id h) < SIZE_PHFS_ALIASES \<and> unat (f_size f) = length data \<and>
      unat (f_addr f) < unat (ram_size p) \<and> unat (f_addr f) + length data \<le> unat (ram_size p) \<and>
      unat (ram_start p) + unat (ram_size p) \<le> 2 ^ 64 \<and> unat start + length data \<le> 2 ^ 64 \<and>
      (unat start + length data \<le> unat (ram_start p) \<or> unat (ram_start p) + unat (ram_size p) \<le> unat start) \<and>
      ram_content p m = ram_content p m0 \<and> memcpy_from (ram_content p m0) (unat (f_addr f)) (length data) = data \<and>
      (\<forall>x. length data \<le> unat (x - start) \<longrightarrow> m x = m0 x))"

interpretation ram_load: load_ends "load_ok p ph h start m0 data" data "\<lambda>m. mem_bytes m start (length data)"
  "phfs_read stk (ram_devs p) ph h" "\<lambda>a bs m. mem_store m a bs" 0 start
proof unfold_locales
  fix m :: mem and k and len :: size_t
  assume ok: "load_ok p ph h start m0 data m" and k: "k < length data" "k + unat len \<le> length data"
  let ?f = "ph_files ph ! unat (h_id h)"
  have f: "is_ram ph (h_pd h)" "unat (h_id h) < SIZE_PHFS_ALIASES" "unat (f_size ?f) = length data"
      "unat (f_addr ?f) < unat (ram_size p)" "unat (f_addr ?f) + unat (f_size ?f) \<le> unat (ram_size p)"
      "memcpy_from (ram_content p m) (unat (f_addr ?f)) (length data) = data"
    using ok by (auto simp add: load_ok_def Let_def)
  have uk: "unat (of_nat k :: addr_t) = k" using k(1) f(3) by (intro unat_of_nat_le [of _ "f_size ?f"]) simp
  have lt: "of_nat k < f_size ?f" using uk k(1) f(3) by (simp add: word_less_nat_alt)
  have "memcpy_from (ram_content p m) (unat (f_addr ?f) + k) (unat len) = memcpy_from data k (unat len)"
    using k memcpy_from_memcpy_from [of k "unat len" "length data" "ram_content p m" "unat (f_addr ?f)"] f(6) by simp
  then show "phfs_read stk (ram_devs p) ph h (0 + of_nat k) len m = Some (Inr (memcpy_from data k (unat len)), m)"
    using file_read_ram [OF f(1,2) refl refl f(4,5) lt, of stk len m] uk k f(3)
    by (simp add: min_absorb1)
next
  fix m :: mem and k and bs :: bytes
  assume ok: "load_ok p ph h start m0 data m" and k: "k + length bs \<le> length data"
  have r: "unat (ram_start p) + unat (ram_size p) \<le> 2 ^ 64" "unat start + length data \<le> 2 ^ 64"
      "unat start + length data \<le> unat (ram_start p) \<or> unat (ram_start p) + unat (ram_size p) \<le> unat start"
    using ok by (auto simp add: load_ok_def Let_def)
  show "load_ok p ph h start m0 data (mem_store m (start + of_nat k) bs) \<and>
      mem_bytes (mem_store m (start + of_nat k) bs) start (length data) = memcpy_to (mem_bytes m start (length data)) k bs"
  proof (cases "bs = []")
    case True
    then show ?thesis using ok by (simp add: mem_store_def [abs_def])
  next
    case False
    then have lt: "k < length data" using k by (cases bs) auto
    have uk: "unat (of_nat k :: addr_t) = k" using lt r(2) by (intro unat_of_nat_small) simp
    have u: "unat (start + of_nat k) = unat start + k" using uk lt r(2) by (subst unat_plus_small) simp_all
    have "ram_content p (mem_store m (start + of_nat k) bs) = ram_content p m"
      using r k u by (intro ram_content_store) auto
    moreover have "mem_store m (start + of_nat k) bs x = m x" if "length data \<le> unat (x - start)" for x
    proof -
      have "unat (x - start - of_nat k) = unat (x - start) - k" using that lt uk by (subst unat_minus_small) (simp_all add: word_le_nat_alt)
      then have "\<not> unat (x - (start + of_nat k)) < length bs" using that k by (simp add: diff_diff_eq)
      then show ?thesis by (simp add: mem_store_def)
    qed
    ultimately have "load_ok p ph h start m0 data (mem_store m (start + of_nat k) bs)" using ok by (simp add: load_ok_def Let_def)
    moreover have "length data \<le> 2 ^ 64" using r(2) by simp
    ultimately show ?thesis using mem_bytes_store [OF k] by blast
  qed
next
  fix m :: mem assume "load_ok p ph h start m0 data m"
  then have "unat (f_size (ph_files ph ! unat (h_id h))) = length data" by (simp add: load_ok_def Let_def)
  then show "length data < 2 ^ 64" using unat_less_exp [of "f_size (ph_files ph ! unat (h_id h))"] by simp
qed simp

section \<open>Map lists\<close>

text \<open>The names of a list separated by semicolons.\<close>

fun join :: "string list \<Rightarrow> string" where
  "join [] = []"
| "join [n] = n"
| "join (n # ns) = n @ CHR '';'' # join ns"

definition map_name_ok :: "string \<Rightarrow> bool" where
  "map_name_ok n \<longleftrightarrow> NUL \<notin> set n \<and> CHR '';'' \<notin> set n"

lemma mapsParse_append:
  "map_name_ok n \<Longrightarrow> cmd_mapsParse (n @ s) (CHR '';'') = (case cmd_mapsParse s (CHR '';'') of (nb, t) \<Rightarrow> (nb, n @ t))"
  by (induction n) (auto simp: map_name_ok_def split: prod.splits)

fun joined :: "string list \<Rightarrow> string" where
  "joined [] = []"
| "joined [n] = n"
| "joined (n # ns) = n @ NUL # joined ns"

lemma mapsParse_join:
  "ns \<noteq> [] \<Longrightarrow> list_all map_name_ok ns \<Longrightarrow> cmd_mapsParse (join ns) (CHR '';'') = (length ns, joined ns)"
proof (induction ns rule: join.induct)
  case (2 n)
  then show ?case using mapsParse_append [of n "[]"] by simp
next
  case (3 n m ns)
  then show ?case using mapsParse_append [of n "CHR '';'' # join (m # ns)"] by (simp add: NUL_def)
qed simp

lemma mapsAdd2Prog_joined:
  "list_all map_name_ok ns \<Longrightarrow> list_all (\<lambda>n. \<exists>i. syspage_mapNameResolve n sp = Inr i) ns \<Longrightarrow> ns \<noteq> [] \<Longrightarrow>
   cmd_mapsAdd2Prog sp (length ns) (joined ns) =
     (map (\<lambda>n. case syspage_mapNameResolve n sp of Inr i \<Rightarrow> i | Inl _ \<Rightarrow> 0) ns, Inr ())"
proof (induction ns rule: joined.induct)
  case (2 n)
  then show ?case by auto
next
  case (3 n m ns)
  have c: "cstr (n @ NUL # t) = cstr n" "hal_strlen (n @ NUL # t) = length n" for t
    using 3(2) by (simp_all add: map_name_ok_def hal_strlen_cstr)
  have "syspage_mapGet (n @ NUL # t) sp = syspage_mapGet n sp" for t
    using c by (simp add: syspage_mapGet_def hal_strcmp_eq_0)
  then have "syspage_mapNameResolve (n @ NUL # t) sp = syspage_mapNameResolve n sp" for t
    by (simp add: syspage_mapNameResolve_def)
  then show ?case using 3 c by auto
qed simp

section \<open>Properties\<close>

text \<open>
  C10: A program file on a RAM storage device, inside its bank, is copied byte for byte into the entry allocated for it, which has the size of the file, lies outside the bank and
  does not wrap around the end of the address space: \<open>cmd_cp2ent\<close> returns without an error, the memory of the entry holds the file, and nothing else of the memory and of the loader's state changes.
\<close>

theorem cp2ent_loads_file:
  assumes "env_devs env = ram_devs p" "env_store env = (\<lambda>a bs m. mem_store m a bs)" "ph = plo_ph s" "f = ph_files ph ! unat (h_id h)"
    and "is_ram ph (h_pd h)" "unat (h_id h) < 32" "unat (f_addr f) < unat (ram_size p)"
    and "unat (f_addr f) + unat (f_size f) \<le> unat (ram_size p)" "unat (ram_start p) + unat (ram_size p) \<le> 2 ^ 64"
    and "e_end entry = e_start entry + f_size f" "unat (e_start entry) + unat (f_size f) \<le> 2 ^ 64"
    and "unat (e_start entry) + unat (f_size f) \<le> unat (ram_start p) \<or> unat (ram_start p) + unat (ram_size p) \<le> unat (e_start entry)"
  shows "\<exists>m. cmd_cp2ent env h entry s = Some (Inr (), s\<lparr>plo_w := m\<rparr>) \<and>
    mem_bytes m (e_start entry) (unat (f_size f)) = memcpy_from (ram_content p (plo_w s)) (unat (f_addr f)) (unat (f_size f)) \<and>
    (\<forall>x. x < e_start entry \<or> unat (e_start entry) + unat (f_size f) \<le> unat x \<longrightarrow> m x = plo_w s x)"
proof -
  let ?data = "memcpy_from (ram_content p (plo_w s)) (unat (f_addr f)) (unat (f_size f))"
  have l: "length ?data = unat (f_size f)" using assms(8) by simp
  have ok: "load_ok p ph h (e_start entry) (plo_w s) ?data (plo_w s)"
    using assms l by (simp add: load_ok_def SIZE_PHFS_ALIASES_def)
  have "e_end entry - e_start entry = of_nat (length ?data)" using assms(10) l by simp
  then have "\<exists>m. load_loop (phfs_read (env_stk env) (ram_devs p) ph h) (\<lambda>a bs m. mem_store m a bs) 0 (e_start entry)
      (e_end entry - e_start entry) 0 (plo_w s) = Some (Inr (), m) \<and> load_ok p ph h (e_start entry) (plo_w s) ?data m \<and>
      mem_bytes m (e_start entry) (length ?data) = ?data"
    using ram_load.load_all [OF ok] by simp
  then obtain m where m: "cmd_cp2ent env h entry s = Some (Inr (), s\<lparr>plo_w := m\<rparr>)" "load_ok p ph h (e_start entry) (plo_w s) ?data m"
      "mem_bytes m (e_start entry) (unat (f_size f)) = ?data"
    using assms(1-3) l by (auto simp: cmd_cp2ent_def lift_io_def)
  have "m x = plo_w s x" if "x < e_start entry \<or> unat (e_start entry) + unat (f_size f) \<le> unat x" for x
  proof -
    have "\<not> unat (x - e_start entry) < length ?data"
      using that assms(11) unfolding l by (rule outside_range)
    then show ?thesis using m(2) by (simp add: load_ok_def Let_def)
  qed
  then show ?thesis using m(1,3) by blast
qed

definition plo_ram :: "mem plo" where
  "plo_ram = \<lparr>plo_w = ucast, plo_ph = snd (phfs_aliasReg (Some ''kernel'') 4 3 phfs_ram),
     plo_sp = \<lparr>sp_base = 0, sp_heapTop = 0, sp_heapEnd = 0, sp_size = 0, sp_pkernel = 0, sp_console = 0, sp_maps = [], sp_progs = []\<rparr>,
     plo_opt = lib_getoptReset, plo_aliasBase = 0, plo_entry = 0\<rparr>"

theorem cp2ent_loads_file_witness:
  "\<exists>m. cmd_cp2ent env_ram \<lparr>h_pd = 0, h_id = 0\<rparr> \<lparr>e_start = 0x100, e_end = 0x103, e_type = hal_entryAllocated\<rparr> plo_ram =
      Some (Inr (), plo_ram\<lparr>plo_w := m\<rparr>) \<and> mem_bytes m 0x100 3 = [4, 5, 6] \<and> m 0x103 = 3"
proof -
  let ?ph = "snd (phfs_aliasReg (Some ''kernel'') 4 3 phfs_ram)"
  have d: "memcpy_from (ram_content ram_example ucast) 4 3 = [4, 5, 6]" by code_simp
  show ?thesis
    using cp2ent_loads_file [of env_ram ram_example ?ph plo_ram _ "\<lparr>h_pd = 0, h_id = 0\<rparr>"
        "\<lparr>e_start = 0x100, e_end = 0x103, e_type = hal_entryAllocated\<rparr>"] kernel_alias d
    by (auto simp: env_ram_def plo_ram_def ram_example_def ram_size_def)
qed

text \<open>
  The map lists of the \<open>app\<close> command: for names of existing maps joined by semicolons, the list is split into exactly these names
  and every name is resolved to the identifier of its map, in order.
\<close>

theorem app_maps_resolved:
  assumes "ns \<noteq> []" "list_all map_name_ok ns" "list_all (\<lambda>n. \<exists>i. syspage_mapNameResolve n sp = Inr i) ns"
    and "cmd_mapsParse (join ns) (CHR '';'') = (nb, names)"
  shows "nb = length ns \<and> cmd_mapsAdd2Prog sp nb names =
    (map (\<lambda>n. case syspage_mapNameResolve n sp of Inr i \<Rightarrow> i | Inl _ \<Rightarrow> 0) ns, Inr ())"
  using mapsParse_join [OF assms(1,2)] mapsAdd2Prog_joined [OF assms(2,3,1)] assms(4) by simp

theorem app_maps_resolved_witness:
  "cmd_mapsAdd2Prog (plo_sp plo_ram\<lparr>sp_maps := [\<lparr>m_name = ''a'', m_start = 0, m_end = 8, m_attr = 0, m_id = 0, m_entries = []\<rparr>,
     \<lparr>m_name = ''b'', m_start = 8, m_end = 16, m_attr = 0, m_id = 1, m_entries = []\<rparr>]\<rparr>) 2 (snd (cmd_mapsParse ''b;a'' (CHR '';''))) =
   ([1, 0], Inr ())"
proof -
  let ?sp = "plo_sp plo_ram\<lparr>sp_maps := [\<lparr>m_name = ''a'', m_start = 0, m_end = 8, m_attr = 0, m_id = 0, m_entries = []\<rparr>,
     \<lparr>m_name = ''b'', m_start = 8, m_end = 16, m_attr = 0, m_id = 1, m_entries = []\<rparr>]\<rparr>"
  have r: "syspage_mapNameResolve ''b'' ?sp = Inr 1" "syspage_mapNameResolve ''a'' ?sp = Inr 0"
    by (simp_all add: syspage_mapNameResolve_def syspage_mapGet_def hal_strcmp_eq_0 NUL_def)
  have "cmd_mapsParse (join [''b'', ''a'']) (CHR '';'') = (2, snd (cmd_mapsParse ''b;a'' (CHR '';'')))"
    using mapsParse_join [of "[''b'', ''a'']"] by (simp add: map_name_ok_def NUL_def)
  from app_maps_resolved [OF _ _ _ this, of ?sp] show ?thesis using r by (simp add: map_name_ok_def NUL_def)
qed

end
