(* ===== verification/Format.thy ===== *)
theory Format
  imports Strtoul
begin

text \<open>
  \<open>lib/format.c\<close>, \<open>lib/sprintf.c\<close>: the format parser behind \<open>lib_printf\<close> and \<open>lib_sprintf\<close>. The parser hands one character
  after the other to \<open>feed\<close> and never looks at what \<open>feed\<close> made of it, so its result is the string of
  characters fed. The variable arguments are a list: a number fills a slot of 64 bits, of which \<open>va_arg (args, u32)\<close>
  reads the low half, as on aarch64; a string argument may be NULL. \<open>None\<close> stands for the undefined behaviour of
  \<open>va_arg\<close> on a missing argument or one of the wrong kind.

  The bits of \<open>flags\<close> are the fields of a record. \<open>FLAG_FLOAT\<close> and \<open>FLAG_DOUBLE\<close> are set only by the conversions
  \<open>%f\<close> and \<open>%g\<close>, which are compiled out, so they and the two branches of \<open>lib_formatSprintfNum\<close> that they guard are left out.
\<close>

record fmt_flags =
  FLAG_SIGNED :: bool
  FLAG_64BIT :: bool
  FLAG_SPACE :: bool
  FLAG_ZERO :: bool
  FLAG_PLUS :: bool
  FLAG_HEX :: bool
  FLAG_OCT :: bool
  FLAG_LARGE_DIGITS :: bool
  FLAG_ALTERNATE :: bool
  FLAG_NULLMARK :: bool
  FLAG_MINUS :: bool
  FLAG_FIELD_WIDTH_STAR :: bool

definition no_flags :: fmt_flags where
  "no_flags = \<lparr>FLAG_SIGNED = False, FLAG_64BIT = False, FLAG_SPACE = False, FLAG_ZERO = False, FLAG_PLUS = False,
     FLAG_HEX = False, FLAG_OCT = False, FLAG_LARGE_DIGITS = False, FLAG_ALTERNATE = False, FLAG_NULLMARK = False,
     FLAG_MINUS = False, FLAG_FIELD_WIDTH_STAR = False\<rparr>"

datatype va = VNum u64 | VStr "string option"

section \<open>Numbers\<close>

lemma unat_and_mask: "unat ((n :: 'a::len word) AND mask k) = unat n mod 2 ^ k"
  by (simp only: take_bit_eq_mask [symmetric] unsigned_take_bit_eq) (rule take_bit_eq_mod)

lemma unat_drop_bit: "unat (drop_bit k (n :: 'a::len word)) = unat n div 2 ^ k"
  by (simp only: unat_drop_bit_eq) (rule drop_bit_eq_div)

text \<open>
  The loops that store digits in \<open>tmp_buf\<close>, least significant first: \<open>while (n) { *tmp++ = digits[n & mask]; n >>= k; }\<close>,
  the same for a fixed number of digits, and the loop with \<open>% 10\<close> and \<open>/= 10\<close>.
\<close>

function shift_loop :: "string \<Rightarrow> nat \<Rightarrow> 'a::len word \<Rightarrow> string" where
  "shift_loop digits k n =
     (if n = 0 \<or> k = 0 then [] else digits ! unat (n AND mask k) # shift_loop digits k (drop_bit k n))"
  by pat_completeness auto
termination
proof (relation "measure (\<lambda>(digits, k, n). unat n)", goal_cases)
  case (2 digits k n)
  then have "0 < unat n" "1 < (2::nat) ^ k" by (simp_all add: unat_gt_0 one_less_power del: One_nat_def)
  then show ?case by (simp add: unat_drop_bit)
qed simp

fun shift_for :: "nat \<Rightarrow> string \<Rightarrow> nat \<Rightarrow> 'a::len word \<Rightarrow> string \<times> 'a word" where
  "shift_for 0 digits k n = ([], n)"
| "shift_for (Suc c) digits k n =
     (case shift_for c digits k (drop_bit k n) of (s, n') \<Rightarrow> (digits ! unat (n AND mask k) # s, n'))"

function div_loop :: "string \<Rightarrow> 'a::len word \<Rightarrow> string" where
  "div_loop digits n =
     (if n = 0 then [] else digits ! (unat n mod 10) # div_loop digits (of_nat (unat n div 10)))"
  by pat_completeness auto
termination
proof (relation "measure (\<lambda>(digits, n). unat n)", goal_cases)
  case (2 digits n)
  then have "unat n div 10 < unat n" by (simp add: unat_gt_0)
  then show ?case by (simp add: unat_of_nat_le [of _ n])
qed simp

declare shift_loop.simps [simp del] div_loop.simps [simp del]

definition fmt_prefix :: "bool \<Rightarrow> string" where
  "fmt_prefix large = (if large then ''X0'' else ''x0'')"

text \<open>The content of \<open>tmp_buf\<close> when the digits have been stored.\<close>

definition num_chars :: "fmt_flags \<Rightarrow> u64 \<Rightarrow> u32 \<Rightarrow> u32 \<Rightarrow> string" where
  "num_chars flags num64 num32 num_high =
     (let digits = hex_digits (FLAG_LARGE_DIGITS flags) in
      if num64 = 0 then ''0''
      else if FLAG_HEX flags then
        (if FLAG_64BIT flags then fst (shift_for 8 digits 4 num32) @ shift_loop digits 4 num_high
         else shift_loop digits 4 num32) @
        (if FLAG_ALTERNATE flags then fmt_prefix (FLAG_LARGE_DIGITS flags) else [])
      else if FLAG_OCT flags then
        (if FLAG_64BIT flags then
           (case shift_for 10 digits 3 num32 of (s, n) \<Rightarrow>
              s @ digits ! unat ((n OR push_bit 2 (num_high AND 1)) AND 7) # shift_loop digits 3 (drop_bit 1 num_high))
         else shift_loop digits 3 num32) @
        (if FLAG_ALTERNATE flags then ''0'' else [])
      else if FLAG_64BIT flags then div_loop digits num64
      else div_loop digits num32)"

text \<open>\<open>sign\<close>, \<open>num64\<close>, \<open>num32\<close> and \<open>num_high\<close> once the sign has been taken off; \<open>sign\<close> is a string of at most one character.\<close>

definition num_sign :: "fmt_flags \<Rightarrow> u64 \<Rightarrow> string \<times> u64 \<times> u32 \<times> u32" where
  "num_sign flags num64 =
     (let num32 = ucast num64 :: u32; num_high = ucast (drop_bit 32 num64) :: u32 in
      if \<not> FLAG_SIGNED flags then ('''', num64, num32, num_high)
      else
        let plus = (if FLAG_SPACE flags then '' '' else if FLAG_PLUS flags then ''+'' else '''') in
        if FLAG_64BIT flags then
          (if num_high <s 0 then
             (let n = - num64 in (''-'', n, ucast n, ucast (drop_bit 32 n)))
           else (plus, num64, num32, num_high))
        else if num32 <s 0 then (''-'', num64, - num32, num_high)
        else (plus, num64, num32, num_high))"

definition lib_formatSprintfNum :: "u64 \<Rightarrow> fmt_flags \<Rightarrow> u32 \<Rightarrow> string" where
  "lib_formatSprintfNum num flags min_number_len =
     (case num_sign flags num of (sign, num64, num32, num_high) \<Rightarrow>
        let flags' = (if FLAG_64BIT flags \<and> num_high = 0 then flags\<lparr>FLAG_64BIT := False\<rparr> else flags);
            tmp = num_chars flags' num64 num32 num_high;
            pad_len = sint (of_int (sint min_number_len - int (length tmp) - int (length sign)) :: u32)
        in (if FLAG_NULLMARK flags \<and> num = 0 then ''(nil)'' else []) @
           (if pad_len > 0 \<and> \<not> FLAG_ZERO flags then replicate (nat pad_len) CHR '' '' else []) @
           sign @
           (if pad_len > 0 \<and> FLAG_ZERO flags then replicate (nat pad_len) CHR ''0'' else []) @
           rev tmp)"

section \<open>Conversion specifications\<close>

text \<open>The scans return the rest of the format from the character in \<open>fmt\<close> on.\<close>

fun fmt_flag :: "char \<Rightarrow> fmt_flags \<Rightarrow> fmt_flags option" where
  "fmt_flag c fl =
     (if c = CHR '' '' then Some (fl\<lparr>FLAG_SPACE := True\<rparr>)
      else if c = CHR ''-'' then Some (fl\<lparr>FLAG_MINUS := True\<rparr>)
      else if c = CHR ''0'' then Some (fl\<lparr>FLAG_ZERO := True\<rparr>)
      else if c = CHR ''+'' then Some (fl\<lparr>FLAG_PLUS := True\<rparr>)
      else if c = CHR ''#'' then Some (fl\<lparr>FLAG_ALTERNATE := True\<rparr>)
      else if c = CHR ''*'' then Some (fl\<lparr>FLAG_FIELD_WIDTH_STAR := True\<rparr>)
      else None)"

fun scan_flags :: "string \<Rightarrow> fmt_flags \<Rightarrow> fmt_flags \<times> string" where
  "scan_flags [] fl = (fl, [])"
| "scan_flags (c # s) fl = (case fmt_flag c fl of None \<Rightarrow> (fl, c # s) | Some fl' \<Rightarrow> scan_flags s fl')"

fun scan_digits :: "string \<Rightarrow> u32 \<Rightarrow> u32 \<times> string" where
  "scan_digits [] n = (n, [])"
| "scan_digits (c # s) n =
     (if code c \<ge> code CHR ''0'' \<and> code c \<le> code CHR ''9''
      then scan_digits s (n * 10 + of_int (code c) - of_int (code CHR ''0''))
      else (n, c # s))"

definition va_num :: "va list \<Rightarrow> (u64 \<times> va list) option" where
  "va_num args = (case args of VNum n # rest \<Rightarrow> Some (n, rest) | _ \<Rightarrow> None)"

definition va_str :: "va list \<Rightarrow> (string option \<times> va list) option" where
  "va_str args = (case args of VStr s # rest \<Rightarrow> Some (s, rest) | _ \<Rightarrow> None)"

text \<open>\<open>GET_UNSIGNED\<close> and \<open>GET_SIGNED\<close>.\<close>

definition GET_UNSIGNED :: "fmt_flags \<Rightarrow> va list \<Rightarrow> (u64 \<times> va list) option" where
  "GET_UNSIGNED flags args =
     map_option (map_prod (\<lambda>n. if FLAG_64BIT flags then n else ucast (ucast n :: u32)) id) (va_num args)"

definition GET_SIGNED :: "fmt_flags \<Rightarrow> va list \<Rightarrow> (u64 \<times> va list) option" where
  "GET_SIGNED flags args =
     map_option (map_prod (\<lambda>n. if FLAG_64BIT flags then n else scast (ucast n :: u32)) id) (va_num args)"

text \<open>
  A conversion specification behind its \<open>%\<close>: the flags, the field width, the precision (\<open>-1\<close> when there is none) and
  the format from the conversion character on. \<open>Stop\<close> is the \<open>break\<close> at the end of the format.
\<close>

datatype spec = Stop | Undef | Spec fmt_flags u32 u32 string "va list"

definition fmt_width :: "string \<Rightarrow> va list \<Rightarrow> spec" where
  "fmt_width s args =
     (case scan_flags s no_flags of (flags, s1) \<Rightarrow>
        if chr0 s1 = NUL then Stop
        else case scan_digits s1 0 of (len, s2) \<Rightarrow>
          (case (if FLAG_FIELD_WIDTH_STAR flags then map_option (map_prod ucast id) (va_num args) else Some (len, args)) of
             None \<Rightarrow> Undef
           | Some (len', args') \<Rightarrow> if chr0 s2 = NUL then Stop else Spec flags len' (-1) s2 args'))"

definition fmt_precision :: "spec \<Rightarrow> spec" where
  "fmt_precision sp =
     (case sp of
        Spec flags len frac s args \<Rightarrow>
          (case (if chr0 s = CHR ''.'' then scan_digits (tl s) 0 else (frac, s)) of (frac', s') \<Rightarrow>
             if chr0 s' = NUL then Stop
             else if chr0 s' = CHR ''*'' then
               (case va_num args of
                  None \<Rightarrow> Undef
                | Some (n, args') \<Rightarrow>
                    if chr0 (tl s') = NUL then Stop else Spec flags len (ucast n) (tl s') args')
             else Spec flags len frac' s' args)
      | _ \<Rightarrow> sp)"

definition fmt_length :: "spec \<Rightarrow> spec" where
  "fmt_length sp =
     (case sp of
        Spec flags len frac s args \<Rightarrow>
          (let (flags1, s1) =
             (if chr0 s = CHR ''l'' then
                (if chr0 (tl s) = CHR ''l'' then (flags\<lparr>FLAG_64BIT := True\<rparr>, tl (tl s)) else (flags, tl s))
              else (flags, s))
           in if chr0 s1 = NUL then Stop
              else let (flags2, s2) = (if chr0 s1 = CHR ''z'' then (flags1\<lparr>FLAG_64BIT := True\<rparr>, tl s1) else (flags1, s1))
                   in if chr0 s2 = NUL then Stop else Spec flags2 len frac s2 args)
      | _ \<Rightarrow> sp)"

definition fmt_spec :: "string \<Rightarrow> va list \<Rightarrow> spec" where
  "fmt_spec s args = fmt_length (fmt_precision (fmt_width s args))"

section \<open>Conversions\<close>

text \<open>\<open>lib_formatMemchr\<close> returns the distance to the character found.\<close>

fun lib_formatMemchr :: "string \<Rightarrow> char \<Rightarrow> nat \<Rightarrow> nat option" where
  "lib_formatMemchr s c 0 = None"
| "lib_formatMemchr s c (Suc n) = (if chr0 s = c then Some 0 else map_option Suc (lib_formatMemchr (tl s) c n))"

definition fmt_string :: "fmt_flags \<Rightarrow> u32 \<Rightarrow> u32 \<Rightarrow> string option \<Rightarrow> string" where
  "fmt_string flags min_number_len float_frac_len str =
     (let s = (case str of None \<Rightarrow> ''(null)'' | Some s \<Rightarrow> s);
          len = unat min_number_len;
          l0 = (if len > 0 then (case lib_formatMemchr s NUL len of None \<Rightarrow> len | Some p \<Rightarrow> p) else hal_strlen s);
          l = (if sint float_frac_len \<ge> 0 then min l0 (unat float_frac_len) else l0);
          pad = replicate (len - l) CHR '' ''
      in (if FLAG_MINUS flags then [] else pad) @ map (chr_at s) [0..<l] @ (if FLAG_MINUS flags then pad else []))"

definition POINTER_LEN :: u32 where
  "POINTER_LEN = 16"

text \<open>The \<open>switch\<close> on the conversion character: the characters fed and the arguments left.\<close>

definition fmt_conv :: "char \<Rightarrow> fmt_flags \<Rightarrow> u32 \<Rightarrow> u32 \<Rightarrow> va list \<Rightarrow> (string \<times> va list) option" where
  "fmt_conv c flags len frac args =
     (if c = CHR ''s'' then map_option (map_prod (fmt_string flags len frac) id) (va_str args)
      else if c = CHR ''c'' then map_option (map_prod (\<lambda>n. [char_of (unat (ucast n :: u8))]) id) (va_num args)
      else if c = CHR ''p'' then
        (let fl = flags\<lparr>FLAG_HEX := True, FLAG_NULLMARK := True, FLAG_ZERO := True, FLAG_64BIT := True\<rparr>
         in map_option (map_prod (\<lambda>n. lib_formatSprintfNum n fl POINTER_LEN) id) (GET_UNSIGNED fl args))
      else if c = CHR ''o'' then
        (let fl = flags\<lparr>FLAG_OCT := True\<rparr>
         in map_option (map_prod (\<lambda>n. lib_formatSprintfNum n fl len) id) (GET_UNSIGNED fl args))
      else if c = CHR ''X'' then
        (let fl = flags\<lparr>FLAG_LARGE_DIGITS := True, FLAG_HEX := True\<rparr>
         in map_option (map_prod (\<lambda>n. lib_formatSprintfNum n fl len) id) (GET_UNSIGNED fl args))
      else if c = CHR ''x'' then
        (let fl = flags\<lparr>FLAG_HEX := True\<rparr>
         in map_option (map_prod (\<lambda>n. lib_formatSprintfNum n fl len) id) (GET_UNSIGNED fl args))
      else if c = CHR ''u'' then
        map_option (map_prod (\<lambda>n. lib_formatSprintfNum n flags len) id) (GET_UNSIGNED flags args)
      else if c = CHR ''d'' \<or> c = CHR ''i'' then
        (let fl = flags\<lparr>FLAG_SIGNED := True\<rparr>
         in map_option (map_prod (\<lambda>n. lib_formatSprintfNum n fl len) id) (GET_SIGNED fl args))
      else if c = CHR ''%'' then Some (''%'', args)
      else Some ([CHR ''%'', c], args))"

section \<open>The parser\<close>

lemma scan_flags_length: "length (snd (scan_flags s fl)) \<le> length s"
proof (induction s fl rule: scan_flags.induct)
  case (2 c s fl)
  then show ?case by (cases "fmt_flag c fl") (auto simp del: fmt_flag.simps intro: le_SucI)
qed simp

lemma scan_digits_length: "length (snd (scan_digits s n)) \<le> length s"
  by (induction s n rule: scan_digits.induct) (auto intro: le_SucI)

lemma fmt_width_length: "fmt_width s args = Spec fl len frac r as \<Longrightarrow> length r \<le> length s \<and> r \<noteq> []"
  using scan_flags_length [of s no_flags] scan_digits_length [of "snd (scan_flags s no_flags)" 0]
  by (auto simp: fmt_width_def split: prod.splits option.splits if_splits)

lemma fmt_precision_length:
  "fmt_precision (Spec fl len frac s args) = Spec fl' len' frac' r as \<Longrightarrow> length r \<le> length s \<and> r \<noteq> []"
  using scan_digits_length [of "tl s" 0]
  by (cases s) (auto simp: fmt_precision_def split: prod.splits option.splits if_splits)

lemma fmt_length_length:
  "fmt_length (Spec fl len frac s args) = Spec fl' len' frac' r as \<Longrightarrow> length r \<le> length s \<and> r \<noteq> []"
  by (cases s; cases "tl s") (auto simp: fmt_length_def Let_def split: prod.splits if_splits)

lemma fmt_precision_stop [simp]: "fmt_precision Stop = Stop" "fmt_precision Undef = Undef"
  by (simp_all add: fmt_precision_def)

lemma fmt_length_stop [simp]: "fmt_length Stop = Stop" "fmt_length Undef = Undef"
  by (simp_all add: fmt_length_def)

lemma fmt_spec_length: "fmt_spec s args = Spec fl len frac r as \<Longrightarrow> length r \<le> length s \<and> r \<noteq> []"
  unfolding fmt_spec_def
proof (cases "fmt_width s args")
  case w: (Spec fl1 len1 frac1 r1 as1)
  assume a: "fmt_length (fmt_precision (fmt_width s args)) = Spec fl len frac r as"
  then obtain fl2 len2 frac2 r2 as2 where p: "fmt_precision (fmt_width s args) = Spec fl2 len2 frac2 r2 as2"
    by (cases "fmt_precision (fmt_width s args)") auto
  show ?thesis
    using fmt_width_length [OF w] fmt_precision_length [OF p [unfolded w]] fmt_length_length [OF a [unfolded p]] by auto
qed auto

function lib_formatParse :: "string \<Rightarrow> va list \<Rightarrow> string option" where
  "lib_formatParse s args =
     (case s of
        [] \<Rightarrow> Some []
      | c # s1 \<Rightarrow>
          if c = NUL then Some []
          else if c \<noteq> CHR ''%'' then map_option ((#) c) (lib_formatParse s1 args)
          else if chr0 s1 = NUL then Some ''%''
          else (case fmt_spec s1 args of
                  Stop \<Rightarrow> Some []
                | Undef \<Rightarrow> None
                | Spec flags len frac r args1 \<Rightarrow>
                    (case fmt_conv (chr0 r) flags len frac args1 of
                       None \<Rightarrow> None
                     | Some (out, args2) \<Rightarrow> map_option ((@) out) (lib_formatParse (tl r) args2))))"
  by pat_completeness auto
termination
proof (relation "measure (\<lambda>(s, args). length s)", goal_cases)
  case (3 s args c s1 fl len frac r as out as2)
  then show ?case using fmt_spec_length [of s1 args fl len frac r as] by (cases r) auto
qed auto

declare lib_formatParse.simps [simp del]

text \<open>
  \<open>lib_sprintf\<close>: every character fed is stored at \<open>buff[n++]\<close>, the terminator last; \<open>None\<close> also when a store is outside
  the buffer. The result is the length of the string.
\<close>

fun sprintf_feed :: "string \<Rightarrow> string \<times> nat \<Rightarrow> (string \<times> nat) option" where
  "sprintf_feed [] ctx = Some ctx"
| "sprintf_feed (c # cs) (buff, n) = (if n < length buff then sprintf_feed cs (buff[n := c], Suc n) else None)"

definition lib_sprintf :: "string \<Rightarrow> string \<Rightarrow> va list \<Rightarrow> (string \<times> nat) option" where
  "lib_sprintf str format args =
     (case lib_formatParse format args of
        None \<Rightarrow> None
      | Some out \<Rightarrow> map_option (\<lambda>(buff, n). (buff, n - 1)) (sprintf_feed (out @ [NUL]) (str, 0)))"

section \<open>Stored digits\<close>

primrec fix_digits :: "nat \<Rightarrow> nat \<Rightarrow> nat \<Rightarrow> nat list" where
  "fix_digits b 0 n = []"
| "fix_digits b (Suc c) n = n mod b # fix_digits b c (n div b)"

lemma length_fix_digits [simp]: "length (fix_digits b c n) = c"
  by (induction c arbitrary: n) auto

lemma nat_digits_split:
  "2 \<le> b \<Longrightarrow> 0 < n div b ^ c \<Longrightarrow> nat_digits b n = fix_digits b c n @ nat_digits b (n div b ^ c)"
proof (induction c arbitrary: n)
  case (Suc c)
  then have d: "0 < n div b div b ^ c" by (simp add: div_mult2_eq)
  then have "n \<noteq> 0" by (rule contrapos_pn) simp
  then show ?case using Suc.IH [OF Suc.prems(1) d] Suc.prems(1) by (simp add: nat_digits.simps [of b n] div_mult2_eq)
qed simp

lemma fix_digits_mod: "0 < b \<Longrightarrow> c \<le> m \<Longrightarrow> fix_digits b c (n mod b ^ m) = fix_digits b c n"
proof (induction c arbitrary: n m)
  case (Suc c)
  then obtain m' where m: "m = Suc m'" "c \<le> m'" by (cases m) auto
  have "n mod (b * b ^ m') mod b = n mod b" by (simp add: mod_mult2_eq)
  moreover have "n mod (b * b ^ m') div b = n div b mod b ^ m'" using Suc.prems(1) by (simp add: mod_mult2_eq)
  ultimately show ?case using Suc.IH [OF Suc.prems(1) m(2), of "n div b"] m(1) by simp
qed simp

lemma length_nat_digits: "n < b ^ k \<Longrightarrow> length (nat_digits b n) \<le> k"
proof (induction k arbitrary: n)
  case 0
  then show ?case by (simp add: nat_digits.simps [of b 0])
next
  case (Suc k)
  show ?case
  proof (cases "n = 0 \<or> b < 2")
    case False
    then have "n div b < b ^ k" using Suc.prems by (simp add: less_mult_imp_div_less mult.commute)
    then show ?thesis using Suc.IH [of "n div b"] False by (simp add: nat_digits.simps [of b n])
  qed (simp add: nat_digits.simps [of b n])
qed

lemma shift_loop_digits:
  "0 < k \<Longrightarrow> shift_loop ds k n = map (nth ds) (nat_digits (2 ^ k) (unat n))"
proof (induction ds k n rule: shift_loop.induct)
  case (1 ds k n)
  have k: "\<not> 2 ^ k < (2::nat)" using "1.prems" by (cases k) simp_all
  show ?case using 1 k
    by (auto simp: unat_and_mask unat_drop_bit shift_loop.simps [of ds k n] nat_digits.simps [of "2 ^ k" "unat n"] unat_eq_0)
qed

lemma shift_for_digits:
  "shift_for c ds k n = (map (nth ds) (fix_digits (2 ^ k) c (unat n)), drop_bit (k * c) n)"
proof (induction c arbitrary: n)
  case (Suc c)
  show ?case by (simp add: Suc unat_and_mask unat_drop_bit add.commute)
qed simp

lemma div_loop_digits: "div_loop ds n = map (nth ds) (nat_digits 10 (unat n))"
proof (induction ds n rule: div_loop.induct)
  case (1 ds n)
  have "unat (of_nat (unat n div 10) :: 'a word) = unat n div 10" by (rule unat_of_nat_le [of _ n]) simp
  then show ?case using 1
    by (simp add: div_loop.simps [of ds n] nat_digits.simps [of 10 "unat n"] unat_eq_0)
qed

lemma length_shift_loop: "0 < k \<Longrightarrow> LENGTH('a) \<le> k * c \<Longrightarrow> length (shift_loop ds k (n :: 'a::len word)) \<le> c"
proof -
  assume k: "0 < k" "LENGTH('a) \<le> k * c"
  have "unat n < 2 ^ LENGTH('a)" by (rule unat_less_exp)
  also have "\<dots> \<le> 2 ^ (k * c)" using k(2) by (intro power_increasing) auto
  finally have "unat n < (2 ^ k) ^ c" by (simp add: power_mult)
  then show ?thesis using k(1) by (simp add: shift_loop_digits length_nat_digits)
qed

lemma length_div_loop: "2 ^ LENGTH('a) \<le> (10::nat) ^ c \<Longrightarrow> length (div_loop ds (n :: 'a::len word)) \<le> c"
  by (simp only: div_loop_digits length_map) (rule length_nat_digits, erule less_le_trans [OF unat_less_exp])

lemma length_fmt_prefix [simp]: "length (fmt_prefix u) = 2"
  by (simp add: fmt_prefix_def)

text \<open>The digits of a number of any width, base and flags fit \<open>tmp_buf\<close>, which has 32 characters.\<close>

lemma num_chars_length: "length (num_chars flags num64 num32 num_high) \<le> 23"
proof -
  have h: "length (shift_loop ds 4 (n :: u32)) \<le> 8" "length (shift_loop ds 3 (n :: u32)) \<le> 11"
    "length (div_loop ds (n :: u32)) \<le> 10" "length (div_loop ds (m :: u64)) \<le> 20" for ds n m
    by (rule length_shift_loop length_div_loop; simp)+
  show ?thesis
    using h(1) [of "hex_digits (FLAG_LARGE_DIGITS flags)"] h(2) [of "hex_digits (FLAG_LARGE_DIGITS flags)"]
      h(3) [of "hex_digits (FLAG_LARGE_DIGITS flags)"] h(4) [of "hex_digits (FLAG_LARGE_DIGITS flags)"]
    unfolding num_chars_def Let_def
    by (auto simp: shift_for_digits add_le_mono intro: order_trans [OF h(1)] order_trans [OF h(2)] order_trans [OF h(3)]
        order_trans [OF h(4)])
qed

section \<open>Printed numbers\<close>

definition num_base :: "fmt_flags \<Rightarrow> nat" where
  "num_base flags = (if FLAG_HEX flags then 16 else if FLAG_OCT flags then 8 else 10)"

definition num_pre :: "fmt_flags \<Rightarrow> string" where
  "num_pre flags =
     (if \<not> FLAG_ALTERNATE flags then []
      else if FLAG_HEX flags then (if FLAG_LARGE_DIGITS flags then ''0X'' else ''0x'')
      else if FLAG_OCT flags then ''0'' else [])"

definition num_body :: "fmt_flags \<Rightarrow> nat \<Rightarrow> string" where
  "num_body flags v = (if v = 0 then ''0'' else num_pre flags @ print_digits (FLAG_LARGE_DIGITS flags) (num_base flags) v)"

definition sign_of :: "fmt_flags \<Rightarrow> int \<Rightarrow> string" where
  "sign_of flags v =
     (if v < 0 then ''-'' else if \<not> FLAG_SIGNED flags then '''' else if FLAG_SPACE flags then '' ''
      else if FLAG_PLUS flags then ''+'' else '''')"

definition num_field :: "fmt_flags \<Rightarrow> nat \<Rightarrow> int \<Rightarrow> string" where
  "num_field flags len v =
     (let body = num_body flags (nat \<bar>v\<bar>); sign = sign_of flags v;
          pad = len - length body - length sign
      in if FLAG_ZERO flags then sign @ replicate pad CHR ''0'' @ body
         else replicate pad CHR '' '' @ sign @ body)"

lemma num_body_64bit [simp]: "num_body (flags\<lparr>FLAG_64BIT := b\<rparr>) = num_body flags"
  by (simp add: num_body_def num_pre_def num_base_def fun_eq_iff)

lemma rev_fmt_prefix: "rev (fmt_prefix u) = (if u then ''0X'' else ''0x'')"
  by (simp add: fmt_prefix_def)

lemma num_chars_32:
  assumes "\<not> FLAG_64BIT flags" "n64 = 0 \<longleftrightarrow> n32 = 0"
  shows "rev (num_chars flags n64 n32 h) = num_body flags (unat n32)"
  using assms
  by (auto simp: num_chars_def num_body_def num_pre_def num_base_def Let_def shift_loop_digits div_loop_digits
      rev_map rev_fmt_prefix unat_eq_0 print_digits_def)

lemma unat_halves:
  "unat (ucast (n :: u64) :: u32) = unat n mod 2 ^ 32" "unat (ucast (drop_bit 32 n) :: u32) = unat n div 2 ^ 32"
proof -
  show "unat (ucast n :: u32) = unat n mod 2 ^ 32"
    by (simp add: unsigned_ucast_eq take_bit_eq_mod)
  have "unat n div 2 ^ 32 < 2 ^ 32" using unat_less_exp [of n] by (simp add: less_mult_imp_div_less)
  then show "unat (ucast (drop_bit 32 n) :: u32) = unat n div 2 ^ 32"
    by (simp add: unsigned_ucast_eq take_bit_eq_mod unat_drop_bit)
qed

lemma oct_middle:
  "unat (((drop_bit 30 (ucast (n :: u64) :: u32)) OR push_bit 2 (ucast (drop_bit 32 n) AND 1)) AND 7)
     = unat n div 2 ^ 30 mod 8"
proof -
  have "((drop_bit 30 (ucast n :: u32)) OR push_bit 2 (ucast (drop_bit 32 n) AND 1)) AND mask 3
      = ucast (drop_bit 30 n AND mask 3)"
  proof (rule bit_word_eqI)
    fix i assume "i < LENGTH(32)"
    consider "i < 2" | "i = 2" | "2 < i" by arith
    then show "bit (((drop_bit 30 (ucast n :: u32)) OR push_bit 2 (ucast (drop_bit 32 n) AND 1)) AND mask 3) i
        = bit (ucast (drop_bit 30 n AND mask 3) :: u32) i"
      by cases (auto simp: bit_simps)
  qed
  moreover have "unat (ucast (drop_bit 30 n AND mask 3) :: u32) = unat n div 2 ^ 30 mod 8"
  proof -
    have "unat (drop_bit 30 n AND mask 3) = unat n div 2 ^ 30 mod 8"
      by (simp add: unat_and_mask unat_drop_bit)
    then show ?thesis by (simp add: unsigned_ucast_eq take_bit_eq_mod)
  qed
  ultimately show ?thesis by (simp add: mask_numeral)
qed

lemma num_chars_64:
  assumes "FLAG_64BIT flags" "ucast (drop_bit 32 n) \<noteq> (0 :: u32)"
  shows "rev (num_chars flags n (ucast n) (ucast (drop_bit 32 n))) = num_body flags (unat n)"
proof -
  have hm: "unat n div 4294967296 mod 4294967296 = unat n div 4294967296"
    using unat_less_exp [of n] by (simp add: less_mult_imp_div_less)
  have hi: "0 < unat n div 2 ^ 32" using assms(2) unat_halves(2) [of n] by (metis gr0I unat_eq_0)
  then have n0: "n \<noteq> 0" and hx: "0 < unat n div 16 ^ 8" and oc: "0 < unat n div 8 ^ 10" by (auto simp: div_greater_zero_iff)
  have hex: "nat_digits 16 (unat n) = fix_digits 16 8 (unat n mod 2 ^ 32) @ nat_digits 16 (unat n div 2 ^ 32)"
    using nat_digits_split [OF _ hx] fix_digits_mod [of 16 8 8 "unat n"] by simp
  have "nat_digits 8 (unat n) = fix_digits 8 10 (unat n mod 2 ^ 32) @ nat_digits 8 (unat n div 8 ^ 10)"
    using nat_digits_split [OF _ oc] fix_digits_mod [of 8 10 10 "unat n"] fix_digits_mod [of 8 10 10 "unat n mod 2 ^ 32"]
    by (simp add: mod_mod_cancel)
  also have "nat_digits 8 (unat n div 8 ^ 10) = unat n div 2 ^ 30 mod 8 # nat_digits 8 (unat n div 2 ^ 32 div 2)"
    using oc nat_digits.simps [of 8 "unat n div 8 ^ 10"] by (simp add: div_mult2_eq [symmetric])
  finally have oct: "nat_digits 8 (unat n) =
    fix_digits 8 10 (unat n mod 2 ^ 32) @ unat n div 2 ^ 30 mod 8 # nat_digits 8 (unat n div 2 ^ 32 div 2)" .
  show ?thesis
  proof (cases "FLAG_HEX flags")
    case True
    then show ?thesis using assms(1) n0 hex
      by (simp add: num_chars_def num_body_def num_pre_def num_base_def Let_def shift_for_digits shift_loop_digits
          unat_halves(1) [simplified] hm unat_drop_bit rev_fmt_prefix unat_eq_0 print_digits_def rev_map)
  next
    case hex: False
    show ?thesis
    proof (cases "FLAG_OCT flags")
      case True
      then show ?thesis using assms(1) n0 hex oct
        by (simp add: num_chars_def num_body_def num_pre_def num_base_def Let_def shift_for_digits shift_loop_digits
            unat_halves(1) [simplified] hm unat_drop_bit oct_middle [simplified] unat_eq_0 print_digits_def rev_map)
    next
      case False
      then show ?thesis using assms(1) n0 hex
        by (simp add: num_chars_def num_body_def num_pre_def num_base_def Let_def div_loop_digits unat_eq_0
            print_digits_def rev_map)
    qed
  qed
qed

text \<open>The value printed: the argument read with the width and the signedness of the flags.\<close>

definition num_value :: "fmt_flags \<Rightarrow> u64 \<Rightarrow> int" where
  "num_value flags n =
     (if FLAG_SIGNED flags then (if FLAG_64BIT flags then sint n else sint (ucast n :: u32))
      else if FLAG_64BIT flags then uint n else uint (ucast n :: u32))"

lemma ucast_scast: "(ucast (scast (x :: u32) :: u64) :: u32) = x" "(ucast (ucast (x :: u32) :: u64) :: u32) = x"
  by (rule bit_word_eqI; simp add: bit_simps)+

lemma ucast_eq_0: "(ucast (x :: u32) :: u64) = 0 \<longleftrightarrow> x = 0" "(scast (x :: u32) :: u64) = 0 \<longleftrightarrow> x = 0"
  using ucast_scast [of x] by auto

lemma sint_less_0_high:
  "sint (ucast (drop_bit 32 (n :: u64)) :: u32) < 0 \<longleftrightarrow> sint n < 0"
  by (simp add: bit_last_iff [symmetric] bit_simps)

lemma sint_negative: "sint (n :: 'a::len word) < 0 \<Longrightarrow> sint n = uint n - 2 ^ LENGTH('a)"
proof -
  assume "sint n < 0"
  then have "bit n (LENGTH('a) - Suc 0)" by (simp add: bit_last_iff)
  then show ?thesis
    using signed_take_bit_eq_take_bit_minus [of "LENGTH('a) - 1" "uint n"] by (simp add: sint_uint bit_uint_iff take_bit_int_eq_self [OF uint_ge_0 uint_lt2p])
qed

lemma sint_nonneg: "\<not> sint (n :: 'a::len word) < 0 \<Longrightarrow> sint n = uint n"
proof -
  assume "\<not> sint n < 0"
  then have "\<not> bit n (LENGTH('a) - Suc 0)" by (simp add: bit_last_iff)
  then show ?thesis
    using signed_take_bit_eq_take_bit_minus [of "LENGTH('a) - 1" "uint n"] by (simp add: sint_uint bit_uint_iff take_bit_int_eq_self [OF uint_ge_0 uint_lt2p])
qed

lemma unat_uminus_sint: "sint (n :: 'a::len word) < 0 \<Longrightarrow> unat (- n) = nat (- sint n)"
proof -
  assume n: "sint n < 0"
  then have "n \<noteq> 0" by auto
  then have "uint n \<noteq> 0" by (simp add: uint_0_iff)
  then have "0 < uint n" using uint_ge_0 [of n] by linarith
  then have "uint (- n) = 2 ^ LENGTH('a) - uint n"
    using uint_lt2p [of n] by (simp add: uint_word_ariths(4) zmod_zminus1_eq_if)
  then show ?thesis by (simp add: sint_negative [OF n] flip: nat_uint_eq)
qed

text \<open>The arguments as \<open>GET_UNSIGNED\<close> and \<open>GET_SIGNED\<close> read them.\<close>

definition num_arg :: "fmt_flags \<Rightarrow> u64 \<Rightarrow> u64" where
  "num_arg flags n =
     (if FLAG_64BIT flags then n else if FLAG_SIGNED flags then scast (ucast n :: u32) else ucast (ucast n :: u32))"

lemma num_sign_value:
  assumes "num_sign flags (num_arg flags n) = (sign, num64, num32, num_high)"
  shows "sign = sign_of flags (num_value flags n)"
    and "FLAG_64BIT flags \<Longrightarrow>
      unat num64 = nat \<bar>num_value flags n\<bar> \<and> num32 = ucast num64 \<and> num_high = ucast (drop_bit 32 num64)"
    and "\<not> FLAG_64BIT flags \<Longrightarrow> unat num32 = nat \<bar>num_value flags n\<bar> \<and> (num64 = 0 \<longleftrightarrow> num32 = 0)"
  subgoal
    using assms
    by (auto simp: num_sign_def num_arg_def num_value_def sign_of_def Let_def sint_less_0_high ucast_scast word_sless_alt
        split: if_splits)
  subgoal
    using assms
    by (auto simp: num_sign_def num_arg_def num_value_def Let_def sint_less_0_high word_sless_alt unat_uminus_sint sint_nonneg
        split: if_splits)
  subgoal
    using assms
    by (auto simp: num_sign_def num_arg_def num_value_def Let_def ucast_scast word_sless_alt unat_uminus_sint sint_nonneg
        ucast_eq_0 split: if_splits)
  done

lemma sint_of_int_small: "- 2147483648 \<le> x \<Longrightarrow> x < 2147483648 \<Longrightarrow> sint (of_int x :: u32) = x"
  by (simp add: sint_sbintrunc' signed_take_bit_int_eq_self)

lemma sint_small: "unat (x :: u32) < 2 ^ 31 \<Longrightarrow> sint x = int (unat x)"
proof -
  assume "unat x < 2 ^ 31"
  then have "unat x < 2147483648" by simp
  then have "sint (of_int (int (unat x)) :: u32) = int (unat x)" by (intro sint_of_int_small) linarith+
  then show ?thesis by simp
qed

lemma sprintfNum_field:
  assumes "unat len < 2 ^ 31"
  shows "lib_formatSprintfNum (num_arg flags n) flags len =
    (if FLAG_NULLMARK flags \<and> num_arg flags n = 0 then ''(nil)'' else []) @ num_field flags (unat len) (num_value flags n)"
proof -
  obtain sign num64 num32 num_high where s: "num_sign flags (num_arg flags n) = (sign, num64, num32, num_high)"
    by (metis prod_cases4)
  define fl where "fl = (if FLAG_64BIT flags \<and> num_high = 0 then flags\<lparr>FLAG_64BIT := False\<rparr> else flags)"
  define tmp where "tmp = num_chars fl num64 num32 num_high"
  let ?body = "num_body flags (nat \<bar>num_value flags n\<bar>)"
  note v = num_sign_value [OF s]
  have body: "rev tmp = ?body"
  proof (cases "FLAG_64BIT flags \<and> num_high \<noteq> 0")
    case True
    then show ?thesis using num_chars_64 [of fl num64] v(2) by (simp add: tmp_def fl_def)
  next
    case False
    have "(num64 = 0 \<longleftrightarrow> num32 = 0) \<and> unat num32 = nat \<bar>num_value flags n\<bar>"
    proof (cases "FLAG_64BIT flags")
      case True
      then have h: "unat num64 div 2 ^ 32 = 0" "num32 = ucast num64" "unat num64 = nat \<bar>num_value flags n\<bar>"
        using False v(2) unat_halves(2) [of num64] by auto
      then have "unat num32 = unat num64" using unat_halves(1) [of num64] by (simp add: div_eq_0_iff)
      then show ?thesis using h(3) by (metis unat_eq_0)
    qed (use v(3) in auto)
    then show ?thesis using num_chars_32 [of fl num64 num32 num_high] False by (auto simp: tmp_def fl_def)
  qed
  then have l: "length tmp = length ?body" by (metis length_rev)
  then have l23: "length ?body \<le> 23" using num_chars_length [of fl num64 num32 num_high] by (simp add: tmp_def)
  have sg: "length sign \<le> 1" using v(1) by (simp add: sign_of_def)
  let ?x = "sint len - int (length tmp) - int (length sign)"
  have len: "sint len = int (unat len)" using assms by (rule sint_small)
  have pad: "sint (of_int ?x :: u32) = ?x"
    unfolding len l using l23 sg assms [simplified] by (intro sint_of_int_small) linarith+
  have x: "nat ?x = unat len - length ?body - length sign" unfolding len l by linarith
  have "(if ?x > 0 \<and> b then replicate (nat ?x) c else []) = (if b then replicate (nat ?x) c else [])" for b and c :: char
    by simp
  then have "lib_formatSprintfNum (num_arg flags n) flags len =
      (if FLAG_NULLMARK flags \<and> num_arg flags n = 0 then ''(nil)'' else []) @
      (if \<not> FLAG_ZERO flags then replicate (nat ?x) CHR '' '' else []) @ sign @
      (if FLAG_ZERO flags then replicate (nat ?x) CHR ''0'' else []) @ rev tmp"
    unfolding lib_formatSprintfNum_def s prod.case Let_def fl_def [symmetric] tmp_def [symmetric] pad by (simp only:)
  then show ?thesis unfolding x body by (simp add: num_field_def Let_def v(1) [symmetric])
qed

end
