(* ===== verification/Format_Props.thy ===== *)
theory Format_Props
  imports Format
begin

text \<open>
  What the format parser prints: number conversions agree with a reference field (\<open>num_field\<close>), strings fill their
  field, \<open>lib_sprintf\<close> stores the output with its terminator, and printed numbers are parsed back by \<open>lib_strtoul\<close>.
\<close>

section \<open>Conversions of numbers\<close>

text \<open>The flags a conversion character adds to those scanned.\<close>

definition conv_flags :: "char \<Rightarrow> fmt_flags \<Rightarrow> fmt_flags option" where
  "conv_flags c flags =
     (if c = CHR ''o'' then Some (flags\<lparr>FLAG_OCT := True\<rparr>)
      else if c = CHR ''X'' then Some (flags\<lparr>FLAG_LARGE_DIGITS := True, FLAG_HEX := True\<rparr>)
      else if c = CHR ''x'' then Some (flags\<lparr>FLAG_HEX := True\<rparr>)
      else if c = CHR ''u'' then Some flags
      else if c = CHR ''d'' \<or> c = CHR ''i'' then Some (flags\<lparr>FLAG_SIGNED := True\<rparr>)
      else None)"

text \<open>The flags that no character of a specification sets.\<close>

definition scanned :: "fmt_flags \<Rightarrow> bool" where
  "scanned flags \<longleftrightarrow> \<not> FLAG_SIGNED flags \<and> \<not> FLAG_HEX flags \<and> \<not> FLAG_OCT flags \<and> \<not> FLAG_LARGE_DIGITS flags \<and>
     \<not> FLAG_NULLMARK flags"

lemma fmt_flag_scanned: "fmt_flag c fl = Some fl' \<Longrightarrow> scanned fl \<Longrightarrow> scanned fl'"
  by (auto simp: scanned_def split: if_splits)

lemma scan_flags_scanned: "scanned fl \<Longrightarrow> scanned (fst (scan_flags s fl))"
proof (induction s fl rule: scan_flags.induct)
  case (2 c s fl)
  then show ?case by (auto simp del: fmt_flag.simps split: option.splits dest: fmt_flag_scanned)
qed simp

lemma fmt_width_scanned: "fmt_width s args = Spec fl len frac r as \<Longrightarrow> scanned fl"
  using scan_flags_scanned [of no_flags s]
  by (auto simp: fmt_width_def scanned_def no_flags_def split: prod.splits option.splits if_splits)

lemma fmt_precision_scanned:
  "fmt_precision sp = Spec fl len frac r as \<Longrightarrow> \<exists>len' frac' r' as'. sp = Spec fl len' frac' r' as'"
  by (auto simp: fmt_precision_def split: spec.splits prod.splits option.splits if_splits)

lemma fmt_length_scanned:
  "fmt_length (Spec fl len frac s args) = Spec fl' len' frac' r as \<Longrightarrow> scanned fl \<Longrightarrow> scanned fl'"
  by (auto simp: fmt_length_def scanned_def Let_def split: prod.splits if_splits)

lemma fmt_spec_scanned: "fmt_spec s args = Spec fl len frac r as \<Longrightarrow> scanned fl"
proof -
  assume a: "fmt_spec s args = Spec fl len frac r as"
  then obtain fl2 len2 frac2 r2 as2 where p: "fmt_precision (fmt_width s args) = Spec fl2 len2 frac2 r2 as2"
    by (cases "fmt_precision (fmt_width s args)") (auto simp: fmt_spec_def)
  then show ?thesis
    using a fmt_precision_scanned [OF p] by (auto simp: fmt_spec_def dest: fmt_width_scanned fmt_length_scanned)
qed

lemma fmt_conv_num:
  assumes "conv_flags c flags = Some fl" "scanned flags" "unat len < 2 ^ 31"
  shows "fmt_conv c flags len frac (VNum n # args) = Some (num_field fl (unat len) (num_value fl n), args)"
proof -
  have nm: "\<not> FLAG_NULLMARK fl" using assms(1,2) by (auto simp: conv_flags_def scanned_def split: if_splits)
  have c: "c \<in> {CHR ''o'', CHR ''X'', CHR ''x'', CHR ''u'', CHR ''d'', CHR ''i''}"
    using assms(1) by (simp add: conv_flags_def split: if_splits)
  have "fmt_conv c flags len frac (VNum n # args) = Some (lib_formatSprintfNum (num_arg fl n) fl len, args)"
    using c assms(1,2)
    by (elim insertE emptyE; hypsubst)
      (simp_all add: conv_flags_def scanned_def fmt_conv_def Let_def num_arg_def GET_UNSIGNED_def GET_SIGNED_def va_num_def, auto)
  then show ?thesis using sprintfNum_field [OF assms(3), of fl n] nm by simp
qed

section \<open>Strings\<close>

lemma formatMemchr_NUL:
  "lib_formatMemchr s NUL n = (if length (cstr s) < n then Some (length (cstr s)) else None)"
proof (induction n arbitrary: s)
  case (Suc n)
  then show ?case by (cases s) auto
qed simp

lemma take_cstr: "l \<le> length (cstr s) \<Longrightarrow> take l (cstr s) = take l s \<and> l \<le> length s"
proof (induction s arbitrary: l)
  case (Cons c s)
  then show ?case by (cases l) (auto split: if_splits)
qed simp

lemma map_chr_at: "l \<le> length (cstr s) \<Longrightarrow> map (chr_at s) [0..<l] = take l (cstr s)"
  using take_cstr [of l s] by (intro nth_equalityI) (auto simp: chr_at_nth)

lemma fmt_string_width:
  assumes "0 < len"
  shows "fmt_string flags len (-1) (Some s) =
    (let t = take (unat len) (cstr s); pad = replicate (unat len - length t) CHR '' ''
     in if FLAG_MINUS flags then t @ pad else pad @ t)"
proof -
  have "0 < unat len" using assms by (simp add: unat_gt_0 word_gt_0)
  then show ?thesis
    by (simp add: fmt_string_def formatMemchr_NUL Let_def map_chr_at min_def)
qed

lemma fmt_string_plain: "fmt_string flags 0 (-1) (Some s) = cstr s"
  by (simp add: fmt_string_def Let_def hal_strlen_cstr map_chr_at)

section \<open>Buffers\<close>

lemma sprintf_feed_eq:
  "n + length cs \<le> length buff \<Longrightarrow> sprintf_feed cs (buff, n) = Some (memcpy_to buff n cs, n + length cs)"
proof (induction cs arbitrary: buff n)
  case (Cons c cs)
  then have "sprintf_feed (c # cs) (buff, n) = Some (memcpy_to (buff[n := c]) (Suc n) cs, Suc n + length cs)"
    by simp
  also have "memcpy_to (buff[n := c]) (Suc n) cs = memcpy_to buff n (c # cs)"
    using Cons.prems memcpy_to_append [of n "[c]" cs buff] by (simp add: memcpy_to_single)
  finally show ?case by simp
qed simp

lemma sprintf_eq:
  assumes "lib_formatParse format args = Some out" "length out < length str"
  shows "lib_sprintf str format args = Some (memcpy_to str 0 (out @ [NUL]), length out)"
  using assms by (simp add: lib_sprintf_def sprintf_feed_eq)

section \<open>Printing and parsing\<close>

lemma format_literal: "c \<noteq> NUL \<Longrightarrow> c \<noteq> CHR ''%'' \<Longrightarrow>
    lib_formatParse (c # s) args = map_option ((#) c) (lib_formatParse s args)"
  by (simp add: lib_formatParse.simps [of "c # s"])

lemma format_end [simp]: "lib_formatParse [] args = Some []"
  by (simp add: lib_formatParse.simps [of "[]"])

lemma format_conv:
  assumes "fmt_spec s args = Spec flags len frac (c # rest) args1" "s \<noteq> []" "hd s \<noteq> NUL"
    and "fmt_conv c flags len frac args1 = Some (out, args2)"
  shows "lib_formatParse (CHR ''%'' # s) args = map_option ((@) out) (lib_formatParse rest args2)"
  using assms by (cases s) (simp_all add: lib_formatParse.simps [of "CHR ''%'' # _"] NUL_def)

lemma format_num:
  assumes "fmt_spec s args = Spec flags len frac (c # rest) (VNum n # args')" "s \<noteq> []" "hd s \<noteq> NUL"
    and "conv_flags c flags = Some fl" "unat len < 2 ^ 31"
  shows "lib_formatParse (CHR ''%'' # s) args =
    map_option ((@) (num_field fl (unat len) (num_value fl n))) (lib_formatParse rest args')"
  using format_conv [OF assms(1-3) fmt_conv_num [OF assms(4) fmt_spec_scanned [OF assms(1)] assms(5)]] .

definition fl_ll :: fmt_flags where
  "fl_ll = no_flags\<lparr>FLAG_64BIT := True\<rparr>"

lemmas fmt_spec_defs = fmt_spec_def fmt_width_def fmt_precision_def fmt_length_def no_flags_def NUL_def code_def

lemma format_llu: "lib_formatParse ''%llu'' [VNum x] = Some (num_body fl_ll (unat x))"
proof -
  have "fmt_spec ''llu'' [VNum x] = Spec fl_ll 0 (-1) ''u'' [VNum x]" by (simp add: fmt_spec_defs fl_ll_def)
  from format_num [OF this _ _ _ ] show ?thesis
    by (simp add: conv_flags_def NUL_def num_field_def num_value_def sign_of_def fl_ll_def no_flags_def)
qed

lemma format_llx: "lib_formatParse ''0x%llx'' [VNum x] = Some (''0x'' @ num_body (fl_ll\<lparr>FLAG_HEX := True\<rparr>) (unat x))"
proof -
  have "fmt_spec ''llx'' [VNum x] = Spec fl_ll 0 (-1) ''x'' [VNum x]" by (simp add: fmt_spec_defs fl_ll_def)
  from format_num [OF this _ _ _ ] show ?thesis
    by (simp add: format_literal conv_flags_def NUL_def num_field_def num_value_def sign_of_def fl_ll_def no_flags_def)
qed

lemma format_llo:
  "lib_formatParse ''%#llo'' [VNum x] = Some (num_body (fl_ll\<lparr>FLAG_OCT := True, FLAG_ALTERNATE := True\<rparr>) (unat x))"
proof -
  have "fmt_spec ''#llo'' [VNum x] = Spec (fl_ll\<lparr>FLAG_ALTERNATE := True\<rparr>) 0 (-1) ''o'' [VNum x]"
    by (simp add: fmt_spec_defs fl_ll_def)
  from format_num [OF this _ _ _ ] show ?thesis
    by (simp add: conv_flags_def NUL_def num_field_def num_value_def sign_of_def fl_ll_def no_flags_def)
qed

lemma format_lld:
  "lib_formatParse ''%lld'' [VNum x] = Some ((if sint x < 0 then ''-'' else []) @ num_body fl_ll (nat \<bar>sint x\<bar>))"
proof -
  have "fmt_spec ''lld'' [VNum x] = Spec fl_ll 0 (-1) ''d'' [VNum x]" by (simp add: fmt_spec_defs fl_ll_def)
  from format_num [OF this _ _ _ ] show ?thesis
    by (simp add: conv_flags_def NUL_def num_field_def num_value_def sign_of_def fl_ll_def no_flags_def num_body_def
        num_base_def num_pre_def)
qed

lemma strtoul_loop_0: "strtoul_loop b ''0'' 0 = (if b = 0 then (0, ''0'') else (0, []))"
  by (auto simp: strtoul_digit_def ctype_defs)

lemma strtoul_dec:
  assumes "\<not> FLAG_HEX fl" "\<not> FLAG_OCT fl"
  shows "lib_strtoul (num_body fl v) 0 = (of_nat v, [])"
  using assms strtoul_loop_print [of 10 "FLAG_LARGE_DIGITS fl" v] print_digits_not_0 [of 10 "FLAG_LARGE_DIGITS fl" v]
  by (cases "v = 0")
    (simp_all add: num_body_def num_base_def num_pre_def lib_strtoul_def strtoul_loop_0 NUL_def code_def del: strtoul_loop.simps)

lemma strtoul_hex:
  assumes "FLAG_HEX fl" "\<not> FLAG_ALTERNATE fl"
  shows "lib_strtoul (''0x'' @ num_body fl v) 0 = (of_nat v, [])"
  using assms strtoul_loop_print [of 16 "FLAG_LARGE_DIGITS fl" v]
  by (cases "v = 0")
    (simp_all add: num_body_def num_base_def num_pre_def lib_strtoul_def strtoul_loop_0 code_def del: strtoul_loop.simps)

lemma strtoul_oct:
  assumes "FLAG_OCT fl" "\<not> FLAG_HEX fl" "FLAG_ALTERNATE fl"
  shows "lib_strtoul (num_body fl v) 0 = (of_nat v, [])"
proof (cases "v = 0")
  case False
  let ?d = "print_digits (FLAG_LARGE_DIGITS fl) 8 v"
  have "code (chr0 ?d) OR 0x20 \<noteq> code CHR ''x''"
    using print_digits_hd [of 8 "FLAG_LARGE_DIGITS fl" v 0] by simp
  moreover have "strtoul_loop 8 (CHR ''0'' # ?d) 0 = strtoul_loop 8 ?d 0"
    by (simp add: strtoul_digit_def ctype_defs)
  ultimately show ?thesis
    using assms False strtoul_loop_print [of 8 "FLAG_LARGE_DIGITS fl" v]
    by (simp add: num_body_def num_base_def num_pre_def lib_strtoul_def del: strtoul_loop.simps)
qed (simp add: num_body_def lib_strtoul_def strtoul_loop_0 code_def NUL_def del: strtoul_loop.simps)

lemma strtol_dec: "lib_strtol ((if sint x < 0 then ''-'' else []) @ num_body fl_ll (nat \<bar>sint x\<bar>)) 0 = (x, [])"
proof -
  have d: "lib_strtoul (num_body fl_ll v) 0 = (of_nat v, [])" for v
    by (rule strtoul_dec) (simp_all add: fl_ll_def no_flags_def)
  show ?thesis
  proof (cases "sint x < 0")
    case True
    then show ?thesis using unat_uminus_sint [of x] d [of "unat (- x)"] by (simp add: lib_strtol_def)
  next
    case False
    have "chr0 (num_body fl_ll v) \<noteq> CHR ''-''" for v
    proof
      assume "chr0 (num_body fl_ll v) = CHR ''-''"
      then have "lib_strtoul (num_body fl_ll v) 0 = (0, num_body fl_ll v)"
        by (cases "num_body fl_ll v") (simp_all add: lib_strtoul_def ctype_defs)
      then show False using d [of v] \<open>chr0 _ = _\<close> by (simp add: NUL_def)
    qed
    then show ?thesis using False d [of "unat x"] sint_nonneg [of x] by (simp add: lib_strtol_def)
  qed
qed

lemma hex_digits_NUL: "d < 16 \<Longrightarrow> hex_digits u ! d \<noteq> NUL"
  unfolding less_16_cases by (elim insertE emptyE; cases u; simp add: hex_digits_def NUL_def)

lemma num_body_NUL: "NUL \<notin> set (num_body fl v)"
proof -
  have "NUL \<notin> set (print_digits u (num_base fl) v)" for u
  proof
    assume "NUL \<in> set (print_digits u (num_base fl) v)"
    then obtain d where "d \<in> set (nat_digits (num_base fl) v)" "hex_digits u ! d = NUL"
      by (auto simp: print_digits_def)
    then show False
      using nat_digits_less [of d "num_base fl" v] hex_digits_NUL [of d u] by (simp add: num_base_def split: if_splits)
  qed
  then show ?thesis by (simp add: num_body_def num_pre_def) (simp add: NUL_def)
qed

lemma num_body_length:
  "v < 2 ^ 64 \<Longrightarrow> length (num_body fl v) \<le> length (num_pre fl) + (if FLAG_HEX fl then 16 else if FLAG_OCT fl then 22 else 20)"
  using length_nat_digits [of v 16 16] length_nat_digits [of v 8 22] length_nat_digits [of v 10 20]
  by (simp add: num_body_def num_base_def print_digits_def)

lemma sprintf_reads:
  assumes "lib_formatParse f args = Some out" "length out < length buff" "NUL \<notin> set out" "p out 0 = (x, [])"
  shows "\<exists>b n. lib_sprintf buff f args = Some (b, n) \<and> length b = length buff \<and> n = length (cstr b) \<and> p (cstr b) 0 = (x, [])"
proof (intro exI conjI)
  let ?b = "memcpy_to buff 0 (out @ [NUL])"
  have c: "cstr ?b = out" using assms(3) by (simp add: memcpy_to_def)
  show "lib_sprintf buff f args = Some (?b, length out)" using assms(1,2) by (rule sprintf_eq)
  show "length ?b = length buff" using assms(2) by simp
  show "length out = length (cstr ?b)" "p (cstr ?b) 0 = (x, [])" using c assms(4) by simp_all
qed

section \<open>Properties\<close>

text \<open>
  C15: A number conversion of a format, with any flags and any field width below \<open>2^31\<close>, prints the value of the argument,
  read with the width and the signedness of the conversion, as the reference field: the sign, the digits of its
  magnitude in the base of the conversion, the base prefix, and blanks before the sign or zeros after it up to the field
  width; the format goes on behind the conversion character with the remaining arguments.
\<close>

theorem format_number:
  assumes "fmt_spec s args = Spec flags len frac (c # rest) (VNum n # args')" "s \<noteq> []" "hd s \<noteq> NUL"
    and "conv_flags c flags = Some fl" "unat len < 2 ^ 31"
  shows "lib_formatParse (CHR ''%'' # s) args =
    map_option ((@) (num_field fl (unat len) (num_value fl n))) (lib_formatParse rest args')"
  by (rule format_num [OF assms])

theorem format_number_witness: "lib_formatParse ''%+05d;'' [VNum (-42)] = Some ''-0042;''"
proof -
  let ?fl = "no_flags\<lparr>FLAG_PLUS := True, FLAG_ZERO := True\<rparr>"
  have "fmt_spec ''+05d;'' [VNum (-42)] = Spec ?fl 5 (-1) ''d;'' [VNum (-42)]"
    by (simp add: fmt_spec_defs)
  from format_number [OF this _ _ _, of "?fl\<lparr>FLAG_SIGNED := True\<rparr>"]
  have "lib_formatParse ''%+05d;'' [VNum (-42)] =
      map_option ((@) (num_field (?fl\<lparr>FLAG_SIGNED := True\<rparr>) 5 (-42))) (lib_formatParse '';'' [])"
    by (simp add: conv_flags_def NUL_def num_value_def no_flags_def)
  moreover have "num_field (?fl\<lparr>FLAG_SIGNED := True\<rparr>) 5 (-42) = ''-0042''"
    by code_simp
  ultimately show ?thesis by (simp add: format_literal NUL_def)
qed

text \<open>
  C26: A 64-bit number printed by \<open>lib_sprintf\<close> into a buffer of at least 24 characters, in decimal, in hexadecimal behind
  \<open>0x\<close>, in octal with \<open>%#llo\<close> or as a signed decimal, is read back by the number parser the way the commands parse their
  arguments, with nothing left over; the result of \<open>lib_sprintf\<close> is the length of the string it left in the buffer.
\<close>

theorem sprintf_strtoul:
  assumes "24 \<le> length buff" "(f, p) \<in> {(''%llu'', lib_strtoul), (''0x%llx'', lib_strtoul), (''%#llo'', lib_strtoul), (''%lld'', lib_strtol)}"
  shows "\<exists>b n. lib_sprintf buff f [VNum x] = Some (b, n) \<and> length b = length buff \<and> n = length (cstr b) \<and> p (cstr b) 0 = (x, [])"
proof -
  have "nat \<bar>sint x\<bar> < 2 ^ 64"
    using unat_uminus_sint [of x] sint_nonneg [of x] unat_less_exp [of x] unat_less_exp [of "- x"]
    by (cases "sint x < 0") simp_all
  then have d: "length (num_body fl_ll (unat x)) \<le> 20" "length (num_body fl_ll (nat \<bar>sint x\<bar>)) \<le> 20"
    and h: "length (num_body (fl_ll\<lparr>FLAG_HEX := True\<rparr>) (unat x)) \<le> 16"
    and oct: "length (num_body (fl_ll\<lparr>FLAG_OCT := True, FLAG_ALTERNATE := True\<rparr>) (unat x)) \<le> 23"
    using num_body_length [of "unat x" fl_ll] num_body_length [of "nat \<bar>sint x\<bar>" fl_ll]
      num_body_length [of "unat x" "fl_ll\<lparr>FLAG_HEX := True\<rparr>"]
      num_body_length [of "unat x" "fl_ll\<lparr>FLAG_OCT := True, FLAG_ALTERNATE := True\<rparr>"] unat_less_exp [of x]
    by (simp_all add: fl_ll_def no_flags_def num_pre_def)
  let ?ok = "\<lambda>f p. \<exists>b n. lib_sprintf buff f [VNum x] = Some (b, n) \<and> length b = length buff \<and> n = length (cstr b) \<and> p (cstr b) 0 = (x, [])"
  have "?ok ''%llu'' lib_strtoul"
    by (rule sprintf_reads [OF format_llu]) (use assms(1) d(1) in \<open>auto simp: num_body_NUL strtoul_dec fl_ll_def no_flags_def\<close>)
  moreover have "?ok ''0x%llx'' lib_strtoul"
    by (rule sprintf_reads [OF format_llx], use assms(1) h in simp, simp add: num_body_NUL, simp add: NUL_def,
        subst strtoul_hex, auto simp: fl_ll_def no_flags_def)
  moreover have "?ok ''%#llo'' lib_strtoul"
    by (rule sprintf_reads [OF format_llo]) (use assms(1) oct in \<open>auto simp: num_body_NUL strtoul_oct fl_ll_def no_flags_def\<close>)
  moreover have "?ok ''%lld'' lib_strtol"
  proof (rule sprintf_reads [OF format_lld])
    show "length ((if sint x < 0 then ''-'' else []) @ num_body fl_ll (nat \<bar>sint x\<bar>)) < length buff"
      using assms(1) d(2) by (cases "sint x < 0") simp_all
    show "NUL \<notin> set ((if sint x < 0 then ''-'' else []) @ num_body fl_ll (nat \<bar>sint x\<bar>))"
      using num_body_NUL by (simp add: NUL_def)
  qed (rule strtol_dec)
  ultimately show ?thesis using assms(2) by auto
qed

theorem sprintf_strtoul_witness:
  "\<exists>b n. lib_sprintf (replicate 32 NUL) ''%lld'' [VNum (-1234)] = Some (b, n) \<and> length b = 32 \<and> n = length (cstr b) \<and>
     lib_strtol (cstr b) 0 = (-1234, [])"
  using sprintf_strtoul [of "replicate 32 NUL" "''%lld''" lib_strtol "-1234"] by simp

text \<open>
  A string printed with a field width fills exactly that many characters: a shorter one is padded with blanks, on the
  left or with the flag - on the right, and a longer one is cut, although a width is a minimum in C.
\<close>

theorem string_field_exact:
  assumes "0 < len"
  shows "length (fmt_string flags len (-1) (Some s)) = unat len \<and>
    (length (cstr s) \<le> unat len \<longrightarrow>
      fmt_string flags len (-1) (Some s) =
        (let pad = replicate (unat len - length (cstr s)) CHR '' '' in
         if FLAG_MINUS flags then cstr s @ pad else pad @ cstr s)) \<and>
    (unat len \<le> length (cstr s) \<longrightarrow> fmt_string flags len (-1) (Some s) = take (unat len) (cstr s))"
  using fmt_string_width [OF assms, of flags s] by (simp add: Let_def)

theorem string_field_exact_witness:
  "length (fmt_string no_flags 5 (-1) (Some ''Phoenix'')) = 5 \<and> fmt_string no_flags 5 (-1) (Some ''Phoenix'') = ''Phoen''"
  using string_field_exact [of 5 no_flags "''Phoenix''"] by (simp add: NUL_def)

end
