(* ===== verification/Console.thy ===== *)
theory Console
  imports Format_Props Devs Syspage
begin

text \<open>
  \<open>lib/console.c\<close>, \<open>lib/printf.c\<close>, \<open>lib/log.c\<close>, \<open>lib/log.h\<close>, \<open>lib/prompt.c\<close> and the commands \<open>console\<close>, \<open>echo\<close>
  and \<open>dump\<close>: the loader's console, a device and up to
  three mirrors behind \<open>devs_write\<close>, the hooks of the debugger pipe, and the memory dump.

  An output operation takes the world of the devices and returns the new one; \<open>None\<close> stands for an operation that does
  not return. \<open>hal_consolePrint\<close>, which prints before a console is set, belongs to the board and is the field
  \<open>hal_print\<close>, so is the processor's halt loop (\<open>None\<close>).
\<close>

type_synonym 'w out = "'w \<Rightarrow> 'w option"

definition out_seq :: "'w out \<Rightarrow> 'w out \<Rightarrow> 'w out" where
  "out_seq f g w = Option.bind (f w) g"

definition CONSOLE_MIRRORS :: nat where
  "CONSOLE_MIRRORS = 3"

record 'w console_t =
  con_init :: bool
  con_mirrors :: "(nat \<times> nat) list"
  con_mirrorsCnt :: nat
  con_major :: nat
  con_minor :: nat
  con_readHook :: "(nat \<Rightarrow> ('w, bytes) io) option"
  con_writeHook :: "(bytes \<Rightarrow> ('w, size_t) io) option"

record 'w board =
  bd_devs :: "'w devs"
  hal_print :: "string \<Rightarrow> 'w out"

section \<open>Settings\<close>

definition lib_consoleSetHooks ::
    "(nat \<Rightarrow> ('w, bytes) io) option \<Rightarrow> (bytes \<Rightarrow> ('w, size_t) io) option \<Rightarrow> 'w console_t \<Rightarrow> 'w console_t" where
  "lib_consoleSetHooks rd wr con = con\<lparr>con_readHook := rd, con_writeHook := wr\<rparr>"

definition lib_consoleSet :: "nat \<Rightarrow> nat \<Rightarrow> 'w console_t \<Rightarrow> 'w console_t" where
  "lib_consoleSet major minor con = con\<lparr>con_major := major, con_minor := minor, con_init := True\<rparr>"

definition lib_consoleSetMirrors :: "nat \<Rightarrow> (nat \<times> nat) list \<Rightarrow> 'w console_t \<Rightarrow> 'w console_t" where
  "lib_consoleSetMirrors cnt ms con =
     (let n = min CONSOLE_MIRRORS cnt
      in con\<lparr>con_mirrors := memcpy_to (con_mirrors con) 0 (take n ms), con_mirrorsCnt := n\<rparr>)"

section \<open>Output\<close>

definition char_bytes :: "string \<Rightarrow> bytes" where
  "char_bytes s = map (\<lambda>c. of_int (code c)) s"

text \<open>A call whose result is not looked at.\<close>

definition out_of :: "('w, 'a) io \<Rightarrow> 'w out" where
  "out_of m w = map_option snd (m w)"

fun write_each :: "'w devs \<Rightarrow> (nat \<times> nat) list \<Rightarrow> bytes \<Rightarrow> 'w out" where
  "write_each devs [] s = Some"
| "write_each devs ((major, minor) # ms) s =
     out_seq (out_of (devs_write devs major minor 0 s)) (write_each devs ms s)"

definition lib_consoleWrite :: "'w board \<Rightarrow> 'w console_t \<Rightarrow> bytes \<Rightarrow> 'w out" where
  "lib_consoleWrite bd con s =
     out_seq (write_each (bd_devs bd) (take (con_mirrorsCnt con) (con_mirrors con)) s)
       (out_of (devs_write (bd_devs bd) (con_major con) (con_minor con) 0 s))"

definition hook_write :: "'w console_t \<Rightarrow> bytes \<Rightarrow> 'w out" where
  "hook_write con s = (case con_writeHook con of None \<Rightarrow> Some | Some wr \<Rightarrow> out_of (wr s))"

definition lib_consolePuts :: "'w board \<Rightarrow> 'w console_t \<Rightarrow> string \<Rightarrow> 'w out" where
  "lib_consolePuts bd con s =
     (if \<not> con_init con then hal_print bd (cstr s)
      else let bs = char_bytes (take (hal_strlen s) s)
           in out_seq (hook_write con bs) (lib_consoleWrite bd con bs))"

definition lib_consolePutc :: "'w board \<Rightarrow> 'w console_t \<Rightarrow> char \<Rightarrow> 'w out" where
  "lib_consolePutc bd con c =
     (if \<not> con_init con then hal_print bd (cstr [c])
      else let bs = char_bytes [c]
           in out_seq (hook_write con bs) (lib_consoleWrite bd con bs))"

text \<open>The characters that \<open>lib_printfFeed\<close> puts; the result of \<open>lib_printf\<close> is their number.\<close>

fun printf_feed :: "'w board \<Rightarrow> 'w console_t \<Rightarrow> string \<Rightarrow> 'w out" where
  "printf_feed bd con [] = Some"
| "printf_feed bd con (c # s) = out_seq (lib_consolePutc bd con c) (printf_feed bd con s)"

definition lib_printf :: "'w board \<Rightarrow> 'w console_t \<Rightarrow> string \<Rightarrow> va list \<Rightarrow> 'w out" where
  "lib_printf bd con format args w =
     (case lib_formatParse format args of None \<Rightarrow> None | Some s \<Rightarrow> printf_feed bd con s w)"

section \<open>Input\<close>

definition CONSOLE_RED :: string where
  "CONSOLE_RED = [CHR 0x1B] @ ''[31m''"

definition CONSOLE_NORMAL :: string where
  "CONSOLE_NORMAL = [CHR 0x1B] @ ''[0m''"

text \<open>
  \<open>*c\<close> and the result: \<open>1\<close> when the hook had a character, else the result of \<open>devs_read\<close>; \<open>*c\<close> is NUL when nothing was
  read. Without a console the loader prints a message and halts.
\<close>

definition lib_consoleGetc :: "'w board \<Rightarrow> 'w console_t \<Rightarrow> time_t \<Rightarrow> 'w \<Rightarrow> ((errno + nat) \<times> char \<times> 'w) option" where
  "lib_consoleGetc bd con timeout w =
     (let rd = (\<lambda>tmo w.
        if \<not> con_init con then None
        else (case devs_read (bd_devs bd) (con_major con) (con_minor con) 0 1 tmo w of
                None \<Rightarrow> None
              | Some (Inl e, w') \<Rightarrow> Some (Inl e, NUL, w')
              | Some (Inr bs, w') \<Rightarrow>
                  Some (Inr (length bs), if bs = [] then NUL else char_of (unat (hd bs)), w')))
      in case con_readHook con of
           None \<Rightarrow> rd timeout w
         | Some hook \<Rightarrow>
             (case hook 1 w of
                None \<Rightarrow> None
              | Some (r, w') \<Rightarrow>
                  (case r of
                     Inr (b # _) \<Rightarrow> Some (Inr 1, char_of (unat b), w')
                   | _ \<Rightarrow> rd (if timeout = -1 then 20 else timeout) w')))"

section \<open>Lines and dumps\<close>

fun out_times :: "nat \<Rightarrow> 'w out \<Rightarrow> 'w out" where
  "out_times 0 f = Some"
| "out_times (Suc n) f = out_seq f (out_times n f)"

definition lib_consolePutHLine :: "'w board \<Rightarrow> 'w console_t \<Rightarrow> 'w out" where
  "lib_consolePutHLine bd con =
     out_seq (out_times 79 (lib_consolePutc bd con CHR ''-'')) (lib_consolePutc bd con CHR 0x0A)"

type_synonym validator = "addr_t \<Rightarrow> addr_t \<Rightarrow> addr_t \<Rightarrow> bool"

definition invalid :: "validator option \<Rightarrow> addr_t \<Rightarrow> addr_t \<Rightarrow> addr_t \<Rightarrow> bool" where
  "invalid v start ende ptr = (case v of None \<Rightarrow> False | Some f \<Rightarrow> \<not> f start ende ptr)"

text \<open>One cell of a row: the two digits of a byte, and its printable character.\<close>

definition put_cell :: "'w board \<Rightarrow> 'w console_t \<Rightarrow> mem \<Rightarrow> addr_t \<Rightarrow> addr_t \<Rightarrow> validator option \<Rightarrow> addr_t \<Rightarrow> 'w out" where
  "put_cell bd con m start ende v ptr =
     (if ptr < start \<or> ptr \<ge> ende then lib_consolePuts bd con ''   ''
      else if invalid v start ende ptr then lib_consolePuts bd con ''XX ''
      else lib_printf bd con ''%02x '' [VNum (ucast (m ptr))])"

definition put_char :: "'w board \<Rightarrow> 'w console_t \<Rightarrow> mem \<Rightarrow> addr_t \<Rightarrow> addr_t \<Rightarrow> validator option \<Rightarrow> addr_t \<Rightarrow> 'w out" where
  "put_char bd con m start ende v ptr =
     lib_consolePutc bd con
       (if ptr < start \<or> ptr \<ge> ende then CHR '' ''
        else if invalid v start ende ptr then CHR ''X''
        else if lib_isprint (uint (m ptr)) then char_of (unat (m ptr))
        else CHR ''.'')"

fun cols_loop :: "nat \<Rightarrow> (addr_t \<Rightarrow> 'w out) \<Rightarrow> addr_t \<Rightarrow> 'w out" where
  "cols_loop 0 f ptr = Some"
| "cols_loop (Suc n) f ptr = out_seq (f ptr) (cols_loop n f (ptr + 1))"

definition put_row :: "'w board \<Rightarrow> 'w console_t \<Rightarrow> mem \<Rightarrow> addr_t \<Rightarrow> addr_t \<Rightarrow> validator option \<Rightarrow> addr_t \<Rightarrow> addr_t \<Rightarrow> 'w out" where
  "put_row bd con m start ende v offp offs =
     out_seq (lib_printf bd con ''0x%08x | '' [VNum offp])
    (out_seq (cols_loop 16 (put_cell bd con m start ende v) offs)
    (out_seq (lib_consolePuts bd con ''| '')
    (out_seq (cols_loop 16 (put_char bd con m start ende v) offs)
             (lib_consolePutc bd con CHR 0x0A))))"

partial_function (option) rows_loop ::
    "'w board \<Rightarrow> 'w console_t \<Rightarrow> mem \<Rightarrow> addr_t \<Rightarrow> addr_t \<Rightarrow> validator option \<Rightarrow> addr_t \<Rightarrow> addr_t \<Rightarrow> 'w \<Rightarrow> 'w option" where
  "rows_loop bd con m start ende v offp offs w =
     (if offs < ende then
        (case put_row bd con m start ende v offp offs w of
           None \<Rightarrow> None
         | Some w' \<Rightarrow> rows_loop bd con m start ende v (offp + 16) (offs + 16) w')
      else Some w)"

definition lib_consolePutRegionHex ::
    "'w board \<Rightarrow> 'w console_t \<Rightarrow> mem \<Rightarrow> addr_t \<Rightarrow> addr_t \<Rightarrow> addr_t \<Rightarrow> bool \<Rightarrow> validator option \<Rightarrow> 'w out" where
  "lib_consolePutRegionHex bd con m start ende offp align v =
     (if align then rows_loop bd con m start ende v (offp div 16 * 16) (start div 16 * 16)
      else rows_loop bd con m start ende v offp start)"

section \<open>Chunks of output\<close>

lemma out_seq_assoc: "out_seq (out_seq f g) h = out_seq f (out_seq g h)"
  by (rule ext) (simp add: out_seq_def [abs_def] Option.bind_assoc)

lemma out_seq_Some [simp]: "out_seq Some f = f" "out_seq f Some = f"
  by (rule ext, simp add: out_seq_def)+

text \<open>One call of \<open>lib_consolePuts\<close> or \<open>lib_consolePutc\<close> hands one chunk to every device; a sequence of calls hands over its
  chunks in order.\<close>

definition emit :: "'w board \<Rightarrow> 'w console_t \<Rightarrow> string \<Rightarrow> 'w out" where
  "emit bd con s =
     (if \<not> con_init con then hal_print bd (cstr s)
      else out_seq (hook_write con (char_bytes s)) (lib_consoleWrite bd con (char_bytes s)))"

fun emits :: "'w board \<Rightarrow> 'w console_t \<Rightarrow> string list \<Rightarrow> 'w out" where
  "emits bd con [] = Some"
| "emits bd con (s # ss) = out_seq (emit bd con s) (emits bd con ss)"

lemma emits_append: "emits bd con (xs @ ys) = out_seq (emits bd con xs) (emits bd con ys)"
  by (induction xs) (simp_all add: out_seq_assoc)

lemma take_strlen: "take (hal_strlen s) s = cstr s"
  by (induction s) auto

lemma cstr_idem [simp]: "cstr (cstr s) = cstr s"
  by (rule cstr_id) (rule NUL_notin_cstr)

lemma puts_emits: "lib_consolePuts bd con s = emits bd con [cstr s]"
  by (simp add: lib_consolePuts_def emit_def take_strlen Let_def)

lemma putc_emits: "lib_consolePutc bd con c = emits bd con [[c]]"
  by (simp add: lib_consolePutc_def emit_def Let_def)

lemma printf_feed_emits: "printf_feed bd con s = emits bd con (map (\<lambda>c. [c]) s)"
  by (induction s) (simp_all add: putc_emits)

lemma printf_emits:
  "lib_formatParse format args = Some s \<Longrightarrow> lib_printf bd con format args = emits bd con (map (\<lambda>c. [c]) s)"
  by (rule ext) (simp add: lib_printf_def printf_feed_emits)

lemma out_times_emits: "out_times n (emits bd con ss) = emits bd con (concat (replicate n ss))"
  by (induction n) (simp_all add: emits_append)

lemma concat_chars: "concat (map (\<lambda>c. [c]) s) = s"
  by (induction s) auto

section \<open>Digits of fixed width\<close>

definition hex_fix :: "nat \<Rightarrow> nat \<Rightarrow> string" where
  "hex_fix k n = rev (map (nth (hex_digits False)) (fix_digits 16 k n))"

lemma length_hex_fix [simp]: "length (hex_fix k n) = k"
  by (simp add: hex_fix_def)

lemma fix_digits_0: "fix_digits b k 0 = replicate k 0"
  by (induction k) simp_all

lemma fix_digits_nat_digits:
  "2 \<le> b \<Longrightarrow> n < b ^ k \<Longrightarrow> fix_digits b k n = nat_digits b n @ replicate (k - length (nat_digits b n)) 0"
proof (induction k arbitrary: n)
  case (Suc k)
  show ?case
  proof (cases "n = 0")
    case False
    have "n div b < b ^ k" using Suc.prems by (simp add: less_mult_imp_div_less mult.commute)
    then show ?thesis using Suc.IH [OF Suc.prems(1)] False Suc.prems(1) by (simp add: nat_digits.simps [of b n])
  qed (simp add: fix_digits_0 nat_digits.simps [of b 0])
qed (simp add: nat_digits.simps [of b 0])

lemma nat_val_fix_digits: "2 \<le> b \<Longrightarrow> n < b ^ k \<Longrightarrow> nat_val b (fix_digits b k n) = n"
proof (induction k arbitrary: n)
  case (Suc k)
  have "n div b < b ^ k" using Suc.prems by (simp add: less_mult_imp_div_less mult.commute)
  then show ?case using Suc by simp
qed simp

lemma fix_digits_less: "0 < b \<Longrightarrow> d \<in> set (fix_digits b k n) \<Longrightarrow> d < b"
  by (induction k arbitrary: n) auto

lemma str_val_hex_fix: "n < 16 ^ k \<Longrightarrow> str_val 16 (hex_fix k n) = n"
  unfolding hex_fix_def
  by (subst str_val_hex) (auto simp: list_all_iff nat_val_fix_digits dest: fix_digits_less [rotated])

lemma num_field_hex_fix:
  assumes "FLAG_ZERO fl" "FLAG_HEX fl" "\<not> FLAG_LARGE_DIGITS fl" "\<not> FLAG_SIGNED fl" "\<not> FLAG_ALTERNATE fl" "0 < k" "n < 16 ^ k"
  shows "num_field fl k (int n) = hex_fix k n"
proof -
  have z: "hex_digits False ! 0 = CHR ''0''" by (simp add: hex_digits_def)
  show ?thesis
  proof (cases "n = 0")
    case True
    then obtain k' where "k = Suc k'" using assms(6) by (cases k) auto
    then show ?thesis using True assms z
      by (simp add: num_field_def sign_of_def num_body_def hex_fix_def fix_digits_0 replicate_append_same)
  next
    case False
    then show ?thesis using assms z
      by (simp add: num_field_def sign_of_def num_body_def num_pre_def num_base_def hex_fix_def fix_digits_nat_digits print_digits_def
          rev_map Let_def)
  qed
qed

section \<open>The rows of a dump\<close>

definition cell_text :: "mem \<Rightarrow> addr_t \<Rightarrow> addr_t \<Rightarrow> validator option \<Rightarrow> addr_t \<Rightarrow> string" where
  "cell_text m start ende v ptr =
     (if ptr < start \<or> ptr \<ge> ende then ''   ''
      else if invalid v start ende ptr then ''XX ''
      else hex_fix 2 (unat (m ptr)) @ '' '')"

definition char_text :: "mem \<Rightarrow> addr_t \<Rightarrow> addr_t \<Rightarrow> validator option \<Rightarrow> addr_t \<Rightarrow> char" where
  "char_text m start ende v ptr =
     (if ptr < start \<or> ptr \<ge> ende then CHR '' ''
      else if invalid v start ende ptr then CHR ''X''
      else if lib_isprint (uint (m ptr)) then char_of (unat (m ptr)) else CHR ''.'')"

definition row_text :: "mem \<Rightarrow> addr_t \<Rightarrow> addr_t \<Rightarrow> validator option \<Rightarrow> addr_t \<Rightarrow> addr_t \<Rightarrow> string" where
  "row_text m start ende v offp offs =
     (let ptrs = map (\<lambda>i. offs + of_nat i) [0..<16]
      in ''0x'' @ hex_fix 8 (unat (ucast offp :: u32)) @ '' | '' @ concat (map (cell_text m start ende v) ptrs) @
         ''| '' @ map (char_text m start ende v) ptrs @ [CHR 0x0A])"

text \<open>The chunks of a row: a cell that shows a byte goes out character by character, the others at once.\<close>

definition cell_chunks :: "mem \<Rightarrow> addr_t \<Rightarrow> addr_t \<Rightarrow> validator option \<Rightarrow> addr_t \<Rightarrow> string list" where
  "cell_chunks m start ende v ptr =
     (if ptr < start \<or> ptr \<ge> ende \<or> invalid v start ende ptr then [cell_text m start ende v ptr]
      else map (\<lambda>c. [c]) (cell_text m start ende v ptr))"

definition row_chunks :: "mem \<Rightarrow> addr_t \<Rightarrow> addr_t \<Rightarrow> validator option \<Rightarrow> addr_t \<Rightarrow> addr_t \<Rightarrow> string list" where
  "row_chunks m start ende v offp offs =
     (let ptrs = map (\<lambda>i. offs + of_nat i) [0..<16]
      in map (\<lambda>c. [c]) (''0x'' @ hex_fix 8 (unat (ucast offp :: u32)) @ '' | '') @
         concat (map (cell_chunks m start ende v) ptrs) @ [''| ''] @
         map (\<lambda>p. [char_text m start ende v p]) ptrs @ [[CHR 0x0A]])"

lemma concat_cell_chunks: "concat (cell_chunks m start ende v ptr) = cell_text m start ende v ptr"
  by (simp add: cell_chunks_def concat_chars)

lemma concat_row_chunks: "concat (row_chunks m start ende v offp offs) = row_text m start ende v offp offs"
proof -
  have "concat (concat (map (cell_chunks m start ende v) ps)) = concat (map (cell_text m start ende v) ps)" for ps
    by (induction ps) (simp_all add: concat_cell_chunks)
  moreover have "concat (map (\<lambda>p. [f p]) ps) = map f ps" for f :: "addr_t \<Rightarrow> char" and ps
    by (induction ps) auto
  ultimately show ?thesis by (simp add: row_chunks_def row_text_def Let_def concat_chars del: upt_rec_numeral map_map)
qed

lemma format_02x: "lib_formatParse ''%02x '' [VNum (ucast (b :: u8))] = Some (hex_fix 2 (unat b) @ '' '')"
proof -
  let ?fl = "no_flags\<lparr>FLAG_ZERO := True\<rparr>"
  have s: "fmt_spec ''02x '' [VNum (ucast b)] = Spec ?fl 2 (-1) ''x '' [VNum (ucast b)]" by (simp add: fmt_spec_defs)
  have v: "num_value (?fl\<lparr>FLAG_HEX := True\<rparr>) (ucast b) = int (unat b)"
  proof -
    have "(ucast (ucast b :: u64) :: u32) = ucast b" by (rule bit_word_eqI) (simp add: bit_simps)
    moreover have "uint (ucast b :: u32) = uint b"
      using uint_lt2p [of b] by (simp add: unsigned_ucast_eq take_bit_int_eq_self)
    ultimately show ?thesis by (simp add: num_value_def no_flags_def)
  qed
  have "unat b < 16 ^ 2" using unat_less_exp [of b] by simp
  then have "num_field (?fl\<lparr>FLAG_HEX := True\<rparr>) 2 (int (unat b)) = hex_fix 2 (unat b)"
    by (intro num_field_hex_fix) (simp_all add: no_flags_def)
  with format_num [OF s _ _ _, of "?fl\<lparr>FLAG_HEX := True\<rparr>"] show ?thesis
    by (simp add: conv_flags_def NUL_def v format_literal)
qed

lemma format_08x: "lib_formatParse ''0x%08x | '' [VNum n] = Some (''0x'' @ hex_fix 8 (unat (ucast n :: u32)) @ '' | '')"
proof -
  let ?fl = "no_flags\<lparr>FLAG_ZERO := True\<rparr>"
  have s: "fmt_spec ''08x | '' [VNum n] = Spec ?fl 8 (-1) ''x | '' [VNum n]" by (simp add: fmt_spec_defs)
  have v: "num_value (?fl\<lparr>FLAG_HEX := True\<rparr>) n = int (unat (ucast n :: u32))"
    by (simp add: num_value_def no_flags_def)
  have "unat (ucast n :: u32) < 16 ^ 8" using unat_less_exp [of "ucast n :: u32"] by simp
  then have "num_field (?fl\<lparr>FLAG_HEX := True\<rparr>) 8 (int (unat (ucast n :: u32))) = hex_fix 8 (unat (ucast n :: u32))"
    by (intro num_field_hex_fix) (simp_all add: no_flags_def)
  with format_num [OF s _ _ _, of "?fl\<lparr>FLAG_HEX := True\<rparr>"] show ?thesis
    unfolding v by (simp add: conv_flags_def NUL_def format_literal)
qed

lemma put_cell_emits: "put_cell bd con m start ende v ptr = emits bd con (cell_chunks m start ende v ptr)"
  by (auto simp: put_cell_def cell_chunks_def cell_text_def puts_emits printf_emits [OF format_02x] NUL_def not_less)

lemma put_char_emits: "put_char bd con m start ende v ptr = emits bd con [[char_text m start ende v ptr]]"
  by (simp add: put_char_def char_text_def putc_emits)

lemma cols_loop_emits:
  "(\<And>p. f p = emits bd con (g p)) \<Longrightarrow> cols_loop n f ptr = emits bd con (concat (map (\<lambda>i. g (ptr + of_nat i)) [0..<n]))"
proof (induction n arbitrary: ptr)
  case (Suc n)
  have "map (\<lambda>i. g (ptr + of_nat i)) [0..<Suc n] = g ptr # map (\<lambda>i. g (ptr + 1 + of_nat i)) [0..<n]"
    unfolding upt_conv_Cons [OF zero_less_Suc] map_Suc_upt [symmetric] by (simp add: ac_simps)
  then show ?case using Suc by (simp only: cols_loop.simps concat.simps emits_append)
qed simp

lemma put_row_emits: "put_row bd con m start ende v offp offs = emits bd con (row_chunks m start ende v offp offs)"
proof -
  have c: "map (\<lambda>i. cell_chunks m start ende v (offs + of_nat i)) [0..<16]
      = map (cell_chunks m start ende v) (map (\<lambda>i. offs + of_nat i) [0..<16])"
    and t: "concat (map (\<lambda>i. [[char_text m start ende v (offs + of_nat i)]]) [0..<16])
      = map (\<lambda>p. [char_text m start ende v p]) (map (\<lambda>i. offs + of_nat i) [0..<16])"
    by (simp_all add: comp_def concat_map_singleton del: upt_rec_numeral)
  show ?thesis
    unfolding put_row_def row_chunks_def Let_def printf_emits [OF format_08x] cols_loop_emits [OF put_cell_emits]
      cols_loop_emits [OF put_char_emits] c t puts_emits putc_emits emits_append
    by (simp add: out_seq_assoc NUL_def del: upt_rec_numeral)
qed

section \<open>The loop over the rows\<close>

definition row_count :: "addr_t \<Rightarrow> addr_t \<Rightarrow> nat" where
  "row_count offs ende = (unat ende - unat offs + 15) div 16"

definition dump_chunks ::
    "mem \<Rightarrow> addr_t \<Rightarrow> addr_t \<Rightarrow> validator option \<Rightarrow> addr_t \<Rightarrow> addr_t \<Rightarrow> nat \<Rightarrow> string list list" where
  "dump_chunks m start ende v offp offs n =
     map (\<lambda>k. row_chunks m start ende v (offp + 16 * of_nat k) (offs + 16 * of_nat k)) [0..<n]"

lemma dump_chunks_Suc:
  "dump_chunks m start ende v offp offs (Suc n) =
     row_chunks m start ende v offp offs # dump_chunks m start ende v (offp + 16) (offs + 16) n"
  unfolding dump_chunks_def upt_conv_Cons [OF zero_less_Suc] map_Suc_upt [symmetric]
  by (simp add: algebra_simps)

lemma row_count_step:
  assumes "offs < ende" "unat ende + 16 \<le> 2 ^ 64"
  shows "row_count offs ende = Suc (row_count (offs + 16) ende)"
proof -
  have l: "unat offs < unat ende" using assms(1) by (simp add: word_less_nat_alt)
  then have "unat (offs + 16) = unat offs + 16" using assms(2) by (subst unat_plus_small) simp_all
  moreover have "(a - b + 15) div 16 = Suc ((a - (b + 16) + 15) div 16)" if "b < a" for a b :: nat
  proof (cases "b + 16 \<le> a")
    case True
    then have "a - b + 15 = (a - (b + 16) + 15) + 16" by simp
    then show ?thesis by (simp only: div_add_self2)
  next
    case False
    then have "(a - b + 15) div 16 = 1" "a - (b + 16) = 0" using that by (simp_all add: div_nat_eqI)
    then show ?thesis by simp
  qed
  ultimately show ?thesis using l by (simp only: row_count_def)
qed

lemma rows_loop_emits:
  assumes "unat ende + 16 \<le> 2 ^ 64"
  shows "rows_loop bd con m start ende v offp offs =
    emits bd con (concat (dump_chunks m start ende v offp offs (row_count offs ende)))"
proof (induction "row_count offs ende" arbitrary: offp offs)
  case 0
  have "\<not> offs < ende"
  proof
    assume "offs < ende"
    then show False using row_count_step [OF _ assms, of offs] 0 by simp
  qed
  then show ?case using 0 by (intro ext) (simp add: rows_loop.simps dump_chunks_def)
next
  case (Suc n)
  have lt: "offs < ende"
  proof (rule ccontr)
    assume "\<not> offs < ende"
    then have "unat ende \<le> unat offs" by (simp add: word_less_nat_alt)
    then show False using Suc.hyps(2) by (simp add: row_count_def)
  qed
  then have n: "n = row_count (offs + 16) ende" using row_count_step [OF lt assms] Suc.hyps(2) by simp
  show ?case
  proof
    fix w
    have "rows_loop bd con m start ende v offp offs w =
        out_seq (put_row bd con m start ende v offp offs) (rows_loop bd con m start ende v (offp + 16) (offs + 16)) w"
      using lt by (simp add: rows_loop.simps [of bd con m start ende v offp offs] out_seq_def split: option.split)
    then show "rows_loop bd con m start ende v offp offs w =
        emits bd con (concat (dump_chunks m start ende v offp offs (row_count offs ende))) w"
      using Suc.hyps(1) [OF n] n
      by (simp add: Suc.hyps(2) [symmetric] dump_chunks_Suc put_row_emits emits_append)
  qed
qed

lemma rows_loop_endless:
  assumes "rows_loop bd con m start ende v offp offs w = Some w'"
  shows "\<not> (16 dvd unat offs \<and> 2 ^ 64 - 16 < unat ende)"
proof (rule rows_loop.raw_induct [OF _ assms, where P = "\<lambda>bd con m start ende v offp offs w w'. \<not> (16 dvd unat offs \<and> 2 ^ 64 - 16 < unat ende)"], goal_cases)
  case (1 f bd con m start ende v offp offs w w')
  show ?case
  proof
    assume a: "16 dvd unat offs \<and> 2 ^ 64 - 16 < unat ende"
    then obtain q where q: "unat offs = 16 * q" by blast
    then have "q < 2 ^ 60" using unat_less_exp [of offs] by simp
    then have le: "unat offs \<le> 2 ^ 64 - 16" using q by simp
    then have lt: "offs < ende" using a by (simp add: word_less_nat_alt)
    have "unat (offs + 16) = (unat offs + 16) mod 2 ^ 64" by (simp add: unat_word_ariths)
    also have "\<dots> = 16 * (q + 1) mod (16 * 2 ^ 60)" using q by (simp add: add.commute)
    finally have "16 dvd unat (offs + 16)" by (simp only: mult_mod_right [symmetric]) simp
    then show False using 1 lt a by (auto split: option.splits)
  qed
qed

end
