(* ===== verification/Cmd_Console.thy ===== *)
theory Cmd_Console
  imports Console Cmd
begin

text \<open>
  The commands that work on the console: \<open>cmds/console.c\<close> selects its device and mirrors, \<open>cmds/echo.c\<close> and \<open>lib/log.c\<close>
  switch the log, \<open>cmds/dump.c\<close> prints a region of memory or of a storage device. Their messages are printed on the
  console as it is when they run.
\<close>

section \<open>The log\<close>

definition log_setEcho :: "int \<Rightarrow> int" where
  "log_setEcho val = (if val \<noteq> 0 then 1 else 0)"

definition log_info :: "'w board \<Rightarrow> 'w console_t \<Rightarrow> int \<Rightarrow> string \<Rightarrow> va list \<Rightarrow> 'w out" where
  "log_info bd con echo format args = (if echo \<noteq> 0 then lib_printf bd con format args else Some)"

definition log_error :: "'w board \<Rightarrow> 'w console_t \<Rightarrow> string \<Rightarrow> va list \<Rightarrow> 'w out" where
  "log_error bd con format args = lib_printf bd con (CONSOLE_RED @ format @ CONSOLE_NORMAL) args"

text \<open>Print, then return a result.\<close>

definition returning :: "'w out \<Rightarrow> 'a \<Rightarrow> 'w \<Rightarrow> ('a \<times> 'w) option" where
  "returning f r w = map_option (\<lambda>w'. (r, w')) (f w)"

definition nl :: string where
  "nl = [CHR 0x0A]"

definition wrong_args :: string where
  "wrong_args = nl @ ''%s: Wrong arguments''"

definition wrong_count :: string where
  "wrong_count = nl @ ''%s: Wrong argument count''"

text \<open>The state of \<open>echo\<close> is \<open>echo_common.mode\<close>; the result is the exit status and the new mode.\<close>

definition cmd_echo :: "'w board \<Rightarrow> 'w console_t \<Rightarrow> string list \<Rightarrow> int \<Rightarrow> 'w \<Rightarrow> ((int \<times> int) \<times> 'w) option" where
  "cmd_echo bd con argv mode =
     (if length argv = 1 then
        returning (lib_printf bd con (if mode \<noteq> 0 then nl @ ''Echo is ''  @ [CHR 0x27] @ ''on'' @ [CHR 0x27]
                                      else nl @ ''Echo is ''  @ [CHR 0x27] @ ''off'' @ [CHR 0x27]) []) (CMD_EXIT_SUCCESS, mode)
      else if length argv \<noteq> 2 then
        returning (log_error bd con wrong_args [VStr (Some (argv ! 0))]) (CMD_EXIT_FAILURE, mode)
      else if hal_strcmp (argv ! 1) ''on'' = 0 then returning Some (CMD_EXIT_SUCCESS, log_setEcho 1)
      else if hal_strcmp (argv ! 1) ''off'' = 0 then returning Some (CMD_EXIT_SUCCESS, log_setEcho 0)
      else returning (log_error bd con wrong_args [VStr (Some (argv ! 0))]) (CMD_EXIT_FAILURE, mode))"

section \<open>\<open>console\<close>\<close>

definition cmd_consoleParse :: "'w board \<Rightarrow> 'w console_t \<Rightarrow> string \<Rightarrow> 'w \<Rightarrow> ((nat \<times> nat) option \<times> 'w) option" where
  "cmd_consoleParse bd con s =
     (let (major, end1) = lib_strtoul s 0 in
      if chr0 end1 \<noteq> CHR ''.'' then
        returning (log_error bd con (nl @ ''Wrong major value: %s'') [VStr (Some s)]) None
      else
        let (minor, end2) = lib_strtoul (tl end1) 0 in
        if chr0 end2 \<noteq> NUL then
          returning (log_error bd con (nl @ ''Wrong minor value: %s'') [VStr (Some s)]) None
        else returning Some (Some (unat (ucast major :: u32), unat (ucast minor :: u32))))"

fun parse_mirrors :: "'w board \<Rightarrow> 'w console_t \<Rightarrow> string list \<Rightarrow> 'w \<Rightarrow> ((nat \<times> nat) list option \<times> 'w) option" where
  "parse_mirrors bd con [] w = Some (Some [], w)"
| "parse_mirrors bd con (a # as) w =
     (case cmd_consoleParse bd con a w of
        None \<Rightarrow> None
      | Some (None, w1) \<Rightarrow> Some (None, w1)
      | Some (Some m, w1) \<Rightarrow> map_option (map_prod (map_option ((#) m)) id) (parse_mirrors bd con as w1))"

definition print_device :: "'w board \<Rightarrow> 'w console_t \<Rightarrow> string \<Rightarrow> nat \<times> nat \<Rightarrow> 'w out" where
  "print_device bd con format d = lib_printf bd con format [VNum (of_nat (fst d)), VNum (of_nat (snd d))]"

fun print_mirrors :: "'w board \<Rightarrow> 'w console_t \<Rightarrow> (nat \<times> nat) list \<Rightarrow> 'w out" where
  "print_mirrors bd con [] = Some"
| "print_mirrors bd con (m # ms) =
     out_seq (print_device bd con (nl @ ''console: Setting console mirrors to %d.%d'') m)
       (foldr (\<lambda>m. out_seq (print_device bd con '', %d.%d'' m)) ms Some)"

definition cmd_console :: "'w board \<Rightarrow> string list \<Rightarrow> 'w console_t \<Rightarrow> 'w \<Rightarrow> ((int \<times> 'w console_t) \<times> 'w) option" where
  "cmd_console bd argv con w =
     (if length argv = 1 then
        returning (log_error bd con (nl @ ''%s: Arguments have to be defined'') [VStr (Some (argv ! 0))]) (CMD_EXIT_FAILURE, con) w
      else if length argv > 2 + CONSOLE_MIRRORS then
        returning (log_error bd con wrong_count [VStr (Some (argv ! 0))]) (CMD_EXIT_FAILURE, con) w
      else case cmd_consoleParse bd con (argv ! 1) w of
             None \<Rightarrow> None
           | Some (None, w1) \<Rightarrow> Some ((CMD_EXIT_FAILURE, con), w1)
           | Some (Some d, w1) \<Rightarrow>
               (case parse_mirrors bd con (drop 2 argv) w1 of
                  None \<Rightarrow> None
                | Some (None, w2) \<Rightarrow> Some ((CMD_EXIT_FAILURE, con), w2)
                | Some (Some ms, w2) \<Rightarrow>
                    returning
                      (out_seq (print_device bd con (nl @ ''console: Setting console to %u.%u'') d) (print_mirrors bd con ms))
                      (CMD_EXIT_SUCCESS, lib_consoleSet (fst d) (snd d) (lib_consoleSetMirrors (length argv - 2) ms con)) w2))"

section \<open>\<open>dump\<close>\<close>

definition region_validator :: "attr_bits \<Rightarrow> syspage_t \<Rightarrow> validator" where
  "region_validator ab sp start ende cur =
     (case syspage_mapRangeCheck cur cur sp of None \<Rightarrow> False | Some attr \<Rightarrow> attr AND mAttrRead ab \<noteq> 0)"

definition dump_memory :: "'w board \<Rightarrow> 'w console_t \<Rightarrow> attr_bits \<Rightarrow> syspage_t \<Rightarrow> mem \<Rightarrow> addr_t \<Rightarrow> size_t \<Rightarrow> bool \<Rightarrow> 'w out" where
  "dump_memory bd con ab sp m addr len validate =
     (let ende = addr + len in
      out_seq (lib_printf bd con (nl @ ''Memory dump from 0x%x to 0x%x (%zu bytes):'' @ nl) [VNum addr, VNum ende, VNum len])
     (out_seq (lib_consolePutHLine bd con)
        (lib_consolePutRegionHex bd con m addr ende addr True (if validate then Some (region_validator ab sp) else None))))"

text \<open>
  The loop of \<open>dump_phfs\<close>; \<open>bufa\<close> is the address of its buffer of 256 bytes on the stack, of which the region printed is
  the part the read filled. The result is the error of the read.
\<close>

definition buf_mem :: "addr_t \<Rightarrow> bytes \<Rightarrow> mem" where
  "buf_mem bufa bs a = (if unat (a - bufa) < length bs then bs ! unat (a - bufa) else 0)"

partial_function (option) dump_loop ::
    "'w board \<Rightarrow> 'w console_t \<Rightarrow> (addr_t \<Rightarrow> size_t \<Rightarrow> ('w, bytes) io) \<Rightarrow> addr_t \<Rightarrow> addr_t \<Rightarrow> size_t \<Rightarrow> size_t \<Rightarrow> 'w \<Rightarrow>
     ((errno + unit) \<times> 'w) option" where
  "dump_loop bd con rd bufa addr len rsz w =
     (case rd (addr + rsz) (if len - rsz > 256 then 256 else len - rsz) w of
        None \<Rightarrow> None
      | Some (Inl e, w1) \<Rightarrow> returning (lib_printf bd con (nl @ ''Cant read data'' @ nl) []) (Inl e) w1
      | Some (Inr bs, w1) \<Rightarrow>
          (case lib_consolePutRegionHex bd con (buf_mem bufa bs) bufa (bufa + of_nat (length bs)) (addr + rsz) False None w1 of
             None \<Rightarrow> None
           | Some w2 \<Rightarrow>
               (let rsz' = rsz + of_nat (length bs) in
                if rsz' < len then dump_loop bd con rd bufa addr len rsz' w2 else Some (Inr (), w2))))"

definition dump_phfs ::
    "'w board \<Rightarrow> 'w console_t \<Rightarrow> stack_t \<Rightarrow> phfs_t \<Rightarrow> addr_t \<Rightarrow> string \<Rightarrow> addr_t \<Rightarrow> size_t \<Rightarrow> 'w out" where
  "dump_phfs bd con stk ph bufa devname addr len w =
     (case phfs_open stk (bd_devs bd) ph devname None PHFS_OPEN_RAWONLY w of
        None \<Rightarrow> None
      | Some (Inl e, w1) \<Rightarrow> lib_printf bd con (nl @ ''Unable to open phfs device %s'' @ nl) [VStr (Some devname)] w1
      | Some (Inr h, w1) \<Rightarrow>
          (case out_seq (lib_printf bd con (nl @ ''Read phfs %s device from 0x%x to 0x%x (%zu bytes):'' @ nl)
                   [VStr (Some devname), VNum addr, VNum (ucast (ucast addr :: u32) + len), VNum len])
                 (lib_consolePutHLine bd con) w1 of
             None \<Rightarrow> None
           | Some w2 \<Rightarrow>
               (case dump_loop bd con (phfs_read stk (bd_devs bd) ph h) bufa addr len 0 w2 of
                  None \<Rightarrow> None
                | Some (Inl e, w3) \<Rightarrow> Some w3
                | Some (Inr _, w3) \<Rightarrow> out_of (phfs_close (bd_devs bd) ph h) w3)))"

text \<open>The options of \<open>dump\<close>: \<open>validate\<close>, the device of \<open>-r\<close> and the arguments behind the options.\<close>

fun dump_opts :: "string list \<Rightarrow> bool \<Rightarrow> string option \<Rightarrow> (bool \<times> string option \<times> string list) option" where
  "dump_opts [] validate dev = Some (validate, dev, [])"
| "dump_opts (a # as) validate dev =
     (if chr_at a 0 \<noteq> CHR ''-'' then Some (validate, dev, a # as)
      else if chr_at a 1 = NUL \<or> chr_at a 2 \<noteq> NUL then None
      else if chr_at a 1 = CHR ''F'' then dump_opts as False dev
      else if chr_at a 1 = CHR ''r'' then (case as of [] \<Rightarrow> None | d # as' \<Rightarrow> dump_opts as' validate (Some d))
      else None)"

text \<open>The start and the length.\<close>

definition dump_range :: "string list \<Rightarrow> (addr_t \<times> size_t) option" where
  "dump_range args =
     (case args of
        [] \<Rightarrow> None
      | a # as \<Rightarrow>
          (case lib_strtoul a 0 of (start, end1) \<Rightarrow>
             if chr0 end1 \<noteq> NUL then None
             else
               (case (case as of
                        [] \<Rightarrow> Some 0x100
                      | b # _ \<Rightarrow> (case lib_strtoul b 0 of (len, end2) \<Rightarrow> if chr0 end2 \<noteq> NUL \<or> len = 0 then None else Some len)) of
                  None \<Rightarrow> None
                | Some len \<Rightarrow> Some (start, if start + len < start then -1 - start else len))))"

definition cmd_dump ::
    "'w board \<Rightarrow> 'w console_t \<Rightarrow> attr_bits \<Rightarrow> stack_t \<Rightarrow> addr_t \<Rightarrow> mem \<Rightarrow> string list \<Rightarrow> 'w plo \<Rightarrow> (int \<times> 'w plo) option" where
  "cmd_dump bd con ab stk bufa m argv s =
     (let run = (\<lambda>f r. map_option (\<lambda>w. (r, s\<lparr>plo_w := w\<rparr>)) (f (plo_w s)));
          bad = run (log_error bd con wrong_args [VStr (Some (argv ! 0))]) CMD_EXIT_FAILURE
      in case dump_opts (drop 1 argv) True None of
           None \<Rightarrow> bad
         | Some (validate, dev, args) \<Rightarrow>
             (case dump_range args of
                None \<Rightarrow> bad
              | Some (start, len) \<Rightarrow>
                  (case dev of
                     None \<Rightarrow> run (dump_memory bd con ab (plo_sp s) m start len validate) CMD_EXIT_SUCCESS
                   | Some d \<Rightarrow> run (dump_phfs bd con stk (plo_ph s) bufa d start len) CMD_EXIT_SUCCESS)))"

section \<open>Mirrors\<close>

text \<open>The array of mirrors has \<open>CONSOLE_MIRRORS\<close> entries, of which the first \<open>mirrorsCnt\<close> are in use.\<close>

definition console_inv :: "'w console_t \<Rightarrow> bool" where
  "console_inv con \<longleftrightarrow> length (con_mirrors con) = CONSOLE_MIRRORS \<and> con_mirrorsCnt con \<le> CONSOLE_MIRRORS"

lemma consoleSet_inv [simp]: "console_inv (lib_consoleSet major minor con) = console_inv con"
  by (simp add: console_inv_def lib_consoleSet_def)

lemma consoleSetHooks_inv [simp]: "console_inv (lib_consoleSetHooks rd wr con) = console_inv con"
  by (simp add: console_inv_def lib_consoleSetHooks_def)

lemma consoleSetMirrors_inv:
  "console_inv con \<Longrightarrow> console_inv (lib_consoleSetMirrors cnt ms con)"
  by (simp add: console_inv_def lib_consoleSetMirrors_def Let_def memcpy_to_def)

lemma consoleSetMirrors_mirrors:
  assumes "console_inv con" "length ms = cnt" "cnt \<le> CONSOLE_MIRRORS"
  shows "take (con_mirrorsCnt (lib_consoleSetMirrors cnt ms con)) (con_mirrors (lib_consoleSetMirrors cnt ms con)) = ms"
  using assms by (simp add: console_inv_def lib_consoleSetMirrors_def Let_def memcpy_to_def)

section \<open>Names of devices\<close>

text \<open>\<open>major.minor\<close> as the commands print it.\<close>

definition dev_text :: "nat \<times> nat \<Rightarrow> string" where
  "dev_text d = num_body no_flags (fst d) @ ''.'' @ num_body no_flags (snd d)"

lemma strtoul_loop_append:
  assumes "strtoul_loop b s v = (r, [])" "\<not> lib_isdigit (code c) \<and> \<not> lib_isalpha (code c)"
  shows "strtoul_loop b (s @ c # t) v = (r, c # t)"
  using assms(1)
proof (induction b s v rule: strtoul_loop.induct)
  case (1 b v)
  then show ?case using assms(2) by simp
next
  case (2 b d s v)
  then show ?case by (auto simp: Let_def split: if_splits)
qed

lemma strtoul_body_append:
  "lib_strtoul (num_body no_flags n @ ''.'' @ t) 0 = (of_nat n, ''.'' @ t)"
proof (cases "n = 0")
  case True
  then show ?thesis
    by (simp add: num_body_def lib_strtoul_def strtoul_digit_def ctype_defs)
next
  case False
  let ?d = "print_digits False 10 n"
  have b: "num_body no_flags n = ?d" using False by (simp add: num_body_def num_pre_def num_base_def no_flags_def)
  have "?d \<noteq> []" using False by (simp add: print_digits_def nat_digits.simps [of 10 n])
  then have "chr_at (?d @ ''.'' @ t) 0 \<noteq> CHR ''0''"
    using print_digits_not_0 [of 10 False n] by (simp add: chr0_def split: list.splits)
  moreover have "strtoul_loop 10 (?d @ CHR ''.'' # t) 0 = (of_nat n, CHR ''.'' # t)"
    using strtoul_loop_print [of 10 False n] by (intro strtoul_loop_append) (simp_all add: ctype_defs)
  ultimately show ?thesis by (simp add: b lib_strtoul_def)
qed

lemma strtoul_body_end: "lib_strtoul (num_body no_flags n) 0 = (of_nat n, [])"
  by (rule strtoul_dec) (simp_all add: no_flags_def)

lemma consoleParse_dev_text:
  assumes "fst d < 2 ^ 32" "snd d < 2 ^ 32"
  shows "cmd_consoleParse bd con (dev_text d) w = Some (Some d, w)"
proof -
  have "unat (ucast (of_nat n :: u64) :: u32) = n" if "n < 2 ^ 32" for n
    using that by (simp add: unsigned_ucast_eq unat_of_nat_small take_bit_nat_eq_self)
  then show ?thesis
    using assms strtoul_body_append [of "fst d" "num_body no_flags (snd d)"] strtoul_body_end [of "snd d"]
    by (simp add: cmd_consoleParse_def dev_text_def returning_def NUL_def)
qed

lemma parse_mirrors_dev_text:
  "list_all (\<lambda>d. fst d < 2 ^ 32 \<and> snd d < 2 ^ 32) ms \<Longrightarrow> parse_mirrors bd con (map dev_text ms) w = Some (Some ms, w)"
  by (induction ms) (simp_all add: consoleParse_dev_text)

lemma write_each_append:
  "write_each devs (xs @ ys) s = out_seq (write_each devs xs s) (write_each devs ys s)"
  by (induction devs xs s rule: write_each.induct) (simp_all add: out_seq_assoc)

text \<open>A console whose devices return.\<close>

definition console_returns :: "'w board \<Rightarrow> 'w console_t \<Rightarrow> bool" where
  "console_returns bd con \<longleftrightarrow> (\<forall>s w. emit bd con s w \<noteq> None)"

lemma emits_returns: "console_returns bd con \<Longrightarrow> emits bd con ss w \<noteq> None"
proof (induction ss arbitrary: w)
  case (Cons s ss)
  then obtain w1 where "emit bd con s w = Some w1" 
    unfolding console_returns_def by (metis not_None_eq)
  then show ?case using Cons.IH [OF Cons.prems, of w1] by (simp add: out_seq_def)
qed simp

lemma printf_returns:
  "console_returns bd con \<Longrightarrow> lib_formatParse format args \<noteq> None \<Longrightarrow> lib_printf bd con format args w \<noteq> None"
  using emits_returns [of bd con] by (auto simp: printf_emits)

lemma format_dev_conv:
  "lib_formatParse ''%u.%u'' [VNum m, VNum n] \<noteq> None" "lib_formatParse ''%d.%d'' [VNum m, VNum n] \<noteq> None"
proof -
  have s: "fmt_spec (CHR ''u'' # t) args = Spec no_flags 0 (-1) (CHR ''u'' # t) args"
    "fmt_spec (CHR ''d'' # t) args = Spec no_flags 0 (-1) (CHR ''d'' # t) args" for t args
    by (simp_all add: fmt_spec_defs)
  have u: "lib_formatParse (CHR ''%'' # CHR ''u'' # t) (VNum n # args) \<noteq> None" if "lib_formatParse t args \<noteq> None" for t args n
    using format_num [where s = "CHR ''u'' # t" and args = "VNum n # args" and fl = no_flags, OF s(1)] that by (auto simp: conv_flags_def NUL_def)
  have d: "lib_formatParse (CHR ''%'' # CHR ''d'' # t) (VNum n # args) \<noteq> None" if "lib_formatParse t args \<noteq> None" for t args n
    using format_num [where s = "CHR ''d'' # t" and args = "VNum n # args" and fl = "no_flags\<lparr>FLAG_SIGNED := True\<rparr>", OF s(2)] that by (auto simp: conv_flags_def NUL_def)
  show "lib_formatParse ''%u.%u'' [VNum m, VNum n] \<noteq> None"
    by (rule u) (simp add: format_literal NUL_def u [simplified])
  show "lib_formatParse ''%d.%d'' [VNum m, VNum n] \<noteq> None"
    by (rule d) (simp add: format_literal NUL_def d [simplified])
qed

lemma format_prefix_returns:
  "list_all (\<lambda>c. c \<noteq> NUL \<and> c \<noteq> CHR ''%'') p \<Longrightarrow> lib_formatParse f args \<noteq> None \<Longrightarrow> lib_formatParse (p @ f) args \<noteq> None"
  by (induction p) (auto simp: format_literal)

lemma print_device_returns:
  assumes "console_returns bd con"
  shows "print_device bd con (nl @ ''console: Setting console to %u.%u'') d w \<noteq> None"
    "print_device bd con (nl @ ''console: Setting console mirrors to %d.%d'') d w \<noteq> None"
    "print_device bd con '', %d.%d'' d w \<noteq> None"
  using format_prefix_returns [of "nl @ ''console: Setting console to ''" "''%u.%u''"]
    format_prefix_returns [of "nl @ ''console: Setting console mirrors to ''" "''%d.%d''"]
    format_prefix_returns [of "'', ''" "''%d.%d''"] format_dev_conv
  unfolding print_device_def
  by (intro printf_returns [OF assms]; simp add: nl_def NUL_def)+

lemma print_mirrors_returns:
  assumes "console_returns bd con"
  shows "print_mirrors bd con ms w \<noteq> None"
proof -
  have r: "foldr (\<lambda>m. out_seq (print_device bd con '', %d.%d'' m)) ms Some w \<noteq> None" for ms w
  proof (induction ms arbitrary: w)
    case (Cons m ms)
    then show ?case using print_device_returns(3) [OF assms, of m w] by (auto simp: out_seq_def)
  qed simp
  show ?thesis
  proof (cases ms)
    case (Cons m ms')
    then show ?thesis using print_device_returns(2) [OF assms, of m w] r by (auto simp: out_seq_def)
  qed simp
qed

section \<open>The command on its own output\<close>

lemma cmd_console_sets:
  assumes "console_inv con" "console_returns bd con" "length ms \<le> CONSOLE_MIRRORS"
    and "list_all (\<lambda>d. fst d < 2 ^ 32 \<and> snd d < 2 ^ 32) (d # ms)"
  shows "\<exists>w'. cmd_console bd (name # map dev_text (d # ms)) con w =
    Some ((CMD_EXIT_SUCCESS, lib_consoleSet (fst d) (snd d) (lib_consoleSetMirrors (length ms) ms con)), w')"
proof -
  have p: "cmd_consoleParse bd con (dev_text d) w = Some (Some d, w)"
    "parse_mirrors bd con (map dev_text ms) w = Some (Some ms, w)"
    using assms(4) by (simp_all add: consoleParse_dev_text parse_mirrors_dev_text)
  obtain w1 where w1: "print_device bd con (nl @ ''console: Setting console to %u.%u'') d w = Some w1"
    using print_device_returns(1) [OF assms(2), of d w] by auto
  obtain w2 where w2: "print_mirrors bd con ms w1 = Some w2"
    using print_mirrors_returns [OF assms(2), of ms w1] by auto
  then show ?thesis
    using assms(3) p w1 by (simp add: cmd_console_def returning_def out_seq_def)
qed

section \<open>A board with two serial ports\<close>

text \<open>Two devices that keep what was written to them, for the witnesses.\<close>

type_synonym ports = "nat \<Rightarrow> bytes"

definition port_write :: "nat \<Rightarrow> addr_t \<Rightarrow> bytes \<Rightarrow> (ports, size_t) io" where
  "port_write minor offs buff w = Some (Inr (of_nat (length buff)), w(minor := w minor @ buff))"

definition port_ops :: "ports dev_ops_t" where
  "port_ops = \<lparr>op_sync = None, op_map = None, op_control = None, op_read = None, op_write = Some port_write, op_erase = None\<rparr>"

definition port_board :: "ports board" where
  "port_board = \<lparr>bd_devs = (\<lambda>major minor. if major = 0 \<and> minor < 2
       then Some \<lparr>dev_name = None, dev_init = None, dev_done = None, dev_ops = Some port_ops\<rparr> else None),
     hal_print = (\<lambda>s w. Some (w(0 := w 0 @ char_bytes s)))\<rparr>"

definition port_console :: "ports console_t" where
  "port_console = \<lparr>con_init = False, con_mirrors = replicate 3 (0, 0), con_mirrorsCnt = 0, con_major = 0, con_minor = 0,
     con_readHook = None, con_writeHook = None\<rparr>"

lemma port_console_returns: "console_returns port_board port_console"
  by (simp add: console_returns_def emit_def port_board_def port_console_def)

lemma region_endless:
  assumes "2 ^ 64 - 16 < unat ende"
  shows "lib_consolePutRegionHex bd con m start ende offp True v w = None"
proof -
  have "unat (start div 16 * 16) = unat start div 16 * 16"
    using unat_less_exp [of start] by (simp add: unat_word_ariths unat_div_distrib)
  then have "16 dvd unat (start div 16 * 16)" by simp
  then show ?thesis
    using rows_loop_endless [of bd con m start ende v "offp div 16 * 16" "start div 16 * 16" w] assms
    by (cases "rows_loop bd con m start ende v (offp div 16 * 16) (start div 16 * 16) w")
      (auto simp: lib_consolePutRegionHex_def)
qed

lemma unat_minus_1: "unat (-1 :: addr_t) = 2 ^ 64 - 1"
  by (simp add: unsigned_minus_1_eq_mask mask_eq_exp_minus_1)

lemma dump_range_top:
  assumes "lib_strtoul a 0 = (start, [])" "2 ^ 64 - 0x100 \<le> unat start"
  shows "dump_range [a] = Some (start, -1 - start)"
proof -
  have "unat (start + 0x100) = unat start + 0x100 - 2 ^ 64"
    using assms(2) unat_less_exp [of start] by (simp add: unat_word_ariths mod_if)
  then have "start + 0x100 < start" using assms(2) by (simp add: word_less_nat_alt)
  then show ?thesis using assms(1) by (simp add: dump_range_def)
qed

section \<open>Properties\<close>

text \<open>
  The command \<open>console\<close> with a device and up to three mirrors, written as \<open>major.minor\<close>, succeeds on a console that
  works and selects them: whatever is printed from then on goes, whole, to the mirrors in the order of the arguments and to
  the device last; the table of mirrors stays within its three entries.
\<close>

theorem console_selects:
  assumes "console_inv con" "console_returns bd con" "length ms \<le> CONSOLE_MIRRORS"
    and "list_all (\<lambda>d. fst d < 2 ^ 32 \<and> snd d < 2 ^ 32) (d # ms)"
  shows "\<exists>con' w'. cmd_console bd (name # map dev_text (d # ms)) con w = Some ((CMD_EXIT_SUCCESS, con'), w') \<and>
    console_inv con' \<and> (\<forall>s. emit bd con' s =
      out_seq (hook_write con (char_bytes s)) (write_each (bd_devs bd) (ms @ [d]) (char_bytes s)))"
proof -
  let ?con = "lib_consoleSet (fst d) (snd d) (lib_consoleSetMirrors (length ms) ms con)"
  obtain w' where "cmd_console bd (name # map dev_text (d # ms)) con w = Some ((CMD_EXIT_SUCCESS, ?con), w')"
    using cmd_console_sets [OF assms] by blast
  moreover have "console_inv ?con" using assms(1) by (simp add: consoleSetMirrors_inv)
  moreover have "emit bd ?con s =
      out_seq (hook_write con (char_bytes s)) (write_each (bd_devs bd) (ms @ [d]) (char_bytes s))" for s
  proof -
    have m: "take (con_mirrorsCnt ?con) (con_mirrors ?con) = ms"
      using consoleSetMirrors_mirrors [OF assms(1) refl assms(3)] by (simp add: lib_consoleSet_def)
    have "hook_write ?con = hook_write con"
      by (simp add: hook_write_def fun_eq_iff lib_consoleSet_def lib_consoleSetMirrors_def Let_def)
    moreover have "lib_consoleWrite bd ?con bs = write_each (bd_devs bd) (ms @ [d]) bs" for bs
      unfolding lib_consoleWrite_def m write_each_append by (cases d) (simp add: lib_consoleSet_def)
    ultimately show ?thesis by (simp add: emit_def) (simp add: lib_consoleSet_def)
  qed
  ultimately show ?thesis by blast
qed

theorem console_selects_witness:
  "\<exists>con' w'. cmd_console port_board (''console'' # map dev_text [(0, 1), (0, 0)]) port_console (\<lambda>_. []) =
     Some ((CMD_EXIT_SUCCESS, con'), w') \<and> console_inv con' \<and>
     (\<forall>s. emit port_board con' s = write_each (bd_devs port_board) [(0, 0), (0, 1)] (char_bytes s))"
  using console_selects [of port_console port_board "[(0, 0)]" "(0, 1)" "''console''" "\<lambda>_. []"] port_console_returns
  by (simp add: console_inv_def CONSOLE_MIRRORS_def port_console_def hook_write_def)

text \<open>
  C28: A dump of the region from \<open>start\<close> to \<open>ende\<close>, where the end is at least 16 bytes below the end of the address space (else the dump may never end), ends and prints one line per sixteen addresses: its address, the bytes of
  the region as two digits each, blanks for addresses outside the region and \<open>XX\<close> for those the validator refuses, then
  the printable characters. The two digits of a byte are read back as its value.
\<close>

theorem dump_shows_region:
  assumes "unat ende + 16 \<le> 2 ^ 64"
  shows "\<exists>rows. lib_consolePutRegionHex bd con m start ende offp align v = emits bd con (concat rows) \<and>
    map concat rows =
      (let a = (if align then start div 16 * 16 else start); p = (if align then offp div 16 * 16 else offp)
       in map (\<lambda>k. row_text m start ende v (p + 16 * of_nat k) (a + 16 * of_nat k)) [0..<row_count a ende]) \<and>
    (\<forall>b :: u8. str_val 16 (hex_fix 2 (unat b)) = unat b)"
proof (intro exI conjI allI)
  let ?a = "if align then start div 16 * 16 else start" and ?p = "if align then offp div 16 * 16 else offp"
  let ?rows = "dump_chunks m start ende v ?p ?a (row_count ?a ende)"
  show "lib_consolePutRegionHex bd con m start ende offp align v = emits bd con (concat ?rows)"
    by (simp add: lib_consolePutRegionHex_def rows_loop_emits [OF assms])
  show "map concat ?rows =
      (let a = ?a; p = ?p in map (\<lambda>k. row_text m start ende v (p + 16 * of_nat k) (a + 16 * of_nat k)) [0..<row_count a ende])"
    by (simp add: dump_chunks_def concat_row_chunks comp_def Let_def)
  fix b :: u8
  show "str_val 16 (hex_fix 2 (unat b)) = unat b" using unat_less_exp [of b] by (intro str_val_hex_fix) simp
qed

theorem dump_shows_region_witness:
  "\<exists>rows. lib_consolePutRegionHex port_board port_console (\<lambda>a. ucast a) 0x18 0x21 0x18 True None =
     emits port_board port_console (concat rows) \<and>
   map concat rows = map (\<lambda>k. row_text (\<lambda>a. ucast a) 0x18 0x21 None (16 + 16 * of_nat k) (16 + 16 * of_nat k)) [0..<2]"
  using dump_shows_region [where ende = "0x21" and bd = port_board and con = port_console and m = "\<lambda>a. ucast a" and start = "0x18"
      and offp = "0x18" and align = True and v = None]
  by (auto simp: Let_def row_count_def)

text \<open>
  The command \<open>dump\<close> with only an address among the last 256 never returns: the command cuts the region at the highest
  address, and the row address of the dump wraps to zero, below the end again.
\<close>

theorem dump_endless:
  assumes "dump_opts (drop 1 argv) True None = Some (validate, None, [a])" "lib_strtoul a 0 = (start, [])"
    and "2 ^ 64 - 0x100 \<le> unat start"
  shows "cmd_dump bd con ab stk bufa m argv s = None"
proof -
  have "lib_consolePutRegionHex bd con m start (start + (-1 - start)) start True v w = None" for v w
    by (rule region_endless) (simp add: unat_minus_1)
  then have "dump_memory bd con ab sp m start (-1 - start) validate w = None" for sp w
    by (auto simp: dump_memory_def Let_def out_seq_def bind_eq_None_conv)
  then show ?thesis using assms(1) dump_range_top [OF assms(2,3)] by (simp add: cmd_dump_def)
qed

theorem dump_endless_witness:
  "\<forall>ab stk bufa m s. cmd_dump port_board port_console ab stk bufa m [''dump'', ''-F'', ''0xffffffffffffff80''] s = None"
proof (intro allI, rule dump_endless)
  show "dump_opts (drop 1 [''dump'', ''-F'', ''0xffffffffffffff80'']) True None = Some (False, None, [''0xffffffffffffff80''])"
    by (simp add: NUL_def chr_at_def)
  show "lib_strtoul ''0xffffffffffffff80'' 0 = (0xffffffffffffff80, [])"
    by (simp add: lib_strtoul_def strtoul_digit_def ctype_defs)
qed simp

end
