(* ===== verification/Cmd_Mem.thy ===== *)
theory Cmd_Mem
  imports Cmd
begin

text \<open>
  \<open>cmds/mem.c\<close>: the command that reads or writes a range of memory, value by value. The world is the memory itself; what the
  command prints is left out. Values are stored with the least significant byte first, as on aarch64.
\<close>

record mem_opts =
  mo_align :: size_t
  mo_count :: size_t
  mo_size :: size_t
  mo_value :: u64
  mo_force :: bool
  mo_read :: bool
  mo_write :: bool

definition mem_defaults :: mem_opts where
  "mem_defaults = \<lparr>mo_align = 8, mo_count = 1, mo_size = 8, mo_value = 0, mo_force = False, mo_read = False, mo_write = False\<rparr>"

definition range_validator :: "attr_bits \<Rightarrow> syspage_t \<Rightarrow> addr_t \<Rightarrow> size_t \<Rightarrow> u32 \<Rightarrow> bool" where
  "range_validator ab sp addr sz attr =
     (case syspage_mapRangeCheck addr (addr + sz) sp of None \<Rightarrow> False | Some mapAttr \<Rightarrow> mapAttr AND attr = attr)"

text \<open>The bytes of the low \<open>n\<close> bytes of a value.\<close>

fun le_bytes :: "nat \<Rightarrow> u64 \<Rightarrow> bytes" where
  "le_bytes 0 v = []"
| "le_bytes (Suc n) v = ucast v # le_bytes n (drop_bit 8 v)"

definition memr :: "attr_bits \<Rightarrow> syspage_t \<Rightarrow> addr_t \<Rightarrow> size_t \<Rightarrow> bool \<Rightarrow> errno + unit" where
  "memr ab sp addr sz forceValid =
     (if forceValid \<or> range_validator ab sp addr sz (mAttrRead ab) then
        (if sz \<in> {1, 2, 4, 8} then Inr () else Inl EINVAL)
      else Inr ())"

definition memw :: "attr_bits \<Rightarrow> syspage_t \<Rightarrow> addr_t \<Rightarrow> size_t \<Rightarrow> u64 \<Rightarrow> bool \<Rightarrow> mem \<Rightarrow> (errno + unit) \<times> mem" where
  "memw ab sp addr sz val forceValid m =
     (if forceValid \<or> range_validator ab sp addr sz (mAttrWrite ab) then
        (if sz \<in> {1, 2, 4, 8} then (Inr (), mem_store m addr (le_bytes (unat sz) val)) else (Inl EINVAL, m))
      else (Inr (), m))"

text \<open>The loops over \<open>count\<close>.\<close>

fun memr_loop :: "attr_bits \<Rightarrow> syspage_t \<Rightarrow> nat \<Rightarrow> addr_t \<Rightarrow> size_t \<Rightarrow> bool \<Rightarrow> errno + unit" where
  "memr_loop ab sp 0 addr sz f = Inr ()"
| "memr_loop ab sp (Suc n) addr sz f =
     (case memr ab sp addr sz f of Inl e \<Rightarrow> Inl e | Inr _ \<Rightarrow> memr_loop ab sp n (addr + sz) sz f)"

fun memw_loop :: "attr_bits \<Rightarrow> syspage_t \<Rightarrow> nat \<Rightarrow> addr_t \<Rightarrow> size_t \<Rightarrow> u64 \<Rightarrow> bool \<Rightarrow> mem \<Rightarrow> (errno + unit) \<times> mem" where
  "memw_loop ab sp 0 addr sz val f m = (Inr (), m)"
| "memw_loop ab sp (Suc n) addr sz val f m =
     (case memw ab sp addr sz val f m of
        (Inl e, m') \<Rightarrow> (Inl e, m')
      | (Inr _, m') \<Rightarrow> memw_loop ab sp n (addr + sz) sz val f m')"

text \<open>A numeric option: \<open>0\<close> where the argument is empty or has other characters behind the number.\<close>

definition opt_number :: "string \<Rightarrow> size_t" where
  "opt_number a = (case lib_strtoul a 0 of (v, rest) \<Rightarrow> if rest = a \<or> chr0 rest \<noteq> NUL then 0 else v)"

definition mem_opt :: "char \<Rightarrow> string option \<Rightarrow> mem_opts \<Rightarrow> mem_opts option" where
  "mem_opt c arg mo =
     (if c = CHR ''F'' then Some (mo\<lparr>mo_force := True\<rparr>)
      else if c = CHR ''r'' then Some (mo\<lparr>mo_read := True\<rparr>)
      else case arg of
        None \<Rightarrow> None
      | Some a \<Rightarrow>
          if c = CHR ''a'' then Some (mo\<lparr>mo_align := opt_number a\<rparr>)
          else if c = CHR ''c'' then Some (mo\<lparr>mo_count := opt_number a\<rparr>)
          else if c = CHR ''s'' then Some (mo\<lparr>mo_size := opt_number a\<rparr>)
          else if c = CHR ''w'' then
            (case lib_strtoul a 0 of (v, rest) \<Rightarrow>
               Some (if rest \<noteq> a \<and> chr0 rest = NUL then mo\<lparr>mo_value := v, mo_write := True\<rparr> else mo\<lparr>mo_value := v\<rparr>))
          else None)"

text \<open>The option loop: \<open>Inl\<close> where the command prints its usage and fails.\<close>

partial_function (option) mem_args :: "string list \<Rightarrow> mem_opts \<Rightarrow> getopt_t \<Rightarrow> ((unit + mem_opts) \<times> getopt_t) option" where
  "mem_args argv mo st =
     (case lib_getopt argv ''a:c:Fhrs:w:'' st of
        (None, st') \<Rightarrow> Some (Inr mo, st')
      | (Some c, st') \<Rightarrow>
          (case mem_opt c (optarg st') mo of
             None \<Rightarrow> Some (Inl (), st')
           | Some mo' \<Rightarrow> mem_args argv mo' st'))"

definition power_of_2 :: "size_t \<Rightarrow> bool" where
  "power_of_2 n \<longleftrightarrow> n \<noteq> 0 \<and> n AND (n - 1) = 0"

definition mem_accepts :: "string list \<Rightarrow> getopt_t \<Rightarrow> mem_opts \<Rightarrow> bool" where
  "mem_accepts argv st mo \<longleftrightarrow>
     optind st \<noteq> int (length argv) \<and> power_of_2 (mo_align mo) \<and> power_of_2 (mo_size mo) \<and> mo_size mo \<le> mo_align mo \<and>
     mo_count mo \<noteq> 0 \<and> mo_read mo \<noteq> mo_write mo"

definition mem_run :: "attr_bits \<Rightarrow> syspage_t \<Rightarrow> mem_opts \<Rightarrow> addr_t \<Rightarrow> mem \<Rightarrow> int \<times> mem" where
  "mem_run ab sp mo addr0 m =
     (let addr = addr0 AND NOT (mo_align mo - 1) in
      if mo_read mo then
        (case memr_loop ab sp (unat (mo_count mo)) addr (mo_size mo) (mo_force mo) of
           Inl _ \<Rightarrow> (CMD_EXIT_FAILURE, m) | Inr _ \<Rightarrow> (CMD_EXIT_SUCCESS, m))
      else if mo_write mo then
        (case memw_loop ab sp (unat (mo_count mo)) addr (mo_size mo) (mo_value mo) (mo_force mo) m of
           (Inl _, m') \<Rightarrow> (CMD_EXIT_FAILURE, m') | (Inr _, m') \<Rightarrow> (CMD_EXIT_SUCCESS, m'))
      else (CMD_EXIT_SUCCESS, m))"

definition cmd_memMain :: "attr_bits \<Rightarrow> mem run" where
  "cmd_memMain ab argv s =
     (case mem_args argv mem_defaults (plo_opt s) of
        None \<Rightarrow> None
      | Some (Inl _, st) \<Rightarrow> Some (CMD_EXIT_FAILURE, s\<lparr>plo_opt := st\<rparr>)
      | Some (Inr mo, st) \<Rightarrow>
          (let s1 = s\<lparr>plo_opt := st\<rparr> in
           if \<not> mem_accepts argv st mo then Some (CMD_EXIT_FAILURE, s1)
           else
             let a = argv ! nat (optind st); (addr, rest) = lib_strtoul a 0 in
             if rest = a \<or> chr0 rest \<noteq> NUL then Some (CMD_EXIT_FAILURE, s1)
             else case mem_run ab (plo_sp s) mo addr (plo_w s) of (r, m) \<Rightarrow> Some (r, s1\<lparr>plo_w := m\<rparr>)))"

section \<open>Stores\<close>

lemma length_le_bytes [simp]: "length (le_bytes n v) = n"
  by (induction n arbitrary: v) auto

lemma nth_le_bytes: "i < n \<Longrightarrow> le_bytes n v ! i = ucast (drop_bit (8 * i) v)"
proof (induction n arbitrary: i v)
  case (Suc n)
  then show ?case by (cases i) (simp_all add: add.commute)
qed simp

definition writable :: "attr_bits \<Rightarrow> syspage_t \<Rightarrow> addr_t \<Rightarrow> bool" where
  "writable ab sp a \<longleftrightarrow> (\<exists>mp \<in> set (sp_maps sp). m_start mp \<le> a \<and> a < m_end mp \<and> m_attr mp AND mAttrWrite ab = mAttrWrite ab)"

lemma range_validator_writable:
  assumes "range_validator ab sp addr sz (mAttrWrite ab)" "unat addr + unat sz < 2 ^ 64" "unat (a - addr) < unat sz"
  shows "writable ab sp a"
proof -
  obtain i where i: "i < length (sp_maps sp)" "m_start (sp_maps sp ! i) \<le> addr" "addr + sz < m_end (sp_maps sp ! i)"
    "m_attr (sp_maps sp ! i) AND mAttrWrite ab = mAttrWrite ab"
    using assms(1) by (auto simp: range_validator_def syspage_mapRangeCheck_def dest!: map_index_Some split: option.splits)
  have u: "unat (addr + sz) = unat addr + unat sz" using assms(2) by (simp add: unat_plus_small)
  have "unat a = unat (addr + (a - addr))" by simp
  also have "\<dots> = unat addr + unat (a - addr)" using assms(2,3) by (intro unat_plus_small) simp
  finally have "unat a = unat addr + unat (a - addr)" .
  then have "m_start (sp_maps sp ! i) \<le> a" "a < m_end (sp_maps sp ! i)"
    using i(2,3) u assms(3) by (simp_all add: word_le_nat_alt word_less_nat_alt)
  then show ?thesis using i(1,4) by (auto simp: writable_def)
qed

lemma memw_frame:
  "memw ab sp addr sz val f m = (r, m') \<Longrightarrow> m' a \<noteq> m a \<Longrightarrow>
   unat (a - addr) < unat sz \<and> (f \<or> range_validator ab sp addr sz (mAttrWrite ab))"
  by (auto simp: memw_def mem_store_def split: if_splits)

lemma memw_loop_confined:
  "memw_loop ab sp n addr sz val False m = (r, m') \<Longrightarrow> unat addr + n * unat sz < 2 ^ 64 \<Longrightarrow> m' a \<noteq> m a \<Longrightarrow>
   writable ab sp a"
proof (induction n arbitrary: addr m)
  case (Suc n)
  obtain r1 m1 where w: "memw ab sp addr sz val False m = (r1, m1)" by fastforce
  show ?case
  proof (cases "m1 a = m a")
    case True
    have "unat (addr + sz) = unat addr + unat sz" using Suc.prems(2) by (intro unat_plus_small) simp
    then show ?thesis using Suc.IH [of "addr + sz" m1] Suc.prems w True by (auto split: sum.splits)
  next
    case False
    then show ?thesis
      using memw_frame [OF w] Suc.prems(2) by (intro range_validator_writable [of ab sp addr sz]) auto
  qed
qed simp

lemma mem_run_confined:
  assumes "mem_run ab sp mo addr m = (r, m')" "\<not> mo_force mo" "m' a \<noteq> m a"
    and "unat addr + unat (mo_count mo) * unat (mo_size mo) < 2 ^ 64"
  shows "writable ab sp a"
proof -
  let ?addr = "addr AND NOT (mo_align mo - 1)"
  have "unat ?addr \<le> unat addr" by (simp add: word_le_nat_alt [symmetric] word_and_le2)
  then have "unat ?addr + unat (mo_count mo) * unat (mo_size mo) < 2 ^ 64" using assms(4) by simp
  moreover obtain r1 where "memw_loop ab sp (unat (mo_count mo)) ?addr (mo_size mo) (mo_value mo) False m = (r1, m')"
    using assms(1-3) by (auto simp: mem_run_def Let_def split: sum.splits prod.splits if_splits)
  ultimately show ?thesis using memw_loop_confined assms(3) by blast
qed

section \<open>The option loop ends\<close>

lemma mem_args_returns: "getopt_inv argv st \<Longrightarrow> \<exists>r st'. mem_args argv mo st = Some (r, st')"
proof (induction "getopt_left argv st" arbitrary: st mo rule: less_induct)
  case less
  obtain c st' where g: "lib_getopt argv ''a:c:Fhrs:w:'' st = (c, st')" by fastforce
  show ?case
  proof (cases "\<exists>c' mo'. c = Some c' \<and> mem_opt c' (optarg st') mo = Some mo'")
    case True
    then obtain c' mo' where c: "c = Some c'" "mem_opt c' (optarg st') mo = Some mo'" by blast
    have "getopt_inv argv st'" using lib_getopt_inv [OF less.prems, of "''a:c:Fhrs:w:''"] g by simp
    then have "\<exists>r s. mem_args argv mo' st' = Some (r, s)"
      using lib_getopt_progress [OF less.prems, of "''a:c:Fhrs:w:''"] g c(1) by (intro less.hyps) auto
    then show ?thesis using g c by (simp add: mem_args.simps [of argv mo st])
  next
    case False
    then show ?thesis using g by (cases c) (auto simp: mem_args.simps [of argv mo st] split: option.splits)
  qed
qed

section \<open>What is written\<close>

lemma unat_diff_add:
  assumes "l < 2 ^ 64"
  shows "unat (x - (addr + of_nat l) :: addr_t) =
    (if l \<le> unat (x - addr) then unat (x - addr) - l else 2 ^ 64 + unat (x - addr) - l)"
proof -
  let ?d = "x - addr"
  have e: "x - (addr + of_nat l) = ?d - of_nat l" by simp
  have l: "unat (of_nat l :: addr_t) = l" using assms by (intro unat_of_nat_small) simp
  show ?thesis
  proof (cases "l \<le> unat ?d")
    case True
    then have "(of_nat l :: addr_t) \<le> ?d" using l by (simp only: word_le_nat_alt)
    then show ?thesis unfolding e using l True by (simp only: unat_minus_small if_True)
  next
    case False
    then have "unat (?d - of_nat l) = unat ?d + 2 ^ 64 - l"
      using l by (simp add: unat_sub_if')
    then show ?thesis unfolding e using False by simp
  qed
qed

lemma mem_store_append:
  assumes "length xs + length ys \<le> 2 ^ 64" "length xs < 2 ^ 64"
  shows "mem_store (mem_store m addr xs) (addr + of_nat (length xs)) ys = mem_store m addr (xs @ ys)"
proof
  fix x
  show "mem_store (mem_store m addr xs) (addr + of_nat (length xs)) ys x = mem_store m addr (xs @ ys) x"
    using assms(1) unat_less_exp [of "x - addr"]
    unfolding mem_store_def unat_diff_add [OF assms(2)] by (auto simp: nth_append)
qed

lemma memw_loop_writes:
  assumes "sz \<in> {1, 2, 4, 8}"
  shows "n * unat sz \<le> 2 ^ 64 \<Longrightarrow>
    (\<And>k. k < n \<Longrightarrow> f \<or> range_validator ab sp (addr + of_nat k * sz) sz (mAttrWrite ab)) \<Longrightarrow>
    memw_loop ab sp n addr sz val f m = (Inr (), mem_store m addr (concat (replicate n (le_bytes (unat sz) val))))"
proof (induction n arbitrary: addr m)
  case 0
  show ?case by (simp add: mem_store_def fun_eq_iff)
next
  case (Suc n)
  let ?b = "le_bytes (unat sz) val" and ?r = "concat (replicate n (le_bytes (unat sz) val))"
  have l: "length ?r = n * unat sz" by (induction n) simp_all
  have sz: "unat sz < 2 ^ 64" using unat_less_exp [of sz] by simp
  have w: "memw ab sp addr sz val f m = (Inr (), mem_store m addr ?b)"
    using Suc.prems(2) [of 0] assms by (simp add: memw_def)
  have "memw_loop ab sp n (addr + sz) sz val f (mem_store m addr ?b) = (Inr (), mem_store (mem_store m addr ?b) (addr + sz) ?r)"
    using Suc.prems(1) Suc.prems(2) [of "Suc _"] by (intro Suc.IH) (auto simp: algebra_simps)
  moreover have "mem_store (mem_store m addr ?b) (addr + of_nat (length ?b)) ?r = mem_store m addr (?b @ ?r)"
    using Suc.prems(1) sz l by (intro mem_store_append) simp_all
  ultimately show ?case using w by simp
qed

section \<open>An example page\<close>

definition mem_attrs :: attr_bits where
  "mem_attrs = \<lparr>mAttrRead = 1, mAttrWrite = 2, mAttrExec = 4, mAttrShareable = 8, mAttrCacheable = 16, mAttrBufferable = 32\<rparr>"

definition mem_map :: syspage_map_t where
  "mem_map = \<lparr>m_name = ''ddr'', m_start = 0x1000, m_end = 0x2000, m_attr = 3, m_id = 0, m_entries = []\<rparr>"

definition mem_page :: syspage_t where
  "mem_page = \<lparr>sp_base = 0, sp_heapTop = 0, sp_heapEnd = 0, sp_size = 0, sp_pkernel = 0, sp_console = 0,
     sp_maps = [mem_map], sp_progs = []\<rparr>"

definition mem_plo :: "mem plo" where
  "mem_plo = \<lparr>plo_w = (\<lambda>_. 0), plo_ph = phfs_common, plo_sp = mem_page, plo_opt = lib_getoptReset, plo_aliasBase = 0, plo_entry = 0\<rparr>"

section \<open>Properties\<close>

text \<open>
  C11: The command \<open>mem\<close> returns whatever its arguments, and without the option \<open>-F\<close> it changes no byte outside the maps that
  are writable, as long as the range it is asked for does not reach the end of the address space.
\<close>

theorem mem_confined:
  assumes "list_all (\<lambda>a. NUL \<notin> set a) argv" "plo_opt s = lib_getoptReset"
  shows "\<exists>r s'. cmd_memMain ab argv s = Some (r, s') \<and>
    (\<forall>mo st addr rest a. mem_args argv mem_defaults lib_getoptReset = Some (Inr mo, st) \<longrightarrow> \<not> mo_force mo \<longrightarrow>
      lib_strtoul (argv ! nat (optind st)) 0 = (addr, rest) \<longrightarrow>
      unat addr + unat (mo_count mo) * unat (mo_size mo) < 2 ^ 64 \<longrightarrow>
      plo_w s' a \<noteq> plo_w s a \<longrightarrow> writable ab (plo_sp s) a)"
proof -
  obtain r st where m: "mem_args argv mem_defaults lib_getoptReset = Some (r, st)"
    using mem_args_returns [OF getopt_inv_reset [OF assms(1)]] by blast
  show ?thesis
  proof (cases r)
    case (Inl u)
    then show ?thesis using m assms(2) by (simp add: cmd_memMain_def)
  next
    case (Inr mo)
    obtain addr rest where a: "lib_strtoul (argv ! nat (optind st)) 0 = (addr, rest)" by fastforce
    obtain r' m' where run: "mem_run ab (plo_sp s) mo addr (plo_w s) = (r', m')" by fastforce
    obtain q s' where c: "cmd_memMain ab argv s = Some (q, s')" "plo_w s' = plo_w s \<or> plo_w s' = m'"
    proof -
      let ?s = "s\<lparr>plo_opt := st\<rparr>"
      have "cmd_memMain ab argv s = Some (CMD_EXIT_FAILURE, ?s) \<or> cmd_memMain ab argv s = Some (r', ?s\<lparr>plo_w := m'\<rparr>)"
        using m Inr a run assms(2) by (simp add: cmd_memMain_def Let_def)
      then show ?thesis by (elim disjE) (rule that, assumption, simp)+
    qed
    then show ?thesis
      using mem_run_confined [OF run] m Inr a by (intro exI [of _ q] exI [of _ s']) auto
  qed
qed

definition mem_argv :: "string list" where
  "mem_argv = [''mem'', ''-w'', ''5'', ''0x1000'']"

lemma mem_argv_args:
  "mem_args mem_argv mem_defaults lib_getoptReset =
     Some (Inr (mem_defaults\<lparr>mo_value := 5, mo_write := True\<rparr>), lib_getoptReset\<lparr>optarg := Some ''5'', optind := 3\<rparr>)"
proof -
  let ?st = "lib_getoptReset\<lparr>optarg := Some ''5'', optind := 3\<rparr>"
  have g: "lib_getopt mem_argv ''a:c:Fhrs:w:'' lib_getoptReset = (Some CHR ''w'', ?st)"
    "lib_getopt mem_argv ''a:c:Fhrs:w:'' ?st = (None, ?st)"
    "mem_opt CHR ''w'' (Some ''5'') mem_defaults = Some (mem_defaults\<lparr>mo_value := 5, mo_write := True\<rparr>)"
    by code_simp+
  show ?thesis by (subst mem_args.simps, subst mem_args.simps) (simp add: g)
qed

theorem mem_confined_witness:
  "\<exists>r s'. cmd_memMain mem_attrs mem_argv mem_plo = Some (r, s') \<and> (\<forall>a. plo_w s' a \<noteq> 0 \<longrightarrow> writable mem_attrs mem_page a)"
proof -
  have "lib_strtoul (mem_argv ! 3) 0 = (0x1000, [])" by code_simp
  moreover have "list_all (\<lambda>a. NUL \<notin> set a) mem_argv" by (simp add: NUL_def mem_argv_def)
  ultimately show ?thesis
    using mem_confined [of mem_argv mem_plo mem_attrs] mem_argv_args by (simp add: mem_plo_def mem_defaults_def lib_getoptReset_def) 
qed

text \<open>
  A write of \<open>mem\<close> over a range of addresses that are all accepted stores the low bytes of the value, least significant
  first, \<open>count\<close> times in a row from the aligned address, and changes nothing else.
\<close>

theorem mem_writes_values:
  assumes "mo_write mo" "\<not> mo_read mo" "mo_size mo \<in> {1, 2, 4, 8}" "unat (mo_count mo) * unat (mo_size mo) \<le> 2 ^ 64"
    and "\<And>k. k < unat (mo_count mo) \<Longrightarrow> mo_force mo \<or>
      range_validator ab sp ((addr AND NOT (mo_align mo - 1)) + of_nat k * mo_size mo) (mo_size mo) (mAttrWrite ab)"
  shows "mem_run ab sp mo addr m =
    (CMD_EXIT_SUCCESS, mem_store m (addr AND NOT (mo_align mo - 1))
      (concat (replicate (unat (mo_count mo)) (le_bytes (unat (mo_size mo)) (mo_value mo)))))"
  using memw_loop_writes [OF assms(3-5)] assms(1,2) by (simp add: mem_run_def Let_def)

theorem mem_writes_values_witness:
  "mem_run mem_attrs mem_page (mem_defaults\<lparr>mo_write := True, mo_count := 2, mo_size := 2, mo_value := 0x1234\<rparr>) 0x1003 (\<lambda>_. 0) =
    (CMD_EXIT_SUCCESS, mem_store (\<lambda>_. 0) 0x1000 [0x34, 0x12, 0x34, 0x12])"
proof -
  let ?mo = "mem_defaults\<lparr>mo_write := True, mo_count := 2, mo_size := 2, mo_value := 0x1234\<rparr>"
  have a: "(0x1003 :: addr_t) AND NOT (mo_align ?mo - 1) = 0x1000" by (simp add: mem_defaults_def)
  have v: "range_validator mem_attrs mem_page (0x1000 + of_nat k * 2) 2 (mAttrWrite mem_attrs)" if "k < 2" for k
    using that unfolding numeral_2_eq_2 less_Suc_eq
    by (auto simp: range_validator_def syspage_mapRangeCheck_def mem_page_def mem_map_def mem_attrs_def)
  have "mem_run mem_attrs mem_page ?mo 0x1003 (\<lambda>_. 0) = (CMD_EXIT_SUCCESS, mem_store (\<lambda>_. 0) 0x1000
      (concat (replicate (unat (mo_count ?mo)) (le_bytes (unat (mo_size ?mo)) (mo_value ?mo)))))"
    using mem_writes_values [of ?mo mem_attrs mem_page "0x1003" "\<lambda>_. 0", unfolded a] v by (simp add: mem_defaults_def)
  moreover have "concat (replicate (unat (mo_count ?mo)) (le_bytes (unat (mo_size ?mo)) (mo_value ?mo))) = [0x34, 0x12, 0x34, 0x12]"
    by code_simp
  ultimately show ?thesis by (simp only:)
qed

text \<open>
  The check of a range is wrong at both ends. With a single map, the last value of the map is refused, since the end of the range
  is compared as if it were an address of the range; and the last value of the address space is accepted though the map ends
  below it, since the end of the range wraps to zero.
\<close>

theorem mem_validator_ends:
  assumes "sp_maps sp = [mp]" "m_attr mp AND attr = attr" "0 < m_end mp" "m_start mp \<le> - sz"
  shows "\<not> range_validator ab sp (m_end mp - sz) sz attr \<and> range_validator ab sp (- sz) sz attr"
  using assms by (simp add: range_validator_def syspage_mapRangeCheck_def)

theorem mem_validator_ends_witness:
  "\<not> range_validator mem_attrs mem_page 0x1ff8 8 2 \<and> range_validator mem_attrs mem_page (-8) 8 2"
proof -
  have "sp_maps mem_page = [mem_map]" by (simp add: mem_page_def)
  from mem_validator_ends [OF this, of 2 8 mem_attrs] show ?thesis by (simp add: mem_map_def)
qed

end
