(* ===== verification/Cmd_Flash.thy ===== *)
theory Cmd_Flash
  imports Cmd_Files Ptable
begin

text \<open>
  \<open>cmds/jffs2.c\<close> and \<open>cmds/ptable.c\<close>: the commands that prepare a flash device for a file system and show its partition table. What they print is
  left out. \<open>jffs2\<close> writes a clean marker, with its checksum, to the start of each block; \<open>ptable\<close> reads the table into a
  static buffer and checks it.
\<close>

section \<open>\<open>jffs2\<close>\<close>

record jffs2_opts =
  jo_major :: u32
  jo_minor :: u32
  jo_clean :: bool
  jo_erase :: bool
  jo_startBlock :: u64
  jo_numBlocks :: u64
  jo_blockSize :: u64
  jo_markerSize :: u64

definition jffs2_defaults :: jffs2_opts where
  "jffs2_defaults = \<lparr>jo_major = -1, jo_minor = -1, jo_clean = False, jo_erase = False, jo_startBlock = -1, jo_numBlocks = -1,
     jo_blockSize = -1, jo_markerSize = -1\<rparr>"

definition JFFS2_MAGIC_BITMASK :: u16 where "JFFS2_MAGIC_BITMASK = 0x1985"
definition JFFS2_NODETYPE_CLEANMARKER :: u16 where "JFFS2_NODETYPE_CLEANMARKER = 0x2003"
definition MIN_CLEANMARKER_SIZE :: u64 where "MIN_CLEANMARKER_SIZE = 12"

text \<open>The fields of the node in the byte order of the machine, and the whole node with the checksum of its header.\<close>

definition le16_bytes :: "u16 \<Rightarrow> bytes" where
  "le16_bytes x = [ucast x, ucast (drop_bit 8 x)]"

definition cleanmarker_hdr :: "u64 \<Rightarrow> bytes" where
  "cleanmarker_hdr sz = le16_bytes JFFS2_MAGIC_BITMASK @ le16_bytes JFFS2_NODETYPE_CLEANMARKER @ le32_bytes (ucast sz)"

definition cleanmarker :: "u64 \<Rightarrow> bytes" where
  "cleanmarker sz = cleanmarker_hdr sz @ le32_bytes (lib_crc32 (cleanmarker_hdr sz) (12 - 4) 0)"

text \<open>A number that a separator follows; \<open>None\<close> where the command complains and fails.\<close>

definition num_until :: "char \<Rightarrow> string \<Rightarrow> (u64 \<times> string) option" where
  "num_until c s = (case lib_strtoul s 0 of (v, rest) \<Rightarrow> if chr0 rest = c then Some (v, tl rest) else None)"

definition jffs2_opt :: "char \<Rightarrow> string option \<Rightarrow> jffs2_opts \<Rightarrow> jffs2_opts option" where
  "jffs2_opt c arg jo =
     (if c = CHR ''e'' then Some (jo\<lparr>jo_erase := True\<rparr>)
      else case arg of
        None \<Rightarrow> None
      | Some a \<Rightarrow>
          if c = CHR ''c'' then
            (case num_until CHR '':'' a of None \<Rightarrow> None | Some (st, r1) \<Rightarrow>
             case num_until CHR '':'' r1 of None \<Rightarrow> None | Some (n, r2) \<Rightarrow>
             case num_until CHR '':'' r2 of None \<Rightarrow> None | Some (bsz, r3) \<Rightarrow>
             case num_until NUL r3 of None \<Rightarrow> None | Some (msz, _) \<Rightarrow>
               Some (jo\<lparr>jo_clean := True, jo_startBlock := st, jo_numBlocks := n, jo_blockSize := bsz, jo_markerSize := msz\<rparr>))
          else if c = CHR ''d'' then
            (case num_until CHR ''.'' a of None \<Rightarrow> None | Some (major, r1) \<Rightarrow>
             case num_until NUL r1 of None \<Rightarrow> None | Some (minor, _) \<Rightarrow>
               Some (jo\<lparr>jo_major := ucast major, jo_minor := ucast minor\<rparr>))
          else None)"

partial_function (option) jffs2_args :: "string list \<Rightarrow> jffs2_opts \<Rightarrow> getopt_t \<Rightarrow> ((unit + jffs2_opts) \<times> getopt_t) option" where
  "jffs2_args argv jo st =
     (case lib_getopt argv ''c:d:e'' st of
        (None, st') \<Rightarrow> Some (Inr jo, st')
      | (Some c, st') \<Rightarrow>
          (case jffs2_opt c (optarg st') jo of
             None \<Rightarrow> Some (Inl (), st')
           | Some jo' \<Rightarrow> jffs2_args argv jo' st'))"

text \<open>The loop over the blocks, \<open>k\<close> of them left; errors of the device are printed only.\<close>

fun jffs2_loop :: "(addr_t \<Rightarrow> ('w, size_t) io) option \<Rightarrow> (addr_t \<Rightarrow> bytes \<Rightarrow> ('w, size_t) io) \<Rightarrow> bytes \<Rightarrow> u64 \<Rightarrow> u64 \<Rightarrow> nat \<Rightarrow> u64 \<Rightarrow> ('w, unit) io" where
  "jffs2_loop er wr mark start bsz 0 i = io_return ()"
| "jffs2_loop er wr mark start bsz (Suc k) i =
     io_bind (case er of None \<Rightarrow> io_return (Inr 0) | Some f \<Rightarrow> io_try (f ((start + i) * bsz))) (\<lambda>_.
     io_bind (io_try (wr ((start + i) * bsz) mark)) (\<lambda>_.
     jffs2_loop er wr mark start bsz k (i + 1)))"

definition cmd_jffs2 :: "'w env \<Rightarrow> 'w run" where
  "cmd_jffs2 env argv s =
     (case jffs2_args argv jffs2_defaults (plo_opt s) of
        None \<Rightarrow> None
      | Some (Inl _, st) \<Rightarrow> Some (CMD_EXIT_FAILURE, s\<lparr>plo_opt := st\<rparr>)
      | Some (Inr jo, st) \<Rightarrow>
          (let s1 = s\<lparr>plo_opt := st\<rparr>; devs = env_devs env; major = unat (jo_major jo); minor = unat (jo_minor jo) in
           if jo_major jo = -1 then Some (CMD_EXIT_FAILURE, s1)
           else if \<not> jo_clean jo then Some (CMD_EXIT_FAILURE, s1)
           else if jo_markerSize jo < MIN_CLEANMARKER_SIZE then Some (CMD_EXIT_FAILURE, s1)
           else case devs_check devs major minor of
               Inl _ \<Rightarrow> Some (CMD_EXIT_FAILURE, s1)
             | Inr _ \<Rightarrow>
                 exit_status (lift_io (jffs2_loop
                   (if jo_erase jo then Some (\<lambda>a. devs_erase devs major minor a (jo_blockSize jo) 0) else None)
                   (devs_write devs major minor) (cleanmarker (jo_markerSize jo)) (jo_startBlock jo) (jo_blockSize jo)
                   (unat (jo_numBlocks jo)) 0)) s1))"

declare jffs2_args.simps [code]

section \<open>\<open>ptable\<close>\<close>

record ptable_common_t =
  pt_buf :: bytes
  pt_memsz :: size_t
  pt_blksz :: size_t

definition PTABLE_BUFSZ :: nat where
  "PTABLE_BUFSZ = 1024 * PTABLE_HDRSZ"

definition DEV_CONTROL_GETPROP_TOTALSZ :: nat where "DEV_CONTROL_GETPROP_TOTALSZ = 3"
definition DEV_CONTROL_GETPROP_BLOCKSZ :: nat where "DEV_CONTROL_GETPROP_BLOCKSZ = 4"

text \<open>
  \<open>partRead\<close>: its result and the buffer it leaves. A read may deliver less than asked for; \<open>junk\<close> is what the local variable
  for the count held before. A negative result is an error; \<open>ERAW (-1)\<close> stands for the plain -1.
\<close>

definition partRead :: "'w env \<Rightarrow> phfs_t \<Rightarrow> bytes \<Rightarrow> handler_t \<Rightarrow> addr_t \<Rightarrow> ptable_common_t \<Rightarrow> ('w, (errno + u32) \<times> bytes) io" where
  "partRead env ph junk h offs pc =
     io_bind (io_try (phfs_read (env_stk env) (env_devs env) ph h offs 4)) (\<lambda>res.
     case res of
       Inl e \<Rightarrow> io_return (Inl e, pt_buf pc)
     | Inr cnt \<Rightarrow>
         (let partCount = le32_of (memcpy_to junk 0 cnt) in
          if partCount = 0 then io_return (Inr 0, pt_buf pc)
          else if unat (ptable_size partCount) > PTABLE_BUFSZ then io_return (Inl (ERAW (-1)), pt_buf pc)
          else
            io_bind (io_try (phfs_read (env_stk env) (env_devs env) ph h offs (ucast (ptable_size partCount)))) (\<lambda>res.
            case res of
              Inl e \<Rightarrow> io_return (Inl e, pt_buf pc)
            | Inr bs \<Rightarrow>
                (case ptable_deserialize (memcpy_to (pt_buf pc) 0 bs) (ucast (pt_memsz pc)) (ucast (pt_blksz pc)) of
                   (ok, buf) \<Rightarrow> io_return (if ok then Inr partCount else Inl (ERAW (-1)), buf)))))"

definition cmd_ptable :: "'w env \<Rightarrow> bytes \<Rightarrow> ptable_common_t \<Rightarrow> string list \<Rightarrow> 'w plo \<Rightarrow> ((int \<times> ptable_common_t) \<times> 'w plo) option" where
  "cmd_ptable env junk pc argv s =
     (if length argv \<noteq> 2 \<and> length argv \<noteq> 3 then Some ((- errno_code EINVAL, pc), s)
      else case (if length argv = 3 then parse_num (argv ! 2) else Inr 0) of
          Inl _ \<Rightarrow> Some ((- errno_code EINVAL, pc), s)
        | Inr offs0 \<Rightarrow>
            (case phfs_devGet (plo_ph s) (argv ! 1) of
               Inl _ \<Rightarrow> Some ((CMD_EXIT_FAILURE, pc), s)
             | Inr (major, minor, prot) \<Rightarrow>
                 if prot \<noteq> phfs_prot_raw then Some ((CMD_EXIT_FAILURE, pc), s)
                 else case devs_control (env_devs env) major minor DEV_CONTROL_GETPROP_TOTALSZ (pt_memsz pc) (plo_w s) of
                     None \<Rightarrow> None
                   | Some (Inl _, w1) \<Rightarrow> Some ((CMD_EXIT_FAILURE, pc), s\<lparr>plo_w := w1\<rparr>)
                   | Some (Inr memsz, w1) \<Rightarrow>
                       (case devs_control (env_devs env) major minor DEV_CONTROL_GETPROP_BLOCKSZ (pt_blksz pc) w1 of
                          None \<Rightarrow> None
                        | Some (Inl _, w2) \<Rightarrow> Some ((CMD_EXIT_FAILURE, pc\<lparr>pt_memsz := memsz\<rparr>), s\<lparr>plo_w := w2\<rparr>)
                        | Some (Inr blksz, w2) \<Rightarrow>
                            (let pc1 = pc\<lparr>pt_memsz := memsz, pt_blksz := blksz\<rparr>; s2 = s\<lparr>plo_w := w2\<rparr>;
                                 offs = (if length argv = 3 then offs0 else memsz - blksz)
                             in case open_file env (argv ! 1) None PHFS_OPEN_RAWONLY s2 of
                                  None \<Rightarrow> None
                                | Some (Inl _, s3) \<Rightarrow> Some ((CMD_EXIT_FAILURE, pc1), s3)
                                | Some (Inr h, s3) \<Rightarrow>
                                    (case closing env h (\<lambda>s. lift_io (partRead env (plo_ph s) junk h offs pc1) s) s3 of
                                       None \<Rightarrow> None
                                     | Some (Inl _, s4) \<Rightarrow> Some ((CMD_EXIT_FAILURE, pc1), s4)
                                     | Some (Inr (res, buf), s4) \<Rightarrow>
                                         Some ((case res of
                                                  Inl _ \<Rightarrow> CMD_EXIT_FAILURE
                                                | Inr n \<Rightarrow> if sint n \<le> 0 then CMD_EXIT_FAILURE else CMD_EXIT_SUCCESS,
                                                pc1\<lparr>pt_buf := buf\<rparr>), s4))))))"

section \<open>What the markers do to a device\<close>

lemma length_cleanmarker [simp]: "length (cleanmarker sz) = 12"
  by (simp add: cleanmarker_def cleanmarker_hdr_def le16_bytes_def)

text \<open>A byte at position \<open>j\<close> is part of a marker of one of the \<open>n\<close> blocks from \<open>start\<close> on.\<close>

definition in_marker :: "nat \<Rightarrow> nat \<Rightarrow> nat \<Rightarrow> nat \<Rightarrow> bool" where
  "in_marker start bsz n j \<longleftrightarrow> (\<exists>i<n. (start + i) * bsz \<le> j \<and> j < (start + i) * bsz + 12)"

definition marked :: "nat \<Rightarrow> nat \<Rightarrow> nat \<Rightarrow> bytes \<Rightarrow> bytes \<Rightarrow> bytes \<Rightarrow> bool" where
  "marked start bsz n mark c c' \<longleftrightarrow> length c' = length c \<and>
     (\<forall>i<n. memcpy_from c' ((start + i) * bsz) 12 = mark) \<and> (\<forall>j<length c. \<not> in_marker start bsz n j \<longrightarrow> c' ! j = c ! j)"

lemma marked_0: "marked start bsz 0 mark c c"
  by (simp add: marked_def)

lemma marked_Suc:
  assumes "marked (Suc start) bsz n mark (memcpy_to c (start * bsz) mark) c'" "length mark = 12" "12 \<le> bsz" "start * bsz + 12 \<le> length c"
  shows "marked start bsz (Suc n) mark c c'"
proof -
  let ?c = "memcpy_to c (start * bsz) mark"
  have len: "length ?c = length c" "length c' = length c" using assms by (simp_all add: marked_def)
  have out: "\<not> in_marker (Suc start) bsz n j" if "j < (start + 1) * bsz" for j
    using that by (auto simp: in_marker_def algebra_simps)
  have first: "memcpy_from c' (start * bsz) 12 = mark"
  proof (rule nth_equalityI)
    fix j assume "j < length (memcpy_from c' (start * bsz) 12)"
    then have j: "j < 12" using assms(4) len by simp
    have "c' ! (start * bsz + j) = ?c ! (start * bsz + j)"
      using assms(1,3,4) out [of "start * bsz + j"] j len by (auto simp: marked_def algebra_simps)
    also have "\<dots> = mark ! j" using assms(2,4) j by (simp add: nth_memcpy_to)
    finally show "memcpy_from c' (start * bsz) 12 ! j = mark ! j" using assms(4) len j by simp
  qed (use assms(2,4) len in simp)
  have "memcpy_from c' ((start + i) * bsz) 12 = mark" if "i < Suc n" for i
    using that first assms(1) by (cases i) (auto simp: marked_def)
  moreover have "c' ! j = c ! j" if "j < length c" "\<not> in_marker start bsz (Suc n) j" for j
  proof -
    have "\<not> in_marker (Suc start) bsz n j" using that(2) unfolding in_marker_def by (metis Suc_less_eq add_Suc add_Suc_right)
    then have "c' ! j = ?c ! j" using assms(1) that(1) len by (simp add: marked_def)
    moreover have "\<not> (start * bsz \<le> j \<and> j < start * bsz + 12)" using that(2) unfolding in_marker_def by (metis add_0_right zero_less_Suc)
    ultimately show ?thesis using assms(2,4) that(1) by (subst (asm) nth_memcpy_to) auto
  qed
  ultimately show ?thesis using len by (simp add: marked_def)
qed

context storage
begin

lemma jffs2_loop_marks:
  assumes "sinv w" "length mark = 12" "12 \<le> unat bsz" "(unat start + unat i + k) * unat bsz \<le> length (content w)"
    "unat start + unat i + k < 2 ^ 64"
  shows "\<exists>w'. jffs2_loop None wr mark start bsz k i w = Some (Inr (), w') \<and> sinv w' \<and>
    marked (unat start + unat i) (unat bsz) k mark (content w) (content w')"
  using assms
proof (induction k arbitrary: i w)
  case 0
  then show ?case by (simp add: io_return_def marked_0)
next
  case (Suc k)
  let ?n = "unat start + unat i" and ?b = "unat bsz"
  have sum: "unat (start + i) = ?n" using Suc.prems(5) by (intro unat_plus_small) simp
  have "(?n + 1) * ?b \<le> (?n + Suc k) * ?b" by (intro mult_right_mono) simp_all
  then have fit: "?n * ?b + ?b \<le> length (content w)" using Suc.prems(4) by (simp add: algebra_simps)
  then have "?n * ?b < 2 ^ 64" using content_size [OF Suc.prems(1)] by simp
  then have off: "unat ((start + i) * bsz) = ?n * ?b" using sum by (simp add: unat_word_ariths)
  obtain w1 where w1: "wr ((start + i) * bsz) mark w = Some (Inr (of_nat (length mark)), w1)" "sinv w1"
      "content w1 = memcpy_to (content w) (?n * ?b) mark"
    using wr_in [OF Suc.prems(1), of "(start + i) * bsz" mark] off fit Suc.prems(2,3) by auto
  have i1: "unat (i + 1) = unat i + 1" using Suc.prems(5) by (simp add: unat_plus_small)
  have l1: "length (content w1) = length (content w)" using w1(3) fit Suc.prems(2,3) by simp
  have "\<exists>w'. jffs2_loop None wr mark start bsz k (i + 1) w1 = Some (Inr (), w') \<and> sinv w' \<and>
      marked (unat start + unat (i + 1)) ?b k mark (content w1) (content w')"
    using Suc.prems w1(2) l1 i1 by (intro Suc.IH) simp_all
  then obtain w' where "jffs2_loop None wr mark start bsz k (i + 1) w1 = Some (Inr (), w')" "sinv w'"
      "marked (Suc ?n) ?b k mark (memcpy_to (content w) (?n * ?b) mark) (content w')"
    using i1 w1(3) by auto
  then show ?case
    using marked_Suc [of ?n ?b k mark "content w" "content w'"] fit Suc.prems(2,3) w1(1)
    by (auto simp: io_bind_def io_try_def io_return_def)
qed

end

section \<open>The option loop\<close>

lemma jffs2_args_returns: "getopt_inv argv st \<Longrightarrow> \<exists>r st'. jffs2_args argv jo st = Some (r, st')"
proof (induction "getopt_left argv st" arbitrary: st jo rule: less_induct)
  case less
  obtain c st' where g: "lib_getopt argv ''c:d:e'' st = (c, st')" by fastforce
  show ?case
  proof (cases "\<exists>c' jo'. c = Some c' \<and> jffs2_opt c' (optarg st') jo = Some jo'")
    case True
    then obtain c' jo' where c: "c = Some c'" "jffs2_opt c' (optarg st') jo = Some jo'" by blast
    have "getopt_inv argv st'" using lib_getopt_inv [OF less.prems, of "''c:d:e''"] g by simp
    then have "\<exists>r s. jffs2_args argv jo' st' = Some (r, s)"
      using lib_getopt_progress [OF less.prems, of "''c:d:e''"] g c(1) by (intro less.hyps) auto
    then show ?thesis using g c by (simp add: jffs2_args.simps [of argv jo st])
  next
    case False
    then show ?thesis using g by (cases c) (auto simp: jffs2_args.simps [of argv jo st] split: option.splits)
  qed
qed

section \<open>Properties\<close>

lemma ram_check: "devs_check (ram_devs p) DEV_RAM 0 = Inr ()"
  by (simp add: devs_check_def devs_get_def ram_devs_def ramdrv_reg_def devs_register_def register_loop_free DEV_RAM_def RAM_NO_def SIZE_MAJOR_def
      SIZE_MINOR_def)

text \<open>
  C27: The command \<open>jffs2\<close>, called without -e for blocks of at least 12 bytes inside a RAM storage device and with a marker size of at least 12, succeeds; afterwards each of the blocks starts with a clean marker,
  whose checksum is that of its header, and all other bytes of the device are as before.
\<close>

theorem jffs2_marks_blocks:
  assumes "jffs2_args argv jffs2_defaults (plo_opt s) = Some (Inr jo, st)" "env_devs env = ram_devs p"
    "jo_major jo = of_nat DEV_RAM" "jo_minor jo = 0" "jo_clean jo" "\<not> jo_erase jo" "12 \<le> jo_markerSize jo" "12 \<le> unat (jo_blockSize jo)"
    "(unat (jo_startBlock jo) + unat (jo_numBlocks jo)) * unat (jo_blockSize jo) \<le> unat (ram_size p)"
  defines "mark \<equiv> cleanmarker (jo_markerSize jo)"
  shows "\<exists>m. cmd_jffs2 env argv s = Some (CMD_EXIT_SUCCESS, s\<lparr>plo_opt := st, plo_w := m\<rparr>) \<and>
    (\<forall>i<unat (jo_numBlocks jo). memcpy_from (ram_content p m) ((unat (jo_startBlock jo) + i) * unat (jo_blockSize jo)) 12 = mark) \<and>
    (\<forall>j<unat (ram_size p). \<not> in_marker (unat (jo_startBlock jo)) (unat (jo_blockSize jo)) (unat (jo_numBlocks jo)) j \<longrightarrow>
       ram_content p m ! j = ram_content p (plo_w s) ! j) \<and>
    le32_of (drop 8 mark) = lib_crc32 (take 8 mark) 8 0"
proof -
  let ?st = "unat (jo_startBlock jo)" and ?n = "unat (jo_numBlocks jo)" and ?b = "unat (jo_blockSize jo)"
  have b: "?st + ?n \<le> (?st + ?n) * ?b" using assms(8) by simp
  moreover have "unat (ram_size p) < 2 ^ 64" using unat_less_exp [of "ram_size p"] by simp
  ultimately have "?st + ?n < 2 ^ 64" using assms(9) by linarith
  then obtain m where m: "jffs2_loop None (devs_write (ram_devs p) DEV_RAM 0) mark (jo_startBlock jo) (jo_blockSize jo) ?n 0 (plo_w s) = Some (Inr (), m)"
      "marked ?st ?b ?n mark (ram_content p (plo_w s)) (ram_content p m)"
    using ram.jffs2_loop_marks [of mark "jo_blockSize jo" "jo_startBlock jo" 0 ?n p "plo_w s"] assms(8,9) by (auto simp: mark_def)
  have maj: "unat (of_nat DEV_RAM :: u32) = DEV_RAM" "of_nat DEV_RAM \<noteq> (-1 :: u32)" by (simp_all add: DEV_RAM_def)
  have msz: "\<not> jo_markerSize jo < 12" using assms(7) by (simp add: not_less)
  have "cmd_jffs2 env argv s = Some (CMD_EXIT_SUCCESS, s\<lparr>plo_opt := st, plo_w := m\<rparr>)"
    using assms(1-6) msz m(1) maj ram_check [of p]
    by (simp add: cmd_jffs2_def Let_def MIN_CLEANMARKER_SIZE_def exit_status_def lift_io_def mark_def)
  moreover have "drop 8 mark = le32_bytes (lib_crc32 (cleanmarker_hdr (jo_markerSize jo)) 8 0)" "take 8 mark = cleanmarker_hdr (jo_markerSize jo)"
    by (simp_all add: mark_def cleanmarker_def cleanmarker_hdr_def le16_bytes_def le32_bytes_def)
  ultimately show ?thesis using m(2) by (auto simp: marked_def)
qed

definition jffs2_argv :: "string list" where
  "jffs2_argv = [''jffs2'', ''-d'', ''4.0'', ''-c'', ''0:2:16:12'']"

lemma jffs2_argv_args:
  "jffs2_args jffs2_argv jffs2_defaults lib_getoptReset =
     Some (Inr (jffs2_defaults\<lparr>jo_major := 4, jo_minor := 0, jo_clean := True, jo_startBlock := 0, jo_numBlocks := 2, jo_blockSize := 16,
       jo_markerSize := 12\<rparr>), lib_getoptReset\<lparr>optarg := Some ''0:2:16:12'', optind := 5\<rparr>)"
proof -
  let ?s1 = "lib_getoptReset\<lparr>optarg := Some ''4.0'', optind := 3\<rparr>" and ?s2 = "lib_getoptReset\<lparr>optarg := Some ''0:2:16:12'', optind := 5\<rparr>"
    and ?j1 = "jffs2_defaults\<lparr>jo_major := 4, jo_minor := 0\<rparr>"
  have g: "lib_getopt jffs2_argv ''c:d:e'' lib_getoptReset = (Some CHR ''d'', ?s1)" "lib_getopt jffs2_argv ''c:d:e'' ?s1 = (Some CHR ''c'', ?s2)"
    "lib_getopt jffs2_argv ''c:d:e'' ?s2 = (None, ?s2)" "jffs2_opt CHR ''d'' (Some ''4.0'') jffs2_defaults = Some ?j1"
    "jffs2_opt CHR ''c'' (Some ''0:2:16:12'') ?j1 =
       Some (?j1\<lparr>jo_clean := True, jo_startBlock := 0, jo_numBlocks := 2, jo_blockSize := 16, jo_markerSize := 12\<rparr>)"
    by code_simp+
  show ?thesis by (subst jffs2_args.simps, subst jffs2_args.simps, subst jffs2_args.simps) (simp add: g)
qed

theorem jffs2_marks_blocks_witness:
  "\<exists>s'. cmd_jffs2 env_ram jffs2_argv \<lparr>plo_w = ucast, plo_ph = phfs_common,
       plo_sp = \<lparr>sp_base = 0, sp_heapTop = 0, sp_heapEnd = 0, sp_size = 0, sp_pkernel = 0, sp_console = 0, sp_maps = [], sp_progs = []\<rparr>,
       plo_opt = lib_getoptReset, plo_aliasBase = 0, plo_entry = 0\<rparr> = Some (0, s') \<and>
     memcpy_from (ram_content ram_example (plo_w s')) 16 12 = cleanmarker 12 \<and> ram_content ram_example (plo_w s') ! 13 = 13"
proof -
  let ?s = "\<lparr>plo_w = ucast, plo_ph = phfs_common,
       plo_sp = \<lparr>sp_base = 0, sp_heapTop = 0, sp_heapEnd = 0, sp_size = 0, sp_pkernel = 0, sp_console = 0, sp_maps = [], sp_progs = []\<rparr>,
       plo_opt = lib_getoptReset, plo_aliasBase = 0, plo_entry = 0\<rparr> :: mem plo"
    and ?jo = "jffs2_defaults\<lparr>jo_major := 4, jo_minor := 0, jo_clean := True, jo_startBlock := 0, jo_numBlocks := 2, jo_blockSize := 16,
       jo_markerSize := 12\<rparr>"
  have a: "jffs2_args jffs2_argv jffs2_defaults (plo_opt ?s) = Some (Inr ?jo, lib_getoptReset\<lparr>optarg := Some ''0:2:16:12'', optind := 5\<rparr>)"
    using jffs2_argv_args by simp
  have h: "env_devs env_ram = ram_devs ram_example" "jo_major ?jo = of_nat DEV_RAM" "jo_minor ?jo = 0" "jo_clean ?jo" "\<not> jo_erase ?jo"
      "12 \<le> jo_markerSize ?jo" "12 \<le> unat (jo_blockSize ?jo)"
      "(unat (jo_startBlock ?jo) + unat (jo_numBlocks ?jo)) * unat (jo_blockSize ?jo) \<le> unat (ram_size ram_example)"
    by (simp_all add: env_ram_def jffs2_defaults_def DEV_RAM_def ram_size_def ram_example_def)
  have n: "\<not> in_marker 0 16 2 13" unfolding in_marker_def by simp presburger
  have r: "ram_content ram_example ucast ! 13 = 13" "unat (ram_size ram_example) = 32" by code_simp+
  obtain m where c: "cmd_jffs2 env_ram jffs2_argv ?s = Some (CMD_EXIT_SUCCESS, ?s\<lparr>plo_opt := lib_getoptReset\<lparr>optarg := Some ''0:2:16:12'', optind := 5\<rparr>, plo_w := m\<rparr>)"
      "\<forall>i<2. memcpy_from (ram_content ram_example m) ((0 + i) * 16) 12 = cleanmarker 12"
      "\<forall>j<32. \<not> in_marker 0 16 2 j \<longrightarrow> ram_content ram_example m ! j = ram_content ram_example ucast ! j"
    using jffs2_marks_blocks [OF a h] r(2) by auto
  then show ?thesis using c(2) [rule_format, of 1] n r(1)
    by (intro exI [of _ "?s\<lparr>plo_opt := lib_getoptReset\<lparr>optarg := Some ''0:2:16:12'', optind := 5\<rparr>, plo_w := m\<rparr>"]) (simp add: CMD_EXIT_SUCCESS_def)
qed

text \<open>
  When the command \<open>ptable\<close> succeeds, the table it shows has passed the verification for the sizes that the device reports.
\<close>

theorem ptable_success_sound:
  assumes "cmd_ptable env junk pc argv s = Some ((CMD_EXIT_SUCCESS, pc'), s')"
  shows "ptable_verify (pt_buf pc') (ucast (pt_memsz pc')) (ucast (pt_blksz pc'))"
proof -
  have pr: "ptable_verify buf (ucast (pt_memsz pc1)) (ucast (pt_blksz pc1))"
    if "partRead env ph junk h offs pc1 w = Some (Inr (Inr n, buf), w')" "0 < sint n" for ph h offs pc1 w n buf w'
    using that
    by (auto simp: partRead_def io_bind_def io_try_def io_return_def Let_def ptable_deserialize_def split: option.splits sum.splits if_splits prod.splits)
  show ?thesis using assms
    by (auto simp: cmd_ptable_def CMD_EXIT_SUCCESS_def CMD_EXIT_FAILURE_def Let_def closing_def lift_io_def io_bind_def io_try_def io_of_def
        dest!: pr split: if_splits option.splits sum.splits prod.splits)
qed

end
