(* ===== verification/Qspi.thy ===== *)
theory Qspi
  imports Prelude
begin

text \<open>
  \<open>devices/flash-zynq/qspi.c\<close>, built for ZynqMP: the Quad-SPI controller driver. The controller is reached through its registers,
  whose accesses (\<open>hw_read\<close>, \<open>hw_write\<close>) and the millisecond timer \<open>hal_timerGet\<close> are parameters; a register access may change
  the world, a loop that waits for the hardware is a partial function. The number of bytes still to send or to receive never exceeds the
  size of the transfer and is a natural number.
  A transfer returns the bytes received; the contents of the receive buffer after a failed transfer are not modelled.
  Behind the driver stand the contract of a bus (\<open>spi_bus\<close>), on which the flash driver relies, the contract of the controller hardware (\<open>qspi_ctrl\<close>), and the proof
  that the driver turns the second into the first.
\<close>

datatype qspi_reg = CR | SR | IER | IDR | IMR | ER | DR | TXD00 | RXD | SICR | TXTH | RXTH | GPIO
  | LPBK | TXD01 | TXD10 | TXD11 | LQSPI_CR | LQSPI_SR | MODID

record 'w qspi_hw =
  hw_read :: "qspi_reg \<Rightarrow> 'w \<Rightarrow> u32 \<times> 'w"
  hw_write :: "qspi_reg \<Rightarrow> u32 \<Rightarrow> 'w \<Rightarrow> 'w"
  hw_timer :: "'w \<Rightarrow> int \<times> 'w"

section \<open>The driver\<close>

text \<open>\<open>*(base + r) |= m\<close> and \<open>*(base + r) &= m\<close>: a read and a write.\<close>

definition reg_update :: "'w qspi_hw \<Rightarrow> qspi_reg \<Rightarrow> (u32 \<Rightarrow> u32) \<Rightarrow> 'w \<Rightarrow> 'w" where
  "reg_update hw r f w = (case hw_read hw r w of (v, w1) \<Rightarrow> hw_write hw r (f v) w1)"

definition qspi_rxFifoEmpty :: "'w qspi_hw \<Rightarrow> 'w \<Rightarrow> bool \<times> 'w" where
  "qspi_rxFifoEmpty hw w =
     (case hw_read hw SR w of (_, w1) \<Rightarrow> case hw_read hw SR w1 of (v, w2) \<Rightarrow> (v AND push_bit 4 1 = 0, w2))"

partial_function (option) qspi_drain :: "'w qspi_hw \<Rightarrow> 'w \<Rightarrow> 'w option" where
  "qspi_drain hw w =
     (case qspi_rxFifoEmpty hw w of (isEmpty, w1) \<Rightarrow>
        if isEmpty then Some w1 else qspi_drain hw (snd (hw_read hw RXD w1)))"

definition qspi_stop :: "'w qspi_hw \<Rightarrow> 'w \<Rightarrow> 'w option" where
  "qspi_stop hw w =
     (case qspi_drain hw w of
        None \<Rightarrow> None
      | Some w1 \<Rightarrow> Some (hw_write hw ER 0 (reg_update hw CR (\<lambda>v. v OR push_bit 10 1) w1)))"

definition qspi_start :: "'w qspi_hw \<Rightarrow> 'w \<Rightarrow> 'w" where
  "qspi_start hw w = hw_write hw ER 1 (reg_update hw CR (\<lambda>v. v AND NOT (push_bit 10 1)) (hw_write hw RXTH 1 w))"

text \<open>The bytes \<open>qspi_rxData\<close> stores for \<open>size\<close> bytes expected: fewer than four stand in the upper bytes of the word.\<close>

definition rx_bytes :: "u32 \<Rightarrow> nat \<Rightarrow> bytes" where
  "rx_bytes data sz =
     (if sz = 0 then []
      else if sz = 1 then [ucast (drop_bit 24 data)]
      else if sz = 2 then [ucast (drop_bit 16 data AND 0xff), ucast (drop_bit 24 data)]
      else if sz = 3 then [ucast (drop_bit 8 data AND 0xff), ucast (drop_bit 16 data AND 0xff), ucast (drop_bit 24 data)]
      else [ucast (data AND 0xff), ucast (drop_bit 8 data AND 0xff), ucast (drop_bit 16 data AND 0xff), ucast (drop_bit 24 data)])"

definition qspi_rxData :: "'w qspi_hw \<Rightarrow> nat \<Rightarrow> 'w \<Rightarrow> bytes \<times> nat \<times> 'w" where
  "qspi_rxData hw sz w = (case hw_read hw RXD w of (data, w1) \<Rightarrow> (rx_bytes data sz, min sz 4, w1))"

text \<open>The word written for the first \<open>n\<close> bytes of the buffer; without a buffer the dummy zeros are sent.\<close>

definition tx_word :: "bytes option \<Rightarrow> nat \<Rightarrow> u32" where
  "tx_word txBuff n =
     (let buff = (case txBuff of None \<Rightarrow> [0, 0, 0, 0] | Some b \<Rightarrow> b) in
      if n = 1 then ucast (buff ! 0)
      else if n = 2 then ucast (buff ! 0) OR push_bit 8 (ucast (buff ! 1))
      else if n = 3 then ucast (buff ! 0) OR push_bit 8 (ucast (buff ! 1)) OR push_bit 16 (ucast (buff ! 2))
      else ucast (buff ! 0) OR push_bit 8 (ucast (buff ! 1)) OR push_bit 16 (ucast (buff ! 2)) OR push_bit 24 (ucast (buff ! 3)))"

definition qspi_txData :: "'w qspi_hw \<Rightarrow> bytes option \<Rightarrow> nat \<Rightarrow> 'w \<Rightarrow> nat \<times> 'w" where
  "qspi_txData hw txBuff sz w =
     (if sz = 0 then (0, w)
      else if sz = 1 then (1, hw_write hw TXD01 (tx_word txBuff 1) w)
      else if sz = 2 then (2, hw_write hw TXD10 (tx_word txBuff 2) w)
      else if sz = 3 then (3, hw_write hw TXD11 (tx_word txBuff 3) w)
      else (4, hw_write hw TXD00 (tx_word txBuff 4) w))"

definition qspi_txFifoFull :: "'w qspi_hw \<Rightarrow> 'w \<Rightarrow> bool \<times> 'w" where
  "qspi_txFifoFull hw w = (case hw_read hw SR w of (v, w1) \<Rightarrow> (v AND push_bit 3 1 \<noteq> 0, w1))"

definition qspi_txFifoEmpty :: "'w qspi_hw \<Rightarrow> 'w \<Rightarrow> bool \<times> 'w" where
  "qspi_txFifoEmpty hw w = (case hw_read hw SR w of (v, w1) \<Rightarrow> (v AND push_bit 2 1 \<noteq> 0, w1))"

text \<open>The loops of \<open>qspi_polledTransfer\<close>: whole words while the FIFO takes them, waiting until it is empty, fetching what was received.\<close>

function qspi_fill :: "'w qspi_hw \<Rightarrow> bytes option \<Rightarrow> nat \<Rightarrow> nat \<Rightarrow> 'w \<Rightarrow> bytes option \<times> nat \<times> nat \<times> 'w" where
  "qspi_fill hw txBuff txSz rxSz w =
     (if txSz \<ge> 4 then
        (case qspi_txFifoFull hw w of (full, w1) \<Rightarrow>
           if full then (txBuff, txSz, rxSz, w1)
           else case qspi_txData hw txBuff txSz w1 of (tempSz, w2) \<Rightarrow>
             qspi_fill hw (map_option (drop tempSz) txBuff) (txSz - tempSz) (rxSz + tempSz) w2)
      else (txBuff, txSz, rxSz, w))"
  by pat_completeness auto
termination
  by (relation "measure (\<lambda>(hw, txBuff, txSz, rxSz, w). txSz)") (auto simp: qspi_txData_def split: if_splits)

declare qspi_fill.simps [simp del]

partial_function (option) qspi_waitTx :: "'w qspi_hw \<Rightarrow> int \<Rightarrow> int \<Rightarrow> 'w \<Rightarrow> ((errno + unit) \<times> 'w) option" where
  "qspi_waitTx hw start timeout w =
     (case qspi_txFifoEmpty hw w of (isEmpty, w1) \<Rightarrow>
        if isEmpty then Some (Inr (), w1)
        else case hw_timer hw w1 of (t, w2) \<Rightarrow>
          if t - start \<ge> timeout then Some (Inl ETIME, w2) else qspi_waitTx hw start timeout w2)"

function qspi_recv :: "'w qspi_hw \<Rightarrow> nat \<Rightarrow> bytes \<Rightarrow> 'w \<Rightarrow> (errno + bytes) \<times> 'w" where
  "qspi_recv hw rxSz acc w =
     (if rxSz = 0 then (Inr acc, w)
      else case qspi_rxFifoEmpty hw w of (isEmpty, w1) \<Rightarrow>
        if isEmpty then (Inl EIO, w1)
        else case qspi_rxData hw rxSz w1 of (bs, tempSz, w2) \<Rightarrow> qspi_recv hw (rxSz - tempSz) (acc @ bs) w2)"
  by pat_completeness auto
termination
  by (relation "measure (\<lambda>(hw, rxSz, acc, w). rxSz)") (auto simp: qspi_rxData_def split: prod.splits)

declare qspi_recv.simps [simp del]

text \<open>One round of the outer loop starts with nothing left to receive.\<close>

definition qspi_send :: "'w qspi_hw \<Rightarrow> bytes option \<Rightarrow> nat \<Rightarrow> 'w \<Rightarrow> bytes option \<times> nat \<times> nat \<times> 'w" where
  "qspi_send hw txBuff txSz w =
     (if txSz < 4 then (case qspi_txData hw txBuff txSz w of (tempSz, w1) \<Rightarrow> (txBuff, txSz - tempSz, tempSz, w1))
      else qspi_fill hw txBuff txSz 0 w)"

partial_function (option) qspi_transfer :: "'w qspi_hw \<Rightarrow> int \<Rightarrow> int \<Rightarrow> bytes option \<Rightarrow> nat \<Rightarrow> bytes \<Rightarrow> 'w \<Rightarrow> ((errno + bytes) \<times> 'w) option" where
  "qspi_transfer hw start timeout txBuff txSz acc w =
     (if txSz = 0 then Some (Inr acc, w)
      else case qspi_send hw txBuff txSz w of (txBuff1, txSz1, rxSz, w1) \<Rightarrow>
        (case qspi_waitTx hw start timeout (reg_update hw CR (\<lambda>v. v OR push_bit 16 1) w1) of
           None \<Rightarrow> None
         | Some (Inl e, w2) \<Rightarrow> Some (Inl e, w2)
         | Some (Inr _, w2) \<Rightarrow>
             (case qspi_recv hw rxSz acc w2 of
                (Inl e, w3) \<Rightarrow> Some (Inl e, w3)
              | (Inr acc1, w3) \<Rightarrow> qspi_transfer hw start timeout txBuff1 txSz1 acc1 w3)))"

definition qspi_polledTransfer :: "'w qspi_hw \<Rightarrow> bytes option \<Rightarrow> nat \<Rightarrow> int \<Rightarrow> ('w, bytes) io" where
  "qspi_polledTransfer hw txBuff sz timeout w =
     (case hw_timer hw w of (start, w1) \<Rightarrow> qspi_transfer hw start timeout txBuff sz [] w1)"

section \<open>Setting the controller up\<close>

text \<open>
  The pins and the clock setting come from the board configuration, the reset, clock and pin functions of the ZynqMP (\<open>_zynqmp_devReset\<close>,
  \<open>_zynqmp_setCtlClock\<close>, \<open>_zynqmp_setMIO\<close>) are parameters.
\<close>

record ctl_mio_t =
  mio_pin :: u32
  mio_l3 :: u8
  mio_l2 :: u8
  mio_l1 :: u8
  mio_l0 :: u8
  mio_config :: u8

record ctl_clock_t =
  clk_src :: u8
  clk_div0 :: u8
  clk_div1 :: u8
  clk_active :: u8

record qspi_board =
  QSPI_CS :: u32
  QSPI_IO :: "u32 list"
  QSPI_CLK :: u32
  QSPI_FCLK :: u32
  QSPI_SCLK_DIV :: "u32 option"

record 'w zynqmp =
  zy_qspiReset :: "bool \<Rightarrow> ('w, unit) io"
  zy_setQspiClock :: "ctl_clock_t \<Rightarrow> ('w, unit) io"
  zy_setMIO :: "ctl_mio_t \<Rightarrow> ('w, unit) io"

definition MIO_PULL_UP_nDOWN :: u8 where "MIO_PULL_UP_nDOWN = push_bit 4 1"
definition MIO_PULL_ENABLE :: u8 where "MIO_PULL_ENABLE = push_bit 5 1"

text \<open>\<open>pin\<close> is unsigned, so that the test \<open>pin < 0\<close> of the C code never holds.\<close>

definition qspi_setPin :: "'w zynqmp \<Rightarrow> qspi_board \<Rightarrow> u32 \<Rightarrow> ('w, unit) io" where
  "qspi_setPin zy b pin =
     (if pin < 0 then io_return ()
      else if pin > 6 then io_throw EINVAL
      else zy_setMIO zy \<lparr>mio_pin = pin, mio_l3 = 0, mio_l2 = 0, mio_l1 = 0, mio_l0 = 1,
        mio_config = (if pin = QSPI_CS b then 0 OR (MIO_PULL_UP_nDOWN OR MIO_PULL_ENABLE) else 0)\<rparr>)"

definition qspi_initCtrlClk :: "'w zynqmp \<Rightarrow> ('w, unit) io" where
  "qspi_initCtrlClk zy = zy_setQspiClock zy \<lparr>clk_src = 0, clk_div0 = 5, clk_div1 = 0, clk_active = 1\<rparr>"

definition qspi_IOMode :: "'w qspi_hw \<Rightarrow> qspi_board \<Rightarrow> 'w \<Rightarrow> 'w" where
  "qspi_IOMode hw b w =
     (let w1 = reg_update hw ER (\<lambda>v. v AND NOT 1) w;
          w2 = hw_write hw IDR 0x7d w1;
          w3 = hw_write hw CR (1 OR push_bit 31 1) w2;
          w4 = reg_update hw CR (\<lambda>v. v OR push_bit 3 (case QSPI_SCLK_DIV b of Some d \<Rightarrow> d | None \<Rightarrow> 1)) w3;
          w5 = (if sint (QSPI_FCLK b) < 0 then reg_update hw CR (\<lambda>v. v OR push_bit 3 1) w4 else w4);
          w6 = reg_update hw CR (\<lambda>v. v AND NOT (push_bit 26 1)) w5;
          w7 = reg_update hw CR (\<lambda>v. v OR push_bit 6 3) w6;
          w8 = reg_update hw CR (\<lambda>v. v AND NOT (push_bit 1 3)) w7;
          w9 = reg_update hw CR (\<lambda>v. v OR push_bit 14 3) w8;
          w10 = (if sint (QSPI_FCLK b) \<ge> 0 then hw_write hw LPBK (push_bit 5 1) (reg_update hw LPBK (\<lambda>v. v AND NOT 0x3f) w9) else w9);
          w11 = hw_write hw LQSPI_CR 0 w10
      in hw_write hw IER 0x7d w11)"

definition qspi_deinit :: "'w zynqmp \<Rightarrow> 'w qspi_hw \<Rightarrow> ('w, unit) io" where
  "qspi_deinit zy hw w = (case qspi_stop hw w of None \<Rightarrow> None | Some w1 \<Rightarrow> zy_qspiReset zy True w1)"

text \<open>The results of the pin settings are not looked at.\<close>

fun qspi_setPins :: "'w zynqmp \<Rightarrow> qspi_board \<Rightarrow> u32 list \<Rightarrow> ('w, unit) io" where
  "qspi_setPins zy b [] = io_return ()"
| "qspi_setPins zy b (pin # pins) = io_bind (io_try (qspi_setPin zy b pin)) (\<lambda>_. qspi_setPins zy b pins)"

definition qspi_init :: "'w zynqmp \<Rightarrow> 'w qspi_hw \<Rightarrow> qspi_board \<Rightarrow> ('w, unit) io" where
  "qspi_init zy hw b =
     io_bind (zy_qspiReset zy False) (\<lambda>_.
     io_bind (qspi_initCtrlClk zy) (\<lambda>_.
     io_bind (qspi_setPins zy b (QSPI_CS b # QSPI_IO b @ [QSPI_CLK b, QSPI_FCLK b])) (\<lambda>_.
     \<lambda>w. Some (Inr (), qspi_IOMode hw b w))))"

section \<open>The contract of the bus\<close>

text \<open>
  The functions of \<open>qspi.h\<close> the flash driver calls, with the timer. A slave answers every byte with a byte that depends on the bytes
  sent before in the same transaction (\<open>resp\<close>); when it is deselected, it acts on what was sent (\<open>finish\<close>).
\<close>

record 'w qspi =
  q_start :: "'w \<Rightarrow> 'w"
  q_stop :: "'w \<Rightarrow> 'w option"
  q_xfer :: "bytes option \<Rightarrow> nat \<Rightarrow> int \<Rightarrow> ('w, bytes) io"
  q_timer :: "'w \<Rightarrow> int \<times> 'w"

definition qspi_ops :: "'w qspi_hw \<Rightarrow> 'w qspi" where
  "qspi_ops hw = \<lparr>q_start = qspi_start hw, q_stop = qspi_stop hw, q_xfer = qspi_polledTransfer hw, q_timer = hw_timer hw\<rparr>"

definition outgoing :: "bytes option \<Rightarrow> nat \<Rightarrow> bytes" where
  "outgoing tx n = (case tx of None \<Rightarrow> replicate n 0 | Some b \<Rightarrow> take n b)"

definition has_bytes :: "bytes option \<Rightarrow> nat \<Rightarrow> bool" where
  "has_bytes tx n \<longleftrightarrow> (case tx of None \<Rightarrow> True | Some b \<Rightarrow> n \<le> length b)"

definition exchange :: "('c \<Rightarrow> bytes \<Rightarrow> u8) \<Rightarrow> 'c \<Rightarrow> bytes \<Rightarrow> bytes \<Rightarrow> bytes" where
  "exchange resp c sent out = map (\<lambda>i. resp c (sent @ take i out)) [0..<length out]"

locale spi_bus =
  fixes q :: "'w qspi" and ok aborted :: "'w \<Rightarrow> bool" and sel :: "'w \<Rightarrow> bytes option" and chip :: "'w \<Rightarrow> 'c" and now :: "'w \<Rightarrow> int"
    and resp :: "'c \<Rightarrow> bytes \<Rightarrow> u8" and fin :: "'c \<Rightarrow> bytes \<Rightarrow> 'c"
  assumes start_law: "ok w \<Longrightarrow> sel w = None \<Longrightarrow>
      ok (q_start q w) \<and> sel (q_start q w) = Some [] \<and> chip (q_start q w) = chip w \<and> now w \<le> now (q_start q w)"
    and xfer_law: "ok w \<Longrightarrow> sel w = Some s \<Longrightarrow> has_bytes tx n \<Longrightarrow>
      \<exists>r w'. q_xfer q tx n t w = Some (r, w') \<and> now w \<le> now w' \<and>
        (case r of
           Inl e \<Rightarrow> e = ETIME \<and> now w + t \<le> now w' \<and> aborted w'
         | Inr rx \<Rightarrow> ok w' \<and> sel w' = Some (s @ outgoing tx n) \<and> chip w' = chip w \<and> rx = exchange resp (chip w) s (outgoing tx n))"
    and stop_law: "ok w \<Longrightarrow> sel w = Some s \<Longrightarrow>
      \<exists>w'. q_stop q w = Some w' \<and> ok w' \<and> sel w' = None \<and> chip w' = fin (chip w) s \<and> now w \<le> now w'"
    and stop_aborted: "aborted w \<Longrightarrow> \<exists>w'. q_stop q w = Some w' \<and> now w \<le> now w'"
    and timer_law: "ok w \<Longrightarrow> q_timer q w = (t, w') \<Longrightarrow>
      ok w' \<and> sel w' = sel w \<and> chip w' = chip w \<and> t = now w' \<and> now w \<le> now w'"

lemma outgoing_simps [simp]:
  "has_bytes tx n \<Longrightarrow> length (outgoing tx n) = n" "outgoing tx 0 = []"
  by (auto simp: outgoing_def has_bytes_def split: option.splits)

lemma outgoing_split:
  "m \<le> n \<Longrightarrow> has_bytes tx n \<Longrightarrow> outgoing tx n = outgoing tx m @ outgoing (map_option (drop m) tx) (n - m)"
  by (auto simp: outgoing_def has_bytes_def replicate_add [symmetric] take_add [symmetric] split: option.splits)

lemma has_bytes_drop: "has_bytes tx n \<Longrightarrow> has_bytes (map_option (drop m) tx) (n - m)"
  by (auto simp: has_bytes_def split: option.splits)

lemma has_bytes_le: "has_bytes tx n \<Longrightarrow> m \<le> n \<Longrightarrow> has_bytes tx m"
  by (auto simp: has_bytes_def split: option.splits)

lemma length_exchange [simp]: "length (exchange resp c s out) = length out"
  by (simp add: exchange_def)

lemma exchange_append: "exchange resp c s (a @ b) = exchange resp c s a @ exchange resp c (s @ a) b"
proof (rule nth_equalityI)
  fix i assume "i < length (exchange resp c s (a @ b))"
  then show "exchange resp c s (a @ b) ! i = (exchange resp c s a @ exchange resp c (s @ a) b) ! i"
    by (auto simp: exchange_def nth_append)
qed simp

lemma exchange_Nil [simp]: "exchange resp c s [] = []"
  by (simp add: exchange_def)

lemma nth_exchange [simp]: "i < length out \<Longrightarrow> exchange resp c s out ! i = resp c (s @ take i out)"
  by (simp add: exchange_def)

section \<open>The contract of the controller\<close>

text \<open>
  What the registers show of the controller and its slave: the control register, whether the controller is enabled, the words in its two FIFOs, how many
  readings of the status register still show the shifting of a started transmission (\<open>v_lag\<close>), whether the status register
  was just read (\<open>v_fresh\<close>), since the bit for received data is late by one reading, and the slave with the bytes sent since it was selected.
\<close>

record 'c qview =
  v_cr :: u32
  v_en :: bool
  v_tx :: "bytes list"
  v_rx :: "bytes list"
  v_lag :: nat
  v_fresh :: bool
  v_sel :: "bytes option"
  v_chip :: 'c

definition sr_shows :: "nat \<Rightarrow> 'c qview \<Rightarrow> u32 \<Rightarrow> bool" where
  "sr_shows depth V v \<longleftrightarrow>
     (bit v 2 \<longleftrightarrow> v_tx V = [] \<and> v_lag V = 0) \<and> (bit v 3 \<longleftrightarrow> depth \<le> length (v_tx V)) \<and>
     (v_fresh V \<longrightarrow> (bit v 4 \<longrightarrow> v_rx V \<noteq> []) \<and> (v_lag V = 0 \<longrightarrow> v_rx V \<noteq> [] \<longrightarrow> bit v 4))"

fun shifted :: "('c \<Rightarrow> bytes \<Rightarrow> u8) \<Rightarrow> 'c \<Rightarrow> bytes \<Rightarrow> bytes list \<Rightarrow> bytes list" where
  "shifted resp c s [] = []"
| "shifted resp c s (x # xs) = exchange resp c s x # shifted resp c (s @ x) xs"

text \<open>Writing the control register: bit 10 raises the chip select, bit 16 starts the transmission and clears itself.\<close>

definition cr_written :: "('c \<Rightarrow> bytes \<Rightarrow> u8) \<Rightarrow> ('c \<Rightarrow> bytes \<Rightarrow> 'c) \<Rightarrow> u32 \<Rightarrow> nat \<Rightarrow> 'c qview \<Rightarrow> 'c qview" where
  "cr_written resp fin v n V =
     (let V1 = V\<lparr>v_cr := v AND NOT (push_bit 16 1), v_fresh := False\<rparr> in
      if bit v 10 then V1\<lparr>v_sel := None, v_chip := (case v_sel V of None \<Rightarrow> v_chip V | Some s \<Rightarrow> fin (v_chip V) s)\<rparr>
      else case v_sel V of
             None \<Rightarrow> V1\<lparr>v_sel := Some []\<rparr>
           | Some s \<Rightarrow>
               if bit v 16 \<and> v_en V
               then V1\<lparr>v_tx := [], v_rx := v_rx V @ shifted resp (v_chip V) s (v_tx V), v_lag := n, v_sel := Some (s @ concat (v_tx V))\<rparr>
               else V1)"

definition txd_reg :: "nat \<Rightarrow> qspi_reg" where
  "txd_reg k = (if k = 1 then TXD01 else if k = 2 then TXD10 else if k = 3 then TXD11 else TXD00)"

text \<open>
  The received word carries its bytes in the order they were received from the least to the most significant byte of the register;
  a word of fewer than four bytes stands at the most significant end, so that its first byte is byte \<open>4 - length x\<close>. A word to be
  sent stands at the least significant end.
\<close>

locale qspi_ctrl =
  fixes hw :: "'w qspi_hw" and depth :: nat and view :: "'w \<Rightarrow> 'c qview" and now :: "'w \<Rightarrow> int"
    and resp :: "'c \<Rightarrow> bytes \<Rightarrow> u8" and fin :: "'c \<Rightarrow> bytes \<Rightarrow> 'c"
  assumes depth_pos: "0 < depth"
    and read_now: "now w \<le> now (snd (hw_read hw r w))"
    and write_now: "now w \<le> now (hw_write hw r v w)"
    and read_sr: "hw_read hw SR w = (v, w') \<Longrightarrow>
      sr_shows depth (view w) v \<and> view w' = (view w)\<lparr>v_lag := v_lag (view w) - 1, v_fresh := True\<rparr>"
    and read_cr: "hw_read hw CR w = (v, w') \<Longrightarrow> v = v_cr (view w) \<and> view w' = view w"
    and read_rxd: "v_rx (view w) = x # xs \<Longrightarrow> hw_read hw RXD w = (v, w') \<Longrightarrow>
      (length x \<le> 4 \<longrightarrow> drop (4 - length x) (le32_bytes v) = x) \<and> view w' = (view w)\<lparr>v_rx := xs, v_fresh := False\<rparr>"
    and write_txd: "0 < k \<Longrightarrow> k \<le> 4 \<Longrightarrow> length (v_tx (view w)) < depth \<Longrightarrow> k = 4 \<or> v_tx (view w) = [] \<Longrightarrow>
      view (hw_write hw (txd_reg k) v w) = (view w)\<lparr>v_tx := v_tx (view w) @ [take k (le32_bytes v)], v_fresh := False\<rparr>"
    and write_cr: "v_lag (view w) = 0 \<Longrightarrow> length (v_rx (view w)) + length (v_tx (view w)) \<le> depth \<Longrightarrow>
      \<exists>n. view (hw_write hw CR v w) = cr_written resp fin v n (view w)"
    and write_er: "view (hw_write hw ER v w) = (view w)\<lparr>v_en := bit v 0, v_fresh := False\<rparr>"
    and write_rxth: "view (hw_write hw RXTH v w) = (view w)\<lparr>v_fresh := False\<rparr>"
    and read_timer: "hw_timer hw w = (t, w') \<Longrightarrow> view w' = view w \<and> t = now w' \<and> now w \<le> now w'"

lemma and_bit_0: "((v::u32) AND push_bit n 1 = 0) = (\<not> bit v n)"
  by (simp add: push_bit_eq_mult and_exp_eq_0_iff_not_bit)

lemma and_sr_bits [simp]:
  "((v::u32) AND 4 = 0) = (\<not> bit v 2)" "(v AND 8 = 0) = (\<not> bit v 3)" "(v AND 16 = 0) = (\<not> bit v 4)"
  using and_bit_0 [of v 2] and_bit_0 [of v 3] and_bit_0 [of v 4] by simp_all

lemma concat_shifted [simp]: "concat (shifted resp c s ws) = exchange resp c s (concat ws)"
  by (induction ws arbitrary: s) (simp_all add: exchange_append)

lemma length_shifted [simp]: "map length (shifted resp c s ws) = map length ws" "length (shifted resp c s ws) = length ws"
  by (induction ws arbitrary: s) simp_all

lemma rx_bytes_min: "rx_bytes v n = rx_bytes v (min n 4)"
  by (auto simp: rx_bytes_def min_def)

text \<open>The driver unpacks a received word where the controller puts its bytes.\<close>

lemma rx_bytes_upper:
  assumes "k \<le> 4"
  shows "rx_bytes v k = drop (4 - k) (le32_bytes v)"
proof -
  consider "k = 0" | "k = 1" | "k = 2" | "k = 3" | "k = 4" using assms by linarith
  then show ?thesis by cases (simp_all add: rx_bytes_def le32_bytes_def ucast_low_byte)
qed

lemma list_4: "4 \<le> length b \<Longrightarrow> \<exists>x y z u r. b = x # y # z # u # r"
  by (cases b; cases "tl b"; cases "tl (tl b)"; cases "tl (tl (tl b))") auto

lemma tx_word_bytes:
  assumes "has_bytes tx k" "0 < k" "k \<le> 4"
  shows "take k (le32_bytes (tx_word tx k)) = outgoing tx k"
proof -
  define b where "b = (case tx of None \<Rightarrow> [0, 0, 0, 0] | Some b \<Rightarrow> b)"
  have b: "outgoing tx k = take k b" "k \<le> length b" "tx_word tx k = tx_word (Some b) k"
    using assms by (auto simp: b_def outgoing_def has_bytes_def tx_word_def less_Suc_eq_le numeral_eq_Suc le_Suc_eq split: option.splits)
  have o: "\<not> bit (p::u8) (8 + n)" "\<not> bit p (16 + n)" "\<not> bit p (24 + n)" for p n
    by (auto dest: bit_imp_le_length)
  have l: "le32_bytes (ucast (p::u8) OR push_bit 8 (ucast (q'::u8)) OR push_bit 16 (ucast (r::u8)) OR push_bit 24 (ucast (s::u8))) = [p, q', r, s]" for p q' r s
    unfolding le32_bytes_def by (auto intro!: bit_word_eqI simp: bit_simps o)
  have z: "ucast (0::u8) = (0::u32)" by simp
  consider "k = 1" | "k = 2" | "k = 3" | "k = 4" using assms(2,3) by linarith
  then show ?thesis
  proof cases
    case 1
    then obtain x r where "b = x # r" using b(2) by (cases b) auto
    then show ?thesis using 1 b l [of x 0 0 0] by (simp add: tx_word_def)
  next
    case 2
    then obtain x y r where "b = x # y # r" using b(2) by (cases b; cases "tl b") auto
    then show ?thesis using 2 b l [of x y 0 0] by (simp add: tx_word_def)
  next
    case 3
    then obtain x y z r where "b = x # y # z # r" using b(2) by (cases b; cases "tl b"; cases "tl (tl b)") auto
    then show ?thesis using 3 b l [of x y z 0] by (simp add: tx_word_def)
  next
    case 4
    then obtain x y z u r where "b = x # y # z # u # r" using b(2) list_4 by metis
    then show ?thesis using 4 b l [of x y z u] by (simp add: tx_word_def)
  qed
qed

definition v_idle :: "'c qview \<Rightarrow> bool" where
  "v_idle V \<longleftrightarrow> v_tx V = [] \<and> v_rx V = [] \<and> v_lag V = 0 \<and> \<not> bit (v_cr V) 16 \<and> (bit (v_cr V) 10 \<longleftrightarrow> v_sel V = None) \<and>
     (v_sel V \<noteq> None \<longrightarrow> v_en V)"

text \<open>Words as they stand in a FIFO during one round: whole ones, or a single incomplete one.\<close>

definition sized :: "nat list \<Rightarrow> bool" where
  "sized ns \<longleftrightarrow> (\<forall>n\<in>set ns. n = 4) \<or> (\<exists>n. ns = [n] \<and> 0 < n \<and> n < 4)"

lemma sized_Cons: "sized (n # ns) \<Longrightarrow> n = min (sum_list (n # ns)) 4 \<and> 0 < n \<and> sized ns"
  by (auto simp: sized_def)

lemma set_bit_cases: "n < 32 \<Longrightarrow> bit ((v::u32) OR push_bit n 1) m \<longleftrightarrow> bit v m \<or> m = n"
  by (auto simp: bit_simps)

lemma clear_bit_cases: "bit ((v::u32) AND NOT (push_bit n 1)) m \<longleftrightarrow> bit v m \<and> m \<noteq> n"
  by (auto simp: bit_simps dest: bit_imp_le_length)

lemma clear_set_bit: "\<not> bit (v::u32) n \<Longrightarrow> (v OR push_bit n 1) AND NOT (push_bit n 1) = v"
  by (rule bit_word_eqI) (auto simp: bit_simps)

lemma clear_clear_bit: "\<not> bit (v::u32) n \<Longrightarrow> v AND NOT (push_bit n 1) = v"
  by (rule bit_word_eqI) (auto simp: bit_simps)

context qspi_ctrl
begin

lemma rxFifoEmpty_law:
  assumes "qspi_rxFifoEmpty hw w = (e, w')"
  shows "view w' = (view w)\<lparr>v_lag := v_lag (view w) - 2, v_fresh := True\<rparr>" "now w \<le> now w'"
    "\<not> e \<Longrightarrow> v_rx (view w) \<noteq> []" "v_lag (view w) = 0 \<Longrightarrow> e \<longleftrightarrow> v_rx (view w) = []"
proof -
  obtain v1 w1 where r1: "hw_read hw SR w = (v1, w1)" by fastforce
  obtain v2 where r2: "hw_read hw SR w1 = (v2, w')" "e \<longleftrightarrow> \<not> bit v2 4"
    using assms r1 by (auto simp: qspi_rxFifoEmpty_def split: prod.splits)
  note l1 = read_sr [OF r1] and l2 = read_sr [OF r2(1)]
  show "view w' = (view w)\<lparr>v_lag := v_lag (view w) - 2, v_fresh := True\<rparr>" using l1 l2 by simp
  show "now w \<le> now w'" using read_now [of w SR] read_now [of w1 SR] r1 r2(1) by simp
  show "\<not> e \<Longrightarrow> v_rx (view w) \<noteq> []" "v_lag (view w) = 0 \<Longrightarrow> e \<longleftrightarrow> v_rx (view w) = []"
    using l1 l2 r2(2) by (auto simp: sr_shows_def)
qed

lemma drain_law:
  "\<exists>w' f. qspi_drain hw w = Some w' \<and> now w \<le> now w' \<and>
    (v_lag (view w) = 0 \<longrightarrow> view w' = (view w)\<lparr>v_rx := [], v_fresh := f\<rparr>)"
proof (induction "length (v_rx (view w))" arbitrary: w rule: less_induct)
  case less
  obtain e w1 where e: "qspi_rxFifoEmpty hw w = (e, w1)" by fastforce
  note l = rxFifoEmpty_law [OF e]
  show ?case
  proof (cases e)
    case True
    then show ?thesis
      using e l by (subst qspi_drain.simps) (auto intro!: exI [of _ True])
  next
    case False
    then obtain x xs where x: "v_rx (view w) = x # xs" using l(3) by (cases "v_rx (view w)") auto
    obtain v w2 where r: "hw_read hw RXD w1 = (v, w2)" by fastforce
    have v2: "view w2 = (view w1)\<lparr>v_rx := xs, v_fresh := False\<rparr>" using read_rxd [of w1 x xs v w2] x l(1) r by simp
    moreover have "now w1 \<le> now w2" using read_now [of w1 RXD] r by simp
    ultimately obtain w' f where "qspi_drain hw w2 = Some w'" "now w2 \<le> now w'"
        "v_lag (view w2) = 0 \<longrightarrow> view w' = (view w2)\<lparr>v_rx := [], v_fresh := f\<rparr>"
      using less [of w2] x l(1) by auto
    then show ?thesis
      using e False r v2 l(1,2) \<open>now w1 \<le> now w2\<close> by (subst qspi_drain.simps) (auto intro!: exI [of _ f])
  qed
qed

lemma txData_law:
  assumes "0 < n" "has_bytes tx (min n 4)" "length (v_tx (view w)) < depth" "n \<ge> 4 \<or> v_tx (view w) = []"
  shows "\<exists>w'. qspi_txData hw tx n w = (min n 4, w') \<and> now w \<le> now w' \<and>
    view w' = (view w)\<lparr>v_tx := v_tx (view w) @ [outgoing tx (min n 4)], v_fresh := False\<rparr>"
proof -
  let ?k = "min n 4"
  have "qspi_txData hw tx n w = (?k, hw_write hw (txd_reg ?k) (tx_word tx ?k) w)"
    proof -
    consider "n = 1" | "n = 2" | "n = 3" | "n \<ge> 4" using assms(1) by linarith
    then show ?thesis by cases (simp_all add: qspi_txData_def txd_reg_def)
  qed
  moreover have "view (hw_write hw (txd_reg ?k) (tx_word tx ?k) w) =
      (view w)\<lparr>v_tx := v_tx (view w) @ [take ?k (le32_bytes (tx_word tx ?k))], v_fresh := False\<rparr>"
    using assms by (intro write_txd) auto
  moreover have "take ?k (le32_bytes (tx_word tx ?k)) = outgoing tx ?k"
    using assms(1,2) by (intro tx_word_bytes) auto
  ultimately show ?thesis using write_now by auto
qed

lemma txFifoFull_law:
  assumes "qspi_txFifoFull hw w = (full, w')"
  shows "view w' = (view w)\<lparr>v_lag := v_lag (view w) - 1, v_fresh := True\<rparr>" "now w \<le> now w'"
    "full \<longleftrightarrow> depth \<le> length (v_tx (view w))"
proof -
  obtain v where v: "hw_read hw SR w = (v, w')" "full \<longleftrightarrow> bit v 3"
    using assms by (auto simp: qspi_txFifoFull_def split: prod.splits)
  show "view w' = (view w)\<lparr>v_lag := v_lag (view w) - 1, v_fresh := True\<rparr>" "now w \<le> now w'"
    "full \<longleftrightarrow> depth \<le> length (v_tx (view w))"
    using read_sr [OF v(1)] read_now [of w SR] v by (auto simp: sr_shows_def)
qed

lemma fill_law:
  assumes "has_bytes tx n" "qspi_fill hw tx n rx w = (tx', n', rx', w')" "length (v_tx (view w)) \<le> depth" "v_lag (view w) = 0"
  shows "\<exists>m ws f. m \<le> n \<and> n' = n - m \<and> rx' = rx + m \<and> tx' = map_option (drop m) tx \<and> now w \<le> now w' \<and>
    view w' = (view w)\<lparr>v_tx := v_tx (view w) @ ws, v_fresh := f\<rparr> \<and> concat ws = outgoing tx m \<and>
    (\<forall>x\<in>set ws. length x = 4) \<and> length (v_tx (view w)) + length ws \<le> depth \<and> (4 \<le> n \<longrightarrow> v_tx (view w) = [] \<longrightarrow> 0 < m)"
    (is "?P tx n rx w tx' n' rx' w'")
  using assms
proof (induction n arbitrary: tx rx w rule: less_induct)
  case (less n)
  obtain full w1 where f: "qspi_txFifoFull hw w = (full, w1)" by fastforce
  note l = txFifoFull_law [OF f]
  have drop0: "map_option (drop 0) tx = tx" by (cases tx) simp_all
  have v: "view w = (view w)\<lparr>v_tx := v_tx (view w) @ [], v_fresh := v_fresh (view w)\<rparr>" by simp
  consider "n < 4" | "n \<ge> 4" full | "n \<ge> 4" "\<not> full" by linarith
  then show ?case
  proof cases
    case 1
    then have "tx' = tx" "n' = n" "rx' = rx" "w' = w"
      using less.prems(2) by (auto simp: qspi_fill.simps [of hw tx n])
    then show ?thesis
      using 1 v less.prems(3) drop0 by (intro exI [of _ 0] exI [of _ "[]"] exI [of _ "v_fresh (view w)"]) simp
  next
    case 2
    then have "tx' = tx" "n' = n" "rx' = rx" "w' = w1"
      using less.prems(2) f by (auto simp: qspi_fill.simps [of hw tx n])
    then show ?thesis
      using 2 l less.prems(3,4) drop0 depth_pos by (intro exI [of _ 0] exI [of _ "[]"] exI [of _ True]) auto
  next
    case 3
    have m4: "min n 4 = 4" using 3 by simp
    obtain w2 where t: "qspi_txData hw tx n w1 = (4, w2)" "now w1 \<le> now w2"
        "view w2 = (view w1)\<lparr>v_tx := v_tx (view w1) @ [outgoing tx 4], v_fresh := False\<rparr>"
      using txData_law [of n tx w1, unfolded m4] 3 less.prems(1) l has_bytes_le [of tx n 4] by auto
    have "qspi_fill hw (map_option (drop 4) tx) (n - 4) (rx + 4) w2 = (tx', n', rx', w')"
      using less.prems(2) 3 f t(1) by (subst (asm) qspi_fill.simps) simp
    then obtain m ws f where i: "m \<le> n - 4" "n' = n - 4 - m" "rx' = rx + 4 + m" "tx' = map_option (drop m) (map_option (drop 4) tx)"
        "now w2 \<le> now w'" "view w' = (view w2)\<lparr>v_tx := v_tx (view w2) @ ws, v_fresh := f\<rparr>"
        "concat ws = outgoing (map_option (drop 4) tx) m" "\<forall>x\<in>set ws. length x = 4" "length (v_tx (view w2)) + length ws \<le> depth"
      using less.IH [of "n - 4" "map_option (drop 4) tx" "rx + 4" w2] 3 l t(3) less.prems(1,4) has_bytes_drop [of tx n 4]
      by (auto simp: Suc_le_eq)
    have "outgoing tx (4 + m) = outgoing tx 4 @ outgoing (map_option (drop 4) tx) m"
      using outgoing_split [of 4 "4 + m" tx] has_bytes_le [OF less.prems(1), of "4 + m"] i(1) 3 by simp
    moreover have "length (outgoing tx 4) = 4" using has_bytes_le [OF less.prems(1)] 3 by simp
    moreover have "tx' = map_option (drop (4 + m)) tx" using i(4) by (simp add: option.map_comp comp_def add.commute)
    ultimately show ?thesis
      using i t l 3 less.prems(4) by (intro exI [of _ "4 + m"] exI [of _ "outgoing tx 4 # ws"] exI [of _ f]) auto
  qed
qed


lemma send_law:
  assumes "0 < n" "has_bytes tx n" "qspi_send hw tx n w = (tx', n', m, w')" "v_tx (view w) = []" "v_lag (view w) = 0"
  shows "\<exists>ws f. 0 < m \<and> m \<le> n \<and> n' = n - m \<and> (0 < n' \<longrightarrow> tx' = map_option (drop m) tx) \<and> now w \<le> now w' \<and>
    view w' = (view w)\<lparr>v_tx := ws, v_fresh := f\<rparr> \<and> concat ws = outgoing tx m \<and> sized (map length ws) \<and> length ws \<le> depth"
proof (cases "n < 4")
  case True
  then have "min n 4 = n" by simp
  then obtain w1 where "qspi_txData hw tx n w = (n, w1)" "now w \<le> now w1"
      "view w1 = (view w)\<lparr>v_tx := v_tx (view w) @ [outgoing tx n], v_fresh := False\<rparr>"
    using txData_law [of n tx w] assms depth_pos by auto
  then show ?thesis
    using True assms depth_pos
    by (intro exI [of _ "[outgoing tx n]"] exI [of _ False]) (auto simp: qspi_send_def sized_def)
next
  case False
  then have "qspi_fill hw tx n 0 w = (tx', n', m, w')" using assms(3) by (simp add: qspi_send_def)
  then obtain ws f where "m \<le> n" "n' = n - m" "tx' = map_option (drop m) tx" "now w \<le> now w'"
      "view w' = (view w)\<lparr>v_tx := ws, v_fresh := f\<rparr>" "concat ws = outgoing tx m" "\<forall>x\<in>set ws. length x = 4" "length ws \<le> depth" "0 < m"
    using fill_law [OF assms(2), of 0 w tx' n' m w'] assms(4,5) False by auto
  then show ?thesis by (intro exI [of _ ws] exI [of _ f]) (simp add: sized_def)
qed

lemma go_law:
  assumes "v_sel (view w) = Some s" "v_en (view w)" "\<not> bit (v_cr (view w)) 10" "\<not> bit (v_cr (view w)) 16" "v_lag (view w) = 0"
    "v_rx (view w) = []" "length (v_tx (view w)) \<le> depth"
  shows "\<exists>l. view (reg_update hw CR (\<lambda>v. v OR push_bit 16 1) w) = (view w)\<lparr>v_tx := [], v_rx := shifted resp (v_chip (view w)) s (v_tx (view w)),
      v_lag := l, v_fresh := False, v_sel := Some (s @ concat (v_tx (view w)))\<rparr>"
    "now w \<le> now (reg_update hw CR (\<lambda>v. v OR push_bit 16 1) w)"
proof -
  obtain v w1 where r: "hw_read hw CR w = (v, w1)" by fastforce
  have v: "v = v_cr (view w)" "view w1 = view w" using read_cr [OF r] by simp_all
  obtain n where n: "view (hw_write hw CR (v OR push_bit 16 1) w1) = cr_written resp fin (v OR push_bit 16 1) n (view w1)"
    using write_cr [of w1 "v OR push_bit 16 1"] v assms by auto
  have "(v OR push_bit 16 1) AND NOT (push_bit 16 1) = v"
    using assms(4) v(1) by (intro clear_set_bit) simp
  moreover have "bit (v OR push_bit 16 1) 16" "\<not> bit (v OR push_bit 16 1) 10"
    using assms(3) v(1) set_bit_cases [of 16 v] by simp_all
  ultimately have "cr_written resp fin (v OR push_bit 16 1) n (view w) =
      (view w)\<lparr>v_tx := [], v_rx := shifted resp (v_chip (view w)) s (v_tx (view w)), v_lag := n, v_fresh := False,
        v_sel := Some (s @ concat (v_tx (view w)))\<rparr>"
    using assms(1,2,6) v(1) by (simp add: cr_written_def Let_def del: push_bit_numeral push_bit_of_1)
  then show "\<exists>l. view (reg_update hw CR (\<lambda>v. v OR push_bit 16 1) w) = (view w)\<lparr>v_tx := [],
      v_rx := shifted resp (v_chip (view w)) s (v_tx (view w)), v_lag := l, v_fresh := False, v_sel := Some (s @ concat (v_tx (view w)))\<rparr>"
    using n r v(2) by (auto simp: reg_update_def)
  show "now w \<le> now (reg_update hw CR (\<lambda>v. v OR push_bit 16 1) w)"
    using read_now [of w CR] write_now [of w1 CR "v OR push_bit 16 1"] r by (simp add: reg_update_def)
qed

lemma waitTx_law:
  assumes "v_tx (view w) = []"
  shows "\<exists>r w' f. qspi_waitTx hw start timeout w = Some (r, w') \<and> now w \<le> now w' \<and>
    (case r of Inl e \<Rightarrow> e = ETIME \<and> start + timeout \<le> now w' | Inr _ \<Rightarrow> view w' = (view w)\<lparr>v_lag := 0, v_fresh := f\<rparr>)"
  using assms
proof (induction "v_lag (view w)" arbitrary: w rule: less_induct)
  case less
  obtain v w1 where r: "hw_read hw SR w = (v, w1)" by fastforce
  note l = read_sr [OF r]
  have n1: "now w \<le> now w1" using read_now [of w SR] r by simp
  show ?case
  proof (cases "v_lag (view w) = 0")
    case True
    then have "bit v 2" using l less.prems by (simp add: sr_shows_def)
    then show ?thesis
      using r l n1 True by (subst qspi_waitTx.simps) (auto simp: qspi_txFifoEmpty_def intro!: exI [of _ True])
  next
    case False
    then have nb: "\<not> bit v 2" using l by (simp add: sr_shows_def)
    obtain t w2 where t: "hw_timer hw w1 = (t, w2)" by fastforce
    note lt = read_timer [OF t]
    show ?thesis
    proof (cases "t - start \<ge> timeout")
      case True
      then show ?thesis
        using r nb t lt n1 by (subst qspi_waitTx.simps) (simp add: qspi_txFifoEmpty_def)
    next
      case False
      obtain r' w' f where i: "qspi_waitTx hw start timeout w2 = Some (r', w')" "now w2 \<le> now w'"
          "case r' of Inl e \<Rightarrow> e = ETIME \<and> start + timeout \<le> now w' | Inr _ \<Rightarrow> view w' = (view w2)\<lparr>v_lag := 0, v_fresh := f\<rparr>"
        using less.hyps [of w2] less.prems l lt \<open>v_lag (view w) \<noteq> 0\<close> by auto
      then have "qspi_waitTx hw start timeout w = Some (r', w')"
        using r nb t False by (subst qspi_waitTx.simps) (simp add: qspi_txFifoEmpty_def)
      moreover have "view w2 = (view w)\<lparr>v_lag := v_lag (view w) - 1, v_fresh := True\<rparr>" using l lt by simp
      ultimately show ?thesis
        using i(2,3) n1 lt by (intro exI [of _ r'] exI [of _ w'] exI [of _ f]) (auto split: sum.splits)
    qed
  qed
qed

lemma recv_law:
  assumes "v_lag (view w) = 0" "v_rx (view w) = ws" "sized (map length ws)"
  shows "\<exists>w' f. qspi_recv hw (length (concat ws)) acc w = (Inr (acc @ concat ws), w') \<and> now w \<le> now w' \<and>
    view w' = (view w)\<lparr>v_rx := [], v_fresh := f\<rparr>"
  using assms
proof (induction ws arbitrary: w acc)
  case Nil
  then show ?case by (simp add: qspi_recv.simps exI [of _ "v_fresh (view w)"])
next
  case (Cons x xs)
  note sz = sized_Cons [OF Cons.prems(3) [simplified]]
  have x4: "length x \<le> 4" using sz by linarith
  obtain e w1 where e: "qspi_rxFifoEmpty hw w = (e, w1)" by fastforce
  note l = rxFifoEmpty_law [OF e]
  have ne: "\<not> e" using l(4) Cons.prems(1,2) by simp
  obtain v w2 where r: "hw_read hw RXD w1 = (v, w2)" by fastforce
  have x: "rx_bytes v (length x) = x" "view w2 = (view w1)\<lparr>v_rx := xs, v_fresh := False\<rparr>"
    using read_rxd [of w1 x xs v w2] Cons.prems(2) l(1) r x4 by (simp_all add: rx_bytes_upper)
  have n2: "now w1 \<le> now w2" using read_now [of w1 RXD] r by simp
  have len: "min (length (concat (x # xs))) 4 = length x" using sz by (simp add: length_concat)
  then have "rx_bytes v (length (concat (x # xs))) = x" using x(1) rx_bytes_min by metis
  then have d: "qspi_rxData hw (length (concat (x # xs))) w1 = (x, length x, w2)" using r len by (simp add: qspi_rxData_def)
  obtain w' f where i: "qspi_recv hw (length (concat xs)) (acc @ x) w2 = (Inr ((acc @ x) @ concat xs), w')" "now w2 \<le> now w'"
      "view w' = (view w2)\<lparr>v_rx := [], v_fresh := f\<rparr>"
    using Cons.IH [of w2 "acc @ x"] Cons.prems(1) l(1) x(2) sz by auto
  have "length x \<noteq> 0" using sz by simp
  then have "qspi_recv hw (length (concat (x # xs))) acc w = (Inr (acc @ concat (x # xs)), w')"
    using e ne d i(1) by (subst qspi_recv.simps) simp
  then show ?case using i(2,3) n2 l(1,2) x(2) Cons.prems(1) by (intro exI [of _ w'] exI [of _ f]) simp
qed


text \<open>One round: what was put into the FIFO is exchanged and the controller is idle again.\<close>

lemma round_law:
  assumes "v_idle (view w)" "v_sel (view w) = Some s" "0 < n" "has_bytes tx n" "qspi_send hw tx n w = (tx', n', m, w1)"
  shows "\<exists>r w2. qspi_waitTx hw start timeout (reg_update hw CR (\<lambda>v. v OR push_bit 16 1) w1) = Some (r, w2) \<and> now w \<le> now w2 \<and>
    0 < m \<and> m \<le> n \<and> n' = n - m \<and> (0 < n' \<longrightarrow> tx' = map_option (drop m) tx) \<and>
    (case r of
       Inl e \<Rightarrow> e = ETIME \<and> start + timeout \<le> now w2
     | Inr _ \<Rightarrow> \<exists>w3. qspi_recv hw m acc w2 = (Inr (acc @ exchange resp (v_chip (view w)) s (outgoing tx m)), w3) \<and> now w2 \<le> now w3 \<and>
         v_idle (view w3) \<and> v_sel (view w3) = Some (s @ outgoing tx m) \<and> v_chip (view w3) = v_chip (view w))"
proof -
  let ?V = "view w" and ?w1 = "reg_update hw CR (\<lambda>v. v OR push_bit 16 1) w1"
  obtain ws f where a: "0 < m" "m \<le> n" "n' = n - m" "0 < n' \<longrightarrow> tx' = map_option (drop m) tx" "now w \<le> now w1"
      "view w1 = ?V\<lparr>v_tx := ws, v_fresh := f\<rparr>" "concat ws = outgoing tx m" "sized (map length ws)" "length ws \<le> depth"
    using send_law [OF assms(3,4,5)] assms(1) by (auto simp: v_idle_def)
  obtain l where b: "view ?w1 = ?V\<lparr>v_tx := [], v_rx := shifted resp (v_chip ?V) s ws, v_lag := l, v_fresh := False, v_sel := Some (s @ outgoing tx m)\<rparr>"
      "now w1 \<le> now ?w1"
    using go_law [of w1 s] assms(1,2) a(6,7,9) by (auto simp: v_idle_def)
  have "v_tx (view ?w1) = []" using b(1) assms(1) by (simp add: v_idle_def)
  then obtain r w2 f2 where c: "qspi_waitTx hw start timeout ?w1 = Some (r, w2)" "now ?w1 \<le> now w2"
      "case r of Inl e \<Rightarrow> e = ETIME \<and> start + timeout \<le> now w2 | Inr _ \<Rightarrow> view w2 = (view ?w1)\<lparr>v_lag := 0, v_fresh := f2\<rparr>"
    using waitTx_law [of ?w1 start timeout] by auto
  have "\<exists>w3. qspi_recv hw m acc w2 = (Inr (acc @ exchange resp (v_chip ?V) s (outgoing tx m)), w3) \<and> now w2 \<le> now w3 \<and>
      v_idle (view w3) \<and> v_sel (view w3) = Some (s @ outgoing tx m) \<and> v_chip (view w3) = v_chip ?V" if r: "r = Inr u" for u
  proof -
    have v2: "view w2 = (view ?w1)\<lparr>v_lag := 0, v_fresh := f2\<rparr>" using c(3) r by simp
    have len: "length (concat (shifted resp (v_chip ?V) s ws)) = m" using a(2,7) has_bytes_le [OF assms(4)] by simp
    obtain w3 f3 where "qspi_recv hw m acc w2 = (Inr (acc @ concat (shifted resp (v_chip ?V) s ws)), w3)" "now w2 \<le> now w3"
        "view w3 = (view w2)\<lparr>v_rx := [], v_fresh := f3\<rparr>"
      using recv_law [of w2 "shifted resp (v_chip ?V) s ws" acc, unfolded len] v2 b(1) a(8) by auto
    then show ?thesis using v2 b(1) a(7) assms(1,2) by (auto simp: v_idle_def)
  qed
  then show ?thesis using a b(2) c by (intro exI [of _ r] exI [of _ w2]) (auto split: sum.splits)
qed

lemma transfer_law:
  assumes "v_idle (view w)" "v_sel (view w) = Some s" "has_bytes tx n"
  shows "\<exists>r w'. qspi_transfer hw start timeout tx n acc w = Some (r, w') \<and> now w \<le> now w' \<and>
    (case r of
       Inl e \<Rightarrow> e = ETIME \<and> start + timeout \<le> now w'
     | Inr rx \<Rightarrow> v_idle (view w') \<and> v_sel (view w') = Some (s @ outgoing tx n) \<and> v_chip (view w') = v_chip (view w) \<and>
         rx = acc @ exchange resp (v_chip (view w)) s (outgoing tx n))"
  using assms
proof (induction n arbitrary: tx s acc w rule: less_induct)
  case (less n)
  show ?case
  proof (cases "n = 0")
    case True
    then show ?thesis using less.prems by (subst qspi_transfer.simps) simp
  next
    case False
    then have n0: "0 < n" by simp
    obtain tx' n' m w1 where snd: "qspi_send hw tx n w = (tx', n', m, w1)" using prod_cases4 by blast
    obtain r w2 where a: "qspi_waitTx hw start timeout (reg_update hw CR (\<lambda>v. v OR push_bit 16 1) w1) = Some (r, w2)"
        "now w \<le> now w2" "0 < m" "m \<le> n" "n' = n - m" "0 < n' \<longrightarrow> tx' = map_option (drop m) tx"
      and r: "case r of
       Inl e \<Rightarrow> e = ETIME \<and> start + timeout \<le> now w2
     | Inr _ \<Rightarrow> \<exists>w3. qspi_recv hw m acc w2 = (Inr (acc @ exchange resp (v_chip (view w)) s (outgoing tx m)), w3) \<and> now w2 \<le> now w3 \<and>
         v_idle (view w3) \<and> v_sel (view w3) = Some (s @ outgoing tx m) \<and> v_chip (view w3) = v_chip (view w)"
      using round_law [OF less.prems(1,2) n0 less.prems(3) snd, of start timeout acc] by (elim exE conjE) (rule that)
    show ?thesis
    proof (cases r)
      case (Inl e)
      then have "qspi_transfer hw start timeout tx n acc w = Some (Inl e, w2)"
        using False snd a(1) by (subst qspi_transfer.simps) simp
      then show ?thesis using Inl r a(2) by simp
    next
      case (Inr u)
      let ?acc = "acc @ exchange resp (v_chip (view w)) s (outgoing tx m)"
      obtain w3 where b: "qspi_recv hw m acc w2 = (Inr ?acc, w3)" "now w2 \<le> now w3"
         "v_idle (view w3)" "v_sel (view w3) = Some (s @ outgoing tx m)" "v_chip (view w3) = v_chip (view w)"
        using r Inr by auto
      have step: "qspi_transfer hw start timeout tx n acc w = qspi_transfer hw start timeout tx' n' ?acc w3"
        using False snd a(1) b(1) Inr by (subst qspi_transfer.simps) simp
      have out: "outgoing tx n = outgoing tx m @ outgoing tx' n'"
      proof (cases "n' = 0")
        case True
        then show ?thesis using a(4,5) by simp
      next
        case False
        then show ?thesis using outgoing_split [OF a(4) less.prems(3)] a(5,6) by simp
      qed
      have has: "has_bytes tx' n'"
        using has_bytes_drop [OF less.prems(3), of m] a(5,6) by (cases "n' = 0") (auto simp: has_bytes_def split: option.splits)
      obtain r' w' where i: "qspi_transfer hw start timeout tx' n' ?acc w3 = Some (r', w')" "now w3 \<le> now w'"
          "case r' of
           Inl e \<Rightarrow> e = ETIME \<and> start + timeout \<le> now w'
         | Inr rx \<Rightarrow> v_idle (view w') \<and> v_sel (view w') = Some ((s @ outgoing tx m) @ outgoing tx' n') \<and> v_chip (view w') = v_chip (view w3) \<and>
             rx = ?acc @ exchange resp (v_chip (view w3)) (s @ outgoing tx m) (outgoing tx' n')"
        using less.IH [OF _ b(3,4) has, of ?acc] a(3,5) False by auto
      then show ?thesis
        using step a(2) b(2,5) out by (intro exI [of _ r'] exI [of _ w']) (auto simp: exchange_append split: sum.splits)
    qed
  qed
qed

lemma polledTransfer_law:
  assumes "v_idle (view w)" "v_sel (view w) = Some s" "has_bytes tx n"
  shows "\<exists>r w'. qspi_polledTransfer hw tx n timeout w = Some (r, w') \<and> now w \<le> now w' \<and>
    (case r of
       Inl e \<Rightarrow> e = ETIME \<and> now w + timeout \<le> now w'
     | Inr rx \<Rightarrow> v_idle (view w') \<and> v_sel (view w') = Some (s @ outgoing tx n) \<and> v_chip (view w') = v_chip (view w) \<and>
         rx = exchange resp (v_chip (view w)) s (outgoing tx n))"
proof -
  obtain t w1 where t: "hw_timer hw w = (t, w1)" by fastforce
  note l = read_timer [OF t]
  obtain r w' where i: "qspi_transfer hw t timeout tx n [] w1 = Some (r, w')" "now w1 \<le> now w'"
      "case r of
         Inl e \<Rightarrow> e = ETIME \<and> t + timeout \<le> now w'
       | Inr rx \<Rightarrow> v_idle (view w') \<and> v_sel (view w') = Some (s @ outgoing tx n) \<and> v_chip (view w') = v_chip (view w) \<and>
           rx = exchange resp (v_chip (view w)) s (outgoing tx n)"
    using transfer_law [of w1 s tx n t timeout "[]"] assms l by (auto cong: sum.case_cong)
  then show ?thesis
    using l t by (intro exI [of _ r] exI [of _ w']) (auto simp: qspi_polledTransfer_def split: sum.splits)
qed

lemma select_law:
  assumes "v_idle (view w)" "v_sel (view w) = None"
  shows "v_idle (view (qspi_start hw w)) \<and> v_sel (view (qspi_start hw w)) = Some [] \<and>
    v_chip (view (qspi_start hw w)) = v_chip (view w) \<and> now w \<le> now (qspi_start hw w)"
proof -
  define w1 where "w1 = hw_write hw RXTH 1 w"
  have v1: "view w1 = (view w)\<lparr>v_fresh := False\<rparr>" "now w \<le> now w1" using write_rxth write_now by (simp_all add: w1_def)
  obtain v w2 where r: "hw_read hw CR w1 = (v, w2)" by fastforce
  have v2: "v = v_cr (view w)" "view w2 = view w1" using read_cr [OF r] v1 by simp_all
  let ?v = "v AND NOT (push_bit 10 1)"
  have b: "\<not> bit ?v 10" "\<not> bit ?v 16" using clear_bit_cases [of v 10] assms(1) v2(1) by (simp_all add: v_idle_def)
  obtain n where n: "view (hw_write hw CR ?v w2) = cr_written resp fin ?v n (view w2)"
    using write_cr [of w2 ?v] v1 v2 assms(1) by (auto simp: v_idle_def)
  have e: "cr_written resp fin ?v n (view w2) = (view w)\<lparr>v_cr := ?v, v_fresh := False, v_sel := Some []\<rparr>"
    using b clear_clear_bit [OF b(2)] v1 v2 assms(2) by (simp add: cr_written_def Let_def del: push_bit_numeral push_bit_of_1)
  have "qspi_start hw w = hw_write hw ER 1 (hw_write hw CR ?v w2)"
    using r by (simp add: qspi_start_def reg_update_def w1_def)
  moreover have "now w1 \<le> now w2" using read_now [of w1 CR] r by simp
  moreover have "now w2 \<le> now (hw_write hw ER 1 (hw_write hw CR ?v w2))"
    using write_now [of w2 CR ?v] write_now [of "hw_write hw CR ?v w2" ER 1] by linarith
  ultimately show ?thesis
    using n e write_er [of 1 "hw_write hw CR ?v w2"] v1 assms b by (auto simp: v_idle_def)
qed

lemma deselect_law:
  assumes "v_idle (view w)" "v_sel (view w) = Some s"
  shows "\<exists>w'. qspi_stop hw w = Some w' \<and> v_idle (view w') \<and> v_sel (view w') = None \<and>
    v_chip (view w') = fin (v_chip (view w)) s \<and> now w \<le> now w'"
proof -
  obtain w1 f where d: "qspi_drain hw w = Some w1" "now w \<le> now w1" "view w1 = (view w)\<lparr>v_rx := [], v_fresh := f\<rparr>"
    using drain_law [of w] assms(1) by (auto simp: v_idle_def)
  obtain v w2 where r: "hw_read hw CR w1 = (v, w2)" by fastforce
  have v2: "v = v_cr (view w)" "view w2 = view w1" using read_cr [OF r] d(3) by simp_all
  let ?v = "v OR push_bit 10 1"
  have b: "bit ?v 10" "\<not> bit ?v 16" using set_bit_cases [of 10 v] assms(1) v2(1) by (simp_all add: v_idle_def)
  obtain n where n: "view (hw_write hw CR ?v w2) = cr_written resp fin ?v n (view w2)"
    using write_cr [of w2 ?v] v2 d(3) assms(1) by (auto simp: v_idle_def)
  have e: "cr_written resp fin ?v n (view w2) =
      (view w)\<lparr>v_cr := ?v, v_rx := [], v_fresh := False, v_sel := None, v_chip := fin (v_chip (view w)) s\<rparr>"
    using b clear_clear_bit [OF b(2)] d(3) v2 assms(2) by (simp add: cr_written_def Let_def del: push_bit_numeral push_bit_of_1)
  have "qspi_stop hw w = Some (hw_write hw ER 0 (hw_write hw CR ?v w2))"
    using r d(1) by (simp add: qspi_stop_def reg_update_def)
  moreover have "now w1 \<le> now w2" using read_now [of w1 CR] r by simp
  moreover have "now w2 \<le> now (hw_write hw ER 0 (hw_write hw CR ?v w2))"
    using write_now [of w2 CR ?v] write_now [of "hw_write hw CR ?v w2" ER 0] by linarith
  ultimately show ?thesis
    using n e write_er [of 0 "hw_write hw CR ?v w2"] d(2) assms b by (auto simp: v_idle_def)
qed

lemma stop_returns: "\<exists>w'. qspi_stop hw w = Some w' \<and> now w \<le> now w'"
proof -
  obtain w1 where d: "qspi_drain hw w = Some w1" "now w \<le> now w1" using drain_law [of w] by auto
  obtain v w2 where r: "hw_read hw CR w1 = (v, w2)" by fastforce
  let ?v = "v OR push_bit 10 1"
  have "now w1 \<le> now w2" using read_now [of w1 CR] r by simp
  moreover have "now w2 \<le> now (hw_write hw ER 0 (hw_write hw CR ?v w2))"
    using write_now [of w2 CR ?v] write_now [of "hw_write hw CR ?v w2" ER 0] by linarith
  ultimately show ?thesis using d r by (simp add: qspi_stop_def reg_update_def)
qed

end

text \<open>The driver on a controller is a bus.\<close>

sublocale qspi_ctrl \<subseteq> bus: spi_bus "qspi_ops hw" "\<lambda>w. v_idle (view w)" "\<lambda>_. True" "\<lambda>w. v_sel (view w)" "\<lambda>w. v_chip (view w)" now resp fin
proof unfold_locales
  fix w s tx n t
  assume "v_idle (view w)" "v_sel (view w) = Some s" "has_bytes tx n"
  then show "\<exists>r w'. q_xfer (qspi_ops hw) tx n t w = Some (r, w') \<and> now w \<le> now w' \<and>
        (case r of
           Inl e \<Rightarrow> e = ETIME \<and> now w + t \<le> now w' \<and> True
         | Inr rx \<Rightarrow> v_idle (view w') \<and> v_sel (view w') = Some (s @ outgoing tx n) \<and> v_chip (view w') = v_chip (view w) \<and>
             rx = exchange resp (v_chip (view w)) s (outgoing tx n))"
    using polledTransfer_law [of w s tx n t] by (simp add: qspi_ops_def cong: sum.case_cong)
qed (simp_all add: qspi_ops_def select_law deselect_law stop_returns read_timer)

context qspi_ctrl
begin

lemma bus_contract: "spi_bus (qspi_ops hw) (\<lambda>w. v_idle (view w)) (\<lambda>_. True) (\<lambda>w. v_sel (view w)) (\<lambda>w. v_chip (view w)) now resp fin"
  by unfold_locales

end

section \<open>An emulated controller\<close>

text \<open>
  A controller with FIFOs of 63 words that meets the contract: it exchanges the bytes when it is started, shows the transmission for \<open>lat\<close> readings
  of its status register, and its timer advances with every reading.
\<close>

record 'c qsim =
  s_view :: "'c qview"
  s_now :: int

definition sim_status :: "'c qview \<Rightarrow> u32" where
  "sim_status V = (if v_tx V = [] \<and> v_lag V = 0 then 4 else 0) OR (if 63 \<le> length (v_tx V) then 8 else 0) OR
     (if v_fresh V \<and> v_rx V \<noteq> [] then 16 else 0)"

definition sim_word :: "bytes \<Rightarrow> u32" where
  "sim_word x = le32_of (replicate (4 - length x) 0 @ x)"

definition sim_read :: "qspi_reg \<Rightarrow> 'c qsim \<Rightarrow> u32 \<times> 'c qsim" where
  "sim_read r w =
     (let V = s_view w in
      case r of
        SR \<Rightarrow> (sim_status V, w\<lparr>s_view := V\<lparr>v_lag := v_lag V - 1, v_fresh := True\<rparr>\<rparr>)
      | CR \<Rightarrow> (v_cr V, w)
      | RXD \<Rightarrow> (case v_rx V of [] \<Rightarrow> (0, w) | x # xs \<Rightarrow> (sim_word x, w\<lparr>s_view := V\<lparr>v_rx := xs, v_fresh := False\<rparr>\<rparr>))
      | _ \<Rightarrow> (0, w))"

definition sim_write :: "nat \<Rightarrow> ('c \<Rightarrow> bytes \<Rightarrow> u8) \<Rightarrow> ('c \<Rightarrow> bytes \<Rightarrow> 'c) \<Rightarrow> qspi_reg \<Rightarrow> u32 \<Rightarrow> 'c qsim \<Rightarrow> 'c qsim" where
  "sim_write lat resp fin r v w =
     (let V = s_view w; push = (\<lambda>k. w\<lparr>s_view := V\<lparr>v_tx := v_tx V @ [take k (le32_bytes v)], v_fresh := False\<rparr>\<rparr>) in
      case r of
        TXD00 \<Rightarrow> push 4
      | TXD01 \<Rightarrow> push 1
      | TXD10 \<Rightarrow> push 2
      | TXD11 \<Rightarrow> push 3
      | CR \<Rightarrow> w\<lparr>s_view := cr_written resp fin v lat V\<rparr>
      | ER \<Rightarrow> w\<lparr>s_view := V\<lparr>v_en := bit v 0, v_fresh := False\<rparr>\<rparr>
      | RXTH \<Rightarrow> w\<lparr>s_view := V\<lparr>v_fresh := False\<rparr>\<rparr>
      | _ \<Rightarrow> w)"

definition sim_hw :: "nat \<Rightarrow> ('c \<Rightarrow> bytes \<Rightarrow> u8) \<Rightarrow> ('c \<Rightarrow> bytes \<Rightarrow> 'c) \<Rightarrow> 'c qsim qspi_hw" where
  "sim_hw lat resp fin = \<lparr>hw_read = sim_read, hw_write = sim_write lat resp fin, hw_timer = (\<lambda>w. (s_now w + 1, w\<lparr>s_now := s_now w + 1\<rparr>))\<rparr>"

lemma le32_bytes_of: "le32_bytes (le32_of [a, b, c, d]) = [a, b, c, d]"
proof -
  have o: "\<not> bit (p::u8) (8 + n)" "\<not> bit p (16 + n)" "\<not> bit p (24 + n)" for p n
    by (auto dest: bit_imp_le_length)
  have "le32_of [a, b, c, d] = ucast a OR push_bit 8 (ucast b) OR push_bit 16 (ucast c) OR push_bit 24 (ucast d)"
    by (simp add: le32_of_def)
  then show ?thesis unfolding le32_bytes_def by (auto intro!: bit_word_eqI simp: bit_simps o)
qed

lemma le32_sim_word: "length x \<le> 4 \<Longrightarrow> drop (4 - length x) (le32_bytes (sim_word x)) = x"
proof -
  assume "length x \<le> 4"
  then consider "x = []" | d where "x = [d]" | c d where "x = [c, d]" | b c d where "x = [b, c, d]" | a b c d where "x = [a, b, c, d]"
    by (cases x; cases "tl x"; cases "tl (tl x)"; cases "tl (tl (tl x))") auto
  then show ?thesis by cases (simp_all add: sim_word_def le32_bytes_of numeral_eq_Suc)
qed

lemma sim_status_shows: "sr_shows 63 V (sim_status V)"
  by (auto simp: sr_shows_def sim_status_def bit_or_iff)

interpretation sim: qspi_ctrl "sim_hw lat resp fin" 63 s_view s_now resp fin
proof unfold_locales
  fix w :: "'a qsim" and r
  show "s_now w \<le> s_now (snd (hw_read (sim_hw lat resp fin) r w))"
    by (auto simp: sim_hw_def sim_read_def Let_def split: qspi_reg.splits list.splits)
next
  fix w :: "'a qsim" and r v
  show "s_now w \<le> s_now (hw_write (sim_hw lat resp fin) r v w)"
    by (auto simp: sim_hw_def sim_write_def Let_def split: qspi_reg.splits)
next
  fix w w' :: "'a qsim" and v
  assume "hw_read (sim_hw lat resp fin) SR w = (v, w')"
  then show "sr_shows 63 (s_view w) v \<and> s_view w' = (s_view w)\<lparr>v_lag := v_lag (s_view w) - 1, v_fresh := True\<rparr>"
    by (auto simp: sim_hw_def sim_read_def Let_def sim_status_shows)
next
  fix w w' :: "'a qsim" and x xs v
  assume "v_rx (s_view w) = x # xs" "hw_read (sim_hw lat resp fin) RXD w = (v, w')"
  then show "(length x \<le> 4 \<longrightarrow> drop (4 - length x) (le32_bytes v) = x) \<and> s_view w' = (s_view w)\<lparr>v_rx := xs, v_fresh := False\<rparr>"
    by (auto simp: sim_hw_def sim_read_def Let_def le32_sim_word)
next
  fix k :: nat and w :: "'a qsim" and v
  assume "0 < k" "k \<le> 4"
  then show "s_view (hw_write (sim_hw lat resp fin) (txd_reg k) v w) =
      (s_view w)\<lparr>v_tx := v_tx (s_view w) @ [take k (le32_bytes v)], v_fresh := False\<rparr>"
    by (auto simp: sim_hw_def sim_write_def txd_reg_def Let_def le_Suc_eq numeral_eq_Suc)
qed (auto simp: sim_hw_def sim_read_def sim_write_def Let_def)

section \<open>Properties\<close>

text \<open>
  C21: On a controller that keeps its contract, with the slave selected, a polled transfer of any size returns: it either sends exactly the bytes of
  the buffer (zeros without one), returns exactly the bytes the slave answers and leaves both FIFOs empty, or it
  reports ETIME and at least the timeout has passed.
\<close>

theorem polledTransfer_exchanges:
  assumes "qspi_ctrl hw depth view now resp fin" "v_idle (view w)" "v_sel (view w) = Some s" "has_bytes tx n"
  shows "\<exists>r w'. qspi_polledTransfer hw tx n timeout w = Some (r, w') \<and>
    (case r of
       Inl e \<Rightarrow> e = ETIME \<and> now w + timeout \<le> now w'
     | Inr rx \<Rightarrow> rx = exchange resp (v_chip (view w)) s (outgoing tx n) \<and> length rx = n \<and> v_idle (view w') \<and>
         v_sel (view w') = Some (s @ outgoing tx n) \<and> v_chip (view w') = v_chip (view w))"
proof -
  obtain r w' where r: "qspi_polledTransfer hw tx n timeout w = Some (r, w')"
    and c: "case r of
       Inl e \<Rightarrow> e = ETIME \<and> now w + timeout \<le> now w'
     | Inr rx \<Rightarrow> v_idle (view w') \<and> v_sel (view w') = Some (s @ outgoing tx n) \<and> v_chip (view w') = v_chip (view w) \<and>
         rx = exchange resp (v_chip (view w)) s (outgoing tx n)"
    using qspi_ctrl.polledTransfer_law [OF assms, of timeout] by (elim exE conjE) (rule that)
  show ?thesis
    using r c assms(4) by (intro exI [of _ r] exI [of _ w']) (auto split: sum.splits)
qed

definition sim_idle :: "'c \<Rightarrow> bytes option \<Rightarrow> 'c qsim" where
  "sim_idle c s = \<lparr>s_view = \<lparr>v_cr = (if s = None then 0x8000c4c9 else 0x8000c0c9), v_en = (s \<noteq> None), v_tx = [], v_rx = [], v_lag = 0,
     v_fresh = False, v_sel = s, v_chip = c\<rparr>, s_now = 0\<rparr>"

theorem polledTransfer_exchanges_witness:
  "\<exists>r w'. qspi_polledTransfer (sim_hw 2 (\<lambda>c s. c + of_nat (length s)) (\<lambda>c s. c)) (Some [1, 2, 3, 4, 5]) 5 9 (sim_idle (7::u8) (Some [])) = Some (r, w') \<and>
     (r = Inl ETIME \<and> 9 \<le> s_now w' \<or> r = Inr [7, 8, 9, 10, 11] \<and> v_sel (s_view w') = Some [1, 2, 3, 4, 5])"
proof -
  have e: "exchange (\<lambda>c s. c + of_nat (length s)) (7::u8) [] [1, 2, 3, 4, 5] = [7, 8, 9, 10, 11]" by code_simp
  let ?w = "sim_idle (7::u8) (Some [])"
  have w: "v_idle (s_view ?w)" "v_sel (s_view ?w) = Some []" "v_chip (s_view ?w) = 7" "s_now ?w = 0" "has_bytes (Some [1, 2, 3, 4, 5]) 5"
      "outgoing (Some [1, 2, 3, 4, 5]) 5 = [1, 2, 3, 4, 5]"
    by (simp_all add: sim_idle_def v_idle_def has_bytes_def outgoing_def)
  note c = polledTransfer_exchanges [OF sim.qspi_ctrl_axioms w(1,2,5), of 2 "\<lambda>c s. c + of_nat (length s)" "\<lambda>c s. c" 9]
  obtain r w' where r: "qspi_polledTransfer (sim_hw 2 (\<lambda>c s. c + of_nat (length s)) (\<lambda>c s. c)) (Some [1, 2, 3, 4, 5]) 5 9 ?w = Some (r, w')"
    and o: "case r of Inl e \<Rightarrow> e = ETIME \<and> 0 + 9 \<le> s_now w'
       | Inr rx \<Rightarrow> rx = [7, 8, 9, 10, 11] \<and> length rx = 5 \<and> v_idle (s_view w') \<and> v_sel (s_view w') = Some [1, 2, 3, 4, 5] \<and>
           v_chip (s_view w') = 7"
    using c unfolding w(3,4,6) e append_Nil by (elim exE conjE) (rule that)
  show ?thesis using r o by (cases r) auto
qed

end
