(* ===== verification/Flashcfg.thy ===== *)
theory Flashcfg
  imports Qspi
begin

text \<open>
  \<open>devices/flash-zynq/flashcfg.c\<close> and \<open>flashcfg.h\<close>: what the flash driver knows of the chip. The Common Flash Interface data
  (\<open>flash_cfi_t\<close>), decoded from the 61 bytes the chip delivers, the table of commands, and per chip the choice of
  commands, the missing data and the set-up sequence. The functions of the Quad-SPI driver are passed as \<open>q\<close>.
\<close>

section \<open>Data\<close>

record flash_cfi_timeout_t =
  byteWrite :: u8
  pageWrite :: u8
  sectorErase :: u8
  chipErase :: u8

record flash_reg_t =
  reg_count :: u16
  reg_size :: u16

record flash_cfi_t =
  vendorData :: bytes
  qry :: bytes
  cmdSet1 :: u16
  addrExt1 :: u16
  cmdSet2 :: u16
  addrExt2 :: u16
  voltages :: bytes
  timeoutTypical :: flash_cfi_timeout_t
  timeoutMax :: flash_cfi_timeout_t
  chipSize :: u8
  fdiDesc :: u16
  pageSize :: u16
  regsCount :: u8
  regs :: "flash_reg_t list"

record flash_cmd_t =
  opCode :: u8
  cmd_size :: u8
  dummyCyc :: u8
  dataLines :: u8

datatype flash_cmd = flash_cmd_rdid | flash_cmd_rdsr1 | flash_cmd_rdfsr | flash_cmd_wrdi | flash_cmd_wren | flash_cmd_4ben
  | flash_cmd_qioen | flash_cmd_read | flash_cmd_4read | flash_cmd_fast_read | flash_cmd_4fast_read | flash_cmd_dor | flash_cmd_4dor
  | flash_cmd_qor | flash_cmd_4qor | flash_cmd_dior | flash_cmd_4dior | flash_cmd_qior | flash_cmd_4qior | flash_cmd_pp | flash_cmd_4pp
  | flash_cmd_qpp | flash_cmd_4qpp | flash_cmd_p4e | flash_cmd_4p4e | flash_cmd_p64e | flash_cmd_4p64e | flash_cmd_de | flash_cmd_be

datatype addr_mode = flash_3byteAddr | flash_4byteAddr

datatype flash_init = init_none | init_spansion | init_micron | init_winbond

record flash_info_t =
  cfi :: flash_cfi_t
  cmds :: "flash_cmd \<Rightarrow> flash_cmd_t"
  addrMode :: addr_mode
  readCmd :: flash_cmd
  ppCmd :: flash_cmd
  fl_name :: string
  fl_init :: flash_init

text \<open>The sizes in bytes and the timeouts in milliseconds of the macros; products and shifts of \<open>1u\<close> are 32-bit, sizes of regions 64-bit.\<close>

definition CFI_TIMEOUT_MAX_PROGRAM :: "u8 \<Rightarrow> u8 \<Rightarrow> u32" where
  "CFI_TIMEOUT_MAX_PROGRAM typical mx = (push_bit (unat typical) 1 * push_bit (unat mx) 1) div 1000"

definition CFI_TIMEOUT_MAX_ERASE :: "u8 \<Rightarrow> u8 \<Rightarrow> u32" where
  "CFI_TIMEOUT_MAX_ERASE typical mx = push_bit (unat typical) 1 * push_bit (unat mx) 1"

definition CFI_SIZE_FLASH :: "u8 \<Rightarrow> u32" where
  "CFI_SIZE_FLASH val = push_bit (unat val) 1"

definition CFI_SIZE_SECTION :: "u16 \<Rightarrow> size_t" where
  "CFI_SIZE_SECTION val = ucast val * 0x100"

definition CFI_SIZE_PAGE :: "u16 \<Rightarrow> u32" where
  "CFI_SIZE_PAGE val = push_bit (unat val) 1"

definition CFI_SIZE_REGION :: "u16 \<Rightarrow> u16 \<Rightarrow> size_t" where
  "CFI_SIZE_REGION regSize regCount = CFI_SIZE_SECTION regSize * ucast (ucast regCount + 1 :: u32)"

definition CFI_DUMMY_CYCLES_NOT_SET :: u8 where "CFI_DUMMY_CYCLES_NOT_SET = 0xff"
definition STATUS_REG_SIZE :: nat where "STATUS_REG_SIZE = 1"
definition FLASH_TIMEOUT_CMD_MS :: int where "FLASH_TIMEOUT_CMD_MS = 1000"
definition FLASH_TIMEOUT_WIP_MS :: int where "FLASH_TIMEOUT_WIP_MS = 1000"

text \<open>The packed structure on a little-endian machine.\<close>

definition le16_of :: "bytes \<Rightarrow> nat \<Rightarrow> u16" where
  "le16_of bs i = ucast (bs ! i) OR push_bit 8 (ucast (bs ! (i + 1)))"

definition sizeof_flash_cfi :: nat where "sizeof_flash_cfi = 61"

definition timeout_of :: "bytes \<Rightarrow> nat \<Rightarrow> flash_cfi_timeout_t" where
  "timeout_of bs i = \<lparr>byteWrite = bs ! i, pageWrite = bs ! (i + 1), sectorErase = bs ! (i + 2), chipErase = bs ! (i + 3)\<rparr>"

definition cfi_of :: "bytes \<Rightarrow> flash_cfi_t" where
  "cfi_of bs =
     \<lparr>vendorData = take 16 bs, qry = take 3 (drop 16 bs), cmdSet1 = le16_of bs 19, addrExt1 = le16_of bs 21, cmdSet2 = le16_of bs 23,
      addrExt2 = le16_of bs 25, voltages = take 4 (drop 27 bs), timeoutTypical = timeout_of bs 31, timeoutMax = timeout_of bs 35,
      chipSize = bs ! 39, fdiDesc = le16_of bs 40, pageSize = le16_of bs 42, regsCount = bs ! 44,
      regs = map (\<lambda>k. \<lparr>reg_count = le16_of bs (45 + 4 * k), reg_size = le16_of bs (47 + 4 * k)\<rparr>) [0..<4]\<rparr>"

section \<open>Commands\<close>

definition mk_cmd :: "u8 \<Rightarrow> u8 \<Rightarrow> u8 \<Rightarrow> u8 \<Rightarrow> flash_cmd_t" where
  "mk_cmd opc sz dummy lines = \<lparr>opCode = opc, cmd_size = sz, dummyCyc = dummy, dataLines = lines\<rparr>"

fun flash_defCmds :: "flash_cmd \<Rightarrow> flash_cmd_t" where
  "flash_defCmds flash_cmd_rdid = mk_cmd 0x9f 1 24 1"
| "flash_defCmds flash_cmd_rdsr1 = mk_cmd 0x05 1 8 1"
| "flash_defCmds flash_cmd_rdfsr = mk_cmd 0x70 1 0 1"
| "flash_defCmds flash_cmd_wrdi = mk_cmd 0x04 1 0 1"
| "flash_defCmds flash_cmd_wren = mk_cmd 0x06 1 0 1"
| "flash_defCmds flash_cmd_4ben = mk_cmd 0xb7 1 0 1"
| "flash_defCmds flash_cmd_qioen = mk_cmd 0x35 1 0 1"
| "flash_defCmds flash_cmd_read = mk_cmd 0x03 4 0 1"
| "flash_defCmds flash_cmd_4read = mk_cmd 0x13 5 0 1"
| "flash_defCmds flash_cmd_fast_read = mk_cmd 0x0b 4 CFI_DUMMY_CYCLES_NOT_SET 1"
| "flash_defCmds flash_cmd_4fast_read = mk_cmd 0x0c 5 CFI_DUMMY_CYCLES_NOT_SET 1"
| "flash_defCmds flash_cmd_dor = mk_cmd 0x3b 4 CFI_DUMMY_CYCLES_NOT_SET 2"
| "flash_defCmds flash_cmd_4dor = mk_cmd 0x3c 5 CFI_DUMMY_CYCLES_NOT_SET 2"
| "flash_defCmds flash_cmd_qor = mk_cmd 0x6b 4 CFI_DUMMY_CYCLES_NOT_SET 4"
| "flash_defCmds flash_cmd_4qor = mk_cmd 0x6c 5 CFI_DUMMY_CYCLES_NOT_SET 4"
| "flash_defCmds flash_cmd_dior = mk_cmd 0xbb 4 CFI_DUMMY_CYCLES_NOT_SET 2"
| "flash_defCmds flash_cmd_4dior = mk_cmd 0xbc 5 CFI_DUMMY_CYCLES_NOT_SET 2"
| "flash_defCmds flash_cmd_qior = mk_cmd 0xeb 4 CFI_DUMMY_CYCLES_NOT_SET 4"
| "flash_defCmds flash_cmd_4qior = mk_cmd 0xec 5 CFI_DUMMY_CYCLES_NOT_SET 4"
| "flash_defCmds flash_cmd_pp = mk_cmd 0x02 4 0 1"
| "flash_defCmds flash_cmd_4pp = mk_cmd 0x12 5 0 1"
| "flash_defCmds flash_cmd_qpp = mk_cmd 0x32 4 0 4"
| "flash_defCmds flash_cmd_4qpp = mk_cmd 0x34 5 0 4"
| "flash_defCmds flash_cmd_p4e = mk_cmd 0x20 4 0 1"
| "flash_defCmds flash_cmd_4p4e = mk_cmd 0x21 5 0 1"
| "flash_defCmds flash_cmd_p64e = mk_cmd 0xd8 4 0 1"
| "flash_defCmds flash_cmd_4p64e = mk_cmd 0xdc 5 0 1"
| "flash_defCmds flash_cmd_de = mk_cmd 0xc4 5 0 1"
| "flash_defCmds flash_cmd_be = mk_cmd 0x60 1 0 1"

definition set_dummy :: "flash_cmd \<Rightarrow> u8 \<Rightarrow> (flash_cmd \<Rightarrow> flash_cmd_t) \<Rightarrow> (flash_cmd \<Rightarrow> flash_cmd_t)" where
  "set_dummy c n t = t(c := (t c)\<lparr>dummyCyc := n\<rparr>)"

definition flashcfg_jedecIDGet :: flash_cmd_t where
  "flashcfg_jedecIDGet = flash_defCmds flash_cmd_rdid"

section \<open>The chips\<close>

definition flashcfg_spansion :: "flash_info_t \<Rightarrow> flash_info_t" where
  "flashcfg_spansion info = info\<lparr>
     cmds := set_dummy flash_cmd_4qior 7 (set_dummy flash_cmd_qior 7 (set_dummy flash_cmd_4qor 8 (set_dummy flash_cmd_qor 8
       (set_dummy flash_cmd_4dior 6 (set_dummy flash_cmd_dior 6 (set_dummy flash_cmd_4dor 8 (set_dummy flash_cmd_dor 8
       (set_dummy flash_cmd_4fast_read 8 (set_dummy flash_cmd_fast_read 8 flash_defCmds))))))))),
     readCmd := flash_cmd_4fast_read, ppCmd := flash_cmd_4pp, fl_name := ''Spansion s25fl256s1'', fl_init := init_spansion\<rparr>"

text \<open>The assignments to \<open>info->cfi\<close> that three of the functions share, and the dummy cycles of the Micron chips.\<close>

definition cfi_fill :: "flash_cfi_timeout_t \<Rightarrow> flash_cfi_timeout_t \<Rightarrow> u8 \<Rightarrow> u16 \<Rightarrow> u16 \<Rightarrow> flash_cfi_t \<Rightarrow> flash_cfi_t" where
  "cfi_fill typical mx csz fdi cnt c = c\<lparr>timeoutTypical := typical, timeoutMax := mx, chipSize := csz, fdiDesc := fdi, pageSize := 8,
     regsCount := 1, regs := (regs c)[0 := \<lparr>reg_count = cnt, reg_size = 0x100\<rparr>]\<rparr>"

definition micron_cmds :: "flash_cmd \<Rightarrow> flash_cmd_t" where
  "micron_cmds = set_dummy flash_cmd_4qior 10 (set_dummy flash_cmd_qior 10 (set_dummy flash_cmd_4qor 6 (set_dummy flash_cmd_qor 6
       (set_dummy flash_cmd_4dior 8 (set_dummy flash_cmd_dior 8 (set_dummy flash_cmd_4dor 4 (set_dummy flash_cmd_dor 4
       (set_dummy flash_cmd_4fast_read 8 (set_dummy flash_cmd_fast_read 8 flash_defCmds)))))))))"

definition flashcfg_micron128 :: "flash_info_t \<Rightarrow> flash_info_t" where
  "flashcfg_micron128 info = info\<lparr>
     cfi := cfi_fill \<lparr>byteWrite = 6, pageWrite = 9, sectorErase = 8, chipErase = 0xf\<rparr>
       \<lparr>byteWrite = 2, pageWrite = 2, sectorErase = 3, chipErase = 3\<rparr> 0x18 0x0102 0xff (cfi info),
     cmds := micron_cmds, readCmd := flash_cmd_qior, ppCmd := flash_cmd_qpp, fl_name := ''Micron n25q128'', fl_init := init_micron\<rparr>"

definition flashcfg_micron512 :: "flash_info_t \<Rightarrow> flash_info_t" where
  "flashcfg_micron512 info = info\<lparr>
     cfi := cfi_fill \<lparr>byteWrite = 6, pageWrite = 9, sectorErase = 8, chipErase = 0xf\<rparr>
       \<lparr>byteWrite = 2, pageWrite = 2, sectorErase = 3, chipErase = 3\<rparr> 0x1a 0x0102 0x3ff (cfi info),
     cmds := micron_cmds, readCmd := flash_cmd_4qior, ppCmd := flash_cmd_4qpp, fl_name := ''Micron MT25QU512'', fl_init := init_micron\<rparr>"

definition flash_micron2G :: "flash_info_t \<Rightarrow> flash_info_t" where
  "flash_micron2G info = info\<lparr>
     cfi := cfi_fill \<lparr>byteWrite = 5, pageWrite = 7, sectorErase = 8, chipErase = 0xf\<rparr>
       \<lparr>byteWrite = 6, pageWrite = 4, sectorErase = 2, chipErase = 3\<rparr> 0x1c 0 0xfff (cfi info),
     cmds := micron_cmds, readCmd := flash_cmd_4qior, ppCmd := flash_cmd_4qpp, fl_name := ''Micron MT25QU02'', fl_init := init_micron\<rparr>"

definition flashcfg_winbond :: "flash_info_t \<Rightarrow> flash_info_t" where
  "flashcfg_winbond info = info\<lparr>
     cfi := cfi_fill \<lparr>byteWrite = 6, pageWrite = 9, sectorErase = 8, chipErase = 0xf\<rparr>
       \<lparr>byteWrite = 2, pageWrite = 2, sectorErase = 3, chipErase = 3\<rparr> 0x18 0x0102 0xff (cfi info),
     cmds := set_dummy flash_cmd_qior 6 (set_dummy flash_cmd_qor 8 (set_dummy flash_cmd_dior 4 (set_dummy flash_cmd_dor 8
       (set_dummy flash_cmd_fast_read 8 flash_defCmds)))),
     readCmd := flash_cmd_qior, ppCmd := flash_cmd_qpp, fl_name := ''Winbond W25Q128JV'', fl_init := init_winbond\<rparr>"

text \<open>An unknown chip gets a name and an address mode, too.\<close>

definition flashcfg_infoResolve :: "flash_info_t \<Rightarrow> (errno + unit) \<times> flash_info_t" where
  "flashcfg_infoResolve info =
     (let v = vendorData (cfi info);
          (res, info1) =
            (if v ! 0 = 0x01 \<and> v ! 2 = 0x19 then (Inr (), flashcfg_spansion info)
             else if v ! 0 = 0x20 \<and> v ! 1 = 0xbb \<and> v ! 2 = 0x18 then (Inr (), flashcfg_micron128 info)
             else if v ! 0 = 0x20 \<and> v ! 1 = 0xbb \<and> v ! 2 = 0x20 then (Inr (), flashcfg_micron512 info)
             else if v ! 0 = 0x20 \<and> v ! 1 = 0xbb \<and> v ! 2 = 0x22 then (Inr (), flash_micron2G info)
             else if v ! 0 = 0xef \<and> v ! 1 = 0x40 \<and> v ! 2 = 0x18 then (Inr (), flashcfg_winbond info)
             else (Inl EINVAL, info\<lparr>fl_name := ''Unknown''\<rparr>))
      in (res, info1\<lparr>addrMode := (if chipSize (cfi info1) > 0x18 then flash_4byteAddr else flash_3byteAddr)\<rparr>))"

section \<open>Set-up sequences\<close>

text \<open>One transaction: select, transfer, deselect; deselecting follows a failed transfer, too.\<close>

definition q_command :: "'w qspi \<Rightarrow> bytes option \<Rightarrow> nat \<Rightarrow> int \<Rightarrow> ('w, bytes) io" where
  "q_command q tx n timeout w =
     (case q_xfer q tx n timeout (q_start q w) of
        None \<Rightarrow> None
      | Some (r, w1) \<Rightarrow> (case q_stop q w1 of None \<Rightarrow> None | Some w2 \<Rightarrow> Some (r, w2)))"

definition flashcfg_optionSet :: "'w qspi \<Rightarrow> flash_info_t \<Rightarrow> flash_cmd \<Rightarrow> ('w, unit) io" where
  "flashcfg_optionSet q info cmdID = io_bind (q_command q (Some [opCode (cmds info cmdID)]) 1 FLASH_TIMEOUT_CMD_MS) (\<lambda>_. io_return ())"

definition flashcfg_statusRegGet :: "'w qspi \<Rightarrow> flash_info_t \<Rightarrow> ('w, u8) io" where
  "flashcfg_statusRegGet q info =
     io_bind (q_command q (Some [opCode (cmds info flash_cmd_rdsr1), 0]) 2 FLASH_TIMEOUT_CMD_MS) (\<lambda>rx. io_return (rx ! 1))"

text \<open>The polling loop of \<open>flashcfg_wipCheck\<close> and \<open>flashdrv_wipCheck\<close>, over the reading of the status register.\<close>

partial_function (option) wip_loop :: "('w, u8) io \<Rightarrow> ('w \<Rightarrow> int \<times> 'w) \<Rightarrow> int \<Rightarrow> 'w \<Rightarrow> ((errno + unit) \<times> 'w) option" where
  "wip_loop status timer stop w =
     (case status w of
        None \<Rightarrow> None
      | Some (Inl e, w1) \<Rightarrow> Some (Inl e, w1)
      | Some (Inr st, w1) \<Rightarrow>
          (case timer w1 of (t, w2) \<Rightarrow>
             if t \<ge> stop then Some (Inl ETIME, w2)
             else if st AND 1 \<noteq> 0 then wip_loop status timer stop w2
             else Some (Inr (), w2)))"

definition flashcfg_wipCheck :: "'w qspi \<Rightarrow> flash_info_t \<Rightarrow> int \<Rightarrow> ('w, unit) io" where
  "flashcfg_wipCheck q info timeout w =
     (case q_timer q w of (t, w1) \<Rightarrow> wip_loop (flashcfg_statusRegGet q info) (q_timer q) (t + timeout) w1)"

definition quad_used :: "flash_info_t \<Rightarrow> bool" where
  "quad_used info \<longleftrightarrow> dataLines (cmds info (readCmd info)) = 4 \<or> dataLines (cmds info (ppCmd info)) = 4"

definition flashcfg_spansionInit :: "'w qspi \<Rightarrow> flash_info_t \<Rightarrow> ('w, unit) io" where
  "flashcfg_spansionInit q info =
     io_bind (flashcfg_optionSet q info flash_cmd_wren) (\<lambda>_.
     io_bind (q_command q (Some [0x01, 0, if quad_used info then push_bit 1 1 else push_bit 6 2]) 3 FLASH_TIMEOUT_CMD_MS) (\<lambda>_.
     flashcfg_wipCheck q info FLASH_TIMEOUT_WIP_MS))"

definition flashcfg_micronVolatileCRWREN :: "'w qspi \<Rightarrow> flash_info_t \<Rightarrow> bool \<Rightarrow> ('w, unit) io" where
  "flashcfg_micronVolatileCRWREN q info enable =
     io_bind (flashcfg_optionSet q info flash_cmd_wren) (\<lambda>_.
     io_bind (q_command q (Some [0xb1, if enable then 0xfe else 0xfe OR 1, 0xff]) 3 FLASH_TIMEOUT_CMD_MS) (\<lambda>_.
     flashcfg_wipCheck q info FLASH_TIMEOUT_WIP_MS))"

text \<open>\<open>dummyCyc - 1\<close> is an \<open>int\<close> in the test, and cut to a byte where it is stored.\<close>

definition flashcfg_micronInit :: "'w qspi \<Rightarrow> flash_info_t \<Rightarrow> ('w, unit) io" where
  "flashcfg_micronInit q info =
     (let d = dummyCyc (cmds info (readCmd info)) in
      if uint d - 1 > 0xf then io_throw EINVAL
      else
        io_bind (flashcfg_micronVolatileCRWREN q info True) (\<lambda>_.
        io_bind (q_command q (Some [0x81, push_bit 4 (d - 1) OR 0x0b]) 2 FLASH_TIMEOUT_CMD_MS) (\<lambda>_.
        io_bind (flashcfg_wipCheck q info FLASH_TIMEOUT_WIP_MS) (\<lambda>_.
        flashcfg_micronVolatileCRWREN q info False))))"

text \<open>The second byte of the first command is sent from an array that is not initialised: the parameter \<open>junk\<close>.\<close>

definition flashcfg_winbondInit :: "u8 \<Rightarrow> 'w qspi \<Rightarrow> flash_info_t \<Rightarrow> ('w, unit) io" where
  "flashcfg_winbondInit junk q info =
     io_bind (q_command q (Some [0x50, junk]) 2 FLASH_TIMEOUT_CMD_MS) (\<lambda>_.
     io_bind (q_command q (Some [0x01, 0, if quad_used info then push_bit 1 1 else 0, push_bit 5 3]) 4 FLASH_TIMEOUT_CMD_MS) (\<lambda>_.
     flashcfg_wipCheck q info FLASH_TIMEOUT_WIP_MS))"

definition flashcfg_init :: "u8 \<Rightarrow> 'w qspi \<Rightarrow> flash_info_t \<Rightarrow> ('w, unit) io" where
  "flashcfg_init junk q info =
     (case fl_init info of
        init_none \<Rightarrow> io_return ()
      | init_spansion \<Rightarrow> flashcfg_spansionInit q info
      | init_micron \<Rightarrow> flashcfg_micronInit q info
      | init_winbond \<Rightarrow> flashcfg_winbondInit junk q info)"

end
