(* ===== verification/Flashdrv.thy ===== *)
theory Flashdrv
  imports Flashcfg Phfs
begin

text \<open>
  \<open>devices/flash-zynq/flashdrv.c\<close>: the NOR flash behind the Quad-SPI controller as a storage device. Writing goes through a buffer of one sector:
  the first write into a sector reads the sector into the buffer and erases it, the data is put into the buffer, and the buffer is
  programmed page by page when it is full, when a write leaves the sector, or on \<open>sync\<close>. The driver's state is \<open>fdrv_common\<close>; with the world of the bus
  it is the state \<open>'w zflash\<close> its operations work on.
  Offsets and sizes on the chip are natural numbers: they are sums of at most four region sizes of less than \<open>2^41\<close> bytes; the bounds checks on the caller's
  numbers are made on 64-bit words, as in the code. The buffers the callers pass are not NULL. The command and receive buffers after a failed transfer
  are left as they were; the code does not read them then.
\<close>

section \<open>State\<close>

record fdrv =
  cmdRx :: bytes
  cmdTx :: bytes
  buff :: bytes
  buffPos :: nat
  regID :: u32
  sectID :: u32
  fl_info :: flash_info_t

record 'w zflash =
  zf_drv :: fdrv
  zf_w :: 'w

definition TIMEOUT_CMD_MS :: int where "TIMEOUT_CMD_MS = 5"
definition MAX_SIZE_CMD :: nat where "MAX_SIZE_CMD = 0x20"

definition zf_lift :: "('w, 'a) io \<Rightarrow> ('w zflash, 'a) io" where
  "zf_lift m s = (case m (zf_w s) of None \<Rightarrow> None | Some (r, w') \<Rightarrow> Some (r, s\<lparr>zf_w := w'\<rparr>))"

definition zf_modify :: "(fdrv \<Rightarrow> fdrv) \<Rightarrow> ('w zflash, unit) io" where
  "zf_modify f s = Some (Inr (), s\<lparr>zf_drv := f (zf_drv s)\<rparr>)"

definition zf_get :: "(fdrv \<Rightarrow> ('w zflash, 'a) io) \<Rightarrow> ('w zflash, 'a) io" where
  "zf_get f s = f (zf_drv s) s"

section \<open>Regions\<close>

definition region_bytes :: "flash_reg_t \<Rightarrow> nat" where
  "region_bytes r = unat (CFI_SIZE_REGION (reg_size r) (reg_count r))"

definition sect_bytes :: "flash_cfi_t \<Rightarrow> nat \<Rightarrow> nat" where
  "sect_bytes c i = unat (CFI_SIZE_SECTION (reg_size (regs c ! i)))"

definition flashdrv_regStart :: "flash_cfi_t \<Rightarrow> nat \<Rightarrow> nat" where
  "flashdrv_regStart c i = sum_list (map region_bytes (take i (regs c)))"

text \<open>Behind a region the search goes on from the size of that region, not from its end.\<close>

fun region_loop :: "flash_reg_t list \<Rightarrow> nat \<Rightarrow> nat \<Rightarrow> nat \<Rightarrow> nat option" where
  "region_loop [] i start offs = None"
| "region_loop (r # rs) i start offs =
     (if offs \<ge> start \<and> offs < start + region_bytes r then Some i else region_loop rs (Suc i) (region_bytes r) offs)"

definition flashdrv_regionFind :: "flash_cfi_t \<Rightarrow> nat \<Rightarrow> errno + nat" where
  "flashdrv_regionFind c offs =
     (case region_loop (take (unat (regsCount c)) (regs c)) 0 0 offs of None \<Rightarrow> Inl EINVAL | Some i \<Rightarrow> Inr i)"

section \<open>Commands\<close>

definition tx_clear :: "nat \<Rightarrow> u8 \<Rightarrow> bytes \<Rightarrow> bytes" where
  "tx_clear n opc tx = (memcpy_to tx 0 (replicate n 0))[0 := opc]"

definition byte_of :: "nat \<Rightarrow> nat \<Rightarrow> u8" where
  "byte_of k offs = of_nat (drop_bit k offs)"

definition flashdrv_serializeTxCmd :: "addr_mode \<Rightarrow> flash_cmd_t \<Rightarrow> nat \<Rightarrow> bytes \<Rightarrow> bytes" where
  "flashdrv_serializeTxCmd mode cmd offs tx =
     (let tx1 = tx_clear (unat (cmd_size cmd)) (opCode cmd) tx in
      if mode = flash_4byteAddr
      then tx1[1 := byte_of 24 offs, 2 := byte_of 16 offs, 3 := byte_of 8 offs, 4 := byte_of 0 offs]
      else tx1[1 := byte_of 16 offs, 2 := byte_of 8 offs, 3 := byte_of 0 offs])"

text \<open>One transaction with two transfers; the second is left out if the first fails, the chip is deselected in any case.\<close>

definition q_command2 :: "'w qspi \<Rightarrow> bytes option \<Rightarrow> nat \<Rightarrow> int \<Rightarrow> bytes option \<Rightarrow> nat \<Rightarrow> int \<Rightarrow> ('w, bytes \<times> bytes) io" where
  "q_command2 q tx1 n1 t1 tx2 n2 t2 w =
     (case io_bind (q_xfer q tx1 n1 t1) (\<lambda>rx1. io_bind (q_xfer q tx2 n2 t2) (\<lambda>rx2. io_return (rx1, rx2))) (q_start q w) of
        None \<Rightarrow> None
      | Some (r, w1) \<Rightarrow> (case q_stop q w1 of None \<Rightarrow> None | Some w2 \<Rightarrow> Some (r, w2)))"

definition zf_storeRx :: "bytes \<Rightarrow> ('w zflash, unit) io" where
  "zf_storeRx rx = zf_modify (\<lambda>d. d\<lparr>cmdRx := memcpy_to (cmdRx d) 0 rx\<rparr>)"

definition flashdrv_cfiRead :: "'w qspi \<Rightarrow> ('w zflash, unit) io" where
  "flashdrv_cfiRead q =
     (let cmd = flashcfg_jedecIDGet;
          size1 = unat (cmd_size cmd);
          cmdSz = (size1 + (unat (dummyCyc cmd) * unat (dataLines cmd)) div 8 + 3) div 4 * 4;
          dataSz = cmdSz - size1
      in io_bind (zf_modify (\<lambda>d. d\<lparr>cmdTx := tx_clear cmdSz (opCode cmd) (cmdTx d)\<rparr>)) (\<lambda>_.
         zf_get (\<lambda>d.
         io_bind (zf_lift (q_command2 q (Some (cmdTx d)) cmdSz TIMEOUT_CMD_MS None (sizeof_flash_cfi - dataSz) (5 * TIMEOUT_CMD_MS))) (\<lambda>(rx1, rx2).
         io_bind (zf_storeRx rx1) (\<lambda>_.
         zf_modify (\<lambda>d. d\<lparr>fl_info := (fl_info d)\<lparr>cfi := cfi_of (take dataSz (drop size1 rx1) @ rx2)\<rparr>\<rparr>))))))"

definition flashdrv_statusRegGet :: "'w qspi \<Rightarrow> ('w zflash, u8) io" where
  "flashdrv_statusRegGet q =
     zf_get (\<lambda>d0. let cmd = cmds (fl_info d0) flash_cmd_rdsr1; cmdSz = unat (cmd_size cmd) + STATUS_REG_SIZE in
     io_bind (zf_modify (\<lambda>d. d\<lparr>cmdTx := tx_clear cmdSz (opCode cmd) (cmdTx d)\<rparr>)) (\<lambda>_.
     zf_get (\<lambda>d.
     io_bind (zf_lift (q_command q (Some (cmdTx d)) cmdSz TIMEOUT_CMD_MS)) (\<lambda>rx.
     io_bind (zf_storeRx rx) (\<lambda>_.
     zf_get (\<lambda>d. io_return (cmdRx d ! unat (cmd_size cmd))))))))"

definition zf_timer :: "'w qspi \<Rightarrow> 'w zflash \<Rightarrow> int \<times> 'w zflash" where
  "zf_timer q s = (case q_timer q (zf_w s) of (t, w') \<Rightarrow> (t, s\<lparr>zf_w := w'\<rparr>))"

definition flashdrv_wipCheck :: "'w qspi \<Rightarrow> int \<Rightarrow> ('w zflash, unit) io" where
  "flashdrv_wipCheck q timeout s =
     (case zf_timer q s of (t, s1) \<Rightarrow> wip_loop (flashdrv_statusRegGet q) (zf_timer q) (t + timeout) s1)"

definition flashdrv_optionSet :: "'w qspi \<Rightarrow> flash_cmd \<Rightarrow> ('w zflash, unit) io" where
  "flashdrv_optionSet q cmdID =
     zf_get (\<lambda>d0. let cmd = cmds (fl_info d0) cmdID in
     io_bind (zf_modify (\<lambda>d. d\<lparr>cmdTx := tx_clear (unat (cmd_size cmd)) (opCode cmd) (cmdTx d)\<rparr>)) (\<lambda>_.
     zf_get (\<lambda>d.
     io_bind (zf_lift (q_command q (Some (cmdTx d)) (unat (cmd_size cmd)) TIMEOUT_CMD_MS)) zf_storeRx)))"

definition flashdrv_chipErase :: "'w qspi \<Rightarrow> ('w zflash, unit) io" where
  "flashdrv_chipErase q =
     zf_get (\<lambda>d0. let cmd = cmds (fl_info d0) flash_cmd_be; c = cfi (fl_info d0) in
     io_bind (flashdrv_optionSet q flash_cmd_wren) (\<lambda>_.
     io_bind (zf_modify (\<lambda>d. d\<lparr>cmdTx := tx_clear (unat (cmd_size cmd)) (opCode cmd) (cmdTx d)\<rparr>)) (\<lambda>_.
     zf_get (\<lambda>d.
     io_bind (zf_lift (q_command q (Some (cmdTx d)) (unat (cmd_size cmd)) TIMEOUT_CMD_MS)) (\<lambda>_.
     flashdrv_wipCheck q (uint (CFI_TIMEOUT_MAX_ERASE (chipErase (timeoutTypical c)) (chipErase (timeoutMax c))) + TIMEOUT_CMD_MS))))))"

definition erase_cmd :: "flash_info_t \<Rightarrow> nat \<Rightarrow> flash_cmd_t option" where
  "erase_cmd fi sectSz =
     (if sectSz = 0x1000 then Some (if addrMode fi = flash_4byteAddr then cmds fi flash_cmd_4p4e else cmds fi flash_cmd_p4e)
      else if sectSz = 0x10000 then Some (if addrMode fi = flash_4byteAddr then cmds fi flash_cmd_4p64e else cmds fi flash_cmd_p64e)
      else None)"

definition flashdrv_sectorErase :: "'w qspi \<Rightarrow> nat \<Rightarrow> nat \<Rightarrow> ('w zflash, unit) io" where
  "flashdrv_sectorErase q offs sectSz =
     zf_get (\<lambda>d0. let fi = fl_info d0; c = cfi fi in
     if offs > unat (CFI_SIZE_FLASH (chipSize c)) then io_throw EINVAL
     else case erase_cmd fi sectSz of
       None \<Rightarrow> io_throw EINVAL
     | Some cmd \<Rightarrow>
         io_bind (flashdrv_optionSet q flash_cmd_wren) (\<lambda>_.
         io_bind (zf_modify (\<lambda>d. d\<lparr>cmdTx := flashdrv_serializeTxCmd (addrMode fi) cmd offs (cmdTx d)\<rparr>)) (\<lambda>_.
         zf_get (\<lambda>d.
         io_bind (zf_lift (q_command q (Some (cmdTx d)) (unat (cmd_size cmd)) TIMEOUT_CMD_MS)) (\<lambda>rx.
         io_bind (zf_storeRx rx) (\<lambda>_.
         flashdrv_wipCheck q (uint (CFI_TIMEOUT_MAX_ERASE (sectorErase (timeoutTypical c)) (sectorErase (timeoutMax c))) + TIMEOUT_CMD_MS)))))))"

definition flashdrv_pageProgram :: "'w qspi \<Rightarrow> nat \<Rightarrow> bytes \<Rightarrow> ('w zflash, nat) io" where
  "flashdrv_pageProgram q offs data =
     zf_get (\<lambda>d0. let fi = fl_info d0; c = cfi fi; cmd = cmds fi (ppCmd fi) in
     if length data = 0 then io_return 0
     else if length data mod unat (CFI_SIZE_PAGE (pageSize c)) \<noteq> 0 then io_throw EINVAL
     else
       io_bind (flashdrv_optionSet q flash_cmd_wren) (\<lambda>_.
       io_bind (zf_modify (\<lambda>d. d\<lparr>cmdTx := flashdrv_serializeTxCmd (addrMode fi) cmd offs (cmdTx d)\<rparr>)) (\<lambda>_.
       zf_get (\<lambda>d.
       io_bind (zf_lift (q_command2 q (Some (cmdTx d)) (unat (cmd_size cmd)) TIMEOUT_CMD_MS (Some data) (length data) TIMEOUT_CMD_MS)) (\<lambda>(rx, _).
       io_bind (zf_storeRx rx) (\<lambda>_.
       io_bind (flashdrv_wipCheck q (uint (CFI_TIMEOUT_MAX_PROGRAM (pageWrite (timeoutTypical c)) (pageWrite (timeoutMax c))) + TIMEOUT_CMD_MS)) (\<lambda>_.
       io_return (length data))))))))"

section \<open>The device interface\<close>

text \<open>The byte 0xff is put behind the dummy bytes, whose own values are left as they were.\<close>

definition flashdrv_read :: "'w qspi \<Rightarrow> nat \<Rightarrow> nat \<Rightarrow> int \<Rightarrow> ('w zflash, bytes) io" where
  "flashdrv_read q offs len timeout =
     zf_get (\<lambda>d0. let fi = fl_info d0; cmd = cmds fi (readCmd fi) in
     if len = 0 then io_return []
     else
       let dummySz = (unat (dummyCyc cmd) * unat (dataLines cmd)) div 8;
           cmdSz = unat (cmd_size cmd) + dummySz;
           paddedCmdSz = (cmdSz + 3) div 4 * 4;
           transferSz = paddedCmdSz - cmdSz;
           dataSz = (if transferSz > len then len else transferSz)
       in
       io_bind (zf_modify (\<lambda>d. d\<lparr>cmdTx := memcpy_to (flashdrv_serializeTxCmd (addrMode fi) cmd offs (cmdTx d)) cmdSz (replicate dummySz 0xff)\<rparr>)) (\<lambda>_.
       zf_get (\<lambda>d.
       io_bind (zf_lift (q_command2 q (Some (cmdTx d)) paddedCmdSz TIMEOUT_CMD_MS None (len - dataSz) timeout)) (\<lambda>(rx1, rx2).
       io_bind (zf_storeRx rx1) (\<lambda>_.
       io_return (take dataSz (drop cmdSz rx1) @ rx2))))))"

definition buff_reset :: "fdrv \<Rightarrow> fdrv" where
  "buff_reset d = d\<lparr>buffPos := 0, regID := -1, sectID := -1\<rparr>"

fun sync_pages :: "'w qspi \<Rightarrow> nat \<Rightarrow> nat \<Rightarrow> bytes \<Rightarrow> nat \<Rightarrow> nat \<Rightarrow> ('w zflash, unit) io" where
  "sync_pages q dst pageSz src i 0 = io_return ()"
| "sync_pages q dst pageSz src i (Suc left) =
     io_bind (flashdrv_pageProgram q (dst + i * pageSz) (memcpy_from src (i * pageSz) pageSz)) (\<lambda>_.
     sync_pages q dst pageSz src (Suc i) left)"

definition flashdrv_sync :: "'w qspi \<Rightarrow> ('w zflash, unit) io" where
  "flashdrv_sync q =
     zf_get (\<lambda>d. let c = cfi (fl_info d) in
     if buffPos d = 0 then io_return ()
     else
       let regStart = flashdrv_regStart c (unat (regID d));
           sectSz = sect_bytes c (unat (regID d));
           pageSz = unat (CFI_SIZE_PAGE (pageSize c))
       in
       io_bind (sync_pages q (regStart + unat (sectID d) * sectSz) pageSz (buff d) 0 (sectSz div pageSz)) (\<lambda>_.
       zf_modify buff_reset))"

text \<open>A write into another sector than the buffered one: the buffer is written back, filled from the new sector, and the sector is erased.\<close>

definition sector_switch :: "'w qspi \<Rightarrow> nat \<Rightarrow> u32 \<Rightarrow> u32 \<Rightarrow> nat \<Rightarrow> nat \<Rightarrow> ('w zflash, unit) io" where
  "sector_switch q offs reg sect regStart sectSz =
     io_bind (flashdrv_sync q) (\<lambda>_.
     io_bind (flashdrv_read q (regStart + sectSz * unat sect) sectSz ((int sectSz * TIMEOUT_CMD_MS) div 0x100)) (\<lambda>bs.
     io_bind (zf_modify (\<lambda>d. d\<lparr>buff := memcpy_to (buff d) 0 bs\<rparr>)) (\<lambda>_.
     io_bind (flashdrv_sectorErase q (regStart + sectSz * unat sect) sectSz) (\<lambda>_.
     zf_modify (\<lambda>d. d\<lparr>buffPos := offs - regStart - unat sect * sectSz, regID := reg, sectID := sect\<rparr>)))))"

partial_function (option) write_loop :: "'w qspi \<Rightarrow> bytes \<Rightarrow> nat \<Rightarrow> nat \<Rightarrow> 'w zflash \<Rightarrow> ((errno + nat) \<times> 'w zflash) option" where
  "write_loop q data offs saveSz s =
     (if saveSz < length data then
        let c = cfi (fl_info (zf_drv s)) in
        case flashdrv_regionFind c offs of
          Inl e \<Rightarrow> Some (Inl e, s)
        | Inr reg \<Rightarrow>
            let regStart = flashdrv_regStart c reg; sectSz = sect_bytes c reg; sect = of_nat ((offs - regStart) div sectSz) in
            case (if of_nat reg \<noteq> regID (zf_drv s) \<or> sect \<noteq> sectID (zf_drv s)
                  then sector_switch q offs (of_nat reg) sect regStart sectSz else io_return ()) s of
              None \<Rightarrow> None
            | Some (Inl e, s1) \<Rightarrow> Some (Inl e, s1)
            | Some (Inr _, s1) \<Rightarrow>
                let d = zf_drv s1;
                    freeSz = sectSz - buffPos d;
                    chunkSz = (if freeSz > length data - saveSz then length data - saveSz else freeSz);
                    s2 = s1\<lparr>zf_drv := d\<lparr>buff := memcpy_to (buff d) (buffPos d) (memcpy_from data saveSz chunkSz), buffPos := buffPos d + chunkSz\<rparr>\<rparr>
                in if buffPos d + chunkSz < sectSz then write_loop q data (offs + chunkSz) (saveSz + chunkSz) s2
                   else case flashdrv_sync q s2 of
                          None \<Rightarrow> None
                        | Some (Inl e, s3) \<Rightarrow> Some (Inl e, s3)
                        | Some (Inr _, s3) \<Rightarrow> write_loop q data (offs + chunkSz) (saveSz + chunkSz) s3
      else Some (Inr saveSz, s))"

definition flash_end :: "flash_cfi_t \<Rightarrow> addr_t" where
  "flash_end c = ucast (CFI_SIZE_FLASH (chipSize c))"

definition flashdrv_write :: "'w qspi \<Rightarrow> nat \<Rightarrow> addr_t \<Rightarrow> bytes \<Rightarrow> ('w zflash, size_t) io" where
  "flashdrv_write q minor offs data =
     (if length data = 0 then io_return 0
      else zf_get (\<lambda>d.
        if offs + of_nat (length data) > flash_end (cfi (fl_info d)) then io_throw EINVAL
        else io_bind (write_loop q data (unat offs) 0) (\<lambda>n. io_return (of_nat n))))"

text \<open>The loop of \<open>flashdrv_erase\<close>; \<open>erased\<close> is the number of bytes erased so far.\<close>

partial_function (option) erase_loop :: "'w qspi \<Rightarrow> nat \<Rightarrow> nat \<Rightarrow> nat \<Rightarrow> 'w zflash \<Rightarrow> ((errno + nat) \<times> 'w zflash) option" where
  "erase_loop q addr ende erased s =
     (if addr < ende then
        case flashdrv_regionFind (cfi (fl_info (zf_drv s))) addr of
          Inl e \<Rightarrow> Some (Inl e, s)
        | Inr reg \<Rightarrow>
            let sectSz = sect_bytes (cfi (fl_info (zf_drv s))) reg in
            case flashdrv_sectorErase q addr sectSz s of
              None \<Rightarrow> None
            | Some (Inl e, s1) \<Rightarrow> Some (Inl e, s1)
            | Some (Inr _, s1) \<Rightarrow> erase_loop q (addr + sectSz) ende (erased + sectSz) s1
      else Some (Inr erased, s))"

definition sect_mask :: "flash_cfi_t \<Rightarrow> nat \<Rightarrow> addr_t" where
  "sect_mask c i = CFI_SIZE_SECTION (reg_size (regs c ! i)) - 1"

definition flashdrv_erase :: "'w qspi \<Rightarrow> nat \<Rightarrow> addr_t \<Rightarrow> size_t \<Rightarrow> u32 \<Rightarrow> ('w zflash, size_t) io" where
  "flashdrv_erase q minor addr len flags =
     (if len = 0 then io_return 0
      else io_bind (zf_modify buff_reset) (\<lambda>_.
        zf_get (\<lambda>d. let c = cfi (fl_info d) in
        if len = -1 then io_bind (flashdrv_chipErase q) (\<lambda>_. io_return (flash_end c))
        else if addr + len > flash_end c then io_throw EINVAL
        else
          io_bind (io_of (flashdrv_regionFind c (unat (addr + len - 1)))) (\<lambda>id1.
          let ende = (addr + len + sect_mask c id1) AND NOT (sect_mask c id1) in
          io_bind (io_of (flashdrv_regionFind c (unat addr))) (\<lambda>id2.
          let addr1 = addr AND NOT (sect_mask c id2) in
          io_bind (erase_loop q (unat addr1) (unat ende) 0) (\<lambda>n. io_return (of_nat n)))))))"

definition flashdrv_map :: "nat \<Rightarrow> addr_t \<Rightarrow> size_t \<Rightarrow> u32 \<Rightarrow> addr_t \<Rightarrow> size_t \<Rightarrow> u32 \<Rightarrow> ('w zflash, mappable \<times> addr_t) io" where
  "flashdrv_map minor addr sz mode memaddr memsz memmode =
     (if (mode AND memmode) \<noteq> mode then io_throw EINVAL else io_return (NotMappable, 0))"

record 'w zboard =
  zb_zynqmp :: "'w zynqmp"
  zb_hw :: "'w qspi_hw"
  zb_pins :: qspi_board
  zb_junk :: u8

definition flashdrv_done :: "'w zboard \<Rightarrow> nat \<Rightarrow> ('w zflash, unit) io" where
  "flashdrv_done b minor =
     io_bind (io_try (flashdrv_sync (qspi_ops (zb_hw b)))) (\<lambda>r.
     case r of
       Inl e \<Rightarrow> io_bind (io_try (zf_lift (qspi_deinit (zb_zynqmp b) (zb_hw b)))) (\<lambda>_. io_throw e)
     | Inr _ \<Rightarrow> zf_lift (qspi_deinit (zb_zynqmp b) (zb_hw b)))"

definition flashdrv_init :: "'w zboard \<Rightarrow> nat \<Rightarrow> ('w zflash, unit) io" where
  "flashdrv_init b minor =
     (let q = qspi_ops (zb_hw b) in
      io_bind (zf_modify buff_reset) (\<lambda>_.
      io_bind (zf_lift (qspi_init (zb_zynqmp b) (zb_hw b) (zb_pins b))) (\<lambda>_.
      io_bind (flashdrv_cfiRead q) (\<lambda>_.
      io_bind (\<lambda>s. case flashcfg_infoResolve (fl_info (zf_drv s)) of (r, fi) \<Rightarrow> Some (r, s\<lparr>zf_drv := (zf_drv s)\<lparr>fl_info := fi\<rparr>\<rparr>)) (\<lambda>_.
      zf_get (\<lambda>d. let fi = fl_info d; rcmd = cmds fi (readCmd fi) in
      if list_ex (\<lambda>r. unat (CFI_SIZE_SECTION (reg_size r)) > 65536) (take (unat (regsCount (cfi fi))) (regs (cfi fi))) then io_throw EINVAL
      else
        io_bind (zf_lift (flashcfg_init (zb_junk b) q fi)) (\<lambda>_.
        if dummyCyc rcmd = CFI_DUMMY_CYCLES_NOT_SET \<or> (unat (dummyCyc rcmd) * unat (dataLines rcmd)) mod 8 \<noteq> 0 then io_throw EINVAL
        else io_return ())))))))"

definition opsFlashZYNQ :: "'w zboard \<Rightarrow> 'w zflash dev_ops_t" where
  "opsFlashZYNQ b = (let q = qspi_ops (zb_hw b) in
     \<lparr>op_sync = Some (\<lambda>_. flashdrv_sync q), op_map = Some flashdrv_map, op_control = None,
      op_read = Some (\<lambda>minor offs len timeout. flashdrv_read q (unat offs) (unat len) timeout),
      op_write = Some (flashdrv_write q), op_erase = Some (flashdrv_erase q)\<rparr>)"

definition flashdrv_reg :: "'w zboard \<Rightarrow> 'w zflash devs \<Rightarrow> 'w zflash devs" where
  "flashdrv_reg b = devs_register DEV_STORAGE 1
     \<lparr>dev_name = Some ''flash-zynq'', dev_init = Some (flashdrv_init b), dev_done = Some (flashdrv_done b), dev_ops = Some (opsFlashZYNQ b)\<rparr>"

end
