(* ===== verification/Flash_Cmds.thy ===== *)
theory Flash_Cmds
  imports Flashdrv
begin

text \<open>
  The commands of the flash driver. \<open>prompt\<close> is how operations with timeouts end; the locale \<open>nor_chip\<close> is what a NOR flash chip promises, and \<open>flash_dev\<close> puts it
  behind a bus that keeps the contract \<open>spi_bus\<close> of \<open>Qspi\<close>. Shown: what reading the status, waiting, write enable, erasing a sector, programming pages and reading do to the chip.
\<close>

section \<open>Operations that end, in time or with ETIME\<close>

text \<open>
  \<open>prompt clock m s Q\<close>: from state \<open>s\<close> the operation \<open>m\<close> returns; either its result satisfies \<open>Q\<close>, or it is ETIME and at least five milliseconds
  (the shortest timeout of the driver) have passed.
\<close>

definition prompt :: "('s \<Rightarrow> int) \<Rightarrow> ('s, 'a) io \<Rightarrow> 's \<Rightarrow> ('a \<Rightarrow> 's \<Rightarrow> bool) \<Rightarrow> bool" where
  "prompt clock m s Q \<longleftrightarrow>
     (\<exists>x s'. m s = Some (Inr x, s') \<and> clock s \<le> clock s' \<and> Q x s') \<or>
     (\<exists>s'. m s = Some (Inl ETIME, s') \<and> clock s + 5 \<le> clock s')"

lemma prompt_Inr: "m s = Some (Inr x, s') \<Longrightarrow> clock s \<le> clock s' \<Longrightarrow> Q x s' \<Longrightarrow> prompt clock m s Q"
  by (simp add: prompt_def)

lemma prompt_Inl: "m s = Some (Inl ETIME, s') \<Longrightarrow> clock s + 5 \<le> clock s' \<Longrightarrow> prompt clock m s Q"
  by (simp add: prompt_def)

lemma promptE:
  assumes "prompt clock m s Q"
  obtains x s' where "m s = Some (Inr x, s')" "clock s \<le> clock s'" "Q x s'"
    | s' where "m s = Some (Inl ETIME, s')" "clock s + 5 \<le> clock s'"
  using assms by (auto simp: prompt_def)

lemma prompt_bind:
  assumes "prompt clock m s Q" "\<And>x s'. clock s \<le> clock s' \<Longrightarrow> Q x s' \<Longrightarrow> prompt clock (f x) s' R"
  shows "prompt clock (io_bind m f) s R"
  using assms(1)
proof (cases rule: promptE)
  case (1 x s')
  then show ?thesis using assms(2) [OF 1(2,3)] by (fastforce simp: prompt_def io_bind_def)
qed (auto simp: prompt_def io_bind_def)

lemma prompt_weaken: "prompt clock m s Q \<Longrightarrow> (\<And>x s'. Q x s' \<Longrightarrow> R x s') \<Longrightarrow> prompt clock m s R"
  by (auto simp: prompt_def)

lemma prompt_return [simp]: "prompt clock (io_return x) s Q \<longleftrightarrow> Q x s"
  by (simp add: prompt_def io_return_def)

definition zclock :: "('w \<Rightarrow> int) \<Rightarrow> 'w zflash \<Rightarrow> int" where
  "zclock now s = now (zf_w s)"

lemma prompt_modify [simp]: "prompt (zclock now) (zf_modify f) s Q \<longleftrightarrow> Q () (s\<lparr>zf_drv := f (zf_drv s)\<rparr>)"
  by (simp add: prompt_def zf_modify_def zclock_def)

lemma prompt_get [simp]: "prompt clock (zf_get f) s Q \<longleftrightarrow> prompt clock (f (zf_drv s)) s Q"
  by (simp add: prompt_def zf_get_def)

lemma prompt_bind_modify [simp]:
  "prompt (zclock now) (io_bind (zf_modify f) m) s Q \<longleftrightarrow> prompt (zclock now) (m ()) (s\<lparr>zf_drv := f (zf_drv s)\<rparr>) Q"
  by (simp add: prompt_def io_bind_def zf_modify_def zclock_def)

lemma prompt_lift:
  assumes "prompt now m (zf_w s) Q" "\<And>x w'. Q x w' \<Longrightarrow> R x (s\<lparr>zf_w := w'\<rparr>)"
  shows "prompt (zclock now) (zf_lift m) s R"
  using assms(1)
  by (auto simp: prompt_def zf_lift_def zclock_def dest: assms(2))

section \<open>The contract of the chip\<close>

text \<open>The bytes of an address on the bus.\<close>

definition addr_bytes :: "addr_mode \<Rightarrow> nat \<Rightarrow> bytes" where
  "addr_bytes mode a = (if mode = flash_4byteAddr then [byte_of 24 a] else []) @ [byte_of 16 a, byte_of 8 a, byte_of 0 a]"

definition addr_len :: "addr_mode \<Rightarrow> nat" where
  "addr_len mode = (if mode = flash_4byteAddr then 4 else 3)"

definition flash_bytes :: "flash_info_t \<Rightarrow> nat" where
  "flash_bytes fi = unat (CFI_SIZE_FLASH (chipSize (cfi fi)))"

definition page_bytes :: "flash_info_t \<Rightarrow> nat" where
  "page_bytes fi = unat (CFI_SIZE_PAGE (pageSize (cfi fi)))"

definition read_dummy :: "flash_info_t \<Rightarrow> nat" where
  "read_dummy fi = (unat (dummyCyc (cmds fi (readCmd fi))) * unat (dataLines (cmds fi (readCmd fi)))) div 8"

text \<open>
  The NOR flash of the data sheets: \<open>cells\<close> is its contents, \<open>wel\<close> its write enable latch, \<open>wip\<close> the number of status readings that still show it busy.
  Erasing sets the bytes of a sector to 0xff, programming a page can only clear bits.
\<close>

locale nor_chip =
  fixes fi :: flash_info_t and resp :: "'c \<Rightarrow> bytes \<Rightarrow> u8" and fin :: "'c \<Rightarrow> bytes \<Rightarrow> 'c"
    and cok :: "'c \<Rightarrow> bool" and cells :: "'c \<Rightarrow> bytes" and wel :: "'c \<Rightarrow> bool" and wip :: "'c \<Rightarrow> nat"
  assumes cells_size: "cok c \<Longrightarrow> length (cells c) = flash_bytes fi"
    and status_resp: "cok c \<Longrightarrow> bit (resp c [opCode (cmds fi flash_cmd_rdsr1)]) 0 \<longleftrightarrow> 0 < wip c"
    and status_fin: "cok c \<Longrightarrow> c' = fin c [opCode (cmds fi flash_cmd_rdsr1), x] \<Longrightarrow>
      cok c' \<and> cells c' = cells c \<and> wel c' = wel c \<and> wip c' = wip c - 1"
    and wren_fin: "cok c \<Longrightarrow> wip c = 0 \<Longrightarrow> c' = fin c [opCode (cmds fi flash_cmd_wren)] \<Longrightarrow>
      cok c' \<and> cells c' = cells c \<and> wel c' \<and> wip c' = 0"
    and erase_fin: "cok c \<Longrightarrow> wip c = 0 \<Longrightarrow> wel c \<Longrightarrow> erase_cmd fi sz = Some cmd \<Longrightarrow> sz dvd a \<Longrightarrow> a + sz \<le> flash_bytes fi \<Longrightarrow>
      c' = fin c (opCode cmd # addr_bytes (addrMode fi) a) \<Longrightarrow>
      cok c' \<and> cells c' = memcpy_to (cells c) a (replicate sz 0xff)"
    and program_fin: "cok c \<Longrightarrow> wip c = 0 \<Longrightarrow> wel c \<Longrightarrow> length data = page_bytes fi \<Longrightarrow> page_bytes fi dvd a \<Longrightarrow>
      a + length data \<le> flash_bytes fi \<Longrightarrow> c' = fin c (opCode (cmds fi (ppCmd fi)) # addr_bytes (addrMode fi) a @ data) \<Longrightarrow>
      cok c' \<and> cells c' = memcpy_to (cells c) a (map2 (AND) (memcpy_from (cells c) a (length data)) data)"
    and read_resp: "cok c \<Longrightarrow> wip c = 0 \<Longrightarrow> length dummy = read_dummy fi \<Longrightarrow> a + length rest < flash_bytes fi \<Longrightarrow>
      resp c (opCode (cmds fi (readCmd fi)) # addr_bytes (addrMode fi) a @ dummy @ rest) = cells c ! (a + length rest)"
    and read_fin: "cok c \<Longrightarrow> wip c = 0 \<Longrightarrow> c' = fin c (opCode (cmds fi (readCmd fi)) # addr_bytes (addrMode fi) a @ rest) \<Longrightarrow>
      cok c' \<and> cells c' = cells c \<and> wip c' = 0"
    and chip_erase_fin: "cok c \<Longrightarrow> wip c = 0 \<Longrightarrow> wel c \<Longrightarrow> c' = fin c [opCode (cmds fi flash_cmd_be)] \<Longrightarrow>
      cok c' \<and> cells c' = replicate (flash_bytes fi) 0xff"

text \<open>What the driver relies on in the data of a chip.\<close>

definition cmds_ok :: "flash_info_t \<Rightarrow> bool" where
  "cmds_ok fi \<longleftrightarrow> cmd_size (cmds fi flash_cmd_rdsr1) = 1 \<and> cmd_size (cmds fi flash_cmd_wren) = 1 \<and> cmd_size (cmds fi flash_cmd_be) = 1 \<and>
     (let n = addr_len (addrMode fi) in
      list_all (\<lambda>c. unat (cmd_size (cmds fi c)) = n + 1)
        ([readCmd fi, ppCmd fi] @ (if addrMode fi = flash_4byteAddr then [flash_cmd_4p4e, flash_cmd_4p64e] else [flash_cmd_p4e, flash_cmd_p64e])) \<and>
      n + 1 + 2 * read_dummy fi \<le> 28)"

text \<open>
  One or two regions that cover the chip, with sectors of 4 KiB or 64 KiB (for other sizes the driver has no erase command and
  returns EINVAL) that are aligned, and pages that divide the smaller sector. The search for the region of an address is wrong
  with more than two regions.
\<close>

definition layout_ok :: "flash_info_t \<Rightarrow> bool" where
  "layout_ok fi \<longleftrightarrow> (let c = cfi fi; k = unat (regsCount c) in
     0 < k \<and> k \<le> 2 \<and> k \<le> length (regs c) \<and> flashdrv_regStart c k = flash_bytes fi \<and>
     list_all (\<lambda>r. unat (CFI_SIZE_SECTION (reg_size r)) \<in> {0x1000, 0x10000}) (take k (regs c)) \<and>
     list_all (\<lambda>i. sect_bytes c i dvd flashdrv_regStart c i) [0..<k] \<and>
     0 < page_bytes fi \<and> page_bytes fi dvd 0x1000)"

section \<open>Command buffers\<close>

lemma length_tx_clear [simp]: "n \<le> length tx \<Longrightarrow> length (tx_clear n opc tx) = length tx"
  by (simp add: tx_clear_def)

lemma take_tx_clear: "0 < n \<Longrightarrow> n \<le> length tx \<Longrightarrow> take n (tx_clear n opc tx) = opc # replicate (n - 1) 0"
  by (cases n) (auto simp: tx_clear_def memcpy_to_def list_update_append)

lemma length_serializeTx [simp]:
  "unat (cmd_size cmd) \<le> length tx \<Longrightarrow> length (flashdrv_serializeTxCmd mode cmd a tx) = length tx"
  by (simp add: flashdrv_serializeTxCmd_def Let_def)

lemma length_addr_bytes [simp]: "length (addr_bytes mode a) = addr_len mode"
  by (simp add: addr_bytes_def addr_len_def)

lemma take_serialize:
  assumes "length tx = 32" "unat (cmd_size cmd) = addr_len mode + 1"
  shows "take (addr_len mode + 1) (flashdrv_serializeTxCmd mode cmd a tx) = opCode cmd # addr_bytes mode a"
proof (cases "mode = flash_4byteAddr")
  case True
  then have "take 5 (tx_clear 5 (opCode cmd) tx) = [opCode cmd, 0, 0, 0, 0]" using assms(1) take_tx_clear [of 5 tx] by (simp add: numeral_eq_Suc)
  then show ?thesis
    using True assms(2) by (simp add: flashdrv_serializeTxCmd_def Let_def addr_len_def addr_bytes_def take_update_swap)
next
  case False
  then have "take 4 (tx_clear 4 (opCode cmd) tx) = [opCode cmd, 0, 0, 0]" using assms(1) take_tx_clear [of 4 tx] by (simp add: numeral_eq_Suc)
  then show ?thesis
    using False assms(2) by (simp add: flashdrv_serializeTxCmd_def Let_def addr_len_def addr_bytes_def take_update_swap)
qed

definition drv_ok :: "flash_info_t \<Rightarrow> fdrv \<Rightarrow> bool" where
  "drv_ok fi d \<longleftrightarrow> fl_info d = fi \<and> length (cmdRx d) = MAX_SIZE_CMD \<and> length (cmdTx d) = MAX_SIZE_CMD \<and> length (buff d) = 65536"

text \<open>The part of the driver's state that the commands leave alone.\<close>

definition core :: "fdrv \<Rightarrow> bytes \<times> nat \<times> u32 \<times> u32" where
  "core d = (buff d, buffPos d, regID d, sectID d)"

lemma core_simps [simp]: "core (d\<lparr>cmdTx := x\<rparr>) = core d" "core (d\<lparr>cmdRx := x\<rparr>) = core d"
  by (simp_all add: core_def)

lemma core_eqD: "core d = (b, p, r, c) \<Longrightarrow> buff d = b \<and> buffPos d = p \<and> regID d = r \<and> sectID d = c"
  by (simp add: core_def)

text \<open>The bus is free, the chip and the driver's state are in order.\<close>

definition flash_avail :: "flash_info_t \<Rightarrow> ('w \<Rightarrow> bool) \<Rightarrow> ('w \<Rightarrow> bytes option) \<Rightarrow> ('w \<Rightarrow> 'c) \<Rightarrow> ('c \<Rightarrow> bool) \<Rightarrow> 'w zflash \<Rightarrow> bool" where
  "flash_avail fi ok sel chip cok s \<longleftrightarrow> ok (zf_w s) \<and> sel (zf_w s) = None \<and> cok (chip (zf_w s)) \<and> drv_ok fi (zf_drv s)"

locale flash_dev = spi_bus q ok aborted sel chip now resp fin + nor_chip fi resp fin cok cells wel wip
  for q :: "'w qspi" and ok aborted :: "'w \<Rightarrow> bool" and sel :: "'w \<Rightarrow> bytes option" and chip :: "'w \<Rightarrow> 'c" and now :: "'w \<Rightarrow> int"
    and resp :: "'c \<Rightarrow> bytes \<Rightarrow> u8" and fin :: "'c \<Rightarrow> bytes \<Rightarrow> 'c" and fi :: flash_info_t
    and cok :: "'c \<Rightarrow> bool" and cells :: "'c \<Rightarrow> bytes" and wel :: "'c \<Rightarrow> bool" and wip :: "'c \<Rightarrow> nat" +
  assumes cmds_ok: "cmds_ok fi" and layout_ok: "layout_ok fi"
begin

abbreviation avail :: "'w zflash \<Rightarrow> bool" where
  "avail \<equiv> flash_avail fi ok sel chip cok"

abbreviation memory :: "'w zflash \<Rightarrow> bytes" where
  "memory s \<equiv> cells (chip (zf_w s))"

abbreviation busy :: "'w zflash \<Rightarrow> nat" where
  "busy s \<equiv> wip (chip (zf_w s))"

abbreviation enabled :: "'w zflash \<Rightarrow> bool" where
  "enabled s \<equiv> wel (chip (zf_w s))"

lemma command_law:
  assumes "ok w" "sel w = None" "n \<le> length tx" "5 \<le> t"
  shows "prompt now (q_command q (Some tx) n t) w (\<lambda>rx w'. ok w' \<and> sel w' = None \<and> chip w' = fin (chip w) (take n tx) \<and>
    rx = exchange resp (chip w) [] (take n tx))"
proof -
  let ?w1 = "q_start q w"
  note st = start_law [OF assms(1,2)]
  obtain r w2 where x: "q_xfer q (Some tx) n t ?w1 = Some (r, w2)" "now ?w1 \<le> now w2"
    and c: "case r of Inl e \<Rightarrow> e = ETIME \<and> now ?w1 + t \<le> now w2 \<and> aborted w2
       | Inr rx \<Rightarrow> ok w2 \<and> sel w2 = Some ([] @ outgoing (Some tx) n) \<and> chip w2 = chip ?w1 \<and> rx = exchange resp (chip ?w1) [] (outgoing (Some tx) n)"
    using xfer_law [of ?w1 "[]" "Some tx" n t] st assms(3) by (auto simp: has_bytes_def)
  show ?thesis
  proof (cases r)
    case (Inl e)
    then obtain w3 where "q_stop q w2 = Some w3" "now w2 \<le> now w3" using c stop_aborted by auto
    then show ?thesis using x c Inl st assms(4) by (intro prompt_Inl) (auto simp: q_command_def)
  next
    case (Inr rx)
    then obtain w3 where "q_stop q w2 = Some w3" "ok w3" "sel w3 = None" "chip w3 = fin (chip w2) (take n tx)" "now w2 \<le> now w3"
      using c stop_law [of w2 "take n tx"] by (auto simp: outgoing_def)
    then show ?thesis using x c Inr st by (intro prompt_Inr) (auto simp: q_command_def outgoing_def)
  qed
qed

lemma command2_law:
  assumes "ok w" "sel w = None" "n1 \<le> length tx1" "has_bytes tx2 n2" "5 \<le> t1" "5 \<le> t2"
  shows "prompt now (q_command2 q (Some tx1) n1 t1 tx2 n2 t2) w (\<lambda>(rx1, rx2) w'. ok w' \<and> sel w' = None \<and>
    chip w' = fin (chip w) (take n1 tx1 @ outgoing tx2 n2) \<and> rx1 = exchange resp (chip w) [] (take n1 tx1) \<and>
    rx2 = exchange resp (chip w) (take n1 tx1) (outgoing tx2 n2))"
proof -
  let ?w1 = "q_start q w"
  note st = start_law [OF assms(1,2)]
  obtain r w2 where x: "q_xfer q (Some tx1) n1 t1 ?w1 = Some (r, w2)" "now ?w1 \<le> now w2"
    and c: "case r of Inl e \<Rightarrow> e = ETIME \<and> now ?w1 + t1 \<le> now w2 \<and> aborted w2
       | Inr rx \<Rightarrow> ok w2 \<and> sel w2 = Some ([] @ outgoing (Some tx1) n1) \<and> chip w2 = chip ?w1 \<and> rx = exchange resp (chip ?w1) [] (outgoing (Some tx1) n1)"
    using xfer_law [of ?w1 "[]" "Some tx1" n1 t1] st assms(3) by (auto simp: has_bytes_def)
  show ?thesis
  proof (cases r)
    case (Inl e)
    then obtain w3 where "q_stop q w2 = Some w3" "now w2 \<le> now w3" using c stop_aborted by auto
    then show ?thesis using x c Inl st assms(5) by (intro prompt_Inl) (auto simp: q_command2_def io_bind_def)
  next
    case (Inr rx1)
    then have i: "ok w2" "sel w2 = Some (take n1 tx1)" "chip w2 = chip w" "rx1 = exchange resp (chip w) [] (take n1 tx1)"
      using c st by (auto simp: outgoing_def)
    obtain r' w3 where x': "q_xfer q tx2 n2 t2 w2 = Some (r', w3)" "now w2 \<le> now w3"
      and c': "case r' of Inl e \<Rightarrow> e = ETIME \<and> now w2 + t2 \<le> now w3 \<and> aborted w3
         | Inr rx \<Rightarrow> ok w3 \<and> sel w3 = Some (take n1 tx1 @ outgoing tx2 n2) \<and> chip w3 = chip w2 \<and> rx = exchange resp (chip w2) (take n1 tx1) (outgoing tx2 n2)"
      using xfer_law [OF i(1,2) assms(4), of t2] by auto
    show ?thesis
    proof (cases r')
      case (Inl e)
      then obtain w4 where "q_stop q w3 = Some w4" "now w3 \<le> now w4" using c' stop_aborted by auto
      then show ?thesis using x x' c' Inl Inr st assms(6) by (intro prompt_Inl) (auto simp: q_command2_def io_bind_def)
    next
      case (Inr rx2)
      then obtain w4 where "q_stop q w3 = Some w4" "ok w4" "sel w4 = None" "chip w4 = fin (chip w3) (take n1 tx1 @ outgoing tx2 n2)" "now w3 \<le> now w4"
        using c' stop_law [of w3 "take n1 tx1 @ outgoing tx2 n2"] by auto
      then show ?thesis using x x' c' Inr \<open>r = Inr rx1\<close> st i by (intro prompt_Inr) (auto simp: q_command2_def io_bind_def io_return_def)
    qed
  qed
qed


text \<open>Filling the command buffer and sending it, with one or two transfers.\<close>

lemma run_law:
  assumes "avail s" "n \<le> 32" "length (f (cmdTx (zf_drv s))) = 32" "take n (f (cmdTx (zf_drv s))) = bs"
    and k: "\<And>rx s'. ok (zf_w s') \<Longrightarrow> sel (zf_w s') = None \<Longrightarrow> drv_ok fi (zf_drv s') \<Longrightarrow> core (zf_drv s') = core (zf_drv s) \<Longrightarrow>
      chip (zf_w s') = fin (chip (zf_w s)) bs \<Longrightarrow> rx = exchange resp (chip (zf_w s)) [] bs \<Longrightarrow> prompt (zclock now) (k rx) s' R"
  shows "prompt (zclock now) (io_bind (zf_modify (\<lambda>d. d\<lparr>cmdTx := f (cmdTx d)\<rparr>)) (\<lambda>_.
    zf_get (\<lambda>d. io_bind (zf_lift (q_command q (Some (cmdTx d)) n TIMEOUT_CMD_MS)) k))) s R"
  unfolding prompt_bind_modify prompt_get
proof (rule prompt_bind [OF prompt_lift [OF command_law]])
  fix rx w'
  assume "ok w' \<and> sel w' = None \<and> chip w' = fin (chip (zf_w (s\<lparr>zf_drv := (zf_drv s)\<lparr>cmdTx := f (cmdTx (zf_drv s))\<rparr>\<rparr>)))
      (take n (cmdTx (zf_drv (s\<lparr>zf_drv := (zf_drv s)\<lparr>cmdTx := f (cmdTx (zf_drv s))\<rparr>\<rparr>)))) \<and>
    rx = exchange resp (chip (zf_w (s\<lparr>zf_drv := (zf_drv s)\<lparr>cmdTx := f (cmdTx (zf_drv s))\<rparr>\<rparr>))) []
      (take n (cmdTx (zf_drv (s\<lparr>zf_drv := (zf_drv s)\<lparr>cmdTx := f (cmdTx (zf_drv s))\<rparr>\<rparr>))))"
  then show "(\<lambda>rx s'. prompt (zclock now) (k rx) s' R) rx
      (s\<lparr>zf_drv := (zf_drv s)\<lparr>cmdTx := f (cmdTx (zf_drv s))\<rparr>, zf_w := w'\<rparr>)"
    using assms(1-4) by (auto intro!: k simp: flash_avail_def drv_ok_def MAX_SIZE_CMD_def)
qed (use assms(1-4) in \<open>auto simp: flash_avail_def drv_ok_def MAX_SIZE_CMD_def TIMEOUT_CMD_MS_def\<close>)

lemma run2_law:
  assumes "avail s" "n \<le> 32" "length (f (cmdTx (zf_drv s))) = 32" "take n (f (cmdTx (zf_drv s))) = bs" "has_bytes tx n2" "5 \<le> t2"
    and k: "\<And>rx1 rx2 s'. ok (zf_w s') \<Longrightarrow> sel (zf_w s') = None \<Longrightarrow> drv_ok fi (zf_drv s') \<Longrightarrow> core (zf_drv s') = core (zf_drv s) \<Longrightarrow>
      chip (zf_w s') = fin (chip (zf_w s)) (bs @ outgoing tx n2) \<Longrightarrow> rx1 = exchange resp (chip (zf_w s)) [] bs \<Longrightarrow>
      rx2 = exchange resp (chip (zf_w s)) bs (outgoing tx n2) \<Longrightarrow> prompt (zclock now) (k (rx1, rx2)) s' R"
  shows "prompt (zclock now) (io_bind (zf_modify (\<lambda>d. d\<lparr>cmdTx := f (cmdTx d)\<rparr>)) (\<lambda>_.
    zf_get (\<lambda>d. io_bind (zf_lift (q_command2 q (Some (cmdTx d)) n TIMEOUT_CMD_MS tx n2 t2)) k))) s R"
  unfolding prompt_bind_modify prompt_get
proof (rule prompt_bind [OF prompt_lift [OF command2_law]])
  fix rx w'
  assume "(\<lambda>(rx1, rx2) w'. ok w' \<and> sel w' = None \<and>
    chip w' = fin (chip (zf_w (s\<lparr>zf_drv := (zf_drv s)\<lparr>cmdTx := f (cmdTx (zf_drv s))\<rparr>\<rparr>)))
       (take n (cmdTx (zf_drv (s\<lparr>zf_drv := (zf_drv s)\<lparr>cmdTx := f (cmdTx (zf_drv s))\<rparr>\<rparr>))) @ outgoing tx n2) \<and>
    rx1 = exchange resp (chip (zf_w (s\<lparr>zf_drv := (zf_drv s)\<lparr>cmdTx := f (cmdTx (zf_drv s))\<rparr>\<rparr>))) []
       (take n (cmdTx (zf_drv (s\<lparr>zf_drv := (zf_drv s)\<lparr>cmdTx := f (cmdTx (zf_drv s))\<rparr>\<rparr>)))) \<and>
    rx2 = exchange resp (chip (zf_w (s\<lparr>zf_drv := (zf_drv s)\<lparr>cmdTx := f (cmdTx (zf_drv s))\<rparr>\<rparr>)))
       (take n (cmdTx (zf_drv (s\<lparr>zf_drv := (zf_drv s)\<lparr>cmdTx := f (cmdTx (zf_drv s))\<rparr>\<rparr>)))) (outgoing tx n2)) rx w'"
  then show "(\<lambda>rx s'. prompt (zclock now) (k rx) s' R) rx
      (s\<lparr>zf_drv := (zf_drv s)\<lparr>cmdTx := f (cmdTx (zf_drv s))\<rparr>, zf_w := w'\<rparr>)"
    using assms(1-4) by (auto intro!: k simp: flash_avail_def drv_ok_def MAX_SIZE_CMD_def split: prod.splits)
qed (use assms(1-6) in \<open>auto simp: flash_avail_def drv_ok_def MAX_SIZE_CMD_def TIMEOUT_CMD_MS_def\<close>)

lemma store_law:
  assumes "ok (zf_w s)" "sel (zf_w s) = None" "cok (chip (zf_w s))" "drv_ok fi (zf_drv s)" "length rx \<le> 32"
    and k: "\<And>s'. avail s' \<Longrightarrow> core (zf_drv s') = core (zf_drv s) \<Longrightarrow> zf_w s' = zf_w s \<Longrightarrow>
      cmdRx (zf_drv s') = memcpy_to (cmdRx (zf_drv s)) 0 rx \<Longrightarrow> prompt (zclock now) (k ()) s' R"
  shows "prompt (zclock now) (io_bind (zf_storeRx rx) k) s R"
  unfolding zf_storeRx_def prompt_bind_modify
  using assms(1-5) by (intro k) (auto simp: flash_avail_def drv_ok_def MAX_SIZE_CMD_def)

lemma avail_facts:
  assumes "avail s"
  shows "cok (chip (zf_w s))" "fl_info (zf_drv s) = fi" "length (cmdTx (zf_drv s)) = 32" "length (cmdRx (zf_drv s)) = 32" "length (buff (zf_drv s)) = 65536"
    "length (memory s) = flash_bytes fi"
  using assms cells_size by (auto simp: flash_avail_def drv_ok_def MAX_SIZE_CMD_def)

lemma status_law:
  assumes "avail s"
  shows "prompt (zclock now) (flashdrv_statusRegGet q) s (\<lambda>st s'. avail s' \<and> core (zf_drv s') = core (zf_drv s) \<and>
    memory s' = memory s \<and> (enabled s' \<longleftrightarrow> enabled s) \<and> busy s' = busy s - 1 \<and> (bit st 0 \<longleftrightarrow> 0 < busy s))"
proof -
  note a = avail_facts [OF assms]
  let ?op = "opCode (cmds fi flash_cmd_rdsr1)"
  have sz: "unat (cmd_size (cmds fi flash_cmd_rdsr1)) = 1" "1 + STATUS_REG_SIZE = 2" using cmds_ok by (simp_all add: cmds_ok_def STATUS_REG_SIZE_def)
  have t: "take 2 (tx_clear 2 ?op (cmdTx (zf_drv s))) = [?op, 0]" using a(3) take_tx_clear [of 2 "cmdTx (zf_drv s)"] by simp
  show ?thesis
    unfolding flashdrv_statusRegGet_def prompt_get Let_def a(2) sz
  proof (rule run_law [where f = "tx_clear 2 ?op", OF assms _ _ t])
    fix rx and s' :: "'w zflash"
    assume s': "ok (zf_w s')" "sel (zf_w s') = None" "drv_ok fi (zf_drv s')" "core (zf_drv s') = core (zf_drv s)"
      "chip (zf_w s') = fin (chip (zf_w s)) [?op, 0]" and rx: "rx = exchange resp (chip (zf_w s)) [] [?op, 0]"
    note st = status_fin [OF a(1) s'(5)]
    have rx1: "length rx = 2" "rx ! 1 = resp (chip (zf_w s)) [?op]" using rx by simp_all
    have "length (cmdRx (zf_drv s')) = 32" using s'(3) by (simp add: drv_ok_def MAX_SIZE_CMD_def)
    then have "memcpy_to (cmdRx (zf_drv s')) 0 rx ! 1 = rx ! 1" using rx1(1) by (simp add: nth_memcpy_to)
    then show "prompt (zclock now) (io_bind (zf_storeRx rx) (\<lambda>_. zf_get (\<lambda>d. io_return (cmdRx d ! 1)))) s'
       (\<lambda>st s'. avail s' \<and> core (zf_drv s') = core (zf_drv s) \<and>
        memory s' = memory s \<and> (enabled s' \<longleftrightarrow> enabled s) \<and> busy s' = busy s - 1 \<and> (bit st 0 \<longleftrightarrow> 0 < busy s))"
      using s' st rx1 status_resp [OF a(1)] by (intro store_law) simp_all
  qed (use a(3) in simp_all)
qed

lemma timer_avail:
  assumes "avail s" "zf_timer q s = (t, s')"
  shows "avail s' \<and> zf_drv s' = zf_drv s \<and> chip (zf_w s') = chip (zf_w s) \<and> t = zclock now s' \<and> zclock now s \<le> zclock now s'"
proof -
  obtain w' where "q_timer q (zf_w s) = (t, w')" "s' = s\<lparr>zf_w := w'\<rparr>"
    using assms(2) by (auto simp: zf_timer_def split: prod.splits)
  then show ?thesis using assms(1) timer_law [of "zf_w s" t w'] by (auto simp: flash_avail_def zclock_def)
qed

lemma wip_loop_law:
  assumes "avail s" "T \<le> zclock now s" "T + 5 \<le> stop"
  shows "(\<exists>s'. wip_loop (flashdrv_statusRegGet q) (zf_timer q) stop s = Some (Inr (), s') \<and> zclock now s \<le> zclock now s' \<and>
       avail s' \<and> core (zf_drv s') = core (zf_drv s) \<and> memory s' = memory s \<and> busy s' = 0) \<or>
    (\<exists>s'. wip_loop (flashdrv_statusRegGet q) (zf_timer q) stop s = Some (Inl ETIME, s') \<and> T + 5 \<le> zclock now s')"
  using assms(1,2)
proof (induction "busy s" arbitrary: s rule: less_induct)
  case less
  from status_law [OF less.prems(1)] show ?case
  proof (cases rule: promptE)
    case (1 st s1)
    obtain t s2 where t: "zf_timer q s1 = (t, s2)" by fastforce
    have a2: "avail s2" "core (zf_drv s2) = core (zf_drv s)" "memory s2 = memory s" "busy s2 = busy s - 1"
        "bit st 0 \<longleftrightarrow> 0 < busy s" "t = zclock now s2" "zclock now s \<le> zclock now s2"
      using 1(2,3) timer_avail [OF _ t] by auto
    have b: "st AND 1 \<noteq> 0 \<longleftrightarrow> 0 < busy s" using a2(5) by (auto simp: and_one_eq odd_iff_mod_2_eq_one bit_0)
    consider "t \<ge> stop" | "t < stop" "0 < busy s" | "t < stop" "busy s = 0" by linarith
    then show ?thesis
    proof cases
      case late: 1
      then show ?thesis using 1(1) t a2(6) assms(3) by (subst wip_loop.simps, subst (2) wip_loop.simps) simp
    next
      case 2
      then have "wip_loop (flashdrv_statusRegGet q) (zf_timer q) stop s = wip_loop (flashdrv_statusRegGet q) (zf_timer q) stop s2"
        using 1(1) t b by (subst wip_loop.simps) simp
      then show ?thesis using less.hyps [of s2] 2 a2 less.prems(2) by auto
    next
      case 3
      then have "wip_loop (flashdrv_statusRegGet q) (zf_timer q) stop s = Some (Inr (), s2)"
        using 1(1) t b by (subst wip_loop.simps) simp
      then show ?thesis using 3 a2 by auto
    qed
  next
    case (2 s1)
    then have "wip_loop (flashdrv_statusRegGet q) (zf_timer q) stop s = Some (Inl ETIME, s1)"
      by (subst wip_loop.simps) simp
    then show ?thesis using 2 less.prems(2) by auto
  qed
qed

lemma wipCheck_law:
  assumes "avail s" "5 \<le> timeout"
  shows "prompt (zclock now) (flashdrv_wipCheck q timeout) s
    (\<lambda>_ s'. avail s' \<and> core (zf_drv s') = core (zf_drv s) \<and> memory s' = memory s \<and> busy s' = 0)"
proof -
  obtain t s1 where t: "zf_timer q s = (t, s1)" by fastforce
  note l = timer_avail [OF assms(1) t]
  show ?thesis
    using wip_loop_law [of s1 "zclock now s" "t + timeout"] l t assms(2)
    by (auto simp: prompt_def flashdrv_wipCheck_def)
qed

lemma wren_law:
  assumes "avail s" "busy s = 0"
  shows "prompt (zclock now) (flashdrv_optionSet q flash_cmd_wren) s
    (\<lambda>_ s'. avail s' \<and> core (zf_drv s') = core (zf_drv s) \<and> memory s' = memory s \<and> enabled s' \<and> busy s' = 0)"
proof -
  note a = avail_facts [OF assms(1)]
  let ?op = "opCode (cmds fi flash_cmd_wren)"
  have sz: "unat (cmd_size (cmds fi flash_cmd_wren)) = 1" using cmds_ok by (simp add: cmds_ok_def)
  have t: "take 1 (tx_clear 1 ?op (cmdTx (zf_drv s))) = [?op]" using a(3) take_tx_clear [of 1 "cmdTx (zf_drv s)"] by simp
  show ?thesis
    unfolding flashdrv_optionSet_def prompt_get Let_def a(2) sz
  proof (rule run_law [where f = "tx_clear 1 ?op", OF assms(1) _ _ t])
    fix rx and s' :: "'w zflash"
    assume s': "ok (zf_w s')" "sel (zf_w s') = None" "drv_ok fi (zf_drv s')" "core (zf_drv s') = core (zf_drv s)"
      "chip (zf_w s') = fin (chip (zf_w s)) [?op]" and rx: "rx = exchange resp (chip (zf_w s)) [] [?op]"
    show "prompt (zclock now) (zf_storeRx rx) s'
       (\<lambda>_ s'. avail s' \<and> core (zf_drv s') = core (zf_drv s) \<and> memory s' = memory s \<and> enabled s' \<and> busy s' = 0)"
      using s' wren_fin [OF a(1) assms(2) s'(5)] rx store_law [of s' rx io_return] by simp
  qed (use a(3) in simp_all)
qed

lemma erase_law:
  assumes "avail s" "busy s = 0" "sz = 0x1000 \<or> sz = 0x10000" "sz dvd a" "a + sz \<le> flash_bytes fi"
  shows "prompt (zclock now) (flashdrv_sectorErase q a sz) s
    (\<lambda>_ s'. avail s' \<and> core (zf_drv s') = core (zf_drv s) \<and> memory s' = memcpy_to (memory s) a (replicate sz 0xff) \<and> busy s' = 0)"
proof -
  note av = avail_facts [OF assms(1)]
  obtain cmd where cmd: "erase_cmd fi sz = Some cmd" "unat (cmd_size cmd) = addr_len (addrMode fi) + 1"
    using assms(3) cmds_ok by (cases "addrMode fi") (auto simp: erase_cmd_def cmds_ok_def Let_def)
  have n: "addr_len (addrMode fi) + 1 \<le> 32" by (simp add: addr_len_def)
  have off: "\<not> a > unat (CFI_SIZE_FLASH (chipSize (cfi fi)))" using assms(5) by (simp add: flash_bytes_def)
  show ?thesis
    unfolding flashdrv_sectorErase_def prompt_get Let_def av(2) if_not_P [OF off] cmd option.case
  proof (rule prompt_bind [OF wren_law [OF assms(1,2)]], elim conjE)
    fix x and s1 :: "'w zflash"
    assume s1: "avail s1" "core (zf_drv s1) = core (zf_drv s)" "memory s1 = memory s" "enabled s1" "busy s1 = 0"
    note a1 = avail_facts [OF s1(1)]
    show "prompt (zclock now) (io_bind (zf_modify (\<lambda>d. d\<lparr>cmdTx := flashdrv_serializeTxCmd (addrMode fi) cmd a (cmdTx d)\<rparr>)) (\<lambda>_.
         zf_get (\<lambda>d. io_bind (zf_lift (q_command q (Some (cmdTx d)) (addr_len (addrMode fi) + 1) TIMEOUT_CMD_MS)) (\<lambda>rx. io_bind (zf_storeRx rx) (\<lambda>_.
         flashdrv_wipCheck q (uint (CFI_TIMEOUT_MAX_ERASE (sectorErase (timeoutTypical (cfi fi))) (sectorErase (timeoutMax (cfi fi)))) + TIMEOUT_CMD_MS)))))) s1
      (\<lambda>_ s'. avail s' \<and> core (zf_drv s') = core (zf_drv s) \<and> memory s' = memcpy_to (memory s) a (replicate sz 0xff) \<and> busy s' = 0)"
    proof (rule run_law [where f = "flashdrv_serializeTxCmd (addrMode fi) cmd a", OF s1(1) n _ take_serialize [OF a1(3) cmd(2), of a]])
      fix rx and s' :: "'w zflash"
      assume s': "ok (zf_w s')" "sel (zf_w s') = None" "drv_ok fi (zf_drv s')" "core (zf_drv s') = core (zf_drv s1)"
        "chip (zf_w s') = fin (chip (zf_w s1)) (opCode cmd # addr_bytes (addrMode fi) a)"
        and rx: "rx = exchange resp (chip (zf_w s1)) [] (opCode cmd # addr_bytes (addrMode fi) a)"
      note er = erase_fin [OF a1(1) s1(5,4) cmd(1) assms(4,5) s'(5)]
      show "prompt (zclock now) (io_bind (zf_storeRx rx) (\<lambda>_.
         flashdrv_wipCheck q (uint (CFI_TIMEOUT_MAX_ERASE (sectorErase (timeoutTypical (cfi fi))) (sectorErase (timeoutMax (cfi fi)))) + TIMEOUT_CMD_MS))) s'
        (\<lambda>_ s'. avail s' \<and> core (zf_drv s') = core (zf_drv s) \<and> memory s' = memcpy_to (memory s) a (replicate sz 0xff) \<and> busy s' = 0)"
      proof (rule store_law)
        fix s2 :: "'w zflash"
        assume "avail s2" "core (zf_drv s2) = core (zf_drv s')" "zf_w s2 = zf_w s'"
        then show "prompt (zclock now) (flashdrv_wipCheck q (uint (CFI_TIMEOUT_MAX_ERASE (sectorErase (timeoutTypical (cfi fi))) (sectorErase (timeoutMax (cfi fi)))) + TIMEOUT_CMD_MS)) s2
          (\<lambda>_ s'. avail s' \<and> core (zf_drv s') = core (zf_drv s) \<and> memory s' = memcpy_to (memory s) a (replicate sz 0xff) \<and> busy s' = 0)"
          using er s1 s'(4) by (intro prompt_weaken [OF wipCheck_law]) (auto simp: TIMEOUT_CMD_MS_def)
      qed (use s' er rx in \<open>simp_all add: addr_len_def\<close>)
    qed (use a1(3) cmd(2) in \<open>simp_all add: addr_len_def\<close>)
  qed
qed


lemma program_law:
  assumes "avail s" "busy s = 0" "length data = page_bytes fi" "page_bytes fi dvd a" "a + page_bytes fi \<le> flash_bytes fi"
  shows "prompt (zclock now) (flashdrv_pageProgram q a data) s
    (\<lambda>_ s'. avail s' \<and> core (zf_drv s') = core (zf_drv s) \<and> busy s' = 0 \<and>
       memory s' = memcpy_to (memory s) a (map2 (AND) (memcpy_from (memory s) a (page_bytes fi)) data))"
proof -
  note av = avail_facts [OF assms(1)]
  let ?cmd = "cmds fi (ppCmd fi)"
  have sz: "unat (cmd_size ?cmd) = addr_len (addrMode fi) + 1" using cmds_ok by (simp add: cmds_ok_def Let_def)
  have n: "addr_len (addrMode fi) + 1 \<le> 32" by (simp add: addr_len_def)
  have pg: "length data \<noteq> 0" "\<not> length data mod unat (CFI_SIZE_PAGE (pageSize (cfi fi))) \<noteq> 0"
    using layout_ok assms(3) by (auto simp: layout_ok_def Let_def page_bytes_def)
  have out: "has_bytes (Some data) (length data)" "outgoing (Some data) (length data) = data" by (simp_all add: has_bytes_def outgoing_def)
  let ?wip = "flashdrv_wipCheck q (uint (CFI_TIMEOUT_MAX_PROGRAM (pageWrite (timeoutTypical (cfi fi))) (pageWrite (timeoutMax (cfi fi)))) + TIMEOUT_CMD_MS)"
  let ?Q = "\<lambda>_ s'. avail s' \<and> core (zf_drv s') = core (zf_drv s) \<and> busy s' = 0 \<and>
       memory s' = memcpy_to (memory s) a (map2 (AND) (memcpy_from (memory s) a (page_bytes fi)) data)"
  show ?thesis
    unfolding flashdrv_pageProgram_def prompt_get Let_def av(2) if_not_P [OF pg(1)] if_not_P [OF pg(2)] sz
  proof (rule prompt_bind [OF wren_law [OF assms(1,2)]], elim conjE)
    fix x and s1 :: "'w zflash"
    assume s1: "avail s1" "core (zf_drv s1) = core (zf_drv s)" "memory s1 = memory s" "enabled s1" "busy s1 = 0"
    note a1 = avail_facts [OF s1(1)]
    show "prompt (zclock now) (io_bind (zf_modify (\<lambda>d. d\<lparr>cmdTx := flashdrv_serializeTxCmd (addrMode fi) ?cmd a (cmdTx d)\<rparr>)) (\<lambda>_.
         zf_get (\<lambda>d. io_bind (zf_lift (q_command2 q (Some (cmdTx d)) (addr_len (addrMode fi) + 1) TIMEOUT_CMD_MS (Some data) (length data) TIMEOUT_CMD_MS))
         (\<lambda>(rx, _). io_bind (zf_storeRx rx) (\<lambda>_. io_bind ?wip (\<lambda>_. io_return (length data))))))) s1 ?Q"
    proof (rule run2_law [where f = "flashdrv_serializeTxCmd (addrMode fi) ?cmd a", OF s1(1) n _ take_serialize [OF a1(3) sz, of a] out(1)])
      fix rx rx2 and s' :: "'w zflash"
      assume s': "ok (zf_w s')" "sel (zf_w s') = None" "drv_ok fi (zf_drv s')" "core (zf_drv s') = core (zf_drv s1)"
        "chip (zf_w s') = fin (chip (zf_w s1)) ((opCode ?cmd # addr_bytes (addrMode fi) a) @ outgoing (Some data) (length data))"
        and rx: "rx = exchange resp (chip (zf_w s1)) [] (opCode ?cmd # addr_bytes (addrMode fi) a)"
      note pr = program_fin [OF a1(1) s1(5,4) assms(3,4), of "chip (zf_w s')"]
      have "prompt (zclock now) (io_bind (zf_storeRx rx) (\<lambda>_. io_bind ?wip (\<lambda>_. io_return (length data)))) s' ?Q"
      proof (rule store_law)
        fix s2 :: "'w zflash"
        assume "avail s2" "core (zf_drv s2) = core (zf_drv s')" "zf_w s2 = zf_w s'"
        then show "prompt (zclock now) (io_bind ?wip (\<lambda>_. io_return (length data))) s2 ?Q"
          using pr s1 s' out(2) assms(3,5) by (intro prompt_bind [OF wipCheck_law]) (auto simp: TIMEOUT_CMD_MS_def)
      qed (use s' pr out(2) assms(3,5) rx in \<open>simp_all add: addr_len_def\<close>)
      then show "prompt (zclock now) (case (rx, rx2) of (rx, _) \<Rightarrow> io_bind (zf_storeRx rx) (\<lambda>_. io_bind ?wip (\<lambda>_. io_return (length data)))) s' ?Q"
        by simp
    qed (use a1(3) sz in \<open>simp_all add: addr_len_def TIMEOUT_CMD_MS_def\<close>)
  qed
qed

text \<open>What the chip answers to a read command of \<open>n\<close> bytes: its contents from the address on, as far as it is asked.\<close>

lemma read_exchange:
  assumes "cok c" "wip c = 0" "bs = opCode (cmds fi (readCmd fi)) # addr_bytes (addrMode fi) a @ dm @ pad" "length dm = read_dummy fi"
    "k \<le> length pad" "k < length pad \<longrightarrow> n = 0" "a + k + n \<le> flash_bytes fi"
  shows "take k (drop (addr_len (addrMode fi) + 1 + read_dummy fi) (exchange resp c [] bs)) @ exchange resp c bs (replicate n 0) =
    memcpy_from (cells c) a (k + n)"
proof (rule nth_equalityI)
  let ?cs = "addr_len (addrMode fi) + 1 + read_dummy fi"
  have lb: "length bs = ?cs + length pad" using assms(3,4) by simp
  have len: "length (cells c) = flash_bytes fi" using cells_size [OF assms(1)] .
  show "length (take k (drop ?cs (exchange resp c [] bs)) @ exchange resp c bs (replicate n 0)) = length (memcpy_from (cells c) a (k + n))"
    using lb assms(5,7) len by simp
  fix i assume "i < length (take k (drop ?cs (exchange resp c [] bs)) @ exchange resp c bs (replicate n 0))"
  then have i: "i < k + n" using lb assms(5) by simp
  have m: "memcpy_from (cells c) a (k + n) ! i = cells c ! (a + i)" using i assms(7) len by simp
  show "(take k (drop ?cs (exchange resp c [] bs)) @ exchange resp c bs (replicate n 0)) ! i = memcpy_from (cells c) a (k + n) ! i"
  proof (cases "i < k")
    case True
    have "take (?cs + i) bs = opCode (cmds fi (readCmd fi)) # addr_bytes (addrMode fi) a @ dm @ take i pad"
      using assms(3,4) by simp
    then show ?thesis
      using True m lb assms(5) read_resp [OF assms(1,2,4), of a "take i pad"] assms(7) by (simp add: nth_append min_def)
  next
    case False
    then have k: "k = length pad" using i assms(5,6) by auto
    have "i - k \<le> n" using i by simp
    moreover have "bs @ replicate (i - k) 0 = opCode (cmds fi (readCmd fi)) # addr_bytes (addrMode fi) a @ dm @ (pad @ replicate (i - k) 0)"
      using assms(3) by simp
    ultimately show ?thesis
      using False i k m lb read_resp [OF assms(1,2,4), of a "pad @ replicate (i - k) 0"] assms(7) by (simp add: nth_append min_def)
  qed
qed

lemma read_law:
  assumes "avail s" "busy s = 0" "a + len \<le> flash_bytes fi" "5 \<le> timeout"
  shows "prompt (zclock now) (flashdrv_read q a len timeout) s
    (\<lambda>bs s'. avail s' \<and> core (zf_drv s') = core (zf_drv s) \<and> busy s' = 0 \<and> memory s' = memory s \<and> bs = memcpy_from (memory s) a len)"
proof (cases "len = 0")
  case True
  then show ?thesis using assms by (simp add: flashdrv_read_def memcpy_from_def)
next
  case False
  note av = avail_facts [OF assms(1)]
  let ?cmd = "cmds fi (readCmd fi)" and ?d = "read_dummy fi" and ?n = "addr_len (addrMode fi) + 1"
  let ?cs = "?n + ?d" and ?Q = "\<lambda>bs s'. avail s' \<and> core (zf_drv s') = core (zf_drv s) \<and> busy s' = 0 \<and> memory s' = memory s \<and> bs = memcpy_from (memory s) a len"
  define p where "p = (?cs + 3) div 4 * 4"
  define k where "k = (if p - ?cs > len then len else p - ?cs)"
  have p: "?cs \<le> p" "p \<le> 32" "?cs + ?d \<le> 32" using cmds_ok by (auto simp: p_def cmds_ok_def Let_def)
  have sz: "unat (cmd_size ?cmd) = ?n" using cmds_ok by (simp add: cmds_ok_def Let_def)
  define f where "f tx = memcpy_to (flashdrv_serializeTxCmd (addrMode fi) ?cmd a tx) ?cs (replicate ?d (0xff::u8))" for tx
  define bs where "bs = take p (f (cmdTx (zf_drv s)))"
  have lf: "length (f (cmdTx (zf_drv s))) = 32" using av(3) sz p(3) by (simp add: f_def)
  have "take ?n (f (cmdTx (zf_drv s))) = opCode ?cmd # addr_bytes (addrMode fi) a"
    using take_serialize [OF av(3) sz, of a] av(3) sz p(3) by (simp add: f_def memcpy_to_def min_def)
  then have "take ?n bs = opCode ?cmd # addr_bytes (addrMode fi) a" using p(1) by (simp add: bs_def min_def)
  then have bs: "bs = opCode ?cmd # addr_bytes (addrMode fi) a @ take ?d (drop ?n bs) @ drop ?cs bs"
    by (metis append_Cons append_take_drop_id drop_drop add.commute)
  have l: "length (take ?d (drop ?n bs)) = ?d" "length (drop ?cs bs) = p - ?cs" using lf p by (simp_all add: bs_def)
  have k: "k \<le> p - ?cs" "k < p - ?cs \<longrightarrow> len - k = 0" "k \<le> len" by (auto simp: k_def)
  show ?thesis
    unfolding flashdrv_read_def prompt_get Let_def av(2) if_not_P [OF False] read_dummy_def [symmetric] sz
      p_def [symmetric] k_def [symmetric] f_def [symmetric]
  proof (rule run2_law [where f = f, OF assms(1) p(2) lf bs_def [symmetric] _ assms(4)])
    fix rx1 rx2 and s' :: "'w zflash"
    assume s': "ok (zf_w s')" "sel (zf_w s') = None" "drv_ok fi (zf_drv s')" "core (zf_drv s') = core (zf_drv s)"
      "chip (zf_w s') = fin (chip (zf_w s)) (bs @ outgoing None (len - k))"
      and rx: "rx1 = exchange resp (chip (zf_w s)) [] bs" "rx2 = exchange resp (chip (zf_w s)) bs (outgoing None (len - k))"
    have f: "cok (chip (zf_w s'))" "memory s' = memory s" "busy s' = 0"
      using read_fin [OF av(1) assms(2), of "chip (zf_w s')" a "take ?d (drop ?n bs) @ drop ?cs bs @ outgoing None (len - k)"] s'(5) bs
      by (metis append.assoc append_Cons)+
    have "take k (drop ?cs rx1) @ rx2 = memcpy_from (memory s) a len"
      using read_exchange [OF av(1) assms(2) bs l(1), of k "len - k"] k l(2) assms(3) rx by (simp add: outgoing_def)
    then have "prompt (zclock now) (io_bind (zf_storeRx rx1) (\<lambda>_. io_return (take k (drop ?cs rx1) @ rx2))) s' ?Q"
      using s' f rx(1) lf p(2) by (intro store_law) (simp_all add: bs_def)
    then show "prompt (zclock now) (case (rx1, rx2) of (rx1, rx2) \<Rightarrow> io_bind (zf_storeRx rx1) (\<lambda>_. io_return (take k (drop ?cs rx1) @ rx2))) s' ?Q"
      by simp
  qed (simp add: has_bytes_def)
qed

end

end
