(* ===== verification/Flash_Store.thy ===== *)
theory Flash_Store
  imports Flash_Cmds
begin

text \<open>
  The flash driver as a store: sectors and regions, the write buffer and the contents of the device seen through it (\<open>flash_image\<close>), and the effect of
  sync, write and erase on these contents.
\<close>

section \<open>Sectors\<close>

definition sector_start :: "flash_cfi_t \<Rightarrow> nat \<Rightarrow> nat \<Rightarrow> nat" where
  "sector_start c r sc = flashdrv_regStart c r + sc * sect_bytes c r"

text \<open>Sector \<open>sc\<close> of region \<open>r\<close> exists.\<close>

definition is_sector :: "flash_cfi_t \<Rightarrow> nat \<Rightarrow> nat \<Rightarrow> bool" where
  "is_sector c r sc \<longleftrightarrow> r < unat (regsCount c) \<and> sector_start c r sc + sect_bytes c r \<le> flashdrv_regStart c (Suc r)"

lemma region_bytes_eq: "region_bytes r = unat (CFI_SIZE_SECTION (reg_size r)) * (unat (reg_count r) + 1)"
proof -
  let ?s = "reg_size r" and ?n = "reg_count r"
  have s: "unat ?s < 2 ^ 16" "unat ?n < 2 ^ 16" using unat_less_exp [of ?s] unat_less_exp [of ?n] by simp_all
  have a: "unat (CFI_SIZE_SECTION ?s) = unat ?s * 0x100"
    using s(1) by (simp add: CFI_SIZE_SECTION_def unat_word_ariths unsigned_ucast_eq take_bit_nat_eq_self)
  have b: "unat (ucast (ucast ?n + 1 :: u32) :: size_t) = unat ?n + 1"
    using s(2) by (simp add: unat_word_ariths unsigned_ucast_eq take_bit_nat_eq_self)
  have "unat ?s * 0x100 * (unat ?n + 1) \<le> (2 ^ 16 * 0x100) * 2 ^ 16" using s by (intro mult_le_mono) simp_all
  then have "unat ?s * 0x100 * (unat ?n + 1) < 2 ^ 64" by simp
  then show ?thesis
    unfolding region_bytes_def CFI_SIZE_REGION_def by (subst unat_word_ariths(2)) (simp add: a b)
qed

lemma regStart_Suc: "r < length (regs c) \<Longrightarrow> flashdrv_regStart c (Suc r) = flashdrv_regStart c r + region_bytes (regs c ! r)"
  by (simp add: flashdrv_regStart_def take_Suc_conv_app_nth)

lemma layout_facts:
  assumes "layout_ok fi" "r < unat (regsCount (cfi fi))"
  shows "sect_bytes (cfi fi) r = 0x1000 \<or> sect_bytes (cfi fi) r = 0x10000" "sect_bytes (cfi fi) r dvd flashdrv_regStart (cfi fi) r"
    "flashdrv_regStart (cfi fi) (Suc r) = flashdrv_regStart (cfi fi) r + sect_bytes (cfi fi) r * (unat (reg_count (regs (cfi fi) ! r)) + 1)"
    "flashdrv_regStart (cfi fi) (Suc r) \<le> flash_bytes fi" "r < 2"
proof -
  let ?c = "cfi fi"
  have k: "0 < unat (regsCount ?c)" "unat (regsCount ?c) \<le> 2" "unat (regsCount ?c) \<le> length (regs ?c)" "flashdrv_regStart ?c (unat (regsCount ?c)) = flash_bytes fi"
    using assms(1) by (simp_all add: layout_ok_def Let_def)
  show "sect_bytes ?c r = 0x1000 \<or> sect_bytes ?c r = 0x10000" "sect_bytes ?c r dvd flashdrv_regStart ?c r"
    using assms k(3) by (auto simp: layout_ok_def Let_def sect_bytes_def list_all_length)
  show s: "flashdrv_regStart ?c (Suc r) = flashdrv_regStart ?c r + sect_bytes ?c r * (unat (reg_count (regs ?c ! r)) + 1)"
    using assms(2) k(3) by (simp add: regStart_Suc region_bytes_eq sect_bytes_def)
  show "r < 2" using assms(2) k(2) by simp
  have "Suc r = unat (regsCount ?c) \<or> r = 0 \<and> unat (regsCount ?c) = 2" using assms(2) k(2) by linarith
  then show "flashdrv_regStart ?c (Suc r) \<le> flash_bytes fi"
    using k(3,4) regStart_Suc [of 1 ?c] by (auto simp: numeral_2_eq_2)
qed

lemma regionFind_law:
  assumes "layout_ok fi" "offs < flash_bytes fi"
  shows "\<exists>r. flashdrv_regionFind (cfi fi) offs = Inr r \<and> r < unat (regsCount (cfi fi)) \<and>
    flashdrv_regStart (cfi fi) r \<le> offs \<and> offs < flashdrv_regStart (cfi fi) (Suc r)"
proof -
  let ?c = "cfi fi"
  have k: "0 < unat (regsCount ?c)" "unat (regsCount ?c) \<le> 2" "unat (regsCount ?c) \<le> length (regs ?c)" "flashdrv_regStart ?c (unat (regsCount ?c)) = flash_bytes fi"
    using assms(1) by (simp_all add: layout_ok_def Let_def)
  then consider "unat (regsCount ?c) = 1" | "unat (regsCount ?c) = 2" by linarith
  then show ?thesis
  proof cases
    case 1
    then obtain r rs where "regs ?c = r # rs" using k(3) by (cases "regs ?c") auto
    then show ?thesis using 1 k(4) assms(2) by (auto simp: flashdrv_regionFind_def flashdrv_regStart_def)
  next
    case 2
    then obtain r r' rs where r: "regs ?c = r # r' # rs" using k(3) by (cases "regs ?c"; cases "tl (regs ?c)") auto
    then show ?thesis
      using 2 k(4) assms(2) by (cases "offs < region_bytes r") (auto simp: flashdrv_regionFind_def flashdrv_regStart_def numeral_2_eq_2)
  qed
qed

text \<open>The sector of an offset.\<close>

lemma sector_of_offset:
  assumes "layout_ok fi" "r < unat (regsCount (cfi fi))" "flashdrv_regStart (cfi fi) r \<le> offs" "offs < flashdrv_regStart (cfi fi) (Suc r)"
    and "sc = (offs - flashdrv_regStart (cfi fi) r) div sect_bytes (cfi fi) r"
  shows "is_sector (cfi fi) r sc" "sector_start (cfi fi) r sc \<le> offs" "offs < sector_start (cfi fi) r sc + sect_bytes (cfi fi) r" "sc < 2 ^ 16"
proof -
  let ?c = "cfi fi" let ?b = "flashdrv_regStart ?c r" and ?z = "sect_bytes ?c r" and ?n = "unat (reg_count (regs ?c ! r)) + 1"
  note l = layout_facts [OF assms(1,2)]
  have z: "0 < ?z" using l(1) by auto
  have d: "offs - ?b < ?z * ?n" using assms(3,4) l(3) by simp
  then have n: "sc < ?n" using z assms(5) by (simp add: less_mult_imp_div_less mult.commute)
  have "sc * ?z + (offs - ?b) mod ?z = offs - ?b" unfolding assms(5) by (rule div_mult_mod_eq)
  moreover have "(offs - ?b) mod ?z < ?z" using z by simp
  ultimately show "sector_start ?c r sc \<le> offs" "offs < sector_start ?c r sc + ?z" using assms(3) by (simp_all add: sector_start_def)
  have "(sc + 1) * ?z \<le> ?n * ?z" using n by (intro mult_le_mono1) simp
  then show "is_sector ?c r sc" using assms(2) l(3) by (simp add: is_sector_def sector_start_def algebra_simps)
  show "sc < 2 ^ 16" using n unat_less_exp [of "reg_count (regs ?c ! r)"] by simp
qed

lemma sector_facts:
  assumes "layout_ok fi" "is_sector (cfi fi) r sc"
  shows "sect_bytes (cfi fi) r dvd sector_start (cfi fi) r sc" "sector_start (cfi fi) r sc + sect_bytes (cfi fi) r \<le> flash_bytes fi"
    "sect_bytes (cfi fi) r = 0x1000 \<or> sect_bytes (cfi fi) r = 0x10000" "page_bytes fi dvd sect_bytes (cfi fi) r"
    "page_bytes fi dvd sector_start (cfi fi) r sc" "0 < page_bytes fi"
proof -
  note l = layout_facts [OF assms(1), of r]
  have r: "r < unat (regsCount (cfi fi))" using assms(2) by (simp add: is_sector_def)
  have pg: "page_bytes fi dvd 0x1000" "0 < page_bytes fi" using assms(1) by (simp_all add: layout_ok_def Let_def)
  show s: "sect_bytes (cfi fi) r dvd sector_start (cfi fi) r sc" using l(2) [OF r] by (simp add: sector_start_def)
  show "sector_start (cfi fi) r sc + sect_bytes (cfi fi) r \<le> flash_bytes fi" using assms(2) l(4) [OF r] by (simp add: is_sector_def)
  show "sect_bytes (cfi fi) r = 0x1000 \<or> sect_bytes (cfi fi) r = 0x10000" using l(1) [OF r] .
  have "(0x1000::nat) dvd 0x10000" by simp
  then show p: "page_bytes fi dvd sect_bytes (cfi fi) r" using l(1) [OF r] pg(1) by (metis dvd_trans)
  show "page_bytes fi dvd sector_start (cfi fi) r sc" using dvd_trans [OF p s] .
  show "0 < page_bytes fi" by (rule pg)
qed

lemma map2_and_erased: "length b = n \<Longrightarrow> map2 (AND) (replicate n (0xff::u8)) b = b"
proof (induction n arbitrary: b)
  case (Suc n)
  have "(0xff::u8) AND x = x" for x
  proof -
    have "(0xff::u8) = - 1" by simp
    then show ?thesis by (simp only: and.left_neutral)
  qed
  then show ?case using Suc by (cases b) simp_all
qed simp

context flash_dev
begin

lemma sync_pages_law:
  assumes "avail s" "busy s = 0" "page_bytes fi dvd dst" "dst + (i + left) * page_bytes fi \<le> flash_bytes fi"
    "(i + left) * page_bytes fi \<le> length src"
    "memcpy_from (memory s) (dst + i * page_bytes fi) (left * page_bytes fi) = replicate (left * page_bytes fi) 0xff"
  shows "prompt (zclock now) (sync_pages q dst (page_bytes fi) src i left) s
    (\<lambda>_ s'. avail s' \<and> core (zf_drv s') = core (zf_drv s) \<and> busy s' = 0 \<and>
       memory s' = memcpy_to (memory s) (dst + i * page_bytes fi) (memcpy_from src (i * page_bytes fi) (left * page_bytes fi)))"
  using assms
proof (induction left arbitrary: i s)
  case 0
  then show ?case by (simp add: memcpy_from_def)
next
  case (Suc left)
  let ?p = "page_bytes fi"
  let ?o = "dst + i * ?p" and ?b = "memcpy_from src (i * ?p) ?p"
  have lm: "length (memory s) = flash_bytes fi" using avail_facts [OF Suc.prems(1)] by simp
  have in1: "?o + ?p + left * ?p \<le> flash_bytes fi" "i * ?p + ?p + left * ?p \<le> length src"
    using Suc.prems(4,5) by (simp_all add: algebra_simps)
  have lb: "length ?b = ?p" using in1(2) by simp
  have al: "?p dvd ?o" "?o + ?p \<le> flash_bytes fi" using Suc.prems(3) in1(1) by simp_all
  have "memcpy_from (memory s) ?o (?p + left * ?p) = replicate ?p 0xff @ replicate (left * ?p) 0xff"
    using Suc.prems(6) by (simp add: replicate_add [symmetric])
  then have er: "memcpy_from (memory s) ?o ?p = replicate ?p 0xff" "memcpy_from (memory s) (?o + ?p) (left * ?p) = replicate (left * ?p) 0xff"
    using in1(1) lm by (simp_all add: memcpy_from_append)
  have "prompt (zclock now) (io_bind (flashdrv_pageProgram q ?o ?b) (\<lambda>_. sync_pages q dst ?p src (Suc i) left)) s
    (\<lambda>_ s'. avail s' \<and> core (zf_drv s') = core (zf_drv s) \<and> busy s' = 0 \<and>
       memory s' = memcpy_to (memory s) ?o (memcpy_from src (i * ?p) (Suc left * ?p)))"
  proof (rule prompt_bind [OF program_law [OF Suc.prems(1,2) lb al]], elim conjE)
    fix x and s1 :: "'w zflash"
    assume s1: "avail s1" "core (zf_drv s1) = core (zf_drv s)" "busy s1 = 0"
      and m1: "memory s1 = memcpy_to (memory s) ?o (map2 (AND) (memcpy_from (memory s) ?o ?p) ?b)"
    have m: "memory s1 = memcpy_to (memory s) ?o ?b" using m1 er(1) map2_and_erased [OF lb] by simp
    have e1: "memcpy_from (memory s1) (dst + Suc i * ?p) (left * ?p) = replicate (left * ?p) 0xff"
      using memcpy_from_to_disjoint [of ?o ?b "memory s" "?o + ?p" "left * ?p"] in1(1) lm lb er(2) m by (simp add: ac_simps)
    have "memcpy_to (memcpy_to (memory s) ?o ?b) (?o + ?p) (memcpy_from src (i * ?p + ?p) (left * ?p)) =
        memcpy_to (memory s) ?o (?b @ memcpy_from src (i * ?p + ?p) (left * ?p))"
      using memcpy_to_append [of ?o ?b "memcpy_from src (i * ?p + ?p) (left * ?p)" "memory s"] in1 lb lm by simp
    then show "prompt (zclock now) (sync_pages q dst ?p src (Suc i) left) s1
      (\<lambda>_ s'. avail s' \<and> core (zf_drv s') = core (zf_drv s) \<and> busy s' = 0 \<and>
         memory s' = memcpy_to (memory s) ?o (memcpy_from src (i * ?p) (Suc left * ?p)))"
      using s1 m Suc.prems(3-5) e1
      by (intro prompt_weaken [OF Suc.IH [OF s1(1,3)]]) (auto simp: memcpy_from_append ac_simps)
  qed
  then show ?case by simp
qed

end

text \<open>
  The buffer holds sector \<open>sc\<close> of region \<open>r\<close>, which is erased on the chip; and the contents of the device as they will be once the buffer is written back.
\<close>

definition holds_sector :: "fdrv \<Rightarrow> bytes \<Rightarrow> nat \<Rightarrow> nat \<Rightarrow> bool" where
  "holds_sector d mem r sc \<longleftrightarrow> (let c = cfi (fl_info d) in
     is_sector c r sc \<and> sc < 2 ^ 16 \<and> regID d = of_nat r \<and> sectID d = of_nat sc \<and> buffPos d < sect_bytes c r \<and>
     memcpy_from mem (sector_start c r sc) (sect_bytes c r) = replicate (sect_bytes c r) 0xff)"

definition flash_image :: "fdrv \<Rightarrow> bytes \<Rightarrow> bytes" where
  "flash_image d mem = (let c = cfi (fl_info d); r = unat (regID d) in
     if buffPos d = 0 then mem else memcpy_to mem (sector_start c r (unat (sectID d))) (take (sect_bytes c r) (buff d)))"

definition buffer_ok :: "fdrv \<Rightarrow> bytes \<Rightarrow> bool" where
  "buffer_ok d mem \<longleftrightarrow> (if buffPos d = 0 then regID d = -1 \<and> sectID d = -1 else holds_sector d mem (unat (regID d)) (unat (sectID d)))"

text \<open>A write at \<open>offs\<close> goes on where the buffer ends or goes to another sector.\<close>

definition continues :: "fdrv \<Rightarrow> nat \<Rightarrow> bool" where
  "continues d offs \<longleftrightarrow> (let c = cfi (fl_info d); r = unat (regID d); b = sector_start c r (unat (sectID d)) in
     buffPos d = 0 \<or> offs < b \<or> b + sect_bytes c r \<le> offs \<or> offs = b + buffPos d)"

context flash_dev
begin

lemma holds_ids:
  assumes "holds_sector d mem r sc" "fl_info d = fi"
  shows "unat (regID d) = r" "unat (sectID d) = sc" "is_sector (cfi fi) r sc" "buffPos d < sect_bytes (cfi fi) r"
    "memcpy_from mem (sector_start (cfi fi) r sc) (sect_bytes (cfi fi) r) = replicate (sect_bytes (cfi fi) r) 0xff" "r < 2" "sc < 2 ^ 16"
proof -
  show i: "is_sector (cfi fi) r sc" "sc < 2 ^ 16" "buffPos d < sect_bytes (cfi fi) r"
    "memcpy_from mem (sector_start (cfi fi) r sc) (sect_bytes (cfi fi) r) = replicate (sect_bytes (cfi fi) r) 0xff"
    using assms by (auto simp: holds_sector_def Let_def)
  have "r < unat (regsCount (cfi fi))" using i(1) by (simp add: is_sector_def)
  then show r: "r < 2" using layout_facts(5) [OF layout_ok] by simp
  show "unat (regID d) = r" "unat (sectID d) = sc"
    using assms(1) i(2) r by (auto simp: holds_sector_def Let_def unat_of_nat_small)
qed

lemma sync_law:
  assumes "avail s" "busy s = 0" "holds_sector ((zf_drv s)\<lparr>buffPos := 0\<rparr>) (memory s) r sc" "0 < buffPos (zf_drv s)"
  shows "prompt (zclock now) (flashdrv_sync q) s
    (\<lambda>_ s'. avail s' \<and> busy s' = 0 \<and> core (zf_drv s') = (buff (zf_drv s), 0, -1, -1) \<and>
       memory s' = memcpy_to (memory s) (sector_start (cfi fi) r sc) (take (sect_bytes (cfi fi) r) (buff (zf_drv s))))"
proof -
  note av = avail_facts [OF assms(1)]
  let ?z = "sect_bytes (cfi fi) r" and ?S = "sector_start (cfi fi) r sc" and ?p = "page_bytes fi"
  note h = holds_ids [OF assms(3), simplified, OF av(2)]
  note f = sector_facts [OF layout_ok h(3)]
  have z: "?z div ?p * ?p = ?z" using f(4) by simp
  have zl: "?z \<le> 65536" using f(3) by auto
  have st: "flashdrv_regStart (cfi fi) r + sc * ?z = ?S" by (simp add: sector_start_def)
  have pos: "buffPos (zf_drv s) \<noteq> 0" using assms(4) by simp
  have src: "memcpy_from (buff (zf_drv s)) (0 * ?p) (?z div ?p * ?p) = take ?z (buff (zf_drv s))" using z by (simp add: memcpy_from_def)
  have pages: "prompt (zclock now) (sync_pages q ?S ?p (buff (zf_drv s)) 0 (?z div ?p)) s
    (\<lambda>_ s'. avail s' \<and> core (zf_drv s') = core (zf_drv s) \<and> busy s' = 0 \<and>
       memory s' = memcpy_to (memory s) (?S + 0 * ?p) (memcpy_from (buff (zf_drv s)) (0 * ?p) (?z div ?p * ?p)))"
    using assms(1,2) f h(5) z zl av(5) by (intro sync_pages_law) simp_all
  show ?thesis
    unfolding flashdrv_sync_def prompt_get Let_def av(2) if_not_P [OF pos] h(1,2) st page_bytes_def [symmetric]
    using prompt_bind [OF pages] src
    by (auto intro!: prompt_bind [OF pages] simp: buff_reset_def core_def flash_avail_def drv_ok_def)
qed

end

lemma memcpy_to_to: "length a = length b \<Longrightarrow> off + length b \<le> length m \<Longrightarrow> memcpy_to (memcpy_to m off a) off b = memcpy_to m off b"
  by (simp add: memcpy_to_def)

lemma memcpy_to_from: "off + n \<le> length m \<Longrightarrow> memcpy_to m off (memcpy_from m off n) = m"
  by (simp add: memcpy_to_def memcpy_from_def drop_drop [symmetric] add.commute del: drop_drop)

lemma memcpy_to_buffer:
  assumes "p + length x \<le> z" "z \<le> length b" "S + z \<le> length m"
  shows "memcpy_to m S (take z (memcpy_to b p x)) = memcpy_to (memcpy_to m S (take z b)) (S + p) x"
proof (rule nth_equalityI)
  fix i assume "i < length (memcpy_to m S (take z (memcpy_to b p x)))"
  then have "i < length m" using assms by simp
  then show "memcpy_to m S (take z (memcpy_to b p x)) ! i = memcpy_to (memcpy_to m S (take z b)) (S + p) x ! i"
    using assms by (auto simp: nth_memcpy_to min_def)
qed (use assms in simp)

text \<open>The loop of \<open>flashdrv_write\<close> as a sequence of operations.\<close>

definition write_chunk :: "'w qspi \<Rightarrow> bytes \<Rightarrow> nat \<Rightarrow> nat \<Rightarrow> nat \<Rightarrow> ('w zflash, nat) io" where
  "write_chunk q data offs saveSz sectSz =
     zf_get (\<lambda>d. let chunkSz = (if sectSz - buffPos d > length data - saveSz then length data - saveSz else sectSz - buffPos d) in
     io_bind (zf_modify (\<lambda>d. d\<lparr>buff := memcpy_to (buff d) (buffPos d) (memcpy_from data saveSz chunkSz), buffPos := buffPos d + chunkSz\<rparr>)) (\<lambda>_.
     io_bind (if buffPos d + chunkSz < sectSz then io_return () else flashdrv_sync q) (\<lambda>_.
     write_loop q data (offs + chunkSz) (saveSz + chunkSz))))"

lemma write_loop_step:
  assumes "saveSz < length data" "flashdrv_regionFind (cfi (fl_info (zf_drv s))) offs = Inr r" "c = cfi (fl_info (zf_drv s))"
    "sc = (offs - flashdrv_regStart c r) div sect_bytes c r"
  shows "write_loop q data offs saveSz s =
    io_bind (if of_nat r \<noteq> regID (zf_drv s) \<or> of_nat sc \<noteq> sectID (zf_drv s)
             then sector_switch q offs (of_nat r) (of_nat sc) (flashdrv_regStart c r) (sect_bytes c r) else io_return ())
      (\<lambda>_. write_chunk q data offs saveSz (sect_bytes c r)) s"
proof -
  define m where "m = (if of_nat r \<noteq> regID (zf_drv s) \<or> of_nat sc \<noteq> sectID (zf_drv s)
             then sector_switch q offs (of_nat r) (of_nat sc) (flashdrv_regStart c r) (sect_bytes c r) else io_return ())"
  have run: "case_option None f ((if A then io_return () else k) t) = (if A then f (Inr (), t) else case_option None f (k t))"
    for A and k :: "('w zflash, unit) io" and t and f :: "(errno + unit) \<times> 'w zflash \<Rightarrow> ((errno + nat) \<times> 'w zflash) option"
    by (simp add: io_return_def)
  have chunk: "write_chunk q data offs saveSz (sect_bytes c r) s1 =
      (let d = zf_drv s1;
           chunkSz = (if sect_bytes c r - buffPos d > length data - saveSz then length data - saveSz else sect_bytes c r - buffPos d);
           s2 = s1\<lparr>zf_drv := d\<lparr>buff := memcpy_to (buff d) (buffPos d) (memcpy_from data saveSz chunkSz), buffPos := buffPos d + chunkSz\<rparr>\<rparr>
       in if buffPos d + chunkSz < sect_bytes c r then write_loop q data (offs + chunkSz) (saveSz + chunkSz) s2
          else case flashdrv_sync q s2 of
                 None \<Rightarrow> None
               | Some (Inl e, s3) \<Rightarrow> Some (Inl e, s3)
               | Some (Inr _, s3) \<Rightarrow> write_loop q data (offs + chunkSz) (saveSz + chunkSz) s3)" for s1
    by (simp only: write_chunk_def zf_get_def io_bind_def zf_modify_def Let_def option.case prod.case sum.case run)
  have l: "write_loop q data offs saveSz s = (case m s of
      None \<Rightarrow> None | Some (Inl e, s1) \<Rightarrow> Some (Inl e, s1) | Some (Inr _, s1) \<Rightarrow> write_chunk q data offs saveSz (sect_bytes c r) s1)"
    unfolding m_def chunk
    by (subst write_loop.simps)
      (simp only: assms(1) assms(2) [folded assms(3)] assms(3) [symmetric] assms(4) [symmetric] Let_def if_True sum.case)
  then show ?thesis unfolding m_def [symmetric] by (simp add: io_bind_def split: option.split sum.split)
qed

context flash_dev
begin

abbreviation image :: "'w zflash \<Rightarrow> bytes" where
  "image s \<equiv> flash_image (zf_drv s) (memory s)"

abbreviation settled :: "'w zflash \<Rightarrow> bool" where
  "settled s \<equiv> avail s \<and> busy s = 0 \<and> buffer_ok (zf_drv s) (memory s)"

lemma sync_image:
  assumes "settled s"
  shows "prompt (zclock now) (flashdrv_sync q) s
    (\<lambda>_ s'. avail s' \<and> busy s' = 0 \<and> core (zf_drv s') = (buff (zf_drv s), 0, -1, -1) \<and> memory s' = image s)"
proof (cases "buffPos (zf_drv s) = 0")
  case True
  then show ?thesis using assms by (simp add: flashdrv_sync_def Let_def flash_image_def buffer_ok_def core_def)
next
  case False
  let ?r = "unat (regID (zf_drv s))" and ?sc = "unat (sectID (zf_drv s))"
  have h: "holds_sector (zf_drv s) (memory s) ?r ?sc" using assms False by (simp add: buffer_ok_def)
  then have "holds_sector ((zf_drv s)\<lparr>buffPos := 0\<rparr>) (memory s) ?r ?sc" by (auto simp: holds_sector_def Let_def)
  from sync_law [OF _ _ this] show ?thesis
    using assms False avail_facts(2) by (simp add: flash_image_def Let_def)
qed

lemma switch_law:
  assumes "settled s" "is_sector (cfi fi) r sc" "sc < 2 ^ 16" "sector_start (cfi fi) r sc \<le> offs"
    "offs < sector_start (cfi fi) r sc + sect_bytes (cfi fi) r"
  shows "prompt (zclock now) (sector_switch q offs (of_nat r) (of_nat sc) (flashdrv_regStart (cfi fi) r) (sect_bytes (cfi fi) r)) s
    (\<lambda>_ s'. avail s' \<and> busy s' = 0 \<and> holds_sector (zf_drv s') (memory s') r sc \<and> offs = sector_start (cfi fi) r sc + buffPos (zf_drv s') \<and>
       memcpy_to (memory s') (sector_start (cfi fi) r sc) (take (sect_bytes (cfi fi) r) (buff (zf_drv s'))) = image s)"
    (is "prompt _ _ s ?Q")
proof -
  let ?c = "cfi fi" let ?z = "sect_bytes ?c r" and ?S = "sector_start ?c r sc"
  note f = sector_facts [OF layout_ok assms(2)]
  have st: "flashdrv_regStart ?c r + ?z * sc = ?S" "unat (of_nat sc :: u32) = sc"
    using assms(3) by (simp_all add: sector_start_def mult.commute unat_of_nat_small)
  have t: "5 \<le> int ?z * TIMEOUT_CMD_MS div 0x100" using f(3) by (auto simp: TIMEOUT_CMD_MS_def)
  have zl: "?z \<le> 65536" using f(3) by auto
  show ?thesis
    unfolding sector_switch_def st
  proof (rule prompt_bind [OF sync_image [OF assms(1)]], elim conjE)
    fix x and s1 :: "'w zflash"
    assume s1: "avail s1" "busy s1 = 0" "memory s1 = image s"
    show "prompt (zclock now) (io_bind (flashdrv_read q ?S ?z (int ?z * TIMEOUT_CMD_MS div 0x100)) (\<lambda>bs.
       io_bind (zf_modify (\<lambda>d. d\<lparr>buff := memcpy_to (buff d) 0 bs\<rparr>)) (\<lambda>_.
       io_bind (flashdrv_sectorErase q ?S ?z) (\<lambda>_.
       zf_modify (\<lambda>d. d\<lparr>buffPos := offs - flashdrv_regStart ?c r - sc * ?z, regID := of_nat r, sectID := of_nat sc\<rparr>))))) s1 ?Q"
    proof (rule prompt_bind [OF read_law [OF s1(1,2) f(2) t]], elim conjE)
      fix bs and s2 :: "'w zflash"
      assume s2: "avail s2" "busy s2 = 0" "memory s2 = memory s1" and bs: "bs = memcpy_from (memory s1) ?S ?z"
      note a2 = avail_facts [OF s2(1)]
      let ?s2 = "s2\<lparr>zf_drv := (zf_drv s2)\<lparr>buff := memcpy_to (buff (zf_drv s2)) 0 bs\<rparr>\<rparr>"
      have lb: "length bs = ?z" using bs a2(6) s2(3) f(2) by simp
      then have av: "avail ?s2" "busy ?s2 = 0" "memory ?s2 = memory s1" "take ?z (buff (zf_drv ?s2)) = bs"
        using s2 a2(5) zl by (auto simp: flash_avail_def drv_ok_def memcpy_to_def)
      show "prompt (zclock now) (io_bind (zf_modify (\<lambda>d. d\<lparr>buff := memcpy_to (buff d) 0 bs\<rparr>)) (\<lambda>_.
         io_bind (flashdrv_sectorErase q ?S ?z) (\<lambda>_.
         zf_modify (\<lambda>d. d\<lparr>buffPos := offs - flashdrv_regStart ?c r - sc * ?z, regID := of_nat r, sectID := of_nat sc\<rparr>)))) s2 ?Q"
        unfolding prompt_bind_modify
      proof (rule prompt_bind [OF erase_law [OF av(1,2) f(3,1,2)]], elim conjE)
        fix y and s3 :: "'w zflash"
        assume s3: "avail s3" "busy s3 = 0" "core (zf_drv s3) = core (zf_drv ?s2)" "memory s3 = memcpy_to (memory ?s2) ?S (replicate ?z 0xff)"
        have b3: "take ?z (buff (zf_drv s3)) = bs" using s3(3) av(4) by (simp add: core_def)
        have ml: "length (memory s1) = flash_bytes fi" using avail_facts [OF s1(1)] by simp
        have m3: "memcpy_from (memory s3) ?S ?z = replicate ?z 0xff"
          using memcpy_from_to_same [of ?S "replicate ?z 0xff" "memory s1"] s3(4) av(3) f(2) ml by simp
        have "memcpy_to (memory s3) ?S bs = memory s1"
          using s3(4) av(3) bs lb ml f(2) by (simp add: memcpy_to_to memcpy_to_from)
        then show "prompt (zclock now) (zf_modify (\<lambda>d. d\<lparr>buffPos := offs - flashdrv_regStart ?c r - sc * ?z, regID := of_nat r, sectID := of_nat sc\<rparr>)) s3 ?Q"
          using s3(1,2) avail_facts(2) [OF s3(1)] b3 m3 s1(3) assms(2-5)
          by (auto simp: holds_sector_def Let_def sector_start_def flash_avail_def drv_ok_def)
      qed
    qed
  qed
qed


text \<open>Data put into the buffer at its end: either the buffer has room left, or it is written back.\<close>

lemma chunk_law:
  assumes "avail s" "busy s = 0" "holds_sector (zf_drv s) (memory s) r sc" "offs = sector_start (cfi fi) r sc + buffPos (zf_drv s)"
    "n \<le> length x" "0 < n" "n \<le> sect_bytes (cfi fi) r - buffPos (zf_drv s)"
    and f: "f = (\<lambda>d. d\<lparr>buff := memcpy_to (buff d) (buffPos d) (take n x), buffPos := buffPos d + n\<rparr>)"
    and I: "I = memcpy_to (memory s) (sector_start (cfi fi) r sc) (take (sect_bytes (cfi fi) r) (buff (zf_drv s)))"
  shows "prompt (zclock now) (if buffPos (zf_drv s) + n < sect_bytes (cfi fi) r then io_return () else flashdrv_sync q)
    (s\<lparr>zf_drv := f (zf_drv s)\<rparr>)
    (\<lambda>_ s'. settled s' \<and> image s' = memcpy_to I offs (take n x) \<and> continues (zf_drv s') (offs + n))"
proof -
  let ?c = "cfi fi" let ?z = "sect_bytes ?c r" and ?S = "sector_start ?c r sc" and ?s = "s\<lparr>zf_drv := f (zf_drv s)\<rparr>"
  note av = avail_facts [OF assms(1)]
  note h = holds_ids [OF assms(3) av(2)]
  note sf = sector_facts [OF layout_ok h(3)]
  have zl: "?z \<le> 65536" using sf(3) by auto
  have b: "buffPos (zf_drv s) + n \<le> ?z" using assms(7) h(4) by linarith
  have s': "avail ?s" "busy ?s = 0" "buffPos (zf_drv ?s) = buffPos (zf_drv s) + n" "regID (zf_drv ?s) = regID (zf_drv s)"
      "sectID (zf_drv ?s) = sectID (zf_drv s)" "memory ?s = memory s" "fl_info (zf_drv ?s) = fi"
    using assms(1,2,5) b zl av(5) by (auto simp: f flash_avail_def drv_ok_def)
  have "memcpy_to (memory s) ?S (take ?z (memcpy_to (buff (zf_drv s)) (buffPos (zf_drv s)) (take n x))) =
      memcpy_to I (?S + buffPos (zf_drv s)) (take n x)"
    unfolding I using b assms(5) zl av(5,6) sf(2) by (intro memcpy_to_buffer) simp_all
  then have img: "memcpy_to (memory ?s) ?S (take ?z (buff (zf_drv ?s))) = memcpy_to I offs (take n x)" using assms(4) by (simp add: f)
  show ?thesis
  proof (cases "buffPos (zf_drv s) + n < ?z")
    case True
    then have "holds_sector (zf_drv ?s) (memory ?s) r sc"
      using assms(3) s' av(2) by (simp add: holds_sector_def Let_def)
    then show ?thesis
      using True s' img assms(4,6) h(1,2) by (simp add: buffer_ok_def flash_image_def continues_def Let_def)
  next
    case False
    have hs: "holds_sector ((zf_drv ?s)\<lparr>buffPos := 0\<rparr>) (memory ?s) r sc"
      using assms(3) s' av(2) by (auto simp: holds_sector_def Let_def)
    have "prompt (zclock now) (flashdrv_sync q) ?s
      (\<lambda>_ s'. avail s' \<and> busy s' = 0 \<and> core (zf_drv s') = (buff (zf_drv ?s), 0, -1, -1) \<and> memory s' = memcpy_to I offs (take n x))"
      using sync_law [OF s'(1,2) hs] s'(3) assms(6) unfolding img by simp
    then show ?thesis
      using False by (auto elim!: prompt_weaken dest!: core_eqD simp: buffer_ok_def flash_image_def continues_def Let_def)
  qed
qed

lemma flash_write_loop:
  assumes "settled s" "continues (zf_drv s) offs" "saveSz \<le> length data" "offs + (length data - saveSz) \<le> flash_bytes fi"
  shows "prompt (zclock now) (write_loop q data offs saveSz) s
    (\<lambda>n s'. n = length data \<and> settled s' \<and> image s' = memcpy_to (image s) offs (drop saveSz data) \<and>
       continues (zf_drv s') (offs + (length data - saveSz)))"
  using assms
proof (induction "length data - saveSz" arbitrary: offs saveSz s rule: less_induct)
  case less
  let ?c = "cfi fi"
  have av: "fl_info (zf_drv s) = fi" using avail_facts less.prems(1) by blast
  show ?case
  proof (cases "saveSz < length data")
    case False
    then have "write_loop q data offs saveSz = io_return saveSz" by (intro ext, subst write_loop.simps) (simp add: io_return_def)
    then show ?thesis using False less.prems by simp
  next
    case True
    then have "offs < flash_bytes fi" using less.prems(4) by simp
    then obtain r where r: "flashdrv_regionFind ?c offs = Inr r" "r < unat (regsCount ?c)" "flashdrv_regStart ?c r \<le> offs" "offs < flashdrv_regStart ?c (Suc r)"
      using regionFind_law [OF layout_ok] by blast
    define sc where "sc = (offs - flashdrv_regStart ?c r) div sect_bytes ?c r"
    note sc = sector_of_offset [OF layout_ok r(2-4) sc_def]
    let ?z = "sect_bytes ?c r" and ?S = "sector_start ?c r sc"
    define m where "m = (if of_nat r \<noteq> regID (zf_drv s) \<or> of_nat sc \<noteq> sectID (zf_drv s)
             then sector_switch q offs (of_nat r) (of_nat sc) (flashdrv_regStart ?c r) ?z else io_return ())"
    let ?P = "\<lambda>_ s'. avail s' \<and> busy s' = 0 \<and> holds_sector (zf_drv s') (memory s') r sc \<and> offs = ?S + buffPos (zf_drv s') \<and>
       memcpy_to (memory s') ?S (take ?z (buff (zf_drv s'))) = image s"
    have m: "prompt (zclock now) m s ?P"
    proof (cases "of_nat r \<noteq> regID (zf_drv s) \<or> of_nat sc \<noteq> sectID (zf_drv s)")
      case True
      then show ?thesis using switch_law [OF less.prems(1) sc(1,4,2,3)] by (simp add: m_def)
    next
      case False
      have r2: "r < 2" using layout_facts(5) [OF layout_ok r(2)] .
      have ids: "unat (regID (zf_drv s)) = r" "unat (sectID (zf_drv s)) = sc"
        using False r2 sc(4) unat_of_nat_small [of r, where 'a = 32] unat_of_nat_small [of sc, where 'a = 32] by auto
      then have p: "buffPos (zf_drv s) \<noteq> 0" using less.prems(1) r2 by (auto simp: buffer_ok_def unsigned_minus_1_eq_mask mask_eq_exp_minus_1 split: if_splits)
      then have "holds_sector (zf_drv s) (memory s) r sc" using less.prems(1) ids by (simp add: buffer_ok_def)
      moreover have "offs = ?S + buffPos (zf_drv s)"
        using less.prems(2) p ids sc(2,3) av by (auto simp: continues_def Let_def)
      ultimately show ?thesis using False less.prems(1) ids p av by (simp add: m_def flash_image_def Let_def)
    qed
    have e: "flashdrv_regionFind (cfi (fl_info (zf_drv s))) offs = Inr r" "?c = cfi (fl_info (zf_drv s))" using r(1) av by simp_all
    have step: "write_loop q data offs saveSz s = io_bind m (\<lambda>_. write_chunk q data offs saveSz ?z) s"
      unfolding m_def by (rule write_loop_step [OF True e sc_def])
    have "prompt (zclock now) (io_bind m (\<lambda>_. write_chunk q data offs saveSz ?z)) s
      (\<lambda>n s'. n = length data \<and> settled s' \<and> image s' = memcpy_to (image s) offs (drop saveSz data) \<and>
         continues (zf_drv s') (offs + (length data - saveSz)))"
    proof (rule prompt_bind [OF m], elim conjE)
      fix y and s1 :: "'w zflash"
      assume s1: "avail s1" "busy s1 = 0" "holds_sector (zf_drv s1) (memory s1) r sc" "offs = ?S + buffPos (zf_drv s1)"
        and i1: "memcpy_to (memory s1) ?S (take ?z (buff (zf_drv s1))) = image s"
      have pz: "buffPos (zf_drv s1) < ?z" using holds_ids(4) [OF s1(3)] avail_facts(2) [OF s1(1)] by simp
      define n where "n = (if ?z - buffPos (zf_drv s1) > length data - saveSz then length data - saveSz else ?z - buffPos (zf_drv s1))"
      have n: "n \<le> length (drop saveSz data)" "0 < n" "n \<le> ?z - buffPos (zf_drv s1)" using True pz by (auto simp: n_def)
      have cp: "memcpy_from data saveSz n = take n (drop saveSz data)" by (simp add: memcpy_from_def)
      note ch = chunk_law [OF s1 n refl refl, unfolded i1]
      show "prompt (zclock now) (write_chunk q data offs saveSz ?z) s1
        (\<lambda>n s'. n = length data \<and> settled s' \<and> image s' = memcpy_to (image s) offs (drop saveSz data) \<and>
           continues (zf_drv s') (offs + (length data - saveSz)))"
        unfolding write_chunk_def prompt_get Let_def n_def [symmetric] prompt_bind_modify cp
      proof (rule prompt_bind [OF ch], elim conjE)
        fix u and s2 :: "'w zflash"
        assume s2: "avail s2" "busy s2 = 0" "buffer_ok (zf_drv s2) (memory s2)" "continues (zf_drv s2) (offs + n)"
          and i2: "image s2 = memcpy_to (image s) offs (take n (drop saveSz data))"
        have li: "length (image s) = flash_bytes fi"
          unfolding i1 [symmetric] using sector_facts(2,3) [OF layout_ok sc(1)] avail_facts(5,6) [OF s1(1)] by auto
        have "memcpy_to (image s2) (offs + n) (drop (saveSz + n) data) = memcpy_to (image s) offs (drop saveSz data)"
          using memcpy_to_append [of offs "take n (drop saveSz data)" "drop (saveSz + n) data" "image s"] n(1) i2 li less.prems(4) True
          by (simp add: add.commute drop_drop [symmetric] del: drop_drop)
        then show "prompt (zclock now) (write_loop q data (offs + n) (saveSz + n)) s2
          (\<lambda>n s'. n = length data \<and> settled s' \<and> image s' = memcpy_to (image s) offs (drop saveSz data) \<and>
             continues (zf_drv s') (offs + (length data - saveSz)))"
          using s2 n True less.prems(4) by (intro prompt_weaken [OF less.hyps]) auto
      qed
    qed
    then show ?thesis by (simp add: prompt_def step)
  qed
qed

end

section \<open>Erasing\<close>

lemma regStart_mono: "i \<le> j \<Longrightarrow> flashdrv_regStart c i \<le> flashdrv_regStart c j"
proof -
  assume "i \<le> j"
  then have "take j (regs c) = take i (regs c) @ take (j - i) (drop i (regs c))" by (metis le_add_diff_inverse take_add)
  then show ?thesis by (simp add: flashdrv_regStart_def)
qed

text \<open>\<open>a\<close> is the start of a sector.\<close>

definition sector_at :: "flash_info_t \<Rightarrow> nat \<Rightarrow> bool" where
  "sector_at fi a \<longleftrightarrow> (\<exists>r sc. is_sector (cfi fi) r sc \<and> sector_start (cfi fi) r sc = a)"

definition sector_end :: "flash_info_t \<Rightarrow> nat \<Rightarrow> bool" where
  "sector_end fi e \<longleftrightarrow> (\<exists>r sc. is_sector (cfi fi) r sc \<and> sector_start (cfi fi) r sc + sect_bytes (cfi fi) r = e)"

lemma sector_in_region:
  assumes "layout_ok fi" "is_sector (cfi fi) r sc"
  shows "r < unat (regsCount (cfi fi))" "flashdrv_regStart (cfi fi) r \<le> sector_start (cfi fi) r sc"
    "sector_start (cfi fi) r sc < flashdrv_regStart (cfi fi) (Suc r)" "sector_start (cfi fi) r sc + sect_bytes (cfi fi) r \<le> flashdrv_regStart (cfi fi) (Suc r)"
  using assms sector_facts(3) [OF assms] by (auto simp: is_sector_def sector_start_def)

lemma region_unique:
  assumes "flashdrv_regStart c r \<le> a" "a < flashdrv_regStart c (Suc r)" "flashdrv_regStart c r' \<le> a" "a < flashdrv_regStart c (Suc r')"
  shows "r = r'"
proof (rule ccontr)
  assume "r \<noteq> r'"
  then consider "Suc r \<le> r'" | "Suc r' \<le> r" by linarith
  then show False using assms regStart_mono [of "Suc r" r' c] regStart_mono [of "Suc r'" r c] by cases linarith+
qed

lemma sector_of_start:
  assumes "layout_ok fi" "is_sector (cfi fi) r sc" "flashdrv_regionFind (cfi fi) (sector_start (cfi fi) r sc) = Inr r'"
  shows "r' = r"
proof -
  note i = sector_in_region [OF assms(1,2)]
  have "sector_start (cfi fi) r sc < flash_bytes fi" using i layout_facts(4) [OF assms(1) i(1)] by linarith
  then show ?thesis
    using regionFind_law [OF assms(1)] assms(3) region_unique [OF _ _ i(2,3)] by fastforce
qed

lemma sector_next:
  assumes "layout_ok fi" "is_sector (cfi fi) r sc" "sector_end fi e" "sector_start (cfi fi) r sc < e"
  shows "sector_start (cfi fi) r sc + sect_bytes (cfi fi) r \<le> e"
    "sector_start (cfi fi) r sc + sect_bytes (cfi fi) r < e \<Longrightarrow> sector_at fi (sector_start (cfi fi) r sc + sect_bytes (cfi fi) r)"
proof -
  let ?c = "cfi fi" let ?z = "sect_bytes ?c r" and ?S = "sector_start ?c r sc"
  obtain re se where e: "is_sector ?c re se" "sector_start ?c re se + sect_bytes ?c re = e" using assms(3) by (auto simp: sector_end_def)
  note i = sector_in_region [OF assms(1,2)] and ie = sector_in_region [OF assms(1) e(1)]
  have r: "r \<le> re" using i(2) ie(4) e(2) assms(4) regStart_mono [of "Suc re" r ?c] by (metis Suc_leI le_trans leD not_le_imp_less)
  show *: "?S + ?z \<le> e"
  proof (cases "r = re")
    case True
    then have "sc * ?z < Suc se * ?z" using assms(4) e(2) by (auto simp: sector_start_def)
    then have "sc < Suc se" by (simp only: mult_less_cancel2)
    then have "sc * ?z \<le> se * ?z" by (intro mult_le_mono1) simp
    then show ?thesis unfolding e(2) [symmetric] sector_start_def True by (simp add: True)
  next
    case False
    then show ?thesis using r i(4) ie(2) e(2) regStart_mono [of "Suc r" re ?c] by simp
  qed
  assume lt: "?S + ?z < e"
  show "sector_at fi (?S + ?z)"
  proof (cases "?S + ?z < flashdrv_regStart ?c (Suc r)")
    case True
    have d: "sect_bytes ?c r > 0" using sector_facts(3) [OF assms(1,2)] by auto
    have "is_sector ?c r ((?S + ?z - flashdrv_regStart ?c r) div ?z)"
      using True i(1,2) by (intro sector_of_offset(1) [OF assms(1), where offs = "?S + ?z"]) auto
    moreover have "(?S + ?z - flashdrv_regStart ?c r) div ?z = Suc sc" using d by (simp add: sector_start_def)
    moreover have "sector_start ?c r (Suc sc) = ?S + ?z" by (simp add: sector_start_def)
    ultimately show ?thesis unfolding sector_at_def by metis
  next
    case False
    then have b: "?S + ?z = flashdrv_regStart ?c (Suc r)" using i(4) by simp
    have k: "Suc r < unat (regsCount ?c)"
    proof (rule ccontr)
      assume "\<not> Suc r < unat (regsCount ?c)"
      then have "unat (regsCount ?c) \<le> Suc r" "re \<le> r" using ie(1) by simp_all
      then have "e \<le> flashdrv_regStart ?c (Suc r)" using ie(4) e(2) regStart_mono [of "Suc re" "Suc r" ?c] by simp
      then show False using lt b by simp
    qed
    note l = layout_facts [OF assms(1) k]
    have "0 < sect_bytes ?c (Suc r)" using l(1) by auto
    then have "is_sector ?c (Suc r) 0" using k l(3) by (simp add: is_sector_def sector_start_def)
    moreover have "sector_start ?c (Suc r) 0 = ?S + ?z" using b by (simp add: sector_start_def)
    ultimately show ?thesis unfolding sector_at_def by metis
  qed
qed

context flash_dev
begin

lemma erase_loop_law:
  assumes "avail s" "busy s = 0" "a < e \<longrightarrow> sector_at fi a" "sector_end fi e" "a \<le> e"
  shows "prompt (zclock now) (erase_loop q a e n) s
    (\<lambda>n' s'. n' = n + (e - a) \<and> avail s' \<and> busy s' = 0 \<and> core (zf_drv s') = core (zf_drv s) \<and>
       memory s' = memcpy_to (memory s) a (replicate (e - a) 0xff))"
  using assms
proof (induction "e - a" arbitrary: a n s rule: less_induct)
  case less
  show ?case
  proof (cases "a < e")
    case False
    then have "erase_loop q a e n = io_return n" by (intro ext, subst erase_loop.simps) (simp add: io_return_def)
    then show ?thesis using False less.prems by simp
  next
    case True
    obtain r sc where sc: "is_sector (cfi fi) r sc" "sector_start (cfi fi) r sc = a" using less.prems(3) True by (auto simp: sector_at_def)
    let ?z = "sect_bytes (cfi fi) r"
    note f = sector_facts [OF layout_ok sc(1), unfolded sc(2)] and nx = sector_next [OF layout_ok sc(1) less.prems(4), unfolded sc(2), OF True]
    have z: "0 < ?z" using f(3) by auto
    then have "a < flash_bytes fi" using f(2) by simp
    then have rf: "flashdrv_regionFind (cfi fi) a = Inr r"
      using regionFind_law [OF layout_ok] sector_of_start [OF layout_ok sc(1)] sc(2) by metis
    have step: "erase_loop q a e n s = io_bind (flashdrv_sectorErase q a ?z) (\<lambda>_. erase_loop q (a + ?z) e (n + ?z)) s"
      using True rf avail_facts(2) [OF less.prems(1)] by (subst erase_loop.simps) (simp add: io_bind_def Let_def split: option.split sum.split)
    have "prompt (zclock now) (io_bind (flashdrv_sectorErase q a ?z) (\<lambda>_. erase_loop q (a + ?z) e (n + ?z))) s
      (\<lambda>n' s'. n' = n + (e - a) \<and> avail s' \<and> busy s' = 0 \<and> core (zf_drv s') = core (zf_drv s) \<and>
         memory s' = memcpy_to (memory s) a (replicate (e - a) 0xff))"
    proof (rule prompt_bind [OF erase_law [OF less.prems(1,2) f(3,1,2)]], elim conjE)
      fix x and s1 :: "'w zflash"
      assume s1: "avail s1" "core (zf_drv s1) = core (zf_drv s)" "busy s1 = 0" and m1: "memory s1 = memcpy_to (memory s) a (replicate ?z 0xff)"
      obtain re se where e: "is_sector (cfi fi) re se" "sector_start (cfi fi) re se + sect_bytes (cfi fi) re = e"
        using less.prems(4) by (auto simp: sector_end_def)
      have le: "e \<le> length (memory s)" using sector_facts(2) [OF layout_ok e(1)] e(2) avail_facts(6) [OF less.prems(1)] by simp
      have "e - a = ?z + (e - (a + ?z))" using nx(1) by simp
      then have "memcpy_to (memory s1) (a + ?z) (replicate (e - (a + ?z)) 0xff) = memcpy_to (memory s) a (replicate (e - a) 0xff)"
        using memcpy_to_append [of a "replicate ?z 0xff" "replicate (e - (a + ?z)) 0xff" "memory s"] m1 le nx(1)
        by (simp add: replicate_add [symmetric])
      then show "prompt (zclock now) (erase_loop q (a + ?z) e (n + ?z)) s1
        (\<lambda>n' s'. n' = n + (e - a) \<and> avail s' \<and> busy s' = 0 \<and> core (zf_drv s') = core (zf_drv s) \<and>
           memory s' = memcpy_to (memory s) a (replicate (e - a) 0xff))"
        using s1 nx z True less.prems(4) by (intro prompt_weaken [OF less.hyps]) auto
    qed
    then show ?thesis by (simp add: prompt_def step)
  qed
qed

end

lemma sect_mask_eq:
  assumes "sect_bytes c r = 2 ^ k" "k < 64"
  shows "sect_mask c r = mask k"
proof -
  have "CFI_SIZE_SECTION (reg_size (regs c ! r)) = 2 ^ k"
    using assms(1) by (metis of_nat_unat ucast_id of_nat_power of_nat_numeral sect_bytes_def)
  then show ?thesis by (simp add: sect_mask_def mask_eq_exp_minus_1)
qed

lemma unat_round_down:
  assumes "sect_bytes c r = 2 ^ k" "k < 64"
  shows "unat (x AND NOT (sect_mask c r)) = unat x div 2 ^ k * 2 ^ k"
proof -
  have "sect_mask c r = mask k" by (rule sect_mask_eq [OF assms])
  moreover have "take_bit k x \<le> x" by (simp add: word_le_nat_alt unsigned_take_bit_eq take_bit_nat_less_eq_self)
  moreover have "unat (take_bit k x) = unat x mod 2 ^ k" unfolding unsigned_take_bit_eq by (rule take_bit_eq_mod)
  ultimately show ?thesis by (simp add: and_not_mask unat_minus_small minus_mod_eq_div_mult)
qed

lemma div_in_block:
  fixes z :: nat
  assumes "z dvd S" "S \<le> x" "x < S + z"
  shows "x div z * z = S"
proof -
  obtain m where m: "S = z * m" using assms(1) by blast
  then have "x div z = m" using assms by (intro div_nat_eqI) (simp_all add: mult.commute)
  then show ?thesis using m by (simp add: mult.commute)
qed

lemma sect_power: "layout_ok fi \<Longrightarrow> r < unat (regsCount (cfi fi)) \<Longrightarrow> \<exists>k. sect_bytes (cfi fi) r = 2 ^ k \<and> k \<le> 16"
proof -
  assume "layout_ok fi" "r < unat (regsCount (cfi fi))"
  then have "sect_bytes (cfi fi) r = 2 ^ 12 \<or> sect_bytes (cfi fi) r = 2 ^ 16" using layout_facts(1) [of fi r] by simp
  then show ?thesis by (elim disjE) (rule exI, erule conjI, simp)+
qed

text \<open>The offset \<open>x\<close> is in the sector from \<open>a\<close> up to \<open>e\<close>.\<close>

definition sector_of :: "flash_info_t \<Rightarrow> nat \<Rightarrow> nat \<Rightarrow> nat \<Rightarrow> bool" where
  "sector_of fi x a e \<longleftrightarrow> a \<le> x \<and> x < e \<and>
     (\<exists>r sc. is_sector (cfi fi) r sc \<and> sector_start (cfi fi) r sc = a \<and> sector_start (cfi fi) r sc + sect_bytes (cfi fi) r = e)"

lemma sector_ofD: "sector_of fi x a e \<Longrightarrow> sector_at fi a \<and> sector_end fi e \<and> a \<le> x \<and> x < e"
  by (auto simp: sector_of_def sector_at_def sector_end_def)

text \<open>The bounds that \<open>flashdrv_erase\<close> computes are the start of the first and the end of the last sector the range meets.\<close>

lemma round_down_sector:
  assumes "layout_ok fi" "unat x < flash_bytes fi" "flashdrv_regionFind (cfi fi) (unat x) = Inr r"
  shows "\<exists>e. sector_of fi (unat x) (unat (x AND NOT (sect_mask (cfi fi) r))) e"
proof -
  let ?c = "cfi fi"
  obtain r' where "flashdrv_regionFind ?c (unat x) = Inr r'" and r': "r' < unat (regsCount ?c)" "flashdrv_regStart ?c r' \<le> unat x" "unat x < flashdrv_regStart ?c (Suc r')"
    using regionFind_law [OF assms(1,2)] by blast
  then have r: "r' = r" using assms(3) by simp
  obtain k where k: "sect_bytes ?c r = 2 ^ k" "k \<le> 16" using sect_power [OF assms(1)] r' r by blast
  note s = sector_of_offset [OF assms(1) r'[unfolded r] refl]
  let ?S = "sector_start ?c r ((unat x - flashdrv_regStart ?c r) div sect_bytes ?c r)"
  have e: "unat (x AND NOT (sect_mask ?c r)) = ?S"
    using unat_round_down [OF k(1)] k div_in_block [of "2 ^ k" ?S "unat x"] s(2,3) sector_facts(1) [OF assms(1) s(1)] by simp
  show ?thesis unfolding e sector_of_def using s(1-3) by blast
qed

lemma round_up_sector:
  assumes "layout_ok fi" "0 < unat x" "unat x \<le> flash_bytes fi" "flashdrv_regionFind (cfi fi) (unat x - 1) = Inr r"
  shows "\<exists>a. sector_of fi (unat x - 1) a (unat ((x + sect_mask (cfi fi) r) AND NOT (sect_mask (cfi fi) r)))"
proof -
  let ?c = "cfi fi" and ?y = "unat x - 1"
  obtain r' where "flashdrv_regionFind ?c ?y = Inr r'" and r': "r' < unat (regsCount ?c)" "flashdrv_regStart ?c r' \<le> ?y" "?y < flashdrv_regStart ?c (Suc r')"
  proof -
    have "?y < flash_bytes fi" using assms(2,3) by linarith
    then show thesis using regionFind_law [OF assms(1)] that by blast
  qed
  then have r: "r' = r" using assms(4) by simp
  obtain k where k: "sect_bytes ?c r = 2 ^ k" "k \<le> 16" using sect_power [OF assms(1)] r' r by blast
  note s = sector_of_offset [OF assms(1) r'[unfolded r] refl]
  let ?S = "sector_start ?c r ((?y - flashdrv_regStart ?c r) div sect_bytes ?c r)"
  have k16: "(2::nat) ^ k \<le> 65536" using k(2) power_increasing [of k 16 "2::nat"] by simp
  have fb: "flash_bytes fi < 2 ^ 32" using unat_less_exp [of "CFI_SIZE_FLASH (chipSize ?c)"] by (simp add: flash_bytes_def)
  have m: "unat (sect_mask ?c r) = 2 ^ k - 1"
    using k(1) by (simp add: sect_mask_def unat_minus_small word_le_nat_alt sect_bytes_def)
  have p: "(1::nat) \<le> 2 ^ k" by simp
  have "unat (x + sect_mask ?c r) = unat x + (2 ^ k - 1)"
    using m assms(3) fb k16 by (subst unat_plus_small) simp_all
  also have "\<dots> = ?y + 2 ^ k" using assms(2) p by linarith
  finally have "unat ((x + sect_mask ?c r) AND NOT (sect_mask ?c r)) = (?y + 2 ^ k) div 2 ^ k * 2 ^ k"
    using unat_round_down [OF k(1)] k(2) by simp
  also have "\<dots> = ?y div 2 ^ k * 2 ^ k + 2 ^ k" by (simp add: div_add_self2)
  also have "\<dots> = ?S + 2 ^ k" using div_in_block [of "2 ^ k" ?S ?y] s(2,3) k(1) sector_facts(1) [OF assms(1) s(1)] by simp
  finally have e: "unat ((x + sect_mask ?c r) AND NOT (sect_mask ?c r)) = ?S + sect_bytes ?c r" using k(1) by simp
  show ?thesis unfolding e sector_of_def using s(1-3) by blast
qed

lemma io_of_Inr: "io_of (Inr x) = io_return x"
  by (simp add: io_of_def io_return_def fun_eq_iff)

context flash_dev
begin

lemma flash_end_bytes: "unat (flash_end (cfi fi)) = flash_bytes fi" "flash_bytes fi < 2 ^ 32"
proof -
  show b: "flash_bytes fi < 2 ^ 32" using unat_less_exp [of "CFI_SIZE_FLASH (chipSize (cfi fi))"] by (simp add: flash_bytes_def)
  then show "unat (flash_end (cfi fi)) = flash_bytes fi"
    by (simp add: flash_end_def flash_bytes_def unsigned_ucast_eq take_bit_nat_eq_self)
qed

lemma write_law:
  assumes "settled s" "continues (zf_drv s) (unat offs)" "unat offs + length data \<le> flash_bytes fi"
  shows "prompt (zclock now) (flashdrv_write q minor offs data) s
    (\<lambda>n s'. n = of_nat (length data) \<and> settled s' \<and> image s' = memcpy_to (image s) (unat offs) data \<and>
       continues (zf_drv s') (unat offs + length data))"
proof (cases "data = []")
  case True
  then show ?thesis using assms by (simp add: flashdrv_write_def)
next
  case False
  have fi: "fl_info (zf_drv s) = fi" using avail_facts assms(1) by blast
  have l: "unat (of_nat (length data) :: size_t) = length data" using assms(3) flash_end_bytes(2) by (intro unat_of_nat_small) simp
  have "unat (offs + of_nat (length data)) = unat offs + length data"
    using assms(3) flash_end_bytes(2) l by (subst unat_plus_small) simp_all
  then have "\<not> offs + of_nat (length data) > flash_end (cfi fi)"
    using assms(3) flash_end_bytes(1) by (simp add: word_less_nat_alt not_less)
  then show ?thesis
    using False fi flash_write_loop [OF assms(1,2), of 0 data] assms(3)
    by (auto simp: flashdrv_write_def intro!: prompt_bind)
qed

lemma write_refused:
  assumes "avail s" "unat offs + length data < 2 ^ 64" "unat offs + length data > flash_bytes fi" "data \<noteq> []"
  shows "flashdrv_write q minor offs data s = Some (Inl EINVAL, s)"
proof -
  have l: "unat (of_nat (length data) :: size_t) = length data" using assms(2) by (intro unat_of_nat_small) simp
  have "unat (offs + of_nat (length data)) = unat offs + length data" using assms(2) l by (subst unat_plus_small) simp_all
  then have "offs + of_nat (length data) > flash_end (cfi fi)"
    using assms(3) flash_end_bytes(1) by (simp add: word_less_nat_alt)
  then show ?thesis using assms(4) avail_facts(2) [OF assms(1)] by (simp add: flashdrv_write_def zf_get_def io_throw_def)
qed

lemma erase_range_law:
  assumes "avail s" "busy s = 0" "len \<noteq> 0" "len \<noteq> -1" "unat addr + unat len \<le> flash_bytes fi"
  shows "prompt (zclock now) (flashdrv_erase q minor addr len flags) s
    (\<lambda>n s'. \<exists>a a' e' e. sector_of fi (unat addr) a a' \<and> sector_of fi (unat addr + unat len - 1) e' e \<and> n = of_nat (e - a) \<and> avail s' \<and> busy s' = 0 \<and>
       core (zf_drv s') = (buff (zf_drv s), 0, -1, -1) \<and> memory s' = memcpy_to (memory s) a (replicate (e - a) 0xff))"
proof -
  let ?c = "cfi fi"
  have fi: "fl_info (zf_drv s) = fi" using avail_facts assms(1) by blast
  have l0: "0 < unat len" using assms(3) unat_eq_0 [of len] by linarith
  have u: "unat (addr + len) = unat addr + unat len" using assms(5) flash_end_bytes(2) by (subst unat_plus_small) simp_all
  have r1: "unat (addr + len - 1) = unat addr + unat len - 1"
    using u l0 by (subst unat_minus_small) (simp_all add: word_le_nat_alt)
  have in1: "\<not> addr + len > flash_end ?c" using u assms(5) flash_end_bytes(1) by (simp add: word_less_nat_alt not_less)
  have b: "unat addr < flash_bytes fi" "unat (addr + len) - 1 < flash_bytes fi" using assms(5) l0 u by linarith+
  obtain id1 where id1: "flashdrv_regionFind ?c (unat (addr + len) - 1) = Inr id1" using regionFind_law [OF layout_ok b(2)] by blast
  obtain id2 where id2: "flashdrv_regionFind ?c (unat addr) = Inr id2" using regionFind_law [OF layout_ok b(1)] by blast
  let ?e = "unat ((addr + len + sect_mask ?c id1) AND NOT (sect_mask ?c id1))" and ?a = "unat (addr AND NOT (sect_mask ?c id2))"
  obtain a' e' where sa: "sector_of fi (unat addr) ?a a'" and se: "sector_of fi (unat addr + unat len - 1) e' ?e"
    using round_up_sector [OF layout_ok _ _ id1] round_down_sector [OF layout_ok b(1) id2] u l0 assms(5) by auto
  let ?s = "s\<lparr>zf_drv := buff_reset (zf_drv s)\<rparr>"
  have s': "avail ?s" "busy ?s = 0" "core (zf_drv ?s) = (buff (zf_drv s), 0, -1, -1)" "memory ?s = memory s" "fl_info (buff_reset (zf_drv s)) = fi"
    using assms(1,2) fi by (auto simp: flash_avail_def drv_ok_def buff_reset_def core_def)
  have ae: "?a < ?e \<longrightarrow> sector_at fi ?a" "sector_end fi ?e" "?a \<le> ?e" using sector_ofD [OF sa] sector_ofD [OF se] l0 by linarith+
  have "prompt (zclock now) (io_bind (erase_loop q ?a ?e 0) (\<lambda>n. io_return (of_nat n))) ?s
    (\<lambda>n s'. \<exists>a a' e' e. sector_of fi (unat addr) a a' \<and> sector_of fi (unat addr + unat len - 1) e' e \<and> n = of_nat (e - a) \<and> avail s' \<and> busy s' = 0 \<and>
       core (zf_drv s') = (buff (zf_drv s), 0, -1, -1) \<and> memory s' = memcpy_to (memory s) a (replicate (e - a) 0xff))"
  proof (rule prompt_bind [OF erase_loop_law [OF s'(1,2) ae]], elim conjE)
    fix n and s1 :: "'w zflash"
    assume s1: "n = 0 + (?e - ?a)" "avail s1" "busy s1 = 0" "core (zf_drv s1) = core (zf_drv ?s)" "memory s1 = memcpy_to (memory ?s) ?a (replicate (?e - ?a) 0xff)"
    show "prompt (zclock now) (io_return (of_nat n)) s1
      (\<lambda>n s'. \<exists>a a' e' e. sector_of fi (unat addr) a a' \<and> sector_of fi (unat addr + unat len - 1) e' e \<and> n = of_nat (e - a) \<and> avail s' \<and> busy s' = 0 \<and>
         core (zf_drv s') = (buff (zf_drv s), 0, -1, -1) \<and> memory s' = memcpy_to (memory s) a (replicate (e - a) 0xff))"
      unfolding prompt_return using sa se s1 s'(3) by (intro exI [of _ ?a] exI [of _ a'] exI [of _ e'] exI [of _ ?e] conjI) simp_all
  qed
  then show ?thesis
    using assms(3,4) in1 id1 id2 r1 u s'(5) by (simp add: flashdrv_erase_def Let_def io_of_Inr)
qed


lemma chip_erase_law:
  assumes "avail s" "busy s = 0"
  shows "prompt (zclock now) (flashdrv_chipErase q) s
    (\<lambda>_ s'. avail s' \<and> core (zf_drv s') = core (zf_drv s) \<and> memory s' = replicate (flash_bytes fi) 0xff \<and> busy s' = 0)"
proof -
  note av = avail_facts [OF assms(1)]
  let ?op = "opCode (cmds fi flash_cmd_be)"
  have sz: "unat (cmd_size (cmds fi flash_cmd_be)) = 1" using cmds_ok by (simp add: cmds_ok_def)
  show ?thesis
    unfolding flashdrv_chipErase_def prompt_get Let_def av(2) sz
  proof (rule prompt_bind [OF wren_law [OF assms]], elim conjE)
    fix x and s1 :: "'w zflash"
    assume s1: "avail s1" "core (zf_drv s1) = core (zf_drv s)" "memory s1 = memory s" "enabled s1" "busy s1 = 0"
    note a1 = avail_facts [OF s1(1)]
    have t: "take 1 (tx_clear 1 ?op (cmdTx (zf_drv s1))) = [?op]" using a1(3) take_tx_clear [of 1 "cmdTx (zf_drv s1)"] by simp
    show "prompt (zclock now) (io_bind (zf_modify (\<lambda>d. d\<lparr>cmdTx := tx_clear 1 ?op (cmdTx d)\<rparr>)) (\<lambda>_.
         zf_get (\<lambda>d. io_bind (zf_lift (q_command q (Some (cmdTx d)) 1 TIMEOUT_CMD_MS)) (\<lambda>_.
         flashdrv_wipCheck q (uint (CFI_TIMEOUT_MAX_ERASE (chipErase (timeoutTypical (cfi fi))) (chipErase (timeoutMax (cfi fi)))) + TIMEOUT_CMD_MS))))) s1
      (\<lambda>_ s'. avail s' \<and> core (zf_drv s') = core (zf_drv s) \<and> memory s' = replicate (flash_bytes fi) 0xff \<and> busy s' = 0)"
    proof (rule run_law [where f = "tx_clear 1 ?op", OF s1(1) _ _ t])
      fix rx and s' :: "'w zflash"
      assume s': "ok (zf_w s')" "sel (zf_w s') = None" "drv_ok fi (zf_drv s')" "core (zf_drv s') = core (zf_drv s1)" "chip (zf_w s') = fin (chip (zf_w s1)) [?op]"
      then have "avail s'" "memory s' = replicate (flash_bytes fi) 0xff"
        using chip_erase_fin [OF a1(1) s1(5,4) s'(5)] by (simp_all add: flash_avail_def)
      then show "prompt (zclock now) (flashdrv_wipCheck q (uint (CFI_TIMEOUT_MAX_ERASE (chipErase (timeoutTypical (cfi fi))) (chipErase (timeoutMax (cfi fi)))) + TIMEOUT_CMD_MS)) s'
        (\<lambda>_ s'. avail s' \<and> core (zf_drv s') = core (zf_drv s) \<and> memory s' = replicate (flash_bytes fi) 0xff \<and> busy s' = 0)"
        using s1(2) s'(4) by (intro prompt_weaken [OF wipCheck_law]) (auto simp: TIMEOUT_CMD_MS_def)
    qed (use a1(3) in simp_all)
  qed
qed

lemma erase_all_law:
  assumes "avail s" "busy s = 0"
  shows "prompt (zclock now) (flashdrv_erase q minor addr (-1) flags) s
    (\<lambda>n s'. n = of_nat (flash_bytes fi) \<and> avail s' \<and> busy s' = 0 \<and> core (zf_drv s') = (buff (zf_drv s), 0, -1, -1) \<and>
       memory s' = replicate (flash_bytes fi) 0xff)"
proof -
  let ?s = "s\<lparr>zf_drv := buff_reset (zf_drv s)\<rparr>"
  have s': "avail ?s" "busy ?s = 0" "core (zf_drv ?s) = (buff (zf_drv s), 0, -1, -1)" "fl_info (buff_reset (zf_drv s)) = fi"
    using assms avail_facts(2) [OF assms(1)] by (auto simp: flash_avail_def drv_ok_def buff_reset_def core_def)
  have "flash_end (cfi fi) = of_nat (flash_bytes fi)" using flash_end_bytes(1) by (metis of_nat_unat ucast_id)
  then have "prompt (zclock now) (io_bind (flashdrv_chipErase q) (\<lambda>_. io_return (flash_end (cfi fi)))) ?s
    (\<lambda>n s'. n = of_nat (flash_bytes fi) \<and> avail s' \<and> busy s' = 0 \<and> core (zf_drv s') = (buff (zf_drv s), 0, -1, -1) \<and>
       memory s' = replicate (flash_bytes fi) 0xff)"
    using s'(3) by (intro prompt_bind [OF chip_erase_law [OF s'(1,2)]]) simp
  then show ?thesis using s'(4) by (simp add: flashdrv_erase_def Let_def)
qed

lemma erase_refused:
  assumes "avail s" "unat offs + length data < 2 ^ 64" "unat offs + length data > flash_bytes fi" "data \<noteq> []" "length data < 2 ^ 64 - 1"
  shows "flashdrv_erase q minor offs (of_nat (length data)) flags s = Some (Inl EINVAL, s\<lparr>zf_drv := buff_reset (zf_drv s)\<rparr>)"
proof -
  let ?l = "of_nat (length data) :: size_t"
  have l: "unat ?l = length data" using assms(2) by (intro unat_of_nat_small) simp
  have "unat (offs + ?l) = unat offs + length data" using assms(2) l by (subst unat_plus_small) simp_all
  then have "offs + ?l > flash_end (cfi fi)" using assms(3) flash_end_bytes(1) by (simp add: word_less_nat_alt)
  moreover have "?l \<noteq> 0" using l assms(4) by auto
  moreover have "?l \<noteq> -1"
  proof
    assume "?l = -1"
    then have "length data = 2 ^ 64 - 1" using l by (simp add: unsigned_minus_1_eq_mask mask_eq_exp_minus_1)
    then show False using assms(5) by simp
  qed
  ultimately show ?thesis
    using avail_facts(2) [OF assms(1)] by (simp add: flashdrv_erase_def zf_get_def io_throw_def io_bind_def zf_modify_def buff_reset_def)
qed

text \<open>Within the buffered sector the offset of a write is not looked at: the data goes to the end of the buffered data.\<close>

lemma write_ignores_offset:
  assumes "settled s" "0 < buffPos (zf_drv s)" "r = unat (regID (zf_drv s))" "sc = unat (sectID (zf_drv s))"
    and "sector_start (cfi fi) r sc \<le> unat offs" "unat offs < sector_start (cfi fi) r sc + sect_bytes (cfi fi) r" "data \<noteq> []"
    and "buffPos (zf_drv s) + length data < sect_bytes (cfi fi) r" "unat offs + length data \<le> flash_bytes fi"
  shows "prompt (zclock now) (flashdrv_write q minor offs data) s
    (\<lambda>n s'. n = of_nat (length data) \<and> settled s' \<and>
       image s' = memcpy_to (image s) (sector_start (cfi fi) r sc + buffPos (zf_drv s)) data)"
proof -
  let ?c = "cfi fi" let ?S = "sector_start ?c r sc" and ?z = "sect_bytes ?c r" and ?d = "zf_drv s"
  have av: "avail s" "busy s = 0" "fl_info ?d = fi" using assms(1) avail_facts by auto
  have h: "holds_sector ?d (memory s) r sc" using assms(1-4) by (simp add: buffer_ok_def)
  note hi = holds_ids [OF h av(3)] and ri = sector_in_region [OF layout_ok]
  obtain r' where r': "flashdrv_regionFind ?c (unat offs) = Inr r'" "flashdrv_regStart ?c r' \<le> unat offs" "unat offs < flashdrv_regStart ?c (Suc r')"
  proof -
    have "unat offs < flash_bytes fi" using assms(7,9) by (cases data) auto
    then show thesis using regionFind_law [OF layout_ok] that by blast
  qed
  have rr: "r' = r" using region_unique [OF r'(2,3)] ri(2,4) [OF hi(3)] assms(5,6) by auto
  have scd: "(unat offs - flashdrv_regStart ?c r) div ?z = sc"
    using assms(5,6) by (intro div_nat_eqI) (auto simp: sector_start_def algebra_simps)
  have same: "of_nat r = regID ?d" "of_nat sc = sectID ?d" using h by (auto simp: holds_sector_def Let_def)
  have l: "unat (of_nat (length data) :: size_t) = length data" using assms(9) flash_end_bytes(2) by (intro unat_of_nat_small) simp
  have "unat (offs + of_nat (length data)) = unat offs + length data"
    using assms(9) flash_end_bytes(2) l by (subst unat_plus_small) simp_all
  then have fits: "\<not> offs + of_nat (length data) > flash_end ?c" using assms(9) flash_end_bytes(1) by (simp add: word_less_nat_alt not_less)
  have n: "\<not> ?z - buffPos ?d > length data - 0 \<Longrightarrow> False" "0 < length data" "length data \<le> ?z - buffPos ?d" using assms(7,8) by auto
  have e: "flashdrv_regionFind (cfi (fl_info ?d)) (unat offs) = Inr r" "?c = cfi (fl_info ?d)" using r'(1) rr av(3) by simp_all
  have "write_loop q data (unat offs) 0 s = write_chunk q data (unat offs) 0 ?z s"
    using write_loop_step [OF n(2) e scd [symmetric], of q] same by simp
  moreover have "prompt (zclock now) (write_chunk q data (unat offs) 0 ?z) s
     (\<lambda>n s'. n = length data \<and> settled s' \<and> image s' = memcpy_to (image s) (?S + buffPos ?d) data)"
  proof -
    have c: "(if ?z - buffPos ?d > length data - 0 then length data - 0 else ?z - buffPos ?d) = length data" using n by auto
    have cp: "memcpy_from data 0 (length data) = take (length data) data" by (simp add: memcpy_from_def)
    have end_: "write_loop q data (unat offs + length data) (0 + length data) = io_return (length data)"
      by (intro ext, subst write_loop.simps) (simp add: io_return_def)
    have img: "image s = memcpy_to (memory s) ?S (take ?z (buff ?d))" using assms(2-4) av(3) by (simp add: flash_image_def Let_def)
    note ch = chunk_law [OF av(1,2) h refl le_refl n(2,3) refl img]
    show ?thesis
      unfolding write_chunk_def prompt_get Let_def c prompt_bind_modify cp end_
      by (rule prompt_bind [OF ch]) simp
  qed
  ultimately have "prompt (zclock now) (write_loop q data (unat offs) 0) s
     (\<lambda>n s'. n = length data \<and> settled s' \<and> image s' = memcpy_to (image s) (?S + buffPos ?d) data)"
    by (simp add: prompt_def)
  then show ?thesis
    using fits assms(7) av(3) by (auto simp: flashdrv_write_def intro!: prompt_bind)
qed

end

end
