(* ===== verification/Flash_Props.thy ===== *)
theory Flash_Props
  imports Flash_Store
begin

text \<open>
  The flash driver on the Quad-SPI controller, called through the device table; the chips it recognises; an emulated chip behind the
  emulated controller, on which all contracts hold.
\<close>

section \<open>The chips the driver knows\<close>

lemmas cmd_table_simps = cmds_ok_def read_dummy_def addr_len_def mk_cmd_def set_dummy_def

lemma region_sum_1: "length (regs c) = 4 \<Longrightarrow> flashdrv_regStart (c\<lparr>regs := (regs c)[0 := r]\<rparr>) 1 = region_bytes r"
  by (cases "regs c") (simp_all add: flashdrv_regStart_def)

definition single_region :: "flash_cfi_t \<Rightarrow> u16 \<Rightarrow> bool" where
  "single_region c cnt \<longleftrightarrow> regsCount c = 1 \<and> length (regs c) = 4 \<and> regs c ! 0 = \<lparr>reg_count = cnt, reg_size = 0x100\<rparr> \<and> pageSize c = 8"

lemma single_region_layout:
  assumes "single_region (cfi fi) cnt" "flash_bytes fi = 0x10000 * (unat cnt + 1)"
  shows "layout_ok fi"
proof -
  obtain r rs where r: "regs (cfi fi) = r # rs" "r = \<lparr>reg_count = cnt, reg_size = 0x100\<rparr>" using assms(1) by (cases "regs (cfi fi)") (auto simp: single_region_def)
  have s: "unat (CFI_SIZE_SECTION 0x100) = 0x10000" by (simp add: CFI_SIZE_SECTION_def)
  have "region_bytes r = flash_bytes fi" using r(2) assms(2) s by (simp add: region_bytes_eq)
  moreover have "page_bytes fi = 256" using assms(1) by (simp add: single_region_def page_bytes_def CFI_SIZE_PAGE_def)
  ultimately show ?thesis
    using assms(1) r s by (auto simp: layout_ok_def Let_def single_region_def flashdrv_regStart_def sect_bytes_def)
qed

lemma single_region_fill: "length (regs c) = 4 \<Longrightarrow> single_region (cfi_fill ty mx csz fdi cnt c) cnt"
  by (simp add: single_region_def cfi_fill_def)

definition vendor_is :: "flash_info_t \<Rightarrow> u8 \<Rightarrow> u8 \<Rightarrow> u8 \<Rightarrow> bool" where
  "vendor_is info a b c \<longleftrightarrow> vendorData (cfi info) ! 0 = a \<and> vendorData (cfi info) ! 1 = b \<and> vendorData (cfi info) ! 2 = c"

lemma resolve_micron128:
  assumes "vendor_is info 0x20 0xbb 0x18" "length (regs (cfi info)) = 4" "flashcfg_infoResolve info = (res, fi)"
  shows "res = Inr () \<and> cmds_ok fi \<and> layout_ok fi \<and> flash_bytes fi = 2 ^ 24"
proof -
  have fi: "res = Inr ()" "fi = (flashcfg_micron128 info)\<lparr>addrMode := flash_3byteAddr\<rparr>"
    using assms(1,3) by (auto simp: vendor_is_def flashcfg_infoResolve_def Let_def flashcfg_micron128_def cfi_fill_def)
  have b: "flash_bytes fi = 2 ^ 24" by (simp add: fi(2) flash_bytes_def flashcfg_micron128_def cfi_fill_def CFI_SIZE_FLASH_def)
  have sr: "single_region (cfi fi) 0xff" using single_region_fill [OF assms(2)] by (simp add: fi(2) flashcfg_micron128_def)
  have "layout_ok fi" by (rule single_region_layout [OF sr]) (simp add: b)
  moreover have "cmds_ok fi" by (simp add: fi(2) flashcfg_micron128_def micron_cmds_def cmd_table_simps)
  ultimately show ?thesis using fi(1) b by simp
qed

lemma resolve_micron512:
  assumes "vendor_is info 0x20 0xbb 0x20" "length (regs (cfi info)) = 4" "flashcfg_infoResolve info = (res, fi)"
  shows "res = Inr () \<and> cmds_ok fi \<and> layout_ok fi \<and> flash_bytes fi = 2 ^ 26"
proof -
  have fi: "res = Inr ()" "fi = (flashcfg_micron512 info)\<lparr>addrMode := flash_4byteAddr\<rparr>"
    using assms(1,3) by (auto simp: vendor_is_def flashcfg_infoResolve_def Let_def flashcfg_micron512_def cfi_fill_def)
  have b: "flash_bytes fi = 2 ^ 26" by (simp add: fi(2) flash_bytes_def flashcfg_micron512_def cfi_fill_def CFI_SIZE_FLASH_def)
  have sr: "single_region (cfi fi) 0x3ff" using single_region_fill [OF assms(2)] by (simp add: fi(2) flashcfg_micron512_def)
  have "layout_ok fi" by (rule single_region_layout [OF sr]) (simp add: b)
  moreover have "cmds_ok fi" by (simp add: fi(2) flashcfg_micron512_def micron_cmds_def cmd_table_simps)
  ultimately show ?thesis using fi(1) b by simp
qed

lemma resolve_micron2G:
  assumes "vendor_is info 0x20 0xbb 0x22" "length (regs (cfi info)) = 4" "flashcfg_infoResolve info = (res, fi)"
  shows "res = Inr () \<and> cmds_ok fi \<and> layout_ok fi \<and> flash_bytes fi = 2 ^ 28"
proof -
  have fi: "res = Inr ()" "fi = (flash_micron2G info)\<lparr>addrMode := flash_4byteAddr\<rparr>"
    using assms(1,3) by (auto simp: vendor_is_def flashcfg_infoResolve_def Let_def flash_micron2G_def cfi_fill_def)
  have b: "flash_bytes fi = 2 ^ 28" by (simp add: fi(2) flash_bytes_def flash_micron2G_def cfi_fill_def CFI_SIZE_FLASH_def)
  have sr: "single_region (cfi fi) 0xfff" using single_region_fill [OF assms(2)] by (simp add: fi(2) flash_micron2G_def)
  have "layout_ok fi" by (rule single_region_layout [OF sr]) (simp add: b)
  moreover have "cmds_ok fi" by (simp add: fi(2) flash_micron2G_def micron_cmds_def cmd_table_simps)
  ultimately show ?thesis using fi(1) b by simp
qed

lemma resolve_winbond:
  assumes "vendor_is info 0xef 0x40 0x18" "length (regs (cfi info)) = 4" "flashcfg_infoResolve info = (res, fi)"
  shows "res = Inr () \<and> cmds_ok fi \<and> layout_ok fi \<and> flash_bytes fi = 2 ^ 24"
proof -
  have fi: "res = Inr ()" "fi = (flashcfg_winbond info)\<lparr>addrMode := flash_3byteAddr\<rparr>"
    using assms(1,3) by (auto simp: vendor_is_def flashcfg_infoResolve_def Let_def flashcfg_winbond_def cfi_fill_def)
  have b: "flash_bytes fi = 2 ^ 24" by (simp add: fi(2) flash_bytes_def flashcfg_winbond_def cfi_fill_def CFI_SIZE_FLASH_def)
  have sr: "single_region (cfi fi) 0xff" using single_region_fill [OF assms(2)] by (simp add: fi(2) flashcfg_winbond_def)
  have "layout_ok fi" by (rule single_region_layout [OF sr]) (simp add: b)
  moreover have "cmds_ok fi" by (simp add: fi(2) flashcfg_winbond_def cmd_table_simps)
  ultimately show ?thesis using fi(1) b by simp
qed

section \<open>An emulated chip\<close>

text \<open>A NOR flash with the commands of \<open>fi\<close>, busy for \<open>lat\<close> status readings after it erased or programmed.\<close>

record nor =
  n_cells :: bytes
  n_wel :: bool
  n_wip :: nat

definition nor_addr :: "bytes \<Rightarrow> nat" where
  "nor_addr bs = foldl (\<lambda>a b. a * 256 + unat b) 0 bs"

definition nor_resp :: "flash_info_t \<Rightarrow> nor \<Rightarrow> bytes \<Rightarrow> u8" where
  "nor_resp fi c sent =
     (case sent of
        [] \<Rightarrow> 0xff
      | opc # rest \<Rightarrow>
          let n = addr_len (addrMode fi) in
          if opc = opCode (cmds fi flash_cmd_rdsr1) then (if 0 < n_wip c then 1 else 0)
          else if opc = opCode (cmds fi (readCmd fi)) \<and> n_wip c = 0 \<and> n + read_dummy fi \<le> length rest
          then n_cells c ! ((nor_addr (take n rest) + (length rest - n - read_dummy fi)) mod length (n_cells c))
          else 0xff)"

definition nor_fin :: "nat \<Rightarrow> flash_info_t \<Rightarrow> nor \<Rightarrow> bytes \<Rightarrow> nor" where
  "nor_fin lat fi c sent =
     (case sent of
        [] \<Rightarrow> c
      | opc # rest \<Rightarrow>
          let n = addr_len (addrMode fi); a = nor_addr (take n rest); data = drop n rest;
              erase = (\<lambda>sz. c\<lparr>n_cells := memcpy_to (n_cells c) (a div sz * sz) (replicate sz 0xff), n_wel := False, n_wip := lat\<rparr>)
          in
          if opc = opCode (cmds fi flash_cmd_rdsr1) then c\<lparr>n_wip := n_wip c - 1\<rparr>
          else if n_wip c \<noteq> 0 \<or> opc = opCode (cmds fi (readCmd fi)) then c
          else if opc = opCode (cmds fi flash_cmd_wren) then c\<lparr>n_wel := True\<rparr>
          else if \<not> n_wel c then c
          else if opc = opCode (cmds fi (ppCmd fi))
          then c\<lparr>n_cells := memcpy_to (n_cells c) a (map2 (AND) (memcpy_from (n_cells c) a (length data)) data), n_wel := False, n_wip := lat\<rparr>
          else if erase_cmd fi 0x1000 \<noteq> None \<and> opc = opCode (the (erase_cmd fi 0x1000)) then erase 0x1000
          else if erase_cmd fi 0x10000 \<noteq> None \<and> opc = opCode (the (erase_cmd fi 0x10000)) then erase 0x10000
          else if opc = opCode (cmds fi flash_cmd_be) then c\<lparr>n_cells := replicate (length (n_cells c)) 0xff, n_wel := False, n_wip := lat\<rparr>
          else c)"

definition cfi_example :: flash_cfi_t where
  "cfi_example = cfi_of ([0x20, 0xbb, 0x18] @ replicate 58 0)"

definition info_example :: flash_info_t where
  "info_example = snd (flashcfg_infoResolve \<lparr>cfi = cfi_example, cmds = flash_defCmds, addrMode = flash_3byteAddr, readCmd = flash_cmd_read,
     ppCmd = flash_cmd_pp, fl_name = [], fl_init = init_none\<rparr>)"

lemma vendor_example: "vendorData cfi_example ! 0 = 0x20" "vendorData cfi_example ! Suc 0 = 0xbb" "vendorData cfi_example ! 2 = 0x18" "length (regs cfi_example) = 4"
  by (simp_all add: cfi_example_def cfi_of_def)

lemma info_example_ok: "cmds_ok info_example \<and> layout_ok info_example \<and> flash_bytes info_example = 2 ^ 24"
  unfolding info_example_def
  by (rule resolve_micron128 [THEN conjunct2, OF _ _ prod.collapse [symmetric]]) (simp_all add: vendor_is_def vendor_example)

lemma info_example_simps:
  "addrMode info_example = flash_3byteAddr" "opCode (cmds info_example flash_cmd_rdsr1) = 0x05" "opCode (cmds info_example flash_cmd_wren) = 0x06"
  "opCode (cmds info_example flash_cmd_be) = 0x60" "opCode (cmds info_example (readCmd info_example)) = 0xeb"
  "opCode (cmds info_example (ppCmd info_example)) = 0x32" "opCode (cmds info_example flash_cmd_p4e) = 0x20"
  "opCode (cmds info_example flash_cmd_p64e) = 0xd8" "page_bytes info_example = 256" "read_dummy info_example = 5"
proof -
  have e: "info_example = (flashcfg_micron128 \<lparr>cfi = cfi_example, cmds = flash_defCmds, addrMode = flash_3byteAddr, readCmd = flash_cmd_read,
     ppCmd = flash_cmd_pp, fl_name = [], fl_init = init_none\<rparr>)\<lparr>addrMode := flash_3byteAddr\<rparr>"
    by (simp add: info_example_def flashcfg_infoResolve_def Let_def vendor_example flashcfg_micron128_def cfi_fill_def)
  show "addrMode info_example = flash_3byteAddr" "opCode (cmds info_example flash_cmd_rdsr1) = 0x05" "opCode (cmds info_example flash_cmd_wren) = 0x06"
    "opCode (cmds info_example flash_cmd_be) = 0x60" "opCode (cmds info_example (readCmd info_example)) = 0xeb"
    "opCode (cmds info_example (ppCmd info_example)) = 0x32" "opCode (cmds info_example flash_cmd_p4e) = 0x20"
    "opCode (cmds info_example flash_cmd_p64e) = 0xd8" "page_bytes info_example = 256" "read_dummy info_example = 5"
    unfolding e
    by (simp_all add: flashcfg_micron128_def micron_cmds_def set_dummy_def mk_cmd_def read_dummy_def page_bytes_def cfi_fill_def CFI_SIZE_PAGE_def)
qed

lemma erase_cmd_example:
  "erase_cmd info_example sz = (if sz = 0x1000 then Some (cmds info_example flash_cmd_p4e) else if sz = 0x10000 then Some (cmds info_example flash_cmd_p64e) else None)"
  by (simp add: erase_cmd_def info_example_simps)

lemma nor_addr_bytes: "a < 2 ^ 24 \<Longrightarrow> nor_addr (addr_bytes flash_3byteAddr a) = a"
proof -
  assume a: "a < 2 ^ 24"
  have "unat (byte_of k a) = a div 2 ^ k mod 256" for k
    by (simp add: byte_of_def unat_of_nat take_bit_eq_mod drop_bit_eq_div)
  then have "nor_addr (addr_bytes flash_3byteAddr a) = (a div 65536 mod 256 * 256 + a div 256 mod 256) * 256 + a mod 256"
    by (simp add: nor_addr_def addr_bytes_def)
  moreover have "a div 65536 < 256" using a by (simp add: less_mult_imp_div_less)
  moreover have "a div 256 = a div 65536 * 256 + a div 256 mod 256"
    using div_mult_mod_eq [of "a div 256" 256] by (simp add: div_mult2_eq [symmetric])
  moreover have "a = a div 256 * 256 + a mod 256" by simp
  ultimately show ?thesis by simp
qed

definition nor_ok :: "nor \<Rightarrow> bool" where
  "nor_ok c \<longleftrightarrow> length (n_cells c) = 2 ^ 24"

interpretation chip: nor_chip info_example "nor_resp info_example" "nor_fin lat info_example" nor_ok n_cells n_wel n_wip
proof unfold_locales
  fix sz cmd a c c'
  assume a: "nor_ok c" "n_wip c = 0" "n_wel c" "erase_cmd info_example sz = Some cmd" "sz dvd a" "a + sz \<le> flash_bytes info_example"
    "c' = nor_fin lat info_example c (opCode cmd # addr_bytes (addrMode info_example) a)"
  have "0 < sz" using a(4) by (auto simp: erase_cmd_example split: if_splits)
  then have "nor_addr (addr_bytes flash_3byteAddr a) = a" using a(6) info_example_ok by (intro nor_addr_bytes) simp
  then show "nor_ok c' \<and> n_cells c' = memcpy_to (n_cells c) a (replicate sz 0xff)"
    using a info_example_ok by (auto simp: nor_ok_def nor_fin_def erase_cmd_example info_example_simps Let_def addr_len_def addr_bytes_def split: if_splits)
next
  fix data a c c'
  assume a: "nor_ok c" "n_wip c = 0" "n_wel c" "length data = page_bytes info_example" "page_bytes info_example dvd a"
    "a + length data \<le> flash_bytes info_example"
    "c' = nor_fin lat info_example c (opCode (cmds info_example (ppCmd info_example)) # addr_bytes (addrMode info_example) a @ data)"
  have "nor_addr (addr_bytes flash_3byteAddr a) = a" using a(4,6) info_example_ok by (intro nor_addr_bytes) (simp add: info_example_simps)
  then show "nor_ok c' \<and> n_cells c' = memcpy_to (n_cells c) a (map2 (AND) (memcpy_from (n_cells c) a (length data)) data)"
    using a info_example_ok by (auto simp: nor_ok_def nor_fin_def info_example_simps Let_def addr_len_def addr_bytes_def)
next
  fix c and dummy rest :: bytes and a
  assume a: "nor_ok c" "n_wip c = 0" "length dummy = read_dummy info_example" "a + length rest < flash_bytes info_example"
  have "nor_addr (addr_bytes flash_3byteAddr a) = a" using a(4) info_example_ok by (intro nor_addr_bytes) simp
  then show "nor_resp info_example c (opCode (cmds info_example (readCmd info_example)) # addr_bytes (addrMode info_example) a @ dummy @ rest) =
      n_cells c ! (a + length rest)"
    using a info_example_ok by (auto simp: nor_ok_def nor_resp_def info_example_simps Let_def addr_len_def addr_bytes_def)
qed (auto simp: nor_ok_def nor_resp_def nor_fin_def info_example_simps erase_cmd_example Let_def info_example_ok)

interpretation emu: flash_dev "qspi_ops (sim_hw lat (nor_resp info_example) (nor_fin wlat info_example))" "\<lambda>w. v_idle (s_view w)" "\<lambda>_. True"
  "\<lambda>w. v_sel (s_view w)" "\<lambda>w. v_chip (s_view w)" s_now "nor_resp info_example" "nor_fin wlat info_example" info_example nor_ok n_cells n_wel n_wip
  by unfold_locales (simp_all add: info_example_ok)

context flash_dev
begin

lemma image_length:
  assumes "settled s"
  shows "length (image s) = flash_bytes fi"
proof (cases "buffPos (zf_drv s) = 0")
  case True
  then show ?thesis using assms avail_facts(6) by (simp add: flash_image_def Let_def)
next
  case False
  have av: "avail s" using assms by simp
  have h: "holds_sector (zf_drv s) (memory s) (unat (regID (zf_drv s))) (unat (sectID (zf_drv s)))" using assms False by (simp add: buffer_ok_def)
  note hi = holds_ids [OF h avail_facts(2) [OF av]] and a = avail_facts [OF av]
  note sf = sector_facts [OF layout_ok hi(3)]
  have "sect_bytes (cfi fi) (unat (regID (zf_drv s))) \<le> 65536" using sf(3) by auto
  then show ?thesis using False a(2,5,6) sf(2) by (simp add: flash_image_def Let_def)
qed

end

section \<open>The driver on the controller, through the device table\<close>

lemma stack_flash_dev:
  assumes "qspi_ctrl hw depth view now resp fin" "nor_chip fi resp fin cok cells wel wip" "cmds_ok fi" "layout_ok fi"
  shows "flash_dev (qspi_ops hw) (\<lambda>w. v_idle (view w)) (\<lambda>_. True) (\<lambda>w. v_sel (view w)) (\<lambda>w. v_chip (view w)) now resp fin fi cok cells wel wip"
  using qspi_ctrl.bus_contract [OF assms(1)] assms(2-4) by (simp add: flash_dev_def flash_dev_axioms_def)

definition flash_content :: "('w \<Rightarrow> 'c qview) \<Rightarrow> ('c \<Rightarrow> bytes) \<Rightarrow> 'w zflash \<Rightarrow> bytes" where
  "flash_content view cells s = cells (v_chip (view (zf_w s)))"

text \<open>The controller is idle, the chip ready, the driver's state in order.\<close>

definition flash_ready :: "flash_info_t \<Rightarrow> ('w \<Rightarrow> 'c qview) \<Rightarrow> ('c \<Rightarrow> bool) \<Rightarrow> ('c \<Rightarrow> bytes) \<Rightarrow> ('c \<Rightarrow> nat) \<Rightarrow> 'w zflash \<Rightarrow> bool" where
  "flash_ready fi view cok cells wip s \<longleftrightarrow> v_idle (view (zf_w s)) \<and> v_sel (view (zf_w s)) = None \<and> cok (v_chip (view (zf_w s))) \<and>
     wip (v_chip (view (zf_w s))) = 0 \<and> drv_ok fi (zf_drv s) \<and> buffer_ok (zf_drv s) (flash_content view cells s)"

lemma flash_ready_settled:
  "flash_ready fi view cok cells wip s \<longleftrightarrow>
     flash_avail fi (\<lambda>w. v_idle (view w)) (\<lambda>w. v_sel (view w)) (\<lambda>w. v_chip (view w)) cok s \<and> wip (v_chip (view (zf_w s))) = 0 \<and>
     buffer_ok (zf_drv s) (cells (v_chip (view (zf_w s))))"
  by (auto simp: flash_ready_def flash_avail_def flash_content_def)

definition flash_devs :: "'w zboard \<Rightarrow> 'w zflash devs" where
  "flash_devs b = flashdrv_reg b (\<lambda>_ _. None)"

lemma flash_devs_ops: "devs_ops (flash_devs b) DEV_STORAGE 0 = Some (opsFlashZYNQ b)"
proof -
  have "devs_get (flash_devs b) DEV_STORAGE 0 = Some \<lparr>dev_name = Some ''flash-zynq'', dev_init = Some (flashdrv_init b),
      dev_done = Some (flashdrv_done b), dev_ops = Some (opsFlashZYNQ b)\<rparr>"
    unfolding flash_devs_def flashdrv_reg_def devs_get_def devs_register_def
    by (simp add: register_loop_free DEV_STORAGE_def SIZE_MAJOR_def SIZE_MINOR_def)
  then show ?thesis by (simp add: devs_ops_def)
qed

lemma flash_devs_calls:
  "devs_write (flash_devs b) DEV_STORAGE 0 offs data = flashdrv_write (qspi_ops (zb_hw b)) 0 offs data"
  "devs_sync (flash_devs b) DEV_STORAGE 0 = flashdrv_sync (qspi_ops (zb_hw b))"
  "devs_read (flash_devs b) DEV_STORAGE 0 offs len t = flashdrv_read (qspi_ops (zb_hw b)) (unat offs) (unat len) t"
  "devs_erase (flash_devs b) DEV_STORAGE 0 offs len flags = flashdrv_erase (qspi_ops (zb_hw b)) 0 offs len flags"
  by (simp_all add: fun_eq_iff devs_write_def devs_sync_def devs_read_def devs_erase_def devs_call_def flash_devs_ops opsFlashZYNQ_def Let_def)

lemma buffer_ok_reset: "core d = (b, 0, -1, -1) \<Longrightarrow> buffer_ok d mem"
  by (simp add: core_def buffer_ok_def)

section \<open>Properties\<close>

text \<open>
  C5: Data written through the device table to a flash, at the end of the buffered data or outside the buffered sector, is on the chip after a sync and read back
  unchanged, and every other byte is as it was, with the buffered data written back: for every controller and chip that keep
  their contracts, every layout of one or two regions of aligned 4 KiB or 64 KiB sectors with pages that divide 4 KiB, every range inside the flash, across sectors and pages, and a time-out for the read of at least 5 ms.
  The only other outcome is ETIME, and then at least 5 ms, the shortest timeout of the driver, have passed; nothing is said of the contents in that case.
\<close>

theorem flash_write_sync_read:
  assumes "qspi_ctrl (zb_hw b) depth view now resp fin" "nor_chip fi resp fin cok cells wel wip" "cmds_ok fi" "layout_ok fi"
    and "flash_ready fi view cok cells wip s" "continues (zf_drv s) (unat offs)" "unat offs + length data \<le> flash_bytes fi" "5 \<le> t"
  shows "prompt (zclock now)
    (io_bind (devs_write (flash_devs b) DEV_STORAGE 0 offs data) (\<lambda>n.
     io_bind (devs_sync (flash_devs b) DEV_STORAGE 0) (\<lambda>_.
     io_bind (devs_read (flash_devs b) DEV_STORAGE 0 offs n t) (\<lambda>bs. io_return (n, bs))))) s
    (\<lambda>(n, bs) s'. unat n = length data \<and> bs = data \<and> flash_ready fi view cok cells wip s' \<and>
       flash_content view cells s' = memcpy_to (flash_image (zf_drv s) (flash_content view cells s)) (unat offs) data)"
proof -
  note F = stack_flash_dev [OF assms(1-4)]
  note set = flash_ready_settled [THEN iffD1, OF assms(5)]
  let ?q = "qspi_ops (zb_hw b)" and ?I = "flash_image (zf_drv s) (flash_content view cells s)"
  have len: "unat (of_nat (length data) :: size_t) = length data"
    using assms(7) flash_dev.flash_end_bytes(2) [OF F] by (intro unat_of_nat_small) simp
  show ?thesis
    unfolding flash_devs_calls
  proof (rule prompt_bind [OF flash_dev.write_law [OF F set assms(6,7)]], elim conjE)
    fix n :: size_t and s1 :: "'a zflash"
    assume n: "n = of_nat (length data)"
      and s1: "flash_avail fi (\<lambda>w. v_idle (view w)) (\<lambda>w. v_sel (view w)) (\<lambda>w. v_chip (view w)) cok s1" "wip (v_chip (view (zf_w s1))) = 0"
        "buffer_ok (zf_drv s1) (cells (v_chip (view (zf_w s1))))"
      and i1: "flash_image (zf_drv s1) (cells (v_chip (view (zf_w s1)))) =
        memcpy_to (flash_image (zf_drv s) (cells (v_chip (view (zf_w s))))) (unat offs) data"
    show "prompt (zclock now) (io_bind (flashdrv_sync ?q) (\<lambda>_. io_bind (flashdrv_read ?q (unat offs) (unat n) t) (\<lambda>bs. io_return (n, bs)))) s1
      (\<lambda>(n, bs) s'. unat n = length data \<and> bs = data \<and> flash_ready fi view cok cells wip s' \<and>
         flash_content view cells s' = memcpy_to ?I (unat offs) data)"
    proof (rule prompt_bind [OF flash_dev.sync_image [OF F conjI [OF s1(1) conjI [OF s1(2,3)]]]], elim conjE)
      fix u and s2 :: "'a zflash"
      assume s2: "flash_avail fi (\<lambda>w. v_idle (view w)) (\<lambda>w. v_sel (view w)) (\<lambda>w. v_chip (view w)) cok s2" "wip (v_chip (view (zf_w s2))) = 0"
        and c2: "core (zf_drv s2) = (buff (zf_drv s1), 0, - 1, - 1)"
        and m2: "cells (v_chip (view (zf_w s2))) = flash_image (zf_drv s1) (cells (v_chip (view (zf_w s1))))"
      have l: "unat offs + unat n \<le> flash_bytes fi" using n len assms(7) by simp
      have "length ?I = flash_bytes fi" using flash_dev.image_length [OF F set] by (simp add: flash_content_def)
      then have bk: "memcpy_from (memcpy_to ?I (unat offs) data) (unat offs) (length data) = data" using assms(7) by simp
      show "prompt (zclock now) (io_bind (flashdrv_read ?q (unat offs) (unat n) t) (\<lambda>bs. io_return (n, bs))) s2
        (\<lambda>(n, bs) s'. unat n = length data \<and> bs = data \<and> flash_ready fi view cok cells wip s' \<and>
           flash_content view cells s' = memcpy_to ?I (unat offs) data)"
        using n len m2 i1 bk c2
        by (intro prompt_bind [OF flash_dev.read_law [OF F s2 l assms(8)]])
          (auto simp: flash_ready_settled flash_content_def intro!: buffer_ok_reset)
    qed
  qed
qed

text \<open>
  A write through the device table changes the contents of the flash, seen through the write buffer, in exactly the range written, and leaves the driver
  where the next write may go on: the buffered device refines an array of bytes. The only other outcome is ETIME.
\<close>

theorem flash_write_image:
  assumes "qspi_ctrl (zb_hw b) depth view now resp fin" "nor_chip fi resp fin cok cells wel wip" "cmds_ok fi" "layout_ok fi"
    and "flash_ready fi view cok cells wip s" "continues (zf_drv s) (unat offs)" "unat offs + length data \<le> flash_bytes fi"
  shows "prompt (zclock now) (devs_write (flash_devs b) DEV_STORAGE 0 offs data) s
    (\<lambda>n s'. n = of_nat (length data) \<and> flash_ready fi view cok cells wip s' \<and> continues (zf_drv s') (unat offs + length data) \<and>
       flash_image (zf_drv s') (flash_content view cells s') = memcpy_to (flash_image (zf_drv s) (flash_content view cells s)) (unat offs) data)"
  unfolding flash_devs_calls
  by (rule prompt_weaken [OF flash_dev.write_law [OF stack_flash_dev [OF assms(1-4)] flash_ready_settled [THEN iffD1, OF assms(5)] assms(6,7)]])
    (simp add: flash_ready_settled flash_content_def)

text \<open>
  C6: Erasing a non-empty range inside the flash either succeeds or reports ETIME. If it succeeds, exactly the sectors from the one the first byte of the range is in to the
  one its last byte is in are erased, every byte outside them is as it was, the result is the number of bytes erased, and data buffered and not written back is
  dropped. If it reports ETIME, at least 5 ms have passed, and nothing is said of the contents. This holds for every controller and chip that keep their contracts and for every layout of
  one or two regions of aligned 4 KiB or 64 KiB sectors with pages that divide 4 KiB; the length -1, which erases the whole chip, is not covered.
\<close>

theorem flash_erase_range:
  assumes "qspi_ctrl (zb_hw b) depth view now resp fin" "nor_chip fi resp fin cok cells wel wip" "cmds_ok fi" "layout_ok fi"
    and "flash_ready fi view cok cells wip s" "len \<noteq> 0" "len \<noteq> -1" "unat addr + unat len \<le> flash_bytes fi"
  shows "prompt (zclock now) (devs_erase (flash_devs b) DEV_STORAGE 0 addr len flags) s
    (\<lambda>n s'. \<exists>a a' e' e. sector_of fi (unat addr) a a' \<and> sector_of fi (unat addr + unat len - 1) e' e \<and> n = of_nat (e - a) \<and> flash_ready fi view cok cells wip s' \<and> buffPos (zf_drv s') = 0 \<and>
       flash_content view cells s' = memcpy_to (flash_content view cells s) a (replicate (e - a) 0xff))"
proof -
  note set = flash_ready_settled [THEN iffD1, OF assms(5)]
  have "prompt (zclock now) (flashdrv_erase (qspi_ops (zb_hw b)) 0 addr len flags) s
    (\<lambda>n s'. \<exists>a a' e' e. sector_of fi (unat addr) a a' \<and> sector_of fi (unat addr + unat len - 1) e' e \<and> n = of_nat (e - a) \<and>
       flash_avail fi (\<lambda>w. v_idle (view w)) (\<lambda>w. v_sel (view w)) (\<lambda>w. v_chip (view w)) cok s' \<and> wip (v_chip (view (zf_w s'))) = 0 \<and>
       core (zf_drv s') = (buff (zf_drv s), 0, -1, -1) \<and> cells (v_chip (view (zf_w s'))) = memcpy_to (cells (v_chip (view (zf_w s)))) a (replicate (e - a) 0xff))"
    using flash_dev.erase_range_law [OF stack_flash_dev [OF assms(1-4)] _ _ assms(6-8)] set by blast
  then show ?thesis
    unfolding flash_devs_calls
    by (rule prompt_weaken) (fastforce simp: flash_ready_settled flash_content_def dest: core_eqD intro: buffer_ok_reset)
qed

text \<open>
  A write into the buffered sector ignores its offset: the data goes behind the data buffered before, wherever in the sector it was meant to go.
\<close>

theorem flash_gap_write_misplaced:
  assumes "qspi_ctrl (zb_hw b) depth view now resp fin" "nor_chip fi resp fin cok cells wel wip" "cmds_ok fi" "layout_ok fi"
    and "flash_ready fi view cok cells wip s" "0 < buffPos (zf_drv s)" "start = sector_start (cfi fi) (unat (regID (zf_drv s))) (unat (sectID (zf_drv s)))"
    and "sz = sect_bytes (cfi fi) (unat (regID (zf_drv s)))" "start \<le> unat offs" "unat offs < start + sz" "data \<noteq> []"
    and "buffPos (zf_drv s) + length data < sz" "unat offs + length data \<le> flash_bytes fi"
  shows "prompt (zclock now) (devs_write (flash_devs b) DEV_STORAGE 0 offs data) s
    (\<lambda>n s'. n = of_nat (length data) \<and> flash_ready fi view cok cells wip s' \<and>
       flash_image (zf_drv s') (flash_content view cells s') =
         memcpy_to (flash_image (zf_drv s) (flash_content view cells s)) (start + buffPos (zf_drv s)) data)"
  unfolding flash_devs_calls
  using assms(6-13)
  by (intro prompt_weaken [OF flash_dev.write_ignores_offset [OF stack_flash_dev [OF assms(1-4)] flash_ready_settled [THEN iffD1, OF assms(5)] assms(6) refl refl]])
    (simp_all add: flash_ready_settled flash_content_def)


text \<open>The identifications of the chips with a fixed layout, and their sizes.\<close>

definition known_ids :: "((u8 \<times> u8 \<times> u8) \<times> nat) list" where
  "known_ids = [((0x20, 0xbb, 0x18), 2 ^ 24), ((0x20, 0xbb, 0x20), 2 ^ 26), ((0x20, 0xbb, 0x22), 2 ^ 28), ((0xef, 0x40, 0x18), 2 ^ 24)]"

text \<open>
  C35: For each of the chips with one region of sectors that the driver recognises by its identification (Micron 128 Mb, 512 Mb and 2 Gb, Winbond 128 Mb), the data filled in is
  complete: commands with the right number of address bytes and dummy bytes that fit the command buffer, a sector layout that covers the chip, and the chip's size.
\<close>

theorem known_chips_ok:
  assumes "((i0, i1, i2), bytes) \<in> set known_ids" "vendor_is info i0 i1 i2" "length (regs (cfi info)) = 4" "flashcfg_infoResolve info = (res, fi)"
  shows "res = Inr () \<and> cmds_ok fi \<and> layout_ok fi \<and> flash_bytes fi = bytes"
  using assms resolve_micron128 [OF _ assms(3,4)] resolve_micron512 [OF _ assms(3,4)] resolve_micron2G [OF _ assms(3,4)] resolve_winbond [OF _ assms(3,4)]
  by (auto simp: known_ids_def)

section \<open>The properties on the emulated flash\<close>

definition emu_board :: "nor qsim zboard" where
  "emu_board = \<lparr>zb_zynqmp = \<lparr>zy_qspiReset = (\<lambda>_. io_return ()), zy_setQspiClock = (\<lambda>_. io_return ()), zy_setMIO = (\<lambda>_. io_return ())\<rparr>,
     zb_hw = sim_hw 2 (nor_resp info_example) (nor_fin 3 info_example),
     zb_pins = \<lparr>QSPI_CS = 5, QSPI_IO = [4, 1, 2, 3], QSPI_CLK = 0, QSPI_FCLK = 0, QSPI_SCLK_DIV = None\<rparr>, zb_junk = 0\<rparr>"

text \<open>An erased flash, and \<open>pos\<close> bytes buffered of its first sector.\<close>

definition emu_state :: "nat \<Rightarrow> nor qsim zflash" where
  "emu_state pos = \<lparr>zf_drv = \<lparr>cmdRx = replicate 32 0, cmdTx = replicate 32 0, buff = replicate 65536 0, buffPos = pos,
       regID = (if pos = 0 then -1 else 0), sectID = (if pos = 0 then -1 else 0), fl_info = info_example\<rparr>,
     zf_w = sim_idle \<lparr>n_cells = replicate (2 ^ 24) 0xff, n_wel = False, n_wip = 0\<rparr> None\<rparr>"

lemma sect_example: "sect_bytes (cfi info_example) 0 = 65536" "is_sector (cfi info_example) 0 0" "sector_start (cfi info_example) 0 0 = 0"
proof -
  have e: "cfi info_example = cfi (flashcfg_micron128 \<lparr>cfi = cfi_example, cmds = flash_defCmds, addrMode = flash_3byteAddr, readCmd = flash_cmd_read,
     ppCmd = flash_cmd_pp, fl_name = [], fl_init = init_none\<rparr>)"
    by (simp add: info_example_def flashcfg_infoResolve_def Let_def vendor_example flashcfg_micron128_def cfi_fill_def)
  have "single_region (cfi info_example) 0xff"
    unfolding e using single_region_fill [of cfi_example] vendor_example(4) by (simp add: flashcfg_micron128_def)
  then show *: "sect_bytes (cfi info_example) 0 = 65536" by (simp add: single_region_def sect_bytes_def CFI_SIZE_SECTION_def)
  show z: "sector_start (cfi info_example) 0 0 = 0" by (simp add: sector_start_def flashdrv_regStart_def)
  show "is_sector (cfi info_example) 0 0"
    using info_example_ok layout_facts(3) [of info_example 0] * z
    by (simp add: is_sector_def layout_ok_def Let_def flashdrv_regStart_def)
qed

lemma emu_ready:
  assumes "pos < 65536"
  shows "flash_ready info_example s_view nor_ok n_cells n_wip (emu_state pos)"
proof -
  have "memcpy_from (replicate (2 ^ 24) (0xff::u8)) 0 65536 = replicate 65536 0xff" by (simp add: memcpy_from_def min_def)
  then have "buffer_ok (zf_drv (emu_state pos)) (flash_content s_view n_cells (emu_state pos))"
    using assms sect_example by (simp add: buffer_ok_def emu_state_def holds_sector_def Let_def flash_content_def sim_idle_def)
  then show ?thesis
    by (simp add: flash_ready_def emu_state_def sim_idle_def v_idle_def nor_ok_def drv_ok_def MAX_SIZE_CMD_def)
qed

lemma emu_continues: "continues (zf_drv (emu_state 0)) offs"
  by (simp add: continues_def emu_state_def Let_def)

lemma emu_image: "flash_image (zf_drv (emu_state 0)) (flash_content s_view n_cells (emu_state 0)) = replicate (2 ^ 24) 0xff"
  by (simp add: flash_image_def emu_state_def Let_def flash_content_def sim_idle_def)

lemma emu_ctrl: "qspi_ctrl (zb_hw emu_board) 63 s_view s_now (nor_resp info_example) (nor_fin 3 info_example)"
  using sim.qspi_ctrl_axioms by (simp add: emu_board_def)

lemmas emu_stack = emu_ctrl chip.nor_chip_axioms [of 3] info_example_ok [THEN conjunct1] info_example_ok [THEN conjunct2, THEN conjunct1]

text \<open>The properties at work on the emulated flash.\<close>

theorem flash_write_sync_read_witness:
  "prompt (zclock s_now)
    (io_bind (devs_write (flash_devs emu_board) DEV_STORAGE 0 0xfffe [1, 2, 3, 4]) (\<lambda>n.
     io_bind (devs_sync (flash_devs emu_board) DEV_STORAGE 0) (\<lambda>_.
     io_bind (devs_read (flash_devs emu_board) DEV_STORAGE 0 0xfffe n 100) (\<lambda>bs. io_return (n, bs))))) (emu_state 0)
    (\<lambda>(n, bs) s'. bs = [1, 2, 3, 4] \<and> flash_content s_view n_cells s' = memcpy_to (replicate (2 ^ 24) 0xff) 0xfffe [1, 2, 3, 4])"
  by (rule prompt_weaken [OF flash_write_sync_read [OF emu_stack emu_ready emu_continues]]) (auto simp: info_example_ok emu_image)

theorem flash_write_image_witness:
  "prompt (zclock s_now) (devs_write (flash_devs emu_board) DEV_STORAGE 0 0xfffe [1, 2, 3, 4]) (emu_state 0)
    (\<lambda>n s'. n = 4 \<and> flash_image (zf_drv s') (flash_content s_view n_cells s') = memcpy_to (replicate (2 ^ 24) 0xff) 0xfffe [1, 2, 3, 4])"
  by (rule prompt_weaken [OF flash_write_image [OF emu_stack emu_ready emu_continues]]) (auto simp: info_example_ok emu_image)

theorem flash_erase_range_witness:
  "prompt (zclock s_now) (devs_erase (flash_devs emu_board) DEV_STORAGE 0 10 20 0) (emu_state 0)
    (\<lambda>n s'. \<exists>a a' e' e. sector_of info_example 10 a a' \<and> sector_of info_example 29 e' e \<and> n = of_nat (e - a) \<and>
       flash_content s_view n_cells s' = memcpy_to (flash_content s_view n_cells (emu_state 0)) a (replicate (e - a) 0xff))"
  by (rule prompt_weaken [OF flash_erase_range [OF emu_stack emu_ready]]) (simp_all add: info_example_ok, blast)

theorem flash_gap_write_misplaced_witness:
  "prompt (zclock s_now) (devs_write (flash_devs emu_board) DEV_STORAGE 0 0x800 [1, 2, 3]) (emu_state 16)
    (\<lambda>n s'. n = 3 \<and> flash_image (zf_drv s') (flash_content s_view n_cells s') =
       memcpy_to (flash_image (zf_drv (emu_state 16)) (flash_content s_view n_cells (emu_state 16))) 16 [1, 2, 3])"
proof -
  have f: "buffPos (zf_drv (emu_state 16)) = 16" "regID (zf_drv (emu_state 16)) = 0" "sectID (zf_drv (emu_state 16)) = 0" by (simp_all add: emu_state_def)
  show ?thesis
    by (rule prompt_weaken [OF flash_gap_write_misplaced [OF emu_stack emu_ready _ refl refl]]) (simp_all add: f sect_example info_example_ok)
qed


theorem known_chips_ok_witness: "flash_bytes info_example = 2 ^ 24"
proof -
  let ?i = "\<lparr>cfi = cfi_example, cmds = flash_defCmds, addrMode = flash_3byteAddr, readCmd = flash_cmd_read, ppCmd = flash_cmd_pp, fl_name = [],
    fl_init = init_none\<rparr>"
  have "((0x20, 0xbb, 0x18), 2 ^ 24) \<in> set known_ids" "vendor_is ?i 0x20 0xbb 0x18" "length (regs (cfi ?i)) = 4"
    by (simp_all add: known_ids_def vendor_is_def vendor_example)
  from known_chips_ok [OF this prod.collapse [symmetric]] show ?thesis by (simp add: info_example_def)
qed

end
