(* ===== verification/Mpu.thy ===== *)
theory Mpu
  imports Syspage
begin

text \<open>
  \<open>hal/armv7m/mpu.c\<close> (the same code is in \<open>hal/armv7r/mpu.c\<close>): the regions of the memory protection unit for the maps of the system page. Addresses are 32-bit words. A region is a
  naturally aligned block of \<open>2^k\<close> bytes in eight subregions, each of which can be switched off; a map becomes one or two regions, the second of which may be a hole, a region
  without access rights that covers a part of the first.
  A shift by 32 places or more, which C leaves open, gives 0 as on the processor. Indices and counts are natural numbers; they are bounded by \<open>regMax\<close>, which the hardware reports.
\<close>

section \<open>State\<close>

record mpu_region_t =
  rbar :: u32
  rasr :: u32

record mpu_common_t =
  mc_type :: u32
  mc_regCnt :: nat
  mc_regMax :: nat
  mc_mapCnt :: u32
  mc_region :: "mpu_region_t list"
  mc_mapId :: "u32 list"

definition HOLE_ATTR :: "u32 \<Rightarrow> u32" where
  "HOLE_ATTR rasrAttr = 0 OR (rasrAttr AND 1)"

section \<open>Operations\<close>

definition mk_region :: "nat \<Rightarrow> u32 \<Rightarrow> u8 \<Rightarrow> nat \<Rightarrow> u32 \<Rightarrow> mpu_region_t" where
  "mk_region idx baseAddr srdMask sizeBit rasrAttr =
     \<lparr>rbar = baseAddr OR push_bit 4 1 OR (of_nat idx AND 0xf),
      rasr = rasrAttr OR push_bit 8 (ucast srdMask) OR push_bit 1 ((of_nat sizeBit - 1) AND 0x1f)\<rparr>"

definition mpu_regionSet :: "nat \<Rightarrow> u32 \<Rightarrow> u8 \<Rightarrow> nat \<Rightarrow> u32 \<Rightarrow> mpu_common_t \<Rightarrow> (errno + unit) \<times> nat \<times> mpu_common_t" where
  "mpu_regionSet idx baseAddr srdMask sizeBit rasrAttr s =
     (if sizeBit < 5 \<or> idx \<ge> mc_regMax s then (Inl EPERM, idx, s)
      else (Inr (), idx + 1, s\<lparr>mc_region := (mc_region s)[idx := mk_region idx baseAddr srdMask sizeBit rasrAttr]\<rparr>))"

definition mpu_regionAttrs :: "attr_bits \<Rightarrow> u32 \<Rightarrow> bool \<Rightarrow> u32" where
  "mpu_regionAttrs ab attr enable =
     (let tex = 0;
          ap = (if attr AND mAttrWrite ab \<noteq> 0 then 3 else if attr AND mAttrRead ab \<noteq> 0 then 2 else 1);
          flag = (\<lambda>b. if b then 1 else 0)
      in push_bit 28 (flag (attr AND mAttrExec ab = 0) AND 1) OR push_bit 24 (ap AND 7) OR push_bit 19 (tex AND 7) OR
         push_bit 18 (flag (attr AND mAttrShareable ab \<noteq> 0) AND 1) OR push_bit 17 (flag (attr AND mAttrCacheable ab \<noteq> 0) AND 1) OR
         push_bit 16 (flag (attr AND mAttrBufferable ab \<noteq> 0) AND 1) OR flag enable)"

text \<open>The loop over the subregions of one region; \<open>ende\<close> is the last byte.\<close>

fun overlap_subs :: "nat \<Rightarrow> u32 \<Rightarrow> nat \<Rightarrow> u8 \<Rightarrow> u32 \<Rightarrow> u32 \<Rightarrow> bool" where
  "overlap_subs 0 srStart sizeBit subregions start ende = False"
| "overlap_subs (Suc n) srStart sizeBit subregions start ende =
     (let srEnd = srStart + push_bit (sizeBit - 3) 1 - 1 in
      if subregions AND 1 = 0 \<and> start \<le> srEnd \<and> srStart \<le> ende then True
      else overlap_subs n (srEnd + 1) sizeBit (drop_bit 1 subregions) start ende)"

definition overlap_region :: "mpu_region_t \<Rightarrow> u32 \<Rightarrow> u32 \<Rightarrow> bool" where
  "overlap_region r start ende =
     (if rbar r AND 0x10 = 0 \<or> rasr r AND 1 = 0 then False
      else let sizeBit = unat (drop_bit 1 (rasr r) AND 0x1f) + 1 in
        overlap_subs 8 (rbar r AND NOT (push_bit sizeBit 1 - 1)) sizeBit (ucast (drop_bit 8 (rasr r) AND 0xff)) start ende)"

definition mpu_checkOverlap :: "nat \<Rightarrow> u32 \<Rightarrow> u32 \<Rightarrow> mpu_common_t \<Rightarrow> bool" where
  "mpu_checkOverlap idx start ende s = list_ex (\<lambda>r. overlap_region r start (ende - 1)) (take idx (mc_region s))"

definition srd_mask :: "u32 \<Rightarrow> u32 \<Rightarrow> nat \<Rightarrow> u8" where
  "srd_mask start ende sizeBit =
     (let srStart = unat (drop_bit (sizeBit - 3) start AND 7);
          srEnd0 = unat (drop_bit (sizeBit - 3) ende AND 7);
          srEnd = (if srEnd0 = 0 then 8 else srEnd0)
      in ucast (NOT ((push_bit srEnd 1 - 1) AND push_bit srStart 0xff) :: u32))"

definition mpu_regionCalculateAndSet :: "nat \<Rightarrow> u32 \<Rightarrow> u32 \<Rightarrow> nat \<Rightarrow> u32 \<Rightarrow> mpu_common_t \<Rightarrow> (errno + unit) \<times> nat \<times> mpu_common_t" where
  "mpu_regionCalculateAndSet idx start ende sizeBit rasrAttr s =
     mpu_regionSet idx (start AND NOT (push_bit sizeBit 1 - 1)) (srd_mask start ende sizeBit) sizeBit rasrAttr s"

text \<open>The compiler's bit counting functions, for words other than 0.\<close>

definition builtin_ctz :: "u32 \<Rightarrow> nat" where
  "builtin_ctz w = length (takeWhile (\<lambda>i. \<not> bit w i) [0..<32])"

definition builtin_clz :: "u32 \<Rightarrow> nat" where
  "builtin_clz w = length (takeWhile (\<lambda>i. \<not> bit w i) (rev [0..<32]))"

function mpu_regionGenerate :: "nat \<Rightarrow> u32 \<Rightarrow> u32 \<Rightarrow> u32 \<Rightarrow> mpu_common_t \<Rightarrow> (errno + unit) \<times> nat \<times> mpu_common_t" where
  "mpu_regionGenerate idx start ende rasrAttr s =
     (let sz = ende - start;
          commonTrailingZeroes = builtin_ctz (start OR ende);
          commonMsb = 32 - builtin_clz (start XOR (ende - 1));
          sigBits = int commonMsb - int commonTrailingZeroes
      in
      if ende \<noteq> 0 \<and> ende \<le> start then (Inl EINVAL, idx, s)
      else if sz = 0 then mpu_regionSet idx 0 0 32 rasrAttr s
      else if sz = push_bit (builtin_ctz sz) 1 \<and> start AND (sz - 1) = 0 then
        (if sz < 32 then (Inl EPERM, idx, s) else mpu_regionSet idx start 0 (builtin_ctz sz) rasrAttr s)
      else if commonTrailingZeroes < 5 then (Inl EPERM, idx, s)
      else if sigBits \<le> 3 then mpu_regionCalculateAndSet idx start ende (commonTrailingZeroes + 3) rasrAttr s
      else if sigBits = 4 then
        (let sizeBit = commonTrailingZeroes + 3; diffMask = push_bit sizeBit 1 - 1; reg1End = (start AND NOT diffMask) + diffMask + 1 in
         case mpu_regionCalculateAndSet idx start reg1End sizeBit rasrAttr s of
           (Inl e, idx1, s1) \<Rightarrow> (Inl e, idx1, s1)
         | (Inr _, idx1, s1) \<Rightarrow> mpu_regionCalculateAndSet idx1 reg1End ende sizeBit rasrAttr s1)
      else if rasrAttr = HOLE_ATTR rasrAttr then (Inl EPERM, idx, s)
      else
        let diffMask = push_bit (commonMsb - 3) 1 - 1 in
        case (if start AND NOT diffMask = start then
                let alignedEnd = (ende AND NOT diffMask) + diffMask + 1 in Some (start, alignedEnd, ende, alignedEnd)
              else if ende AND NOT diffMask = ende then
                let alignedStart = start AND NOT diffMask in Some (alignedStart, ende, alignedStart, start)
              else None) of
          None \<Rightarrow> (Inl EPERM, idx, s)
        | Some (alignedStart, alignedEnd, holeStart, holeEnd) \<Rightarrow>
            if mpu_checkOverlap idx holeStart holeEnd s then (Inl EPERM, idx, s)
            else case mpu_regionCalculateAndSet idx alignedStart alignedEnd commonMsb rasrAttr s of
                   (Inl e, idx1, s1) \<Rightarrow> (Inl e, idx1, s1)
                 | (Inr _, idx1, s1) \<Rightarrow> mpu_regionGenerate idx1 holeStart holeEnd (HOLE_ATTR rasrAttr) s1)"
  by pat_completeness auto

lemma HOLE_ATTR_idem [simp]: "HOLE_ATTR (HOLE_ATTR a) = HOLE_ATTR a"
  by (simp add: HOLE_ATTR_def)

termination mpu_regionGenerate
  by (relation "measure (\<lambda>(idx, start, ende, a, s). if a = HOLE_ATTR a then 0 else 1)") auto

definition invalid_region :: "nat \<Rightarrow> mpu_region_t" where
  "invalid_region i = \<lparr>rbar = of_nat i AND 0xf, rasr = push_bit 28 1 OR push_bit 1 0x1f\<rparr>"

definition mpu_regionInvalidate :: "nat \<Rightarrow> nat \<Rightarrow> mpu_common_t \<Rightarrow> mpu_common_t" where
  "mpu_regionInvalidate first lst s =
     foldl (\<lambda>s i. s\<lparr>mc_mapId := (mc_mapId s)[i := -1], mc_region := (mc_region s)[i := invalid_region i]\<rparr>) s [first..<min lst (mc_regMax s)]"

definition mpu_regionAssignMap :: "nat \<Rightarrow> nat \<Rightarrow> u32 \<Rightarrow> mpu_common_t \<Rightarrow> mpu_common_t" where
  "mpu_regionAssignMap first lst mapId s =
     foldl (\<lambda>s i. if rbar (mc_region s ! i) AND push_bit 4 1 \<noteq> 0 then s\<lparr>mc_mapId := (mc_mapId s)[i := mapId]\<rparr> else s) s [first..<min lst (mc_regMax s)]"

text \<open>\<open>typeReg\<close> is what the type register of the unit reads.\<close>

definition mpu_init :: "u32 \<Rightarrow> mpu_common_t \<Rightarrow> mpu_common_t" where
  "mpu_init typeReg s =
     mpu_regionInvalidate 0 16 (s\<lparr>mc_type := typeReg, mc_regMax := unat (ucast (drop_bit 8 typeReg) :: u8), mc_regCnt := 0, mc_mapCnt := 0\<rparr>)"

definition mpu_regionAlloc :: "attr_bits \<Rightarrow> u32 \<Rightarrow> u32 \<Rightarrow> u32 \<Rightarrow> u32 \<Rightarrow> bool \<Rightarrow> mpu_common_t \<Rightarrow> (errno + unit) \<times> mpu_common_t" where
  "mpu_regionAlloc ab addr ende attr mapId enable s =
     (case mpu_regionGenerate (mc_regCnt s) addr ende (mpu_regionAttrs ab attr enable) s of
        (Inl e, regCur, s1) \<Rightarrow> (Inl e, mpu_regionInvalidate (mc_regCnt s1) regCur s1)
      | (Inr _, regCur, s1) \<Rightarrow>
          let s2 = mpu_regionAssignMap (mc_regCnt s1) regCur mapId s1
          in (Inr (), s2\<lparr>mc_regCnt := regCur, mc_mapCnt := mc_mapCnt s2 + 1\<rparr>))"

text \<open>What the kernel is handed; the length of its table, \<open>n\<close>, is set by the kernel's headers.\<close>

record hal_mpu =
  hm_type :: u32
  hm_allocCnt :: nat
  hm_table :: "mpu_region_t list"
  hm_map :: "u32 list"

definition mpu_getHalData :: "nat \<Rightarrow> mpu_common_t \<Rightarrow> hal_mpu \<times> mpu_common_t" where
  "mpu_getHalData n s0 =
     (let s = mpu_regionInvalidate (mc_regCnt s0) (mc_regMax s0) s0
      in (\<lparr>hm_type = mc_type s, hm_allocCnt = mc_regCnt s, hm_table = map (\<lambda>i. mc_region s ! i) [0..<n], hm_map = map (\<lambda>i. mc_mapId s ! i) [0..<n]\<rparr>, s))"

end
