(* ===== verification/Mpu_Regions.thy ===== *)
theory Mpu_Regions
  imports Mpu
begin

text \<open>
  The meaning of the table of regions for the hardware (\<open>region_hit\<close>, \<open>mpu_lookup\<close>), and that the regions \<open>mpu_regionGenerate\<close> makes for a range match exactly the range:
  one region with subregions, two regions, or a region and a hole.
\<close>

declare mpu_regionGenerate.simps [simp del]

section \<open>What the hardware makes of the table\<close>

definition region_bits :: "mpu_region_t \<Rightarrow> nat" where
  "region_bits r = unat (drop_bit 1 (rasr r) AND 0x1f) + 1"

definition region_srd :: "mpu_region_t \<Rightarrow> u8" where
  "region_srd r = ucast (drop_bit 8 (rasr r))"

definition region_attr :: "mpu_region_t \<Rightarrow> u32" where
  "region_attr r = rasr r AND NOT (push_bit 1 (mask 15))"

text \<open>
  An enabled region matches the addresses of its block, less those in a subregion that is switched off; blocks of less than 256 bytes have no subregions.
  Of the regions that match, the last one decides.
\<close>

definition region_hit :: "mpu_region_t \<Rightarrow> u32 \<Rightarrow> bool" where
  "region_hit r a \<longleftrightarrow> bit (rasr r) 0 \<and> unat a div 2 ^ region_bits r = unat (rbar r) div 2 ^ region_bits r \<and>
     (region_bits r < 8 \<or> \<not> bit (region_srd r) (unat a div 2 ^ (region_bits r - 3) mod 8))"

definition mpu_lookup :: "mpu_region_t list \<Rightarrow> u32 \<Rightarrow> u32 option" where
  "mpu_lookup rs a = foldl (\<lambda>acc r. if region_hit r a then Some (region_attr r) else acc) None rs"

text \<open>The access rights of an address; a hole counts as no region.\<close>

definition mpu_granted :: "mpu_common_t \<Rightarrow> u32 \<Rightarrow> u32 option" where
  "mpu_granted s a = (case mpu_lookup (mc_region s) a of None \<Rightarrow> None | Some t \<Rightarrow> if t AND 0x07000000 = 0 then None else Some t)"

definition in_range :: "u32 \<Rightarrow> u32 \<Rightarrow> u32 \<Rightarrow> bool" where
  "in_range start ende a \<longleftrightarrow> start \<le> a \<and> (ende = 0 \<or> a < ende)"

section \<open>Fields of a region\<close>

text \<open>Attributes that leave the fields of the size and the subregions alone.\<close>

definition attr_clean :: "u32 \<Rightarrow> bool" where
  "attr_clean t \<longleftrightarrow> t AND NOT (push_bit 1 (mask 15)) = t"

lemma attr_clean_bits: "attr_clean t \<longleftrightarrow> (\<forall>i. bit t i \<longrightarrow> i = 0 \<or> 16 \<le> i)"
proof -
  have "attr_clean t \<longleftrightarrow> (\<forall>i. bit t i \<longrightarrow> \<not> (1 \<le> i \<and> i - 1 < 15))"
  proof
    assume t: "attr_clean t"
    show "\<forall>i. bit t i \<longrightarrow> \<not> (1 \<le> i \<and> i - 1 < 15)"
    proof (intro allI impI)
      fix i assume b: "bit t i"
      then have "bit (t AND NOT (push_bit 1 (mask 15))) i" using t by (simp only: attr_clean_def)
      then show "\<not> (1 \<le> i \<and> i - 1 < 15)"
        using bit_imp_le_length [OF b] unfolding bit_and_iff bit_not_iff bit_push_bit_iff bit_mask_iff by auto
    qed
  next
    assume a: "\<forall>i. bit t i \<longrightarrow> \<not> (1 \<le> i \<and> i - 1 < 15)"
    show "attr_clean t"
      unfolding attr_clean_def
      by (rule bit_word_eqI) (use a in \<open>auto simp only: bit_and_iff bit_not_iff bit_push_bit_iff bit_mask_iff possible_bit_word\<close>)
  qed
  also have "\<dots> \<longleftrightarrow> (\<forall>i. bit t i \<longrightarrow> i = 0 \<or> 16 \<le> i)" by (intro all_cong1) auto
  finally show ?thesis .
qed

lemma mask_5: "(0x1f :: 'a :: len word) = mask 5" and mask_8: "(0xff :: u32) = mask 8" and mask_3: "(7 :: u32) = mask 3" and mask_4: "(0xf :: u32) = mask 4"
  by (simp_all add: mask_eq_exp_minus_1)

lemma bit_mk_rasr:
  "bit (rasr (mk_region idx b srd k t)) i \<longleftrightarrow> bit t i \<or> 8 \<le> i \<and> i < 16 \<and> bit srd (i - 8) \<or> 1 \<le> i \<and> i < 6 \<and> bit (of_nat k - 1 :: u32) (i - 1)"
proof -
  have "bit srd (i - 8) \<Longrightarrow> i < 16" using bit_imp_le_length [of srd "i - 8"] by simp
  moreover have "bit t i \<Longrightarrow> i < 32" using bit_imp_le_length [of t i] by simp
  ultimately show ?thesis
    unfolding mk_region_def mpu_region_t.simps mask_5 bit_or_iff bit_and_iff bit_push_bit_iff bit_mask_iff bit_ucast_iff
    by auto
qed

lemma region_attr_mk: "attr_clean t \<Longrightarrow> region_attr (mk_region idx b srd k t) = t"
proof (rule bit_word_eqI)
  fix i assume "attr_clean t" "i < LENGTH(32)"
  then show "bit (region_attr (mk_region idx b srd k t)) i \<longleftrightarrow> bit t i"
    unfolding region_attr_def bit_and_iff bit_not_iff bit_push_bit_iff bit_mask_iff bit_mk_rasr attr_clean_bits by auto
qed

lemma region_srd_mk: "attr_clean t \<Longrightarrow> region_srd (mk_region idx b srd k t) = srd"
proof (rule bit_word_eqI)
  fix i assume "attr_clean t" "i < LENGTH(8)"
  then show "bit (region_srd (mk_region idx b srd k t)) i \<longleftrightarrow> bit srd i"
    unfolding region_srd_def bit_ucast_iff bit_drop_bit_eq o_def bit_mk_rasr attr_clean_bits by auto
qed

lemma region_bits_mk:
  assumes "attr_clean t" "1 \<le> k" "k \<le> 32"
  shows "region_bits (mk_region idx b srd k t) = k"
proof -
  have "drop_bit 1 (rasr (mk_region idx b srd k t)) AND 0x1f = take_bit 5 (of_nat k - 1)"
  proof (rule bit_word_eqI)
    fix i assume "i < LENGTH(32)"
    then show "bit (drop_bit 1 (rasr (mk_region idx b srd k t)) AND 0x1f) i \<longleftrightarrow> bit (take_bit 5 (of_nat k - 1 :: u32)) i"
      using assms(1) unfolding mask_5 bit_and_iff bit_drop_bit_eq o_def bit_mask_iff bit_take_bit_iff bit_mk_rasr attr_clean_bits by auto
  qed
  moreover have "unat (of_nat k - 1 :: u32) = k - 1"
    using assms(2,3) by (subst unat_minus_small) (simp_all add: unat_of_nat_small word_le_nat_alt)
  ultimately show ?thesis
    using assms(2,3) by (simp add: region_bits_def unsigned_take_bit_eq take_bit_nat_eq_self)
qed

lemma shl_minus_1: "push_bit k 1 - 1 = (mask k :: u32)"
  by (simp add: mask_eq_exp_minus_1 push_bit_of_1)

lemma unat_take: "unat (take_bit k (x :: u32)) = unat x mod 2 ^ k"
  unfolding unsigned_take_bit_eq by (rule take_bit_eq_mod)

lemma unat_and_not_mask: "unat (x AND NOT (mask k) :: u32) = unat x div 2 ^ k * 2 ^ k"
proof -
  have "take_bit k x \<le> x" by (simp add: word_le_nat_alt unsigned_take_bit_eq take_bit_nat_less_eq_self)
  then show ?thesis by (simp add: and_not_mask unat_minus_small unat_take minus_mod_eq_div_mult del: take_bit_word_eq_self)
qed

lemma unat_drop: "unat (drop_bit k (x :: u32)) = unat x div 2 ^ k"
  unfolding unat_drop_bit_eq by (rule drop_bit_eq_div)

lemma mk_block:
  assumes "5 \<le> k"
  shows "unat (rbar (mk_region idx b srd k t)) div 2 ^ k = unat b div 2 ^ k"
proof -
  have "drop_bit k (rbar (mk_region idx b srd k t)) = drop_bit k b"
  proof (rule bit_word_eqI)
    fix i assume "i < LENGTH(32)"
    then show "bit (drop_bit k (rbar (mk_region idx b srd k t))) i \<longleftrightarrow> bit (drop_bit k b) i"
    proof -
      have "\<not> bit (push_bit 4 1 :: u32) (k + i)" "\<not> bit (of_nat idx AND 0xf :: u32) (k + i)"
        using assms unfolding mask_4 bit_push_bit_iff bit_and_iff bit_mask_iff bit_1_iff by simp_all
      then show ?thesis unfolding mk_region_def mpu_region_t.simps bit_drop_bit_eq o_def bit_or_iff by blast
    qed
  qed
  then show ?thesis by (metis unat_drop)
qed

lemma hit_mk:
  assumes "attr_clean t" "5 \<le> k" "k \<le> 32"
  shows "region_hit (mk_region idx b srd k t) a \<longleftrightarrow> bit t 0 \<and> unat a div 2 ^ k = unat b div 2 ^ k \<and> (k < 8 \<or> \<not> bit srd (unat a div 2 ^ (k - 3) mod 8))"
proof -
  have "region_bits (mk_region idx b srd k t) = k" using assms by (intro region_bits_mk) simp_all
  then show ?thesis using assms by (simp add: region_hit_def bit_mk_rasr region_srd_mk mk_block)
qed

lemma bit_srd_mask:
  assumes "j < 8"
  shows "bit (srd_mask start ende k) j \<longleftrightarrow> \<not> (unat start div 2 ^ (k - 3) mod 8 \<le> j \<and>
    j < (if unat ende div 2 ^ (k - 3) mod 8 = 0 then 8 else unat ende div 2 ^ (k - 3) mod 8))"
proof -
  have sub: "unat (drop_bit n x AND 7) = unat x div 2 ^ n mod 8" for n and x :: u32
  proof -
    have "drop_bit n x AND 7 = take_bit 3 (drop_bit n x)" unfolding mask_3 by (simp add: take_bit_eq_mask)
    then show ?thesis by (simp only: unat_take unat_drop) simp
  qed
  have "bit (ucast (NOT (mask e AND push_bit s0 (mask 8)) :: u32) :: u8) j \<longleftrightarrow> \<not> (s0 \<le> j \<and> j < e)" for s0 e
    using assms unfolding bit_ucast_iff bit_not_iff bit_and_iff bit_mask_iff bit_push_bit_iff by auto
  then show ?thesis unfolding srd_mask_def Let_def sub mask_8 shl_minus_1 by simp
qed

text \<open>The end of a range as a number; 0 is the end of the address space.\<close>

definition top_of :: "u32 \<Rightarrow> nat" where
  "top_of ende = (if ende = 0 then 2 ^ 32 else unat ende)"

lemma in_range_nat: "in_range start ende a \<longleftrightarrow> unat start \<le> unat a \<and> unat a < top_of ende"
  using unat_less_exp [of a] by (auto simp: in_range_def top_of_def word_le_nat_alt word_less_nat_alt)

lemma subregion_count:
  fixes s e n :: nat
  assumes "s div 8 = (e - 1) div 8" "s < e"
  shows "n div 8 = s div 8 \<and> s mod 8 \<le> n mod 8 \<and> n mod 8 < (if e mod 8 = 0 then 8 else e mod 8) \<longleftrightarrow> s \<le> n \<and> n < e"
proof -
  let ?b = "s div 8" and ?e = "(e - 1) mod 8"
  have e: "e = 8 * ?b + ?e + 1" using assms by (metis div_mult_mod_eq mult.commute Suc_pred' add.commute plus_1_eq_Suc gr_implies_not0 neq0_conv)
  then have em: "e mod 8 = (if ?e = 7 then 0 else ?e + 1)"
  proof -
    have "e mod 8 = (?e + 1) mod 8" using e by (metis add.assoc mod_mult_self4)
    then show ?thesis by (cases "?e = 7") (simp_all add: mod_less)
  qed
  have sn: "s = 8 * ?b + s mod 8" "n = 8 * (n div 8) + n mod 8" by simp_all
  have lt: "s mod 8 < 8" "n mod 8 < 8" "?e < 8" by simp_all
  consider "n div 8 = ?b" | "n div 8 \<le> ?b - 1" "0 < ?b" | "?b + 1 \<le> n div 8" by linarith
  then show ?thesis
  proof cases
    case 1
    have "s mod 8 \<le> n mod 8 \<longleftrightarrow> s \<le> n" using 1 sn by linarith
    moreover have "n mod 8 < (if e mod 8 = 0 then 8 else e mod 8) \<longleftrightarrow> n < e" unfolding em using 1 e sn(2) lt by (cases "?e = 7") auto
    ultimately show ?thesis using 1 by blast
  qed (use e sn lt in linarith)+
qed

lemma top_of_sub: "8 \<le> k \<Longrightarrow> k \<le> 32 \<Longrightarrow> top_of ende div 2 ^ (k - 3) mod 8 = unat ende div 2 ^ (k - 3) mod 8"
proof -
  assume k: "8 \<le> k" "k \<le> 32"
  have "(2::nat) ^ 32 = 2 ^ (k - 3) * (8 * 2 ^ (32 - k))"
  proof -
    have "(2::nat) ^ 32 = 2 ^ ((k - 3) + (3 + (32 - k)))" using k by (intro arg_cong [where f = "power 2"]) simp
    then show ?thesis by (simp only: power_add) simp
  qed
  then have "(2::nat) ^ 32 div 2 ^ (k - 3) mod 8 = 0" by (simp only: nonzero_mult_div_cancel_left power_not_zero) simp
  then show ?thesis by (cases "ende = 0") (simp_all add: top_of_def)
qed

lemma range_blocks:
  assumes g: "(0::nat) < g" and "g dvd S" "g dvd E" "S < E" "S div (8 * g) = (E - 1) div (8 * g)"
  shows "A div (8 * g) = S div (8 * g) \<and> S div g mod 8 \<le> A div g mod 8 \<and> A div g mod 8 < (if E div g mod 8 = 0 then 8 else E div g mod 8) \<longleftrightarrow> S \<le> A \<and> A < E"
proof -
  obtain s e where s: "S = g * s" "E = g * e" using assms(2,3) by (auto elim!: dvdE)
  have se: "s < e" using assms(4) s g by simp
  have d: "x div (8 * g) = x div g div 8" for x by (simp add: div_mult2_eq mult.commute)
  have "(g * e - 1) div g = e - 1"
    using g se by (intro div_nat_eqI) (simp_all add: algebra_simps diff_mult_distrib2)
  then have e1: "s div 8 = (e - 1) div 8" using assms(5) s g by (simp add: d)
  have le: "S \<le> A \<longleftrightarrow> s \<le> A div g" "A < E \<longleftrightarrow> A div g < e" using g s by (simp_all add: less_eq_div_iff_mult_less_eq div_less_iff_less_mult mult.commute)
  have q: "S div g = s" "E div g = e" using s g by simp_all
  show ?thesis unfolding d le q using subregion_count [OF e1 se, of "A div g"] by simp
qed

lemma calc_hit:
  assumes t: "attr_clean t" and k: "8 \<le> k" "k \<le> 32" and "2 ^ (k - 3) dvd unat start" "2 ^ (k - 3) dvd top_of ende" "unat start < top_of ende"
    and "unat start div 2 ^ k = (top_of ende - 1) div 2 ^ k"
  shows "region_hit (mk_region idx (start AND NOT (push_bit k 1 - 1)) (srd_mask start ende k) k t) a \<longleftrightarrow> bit t 0 \<and> in_range start ende a"
proof -
  have p: "(2::nat) ^ k = 8 * 2 ^ (k - 3)"
  proof -
    have "(2::nat) ^ k = 2 ^ (3 + (k - 3))" using k by simp
    then show ?thesis by (simp only: power_add) simp
  qed
  have b: "unat (start AND NOT (mask k)) div 2 ^ k = unat start div 2 ^ k" by (simp add: unat_and_not_mask)
  have k5: "5 \<le> k" "\<not> k < 8" using k by simp_all
  have "(0::nat) < 2 ^ (k - 3)" by simp
  from range_blocks [OF this assms(4-6) assms(7)[unfolded p], of "unat a", folded p, unfolded top_of_sub [OF k]]
  show ?thesis
    unfolding shl_minus_1 hit_mk [OF t k5(1) k(2)] b bit_srd_mask [OF mod_less_divisor [OF zero_less_numeral]] in_range_nat
    using k5(2) by blast
qed

section \<open>Counting zeroes\<close>

lemma first_bit:
  assumes "n = length (takeWhile (\<lambda>i. \<not> bit w i) xs)" "n < length xs"
  shows "bit w (xs ! n)" "i < n \<Longrightarrow> \<not> bit w (xs ! i)"
proof -
  show "bit w (xs ! n)" using nth_length_takeWhile [of "\<lambda>i. \<not> bit w i" xs] assms by simp
  assume "i < n"
  then have "takeWhile (\<lambda>i. \<not> bit w i) xs ! i = xs ! i" "takeWhile (\<lambda>i. \<not> bit w i) xs ! i \<in> set (takeWhile (\<lambda>i. \<not> bit w i) xs)"
    using assms(1) takeWhile_nth by (auto intro: nth_mem)
  then show "\<not> bit w (xs ! i)" using set_takeWhileD by metis
qed

lemma takeWhile_bits_less:
  assumes "(w::u32) \<noteq> 0" "set xs = {0..<32}"
  shows "length (takeWhile (\<lambda>i. \<not> bit w i) xs) < length xs"
proof (rule ccontr)
  assume "\<not> ?thesis"
  then have "takeWhile (\<lambda>i. \<not> bit w i) xs = xs" using length_takeWhile_le [of "\<lambda>i. \<not> bit w i" xs] by (metis le_neq_implies_less takeWhile_eq_take take_all_iff order_refl)
  then have "\<forall>i\<in>set xs. \<not> bit w i" by (simp add: takeWhile_eq_all_conv)
  then have "w = 0" using assms(2) by (intro bit_word_eqI) auto
  then show False using assms(1) by simp
qed

lemma ctz_spec:
  assumes "w \<noteq> 0"
  shows "builtin_ctz w < 32" "bit w (builtin_ctz w)" "i < builtin_ctz w \<Longrightarrow> \<not> bit w i"
proof -
  have l: "length (takeWhile (\<lambda>i. \<not> bit w i) [0..<32]) < length [0..<32::nat]" using assms by (intro takeWhile_bits_less) simp_all
  then show n: "builtin_ctz w < 32" by (simp add: builtin_ctz_def)
  show "bit w (builtin_ctz w)" using first_bit(1) [OF refl l] n by (simp add: builtin_ctz_def)
  show "i < builtin_ctz w \<Longrightarrow> \<not> bit w i" using first_bit(2) [OF refl l, of i] n by (simp add: builtin_ctz_def)
qed

lemma clz_spec:
  assumes "w \<noteq> 0" "M = 32 - builtin_clz w"
  shows "1 \<le> M" "M \<le> 32" "bit w (M - 1)" "M \<le> i \<Longrightarrow> \<not> bit w i"
proof -
  let ?xs = "rev [0..<32::nat]"
  have l: "length (takeWhile (\<lambda>i. \<not> bit w i) ?xs) < length ?xs" using assms(1) by (intro takeWhile_bits_less) auto
  then have n: "builtin_clz w < 32" by (simp add: builtin_clz_def)
  then show "1 \<le> M" "M \<le> 32" using assms(2) by auto
  have nth: "i < 32 \<Longrightarrow> ?xs ! i = 31 - i" for i by (subst rev_nth) (simp_all del: upt_Suc)
  show "bit w (M - 1)" using first_bit(1) [OF refl l] n nth assms(2) by (simp add: builtin_clz_def)
  assume i: "M \<le> i"
  show "\<not> bit w i"
  proof (cases "i < 32")
    case True
    then have "31 - i < builtin_clz w" using i assms(2) by linarith
    then show ?thesis using first_bit(2) [OF refl l, of "31 - i"] nth [of "31 - i"] True by (simp add: builtin_clz_def)
  qed (auto dest: bit_imp_le_length)
qed

lemma low_bits_dvd: "(\<And>i. i < n \<Longrightarrow> \<not> bit (w::u32) i) \<Longrightarrow> 2 ^ n dvd unat w"
proof -
  assume "\<And>i. i < n \<Longrightarrow> \<not> bit w i"
  then have "take_bit n w = 0" by (intro bit_word_eqI) (auto simp: bit_take_bit_iff)
  then have "unat (take_bit n w) = 0" by simp
  then have "unat w mod 2 ^ n = 0" by (simp only: unat_take)
  then show ?thesis by (simp only: dvd_eq_mod_eq_0)
qed

lemma dvd_low_bits: "2 ^ n dvd unat (w::u32) \<Longrightarrow> i < n \<Longrightarrow> \<not> bit w i"
proof -
  assume d: "2 ^ n dvd unat w" and i: "i < n"
  have "take_bit n (unat w) = 0" using d by (simp add: take_bit_eq_mod)
  then have "\<not> bit (unat w) i" using i by (metis bit_take_bit_iff bit_0_eq bot_apply bot_bool_def)
  then show "\<not> bit w i" by (simp add: bit_unsigned_iff)
qed

text \<open>The ends of a range in terms of the numbers computed by \<open>mpu_regionGenerate\<close>.\<close>

lemma top_minus_1: "unat (ende - 1) = top_of ende - 1"
proof (cases "ende = 0")
  case False
  then have "1 \<le> ende" by (simp add: word_le_nat_alt Suc_le_eq unat_gt_0)
  then show ?thesis using False by (simp add: top_of_def unat_minus_small)
qed (simp add: top_of_def unsigned_minus_1_eq_mask mask_eq_exp_minus_1)

lemma top_dvd: "n \<le> 32 \<Longrightarrow> 2 ^ n dvd top_of ende \<longleftrightarrow> 2 ^ n dvd unat ende"
proof -
  assume "n \<le> 32"
  then have "(2::nat) ^ n dvd 2 ^ 32" by (rule le_imp_power_dvd)
  then show ?thesis by (cases "ende = 0") (simp_all add: top_of_def)
qed

lemma trailing_spec:
  assumes "start OR ende \<noteq> 0" "T = builtin_ctz (start OR ende)"
  shows "T < 32" "2 ^ T dvd unat start" "2 ^ T dvd top_of ende" "\<not> (2 ^ Suc T dvd unat start \<and> 2 ^ Suc T dvd top_of ende)"
proof -
  note c = ctz_spec [OF assms(1), folded assms(2)]
  show T: "T < 32" by (rule c(1))
  have "\<not> bit start i \<and> \<not> bit ende i" if "i < T" for i using c(3) [OF that] by (simp add: bit_or_iff)
  then show "2 ^ T dvd unat start" "2 ^ T dvd top_of ende" using T low_bits_dvd top_dvd [of T ende] by auto
  show "\<not> (2 ^ Suc T dvd unat start \<and> 2 ^ Suc T dvd top_of ende)"
    using c(2) dvd_low_bits [of "Suc T" start T] dvd_low_bits [of "Suc T" ende T] top_dvd [of "Suc T" ende] T by (auto simp: bit_or_iff)
qed

lemma common_spec:
  assumes "unat start + 1 < top_of ende" "M = 32 - builtin_clz (start XOR (ende - 1))"
  shows "1 \<le> M" "M \<le> 32" "unat start div 2 ^ M = (top_of ende - 1) div 2 ^ M" "unat start div 2 ^ (M - 1) \<noteq> (top_of ende - 1) div 2 ^ (M - 1)"
proof -
  have "start \<noteq> ende - 1" using assms(1) top_minus_1 [of ende] by auto
  then have "start XOR (ende - 1) \<noteq> 0" by (simp only: bit_eq_iff bit_xor_iff bit_0_eq bot_apply) auto
  note c = clz_spec [OF this assms(2)]
  show "1 \<le> M" "M \<le> 32" using c by simp_all
  have "drop_bit M start = drop_bit M (ende - 1)"
    using c(4) by (intro bit_word_eqI) (auto simp: bit_drop_bit_eq bit_xor_iff)
  then show "unat start div 2 ^ M = (top_of ende - 1) div 2 ^ M" by (metis unat_drop top_minus_1)
  have "bit start (M - 1) \<noteq> bit (ende - 1) (M - 1)" using c(3) by (simp add: bit_xor_iff)
  then have "bit (drop_bit (M - 1) start) 0 \<noteq> bit (drop_bit (M - 1) (ende - 1)) 0" by (simp only: bit_drop_bit_eq o_apply add_0_right simp_thms)
  then have "unat (drop_bit (M - 1) start) \<noteq> unat (drop_bit (M - 1) (ende - 1))" by (auto simp only: word_unat_eq_iff [symmetric])
  then show "unat start div 2 ^ (M - 1) \<noteq> (top_of ende - 1) div 2 ^ (M - 1)" by (simp only: unat_drop top_minus_1) simp
qed

section \<open>The table\<close>

definition entry_ok :: "mpu_region_t \<Rightarrow> bool" where
  "entry_ok r \<longleftrightarrow> bit (rbar r) 4 \<and> 5 \<le> region_bits r \<and> (region_bits r < 8 \<longrightarrow> region_srd r = 0)"

text \<open>The table has 16 places, and those from \<open>idx\<close> on are switched off.\<close>

definition table_ok :: "nat \<Rightarrow> mpu_common_t \<Rightarrow> bool" where
  "table_ok idx s \<longleftrightarrow> length (mc_region s) = 16 \<and> mc_regMax s \<le> 16 \<and> idx \<le> mc_regMax s \<and>
     (\<forall>i<idx. entry_ok (mc_region s ! i)) \<and> (\<forall>i<16. idx \<le> i \<longrightarrow> \<not> bit (rasr (mc_region s ! i)) 0)"

definition same_but :: "nat \<Rightarrow> nat \<Rightarrow> mpu_common_t \<Rightarrow> mpu_common_t \<Rightarrow> bool" where
  "same_but idx idx' s s' \<longleftrightarrow> idx \<le> idx' \<and> s' = s\<lparr>mc_region := mc_region s'\<rparr> \<and> (\<forall>i. i < idx \<or> idx' \<le> i \<longrightarrow> mc_region s' ! i = mc_region s ! i)"

lemma lookup_append: "mpu_lookup (xs @ ys) a = (case mpu_lookup ys a of None \<Rightarrow> mpu_lookup xs a | Some t \<Rightarrow> Some t)"
  by (induction ys rule: rev_induct) (auto simp: mpu_lookup_def split: option.splits)

lemma lookup_off: "(\<And>r. r \<in> set rs \<Longrightarrow> \<not> region_hit r a) \<Longrightarrow> mpu_lookup rs a = None"
  by (induction rs rule: rev_induct) (auto simp: mpu_lookup_def)

lemma lookup_NoneD: "mpu_lookup rs a = None \<Longrightarrow> r \<in> set rs \<Longrightarrow> \<not> region_hit r a"
  by (induction rs rule: rev_induct) (auto simp: mpu_lookup_def split: if_splits)

lemma lookup_update:
  assumes "idx < length rs" "\<And>i. idx \<le> i \<Longrightarrow> i < length rs \<Longrightarrow> \<not> bit (rasr (rs ! i)) 0"
  shows "mpu_lookup (rs[idx := r]) a = (if region_hit r a then Some (region_attr r) else mpu_lookup rs a)"
proof -
  let ?ys = "drop (Suc idx) rs"
  have off: "\<not> region_hit x a" if "x \<in> set (drop idx rs)" for x
  proof -
    from that obtain j where "j < length (drop idx rs)" "x = drop idx rs ! j" by (metis in_set_conv_nth)
    then show ?thesis using assms(2) [of "idx + j"] by (auto simp: region_hit_def)
  qed
  have y: "mpu_lookup ?ys a = None" using off by (intro lookup_off) (metis Cons_nth_drop_Suc assms(1) list.set_intros(2))
  have "mpu_lookup (drop idx rs) a = None" using off by (intro lookup_off)
  then have "mpu_lookup rs a = mpu_lookup (take idx rs) a" by (metis append_take_drop_id lookup_append option.simps(4))
  moreover have "rs[idx := r] = (take idx rs @ [r]) @ ?ys" using assms(1) by (simp add: upd_conv_take_nth_drop)
  ultimately show ?thesis using y by (auto simp only: lookup_append) (auto simp: mpu_lookup_def)
qed

text \<open>What an operation does that adds regions with the attributes \<open>t\<close> for the addresses in \<open>P\<close>.\<close>

definition adds :: "(u32 \<Rightarrow> bool) \<Rightarrow> u32 \<Rightarrow> nat \<Rightarrow> mpu_common_t \<Rightarrow> (errno + unit) \<times> nat \<times> mpu_common_t \<Rightarrow> bool" where
  "adds P t idx s = (\<lambda>(res, idx', s'). table_ok idx' s' \<and> same_but idx idx' s s' \<and>
     (res = Inr () \<longrightarrow> idx < idx' \<and> (\<forall>a. mpu_lookup (mc_region s') a = (if bit t 0 \<and> P a then Some t else mpu_lookup (mc_region s) a))))"

lemma adds_Inl: "table_ok idx s \<Longrightarrow> adds P t idx s (Inl e, idx, s)"
  by (simp add: adds_def same_but_def)

lemma adds_cong: "adds P t idx s r \<Longrightarrow> (\<And>a. P a \<longleftrightarrow> Q a) \<Longrightarrow> adds Q t idx s r"
  by (auto simp: adds_def)

lemma same_but_trans: "same_but i j s s1 \<Longrightarrow> same_but j k s1 s2 \<Longrightarrow> same_but i k s s2"
  by (cases s; cases s1; cases s2) (auto simp: same_but_def)

lemma adds_then:
  assumes "adds P t idx s (Inr (), i1, s1)" "adds Q t i1 s1 r"
  shows "adds (\<lambda>a. P a \<or> Q a) t idx s r"
proof -
  obtain res i2 s2 where "r = (res, i2, s2)" by (cases r)
  then show ?thesis using assms same_but_trans [of idx i1 s s1 i2 s2] by (auto simp: adds_def)
qed

lemma set_adds:
  assumes "table_ok idx s" "attr_clean t" "k \<le> 32" "5 \<le> k \<Longrightarrow> k < 8 \<Longrightarrow> srd = 0"
    "\<And>a. 5 \<le> k \<Longrightarrow> region_hit (mk_region idx b srd k t) a \<longleftrightarrow> bit t 0 \<and> P a"
  shows "adds P t idx s (mpu_regionSet idx b srd k t s)"
proof (cases "k < 5 \<or> idx \<ge> mc_regMax s")
  case True
  then show ?thesis using adds_Inl [OF assms(1)] by (auto simp: mpu_regionSet_def)
next
  case False
  let ?r = "mk_region idx b srd k t"
  have tb: "length (mc_region s) = 16" "idx < 16" "mc_regMax s \<le> 16" "\<And>i. i < idx \<Longrightarrow> entry_ok (mc_region s ! i)"
      "\<And>i. i < 16 \<Longrightarrow> idx \<le> i \<Longrightarrow> \<not> bit (rasr (mc_region s ! i)) 0"
    using assms(1) False by (auto simp: table_ok_def)
  have v: "bit (rbar ?r) 4" unfolding mk_region_def mpu_region_t.simps bit_or_iff bit_push_bit_iff by simp
  have "entry_ok ?r" using False assms(2-4) v by (simp add: entry_ok_def region_bits_mk region_srd_mk)
  moreover have "mpu_lookup ((mc_region s)[idx := ?r]) a = (if bit t 0 \<and> P a then Some t else mpu_lookup (mc_region s) a)" for a
    using lookup_update [of idx "mc_region s" ?r a] tb False assms(2,5) by (simp add: region_attr_mk)
  ultimately show ?thesis
    using False tb by (auto simp: mpu_regionSet_def adds_def table_ok_def same_but_def nth_list_update less_Suc_eq)
qed

lemma calc_adds:
  assumes "table_ok idx s" "attr_clean t" "8 \<le> k" "k \<le> 32" "2 ^ (k - 3) dvd unat start" "2 ^ (k - 3) dvd top_of ende" "unat start < top_of ende"
    and "unat start div 2 ^ k = (top_of ende - 1) div 2 ^ k"
  shows "adds (in_range start ende) t idx s (mpu_regionCalculateAndSet idx start ende k t s)"
  unfolding mpu_regionCalculateAndSet_def
  using assms by (intro set_adds calc_hit) simp_all

lemma pow2_adds:
  assumes "table_ok idx s" "attr_clean t" "5 \<le> k" "k \<le> 32" "2 ^ k dvd unat start" "top_of ende = unat start + 2 ^ k"
  shows "adds (in_range start ende) t idx s (mpu_regionSet idx start 0 k t s)"
proof (rule set_adds [OF assms(1,2,4)])
  fix a :: u32
  obtain q where q: "unat start = 2 ^ k * q" using assms(5) by blast
  have "unat a div 2 ^ k = q \<longleftrightarrow> unat start \<le> unat a \<and> unat a < unat start + 2 ^ k"
  proof
    assume "unat a div 2 ^ k = q"
    then have "unat a = 2 ^ k * q + unat a mod 2 ^ k" by (metis div_mult_mod_eq mult.commute)
    moreover have "unat a mod 2 ^ k < 2 ^ k" by simp
    ultimately show "unat start \<le> unat a \<and> unat a < unat start + 2 ^ k" unfolding q by linarith
  qed (auto simp: q intro!: div_nat_eqI)
  then show "region_hit (mk_region idx start 0 k t) a \<longleftrightarrow> bit t 0 \<and> in_range start ende a"
    using hit_mk [OF assms(2-4)] q assms(6) by (simp add: in_range_nat)
qed simp

section \<open>Ranges that need no hole\<close>

text \<open>
  The ranges of several gigabytes for which the code computes a region of \<open>2^33\<close> bytes, which the unit does not have.
\<close>

definition too_big :: "u32 \<Rightarrow> u32 \<Rightarrow> bool" where
  "too_big start ende \<longleftrightarrow> (start, ende) \<in> {(0, 0xC0000000), (0x40000000, 0), (0x40000000, 0xC0000000)}"

lemma size_nat:
  assumes "\<not> (ende \<noteq> 0 \<and> ende \<le> start)" "ende - start \<noteq> 0"
  shows "unat start < top_of ende" "unat (ende - start) = top_of ende - unat start"
proof -
  show l: "unat start < top_of ende" using assms unat_less_exp [of start] by (auto simp: top_of_def word_le_nat_alt)
  have "start \<noteq> 0 \<or> ende \<noteq> 0" using assms(2) by auto
  then show "unat (ende - start) = top_of ende - unat start"
    using l unat_sub_if' [of ende start] by (auto simp: top_of_def unat_gt_0 split: if_splits)
qed

lemma pow2_size:
  assumes "\<not> (ende \<noteq> 0 \<and> ende \<le> start)" "ende - start \<noteq> 0" "ende - start = push_bit (builtin_ctz (ende - start)) 1" "start AND (ende - start - 1) = 0"
  shows "top_of ende = unat start + 2 ^ builtin_ctz (ende - start)" "2 ^ builtin_ctz (ende - start) dvd unat start"
proof -
  let ?k = "builtin_ctz (ende - start)"
  have k: "?k < 32" using ctz_spec(1) [OF assms(2)] .
  have "unat (push_bit ?k 1 :: u32) = 2 ^ ?k" using k by (simp only: push_bit_of_1 unat_pow2 len_of_numeral_defs)
  then show "top_of ende = unat start + 2 ^ ?k" using size_nat [OF assms(1,2)] assms(3) by simp
  have "start AND mask ?k = 0" using assms(3,4) shl_minus_1 [of ?k] by metis
  then have "take_bit ?k start = 0" by (simp only: take_bit_eq_mask)
  then show "2 ^ ?k dvd unat start" by (intro low_bits_dvd) (metis bit_take_bit_iff bit_0_eq bot_apply bot_bool_def)
qed

lemma not_too_big:
  assumes "unat start < top_of ende" "\<not> (\<exists>k. top_of ende = unat start + 2 ^ k \<and> 2 ^ k dvd unat start)" "start OR ende \<noteq> 0"
    "\<not> too_big start ende" "30 \<le> builtin_ctz (start OR ende)"
  shows False
proof -
  have d: "2 ^ 30 dvd unat start" "2 ^ 30 dvd top_of ende"
    using trailing_spec(2,3) [OF assms(3) refl] assms(5) by (meson dvd_trans le_imp_power_dvd)+
  obtain p q where pq: "unat start = 2 ^ 30 * p" "top_of ende = 2 ^ 30 * q" using d by (elim dvdE)
  have "top_of ende \<le> 2 ^ 32" using unat_less_exp [of ende] by (simp add: top_of_def)
  then have le: "q \<le> 4" "p < q" using pq assms(1) by simp_all
  have np: "\<not> (top_of ende = unat start + 2 ^ k \<and> 2 ^ k dvd unat start)" for k using assms(2) by blast
  have u: "of_nat (unat w) = w" for w :: u32 by simp
  have st: "start = of_nat (2 ^ 30 * p)" using arg_cong [where f = "of_nat :: nat \<Rightarrow> u32", OF pq(1)] by (simp only: u)
  have en: "ende = of_nat (2 ^ 30 * q)"
  proof (cases "ende = 0")
    case True
    then have "q = 4" using pq(2) by (simp add: top_of_def)
    then show ?thesis using True by simp
  next
    case False
    then have "unat ende = 2 ^ 30 * q" using pq(2) by (simp add: top_of_def)
    from arg_cong [where f = "of_nat :: nat \<Rightarrow> u32", OF this] show ?thesis by (simp only: u)
  qed
  consider "q = p + 1" "p < 4" | "p = 0" "q = 2" | "p = 0" "q = 3" | "p = 0" "q = 4" | "p = 1" "q = 3" | "p = 1" "q = 4" | "p = 2" "q = 4"
    using le by linarith
  then show False
  proof cases
    case 1
    then show False using np [of 30] pq by simp
  next
    case 2
    then show False using np [of 31] pq by simp
  next
    case 4
    then show False using np [of 32] pq by simp
  next
    case 7
    then show False using np [of 31] pq by simp
  qed (use assms(4) st en in \<open>simp_all add: too_big_def\<close>)
qed

lemma pow2_size_conv:
  assumes "\<not> (ende \<noteq> 0 \<and> ende \<le> start)" "ende - start \<noteq> 0" "top_of ende = unat start + 2 ^ k" "2 ^ k dvd unat start"
  shows "ende - start = push_bit (builtin_ctz (ende - start)) 1 \<and> start AND (ende - start - 1) = 0"
proof -
  have u: "unat (ende - start) = 2 ^ k" using size_nat [OF assms(1,2)] assms(3) by simp
  have k: "k < 32"
  proof (rule ccontr)
    assume "\<not> k < 32"
    then have "(2::nat) ^ 32 \<le> 2 ^ k" by (intro power_increasing) simp_all
    then show False using u unat_less_exp [of "ende - start"] by simp
  qed
  have e: "ende - start = push_bit k 1"
    using u unat_pow2 [OF k] by (simp only: push_bit_of_1 word_unat_eq_iff)
  have "builtin_ctz (ende - start) = k"
    using ctz_spec(2) [OF assms(2)] k unfolding e by (simp only: bit_push_bit_iff bit_1_iff) simp
  moreover have "start AND (ende - start - 1) = 0"
    unfolding e shl_minus_1
  proof (rule bit_word_eqI)
    fix i assume "i < LENGTH(32)"
    show "bit (start AND mask k) i \<longleftrightarrow> bit (0::u32) i"
      using dvd_low_bits [OF assms(4), of i] unfolding bit_and_iff bit_mask_iff by auto
  qed
  ultimately show ?thesis using e by simp
qed

lemma div_pow_mono: "x div 2 ^ m = y div (2::nat) ^ m \<Longrightarrow> m \<le> n \<Longrightarrow> x div 2 ^ n = y div 2 ^ n"
proof -
  assume a: "x div 2 ^ m = y div (2::nat) ^ m" "m \<le> n"
  have "z div (2::nat) ^ n = z div 2 ^ m div 2 ^ (n - m)" for z
    using a(2) by (simp add: div_mult2_eq [symmetric] power_add [symmetric])
  then show ?thesis using a(1) by simp
qed

lemma two_regions_adds:
  assumes "table_ok idx s" "attr_clean t" "8 \<le> k" "k < 32" "2 ^ (k - 3) dvd unat start" "2 ^ (k - 3) dvd top_of ende" "unat start < top_of ende"
    "unat start div 2 ^ Suc k = (top_of ende - 1) div 2 ^ Suc k" "unat start div 2 ^ k \<noteq> (top_of ende - 1) div 2 ^ k"
    and m: "mid = (start AND NOT (push_bit k 1 - 1)) + (push_bit k 1 - 1) + 1"
  shows "adds (in_range start ende) t idx s
    (case mpu_regionCalculateAndSet idx start mid k t s of
       (Inl e, idx1, s1) \<Rightarrow> (Inl e, idx1, s1)
     | (Inr _, idx1, s1) \<Rightarrow> mpu_regionCalculateAndSet idx1 mid ende k t s1)"
proof -
  let ?q = "unat start div 2 ^ k" let ?m = "(?q + 1) * 2 ^ k"
  have hi: "(top_of ende - 1) div 2 ^ k = ?q + 1"
  proof -
    have "x div 2 ^ Suc k = x div 2 ^ k div 2" for x :: nat by (simp add: div_mult2_eq [symmetric] mult.commute)
    then have h: "?q div 2 = (top_of ende - 1) div 2 ^ k div 2" using assms(8) by simp
    have "?q \<le> (top_of ende - 1) div 2 ^ k" using assms(7) by (intro div_le_mono) simp
    then show ?thesis using h assms(9) by linarith
  qed
  have lt: "?m \<le> top_of ende - 1" using hi by (metis div_mult_mod_eq le_add1)
  have t32: "top_of ende \<le> 2 ^ 32" using unat_less_exp [of ende] by (simp add: top_of_def)
  have um: "unat mid = ?m"
  proof -
    have p: "unat (2 ^ k :: u32) = 2 ^ k" by (rule unat_pow2 [OF assms(4)])
    have "mid = (start AND NOT (mask k)) + 2 ^ k" by (simp add: m shl_minus_1 mask_eq_exp_minus_1)
    moreover have "unat (start AND NOT (mask k)) + unat (2 ^ k :: u32) = ?m" unfolding p unat_and_not_mask by simp
    moreover have "?m < 2 ^ 32" using lt t32 assms(7) by linarith
    ultimately show ?thesis using unat_plus_small [of "start AND NOT (mask k)" "2 ^ k"] by simp
  qed
  have tm: "top_of mid = ?m" using um by (auto simp: top_of_def)
  have g: "2 ^ (k - 3) dvd ?m" by (intro dvd_mult) (simp add: le_imp_power_dvd)
  have "unat start = ?q * 2 ^ k + unat start mod 2 ^ k" "unat start mod 2 ^ k < 2 ^ k" by (simp_all only: div_mult_mod_eq) simp
  moreover have mq: "?m = ?q * 2 ^ k + 2 ^ k" by simp
  ultimately have s1: "unat start < ?m" by linarith
  have b1: "unat start div 2 ^ k = (?m - 1) div 2 ^ k"
  proof -
    have "?m - 1 = (2 ^ k - 1) + ?q * 2 ^ k" unfolding mq by simp
    moreover have "((2 ^ k - 1) + ?q * 2 ^ k) div 2 ^ k = ?q" by (subst div_mult_self1) simp_all
    ultimately show ?thesis by simp
  qed
  have a1: "adds (in_range start mid) t idx s (mpu_regionCalculateAndSet idx start mid k t s)"
    by (rule calc_adds [OF assms(1-3) less_imp_le [OF assms(4)] assms(5) g [folded tm] s1 [folded tm] b1 [folded tm]])
  obtain res i1 s1 where r: "mpu_regionCalculateAndSet idx start mid k t s = (res, i1, s1)" by (metis prod_cases3)
  show ?thesis
  proof (cases res)
    case (Inl e)
    then show ?thesis using a1 r by (simp add: adds_def)
  next
    case (Inr u)
    then have a1': "adds (in_range start mid) t idx s (Inr (), i1, s1)" "table_ok i1 s1" using a1 r by (simp_all add: adds_def)
    have "unat mid < top_of ende" "unat mid div 2 ^ k = (top_of ende - 1) div 2 ^ k" unfolding um hi using lt assms(7) by linarith simp
    then have "adds (in_range mid ende) t i1 s1 (mpu_regionCalculateAndSet i1 mid ende k t s1)"
      by (rule calc_adds [OF a1'(2) assms(2,3) less_imp_le [OF assms(4)] g [folded um] assms(6)])
    from adds_then [OF a1'(1) this] have "adds (\<lambda>a. in_range start mid a \<or> in_range mid ende a) t idx s (mpu_regionCalculateAndSet i1 mid ende k t s1)" .
    then have "adds (in_range start ende) t idx s (mpu_regionCalculateAndSet i1 mid ende k t s1)"
      by (rule adds_cong) (use um tm s1 lt in \<open>auto simp: in_range_nat\<close>)
    then show ?thesis using r Inr by simp
  qed
qed

text \<open>The case in which the range is cut out of a larger one, and what is tried there.\<close>

definition hole_case :: "u32 \<Rightarrow> u32 \<Rightarrow> u32 \<Rightarrow> nat \<Rightarrow> nat \<Rightarrow> bool" where
  "hole_case start ende t T M \<longleftrightarrow> unat start + 1 < top_of ende \<and> 5 \<le> T \<and> T + 5 \<le> M \<and> M \<le> 32 \<and> t \<noteq> HOLE_ATTR t \<and>
     2 ^ T dvd unat start \<and> 2 ^ T dvd top_of ende \<and> \<not> (2 ^ Suc T dvd unat start \<and> 2 ^ Suc T dvd top_of ende) \<and>
     unat start div 2 ^ M = (top_of ende - 1) div 2 ^ M"

definition cut_out :: "nat \<Rightarrow> u32 \<Rightarrow> u32 \<Rightarrow> nat \<Rightarrow> u32 \<Rightarrow> mpu_common_t \<Rightarrow> (errno + unit) \<times> nat \<times> mpu_common_t" where
  "cut_out idx start ende M t s =
     (case (if start AND NOT (push_bit (M - 3) 1 - 1) = start then
              let alignedEnd = (ende AND NOT (push_bit (M - 3) 1 - 1)) + (push_bit (M - 3) 1 - 1) + 1 in Some (start, alignedEnd, ende, alignedEnd)
            else if ende AND NOT (push_bit (M - 3) 1 - 1) = ende then
              let alignedStart = start AND NOT (push_bit (M - 3) 1 - 1) in Some (alignedStart, ende, alignedStart, start)
            else None) of
        None \<Rightarrow> (Inl EPERM, idx, s)
      | Some (alignedStart, alignedEnd, holeStart, holeEnd) \<Rightarrow>
          if mpu_checkOverlap idx holeStart holeEnd s then (Inl EPERM, idx, s)
          else case mpu_regionCalculateAndSet idx alignedStart alignedEnd M t s of
                 (Inl e, idx1, s1) \<Rightarrow> (Inl e, idx1, s1)
               | (Inr _, idx1, s1) \<Rightarrow> mpu_regionGenerate idx1 holeStart holeEnd (HOLE_ATTR t) s1)"

lemma generate_cases:
  assumes "table_ok idx s" "attr_clean t" "\<not> too_big start ende"
  obtains (direct) "adds (in_range start ende) t idx s (mpu_regionGenerate idx start ende t s)"
    | (hole) T M where "hole_case start ende t T M" "mpu_regionGenerate idx start ende t s = cut_out idx start ende M t s"
proof -
  let ?sz = "ende - start"
  define T where "T = builtin_ctz (start OR ende)"
  define M where "M = 32 - builtin_clz (start XOR (ende - 1))"
  note e = mpu_regionGenerate.simps [of idx start ende t s, folded T_def M_def, unfolded Let_def]
  note inl = adds_Inl [OF assms(1)]
  consider (bad) "ende \<noteq> 0 \<and> ende \<le> start" | (full) "\<not> (ende \<noteq> 0 \<and> ende \<le> start)" "?sz = 0"
    | (pow) "\<not> (ende \<noteq> 0 \<and> ende \<le> start)" "?sz \<noteq> 0" "?sz = push_bit (builtin_ctz ?sz) 1 \<and> start AND (?sz - 1) = 0"
    | (other) "\<not> (ende \<noteq> 0 \<and> ende \<le> start)" "?sz \<noteq> 0" "\<not> (?sz = push_bit (builtin_ctz ?sz) 1 \<and> start AND (?sz - 1) = 0)" by blast
  then show thesis
  proof cases
    case bad
    then show thesis using direct inl unfolding e if_P [OF bad] by blast
  next
    case full
    then have z: "ende = 0" "start = 0" by auto
    have "adds (in_range start ende) t idx s (mpu_regionSet idx start 0 32 t s)"
      using z by (intro pow2_adds [OF assms(1,2)]) (simp_all add: top_of_def)
    then show thesis by (intro direct) (unfold e if_not_P [OF full(1)] if_P [OF full(2)], simp add: z)
  next
    case pow
    let ?k = "builtin_ctz ?sz"
    note p = pow2_size [OF pow(1,2) conjunct1 [OF pow(3)] conjunct2 [OF pow(3)]]
    have "adds (in_range start ende) t idx s (if ?sz < 32 then (Inl EPERM, idx, s) else mpu_regionSet idx start 0 ?k t s)"
    proof (cases "?sz < 32")
      case False
      have u: "unat ?sz = 2 ^ ?k" using size_nat(2) [OF pow(1,2)] p(1) by simp
      have "\<not> ?k < 5"
      proof
        assume "?k < 5"
        then have "(2::nat) ^ ?k < 2 ^ 5" by (intro power_strict_increasing) simp_all
        then show False using False u by (simp add: word_less_nat_alt)
      qed
      then show ?thesis
        using False ctz_spec(1) [OF pow(2)] p by (simp only: if_False) (intro pow2_adds [OF assms(1,2)], simp_all)
    qed (simp add: inl)
    then show thesis using direct unfolding e if_not_P [OF pow(1)] if_not_P [OF pow(2)] if_P [OF pow(3)] by blast
  next
    case other
    note sz = size_nat [OF other(1,2)]
    have np: "\<not> (\<exists>k. top_of ende = unat start + 2 ^ k \<and> 2 ^ k dvd unat start)" using pow2_size_conv [OF other(1,2)] other(3) by blast
    then have "top_of ende \<noteq> unat start + 2 ^ 0" by fastforce
    then have s1: "unat start + 1 < top_of ende" using sz(1) by simp
    have nz: "start OR ende \<noteq> 0" using other(2) by (auto simp: or_eq_0_iff)
    note tr = trailing_spec [OF nz T_def] and cm = common_spec [OF s1 M_def]
    have T29: "T \<le> 29" using not_too_big [OF sz(1) np nz assms(3), folded T_def] by (cases "30 \<le> T") auto
    note e' = e [unfolded if_not_P [OF other(1)] if_not_P [OF other(2)] if_not_P [OF other(3)]]
    consider "T < 5" | "5 \<le> T" "int M - int T \<le> 3" | "5 \<le> T" "int M - int T = 4" | "5 \<le> T" "4 < int M - int T" "t = HOLE_ATTR t"
      | "5 \<le> T" "4 < int M - int T" "t \<noteq> HOLE_ATTR t" by linarith
    then show thesis
    proof cases
      case 1
      then show thesis by (intro direct) (use inl in \<open>simp add: e'\<close>)
    next
      case 2
      have "adds (in_range start ende) t idx s (mpu_regionCalculateAndSet idx start ende (T + 3) t s)"
        using 2 tr sz(1) div_pow_mono [OF cm(3), of "T + 3"] T29 by (intro calc_adds [OF assms(1,2)]) simp_all
      then show thesis by (intro direct) (use 2 in \<open>simp add: e'\<close>)
    next
      case 3
      then have M: "M = Suc (T + 3)" by linarith
      have "adds (in_range start ende) t idx s
        (case mpu_regionCalculateAndSet idx start ((start AND NOT (push_bit (T + 3) 1 - 1)) + (push_bit (T + 3) 1 - 1) + 1) (T + 3) t s of
           (Inl e, idx1, s1) \<Rightarrow> (Inl e, idx1, s1)
         | (Inr _, idx1, s1) \<Rightarrow> mpu_regionCalculateAndSet idx1 ((start AND NOT (push_bit (T + 3) 1 - 1)) + (push_bit (T + 3) 1 - 1) + 1) ende (T + 3) t s1)"
        using 3(1) tr(2,3) sz(1) cm(2-4) M by (intro two_regions_adds [OF assms(1,2)]) (simp_all add: add.commute)
      then show thesis by (intro direct) (use 3 in \<open>simp add: e'\<close>)
    next
      case 4
      then show thesis by (intro direct) (use inl in \<open>simp add: e'\<close>)
    next
      case 5
      then have "hole_case start ende t T M" using s1 cm tr(2-4) by (simp add: hole_case_def)
      moreover have "mpu_regionGenerate idx start ende t s = cut_out idx start ende M t s" using 5 by (simp add: e' cut_out_def Let_def)
      ultimately show thesis by (rule hole)
    qed
  qed
qed

section \<open>The overlap check\<close>

lemma overlap_subs_hit:
  assumes "j < n" "\<not> bit subs j" "unat sr + n * 2 ^ (k - 3) \<le> 2 ^ 32" "unat sr + j * 2 ^ (k - 3) \<le> unat a" "unat a < unat sr + Suc j * 2 ^ (k - 3)"
    "start \<le> a" "a \<le> ende" "k \<le> 32"
  shows "overlap_subs n sr k subs start ende"
  using assms
proof (induction n arbitrary: sr subs j)
  case (Suc n)
  let ?g = "2 ^ (k - 3) :: nat" and ?w = "push_bit (k - 3) 1 :: u32"
  have g: "unat ?w = ?g" using Suc.prems(8) unat_pow2 [of "k - 3"] by (simp add: push_bit_of_1)
  have sum: "unat sr + ?g \<le> 2 ^ 32" "0 < ?g" using Suc.prems(3) by simp_all
  have se: "unat (sr + ?w - 1) = unat sr + ?g - 1"
  proof (cases "unat sr + ?g = 2 ^ 32")
    case True
    have "sr + ?w = 0" using True g by (simp add: word_unat_eq_iff unat_word_ariths)
    then show ?thesis using True by (simp add: unsigned_minus_1_eq_mask mask_eq_exp_minus_1)
  next
    case False
    then have "unat (sr + ?w) = unat sr + ?g" using sum g unat_plus_small [of sr ?w] by simp
    moreover have "1 \<le> unat sr + ?g" using sum(2) by linarith
    ultimately show ?thesis by (subst unat_minus_small) (simp_all only: word_le_nat_alt unat_1)
  qed
  have b0: "subs AND 1 = 0 \<longleftrightarrow> \<not> bit subs 0" by (simp add: and_one_eq mod2_eq_if bit_0)
  show ?case
  proof (cases j)
    case 0
    then have "unat a \<le> unat (sr + ?w - 1)" "unat sr \<le> unat a" using Suc.prems(4,5) se sum(2) by simp_all
    then have "start \<le> sr + ?w - 1" "sr \<le> ende" using Suc.prems(6,7) by (simp_all add: word_le_nat_alt)
    then show ?thesis using Suc.prems(2) 0 b0 by (simp add: Let_def)
  next
    case (Suc j')
    have n: "j' < n" using Suc.prems(1) Suc by simp
    then have "?g \<le> n * ?g" by (cases n) simp_all
    moreover have "unat sr + (?g + n * ?g) \<le> 2 ^ 32" using Suc.prems(3) by simp
    ultimately have lt: "unat sr + ?g < 2 ^ 32" using sum(2) by linarith
    then have u: "unat (sr + ?w) = unat sr + ?g" using g unat_plus_small [of sr ?w] by simp
    have "overlap_subs n (sr + ?w) k (drop_bit 1 subs) start ende"
      using Suc.prems Suc n u by (intro Suc.IH [of j']) (simp_all add: bit_drop_bit_eq)
    then show ?thesis by (simp add: Let_def)
  qed
qed simp

lemma overlap_region_hit:
  assumes "entry_ok r" "region_hit r a" "start \<le> a" "a \<le> ende"
  shows "overlap_region r start ende"
proof -
  let ?k = "region_bits r" let ?g = "2 ^ (?k - 3) :: nat" and ?B = "unat (rbar r) div 2 ^ ?k * 2 ^ ?k"
  have k: "5 \<le> ?k" "?k \<le> 32"
  proof -
    have "drop_bit 1 (rasr r) AND 0x1f = take_bit 5 (drop_bit 1 (rasr r))" unfolding mask_5 by (simp only: take_bit_eq_mask)
    then have "unat (drop_bit 1 (rasr r) AND 0x1f) = unat (drop_bit 1 (rasr r)) mod 2 ^ 5" by (simp only: unat_take)
    moreover have "unat (drop_bit 1 (rasr r)) mod 2 ^ 5 < 2 ^ 5" by (rule mod_less_divisor) simp
    ultimately show "?k \<le> 32" by (simp add: region_bits_def)
  qed (use assms(1) in \<open>simp add: entry_ok_def\<close>)
  have h: "bit (rasr r) 0" "unat a div 2 ^ ?k = unat (rbar r) div 2 ^ ?k" "?k < 8 \<or> \<not> bit (region_srd r) (unat a div ?g mod 8)"
    using assms(2) by (simp_all add: region_hit_def)
  have p: "(2::nat) ^ ?k = 8 * ?g"
  proof -
    have "(2::nat) ^ ?k = 2 ^ (3 + (?k - 3))" using k by simp
    then show ?thesis by (simp only: power_add) simp
  qed
  let ?j = "unat a div ?g mod 8"
  have r: "x * 2 ^ ?k + y * ?g = (8 * x + y) * ?g" for x y unfolding p by (simp add: algebra_simps)
  have "unat a div ?g = 8 * (unat a div 2 ^ ?k) + ?j" unfolding p by (subst mult.commute [of 8], subst div_mult2_eq) simp
  then have q: "?B + ?j * ?g = unat a div ?g * ?g" unfolding h(2) [symmetric] r by simp
  have "unat a div ?g * ?g \<le> unat a" "unat a < unat a div ?g * ?g + ?g"
    using div_mult_mod_eq [of "unat a" ?g] mod_less_divisor [of ?g "unat a", OF zero_less_power [OF zero_less_numeral]] by linarith+
  then have loc: "?B + ?j * ?g \<le> unat a" "unat a < ?B + Suc ?j * ?g" using q by simp_all
  have srd: "\<not> bit (region_srd r) ?j" using h(3) assms(1) by (auto simp: entry_ok_def)
  have top: "?B + 8 * ?g \<le> 2 ^ 32"
  proof -
    have "2 ^ ?k dvd (2::nat) ^ 32" using k(2) by (rule le_imp_power_dvd)
    then obtain m where m: "(2::nat) ^ 32 = 2 ^ ?k * m" by blast
    have "unat (rbar r) < 2 ^ ?k * m" using unat_less_exp [of "rbar r"] m by simp
    then have "unat (rbar r) div 2 ^ ?k < m" by (simp add: less_mult_imp_div_less mult.commute)
    then have "(unat (rbar r) div 2 ^ ?k + 1) * 2 ^ ?k \<le> m * 2 ^ ?k" by (intro mult_le_mono1) simp
    then show ?thesis using m p by (simp add: algebra_simps)
  qed
  have "(ucast (drop_bit 8 (rasr r) AND 0xff) :: u8) = region_srd r"
    unfolding region_srd_def mask_8 by (rule bit_word_eqI) (auto simp: bit_ucast_iff bit_and_iff bit_mask_iff)
  moreover have "overlap_subs 8 (rbar r AND NOT (push_bit ?k 1 - 1)) ?k (region_srd r) start ende"
    using loc top srd assms(3,4) k(2) by (intro overlap_subs_hit [of ?j]) (simp_all only: shl_minus_1 unat_and_not_mask mod_less_divisor zero_less_numeral not_False_eq_True)
  moreover have "rbar r AND 0x10 \<noteq> 0"
  proof -
    have "bit (rbar r AND push_bit 4 1) 4" using assms(1) unfolding bit_and_iff bit_push_bit_iff by (simp add: entry_ok_def)
    then show ?thesis by auto
  qed
  moreover have "rasr r AND 1 \<noteq> 0" using h(1) by (simp add: and_one_eq mod2_eq_if bit_0)
  ultimately show ?thesis unfolding overlap_region_def Let_def region_bits_def [symmetric] by auto
qed

lemma no_overlap:
  assumes "table_ok idx s" "\<not> mpu_checkOverlap idx hs he s" "in_range hs he a"
  shows "mpu_lookup (mc_region s) a = None"
proof (rule lookup_off)
  fix r assume "r \<in> set (mc_region s)"
  then obtain i where i: "i < 16" "r = mc_region s ! i" using assms(1) by (auto simp: in_set_conv_nth table_ok_def)
  have "unat a \<le> unat (he - 1)" using assms(3) unfolding in_range_nat top_minus_1 by linarith
  then have b: "hs \<le> a" "a \<le> he - 1" using assms(3) by (simp_all add: word_le_nat_alt in_range_nat)
  show "\<not> region_hit r a"
  proof (cases "i < idx")
    case True
    then have "r \<in> set (take idx (mc_region s))" "entry_ok r" using i assms(1) by (auto simp: in_set_conv_nth table_ok_def)
    then have "\<not> overlap_region r hs (he - 1)" using assms(2) by (auto simp: mpu_checkOverlap_def list_ex_iff)
    then show ?thesis using overlap_region_hit [OF \<open>entry_ok r\<close> _ b] by blast
  next
    case False
    then show ?thesis using i assms(1) by (auto simp: region_hit_def table_ok_def)
  qed
qed

section \<open>Ranges with a hole\<close>

text \<open>The rights an entry gives; none when it is a hole.\<close>

definition access_of :: "u32 option \<Rightarrow> u32 option" where
  "access_of e = (case e of None \<Rightarrow> None | Some t \<Rightarrow> if t AND 0x07000000 = 0 then None else Some t)"

lemma mpu_granted_access: "mpu_granted s a = access_of (mpu_lookup (mc_region s) a)"
  by (simp add: mpu_granted_def access_of_def)

definition grants :: "(u32 \<Rightarrow> bool) \<Rightarrow> u32 \<Rightarrow> nat \<Rightarrow> mpu_common_t \<Rightarrow> (errno + unit) \<times> nat \<times> mpu_common_t \<Rightarrow> bool" where
  "grants P t idx s = (\<lambda>(res, idx', s'). table_ok idx' s' \<and> same_but idx idx' s s' \<and>
     (res = Inr () \<longrightarrow> idx < idx' \<and> (\<forall>a. mpu_granted s' a = (if bit t 0 \<and> P a then access_of (Some t) else mpu_granted s a))))"

lemma adds_grants: "adds P t idx s r \<Longrightarrow> grants P t idx s r"
  by (auto simp: adds_def grants_def mpu_granted_access)

lemma HOLE_ATTR_cases: "HOLE_ATTR t = (if bit t 0 then 1 else 0)"
  by (simp add: HOLE_ATTR_def and_one_eq mod2_eq_if bit_0)

lemma HOLE_facts: "attr_clean (HOLE_ATTR t)" "bit (HOLE_ATTR t) 0 \<longleftrightarrow> bit t 0" "access_of (Some (HOLE_ATTR t)) = None"
  by (simp_all add: HOLE_ATTR_cases attr_clean_bits bit_1_iff access_of_def)

lemma cut_grants:
  assumes "table_ok idx s" "attr_clean t" "8 \<le> M" "M \<le> 32" "2 ^ (M - 3) dvd unat sA" "2 ^ (M - 3) dvd top_of eA" "unat sA < top_of eA"
    "unat sA div 2 ^ M = (top_of eA - 1) div 2 ^ M"
    and rng: "\<And>a. in_range sA eA a \<longleftrightarrow> in_range start ende a \<or> in_range hs he a" "\<And>a. \<not> (in_range start ende a \<and> in_range hs he a)"
    and "\<not> too_big hs he"
  shows "grants (in_range start ende) t idx s
    (if mpu_checkOverlap idx hs he s then (Inl EPERM, idx, s)
     else case mpu_regionCalculateAndSet idx sA eA M t s of
            (Inl e, idx1, s1) \<Rightarrow> (Inl e, idx1, s1)
          | (Inr _, idx1, s1) \<Rightarrow> mpu_regionGenerate idx1 hs he (HOLE_ATTR t) s1)"
proof (cases "mpu_checkOverlap idx hs he s")
  case True
  then show ?thesis using adds_grants [OF adds_Inl [OF assms(1)]] by simp
next
  case False
  note a1 = calc_adds [OF assms(1-8)]
  obtain res i1 s1 where r: "mpu_regionCalculateAndSet idx sA eA M t s = (res, i1, s1)" by (metis prod_cases3)
  show ?thesis
  proof (cases res)
    case (Inl e)
    then show ?thesis using a1 r False by (simp add: adds_def grants_def)
  next
    case (Inr u)
    then have t1: "table_ok i1 s1" "same_but idx i1 s s1" "idx < i1"
      and l1: "\<And>a. mpu_lookup (mc_region s1) a = (if bit t 0 \<and> in_range sA eA a then Some t else mpu_lookup (mc_region s) a)"
      using a1 r by (simp_all add: adds_def)
    have a2: "adds (in_range hs he) (HOLE_ATTR t) i1 s1 (mpu_regionGenerate i1 hs he (HOLE_ATTR t) s1)"
      by (rule generate_cases [OF t1(1) HOLE_facts(1) [of t] assms(11)]) (simp_all add: hole_case_def)
    obtain res' i2 s2 where r2: "mpu_regionGenerate i1 hs he (HOLE_ATTR t) s1 = (res', i2, s2)" by (metis prod_cases3)
    have g: "mpu_granted s2 a = (if bit t 0 \<and> in_range start ende a then access_of (Some t) else mpu_granted s a)" if "res' = Inr ()" for a
    proof -
      have l2: "mpu_lookup (mc_region s2) a = (if bit t 0 \<and> in_range hs he a then Some (HOLE_ATTR t) else mpu_lookup (mc_region s1) a)"
        using a2 r2 that by (simp add: adds_def HOLE_facts)
      show ?thesis
        using l1 [of a] l2 rng [of a] no_overlap [OF assms(1) False, of a] HOLE_facts(3) [of t]
        by (cases "bit t 0"; cases "in_range hs he a") (auto simp: mpu_granted_access access_of_def [of None])
    qed
    have "grants (in_range start ende) t idx s (res', i2, s2)"
      using a2 r2 t1 g same_but_trans [OF t1(2)] by (auto simp: adds_def grants_def)
    then show ?thesis using False r r2 Inr by simp
  qed
qed

lemma and_not_mask_self: "x AND NOT (mask k) = (x :: u32) \<longleftrightarrow> 2 ^ k dvd unat x"
proof -
  have "x AND NOT (mask k) = x \<longleftrightarrow> unat x div 2 ^ k * 2 ^ k = unat x" by (metis unat_and_not_mask word_unat_eq_iff)
  also have "\<dots> \<longleftrightarrow> 2 ^ k dvd unat x" by (metis dvd_div_mult_self dvd_triv_right)
  finally show ?thesis .
qed

lemma block_eqI: "q * d \<le> x \<Longrightarrow> x < q * d + d \<Longrightarrow> x div d = (q::nat)"
  by (intro div_nat_eqI) (simp_all add: mult.commute)

lemma small_not_too_big: "unat hs < top_of he \<Longrightarrow> top_of he - unat hs < 2 ^ 31 \<Longrightarrow> \<not> too_big hs he"
  by (auto simp: too_big_def top_of_def)

lemma cut_end:
  assumes h: "hole_case start ende t T M" and al: "2 ^ (M - 3) dvd unat start"
    and eA: "eA = (ende AND NOT (mask (M - 3))) + mask (M - 3) + 1"
  shows "2 ^ (M - 3) dvd top_of eA" "unat start < top_of eA" "unat start div 2 ^ M = (top_of eA - 1) div 2 ^ M"
    "top_of ende = unat ende" "unat ende < top_of eA" "top_of eA - unat ende < 2 ^ 31"
proof -
  let ?D = "2 ^ (M - 3) :: nat"
  have hc: "T + 2 \<le> M - 3" "M - 3 \<le> 29" "unat start + 1 < top_of ende" "unat start div 2 ^ M = (top_of ende - 1) div 2 ^ M"
      "\<not> (2 ^ Suc T dvd unat start \<and> 2 ^ Suc T dvd top_of ende)"
    using h by (auto simp: hole_case_def)
  have TD: "(2::nat) ^ Suc T dvd ?D" using hc(1) by (intro le_imp_power_dvd) simp
  have nd: "\<not> ?D dvd top_of ende" using hc(5) dvd_trans [OF TD al] dvd_trans [OF TD] by blast
  have nz: "ende \<noteq> 0" using nd top_dvd [of "M - 3" ende] hc(2) by auto
  then show te: "top_of ende = unat ende" by (simp add: top_of_def)
  let ?q = "unat ende div ?D"
  have m: "?q * ?D + unat ende mod ?D = unat ende" "unat ende mod ?D < ?D" "unat ende mod ?D \<noteq> 0" using nd te div_mult_mod_eq [of "unat ende" ?D] by (simp_all add: dvd_eq_mod_eq_0)
  have D: "unat (2 ^ (M - 3) :: u32) = ?D" using hc(2) by (intro unat_pow2) simp
  have eA': "eA = (ende AND NOT (mask (M - 3))) + 2 ^ (M - 3)" by (simp add: eA mask_eq_exp_minus_1)
  have u: "unat (ende AND NOT (mask (M - 3))) + unat (2 ^ (M - 3) :: u32) = (?q + 1) * ?D" unfolding D unat_and_not_mask by simp
  have le: "(?q + 1) * ?D \<le> 2 ^ 32"
  proof -
    have "?D dvd (2::nat) ^ 32" using hc(2) by (intro le_imp_power_dvd) simp
    then obtain n where n: "(2::nat) ^ 32 = ?D * n" by blast
    then have "?q < n" using unat_less_exp [of ende] by (simp add: less_mult_imp_div_less mult.commute)
    then have "(?q + 1) * ?D \<le> n * ?D" by (intro mult_le_mono1) simp
    then show ?thesis using n by (simp add: mult.commute)
  qed
  have A: "top_of eA = (?q + 1) * ?D"
  proof (cases "(?q + 1) * ?D = 2 ^ 32")
    case True
    have "eA = 0" unfolding eA' word_unat_eq_iff unat_word_ariths u True by simp
    then show ?thesis using True by (simp add: top_of_def)
  next
    case False
    then have "unat eA = (?q + 1) * ?D" using u le unat_plus_small [of "ende AND NOT (mask (M - 3))" "2 ^ (M - 3)"] unfolding eA' by simp
    then show ?thesis by (auto simp: top_of_def)
  qed
  have A': "top_of eA = ?q * ?D + ?D" unfolding A by simp
  show "?D dvd top_of eA" unfolding A by simp
  show lt: "unat ende < top_of eA" unfolding A' using m by linarith
  then show "unat start < top_of eA" using hc(3) te by linarith
  have "?D < 2 ^ 31" using hc(2) by (intro power_strict_increasing) simp_all
  then show "top_of eA - unat ende < 2 ^ 31" unfolding A' using m by linarith
  have "(unat ende - 1) div ?D = ?q" using m by (intro block_eqI) linarith+
  moreover have "(top_of eA - 1) div ?D = ?q" unfolding A' using m(2) by (intro block_eqI) linarith+
  ultimately have "(top_of eA - 1) div ?D = (unat ende - 1) div ?D" by simp
  from div_pow_mono [OF this, of M] have "(top_of eA - 1) div 2 ^ M = (unat ende - 1) div 2 ^ M" by simp
  then show "unat start div 2 ^ M = (top_of eA - 1) div 2 ^ M" using hc(4) te by simp
qed

lemma cut_start:
  assumes h: "hole_case start ende t T M" and al: "\<not> 2 ^ (M - 3) dvd unat start" and sA: "sA = start AND NOT (mask (M - 3))"
  shows "2 ^ (M - 3) dvd unat sA" "unat sA < unat start" "unat sA div 2 ^ M = (top_of ende - 1) div 2 ^ M" "top_of start = unat start" "unat start - unat sA < 2 ^ 31"
proof -
  let ?D = "2 ^ (M - 3) :: nat"
  have hc: "M - 3 \<le> 29" "unat start div 2 ^ M = (top_of ende - 1) div 2 ^ M" using h by (auto simp: hole_case_def)
  have u: "unat sA = unat start div ?D * ?D" by (simp add: sA unat_and_not_mask)
  have m: "unat start div ?D * ?D + unat start mod ?D = unat start" "unat start mod ?D < ?D" "unat start mod ?D \<noteq> 0" using al div_mult_mod_eq [of "unat start" ?D] by (simp_all add: dvd_eq_mod_eq_0)
  show "?D dvd unat sA" "unat sA < unat start" unfolding u using m by simp_all
  have "?D < 2 ^ 31" using hc(1) by (intro power_strict_increasing) simp_all
  then show "unat start - unat sA < 2 ^ 31" unfolding u using m by linarith
  show "top_of start = unat start" using al by (auto simp: top_of_def)
  have "unat sA div ?D = unat start div ?D" unfolding u by simp
  from div_pow_mono [OF this, of M] have "unat sA div 2 ^ M = unat start div 2 ^ M" by simp
  then show "unat sA div 2 ^ M = (top_of ende - 1) div 2 ^ M" using hc(2) by simp
qed

lemma generate_grants:
  assumes "table_ok idx s" "attr_clean t" "\<not> too_big start ende"
  shows "grants (in_range start ende) t idx s (mpu_regionGenerate idx start ende t s)"
  using assms
proof (cases rule: generate_cases)
  case direct
  then show ?thesis by (rule adds_grants)
next
  case (hole T M)
  have hc: "8 \<le> M" "M \<le> 32" "unat start < top_of ende" using hole(1) by (simp_all add: hole_case_def)
  show ?thesis
  proof (cases "2 ^ (M - 3) dvd unat start")
    case True
    let ?eA = "(ende AND NOT (mask (M - 3))) + mask (M - 3) + 1"
    note c = cut_end [OF hole(1) True refl]
    have "\<not> too_big ende ?eA" using c by (intro small_not_too_big) simp_all
    then have "grants (in_range start ende) t idx s
      (if mpu_checkOverlap idx ende ?eA s then (Inl EPERM, idx, s)
       else case mpu_regionCalculateAndSet idx start ?eA M t s of
              (Inl e, idx1, s1) \<Rightarrow> (Inl e, idx1, s1)
            | (Inr _, idx1, s1) \<Rightarrow> mpu_regionGenerate idx1 ende ?eA (HOLE_ATTR t) s1)"
      using c(4,5) hc(3) by (intro cut_grants [OF assms(1,2) hc(1,2) True c(1-3)]) (auto simp: in_range_nat)
    then show ?thesis unfolding hole(2) cut_out_def shl_minus_1 if_P [OF iffD2 [OF and_not_mask_self True]] Let_def by simp
  next
    case False
    let ?sA = "start AND NOT (mask (M - 3))"
    note c = cut_start [OF hole(1) False refl]
    have ns: "\<not> start AND NOT (mask (M - 3)) = start" using False and_not_mask_self by blast
    have tb: "\<not> too_big ?sA start" using c by (intro small_not_too_big) simp_all
    show ?thesis
    proof (cases "ende AND NOT (mask (M - 3)) = ende")
      case True
      then have d: "2 ^ (M - 3) dvd top_of ende" using hc(2) top_dvd [of "M - 3" ende] by (simp add: and_not_mask_self)
      have lt: "unat ?sA < top_of ende" using c(2) hc(3) by linarith
      have "grants (in_range start ende) t idx s
        (if mpu_checkOverlap idx ?sA start s then (Inl EPERM, idx, s)
         else case mpu_regionCalculateAndSet idx ?sA ende M t s of
                (Inl e, idx1, s1) \<Rightarrow> (Inl e, idx1, s1)
              | (Inr _, idx1, s1) \<Rightarrow> mpu_regionGenerate idx1 ?sA start (HOLE_ATTR t) s1)"
        using c(2,4) hc(3) tb by (intro cut_grants [OF assms(1,2) hc(1,2) c(1) d lt c(3)]) (auto simp: in_range_nat)
      then show ?thesis unfolding hole(2) cut_out_def shl_minus_1 if_not_P [OF ns] if_P [OF True] Let_def by simp
    next
      case nf: False
      show ?thesis unfolding hole(2) cut_out_def shl_minus_1 if_not_P [OF ns] if_not_P [OF nf] using adds_grants [OF adds_Inl [OF assms(1)]] by simp
    qed
  qed
qed

end
