(* ===== verification/Mpu_Props.thy ===== *)
theory Mpu_Props
  imports Mpu_Regions
begin

text \<open>
  Allocation of regions for maps, the contract of a protection unit (locale \<open>protection\<close>) and what follows for a run of requests.
\<close>

section \<open>Allocation for a map\<close>

lemma attr_clean_or: "attr_clean x \<Longrightarrow> attr_clean y \<Longrightarrow> attr_clean (x OR y)"
  by (auto simp: attr_clean_bits bit_or_iff)

lemma attr_clean_push: "16 \<le> n \<Longrightarrow> attr_clean (push_bit n x)"
  by (auto simp: attr_clean_bits bit_push_bit_iff)

lemma regionAttrs_facts:
  "attr_clean (mpu_regionAttrs ab attr enable)" "bit (mpu_regionAttrs ab attr enable) 0 \<longleftrightarrow> enable"
  "access_of (Some (mpu_regionAttrs ab attr enable)) = Some (mpu_regionAttrs ab attr enable)"
proof -
  let ?t = "mpu_regionAttrs ab attr enable"
  have one: "attr_clean (if enable then 1 else 0)" by (simp add: attr_clean_bits bit_1_iff)
  show "attr_clean ?t" unfolding mpu_regionAttrs_def Let_def by (intro attr_clean_or attr_clean_push one) simp_all
  show "bit ?t 0 \<longleftrightarrow> enable" unfolding mpu_regionAttrs_def Let_def bit_or_iff bit_push_bit_iff by simp
  define ap where "ap = (if attr AND mAttrWrite ab \<noteq> 0 then 3 else if attr AND mAttrRead ab \<noteq> 0 then 2 else 1 :: u32)"
  have b: "bit (push_bit 24 (ap AND 7) :: u32) (24 + j)" if "bit (ap AND 7) j" "j < 3" for j
    using that unfolding bit_push_bit_iff by simp
  have "bit (ap AND 7) 0 \<or> bit (ap AND 7) 1" by (simp add: ap_def)
  then obtain j where j: "j < 2" "bit (ap AND 7) j"
  proof (elim disjE)
    assume "bit (ap AND 7) 0"
    then show thesis by (rule that [rotated]) simp
  next
    assume "bit (ap AND 7) 1"
    then show thesis by (rule that [rotated]) simp
  qed
  then have "bit ?t (24 + j)" using b [of j] unfolding mpu_regionAttrs_def Let_def ap_def [symmetric] bit_or_iff by simp
  moreover have "bit (push_bit 24 7 :: u32) (24 + j)"
  proof -
    have "bit (mask 3 :: u32) j" using j(1) by (simp add: bit_mask_iff)
    then show ?thesis using j(1) unfolding bit_push_bit_iff mask_3 by simp
  qed
  ultimately have "bit (?t AND push_bit 24 7) (24 + j)" unfolding bit_and_iff by blast
  then have "?t AND push_bit 24 7 \<noteq> 0" by auto
  then show "access_of (Some ?t) = Some ?t" by (simp add: access_of_def)
qed

definition mpu_inv :: "mpu_common_t \<Rightarrow> bool" where
  "mpu_inv s \<longleftrightarrow> table_ok (mc_regCnt s) s \<and> length (mc_mapId s) = 16 \<and>
     (\<forall>i<mc_regMax s. mc_regCnt s \<le> i \<longrightarrow> mc_region s ! i = invalid_region i \<and> mc_mapId s ! i = -1)"

lemma map_upt_update: "(map (\<lambda>i. if P i then v i else f i) [0..<n])[x := v x] = map (\<lambda>i. if P i \<or> i = x then v i else f i) [0..<n]"
  by (cases "x < n") (auto simp: list_eq_iff_nth_eq nth_list_update)

lemma invalidate_eq:
  "mpu_regionInvalidate f l s =
     s\<lparr>mc_mapId := map (\<lambda>i. if i \<in> set [f..<min l (mc_regMax s)] then -1 else mc_mapId s ! i) [0..<length (mc_mapId s)],
       mc_region := map (\<lambda>i. if i \<in> set [f..<min l (mc_regMax s)] then invalid_region i else mc_region s ! i) [0..<length (mc_region s)]\<rparr>"
proof -
  have "foldl (\<lambda>s i. s\<lparr>mc_mapId := (mc_mapId s)[i := -1], mc_region := (mc_region s)[i := invalid_region i]\<rparr>) s xs =
     s\<lparr>mc_mapId := map (\<lambda>i. if i \<in> set xs then -1 else mc_mapId s ! i) [0..<length (mc_mapId s)],
       mc_region := map (\<lambda>i. if i \<in> set xs then invalid_region i else mc_region s ! i) [0..<length (mc_region s)]\<rparr>" for xs
  proof (induction xs rule: rev_induct)
    case (snoc x xs)
    then show ?case
      using map_upt_update [of "\<lambda>i. i \<in> set xs" invalid_region "\<lambda>i. mc_region s ! i" "length (mc_region s)" x]
        map_upt_update [of "\<lambda>i. i \<in> set xs" "\<lambda>_. -1" "\<lambda>i. mc_mapId s ! i" "length (mc_mapId s)" x]
      by (simp add: disj_commute)
  qed (simp add: map_nth)
  then show ?thesis by (simp only: mpu_regionInvalidate_def)
qed

lemma assign_eq:
  "\<exists>ms. mpu_regionAssignMap f l m s = s\<lparr>mc_mapId := ms\<rparr> \<and> length ms = length (mc_mapId s) \<and>
     (\<forall>i. \<not> (f \<le> i \<and> i < l) \<longrightarrow> ms ! i = mc_mapId s ! i)"
proof -
  have "\<exists>ms. foldl (\<lambda>s i. if rbar (mc_region s ! i) AND push_bit 4 1 \<noteq> 0 then s\<lparr>mc_mapId := (mc_mapId s)[i := m]\<rparr> else s) s xs = s\<lparr>mc_mapId := ms\<rparr> \<and>
     length ms = length (mc_mapId s) \<and> (\<forall>i. i \<notin> set xs \<longrightarrow> ms ! i = mc_mapId s ! i)" for xs
  proof (induction xs rule: rev_induct)
    case Nil
    then show ?case by (intro exI [of _ "mc_mapId s"]) simp
  next
    case (snoc x xs)
    then obtain ms where "foldl (\<lambda>s i. if rbar (mc_region s ! i) AND push_bit 4 1 \<noteq> 0 then s\<lparr>mc_mapId := (mc_mapId s)[i := m]\<rparr> else s) s xs = s\<lparr>mc_mapId := ms\<rparr>"
      "length ms = length (mc_mapId s)" "\<forall>i. i \<notin> set xs \<longrightarrow> ms ! i = mc_mapId s ! i" by blast
    then show ?case by (intro exI [of _ "if rbar (mc_region s ! x) AND push_bit 4 1 \<noteq> 0 then ms[x := m] else ms"]) simp
  qed
  from this [of "[f..<min l (mc_regMax s)]"] show ?thesis unfolding mpu_regionAssignMap_def by fastforce
qed

lemma alloc_law:
  assumes "mpu_inv s" "\<not> too_big start ende" "mpu_regionAlloc ab start ende attr mid enable s = (res, s')"
  shows "mpu_inv s'" "res = Inl e \<Longrightarrow> s' = s"
    "res = Inr () \<Longrightarrow> mpu_granted s' a = (if enable \<and> in_range start ende a then Some (mpu_regionAttrs ab attr enable) else mpu_granted s a)"
    "mc_regMax s' = mc_regMax s"
proof -
  let ?t = "mpu_regionAttrs ab attr enable" and ?n = "mc_regCnt s"
  have tb: "table_ok ?n s" using assms(1) by (simp add: mpu_inv_def)
  obtain r n1 s1 where g: "mpu_regionGenerate ?n start ende ?t s = (r, n1, s1)" by (metis prod_cases3)
  note gr = generate_grants [OF tb regionAttrs_facts(1) assms(2), of ab attr enable, unfolded g grants_def, simplified]
  have s1: "table_ok n1 s1" "s1 = s\<lparr>mc_region := mc_region s1\<rparr>" "?n \<le> n1" "\<And>i. i < ?n \<or> n1 \<le> i \<Longrightarrow> mc_region s1 ! i = mc_region s ! i"
    using gr by (auto simp: same_but_def)
  have eqs: "mc_regCnt s1 = ?n" "mc_regMax s1 = mc_regMax s" "mc_mapId s1 = mc_mapId s" "mc_type s1 = mc_type s" "mc_mapCnt s1 = mc_mapCnt s"
    using arg_cong [OF s1(2), of mc_regCnt] arg_cong [OF s1(2), of mc_regMax] arg_cong [OF s1(2), of mc_mapId] arg_cong [OF s1(2), of mc_type]
      arg_cong [OF s1(2), of mc_mapCnt] by simp_all
  have n1: "n1 \<le> mc_regMax s" "length (mc_region s1) = 16" "length (mc_region s) = 16" "length (mc_mapId s) = 16" "mc_regMax s \<le> 16"
    using s1(1) eqs assms(1) by (auto simp: table_ok_def mpu_inv_def)
  have inv: "mc_region s ! i = invalid_region i" "mc_mapId s ! i = -1" if "i < mc_regMax s" "?n \<le> i" for i
    using assms(1) that by (auto simp: mpu_inv_def)
  show "res = Inl e \<Longrightarrow> s' = s" "mpu_inv s'" "mc_regMax s' = mc_regMax s"
    "res = Inr () \<Longrightarrow> mpu_granted s' a = (if enable \<and> in_range start ende a then Some ?t else mpu_granted s a)"
  proof -
    show c: "s' = s" if "res = Inl e" for e
    proof -
      have "r = Inl e" "s' = mpu_regionInvalidate ?n n1 s1" using assms(3) g that eqs by (auto simp: mpu_regionAlloc_def Let_def split: sum.splits)
      moreover have "map (\<lambda>i. if i \<in> set [?n..<min n1 (mc_regMax s)] then invalid_region i else mc_region s1 ! i) [0..<16] = mc_region s"
        using inv(1) s1(4) n1 by (auto simp: list_eq_iff_nth_eq)
      moreover have "map (\<lambda>i. if i \<in> set [?n..<min n1 (mc_regMax s)] then -1 else mc_mapId s1 ! i) [0..<16] = mc_mapId s"
        using inv(2) n1 eqs(3) by (auto simp: list_eq_iff_nth_eq)
      ultimately show ?thesis using n1 eqs by (simp add: invalidate_eq)
    qed
    have "mpu_inv s' \<and> mc_regMax s' = mc_regMax s"
    proof (cases res)
      case (Inl e)
      then show ?thesis using c assms(1) by simp
    next
      case (Inr u)
      obtain ms where ms: "mpu_regionAssignMap ?n n1 mid s1 = s1\<lparr>mc_mapId := ms\<rparr>" "length ms = 16" "\<And>i. \<not> (?n \<le> i \<and> i < n1) \<Longrightarrow> ms ! i = mc_mapId s ! i"
        using assign_eq [of ?n n1 mid s1] n1(4) eqs(3) by auto
      have "s' = s1\<lparr>mc_mapId := ms, mc_regCnt := n1, mc_mapCnt := mc_mapCnt s + 1\<rparr>"
        using assms(3) g eqs ms(1) Inr by (auto simp: mpu_regionAlloc_def Let_def split: sum.splits)
      then show ?thesis using s1(1,3,4) inv n1 eqs ms(2,3) by (auto simp: mpu_inv_def table_ok_def)
    qed
    then show "mpu_inv s'" "mc_regMax s' = mc_regMax s" by simp_all
    assume "res = Inr ()"
    moreover obtain ms where "mpu_regionAssignMap ?n n1 mid s1 = s1\<lparr>mc_mapId := ms\<rparr>" using assign_eq by blast
    ultimately have "r = Inr ()" "mc_region s' = mc_region s1" using assms(3) g eqs(1) by (auto simp: mpu_regionAlloc_def Let_def split: sum.splits)
    then show "mpu_granted s' a = (if enable \<and> in_range start ende a then Some ?t else mpu_granted s a)"
      using gr by (simp add: regionAttrs_facts mpu_granted_access)
  qed
qed

section \<open>Start, and runs of requests\<close>

text \<open>The state is zero when the loader starts; the unit reports at most 16 regions.\<close>

definition mpu_zero :: mpu_common_t where
  "mpu_zero = \<lparr>mc_type = 0, mc_regCnt = 0, mc_regMax = 0, mc_mapCnt = 0, mc_region = replicate 16 \<lparr>rbar = 0, rasr = 0\<rparr>, mc_mapId = replicate 16 0\<rparr>"

lemma init_inv:
  assumes "unat (ucast (drop_bit 8 ty) :: u8) \<le> 16"
  shows "mpu_inv (mpu_init ty mpu_zero)" "mpu_granted (mpu_init ty mpu_zero) a = None"
proof -
  have off: "\<not> bit (rasr (invalid_region i)) 0" for i unfolding invalid_region_def mpu_region_t.simps bit_or_iff bit_push_bit_iff by simp
  then show "mpu_inv (mpu_init ty mpu_zero)" using assms by (auto simp: mpu_inv_def table_ok_def mpu_init_def invalidate_eq mpu_zero_def)
  have "mpu_lookup (mc_region (mpu_init ty mpu_zero)) a = None"
    using off by (intro lookup_off) (auto simp: mpu_init_def invalidate_eq mpu_zero_def region_hit_def)
  then show "mpu_granted (mpu_init ty mpu_zero) a = None" by (simp add: mpu_granted_def)
qed

text \<open>The requests that are accepted, and the final state.\<close>

fun run_requests :: "('r \<Rightarrow> 's \<Rightarrow> (errno + unit) \<times> 's) \<Rightarrow> 'r list \<Rightarrow> 's \<Rightarrow> 'r list \<times> 's" where
  "run_requests alloc [] s = ([], s)"
| "run_requests alloc (r # rs) s =
     (case alloc r s of
        (Inl e, s1) \<Rightarrow> run_requests alloc rs s1
      | (Inr _, s1) \<Rightarrow> (case run_requests alloc rs s1 of (acc, s2) \<Rightarrow> (r # acc, s2)))"

definition apart :: "('r \<Rightarrow> u32 \<Rightarrow> bool) \<Rightarrow> 'r list \<Rightarrow> bool" where
  "apart covers rs \<longleftrightarrow> sorted_wrt (\<lambda>r r'. \<forall>a. \<not> (covers r a \<and> covers r' a)) rs"

definition rights_of :: "('r \<Rightarrow> u32 \<Rightarrow> bool) \<Rightarrow> ('r \<Rightarrow> 'a) \<Rightarrow> 'r list \<Rightarrow> u32 \<Rightarrow> 'a option" where
  "rights_of covers rights rs a = map_option rights (find (\<lambda>r. covers r a) rs)"

text \<open>
  What a protection unit is used for: a request that is accepted gives its rights to the addresses it covers, if nobody has rights there, and
  changes nothing elsewhere; one that is refused changes nothing.
\<close>

locale protection =
  fixes alloc :: "'r \<Rightarrow> 's \<Rightarrow> (errno + unit) \<times> 's" and inv :: "'s \<Rightarrow> bool" and granted :: "'s \<Rightarrow> u32 \<Rightarrow> 'a option"
    and covers :: "'r \<Rightarrow> u32 \<Rightarrow> bool" and rights :: "'r \<Rightarrow> 'a" and fine :: "'r \<Rightarrow> bool"
  assumes alloc_ok: "inv s \<Longrightarrow> fine r \<Longrightarrow> (\<And>a. covers r a \<Longrightarrow> granted s a = None) \<Longrightarrow> alloc r s = (Inr (), s') \<Longrightarrow>
      inv s' \<and> (\<forall>a. granted s' a = (if covers r a then Some (rights r) else granted s a))"
    and alloc_err: "inv s \<Longrightarrow> fine r \<Longrightarrow> alloc r s = (Inl e, s') \<Longrightarrow> inv s' \<and> granted s' = granted s"
begin

lemma run_law:
  assumes "inv s" "list_all fine rs" "apart covers rs" "\<And>r a. r \<in> set rs \<Longrightarrow> covers r a \<Longrightarrow> granted s a = None" "run_requests alloc rs s = (acc, s')"
  shows "set acc \<subseteq> set rs \<and> inv s' \<and> (\<forall>a. granted s' a = (case rights_of covers rights acc a of None \<Rightarrow> granted s a | Some x \<Rightarrow> Some x))"
  using assms
proof (induction rs arbitrary: s acc)
  case Nil
  then show ?case by (simp add: rights_of_def)
next
  case (Cons r rs)
  obtain res s1 where a: "alloc r s = (res, s1)" by fastforce
  have ap: "apart covers rs" "\<And>r' a. r' \<in> set rs \<Longrightarrow> covers r' a \<Longrightarrow> \<not> covers r a" using Cons.prems(3) by (auto simp: apart_def)
  show ?case
  proof (cases res)
    case (Inl e)
    then have s1: "inv s1" "granted s1 = granted s" using alloc_err [of s r e s1] Cons.prems(1,2) a by simp_all
    have "set acc \<subseteq> set rs \<and> inv s' \<and> (\<forall>a. granted s' a = (case rights_of covers rights acc a of None \<Rightarrow> granted s1 a | Some x \<Rightarrow> Some x))"
      using Cons.prems Inl a s1 ap(1) by (intro Cons.IH) auto
    then show ?thesis unfolding s1(2) by auto
  next
    case (Inr u)
    then have al: "alloc r s = (Inr (), s1)" using a by simp
    have fr: "fine r" "\<And>a. covers r a \<Longrightarrow> granted s a = None" using Cons.prems(2,4) by auto
    have s1: "inv s1" "\<And>a. granted s1 a = (if covers r a then Some (rights r) else granted s a)"
      using alloc_ok [OF Cons.prems(1) fr al] by simp_all
    obtain acc' where acc: "acc = r # acc'" "run_requests alloc rs s1 = (acc', s')" using Cons.prems(5) a Inr by (auto split: prod.splits)
    have "set acc' \<subseteq> set rs \<and> inv s' \<and> (\<forall>a. granted s' a = (case rights_of covers rights acc' a of None \<Rightarrow> granted s1 a | Some x \<Rightarrow> Some x))"
      using Cons.prems acc s1 ap by (intro Cons.IH) auto
    then have h: "set acc' \<subseteq> set rs" "inv s'" "\<And>a. granted s' a = (case rights_of covers rights acc' a of None \<Rightarrow> granted s1 a | Some x \<Rightarrow> Some x)" by blast+
    have "rights_of covers rights acc' a = None" if "covers r a" for a
      using ap(2) h(1) that by (auto simp: rights_of_def find_None_iff)
    then have "granted s' a = (case rights_of covers rights acc a of None \<Rightarrow> granted s a | Some x \<Rightarrow> Some x)" for a
      using h(3) [of a] s1(2) [of a] by (cases "covers r a"; cases "find (\<lambda>r. covers r a) acc'") (simp_all add: acc(1) rights_of_def)
    then show ?thesis using h(1,2) acc(1) by auto
  qed
qed

lemma protects:
  assumes "inv s" "\<And>a. granted s a = None" "list_all fine rs" "apart covers rs" "run_requests alloc rs s = (acc, s')"
  shows "granted s' = rights_of covers rights acc"
proof
  fix a
  have "granted s' a = (case rights_of covers rights acc a of None \<Rightarrow> granted s a | Some x \<Rightarrow> Some x)"
    using run_law [OF assms(1,3,4) _ assms(5)] assms(2) by blast
  then show "granted s' a = rights_of covers rights acc a" using assms(2) [of a] by (simp split: option.splits)
qed

lemma run_keeps:
  assumes "inv s" "\<And>a. granted s a = None" "list_all fine rs" "apart covers rs" "run_requests alloc rs s = (acc, s')"
  shows "inv s' \<and> granted s' = rights_of covers rights acc"
  using run_law [OF assms(1,3,4) _ assms(5)] protects [OF assms] assms(2) by blast

end

text \<open>A request for the memory of a map, as \<open>hal_memoryAddMap\<close> makes it.\<close>

record map_req =
  mq_start :: u32
  mq_end :: u32
  mq_attr :: u32
  mq_id :: u32

definition hal_memoryAddMap7 :: "attr_bits \<Rightarrow> map_req \<Rightarrow> mpu_common_t \<Rightarrow> (errno + unit) \<times> mpu_common_t" where
  "hal_memoryAddMap7 ab r = mpu_regionAlloc ab (mq_start r) (mq_end r) (mq_attr r) (mq_id r) True"

definition req_covers :: "map_req \<Rightarrow> u32 \<Rightarrow> bool" where
  "req_covers r = in_range (mq_start r) (mq_end r)"

definition req_fine :: "map_req \<Rightarrow> bool" where
  "req_fine r \<longleftrightarrow> \<not> too_big (mq_start r) (mq_end r)"

interpretation v7: protection "hal_memoryAddMap7 ab" "\<lambda>s. mpu_inv s \<and> mc_regMax s \<le> n" mpu_granted req_covers "\<lambda>r. mpu_regionAttrs ab (mq_attr r) True" req_fine
proof unfold_locales
  fix s r s'
  assume a: "mpu_inv s \<and> mc_regMax s \<le> n" "req_fine r" "hal_memoryAddMap7 ab r s = (Inr (), s')"
  note l = alloc_law [OF conjunct1 [OF a(1)] a(2)[unfolded req_fine_def] a(3)[unfolded hal_memoryAddMap7_def]]
  show "(mpu_inv s' \<and> mc_regMax s' \<le> n) \<and> (\<forall>a. mpu_granted s' a = (if req_covers r a then Some (mpu_regionAttrs ab (mq_attr r) True) else mpu_granted s a))"
    using a(1) l(1,3,4) by (simp add: req_covers_def)
next
  fix s r e s'
  assume a: "mpu_inv s \<and> mc_regMax s \<le> n" "req_fine r" "hal_memoryAddMap7 ab r s = (Inl e, s')"
  note l = alloc_law [OF conjunct1 [OF a(1)] a(2)[unfolded req_fine_def] a(3)[unfolded hal_memoryAddMap7_def]]
  show "(mpu_inv s' \<and> mc_regMax s' \<le> n) \<and> mpu_granted s' = mpu_granted s" using a(1) l(1) l(2) [OF refl] by simp
qed

text \<open>The table handed to the kernel says the same as the loader's.\<close>

lemma halData_lookup:
  assumes "mpu_inv s" "mc_regMax s \<le> n" "n \<le> 16"
  shows "mpu_lookup (hm_table (fst (mpu_getHalData n s))) a = mpu_lookup (mc_region s) a"
proof -
  have l: "length (mc_region s) = 16" "length (mc_mapId s) = 16" "\<And>i. i < 16 \<Longrightarrow> mc_regCnt s \<le> i \<Longrightarrow> \<not> bit (rasr (mc_region s ! i)) 0" "mc_regCnt s \<le> mc_regMax s"
      "\<And>i. i < mc_regMax s \<Longrightarrow> mc_regCnt s \<le> i \<Longrightarrow> mc_region s ! i = invalid_region i"
    using assms(1) by (auto simp: mpu_inv_def table_ok_def)
  have "map (\<lambda>i. if i \<in> set [mc_regCnt s..<mc_regMax s] then invalid_region i else mc_region s ! i) [0..<16] = mc_region s"
    using l(1,5) by (auto simp: list_eq_iff_nth_eq)
  then have "mc_region (mpu_regionInvalidate (mc_regCnt s) (mc_regMax s) s) = mc_region s" using l(1) by (simp add: invalidate_eq)
  then have t: "hm_table (fst (mpu_getHalData n s)) = take n (mc_region s)"
    using l(1) assms(3) by (simp add: mpu_getHalData_def Let_def list_eq_iff_nth_eq)
  have "mpu_lookup (drop n (mc_region s)) a = None"
    using l assms(2) by (intro lookup_off) (auto simp: in_set_conv_nth region_hit_def)
  then show ?thesis unfolding t by (metis append_take_drop_id lookup_append option.simps(4))
qed

section \<open>Access rights\<close>

text \<open>
  What an access may do, as the architecture defines it: reading and writing at both privilege levels, execution, and the kind of
  memory (1 for cacheable and 2 for bufferable memory, added). \<open>perm7\<close> decodes the attribute bits of a region of ARMv7-M: the field AP
  in bits 24 to 26, XN in bit 28, S, C and B in bits 18, 17 and 16, TEX in bits 19 to 21. Code is fetched only where it may be read.
\<close>

record mem_perm =
  user_read :: bool
  user_write :: bool
  priv_read :: bool
  priv_write :: bool
  user_exec :: bool
  priv_exec :: bool
  shared_mem :: bool
  mem_kind :: nat

definition perm7 :: "u32 \<Rightarrow> mem_perm" where
  "perm7 v =
     (let ap = unat (drop_bit 24 v AND 7); xn = bit v 28
      in \<lparr>user_read = (ap \<in> {2, 3, 6, 7}), user_write = (ap = 3), priv_read = (ap \<notin> {0, 4}), priv_write = (ap \<in> {1, 2, 3}),
          user_exec = (ap \<in> {2, 3, 6, 7} \<and> \<not> xn), priv_exec = (ap \<notin> {0, 4} \<and> \<not> xn), shared_mem = bit v 18,
          mem_kind = of_bool (bit v 17) + 2 * of_bool (bit v 16) + 4 * unat (drop_bit 19 v AND 7)\<rparr>)"

text \<open>
  What the attributes of a map ask for: the system may always read and write, the user reads what is readable or writable and
  writes what is writable.
\<close>

definition has_attr :: "u32 \<Rightarrow> u32 \<Rightarrow> bool" where
  "has_attr attr m \<longleftrightarrow> attr AND m \<noteq> 0"

definition map_perm7 :: "attr_bits \<Rightarrow> u32 \<Rightarrow> mem_perm" where
  "map_perm7 ab attr =
     \<lparr>user_read = (has_attr attr (mAttrRead ab) \<or> has_attr attr (mAttrWrite ab)), user_write = has_attr attr (mAttrWrite ab),
      priv_read = True, priv_write = True,
      user_exec = (has_attr attr (mAttrExec ab) \<and> (has_attr attr (mAttrRead ab) \<or> has_attr attr (mAttrWrite ab))),
      priv_exec = has_attr attr (mAttrExec ab), shared_mem = has_attr attr (mAttrShareable ab),
      mem_kind = of_bool (has_attr attr (mAttrCacheable ab)) + 2 * of_bool (has_attr attr (mAttrBufferable ab))\<rparr>"

lemma perm7_attrs: "perm7 (mpu_regionAttrs ab attr True) = map_perm7 ab attr"
  unfolding perm7_def map_perm7_def mpu_regionAttrs_def has_attr_def Let_def
  by (cases "attr AND mAttrRead ab = 0"; cases "attr AND mAttrWrite ab = 0"; cases "attr AND mAttrExec ab = 0";
      cases "attr AND mAttrShareable ab = 0"; cases "attr AND mAttrCacheable ab = 0"; cases "attr AND mAttrBufferable ab = 0") simp_all

lemma map_rights_of: "map_option f (rights_of covers rights acc a) = rights_of covers (\<lambda>r. f (rights r)) acc a"
  by (simp add: rights_of_def option.map_comp comp_def)

section \<open>Properties\<close>

text \<open>
  C8: A map is protected exactly: when the regions for it are accepted, every address of the map has the rights of its attributes and every other address has the
  rights it had, whether the map becomes one region, two, or a region with a hole; when they are refused, nothing has changed. The three ranges of \<open>too_big\<close> are excluded.
\<close>

theorem mpu_alloc_exact:
  assumes "mpu_inv s" "\<not> too_big start ende" "mpu_regionAlloc ab start ende attr mapId enable s = (res, s')"
  shows "case res of
      Inl e \<Rightarrow> s' = s
    | Inr _ \<Rightarrow> mpu_granted s' = (\<lambda>a. if enable \<and> in_range start ende a then Some (mpu_regionAttrs ab attr enable) else mpu_granted s a)"
  using alloc_law [OF assms] by (cases res) auto

text \<open>
  C2: On a unit with at most 16 regions and with a kernel table of at least as many, after start-up and any sequence of requests for maps that do not overlap, none of which
  is one of the three ranges from 0 to 3 GiB, from 1 GiB to the end and from 1 to 3 GiB (for which the code reports success and protects nothing), the table handed to the kernel gives
  each address the access rights the attributes of the accepted map around it ask for, and none to the other addresses: regions and holes made for one map never change another.
  The rights are those the hardware decodes from the table.
\<close>

theorem mpu_maps_protected:
  assumes "unat (ucast (drop_bit 8 ty) :: u8) \<le> n" "n \<le> 16" "list_all req_fine rs" "apart req_covers rs"
    and "run_requests (hal_memoryAddMap7 ab) rs (mpu_init ty mpu_zero) = (accepted, s)"
  shows "(\<lambda>a. map_option perm7 (access_of (mpu_lookup (hm_table (fst (mpu_getHalData n s))) a))) = rights_of req_covers (\<lambda>r. map_perm7 ab (mq_attr r)) accepted"
proof -
  have ty: "unat (ucast (drop_bit 8 ty) :: u8) \<le> 16" using assms(1,2) by linarith
  have "mpu_inv (mpu_init ty mpu_zero) \<and> mc_regMax (mpu_init ty mpu_zero) \<le> n"
    using init_inv(1) [OF ty] assms(1) by (simp add: mpu_init_def invalidate_eq)
  from v7.run_keeps [OF this init_inv(2) [OF ty] assms(3-5)] show ?thesis
    using halData_lookup [of s n] assms(2) by (simp add: mpu_granted_access fun_eq_iff map_rights_of perm7_attrs)
qed

section \<open>Examples\<close>

definition attr_bits7 :: attr_bits where
  "attr_bits7 = \<lparr>mAttrRead = 1, mAttrWrite = 2, mAttrExec = 4, mAttrShareable = 8, mAttrCacheable = 16, mAttrBufferable = 32\<rparr>"

text \<open>A range of 126 KiB, which becomes a region of 128 KiB with a hole, and its neighbour.\<close>

definition req_example :: "map_req list" where
  "req_example = [\<lparr>mq_start = 0x20000000, mq_end = 0x2001F800, mq_attr = 3, mq_id = 0\<rparr>, \<lparr>mq_start = 0x20020000, mq_end = 0x20038000, mq_attr = 5, mq_id = 1\<rparr>]"

lemma alloc_example: "fst (mpu_regionAlloc attr_bits7 0x20000000 0x2001F800 3 0 True (mpu_init 0x800 mpu_zero)) = Inr ()"
  by code_simp

lemma type_example: "unat (ucast (drop_bit 8 (0x800::u32)) :: u8) \<le> 16"
  by simp

lemma req_example_apart: "apart req_covers req_example"
  by (auto simp: apart_def req_example_def req_covers_def in_range_nat top_of_def)

theorem mpu_alloc_exact_witness:
  "mpu_granted (snd (mpu_regionAlloc attr_bits7 0x20000000 0x2001F800 3 0 True (mpu_init 0x800 mpu_zero))) =
     (\<lambda>a. if in_range 0x20000000 0x2001F800 a then Some (mpu_regionAttrs attr_bits7 3 True) else None)"
proof -
  have "\<not> too_big 0x20000000 0x2001F800" by (simp add: too_big_def)
  from mpu_alloc_exact [OF init_inv(1) [OF type_example] this prod.collapse [symmetric], of attr_bits7 3 0 True] show ?thesis
    by (simp add: alloc_example init_inv(2) [OF type_example] cong: if_cong)
qed

theorem mpu_maps_protected_witness:
  "(\<lambda>a. map_option perm7 (access_of (mpu_lookup (hm_table (fst (mpu_getHalData 8 (snd (run_requests (hal_memoryAddMap7 attr_bits7) req_example (mpu_init 0x800 mpu_zero)))))) a))) =
     rights_of req_covers (\<lambda>r. map_perm7 attr_bits7 (mq_attr r)) req_example"
proof -
  have r: "fst (run_requests (hal_memoryAddMap7 attr_bits7) req_example (mpu_init 0x800 mpu_zero)) = req_example" by code_simp
  have f: "list_all req_fine req_example" by (simp add: req_example_def req_fine_def too_big_def)
  have n: "unat (ucast (drop_bit 8 (0x800::u32)) :: u8) \<le> 8" "(8::nat) \<le> 16" by simp_all
  from mpu_maps_protected [OF n f req_example_apart prod.collapse [symmetric], of attr_bits7] show ?thesis unfolding r .
qed

text \<open>For a range of three gigabytes the code reports success, but writes a region whose size field is 0.\<close>

lemma big_range_lost:
  "fst (mpu_regionAlloc attr_bits7 0 0xC0000000 3 0 True (mpu_init 0x800 mpu_zero)) = Inr ()"
  "rasr (mc_region (snd (mpu_regionAlloc attr_bits7 0 0xC0000000 3 0 True (mpu_init 0x800 mpu_zero))) ! 0) AND 0x3e = 0"
  by code_simp+

end
