(* ===== verification/Mpu8.thy ===== *)
theory Mpu8
  imports Mpu_Props
begin

text \<open>
  \<open>hal/armv8m/mpu.c\<close>: the memory protection unit of ARMv8-M. A region is any range whose ends are multiples of 32 bytes; an address in two regions is a fault.
  The contract \<open>protection\<close> holds for it, too.
\<close>

section \<open>State and operations\<close>

record mpu8_region_t =
  rbar8 :: u32
  rlar8 :: u32

record mpu8_common_t =
  m8_type :: u32
  m8_regCnt :: nat
  m8_regMax :: nat
  m8_mapCnt :: u32
  m8_region :: "mpu8_region_t list"
  m8_mapId :: "u32 list"

definition MPU_MAX_REGIONS :: nat where "MPU_MAX_REGIONS = 16"

definition mpu_regionAttrsRlar :: "attr_bits \<Rightarrow> u32 \<Rightarrow> bool \<Rightarrow> u32" where
  "mpu_regionAttrsRlar ab attr enable =
     (let attrIndx = (if attr AND mAttrCacheable ab \<noteq> 0 then 1 else 0) OR (if attr AND mAttrBufferable ab \<noteq> 0 then push_bit 1 1 else 0);
          execNever = (if attr AND mAttrExec ab = 0 then 1 else 0)
      in push_bit 4 execNever OR push_bit 1 attrIndx OR (if enable then 1 else 0))"

definition mpu_regionAttrsRbar :: "attr_bits \<Rightarrow> u32 \<Rightarrow> u32" where
  "mpu_regionAttrsRbar ab attr =
     (let ap = (if attr AND mAttrWrite ab \<noteq> 0 then 1 else if attr AND mAttrRead ab \<noteq> 0 then 1 else 0)
      in push_bit 4 (if attr AND mAttrShareable ab \<noteq> 0 then 1 else 0) OR push_bit 1 ap OR (if attr AND mAttrExec ab = 0 then 1 else 0))"

definition mpu8_regionSet :: "nat \<Rightarrow> u32 \<Rightarrow> u32 \<Rightarrow> u32 \<Rightarrow> u32 \<Rightarrow> u32 \<Rightarrow> mpu8_common_t \<Rightarrow> (errno + unit) \<times> nat \<times> mpu8_common_t" where
  "mpu8_regionSet idx start ende rbarAttr rlarAttr mapId s =
     (let sz = ende - start in
      if idx \<ge> m8_regMax s then (Inl EPERM, idx, s)
      else if ende \<noteq> 0 \<and> ende \<le> start then (Inl EINVAL, idx, s)
      else if sz \<noteq> 0 \<and> (sz < 32 \<or> sz AND 0x1f \<noteq> 0 \<or> start AND 0x1f \<noteq> 0) then (Inl EPERM, idx, s)
      else
        let limit = (if sz = 0 then 0xffffffff else ende - 1) in
        (Inr (), idx + 1,
         s\<lparr>m8_region := (m8_region s)[idx := \<lparr>rbar8 = (start AND NOT 0x1f) OR rbarAttr, rlar8 = (limit AND NOT 0x1f) OR rlarAttr\<rparr>],
           m8_mapId := (m8_mapId s)[idx := mapId]\<rparr>))"

definition mpu8_regionInvalidate :: "nat \<Rightarrow> nat \<Rightarrow> mpu8_common_t \<Rightarrow> mpu8_common_t" where
  "mpu8_regionInvalidate first lst s =
     foldl (\<lambda>s i. s\<lparr>m8_mapId := (m8_mapId s)[i := -1], m8_region := (m8_region s)[i := \<lparr>rbar8 = 1, rlar8 = 0\<rparr>]\<rparr>) s [first..<min lst (m8_regMax s)]"

text \<open>\<open>typeReg\<close> is what the type register reads. The attribute register MAIR0 is not part of the state.\<close>

definition mpu8_init :: "u32 \<Rightarrow> mpu8_common_t \<Rightarrow> mpu8_common_t" where
  "mpu8_init typeReg s =
     mpu8_regionInvalidate 0 MPU_MAX_REGIONS
       (s\<lparr>m8_type := typeReg, m8_regMax := (let n = unat (drop_bit 8 typeReg AND 0xff) in if n > MPU_MAX_REGIONS then MPU_MAX_REGIONS else n),
          m8_regCnt := 0, m8_mapCnt := 0\<rparr>)"

definition mpu8_regionAlloc :: "attr_bits \<Rightarrow> u32 \<Rightarrow> u32 \<Rightarrow> u32 \<Rightarrow> u32 \<Rightarrow> bool \<Rightarrow> mpu8_common_t \<Rightarrow> (errno + unit) \<times> mpu8_common_t" where
  "mpu8_regionAlloc ab addr ende attr mapId enable s =
     (if m8_regMax s = 0 then (Inr (), s)
      else case mpu8_regionSet (m8_regCnt s) addr ende (mpu_regionAttrsRbar ab attr) (mpu_regionAttrsRlar ab attr enable) mapId s of
             (Inl e, regCur, s1) \<Rightarrow> (Inl e, mpu8_regionInvalidate (m8_regCnt s1) regCur s1)
           | (Inr _, regCur, s1) \<Rightarrow> (Inr (), s1\<lparr>m8_regCnt := regCur, m8_mapCnt := m8_mapCnt s1 + 1\<rparr>))"

record hal_mpu8 =
  hm8_type :: u32
  hm8_allocCnt :: nat
  hm8_table :: "mpu8_region_t list"
  hm8_map :: "u32 list"

definition mpu8_getHalData :: "nat \<Rightarrow> mpu8_common_t \<Rightarrow> hal_mpu8 \<times> mpu8_common_t" where
  "mpu8_getHalData syspageTableSize s0 =
     (let s1 = mpu8_regionInvalidate (m8_regCnt s0) (m8_regMax s0) s0;
          s = (if m8_regCnt s1 > syspageTableSize then s1\<lparr>m8_regCnt := syspageTableSize\<rparr> else s1)
      in (\<lparr>hm8_type = m8_type s, hm8_allocCnt = m8_regCnt s,
           hm8_table = map (\<lambda>i. if i < m8_regCnt s then m8_region s ! i else \<lparr>rbar8 = 1, rlar8 = 0\<rparr>) [0..<syspageTableSize],
           hm8_map = map (\<lambda>i. if i < m8_regCnt s then m8_mapId s ! i else -1) [0..<syspageTableSize]\<rparr>, s))"

section \<open>What the hardware makes of it\<close>

definition region8_hit :: "mpu8_region_t \<Rightarrow> u32 \<Rightarrow> bool" where
  "region8_hit r a \<longleftrightarrow> bit (rlar8 r) 0 \<and> rbar8 r AND NOT (mask 5) \<le> a \<and> a \<le> (rlar8 r AND NOT (mask 5)) OR mask 5"

definition region8_rights :: "mpu8_region_t \<Rightarrow> u32 \<times> u32" where
  "region8_rights r = (rbar8 r AND mask 5, rlar8 r AND mask 5)"

definition mpu8_granted :: "mpu8_common_t \<Rightarrow> u32 \<Rightarrow> (u32 \<times> u32) option" where
  "mpu8_granted s a = (case filter (\<lambda>r. region8_hit r a) (m8_region s) of [r] \<Rightarrow> Some (region8_rights r) | _ \<Rightarrow> None)"

definition mpu8_inv :: "mpu8_common_t \<Rightarrow> bool" where
  "mpu8_inv s \<longleftrightarrow> 0 < m8_regMax s \<and> m8_regMax s \<le> 16 \<and> m8_regCnt s \<le> m8_regMax s \<and> length (m8_region s) = 16 \<and> length (m8_mapId s) = 16 \<and>
     (\<forall>i<16. m8_regCnt s \<le> i \<longrightarrow> \<not> bit (rlar8 (m8_region s ! i)) 0) \<and> (\<forall>a. length (filter (\<lambda>r. region8_hit r a) (m8_region s)) \<le> 1)"

lemma bits_below_5:
  assumes "\<And>i. bit (y::u32) i \<Longrightarrow> i < 5"
  shows "y AND mask 5 = y" "y AND NOT (mask 5) = 0"
  using assms by (auto intro!: bit_word_eqI simp: bit_and_iff bit_not_iff bit_mask_iff)

lemma join_split:
  assumes "\<And>i. bit (y::u32) i \<Longrightarrow> i < 5"
  shows "((x AND NOT (mask 5)) OR y) AND NOT (mask 5) = x AND NOT (mask 5)" "((x AND NOT (mask 5)) OR y) AND mask 5 = y"
  using assms by (auto intro!: bit_word_eqI simp: bit_and_iff bit_or_iff bit_not_iff bit_mask_iff)

lemma attrs8_bits: "bit (mpu_regionAttrsRbar ab attr) i \<Longrightarrow> i < 5" "bit (mpu_regionAttrsRlar ab attr enable) i \<Longrightarrow> i < 5"
  "bit (mpu_regionAttrsRlar ab attr enable) 0 \<longleftrightarrow> enable"
proof -
  have one: "bit (if c then 1 else 0 :: u32) j \<Longrightarrow> j = 0" for c j by (simp add: bit_1_iff split: if_splits)
  have two: "bit (if c then push_bit 1 1 else 0 :: u32) j \<Longrightarrow> j = 1" for c j by (cases c) (simp_all only: if_True if_False bit_push_bit_iff bit_1_iff bit_0_eq bot_apply, simp_all)
  show "bit (mpu_regionAttrsRbar ab attr) i \<Longrightarrow> i < 5"
    unfolding mpu_regionAttrsRbar_def Let_def bit_or_iff bit_push_bit_iff
    using one by (fastforce simp: bit_1_iff split: if_splits)
  show "bit (mpu_regionAttrsRlar ab attr enable) i \<Longrightarrow> i < 5"
    unfolding mpu_regionAttrsRlar_def Let_def bit_or_iff bit_push_bit_iff
    by (elim disjE conjE; drule one two) simp_all
  show "bit (mpu_regionAttrsRlar ab attr enable) 0 \<longleftrightarrow> enable"
    unfolding mpu_regionAttrsRlar_def Let_def bit_or_iff bit_push_bit_iff by simp
qed

lemma aligned_limit:
  assumes "2 ^ 5 dvd top_of ende" "0 < top_of ende"
  shows "((ende - 1) AND NOT (mask 5)) OR mask 5 = ende - 1"
proof -
  obtain q where q: "top_of ende = 2 ^ 5 * q" using assms(1) by blast
  then obtain p where p: "q = Suc p" using assms(2) by (cases q) auto
  have u: "unat (ende - 1) = 2 ^ 5 * p + (2 ^ 5 - 1)" unfolding top_minus_1 q p by simp
  have "take_bit 5 (ende - 1) = mask 5"
  proof -
    have "unat (take_bit 5 (ende - 1)) = unat (mask 5 :: u32)" unfolding unat_take u by (simp add: mask_eq_exp_minus_1)
    then show ?thesis by (simp only: word_unat_eq_iff)
  qed
  have "bit (ende - 1) i" if "i < 5" for i
  proof -
    have "bit (take_bit 5 (ende - 1)) i" unfolding \<open>take_bit 5 (ende - 1) = mask 5\<close> using that by (simp add: bit_mask_iff)
    then show ?thesis unfolding bit_take_bit_iff by blast
  qed
  then show ?thesis by (intro bit_word_eqI) (auto simp: bit_and_iff bit_or_iff bit_not_iff bit_mask_iff)
qed

lemma filter_update:
  assumes "i < length xs" "\<not> P (xs ! i)"
  shows "\<not> P r \<Longrightarrow> filter P (xs[i := r]) = filter P xs" "P r \<Longrightarrow> filter P xs = [] \<Longrightarrow> filter P (xs[i := r]) = [r]"
proof -
  have x: "xs = take i xs @ xs ! i # drop (Suc i) xs" "xs[i := r] = take i xs @ r # drop (Suc i) xs"
    using assms(1) by (simp_all add: id_take_nth_drop upd_conv_take_nth_drop)
  have "filter P xs = filter P (take i xs) @ filter P (drop (Suc i) xs)"
    using assms(2) by (subst x(1), simp only: filter_append filter.simps if_False)
  then show "\<not> P r \<Longrightarrow> filter P (xs[i := r]) = filter P xs" "P r \<Longrightarrow> filter P xs = [] \<Longrightarrow> filter P (xs[i := r]) = [r]"
    by (simp_all add: x(2))
qed

lemma region8_exact:
  assumes "\<not> (ende \<noteq> 0 \<and> ende \<le> start)" "ende - start \<noteq> 0 \<longrightarrow> (ende - start) AND 0x1f = 0 \<and> start AND 0x1f = 0"
    and r: "r = \<lparr>rbar8 = (start AND NOT 0x1f) OR mpu_regionAttrsRbar ab attr,
      rlar8 = ((if ende - start = 0 then 0xffffffff else ende - 1) AND NOT 0x1f) OR mpu_regionAttrsRlar ab attr enable\<rparr>"
  shows "region8_hit r a \<longleftrightarrow> enable \<and> in_range start ende a" "region8_rights r = (mpu_regionAttrsRbar ab attr, mpu_regionAttrsRlar ab attr enable)"
proof -
  have lim: "(if ende - start = 0 then 0xffffffff else ende - 1) = ende - 1" using assms(1) by auto
  have m: "x AND 0x1f = 0 \<longleftrightarrow> 2 ^ 5 dvd unat x" for x :: u32
  proof -
    have "x AND 0x1f = take_bit 5 x" unfolding mask_5 by (simp only: take_bit_eq_mask)
    then show ?thesis by (simp only: word_unat_eq_iff unat_take unat_0 dvd_eq_mod_eq_0)
  qed
  have al: "2 ^ 5 dvd unat start" "2 ^ 5 dvd top_of ende" "0 < top_of ende"
  proof -
    show "0 < top_of ende" by (simp add: top_of_def unat_gt_0)
    consider "ende = 0" "start = 0" | "ende - start \<noteq> 0" using assms(1) by force
    then show "2 ^ 5 dvd unat start" "2 ^ 5 dvd top_of ende"
    proof (atomize (full), cases)
      case 2
      then have d: "2 ^ 5 dvd unat start" "2 ^ 5 dvd top_of ende - unat start" using assms(2) m size_nat(2) [OF assms(1) 2] by auto
      then have "2 ^ 5 dvd unat start + (top_of ende - unat start)" by (rule dvd_add)
      then show "2 ^ 5 dvd unat start \<and> 2 ^ 5 dvd top_of ende" using d size_nat(1) [OF assms(1) 2] by simp
    qed (simp add: top_of_def)
  qed
  have st: "start AND NOT (mask 5) = start" using al(1) and_not_mask_self by blast
  have r': "rbar8 r = (start AND NOT (mask 5)) OR mpu_regionAttrsRbar ab attr" "rlar8 r = ((ende - 1) AND NOT (mask 5)) OR mpu_regionAttrsRlar ab attr enable"
    unfolding r lim mask_5 by simp_all
  have js: "((x AND NOT (mask 5)) OR y) AND NOT (mask 5) = x AND NOT (mask 5)" "((x AND NOT (mask 5)) OR y) AND mask 5 = y"
    if "y = mpu_regionAttrsRbar ab attr \<or> y = mpu_regionAttrsRlar ab attr enable" for x y
    using that join_split [of y x] attrs8_bits(1,2) by blast+
  show "region8_rights r = (mpu_regionAttrsRbar ab attr, mpu_regionAttrsRlar ab attr enable)" unfolding region8_rights_def r' by (simp add: js)
  have b: "rbar8 r AND NOT (mask 5) = start" unfolding r'(1) js(1) [OF disjI1 [OF refl]] by (rule st)
  have l: "(rlar8 r AND NOT (mask 5)) OR mask 5 = ende - 1" unfolding r'(2) js(1) [OF disjI2 [OF refl]] by (rule aligned_limit [OF al(2,3)])
  have "bit (rlar8 r) 0 \<longleftrightarrow> enable" unfolding r' bit_or_iff bit_and_iff bit_not_iff bit_mask_iff attrs8_bits(3) by simp
  moreover have "a \<le> ende - 1 \<longleftrightarrow> unat a < top_of ende" unfolding word_le_nat_alt top_minus_1 using al(3) by linarith
  ultimately show "region8_hit r a \<longleftrightarrow> enable \<and> in_range start ende a"
    unfolding region8_hit_def b l by (auto simp: in_range_nat word_le_nat_alt)
qed

definition mpu8_zero :: mpu8_common_t where
  "mpu8_zero = \<lparr>m8_type = 0, m8_regCnt = 0, m8_regMax = 0, m8_mapCnt = 0, m8_region = replicate 16 \<lparr>rbar8 = 0, rlar8 = 0\<rparr>, m8_mapId = replicate 16 0\<rparr>"

lemma invalidate8:
  "\<exists>ms rs. mpu8_regionInvalidate f l s = s\<lparr>m8_mapId := ms, m8_region := rs\<rparr> \<and> length ms = length (m8_mapId s) \<and> length rs = length (m8_region s) \<and>
     (\<forall>i<length (m8_region s). rs ! i = m8_region s ! i \<or> f \<le> i \<and> rs ! i = \<lparr>rbar8 = 1, rlar8 = 0\<rparr>)"
proof -
  have "\<exists>ms rs. foldl (\<lambda>s i. s\<lparr>m8_mapId := (m8_mapId s)[i := -1], m8_region := (m8_region s)[i := \<lparr>rbar8 = 1, rlar8 = 0\<rparr>]\<rparr>) s xs =
     s\<lparr>m8_mapId := ms, m8_region := rs\<rparr> \<and> length ms = length (m8_mapId s) \<and> length rs = length (m8_region s) \<and>
     (\<forall>i<length (m8_region s). rs ! i = m8_region s ! i \<or> i \<in> set xs \<and> rs ! i = \<lparr>rbar8 = 1, rlar8 = 0\<rparr>)" for xs
  proof (induction xs rule: rev_induct)
    case Nil
    then show ?case by (intro exI [of _ "m8_mapId s"] exI [of _ "m8_region s"]) simp
  next
    case (snoc x xs)
    then obtain ms rs where i: "foldl (\<lambda>s i. s\<lparr>m8_mapId := (m8_mapId s)[i := -1], m8_region := (m8_region s)[i := \<lparr>rbar8 = 1, rlar8 = 0\<rparr>]\<rparr>) s xs =
       s\<lparr>m8_mapId := ms, m8_region := rs\<rparr>" "length ms = length (m8_mapId s)" "length rs = length (m8_region s)"
      "\<forall>i<length (m8_region s). rs ! i = m8_region s ! i \<or> i \<in> set xs \<and> rs ! i = \<lparr>rbar8 = 1, rlar8 = 0\<rparr>" by blast
    have "rs[x := v] ! j = (if j = x \<and> x < length rs then v else rs ! j)" for v j by (cases "x < length rs") (simp_all add: nth_list_update list_update_beyond)
    then show ?case
      using i by (intro exI [of _ "ms[x := -1]"] exI [of _ "rs[x := \<lparr>rbar8 = 1, rlar8 = 0\<rparr>]"]) auto
  qed
  from this [of "[f..<min l (m8_regMax s)]"] show ?thesis unfolding mpu8_regionInvalidate_def by (auto 4 3)
qed

lemma init8_inv:
  assumes "drop_bit 8 ty AND 0xff \<noteq> 0"
  shows "mpu8_inv (mpu8_init ty mpu8_zero)" "mpu8_granted (mpu8_init ty mpu8_zero) a = None"
proof -
  let ?n = "unat (drop_bit 8 ty AND 0xff)"
  let ?s = "mpu8_zero\<lparr>m8_type := ty, m8_regMax := (if ?n > 16 then 16 else ?n), m8_regCnt := 0, m8_mapCnt := 0\<rparr>"
  have n: "0 < ?n" using assms by (simp add: unat_gt_0)
  have m: "mpu8_init ty mpu8_zero = mpu8_regionInvalidate 0 16 ?s" by (simp add: mpu8_init_def Let_def MPU_MAX_REGIONS_def)
  have l: "length (m8_mapId ?s) = 16" "length (m8_region ?s) = 16" "m8_region ?s ! j = \<lparr>rbar8 = 0, rlar8 = 0\<rparr>" if "j < 16" for j
    using that by (simp_all add: mpu8_zero_def)
  obtain ms rs where x: "mpu8_regionInvalidate 0 16 ?s = ?s\<lparr>m8_mapId := ms, m8_region := rs\<rparr>" "length ms = length (m8_mapId ?s)" "length rs = length (m8_region ?s)"
      "\<forall>i<length (m8_region ?s). rs ! i = m8_region ?s ! i \<or> 0 \<le> i \<and> rs ! i = \<lparr>rbar8 = 1, rlar8 = 0\<rparr>"
    using invalidate8 [of 0 16 ?s] by blast
  have i: "mpu8_init ty mpu8_zero = ?s\<lparr>m8_mapId := ms, m8_region := rs\<rparr>" using m x(1) by (rule trans)
  have ln: "length ms = 16" "length rs = 16" using x(2,3) l(1,2) [of 0] by simp_all
  have e: "rs ! j = \<lparr>rbar8 = 0, rlar8 = 0\<rparr> \<or> rs ! j = \<lparr>rbar8 = 1, rlar8 = 0\<rparr>" if "j < 16" for j
    using x(4) l(2,3) [OF that] that by metis
  have off: "\<not> bit (rlar8 (rs ! i)) 0" if "i < 16" for i using e [OF that] by auto
  then have f: "filter (\<lambda>r. region8_hit r a) rs = []" for a using ln(2) by (auto simp: filter_empty_conv in_set_conv_nth region8_hit_def)
  show "mpu8_inv (mpu8_init ty mpu8_zero)" using n i ln off f by (simp add: mpu8_inv_def)
  show "mpu8_granted (mpu8_init ty mpu8_zero) a = None" using i f by (simp add: mpu8_granted_def)
qed

lemma alloc8_law:
  assumes "mpu8_inv s" "mpu8_regionAlloc ab start ende attr mapId True s = (res, s')"
  shows "res = Inl e \<Longrightarrow> s' = s"
    "res = Inr () \<Longrightarrow> (\<And>a. in_range start ende a \<Longrightarrow> mpu8_granted s a = None) \<Longrightarrow>
       mpu8_inv s' \<and> (\<forall>a. mpu8_granted s' a =
         (if in_range start ende a then Some (mpu_regionAttrsRbar ab attr, mpu_regionAttrsRlar ab attr True) else mpu8_granted s a))"
proof -
  let ?n = "m8_regCnt s"
  define r where "r = \<lparr>rbar8 = (start AND NOT 0x1f) OR mpu_regionAttrsRbar ab attr,
      rlar8 = ((if ende - start = 0 then 0xffffffff else ende - 1) AND NOT 0x1f) OR mpu_regionAttrsRlar ab attr True\<rparr>"
  let ?t = "s\<lparr>m8_region := (m8_region s)[?n := r], m8_mapId := (m8_mapId s)[?n := mapId], m8_regCnt := ?n + 1, m8_mapCnt := m8_mapCnt s + 1\<rparr>"
  have pos: "m8_regMax s \<noteq> 0" using assms(1) by (simp add: mpu8_inv_def)
  have id: "mpu8_regionInvalidate ?n ?n s = s" by (simp add: mpu8_regionInvalidate_def)
  show "s' = s" if "res = Inl e"
    using assms(2) that pos id by (auto simp: mpu8_regionAlloc_def mpu8_regionSet_def Let_def split: if_splits)
  assume ok: "res = Inr ()" and free: "\<And>a. in_range start ende a \<Longrightarrow> mpu8_granted s a = None"
  have c: "?n < m8_regMax s" "\<not> (ende \<noteq> 0 \<and> ende \<le> start)" "ende - start \<noteq> 0 \<longrightarrow> (ende - start) AND 0x1f = 0 \<and> start AND 0x1f = 0" "s' = ?t"
    using assms(2) ok pos by (auto simp: mpu8_regionAlloc_def mpu8_regionSet_def Let_def r_def split: if_splits)
  note ex = region8_exact [OF c(2,3) r_def]
  have v: "length (m8_region s) = 16" "m8_regMax s \<le> 16" "length (m8_mapId s) = 16" "\<And>i. i < 16 \<Longrightarrow> ?n \<le> i \<Longrightarrow> \<not> bit (rlar8 (m8_region s ! i)) 0"
      "\<And>a. length (filter (\<lambda>x. region8_hit x a) (m8_region s)) \<le> 1"
    using assms(1) by (simp_all add: mpu8_inv_def)
  have nth: "?n < length (m8_region s)" "\<not> region8_hit (m8_region s ! ?n) a" for a using v c(1) by (auto simp: region8_hit_def)
  have f: "filter (\<lambda>x. region8_hit x a) (m8_region s') = (if in_range start ende a then [r] else filter (\<lambda>x. region8_hit x a) (m8_region s))" for a
  proof (cases "in_range start ende a")
    case True
    have "filter (\<lambda>x. region8_hit x a) (m8_region s) = []"
      using free [OF True] v(5) [of a] by (auto simp: mpu8_granted_def le_Suc_eq length_Suc_conv split: list.splits)
    then show ?thesis using True filter_update(2) [of ?n "m8_region s" "\<lambda>x. region8_hit x a" r] nth ex(1) c(4) by simp
  next
    case False
    then show ?thesis using filter_update(1) [of ?n "m8_region s" "\<lambda>x. region8_hit x a" r] nth ex(1) c(4) by simp
  qed
  have "mpu8_inv s'"
    using pos v c(1) f unfolding mpu8_inv_def by (auto simp: c(4) nth_list_update)
  moreover have "mpu8_granted s' a = (if in_range start ende a then Some (mpu_regionAttrsRbar ab attr, mpu_regionAttrsRlar ab attr True) else mpu8_granted s a)" for a
    unfolding mpu8_granted_def f by (simp add: ex(2))
  ultimately show "mpu8_inv s' \<and> (\<forall>a. mpu8_granted s' a =
      (if in_range start ende a then Some (mpu_regionAttrsRbar ab attr, mpu_regionAttrsRlar ab attr True) else mpu8_granted s a))" by blast
qed

definition hal_memoryAddMap8 :: "attr_bits \<Rightarrow> map_req \<Rightarrow> mpu8_common_t \<Rightarrow> (errno + unit) \<times> mpu8_common_t" where
  "hal_memoryAddMap8 ab r = mpu8_regionAlloc ab (mq_start r) (mq_end r) (mq_attr r) (mq_id r) True"

definition rights8 :: "attr_bits \<Rightarrow> map_req \<Rightarrow> u32 \<times> u32" where
  "rights8 ab r = (mpu_regionAttrsRbar ab (mq_attr r), mpu_regionAttrsRlar ab (mq_attr r) True)"

interpretation v8: protection "hal_memoryAddMap8 ab" mpu8_inv mpu8_granted req_covers "rights8 ab" "\<lambda>_. True"
proof unfold_locales
  fix s r s'
  assume a: "mpu8_inv s" "\<And>a. req_covers r a \<Longrightarrow> mpu8_granted s a = None" "hal_memoryAddMap8 ab r s = (Inr (), s')"
  then show "mpu8_inv s' \<and> (\<forall>a. mpu8_granted s' a = (if req_covers r a then Some (rights8 ab r) else mpu8_granted s a))"
    using alloc8_law(2) [OF a(1) _ refl, of ab "mq_start r" "mq_end r" "mq_attr r" "mq_id r" s']
    by (simp add: hal_memoryAddMap8_def req_covers_def rights8_def)
next
  fix s r e s'
  assume "mpu8_inv s" "hal_memoryAddMap8 ab r s = (Inl e, s')"
  then show "mpu8_inv s' \<and> mpu8_granted s' = mpu8_granted s"
    using alloc8_law(1) by (fastforce simp: hal_memoryAddMap8_def)
qed

section \<open>Access rights\<close>

text \<open>
  The rights the hardware decodes from the two registers of a region: AP in bits 1 and 2 of RBAR, XN in its bit 0, the upper bit of
  SH in its bit 4, PXN in bit 4 of RLAR, and in its bits 1 to 3 the index of the memory attributes, which \<open>mpu_init\<close> numbers so that 1
  is added for cacheable and 2 for bufferable memory.
\<close>

definition perm8 :: "u32 \<times> u32 \<Rightarrow> mem_perm" where
  "perm8 v =
     (let ap = unat (drop_bit 1 (fst v) AND 3); xn = bit (fst v) 0; pxn = bit (snd v) 4
      in \<lparr>user_read = (ap \<in> {1, 3}), user_write = (ap = 1), priv_read = True, priv_write = (ap \<in> {0, 1}),
          user_exec = (ap \<in> {1, 3} \<and> \<not> xn), priv_exec = (\<not> xn \<and> \<not> pxn), shared_mem = bit (fst v) 4,
          mem_kind = unat (drop_bit 1 (snd v) AND 7)\<rparr>)"

text \<open>
  What the loader gives a map on ARMv8-M. There is no encoding for memory the system writes and the user only reads, and the loader
  lets the user write such a map, too: it is the right of ARMv7-M except that a readable map is also writable.
\<close>

definition map_perm8 :: "attr_bits \<Rightarrow> u32 \<Rightarrow> mem_perm" where
  "map_perm8 ab attr = (map_perm7 ab attr)\<lparr>user_write := has_attr attr (mAttrRead ab) \<or> has_attr attr (mAttrWrite ab)\<rparr>"

lemma perm8_attrs: "perm8 (rights8 ab r) = map_perm8 ab (mq_attr r)"
  unfolding perm8_def map_perm8_def map_perm7_def rights8_def mpu_regionAttrsRbar_def mpu_regionAttrsRlar_def has_attr_def Let_def
  by (cases "mq_attr r AND mAttrRead ab = 0"; cases "mq_attr r AND mAttrWrite ab = 0"; cases "mq_attr r AND mAttrExec ab = 0";
      cases "mq_attr r AND mAttrShareable ab = 0"; cases "mq_attr r AND mAttrCacheable ab = 0"; cases "mq_attr r AND mAttrBufferable ab = 0") simp_all

section \<open>Properties\<close>

text \<open>
  C29: On an ARMv8-M processor with a protection unit, after start-up and any sequence of requests for maps that do not overlap, each address of an accepted map has these rights, as
  the hardware decodes them, and the regions give none to the other addresses: the system reads and writes; the user reads what is readable or writable, and may also write it, so that a read-only map is not
  protected against user writes; execution, sharing, caching and buffering are as the attributes of the map say, where user code must be readable.
\<close>

theorem mpu8_maps_protected:
  assumes "drop_bit 8 ty AND 0xff \<noteq> 0" "apart req_covers rs" "run_requests (hal_memoryAddMap8 ab) rs (mpu8_init ty mpu8_zero) = (accepted, s)"
  shows "(\<lambda>a. map_option perm8 (mpu8_granted s a)) = rights_of req_covers (\<lambda>r. map_perm8 ab (mq_attr r)) accepted"
proof -
  have "mpu8_granted s = rights_of req_covers (rights8 ab) accepted"
    using v8.protects [OF init8_inv [OF assms(1)] _ assms(2,3)] by (simp add: list_all_iff)
  then show ?thesis by (simp add: fun_eq_iff map_rights_of perm8_attrs)
qed

theorem mpu8_maps_protected_witness:
  "(\<lambda>a. map_option perm8 (mpu8_granted (snd (run_requests (hal_memoryAddMap8 attr_bits7) req_example (mpu8_init 0x800 mpu8_zero))) a)) =
     rights_of req_covers (\<lambda>r. map_perm8 attr_bits7 (mq_attr r)) req_example"
proof -
  have r: "fst (run_requests (hal_memoryAddMap8 attr_bits7) req_example (mpu8_init 0x800 mpu8_zero)) = req_example" by code_simp
  have "drop_bit 8 (0x800::u32) AND 0xff \<noteq> 0" by simp
  from mpu8_maps_protected [OF this req_example_apart prod.collapse [symmetric], of attr_bits7] show ?thesis unfolding r .
qed

text \<open>A map that is only readable: the user may write it.\<close>

lemma readonly_map_writable:
  "has_attr attr (mAttrRead ab) \<Longrightarrow> \<not> has_attr attr (mAttrWrite ab) \<Longrightarrow> user_write (map_perm8 ab attr) \<and> \<not> user_write (map_perm7 ab attr)"
  by (simp add: map_perm8_def map_perm7_def)

end
