(* ===== verification/Dtb.thy ===== *)
theory Dtb
  imports Hal_String
begin

text \<open>
  \<open>hal/riscv64/dtb.c\<close>: the parser of the flattened device tree that the firmware hands to the loader. The tree is a
  sequence of tokens of 32 bits in network order: the beginning of a node with its name, the end of a node, a property with
  its length, the offset of its name among the strings, and its data. The parser walks over the tokens with one state
  variable and the depth, and keeps pointers to the data it is interested in. The loader asks only whether there is a PLIC.

  Memory is little-endian, pointers are addresses of 64 bits. \<open>None\<close> stands for a walk that does not end and for the
  undefined behaviour of a store behind the array of processors. The fields of \<open>dtb_common\<close> that nothing reads or writes
  (\<open>reg\<close> and \<open>intctl\<close> of a processor, \<open>soc.intctl.reg\<close>) and the address of the loader's start are left out.
\<close>

record dtb_cpu =
  c_compatible :: addr_t
  c_mmu :: addr_t
  c_isa :: addr_t
  c_clock :: u32

record dtb_t =
  dtb_fdth :: addr_t
  dtb_model :: addr_t
  dtb_compatible :: addr_t
  dtb_ncpus :: nat
  dtb_cpus :: "dtb_cpu list"
  dtb_nreg :: nat
  dtb_reg :: addr_t
  dtb_intctl :: bool

definition DTB_CPUS :: nat where
  "DTB_CPUS = 8"

datatype dtb_state = stateIdle | stateSystem | stateCPU | stateCPUInterruptController | stateMemory | stateSOC
  | stateSOCInterruptController

section \<open>Access to the memory\<close>

definition ntoh16 :: "u32 \<Rightarrow> u32" where
  "ntoh16 x = (push_bit 8 x AND 0xff00) OR (drop_bit 8 x AND 0xff)"

definition ntoh32 :: "u32 \<Rightarrow> u32" where
  "ntoh32 x = push_bit 16 (ntoh16 x) OR ntoh16 (drop_bit 16 x)"

definition ld32 :: "mem \<Rightarrow> addr_t \<Rightarrow> u32" where
  "ld32 m p = le32_of (mem_bytes m p 4)"

definition mem_chars :: "mem \<Rightarrow> addr_t \<Rightarrow> nat \<Rightarrow> string" where
  "mem_chars m p n = map (\<lambda>b. char_of (unat b)) (mem_bytes m p n)"

text \<open>The comparisons read no further than the constant string requires.\<close>

definition str_is :: "mem \<Rightarrow> addr_t \<Rightarrow> string \<Rightarrow> bool" where
  "str_is m p s \<longleftrightarrow> hal_strcmp (mem_chars m p (Suc (length s))) s = 0"

definition starts_with :: "mem \<Rightarrow> addr_t \<Rightarrow> string \<Rightarrow> bool" where
  "starts_with m p s \<longleftrightarrow> hal_strncmp (mem_chars m p (length s)) s (length s) = 0"

partial_function (option) mem_strlen :: "mem \<Rightarrow> addr_t \<Rightarrow> size_t \<Rightarrow> size_t option" where
  "mem_strlen m p n = (if m p = 0 then Some n else mem_strlen m (p + 1) (n + 1))"

section \<open>Properties of nodes\<close>

definition dtb_getString :: "mem \<Rightarrow> dtb_t \<Rightarrow> u32 \<Rightarrow> addr_t" where
  "dtb_getString m dc i = dtb_fdth dc + ucast (ntoh32 (ld32 m (dtb_fdth dc + 12))) + ucast i"

definition dtb_parseSystem :: "mem \<Rightarrow> addr_t \<Rightarrow> u32 \<Rightarrow> dtb_t \<Rightarrow> dtb_t" where
  "dtb_parseSystem m p si dc =
     (if str_is m (dtb_getString m dc si) ''model'' then dc\<lparr>dtb_model := p\<rparr>
      else if str_is m (dtb_getString m dc si) ''compatible'' then dc\<lparr>dtb_compatible := p\<rparr>
      else dc)"

definition cpu_update :: "(dtb_cpu \<Rightarrow> dtb_cpu) \<Rightarrow> dtb_t \<Rightarrow> dtb_t option" where
  "cpu_update f dc =
     (if dtb_ncpus dc < DTB_CPUS
      then Some (dc\<lparr>dtb_cpus := (dtb_cpus dc)[dtb_ncpus dc := f (dtb_cpus dc ! dtb_ncpus dc)]\<rparr>) else None)"

definition dtb_parseCPU :: "mem \<Rightarrow> addr_t \<Rightarrow> u32 \<Rightarrow> dtb_t \<Rightarrow> dtb_t option" where
  "dtb_parseCPU m p si dc =
     (let s = dtb_getString m dc si in
      if str_is m s ''compatible'' then cpu_update (\<lambda>c. c\<lparr>c_compatible := p\<rparr>) dc
      else if str_is m s ''riscv,isa'' then cpu_update (\<lambda>c. c\<lparr>c_isa := p\<rparr>) dc
      else if str_is m s ''mmu-type'' then cpu_update (\<lambda>c. c\<lparr>c_mmu := p\<rparr>) dc
      else if str_is m s ''clock-frequency'' then cpu_update (\<lambda>c. c\<lparr>c_clock := ntoh32 (ld32 m p)\<rparr>) dc
      else Some dc)"

definition dtb_parseInterruptController :: "dtb_t \<Rightarrow> dtb_t" where
  "dtb_parseInterruptController dc = dc"

definition dtb_parseSOCInterruptController :: "dtb_t \<Rightarrow> dtb_t" where
  "dtb_parseSOCInterruptController dc = dc\<lparr>dtb_intctl := True\<rparr>"

definition dtb_parseMemory :: "mem \<Rightarrow> addr_t \<Rightarrow> u32 \<Rightarrow> u32 \<Rightarrow> dtb_t \<Rightarrow> dtb_t" where
  "dtb_parseMemory m p si l dc =
     (if str_is m (dtb_getString m dc si) ''reg'' then dc\<lparr>dtb_nreg := unat (l div 16), dtb_reg := p\<rparr> else dc)"

section \<open>The walk\<close>

definition begin_state :: "mem \<Rightarrow> addr_t \<Rightarrow> dtb_state \<Rightarrow> u32 \<Rightarrow> dtb_state" where
  "begin_state m p state d =
     (if d = 0 \<and> m p = 0 then stateSystem
      else if d = 1 \<and> starts_with m p ''memory@'' then stateMemory
      else if d = 2 \<and> starts_with m p ''cpu@'' then stateCPU
      else if state = stateCPU \<and> starts_with m p ''interrupt-controller'' then stateCPUInterruptController
      else if d = 1 \<and> starts_with m p ''soc'' then stateSOC
      else if state = stateSOC \<and> (starts_with m p ''interrupt-controller@'' \<or> starts_with m p ''plic@'')
        then stateSOCInterruptController
      else state)"

definition prop_step :: "mem \<Rightarrow> addr_t \<Rightarrow> u32 \<Rightarrow> u32 \<Rightarrow> dtb_state \<Rightarrow> dtb_t \<Rightarrow> dtb_t option" where
  "prop_step m p si l state dc =
     (case state of
        stateSystem \<Rightarrow> Some (dtb_parseSystem m p si dc)
      | stateMemory \<Rightarrow> Some (dtb_parseMemory m p si l dc)
      | stateCPU \<Rightarrow> dtb_parseCPU m p si dc
      | stateCPUInterruptController \<Rightarrow> Some (dtb_parseInterruptController dc)
      | stateSOCInterruptController \<Rightarrow> Some (dtb_parseSOCInterruptController dc)
      | _ \<Rightarrow> Some dc)"

definition end_step :: "dtb_state \<Rightarrow> dtb_t \<Rightarrow> dtb_state \<times> dtb_t" where
  "end_step state dc =
     (case state of
        stateCPU \<Rightarrow> (stateSystem, dc\<lparr>dtb_ncpus := dtb_ncpus dc + 1\<rparr>)
      | stateMemory \<Rightarrow> (stateSystem, dc)
      | stateCPUInterruptController \<Rightarrow> (stateCPU, dc)
      | stateSOCInterruptController \<Rightarrow> (stateSOC, dc)
      | _ \<Rightarrow> (state, dc))"

definition align4 :: "size_t \<Rightarrow> size_t" where
  "align4 n = (n + 3) AND NOT 3"

partial_function (option) dtb_loop :: "mem \<Rightarrow> addr_t \<Rightarrow> u32 \<Rightarrow> dtb_state \<Rightarrow> dtb_t \<Rightarrow> dtb_t option" where
  "dtb_loop m dtb d state dc =
     (let token = ntoh32 (ld32 m dtb); p = dtb + 4 in
      if token = 1 then
        (case mem_strlen m p 0 of
           None \<Rightarrow> None
         | Some n \<Rightarrow> dtb_loop m (p + align4 n) (d + 1) (begin_state m p state d) dc)
      else if token = 3 then
        (let l = align4 (ucast (ntoh32 (ld32 m p))); si = ntoh32 (ld32 m (p + 4)) in
         case prop_step m (p + 8) si (ucast l) state dc of
           None \<Rightarrow> None
         | Some dc' \<Rightarrow> dtb_loop m (p + 8 + l) d state dc')
      else if token = 2 then
        (case end_step state dc of (state', dc') \<Rightarrow> dtb_loop m p (d - 1) state' dc')
      else if token = 9 then Some dc
      else dtb_loop m p d state dc)"

declare mem_strlen.simps [code] dtb_loop.simps [code]

definition dtb_parse :: "mem \<Rightarrow> addr_t \<Rightarrow> dtb_t \<Rightarrow> dtb_t option" where
  "dtb_parse m dtb dc =
     (let dc1 = dc\<lparr>dtb_fdth := dtb\<rparr> in
      if ld32 m dtb \<noteq> ntoh32 0xd00dfeed then Some dc1
      else dtb_loop m (dtb + ucast (ntoh32 (ld32 m (dtb + 8)))) 0 stateIdle (dc1\<lparr>dtb_intctl := False, dtb_ncpus := 0\<rparr>))"

definition dtb_getPLIC :: "dtb_t \<Rightarrow> bool" where
  "dtb_getPLIC dc = dtb_intctl dc"

section \<open>Tokens\<close>

text \<open>The sequence of tokens that encodes a tree, and its bytes as the format defines them.\<close>

datatype token = BeginNode string | Prop string u32 bytes | EndNode | Nop

definition be32 :: "u32 \<Rightarrow> bytes" where
  "be32 x = rev (le32_bytes x)"

definition pad4 :: "bytes \<Rightarrow> bytes" where
  "pad4 bs = bs @ replicate ((4 - length bs mod 4) mod 4) 0"

fun token_bytes :: "token \<Rightarrow> bytes" where
  "token_bytes (BeginNode s) = be32 1 @ pad4 (map (\<lambda>c. of_int (code c)) s @ [0])"
| "token_bytes (Prop s off data) = be32 3 @ be32 (of_nat (length data)) @ be32 off @ pad4 data"
| "token_bytes EndNode = be32 2"
| "token_bytes Nop = be32 4"

section \<open>Reading encoded tokens\<close>

text \<open>The memory from an address on holds some bytes.\<close>

definition holds :: "mem \<Rightarrow> addr_t \<Rightarrow> bytes \<Rightarrow> bool" where
  "holds m p bs \<longleftrightarrow> mem_bytes m p (length bs) = bs"

lemma mem_bytes_add: "mem_bytes m p (i + j) = mem_bytes m p i @ mem_bytes m (p + of_nat i) j"
  by (induction i arbitrary: p) (simp_all add: mem_bytes_Suc mem_bytes_def [of m _ 0] add.assoc)

lemma holds_append: "holds m p (xs @ ys) \<longleftrightarrow> holds m p xs \<and> holds m (p + of_nat (length xs)) ys"
  by (auto simp: holds_def mem_bytes_add)

lemma holds_Nil [simp]: "holds m p []"
  by (simp add: holds_def mem_bytes_def)

lemma holds_Cons: "holds m p (b # bs) \<longleftrightarrow> m p = b \<and> holds m (p + 1) bs"
  by (simp add: holds_def mem_bytes_Suc)

lemma length_be32 [simp]: "length (be32 x) = 4"
  by (simp add: be32_def)

lemma ntoh32_le32_of: "ntoh32 (le32_of [a, b, c, d]) = le32_of [d, c, b, a]"
proof -
  have m: "(0xff00 :: u32) = push_bit 8 (mask 8)" "(0xff :: u32) = mask 8"
    by (simp_all add: mask_eq_exp_minus_1)
  have o: "\<not> bit x i" if "8 \<le> i" for x :: u8 and i
    using that bit_imp_le_length [of x i] by auto
  show ?thesis
  proof (rule bit_word_eqI)
    fix n assume "n < LENGTH(32)"
    then consider "n < 8" | "8 \<le> n" "n < 16" | "16 \<le> n" "n < 24" | "24 \<le> n" "n < 32" by fastforce
    then show "bit (ntoh32 (le32_of [a, b, c, d])) n = bit (le32_of [d, c, b, a]) n"
      unfolding ntoh32_def ntoh16_def m
      by cases (simp_all add: le32_of_def bit_or_iff bit_and_iff bit_push_bit_iff bit_drop_bit_eq bit_unsigned_iff bit_mask_iff o, auto)
  qed
qed

lemma ld32_be32: "holds m p (be32 x) \<Longrightarrow> ntoh32 (ld32 m p) = x"
proof -
  assume "holds m p (be32 x)"
  then have "ld32 m p = le32_of (be32 x)" by (simp add: holds_def ld32_def)
  also have "ntoh32 \<dots> = le32_of (le32_bytes x)" by (simp add: be32_def le32_bytes_def ntoh32_le32_of)
  finally show ?thesis by simp
qed

lemma mem_strlen_holds:
  "holds m p (bs @ [0]) \<Longrightarrow> 0 \<notin> set bs \<Longrightarrow> mem_strlen m p n = Some (n + of_nat (length bs))"
proof (induction bs arbitrary: p n)
  case Nil
  then show ?case by (simp add: holds_Cons mem_strlen.simps)
next
  case (Cons b bs)
  then show ?case by (simp add: holds_Cons mem_strlen.simps [of m p])
qed

definition up4 :: "nat \<Rightarrow> nat" where
  "up4 n = 4 * ((n + 3) div 4)"

lemma align4_of_nat:
  assumes "n + 3 < 2 ^ 64"
  shows "align4 (of_nat n) = of_nat (up4 n)"
proof -
  have u: "unat (of_nat n + 3 :: size_t) = n + 3"
    using assms unat_of_nat_small [where 'a = 64, of "n + 3"] by simp
  have "align4 (of_nat n) = (of_nat n + 3) AND NOT (mask 2)" by (simp add: align4_def mask_eq_exp_minus_1)
  also have "\<dots> = (of_nat n + 3) - take_bit 2 (of_nat n + 3)" by (rule and_not_mask)
  also have "\<dots> = of_nat (up4 n)"
  proof -
    have "take_bit 2 (of_nat n + 3 :: size_t) = of_nat ((n + 3) mod 4)"
    proof -
      have "unat (take_bit 2 (of_nat n + 3 :: size_t)) = (n + 3) mod 4"
        by (simp only: unsigned_take_bit_eq u) (simp add: take_bit_eq_mod)
      then show ?thesis by (metis of_nat_unat ucast_id)
    qed
    moreover have "(of_nat n + 3 :: size_t) = of_nat (up4 n) + of_nat ((n + 3) mod 4)"
    proof -
      have "n + 3 = up4 n + (n + 3) mod 4" by (simp add: up4_def)
      then have "(of_nat (n + 3) :: size_t) = of_nat (up4 n + (n + 3) mod 4)" by (rule arg_cong)
      then show ?thesis by (simp only: of_nat_add of_nat_numeral)
    qed
    ultimately show ?thesis by simp
  qed
  finally show ?thesis .
qed

lemma length_pad4 [simp]: "length (pad4 bs) = up4 (length bs)"
proof -
  have "n + (4 - n mod 4) mod 4 = 4 * ((n + 3) div 4)" for n :: nat
  proof -
    obtain q r where n: "n = r + 4 * q" and r: "r < 4" by (metis mod_mult_div_eq mod_less_divisor zero_less_numeral)
    have "(n + 3) div 4 = q + (r + 3) div 4" by (simp add: n)
    moreover have "n mod 4 = r" using r by (simp add: n)
    moreover have "r = 0 \<or> r = 1 \<or> r = 2 \<or> r = 3" using r by arith
    ultimately show ?thesis unfolding n by auto
  qed
  then show ?thesis by (simp add: pad4_def up4_def)
qed

section \<open>Names in memory\<close>

definition name_bytes :: "string \<Rightarrow> bytes" where
  "name_bytes s = map (\<lambda>c. of_int (code c)) s"

lemma length_name_bytes [simp]: "length (name_bytes s) = length s"
  by (simp add: name_bytes_def)

lemma char_of_code: "char_of (unat (of_int (code c) :: u8)) = c"
proof -
  have "code c = int (of_char c)" by (simp add: code_def of_nat_of_char)
  then have "of_int (code c) = (of_nat (of_char c) :: u8)" by simp
  then have "unat (of_int (code c) :: u8) = of_char c"
    using unat_of_nat_small [where 'a = 8, of "of_char c"] nat_of_char_less_256 [of c] by simp
  then show ?thesis by simp
qed

lemma strncmp_loop_k: "strncmp_loop n s t k = (k', s', t') \<Longrightarrow> k \<le> k' \<and> k' \<le> k + n"
  by (induction n s t k rule: strncmp_loop.induct) (auto split: if_splits)

lemma strncmp_loop_0:
  "strncmp_loop n s t k = (k', s', t') \<Longrightarrow>
   (k' = k + n \<or> chr0 s' = NUL \<and> chr0 t' = NUL) \<longleftrightarrow> take n (cstr s) = take n (cstr t)"
proof (induction n s t k rule: strncmp_loop.induct)
  case (2 n s t k)
  show ?case
  proof (cases "chr0 s \<noteq> NUL \<and> chr0 t \<noteq> NUL \<and> chr0 s = chr0 t")
    case True
    then obtain c s1 t1 where "s = c # s1" "t = c # t1" "c \<noteq> NUL" by (cases s; cases t) auto
    then show ?thesis using 2 by simp
  next
    case False
    then show ?thesis using 2 by (cases s; cases t) (auto split: if_splits)
  qed
qed auto

lemma hal_strncmp_eq_0: "hal_strncmp s t n = 0 \<longleftrightarrow> take n (cstr s) = take n (cstr t)"
proof -
  obtain k s' t' where l: "strncmp_loop n s t 0 = (k, s', t')" by (metis prod_cases3)
  then show ?thesis using strncmp_loop_0 [OF l] by (auto simp: hal_strncmp_def)
qed

lemma cstr_mem_chars:
  "holds m p (name_bytes s @ [0]) \<Longrightarrow> NUL \<notin> set s \<Longrightarrow> cstr (mem_chars m p n) = take n s"
proof (induction s arbitrary: p n)
  case Nil
  then show ?case by (cases n) (simp_all add: mem_chars_def name_bytes_def holds_Cons mem_bytes_Suc mem_bytes_def [of m p 0] NUL_def char_of_def)
next
  case (Cons c s)
  then have h: "m p = of_int (code c)" "holds m (p + 1) (name_bytes s @ [0])" by (auto simp: name_bytes_def holds_Cons)
  show ?case
  proof (cases n)
    case (Suc k)
    have "c \<noteq> NUL" using Cons.prems(2) by auto
    then show ?thesis using Suc Cons h by (simp add: mem_chars_def mem_bytes_Suc char_of_code)
  qed (simp add: mem_chars_def mem_bytes_def)
qed

lemma str_is_holds:
  assumes "holds m p (name_bytes s @ [0])" "NUL \<notin> set s" "NUL \<notin> set t"
  shows "str_is m p t \<longleftrightarrow> s = t"
proof -
  have "take (Suc (length t)) s = t \<longleftrightarrow> s = t"
    by (metis le_Suc_eq length_take min_def take_all_iff nat_le_linear Suc_n_not_le_n order_refl)
  then show ?thesis using assms by (simp add: str_is_def hal_strcmp_eq_0 cstr_mem_chars)
qed

lemma starts_with_holds:
  assumes "holds m p (name_bytes s @ [0])" "NUL \<notin> set s" "NUL \<notin> set t"
  shows "starts_with m p t \<longleftrightarrow> take (length t) s = t"
  using assms by (simp add: starts_with_def hal_strncmp_eq_0 cstr_mem_chars)

lemma name_bytes_0: "NUL \<notin> set s \<Longrightarrow> 0 \<notin> set (name_bytes s)"
proof -
  have "c = NUL" if "(of_int (code c) :: u8) = 0" for c
    using char_of_code [of c] that by (simp add: NUL_def char_of_def)
  then show "NUL \<notin> set s \<Longrightarrow> 0 \<notin> set (name_bytes s)" by (auto simp: name_bytes_def) metis
qed

section \<open>A machine over tokens\<close>

text \<open>
  What the parser does with a node or a property of a given name, without the memory the name is in; \<open>p\<close> is the address of
  the data, \<open>clk\<close> the number its first four bytes encode.
\<close>

definition begin_name :: "string \<Rightarrow> dtb_state \<Rightarrow> u32 \<Rightarrow> dtb_state" where
  "begin_name s state d =
     (if d = 0 \<and> s = [] then stateSystem
      else if d = 1 \<and> take 7 s = ''memory@'' then stateMemory
      else if d = 2 \<and> take 4 s = ''cpu@'' then stateCPU
      else if state = stateCPU \<and> take 20 s = ''interrupt-controller'' then stateCPUInterruptController
      else if d = 1 \<and> take 3 s = ''soc'' then stateSOC
      else if state = stateSOC \<and> (take 21 s = ''interrupt-controller@'' \<or> take 5 s = ''plic@'')
        then stateSOCInterruptController
      else state)"

definition prop_name :: "string \<Rightarrow> addr_t \<Rightarrow> nat \<Rightarrow> u32 \<Rightarrow> dtb_state \<Rightarrow> dtb_t \<Rightarrow> dtb_t option" where
  "prop_name s p len clk state dc =
     (case state of
        stateSystem \<Rightarrow>
          Some (if s = ''model'' then dc\<lparr>dtb_model := p\<rparr>
                else if s = ''compatible'' then dc\<lparr>dtb_compatible := p\<rparr> else dc)
      | stateMemory \<Rightarrow> Some (if s = ''reg'' then dc\<lparr>dtb_nreg := up4 len div 16, dtb_reg := p\<rparr> else dc)
      | stateCPU \<Rightarrow>
          (if s = ''compatible'' then cpu_update (\<lambda>c. c\<lparr>c_compatible := p\<rparr>) dc
           else if s = ''riscv,isa'' then cpu_update (\<lambda>c. c\<lparr>c_isa := p\<rparr>) dc
           else if s = ''mmu-type'' then cpu_update (\<lambda>c. c\<lparr>c_mmu := p\<rparr>) dc
           else if s = ''clock-frequency'' then cpu_update (\<lambda>c. c\<lparr>c_clock := clk\<rparr>) dc
           else Some dc)
      | stateSOCInterruptController \<Rightarrow> Some (dc\<lparr>dtb_intctl := True\<rparr>)
      | _ \<Rightarrow> Some dc)"

definition be32_of :: "bytes \<Rightarrow> u32" where
  "be32_of bs = le32_of (rev (take 4 bs))"

fun tok_step :: "token \<Rightarrow> addr_t \<Rightarrow> u32 \<times> dtb_state \<times> dtb_t \<Rightarrow> (u32 \<times> dtb_state \<times> dtb_t) option" where
  "tok_step (BeginNode s) p (d, state, dc) = Some (d + 1, begin_name s state d, dc)"
| "tok_step (Prop s off data) p (d, state, dc) =
     map_option (\<lambda>dc'. (d, state, dc')) (prop_name s (p + 12) (length data) (be32_of data) state dc)"
| "tok_step EndNode p (d, state, dc) = (case end_step state dc of (state', dc') \<Rightarrow> Some (d - 1, state', dc'))"
| "tok_step Nop p c = Some c"

fun tok_run :: "token list \<Rightarrow> addr_t \<Rightarrow> u32 \<times> dtb_state \<times> dtb_t \<Rightarrow> (u32 \<times> dtb_state \<times> dtb_t) option" where
  "tok_run [] p c = Some c"
| "tok_run (t # ts) p c =
     (case tok_step t p c of None \<Rightarrow> None | Some c' \<Rightarrow> tok_run ts (p + of_nat (length (token_bytes t))) c')"

text \<open>
  Tokens that the memory, with the strings from \<open>strs\<close> on, makes sense of: no NUL in a name, lengths within 32 bits, the
  name of a property where its offset says, and four bytes of data where a number is read.
\<close>

fun tok_ok :: "mem \<Rightarrow> addr_t \<Rightarrow> token \<Rightarrow> bool" where
  "tok_ok m strs (BeginNode s) \<longleftrightarrow> NUL \<notin> set s \<and> length s < 2 ^ 31"
| "tok_ok m strs (Prop s off data) \<longleftrightarrow> NUL \<notin> set s \<and> holds m (strs + ucast off) (name_bytes s @ [0]) \<and>
     length data < 2 ^ 31 \<and> (s = ''clock-frequency'' \<longrightarrow> 4 \<le> length data)"
| "tok_ok m strs EndNode \<longleftrightarrow> True"
| "tok_ok m strs Nop \<longleftrightarrow> True"

lemma cpu_update_fdth: "cpu_update f dc = Some dc' \<Longrightarrow> dtb_fdth dc' = dtb_fdth dc"
  by (auto simp: cpu_update_def split: if_splits)

lemma tok_step_fdth: "tok_step t p (d, state, dc) = Some (d', state', dc') \<Longrightarrow> dtb_fdth dc' = dtb_fdth dc"
  by (cases t) (auto simp: prop_name_def end_step_def cpu_update_fdth split: dtb_state.splits if_splits)

section \<open>The parser runs the machine\<close>

lemma begin_state_name:
  assumes "holds m p (name_bytes s @ [0])" "NUL \<notin> set s"
  shows "begin_state m p state d = begin_name s state d"
proof -
  have "m p = 0 \<longleftrightarrow> s = []"
    using assms name_bytes_0 [OF assms(2)] by (cases s) (auto simp: name_bytes_def holds_Cons)
  moreover have "starts_with m p ''memory@'' \<longleftrightarrow> take 7 s = ''memory@''"
    "starts_with m p ''cpu@'' \<longleftrightarrow> take 4 s = ''cpu@''"
    "starts_with m p ''interrupt-controller'' \<longleftrightarrow> take 20 s = ''interrupt-controller''"
    "starts_with m p ''soc'' \<longleftrightarrow> take 3 s = ''soc''"
    "starts_with m p ''interrupt-controller@'' \<longleftrightarrow> take 21 s = ''interrupt-controller@''"
    "starts_with m p ''plic@'' \<longleftrightarrow> take 5 s = ''plic@''"
    by (subst starts_with_holds [OF assms]; simp add: NUL_def numeral_eq_Suc)+
  ultimately show ?thesis by (simp only: begin_state_def begin_name_def)
qed

lemma prop_step_name:
  assumes "holds m (dtb_getString m dc si) (name_bytes s @ [0])" "NUL \<notin> set s" "len < 2 ^ 31"
    and "s = ''clock-frequency'' \<Longrightarrow> ntoh32 (ld32 m p) = clk"
  shows "prop_step m p si (ucast (of_nat (up4 len) :: size_t)) state dc = prop_name s p len clk state dc"
proof -
  have "NUL \<notin> set ''model''" "NUL \<notin> set ''compatible''" "NUL \<notin> set ''reg''" "NUL \<notin> set ''riscv,isa''"
    "NUL \<notin> set ''mmu-type''" "NUL \<notin> set ''clock-frequency''"
    by (simp_all add: NUL_def)
  note e = str_is_holds [OF assms(1,2) this(1)] str_is_holds [OF assms(1,2) this(2)] str_is_holds [OF assms(1,2) this(3)]
    str_is_holds [OF assms(1,2) this(4)] str_is_holds [OF assms(1,2) this(5)] str_is_holds [OF assms(1,2) this(6)]
  have "up4 len < 2 ^ 32" using assms(3) by (simp add: up4_def)
  then have "unat (ucast (of_nat (up4 len) :: size_t) :: u32) = up4 len"
    by (simp add: unsigned_ucast_eq unat_of_nat_small take_bit_nat_eq_self)
  then have "unat ((ucast (of_nat (up4 len) :: size_t) :: u32) div 16) = up4 len div 16" by (simp add: unat_div_distrib)
  then show ?thesis using assms(4)
    by (auto simp: prop_step_def prop_name_def dtb_parseSystem_def dtb_parseMemory_def dtb_parseCPU_def
        dtb_parseInterruptController_def dtb_parseSOCInterruptController_def e split: dtb_state.split)
qed

lemma token_bytes_Begin: "token_bytes (BeginNode s) = be32 1 @ pad4 (name_bytes s @ [0])"
  by (simp add: name_bytes_def)

lemma up4_Suc: "up4 (Suc n) = (if n mod 4 = 0 then up4 n + 4 else up4 n)"
proof -
  obtain q r where n: "n = r + 4 * q" and r: "r < 4" by (metis mod_mult_div_eq mod_less_divisor zero_less_numeral)
  have "(Suc n + 3) div 4 = q + (r + 4) div 4" "(n + 3) div 4 = q + (r + 3) div 4" by (simp_all add: n)
  moreover have "n mod 4 = r" using r by (simp add: n)
  moreover have "r = 0 \<or> r = 1 \<or> r = 2 \<or> r = 3" using r by arith
  ultimately show ?thesis by (auto simp: up4_def)
qed

lemma up4_0: "n mod 4 = 0 \<Longrightarrow> up4 n = n"
  by (auto simp: up4_def mod_eq_0_iff_dvd)

lemma holds_pad4: "holds m p (pad4 bs) \<Longrightarrow> holds m p bs"
  by (simp add: pad4_def holds_append)

lemma dtb_loop_zero:
  assumes "holds m p [0, 0, 0, 0]"
  shows "dtb_loop m p d state dc = dtb_loop m (p + 4) d state dc"
proof -
  have "holds m p (be32 0)" using assms by (simp add: be32_def le32_bytes_def)
  then show ?thesis by (simp add: dtb_loop.simps [of m p] ld32_be32)
qed

lemma dtb_loop_begin:
  assumes "holds m p (token_bytes (BeginNode s))" "NUL \<notin> set s" "length s < 2 ^ 31"
  shows "dtb_loop m p d state dc =
    dtb_loop m (p + of_nat (length (token_bytes (BeginNode s)))) (d + 1) (begin_name s state d) dc"
proof -
  let ?st = "begin_name s state d"
  have h: "holds m p (be32 1)" "holds m (p + 4) (pad4 (name_bytes s @ [0]))"
    using assms(1) by (simp_all only: token_bytes_Begin holds_append length_be32 of_nat_numeral)
  then have n: "holds m (p + 4) (name_bytes s @ [0])" by (auto dest: holds_pad4)
  have "dtb_loop m p d state dc = dtb_loop m (p + 4 + of_nat (up4 (length s))) (d + 1) ?st dc"
    using h(1) mem_strlen_holds [OF n name_bytes_0 [OF assms(2)], of 0] begin_state_name [OF n assms(2)] assms(3)
    by (simp add: dtb_loop.simps [of m p] ld32_be32 align4_of_nat)
  also have "\<dots> = dtb_loop m (p + 4 + of_nat (up4 (Suc (length s)))) (d + 1) ?st dc"
  proof (cases "length s mod 4 = 0")
    case True
    then have "pad4 (name_bytes s @ [0]) = name_bytes s @ [0, 0, 0, 0]"
    proof -
      have "Suc (length s) mod 4 = 1" using True mod_Suc [of "length s" 4] by simp
      then have "pad4 (name_bytes s @ [0]) = (name_bytes s @ [0]) @ replicate 3 0" by (simp add: pad4_def)
      then show ?thesis by (simp add: numeral_3_eq_3)
    qed
    then have "holds m (p + 4 + of_nat (up4 (length s))) [0, 0, 0, 0]" using h(2) True by (simp add: holds_append up4_0)
    then show ?thesis using True by (simp add: dtb_loop_zero up4_Suc add.assoc)
  qed (simp add: up4_Suc)
  finally show ?thesis by (simp add: token_bytes_Begin add.assoc del: token_bytes.simps)
qed

lemma dtb_loop_prop:
  assumes "holds m p (token_bytes (Prop s off data))" "tok_ok m strs (Prop s off data)"
    and "strs = dtb_fdth dc + ucast (ntoh32 (ld32 m (dtb_fdth dc + 12)))"
  shows "dtb_loop m p d state dc =
    (case prop_name s (p + 12) (length data) (be32_of data) state dc of None \<Rightarrow> None
     | Some dc' \<Rightarrow> dtb_loop m (p + of_nat (length (token_bytes (Prop s off data)))) d state dc')"
proof -
  have h: "holds m p (be32 3)" "holds m (p + 4) (be32 (of_nat (length data)))" "holds m (p + 8) (be32 off)"
    "holds m (p + 12) (pad4 data)"
    using assms(1) by (simp_all add: holds_append add.assoc)
  have l: "length data < 2 ^ 31" using assms(2) by simp
  then have "(ucast (of_nat (length data) :: u32) :: size_t) = of_nat (length data)"
    using of_nat_unat [of "of_nat (length data) :: u32", where 'a = size_t] unat_of_nat_small [where 'a = 32, of "length data"]
    by simp
  then have al: "align4 (ucast (ntoh32 (ld32 m (p + 4)))) = of_nat (up4 (length data))"
    using l by (simp add: ld32_be32 [OF h(2)] align4_of_nat)
  have "holds m (dtb_getString m dc off) (name_bytes s @ [0])" using assms(2,3) by (simp add: dtb_getString_def)
  moreover have "ntoh32 (ld32 m (p + 12)) = be32_of data" if "s = ''clock-frequency''"
  proof -
    have "4 \<le> length data" using assms(2) that by simp
    then obtain a b c e rest where "data = a # b # c # e # rest"
      by (auto simp: numeral_eq_Suc Suc_le_length_iff)
    moreover from this have "mem_bytes m (p + 12) 4 = [a, b, c, e]"
      using holds_pad4 [OF h(4)] by (simp add: holds_Cons mem_bytes_Suc numeral_eq_Suc mem_bytes_def [of m _ 0] add.assoc)
    ultimately show ?thesis by (simp add: ld32_def ntoh32_le32_of be32_of_def)
  qed
  ultimately have "prop_step m (p + 12) off (ucast (of_nat (up4 (length data)) :: size_t)) state dc =
      prop_name s (p + 12) (length data) (be32_of data) state dc"
    using assms(2) l by (intro prop_step_name) simp_all
  then show ?thesis
    using al by (simp add: dtb_loop.simps [of m p] ld32_be32 [OF h(1)] ld32_be32 [OF h(3)] add.assoc split: option.split)
qed

lemma dtb_loop_token:
  assumes "holds m p (token_bytes t)" "tok_ok m strs t"
    and "strs = dtb_fdth dc + ucast (ntoh32 (ld32 m (dtb_fdth dc + 12)))"
  shows "dtb_loop m p d state dc =
    (case tok_step t p (d, state, dc) of None \<Rightarrow> None
     | Some (d', state', dc') \<Rightarrow> dtb_loop m (p + of_nat (length (token_bytes t))) d' state' dc')"
proof (cases t)
  case (BeginNode s)
  then show ?thesis using dtb_loop_begin [of m p s d state dc] assms(1,2) by simp
next
  case (Prop s off data)
  then show ?thesis using dtb_loop_prop [of m p s off data strs dc d state] assms by (simp split: option.split)
next
  case EndNode
  then show ?thesis using assms(1) by (simp add: dtb_loop.simps [of m p] ld32_be32 split: prod.split)
next
  case Nop
  then show ?thesis using assms(1) by (simp add: dtb_loop.simps [of m p] ld32_be32)
qed

definition tokens_bytes :: "token list \<Rightarrow> bytes" where
  "tokens_bytes ts = concat (map token_bytes ts)"

lemma dtb_loop_run:
  assumes "holds m p (tokens_bytes ts)" "list_all (tok_ok m strs) ts"
    and "strs = dtb_fdth dc + ucast (ntoh32 (ld32 m (dtb_fdth dc + 12)))"
  shows "dtb_loop m p d state dc =
    (case tok_run ts p (d, state, dc) of None \<Rightarrow> None
     | Some (d', state', dc') \<Rightarrow> dtb_loop m (p + of_nat (length (tokens_bytes ts))) d' state' dc')"
  using assms
proof (induction ts arbitrary: p d state dc)
  case Nil
  then show ?case by (simp add: tokens_bytes_def)
next
  case (Cons t ts)
  have h: "holds m p (token_bytes t)" "holds m (p + of_nat (length (token_bytes t))) (tokens_bytes ts)"
    using Cons.prems(1) by (simp_all add: tokens_bytes_def holds_append)
  have step: "dtb_loop m p d state dc =
      (case tok_step t p (d, state, dc) of None \<Rightarrow> None
       | Some (d', state', dc') \<Rightarrow> dtb_loop m (p + of_nat (length (token_bytes t))) d' state' dc')"
    using Cons.prems(2) by (intro dtb_loop_token [OF h(1) _ Cons.prems(3)]) simp
  show ?case
  proof (cases "tok_step t p (d, state, dc)")
    case None
    then show ?thesis using step by simp
  next
    case (Some c)
    obtain d' state' dc' where c: "c = (d', state', dc')" by (cases c)
    have "strs = dtb_fdth dc' + ucast (ntoh32 (ld32 m (dtb_fdth dc' + 12)))"
      using Cons.prems(3) tok_step_fdth [OF Some [unfolded c]] by simp
    moreover have len: "p + of_nat (length (tokens_bytes (t # ts))) =
        p + of_nat (length (token_bytes t)) + of_nat (length (tokens_bytes ts))"
      by (simp add: tokens_bytes_def)
    ultimately show ?thesis unfolding len using Cons.IH [OF h(2)] Cons.prems(2) step Some c by simp
  qed
qed

text \<open>A device tree in memory: the header, the tokens and the strings, each where the header says.\<close>

definition fdt_at :: "mem \<Rightarrow> addr_t \<Rightarrow> u32 \<Rightarrow> u32 \<Rightarrow> token list \<Rightarrow> bool" where
  "fdt_at m p off_struct off_strings ts \<longleftrightarrow>
     holds m p (be32 0xd00dfeed) \<and> holds m (p + 8) (be32 off_struct) \<and> holds m (p + 12) (be32 off_strings) \<and>
     holds m (p + ucast off_struct) (tokens_bytes ts @ be32 9) \<and> list_all (tok_ok m (p + ucast off_strings)) ts"

definition dtb_reset :: "addr_t \<Rightarrow> dtb_t \<Rightarrow> dtb_t" where
  "dtb_reset p dc = dc\<lparr>dtb_fdth := p, dtb_intctl := False, dtb_ncpus := 0\<rparr>"

lemma ntoh32_ntoh32: "ntoh32 (ntoh32 x) = x"
  using ntoh32_le32_of [of "le32_bytes x ! 0" "le32_bytes x ! 1" "le32_bytes x ! 2" "le32_bytes x ! 3"]
    ntoh32_le32_of [of "le32_bytes x ! 3" "le32_bytes x ! 2" "le32_bytes x ! 1" "le32_bytes x ! 0"] le32_of_bytes [of x]
  by (simp add: le32_bytes_def)

lemma dtb_parse_run:
  assumes "fdt_at m p off_struct off_strings ts"
  shows "dtb_parse m p dc =
    map_option (\<lambda>(d, state, dc'). dc') (tok_run ts (p + ucast off_struct) (0, stateIdle, dtb_reset p dc))"
proof -
  note f = assms [unfolded fdt_at_def]
  have "ld32 m p = ntoh32 0xd00dfeed" using f ld32_be32 [of m p "0xd00dfeed"] ntoh32_ntoh32 [of "ld32 m p"] by simp
  then have parse: "dtb_parse m p dc = dtb_loop m (p + ucast off_struct) 0 stateIdle (dtb_reset p dc)"
    using f ld32_be32 [of m "p + 8" off_struct] by (simp add: dtb_parse_def dtb_reset_def)
  have h: "holds m (p + ucast off_struct) (tokens_bytes ts)"
    "holds m (p + ucast off_struct + of_nat (length (tokens_bytes ts))) (be32 9)"
    using f by (simp_all add: holds_append)
  have e: "dtb_loop m (p + ucast off_struct + of_nat (length (tokens_bytes ts))) d state dc' = Some dc'" for d state dc'
    using h(2) by (simp add: dtb_loop.simps [of m "p + ucast off_struct + of_nat (length (tokens_bytes ts))"] ld32_be32)
  have "list_all (tok_ok m (p + ucast off_strings)) ts" "p + ucast off_strings = dtb_fdth (dtb_reset p dc) +
      ucast (ntoh32 (ld32 m (dtb_fdth (dtb_reset p dc) + 12)))"
    using f ld32_be32 [of m "p + 12" off_strings] by (simp_all add: dtb_reset_def)
  then show ?thesis unfolding parse
    by (subst dtb_loop_run [OF h(1)]) (auto simp: e split: option.split)
qed

end
