(* ===== verification/Dtb_Props.thy ===== *)
theory Dtb_Props
  imports Dtb
begin

text \<open>
  What the device tree parser finds in a tree: runs of the machine over tokens composed along nodes and forests, the number of
  processors and the interrupt controller that the parser reports for an encoded tree, and an example of one in memory.
\<close>

section \<open>Facts on runs\<close>

lemma tok_run_append:
  "tok_run (xs @ ys) p c =
     (case tok_run xs p c of None \<Rightarrow> None | Some c' \<Rightarrow> tok_run ys (p + of_nat (length (tokens_bytes xs))) c')"
  by (induction xs arbitrary: p c) (auto simp: tokens_bytes_def add.assoc split: option.split)

lemma prop_name_frame:
  "prop_name s p len clk state dc = Some dc' \<Longrightarrow> dtb_ncpus dc' = dtb_ncpus dc \<and>
     dtb_intctl dc' = (dtb_intctl dc \<or> state = stateSOCInterruptController)"
  by (auto simp: prop_name_def cpu_update_def split: dtb_state.splits if_splits)

lemma end_step_frame:
  "end_step state dc = (state', dc') \<Longrightarrow> dtb_intctl dc' = dtb_intctl dc \<and>
     dtb_ncpus dc' = (if state = stateCPU then Suc (dtb_ncpus dc) else dtb_ncpus dc)"
  by (auto simp: end_step_def split: dtb_state.splits)

definition is_cpu_name :: "string \<Rightarrow> bool" where
  "is_cpu_name s \<longleftrightarrow> take 4 s = ''cpu@''"

definition is_plic_name :: "string \<Rightarrow> bool" where
  "is_plic_name s \<longleftrightarrow> take 21 s = ''interrupt-controller@'' \<or> take 5 s = ''plic@''"

definition cpu_states :: "dtb_state set" where
  "cpu_states = {stateCPU, stateCPUInterruptController}"

text \<open>The parser returns when the tree has at most eight nodes of processors.\<close>

definition cpu_begins :: "token list \<Rightarrow> nat" where
  "cpu_begins ts = length (filter (\<lambda>t. case t of BeginNode s \<Rightarrow> is_cpu_name s | _ \<Rightarrow> False) ts)"

lemma prop_name_returns:
  "state = stateCPU \<longrightarrow> dtb_ncpus dc < DTB_CPUS \<Longrightarrow> prop_name s p len clk state dc \<noteq> None"
  by (auto simp: prop_name_def cpu_update_def split: dtb_state.splits)

lemma begin_name_cpu:
  "begin_name s state d \<in> cpu_states \<Longrightarrow> is_cpu_name s \<or> state \<in> cpu_states"
  by (auto simp: begin_name_def cpu_states_def is_cpu_name_def split: if_splits)

lemma end_step_cpu:
  "end_step state dc = (state', dc') \<Longrightarrow>
   dtb_ncpus dc' + (if state' \<in> cpu_states then 1 else 0) \<le> dtb_ncpus dc + (if state \<in> cpu_states then 1 else 0)"
  by (cases state) (auto simp: end_step_def cpu_states_def)

lemma tok_run_returns:
  assumes "dtb_ncpus dc + (if state \<in> cpu_states then 1 else 0) + cpu_begins ts \<le> DTB_CPUS"
  shows "\<exists>c. tok_run ts p (d, state, dc) = Some c"
  using assms
proof (induction ts arbitrary: p d state dc)
  case (Cons t ts)
  show ?case
  proof (cases t)
    case (BeginNode s)
    have "dtb_ncpus dc + (if begin_name s state d \<in> cpu_states then 1 else 0) + cpu_begins ts \<le> DTB_CPUS"
      using Cons.prems BeginNode begin_name_cpu [of s state d] by (auto simp: cpu_begins_def split: if_splits)
    then show ?thesis using Cons.IH BeginNode by simp
  next
    case (Prop s off data)
    have "state = stateCPU \<longrightarrow> dtb_ncpus dc < DTB_CPUS" using Cons.prems by (auto simp: cpu_states_def)
    then obtain dc' where p: "prop_name s (p + 12) (length data) (be32_of data) state dc = Some dc'"
      using prop_name_returns by blast
    then have "dtb_ncpus dc' = dtb_ncpus dc" using prop_name_frame by blast
    then show ?thesis using Cons.IH [of dc' state] Cons.prems Prop p by (simp add: cpu_begins_def)
  next
    case EndNode
    obtain state' dc' where e: "end_step state dc = (state', dc')" by fastforce
    then show ?thesis using Cons.IH [of dc' state'] Cons.prems EndNode end_step_cpu [OF e] by (simp add: cpu_begins_def)
  next
    case Nop
    then show ?thesis using Cons.IH Cons.prems by (simp add: cpu_begins_def)
  qed
qed simp

text \<open>A PLIC is found only where a node has its name, and is not forgotten.\<close>

lemma tok_step_intctl:
  "tok_step t p (d, state, dc) = Some (d', state', dc') \<Longrightarrow> dtb_intctl dc \<Longrightarrow> dtb_intctl dc'"
  by (cases t) (auto dest: prop_name_frame end_step_frame split: prod.splits)

lemma tok_run_intctl:
  "tok_run ts p (d, state, dc) = Some (d', state', dc') \<Longrightarrow> dtb_intctl dc \<Longrightarrow> dtb_intctl dc'"
proof (induction ts arbitrary: p d state dc)
  case (Cons t ts)
  then obtain d1 s1 dc1 where "tok_step t p (d, state, dc) = Some (d1, s1, dc1)"
    by (auto split: option.splits)
  then show ?case using Cons tok_step_intctl by auto
qed simp

lemma begin_name_plic:
  "begin_name s state d = stateSOCInterruptController \<Longrightarrow> is_plic_name s \<or> state = stateSOCInterruptController"
  by (auto simp: begin_name_def is_plic_name_def split: if_splits)

lemma tok_run_no_plic:
  assumes "list_all (\<lambda>t. case t of BeginNode s \<Rightarrow> \<not> is_plic_name s | _ \<Rightarrow> True) ts"
    and "tok_run ts p (d, state, dc) = Some (d', state', dc')" "state \<noteq> stateSOCInterruptController"
  shows "dtb_intctl dc' = dtb_intctl dc"
  using assms
proof (induction ts arbitrary: p d state dc)
  case (Cons t ts)
  obtain d1 s1 dc1 where s: "tok_step t p (d, state, dc) = Some (d1, s1, dc1)"
    using Cons.prems(2) by (auto split: option.splits)
  have "s1 \<noteq> stateSOCInterruptController \<and> dtb_intctl dc1 = dtb_intctl dc"
    using s Cons.prems(1,3) begin_name_plic
    by (cases t) (auto simp: end_step_def dest: prop_name_frame split: prod.splits dtb_state.splits)
  then show ?case using Cons.IH [of _ d1 s1 dc1] Cons.prems(1,2) s by auto
qed simp

section \<open>Trees\<close>

datatype node = Node string "(string \<times> u32 \<times> bytes) list" "node list"

fun prop_token :: "string \<times> u32 \<times> bytes \<Rightarrow> token" where
  "prop_token (s, off, data) = Prop s off data"

fun node_tokens :: "node \<Rightarrow> token list" and forest_tokens :: "node list \<Rightarrow> token list" where
  "node_tokens (Node s ps ks) = BeginNode s # map prop_token ps @ forest_tokens ks @ [EndNode]"
| "forest_tokens [] = []"
| "forest_tokens (k # ks) = node_tokens k @ forest_tokens ks"

fun height :: "node \<Rightarrow> nat" and heights :: "node list \<Rightarrow> nat" where
  "height (Node s ps ks) = Suc (heights ks)"
| "heights [] = 0"
| "heights (k # ks) = max (height k) (heights ks)"

text \<open>The nodes of processors at depth two, which may have only interrupt controllers without nodes of their own.\<close>

fun cpus_in :: "nat \<Rightarrow> node \<Rightarrow> nat" and cpus_ins :: "nat \<Rightarrow> node list \<Rightarrow> nat" where
  "cpus_in d (Node s ps ks) = (if d = 2 \<and> is_cpu_name s then 1 else cpus_ins (Suc d) ks)"
| "cpus_ins d [] = 0"
| "cpus_ins d (k # ks) = cpus_in d k + cpus_ins d ks"

fun is_intc :: "node \<Rightarrow> bool" where
  "is_intc (Node s ps ks) \<longleftrightarrow> take 20 s = ''interrupt-controller'' \<and> ks = []"

fun cpu_ok :: "nat \<Rightarrow> node \<Rightarrow> bool" and cpu_oks :: "nat \<Rightarrow> node list \<Rightarrow> bool" where
  "cpu_ok d (Node s ps ks) \<longleftrightarrow> (if d = 2 \<and> is_cpu_name s then list_all is_intc ks else cpu_oks (Suc d) ks)"
| "cpu_oks d [] \<longleftrightarrow> True"
| "cpu_oks d (k # ks) \<longleftrightarrow> cpu_ok d k \<and> cpu_oks d ks"

lemma tok_run_props:
  "tok_run (map prop_token ps) p (d, state, dc) = Some (d', state', dc') \<Longrightarrow>
   d' = d \<and> state' = state \<and> dtb_ncpus dc' = dtb_ncpus dc \<and>
   dtb_intctl dc' = (dtb_intctl dc \<or> state = stateSOCInterruptController \<and> ps \<noteq> [])"
proof (induction ps arbitrary: p dc)
  case (Cons x ps)
  obtain s off data where x: "x = (s, off, data)" by (cases x)
  obtain dc1 where "prop_name s (p + 12) (length data) (be32_of data) state dc = Some dc1"
    using Cons.prems x by (auto split: option.splits)
  then show ?case
    using Cons.IH [of _ dc1] Cons.prems x prop_name_frame by (fastforce split: option.splits)
qed simp

lemma tok_run_node:
  assumes "tok_run (node_tokens (Node s ps ks)) p (d, state, dc) = Some c"
  obtains p1 p2 dc1 d2 state2 dc2 where
    "tok_run (map prop_token ps) p1 (d + 1, begin_name s state d, dc) = Some (d + 1, begin_name s state d, dc1)"
    "dtb_ncpus dc1 = dtb_ncpus dc"
    "dtb_intctl dc1 = (dtb_intctl dc \<or> begin_name s state d = stateSOCInterruptController \<and> ps \<noteq> [])"
    "tok_run (forest_tokens ks) p2 (d + 1, begin_name s state d, dc1) = Some (d2, state2, dc2)"
    "c = (d2 - 1, fst (end_step state2 dc2), snd (end_step state2 dc2))"
proof -
  let ?p1 = "p + of_nat (length (token_bytes (BeginNode s)))"
  obtain c1 where c1: "tok_run (map prop_token ps) ?p1 (d + 1, begin_name s state d, dc) = Some c1"
    using assms by (auto simp: tok_run_append split: option.splits)
  obtain d1 s1 dc1 where e1: "c1 = (d1, s1, dc1)" by (cases c1)
  note f = tok_run_props [OF c1 [unfolded e1]]
  let ?p2 = "?p1 + of_nat (length (tokens_bytes (map prop_token ps)))"
  obtain c2 where c2: "tok_run (forest_tokens ks) ?p2 c1 = Some c2"
    using assms c1 by (auto simp: tok_run_append split: option.splits)
  obtain d2 s2 dc2 where e2: "c2 = (d2, s2, dc2)" by (cases c2)
  have "c = (d2 - 1, fst (end_step s2 dc2), snd (end_step s2 dc2))"
    using assms c1 c2 e2 by (auto simp: tok_run_append split: option.splits prod.splits)
  then show ?thesis using that c1 c2 e1 e2 f by blast
qed

lemma tok_run_forest:
  assumes "tok_run (forest_tokens (k # ks)) p c = Some c'"
  obtains p2 c1 where "tok_run (node_tokens k) p c = Some c1" "tok_run (forest_tokens ks) p2 c1 = Some c'"
  using assms by (auto simp: tok_run_append split: option.splits)

text \<open>The interrupt controllers of a processor leave the state of the parser as it was.\<close>

lemma intc_state:
  assumes "list_all is_intc ks" "2 < d" "d < 2 ^ 32 - 1"
    and "tok_run (forest_tokens ks) p (of_nat d, stateCPU, dc) = Some (d', state', dc')"
  shows "d' = of_nat d \<and> state' = stateCPU \<and> dtb_ncpus dc' = dtb_ncpus dc"
  using assms(1,4)
proof (induction ks arbitrary: p dc)
  case (Cons k ks)
  obtain s ps where k: "k = Node s ps []" "take 20 s = ''interrupt-controller''" using Cons.prems(1) by (cases k) auto
  have "(of_nat d :: u32) \<noteq> 0" "(of_nat d :: u32) \<noteq> 1" "(of_nat d :: u32) \<noteq> 2"
    using assms(2,3) unat_of_nat_small [where 'a = 32, of d] by auto
  then have b: "begin_name s stateCPU (of_nat d) = stateCPUInterruptController" using k(2) by (simp add: begin_name_def)
  obtain p2 c1 where c1: "tok_run (node_tokens k) p (of_nat d, stateCPU, dc) = Some c1"
    "tok_run (forest_tokens ks) p2 c1 = Some (d', state', dc')"
    using tok_run_forest [OF Cons.prems(2)] by blast
  have "\<exists>dc1. c1 = (of_nat d, stateCPU, dc1) \<and> dtb_ncpus dc1 = dtb_ncpus dc"
    by (rule tok_run_node [OF c1(1) [unfolded k(1)]]) (auto simp: b end_step_def)
  then show ?case using Cons.IH Cons.prems(1) c1(2) by fastforce
qed simp

lemma depth_eq: "d < 2 ^ 32 \<Longrightarrow> k < 2 ^ 32 \<Longrightarrow> (of_nat d :: u32) = of_nat k \<longleftrightarrow> d = k"
proof -
  assume "d < 2 ^ 32" "k < 2 ^ 32"
  then have "unat (of_nat d :: u32) = d" "unat (of_nat k :: u32) = k" by (simp_all add: unat_of_nat_small)
  then show ?thesis by metis
qed

lemma begin_name_not_cpu:
  assumes "state \<notin> cpu_states" "\<not> (d = 2 \<and> is_cpu_name s)" "d < 2 ^ 32"
  shows "begin_name s state (of_nat d) \<notin> cpu_states"
  using assms depth_eq [of d 2] by (auto simp: begin_name_def cpu_states_def is_cpu_name_def split: if_splits)

text \<open>Every node of a processor is counted once.\<close>

lemma run_counts_cpus:
  "cpu_ok d n \<Longrightarrow> d + height n < 2 ^ 32 \<Longrightarrow> state \<notin> cpu_states \<Longrightarrow>
   tok_run (node_tokens n) p (of_nat d, state, dc) = Some (d', state', dc') \<Longrightarrow>
   d' = of_nat d \<and> state' \<notin> cpu_states \<and> dtb_ncpus dc' = dtb_ncpus dc + cpus_in d n"
  "cpu_oks d ns \<Longrightarrow> d + heights ns < 2 ^ 32 \<Longrightarrow> state \<notin> cpu_states \<Longrightarrow>
   tok_run (forest_tokens ns) p (of_nat d, state, dc) = Some (d', state', dc') \<Longrightarrow>
   d' = of_nat d \<and> state' \<notin> cpu_states \<and> dtb_ncpus dc' = dtb_ncpus dc + cpus_ins d ns"
proof (induction n and ns arbitrary: d state p dc d' state' dc' and d state p dc d' state' dc'
    rule: node_tokens_forest_tokens.induct)
  case (1 s ps ks)
  have d: "d < 2 ^ 32" using "1.prems"(2) by simp
  have s1: "of_nat d + 1 = (of_nat (Suc d) :: u32)" by simp
  show ?case
  proof (cases "d = 2 \<and> is_cpu_name s")
    case True
    then have b: "begin_name s state (of_nat d) = stateCPU" by (simp add: begin_name_def is_cpu_name_def)
    have i: "list_all is_intc ks" using "1.prems"(1) True by simp
    show ?thesis
    proof (rule tok_run_node [OF "1.prems"(4)], goal_cases)
      case (1 p1 p2 dc1 d2 state2 dc2)
      have "d2 = of_nat 3 \<and> state2 = stateCPU \<and> dtb_ncpus dc2 = dtb_ncpus dc1"
        using 1(4) True b by (intro intc_state [OF i, of 3 p2 dc1]) simp_all
      then show ?case using 1 True by (simp add: end_step_def cpu_states_def)
    qed
  next
    case False
    have b: "begin_name s state (of_nat d) \<notin> cpu_states"
      using begin_name_not_cpu [OF "1.prems"(3) False d] .
    have ok: "cpu_oks (Suc d) ks" using "1.prems"(1) False by simp
    show ?thesis
    proof (rule tok_run_node [OF "1.prems"(4)], goal_cases)
      case (1 p1 p2 dc1 d2 state2 dc2)
      have "d2 = of_nat (Suc d) \<and> state2 \<notin> cpu_states \<and> dtb_ncpus dc2 = dtb_ncpus dc1 + cpus_ins (Suc d) ks"
        using "1.IH" [OF ok _ b, of p2 dc1 d2 state2 dc2] "1.prems"(2) 1(4) s1 by simp
      then show ?case using 1 False by (cases state2) (auto simp: end_step_def cpu_states_def)
    qed
  qed
next
  case 2
  then show ?case by simp
next
  case (3 k ks)
  obtain p2 c1 where c: "tok_run (node_tokens k) p (of_nat d, state, dc) = Some c1"
    "tok_run (forest_tokens ks) p2 c1 = Some (d', state', dc')"
    using tok_run_forest [OF "3.prems"(4)] by blast
  obtain d1 s1 dc1 where c1: "c1 = (d1, s1, dc1)" by (cases c1)
  have "d1 = of_nat d \<and> s1 \<notin> cpu_states \<and> dtb_ncpus dc1 = dtb_ncpus dc + cpus_in d k"
    using "3.IH"(1) [of d state p dc d1 s1 dc1] "3.prems" c(1) c1 by simp
  then show ?case using "3.IH"(2) [of d s1 p2 dc1 d' state' dc'] "3.prems" c(2) c1 by simp
qed

text \<open>Inside the node of the system on chip, an interrupt controller is found at any depth.\<close>

fun has_plic :: "node \<Rightarrow> bool" and has_plics :: "node list \<Rightarrow> bool" where
  "has_plic (Node s ps ks) \<longleftrightarrow> is_plic_name s \<and> ps \<noteq> [] \<or> has_plics ks"
| "has_plics [] \<longleftrightarrow> False"
| "has_plics (k # ks) \<longleftrightarrow> has_plic k \<or> has_plics ks"

fun node_name :: "node \<Rightarrow> string" where
  "node_name (Node s ps ks) = s"

definition soc_states :: "dtb_state set" where
  "soc_states = {stateSOC, stateSOCInterruptController}"

lemma begin_name_soc:
  assumes "state \<in> soc_states" "2 \<le> d" "d < 2 ^ 32" "d = 2 \<longrightarrow> \<not> is_cpu_name s"
  shows "begin_name s state (of_nat d) = (if is_plic_name s then stateSOCInterruptController else state)"
  using assms depth_eq [of d 0] depth_eq [of d 1] depth_eq [of d 2]
  by (auto simp: begin_name_def soc_states_def is_plic_name_def is_cpu_name_def)

lemma run_finds_plic:
  "2 \<le> d \<Longrightarrow> d + height n < 2 ^ 32 \<Longrightarrow> d = 2 \<longrightarrow> \<not> is_cpu_name (node_name n) \<Longrightarrow> state \<in> soc_states \<Longrightarrow>
   tok_run (node_tokens n) p (of_nat d, state, dc) = Some (d', state', dc') \<Longrightarrow>
   d' = of_nat d \<and> state' \<in> soc_states \<and> (has_plic n \<longrightarrow> dtb_intctl dc')"
  "2 \<le> d \<Longrightarrow> d + heights ns < 2 ^ 32 \<Longrightarrow> d = 2 \<longrightarrow> list_all (\<lambda>n. \<not> is_cpu_name (node_name n)) ns \<Longrightarrow> state \<in> soc_states \<Longrightarrow>
   tok_run (forest_tokens ns) p (of_nat d, state, dc) = Some (d', state', dc') \<Longrightarrow>
   d' = of_nat d \<and> state' \<in> soc_states \<and> (has_plics ns \<longrightarrow> dtb_intctl dc')"
proof (induction n and ns arbitrary: d state p dc d' state' dc' and d state p dc d' state' dc'
    rule: node_tokens_forest_tokens.induct)
  case (1 s ps ks)
  let ?b = "begin_name s state (of_nat d)"
  have s1: "of_nat d + 1 = (of_nat (Suc d) :: u32)" by simp
  have b: "?b = (if is_plic_name s then stateSOCInterruptController else state)"
    using "1.prems" by (intro begin_name_soc) simp_all
  then have bs: "?b \<in> soc_states" using "1.prems"(4) by (simp add: soc_states_def)
  show ?case
  proof (rule tok_run_node [OF "1.prems"(5)], goal_cases)
    case (1 p1 p2 dc1 d2 state2 dc2)
    have "d2 = of_nat (Suc d) \<and> state2 \<in> soc_states \<and> (has_plics ks \<longrightarrow> dtb_intctl dc2)"
      using "1.IH" [of "Suc d" ?b p2 dc1 d2 state2 dc2] "1.prems"(1,2) bs 1(4) s1 by simp
    moreover have "dtb_intctl dc2" if "is_plic_name s" "ps \<noteq> []"
      using 1(3,4) tok_run_intctl b that by simp
    ultimately show ?case using 1(5) by (auto simp: end_step_def soc_states_def)
  qed
next
  case 2
  then show ?case by simp
next
  case (3 k ks)
  obtain p2 c1 where c: "tok_run (node_tokens k) p (of_nat d, state, dc) = Some c1"
    "tok_run (forest_tokens ks) p2 c1 = Some (d', state', dc')"
    using tok_run_forest [OF "3.prems"(5)] by blast
  obtain d1 s1 dc1 where c1: "c1 = (d1, s1, dc1)" by (cases c1)
  have k: "d1 = of_nat d \<and> s1 \<in> soc_states \<and> (has_plic k \<longrightarrow> dtb_intctl dc1)"
    using "3.IH"(1) [of d state p dc d1 s1 dc1] "3.prems" c(1) c1 by simp
  then have "d' = of_nat d \<and> state' \<in> soc_states \<and> (has_plics ks \<longrightarrow> dtb_intctl dc')"
    using "3.IH"(2) [of d s1 p2 dc1 d' state' dc'] "3.prems" c(2) c1 by simp
  then show ?case using k c(2) c1 tok_run_intctl by auto
qed

fun node_kids :: "node \<Rightarrow> node list" where
  "node_kids (Node s ps ks) = ks"

text \<open>
  A node of the system on chip in which the parser keeps its state: at the end of a child named cpu@ it would take the rest of the node for
  a part of the system in general.
\<close>

definition is_soc :: "node \<Rightarrow> bool" where
  "is_soc n \<longleftrightarrow> take 3 (node_name n) = ''soc'' \<and> list_all (\<lambda>k. \<not> is_cpu_name (node_name k)) (node_kids n)"

lemma begin_soc: "take 3 s = ''soc'' \<Longrightarrow> begin_name s state 1 = stateSOC"
  by (cases s) (auto simp: begin_name_def)

lemma run_soc:
  assumes "is_soc n" "height n < 2 ^ 32 - 1" "has_plics (node_kids n)"
    and "tok_run (node_tokens n) p (1, state, dc) = Some (d', state', dc')"
  shows "dtb_intctl dc'"
proof -
  obtain s ps ks where n: "n = Node s ps ks" by (cases n)
  then have b: "begin_name s state 1 = stateSOC" using assms(1) by (intro begin_soc) (simp add: is_soc_def)
  show ?thesis
  proof (rule tok_run_node [OF assms(4) [unfolded n]], goal_cases)
    case (1 p1 p2 dc1 d2 state2 dc2)
    have "dtb_intctl dc2"
      using run_finds_plic(2) [of 2 ks stateSOC p2 dc1 d2 state2 dc2] assms(1-3) n b 1(4)
      by (auto simp: is_soc_def soc_states_def)
    then show ?case using 1(5) end_step_frame [of state2 dc2] by (metis prod.inject prod.collapse)
  qed
qed

lemma run_finds_soc:
  assumes "cpu_oks 1 ks" "heights ks < 2 ^ 32 - 1" "n \<in> set ks" "is_soc n" "has_plics (node_kids n)" "state \<notin> cpu_states"
    and "tok_run (forest_tokens ks) p (1, state, dc) = Some (d', state', dc')"
  shows "dtb_intctl dc'"
  using assms(1-3,6,7)
proof (induction ks arbitrary: p state dc)
  case (Cons k ks)
  obtain p2 d1 s1 dc1 where c: "tok_run (node_tokens k) p (1, state, dc) = Some (d1, s1, dc1)"
    "tok_run (forest_tokens ks) p2 (d1, s1, dc1) = Some (d', state', dc')"
    using tok_run_forest [OF Cons.prems(5)] by (metis prod_cases3)
  show ?case
  proof (cases "k = n")
    case True
    then show ?thesis using run_soc [of n p state dc] Cons.prems(2) assms(4,5) c tok_run_intctl by auto
  next
    case False
    have "d1 = 1 \<and> s1 \<notin> cpu_states"
      using run_counts_cpus(1) [of 1 k state p dc d1 s1 dc1] Cons.prems c(1) by simp
    then show ?thesis using Cons.IH [of s1 p2 dc1] Cons.prems False c(2) by auto
  qed
qed simp

section \<open>Properties\<close>

text \<open>
  C17: The parser, run on a device tree in memory, does to the tokens of the tree what the machine over tokens does: names are
  compared as strings, properties get the address of their data, and every token is consumed with its padding, although
  the parser skips one byte too few behind a name; behind the last token it returns.
\<close>

theorem dtb_parse_refines:
  assumes "fdt_at m p off_struct off_strings ts"
  shows "dtb_parse m p dc =
    map_option (\<lambda>(d, state, dc'). dc') (tok_run ts (p + ucast off_struct) (0, stateIdle, dtb_reset p dc))"
  by (rule dtb_parse_run [OF assms])

text \<open>
  C16: For a tree with at most eight nodes named cpu@ (and fewer than 2^32 levels), where the processors, the cpu@ nodes at the second level, contain only interrupt controllers without nodes of their own, the parser returns and has counted
  the processors. It finds an interrupt controller, named interrupt-controller@ or plic@ and with a property, at any depth below a soc node at the first level, provided that
  no direct child of that soc node is named cpu@: behind such a child the parser has forgotten that it is inside the soc node. It finds none where no node has such a name.
\<close>

theorem dtb_finds:
  assumes "fdt_at m p off_struct off_strings (node_tokens (Node [] ps ks))"
    and "height (Node [] ps ks) < 2 ^ 32" "cpu_ok 0 (Node [] ps ks)" "cpu_begins (node_tokens (Node [] ps ks)) \<le> DTB_CPUS"
  shows "\<exists>dc'. dtb_parse m p dc = Some dc' \<and> dtb_ncpus dc' = cpus_in 0 (Node [] ps ks) \<and>
    ((\<exists>n \<in> set ks. is_soc n \<and> has_plics (node_kids n)) \<longrightarrow> dtb_getPLIC dc') \<and>
    (list_all (\<lambda>t. case t of BeginNode s \<Rightarrow> \<not> is_plic_name s | _ \<Rightarrow> True) (node_tokens (Node [] ps ks)) \<longrightarrow> \<not> dtb_getPLIC dc')"
proof -
  let ?t = "Node [] ps ks" and ?q = "p + ucast off_struct" and ?r = "dtb_reset p dc"
  have i: "stateIdle \<notin> cpu_states" by (simp add: cpu_states_def)
  have "dtb_ncpus ?r + (if stateIdle \<in> cpu_states then 1 else 0) + cpu_begins (node_tokens ?t) \<le> DTB_CPUS"
    using assms(4) i by (simp add: dtb_reset_def del: node_tokens.simps)
  from tok_run_returns [OF this, of ?q 0]
  obtain d' state' dc' where run: "tok_run (node_tokens ?t) ?q (0, stateIdle, ?r) = Some (d', state', dc')" by (metis prod_cases3)
  then have "dtb_parse m p dc = Some dc'" using dtb_parse_run [OF assms(1), of dc] by simp
  moreover have "dtb_ncpus dc' = cpus_in 0 ?t"
    using run_counts_cpus(1) [of 0 ?t stateIdle ?q ?r d' state' dc'] assms(2,3) run i
    by (simp add: dtb_reset_def del: node_tokens.simps cpus_in.simps cpu_ok.simps)
  moreover have "dtb_getPLIC dc'" if "n \<in> set ks" "is_soc n" "has_plics (node_kids n)" for n
  proof (rule tok_run_node [OF run], goal_cases)
    case (1 p1 p2 dc1 d2 state2 dc2)
    have "begin_name [] stateIdle 0 \<notin> cpu_states" by (simp add: begin_name_def cpu_states_def)
    then have "dtb_intctl dc2"
      using run_finds_soc [of ks n "begin_name [] stateIdle 0" p2 dc1 d2 state2 dc2] assms(2,3) that 1(4) by simp
    then show ?case using 1(5) end_step_frame [of state2 dc2] by (metis dtb_getPLIC_def prod.inject prod.collapse)
  qed
  moreover have "\<not> dtb_getPLIC dc'"
    if "list_all (\<lambda>t. case t of BeginNode s \<Rightarrow> \<not> is_plic_name s | _ \<Rightarrow> True) (node_tokens ?t)"
    using tok_run_no_plic [OF that run] by (simp add: dtb_getPLIC_def dtb_reset_def)
  ultimately show ?thesis by blast
qed

section \<open>An example tree\<close>

definition example_tree :: node where
  "example_tree = Node [] [(''compatible'', 0, name_bytes ''board'' @ [0])]
     [Node ''cpus'' [] [Node ''cpu@0'' [(''compatible'', 0, name_bytes ''riscv'' @ [0])] [Node ''interrupt-controller'' [] []]],
      Node ''soc'' [] [Node ''plic@c000000'' [(''reg'', 11, [0, 0, 0, 12])] []]]"

text \<open>A memory that starts with some bytes.\<close>

definition list_mem :: "bytes \<Rightarrow> mem" where
  "list_mem bs a = (if unat a < length bs then bs ! unat a else 0)"

lemma holds_list_mem:
  assumes "p = of_nat (length xs)" "length (xs @ bs @ ys) < 2 ^ 64"
  shows "holds (list_mem (xs @ bs @ ys)) p bs"
proof -
  have "list_mem (xs @ bs @ ys) (of_nat (length xs) + of_nat i) = bs ! i" if "i < length bs" for i
  proof -
    have "unat (of_nat (length xs + i) :: addr_t) = length xs + i"
      using assms(2) that by (intro unat_of_nat_small) simp
    then show ?thesis using that by (simp add: list_mem_def nth_append del: of_nat_add flip: of_nat_add)
  qed
  then show ?thesis unfolding holds_def assms(1) by (intro nth_equalityI) simp_all
qed

definition example_head :: bytes where
  "example_head = be32 0xd00dfeed @ be32 0 @ be32 16 @ be32 188"

definition example_body :: bytes where
  "example_body = tokens_bytes (node_tokens example_tree)"

definition example_strings :: bytes where
  "example_strings = (name_bytes ''compatible'' @ [0]) @ (name_bytes ''reg'' @ [0])"

definition example_mem :: mem where
  "example_mem = list_mem (example_head @ example_body @ be32 9 @ example_strings)"

lemma length_example: "length example_head = 16" "length example_body = 168" "length example_strings = 15"
  by (simp_all add: example_head_def example_strings_def)
    (simp add: example_body_def example_tree_def tokens_bytes_def up4_def name_bytes_def)

definition example_dtb :: dtb_t where
  "example_dtb = \<lparr>dtb_fdth = 0, dtb_model = 0, dtb_compatible = 0, dtb_ncpus = 0,
     dtb_cpus = replicate 8 \<lparr>c_compatible = 0, c_mmu = 0, c_isa = 0, c_clock = 0\<rparr>, dtb_nreg = 0, dtb_reg = 0, dtb_intctl = False\<rparr>"

lemma example_holds:
  "holds example_mem 0 (be32 0xd00dfeed)" "holds example_mem 8 (be32 16)" "holds example_mem 12 (be32 188)"
  "holds example_mem 16 (tokens_bytes (node_tokens example_tree) @ be32 9)"
  "holds example_mem 188 (name_bytes ''compatible'' @ [0])" "holds example_mem 199 (name_bytes ''reg'' @ [0])"
proof -
  let ?b = "example_body @ be32 9"
  have h: "holds example_mem 0 example_head" "holds example_mem 16 ?b" "holds example_mem 188 example_strings"
    unfolding example_mem_def
    using holds_list_mem [of 0 "[]" example_head "?b @ example_strings"]
      holds_list_mem [of 16 example_head ?b example_strings]
      holds_list_mem [of 188 "example_head @ ?b" example_strings "[]"] length_example by simp_all
  show "holds example_mem 0 (be32 0xd00dfeed)" "holds example_mem 8 (be32 16)" "holds example_mem 12 (be32 188)"
    using h(1) by (simp_all add: example_head_def holds_append)
  show "holds example_mem 16 (tokens_bytes (node_tokens example_tree) @ be32 9)"
    using h(2) by (simp add: example_body_def)
  show "holds example_mem 188 (name_bytes ''compatible'' @ [0])" "holds example_mem 199 (name_bytes ''reg'' @ [0])"
    using h(3) unfolding example_strings_def holds_append [of _ _ "name_bytes ''compatible'' @ [0]"] by simp_all
qed

lemma example_fdt: "fdt_at example_mem 0 16 188 (node_tokens example_tree)"
  using example_holds by (simp add: fdt_at_def) (simp add: example_tree_def NUL_def)

theorem dtb_parse_refines_witness:
  "dtb_parse example_mem 0 example_dtb =
    map_option (\<lambda>(d, state, dc'). dc') (tok_run (node_tokens example_tree) 16 (0, stateIdle, dtb_reset 0 example_dtb))"
  using dtb_parse_refines [OF example_fdt, of example_dtb] by simp

theorem dtb_finds_witness:
  "\<exists>dc'. dtb_parse example_mem 0 example_dtb = Some dc' \<and> dtb_ncpus dc' = 1 \<and> dtb_getPLIC dc'"
proof -
  obtain ps ks where t: "example_tree = Node [] ps ks" "\<exists>n \<in> set ks. is_soc n \<and> has_plics (node_kids n)"
    by (auto simp: example_tree_def is_soc_def is_cpu_name_def is_plic_name_def)
  have "height example_tree < 2 ^ 32" "cpu_ok 0 example_tree" "cpu_begins (node_tokens example_tree) \<le> DTB_CPUS"
    "cpus_in 0 example_tree = 1"
    by (simp_all add: example_tree_def is_cpu_name_def cpu_begins_def DTB_CPUS_def)
  then show ?thesis
    using dtb_finds [of example_mem 0 16 188 ps ks example_dtb] example_fdt t by auto
qed

text \<open>
  What the single state variable makes wrong: a property of a node that is not known is taken for one of the whole system,
  and a property of a ninth processor is stored behind the array.
\<close>

lemma compatible_overwritten:
  "tok_run (node_tokens (Node [] [(''compatible'', 0, a)] [Node ''pmu'' [(''compatible'', 0, b)] []])) p (0, stateIdle, dc) =
     Some (0, stateSystem, dc\<lparr>dtb_compatible := p + of_nat (8 + length (token_bytes (Prop ''compatible'' 0 a)) + 8) + 12\<rparr>)"
  by (simp add: begin_name_def prop_name_def end_step_def up4_def tokens_bytes_def)

text \<open>A processor inside the node of the system on chip hides the interrupt controller behind it.\<close>

lemma soc_cpu_hides_plic:
  "\<exists>dc'. tok_run (node_tokens (Node [] [] [Node ''soc'' [] [Node ''cpu@0'' [] [], Node ''plic@c'' [(''reg'', off, a)] []]])) p (0, stateIdle, dc) =
     Some (0, stateSystem, dc') \<and> dtb_intctl dc' = dtb_intctl dc"
  by (simp add: begin_name_def prop_name_def end_step_def up4_def tokens_bytes_def)

lemma ninth_cpu_undefined:
  "dtb_ncpus dc = 8 \<Longrightarrow> tok_run [Prop ''compatible'' off a] p (d, stateCPU, dc) = None"
  by (simp add: prop_name_def cpu_update_def DTB_CPUS_def)

end
