(* ===== verification/Uart16550.thy ===== *)
theory Uart16550
  imports Devs Cbuffer
begin

text \<open>
  \<open>devices/uart-16550/uart-16550.c\<close> with \<open>uarthw-riscv.c\<close>: the driver of the serial port on the riscv64 board, which has one. The
  driver keeps a ring of received bytes and a ring of bytes to be sent; its interrupt handler \<open>uart_isr\<close> moves bytes between
  the rings and the chip, while the loader reads and writes the rings with interrupts disabled and waits, with interrupts
  enabled, in loops over the volatile indices.

  The chip, the timer and the interrupt controller are a world \<open>'w\<close> with the operations \<open>uhw\<close>. \<open>uh_irq\<close> lets time
  pass and says whether the loader is interrupted; \<open>uart_preempt\<close> stands at every point where the code looks at an index that
  the handler may change, and before every section with interrupts disabled. Indices are natural numbers, which stay below the sizes of the rings.
\<close>

record 'w uhw =
  uh_read :: "addr_t \<Rightarrow> 'w \<Rightarrow> u8 \<times> 'w"
  uh_write :: "addr_t \<Rightarrow> u8 \<Rightarrow> 'w \<Rightarrow> 'w"
  uh_timer :: "'w \<Rightarrow> int \<times> 'w"
  uh_irq :: "'w \<Rightarrow> bool \<times> 'w"
  uh_handler :: "u32 \<Rightarrow> bool \<Rightarrow> 'w \<Rightarrow> 'w"

section \<open>The hardware context\<close>

record uarthw_context_t =
  hc_base :: addr_t
  hc_irq :: u32

definition UART_MAX_CNT :: nat where
  "UART_MAX_CNT = 1"

definition SIZE_RX :: nat where
  "SIZE_RX = 0x800"

definition SIZE_TX :: nat where
  "SIZE_TX = 0x800"

record uart_t =
  u_hwctx :: uarthw_context_t
  u_active :: bool
  u_rx :: bytes
  u_rh :: nat
  u_rt :: nat
  u_tx :: bytes
  u_th :: nat
  u_tt :: nat
  u_tf :: bool

datatype ureg = rbr | thr | dll | ier | dlm | iir | fcr | lcr | mcr | lsr

fun ureg_no :: "ureg \<Rightarrow> addr_t" where
  "ureg_no rbr = 0" | "ureg_no thr = 0" | "ureg_no dll = 0"
| "ureg_no ier = 1" | "ureg_no dlm = 1"
| "ureg_no iir = 2" | "ureg_no fcr = 2"
| "ureg_no lcr = 3" | "ureg_no mcr = 4" | "ureg_no lsr = 5"

definition uarthw_read :: "'w uhw \<Rightarrow> uarthw_context_t \<Rightarrow> ureg \<Rightarrow> 'w \<Rightarrow> u8 \<times> 'w" where
  "uarthw_read hw c r = uh_read hw (hc_base c + ureg_no r)"

definition uarthw_write :: "'w uhw \<Rightarrow> uarthw_context_t \<Rightarrow> ureg \<Rightarrow> u8 \<Rightarrow> 'w \<Rightarrow> 'w" where
  "uarthw_write hw c r = uh_write hw (hc_base c + ureg_no r)"

definition uarthw_irq :: "uarthw_context_t \<Rightarrow> u32" where
  "uarthw_irq c = hc_irq c"

record baud_t =
  b_speed :: u32
  b_divisor :: u32
  b_mode :: u8

definition bauds :: "baud_t list" where
  "bauds = map (\<lambda>(s, d, m). \<lparr>b_speed = s, b_divisor = d, b_mode = m\<rparr>)
     [(50, 2304, 0), (75, 1536, 0), (110, 1047, 0), (135, 857, 0), (150, 768, 0), (300, 384, 0), (600, 192, 0), (1200, 96, 0),
      (1800, 64, 0), (2000, 58, 0), (2400, 48, 0), (3600, 32, 0), (4800, 24, 0), (7200, 16, 0), (9600, 12, 0), (19200, 6, 0),
      (28800, 4, 0), (31250, 4, 1), (38400, 3, 0), (57600, 2, 0), (115200, 1, 0), (230400, 32770, 2), (460800, 32769, 2),
      (921600, 49153, 6), (1500000, 8193, 8)]"

definition bps_115200 :: nat where
  "bps_115200 = 20"

definition uarthw_getDivisor :: "baud_t \<Rightarrow> u32" where
  "uarthw_getDivisor b = b_divisor b"

text \<open>The table of the board, with its base address and interrupt; \<open>uarthw_init\<close> returns the context and the index of the baud rate.\<close>

definition uarthw_uarts :: "uarthw_context_t \<Rightarrow> uarthw_context_t list" where
  "uarthw_uarts c = [c]"

definition uarthw_init :: "uarthw_context_t \<Rightarrow> nat \<Rightarrow> errno + (uarthw_context_t \<times> nat)" where
  "uarthw_init c n = (if n \<ge> length (uarthw_uarts c) then Inl EINVAL else Inr (uarthw_uarts c ! n, bps_115200))"

section \<open>The interrupt handler\<close>

definition rx_put :: "u8 \<Rightarrow> uart_t \<Rightarrow> uart_t" where
  "rx_put b u =
     (let rh = Suc (u_rh u) mod SIZE_RX; u1 = u\<lparr>u_rx := (u_rx u)[u_rh u := b], u_rh := rh\<rparr> in
      if rh = u_rt u then u1\<lparr>u_rt := Suc (u_rt u) mod SIZE_RX\<rparr> else u1)"

partial_function (option) isr_receive :: "'w uhw \<Rightarrow> uart_t \<Rightarrow> 'w \<Rightarrow> (uart_t \<times> 'w) option" where
  "isr_receive hw u w =
     (case uarthw_read hw (u_hwctx u) lsr w of (v, w1) \<Rightarrow>
        if v AND 0x01 = 0 then Some (u, w1)
        else (case uarthw_read hw (u_hwctx u) rbr w1 of (b, w2) \<Rightarrow> isr_receive hw (rx_put b u) w2))"

definition isr_transmit :: "'w uhw \<Rightarrow> uart_t \<Rightarrow> 'w \<Rightarrow> uart_t \<times> 'w" where
  "isr_transmit hw u w =
     (let th = Suc (u_th u) mod SIZE_TX in
      (u\<lparr>u_th := th, u_tf := False\<rparr>,
       if th \<noteq> u_tt u then uarthw_write hw (u_hwctx u) thr (u_tx u ! th) w
       else uarthw_write hw (u_hwctx u) ier 0x01 w))"

partial_function (option) uart_isr :: "'w uhw \<Rightarrow> uart_t \<Rightarrow> 'w \<Rightarrow> (uart_t \<times> 'w) option" where
  "uart_isr hw u w =
     (case uarthw_read hw (u_hwctx u) iir w of (isr, w1) \<Rightarrow>
        if isr AND 0x01 \<noteq> 0 then Some (u, w1)
        else
          (case (if isr AND 0x04 \<noteq> 0 then isr_receive hw u w1 else Some (u, w1)) of
             None \<Rightarrow> None
           | Some (u2, w2) \<Rightarrow>
               (case (if isr AND 0x02 \<noteq> 0 then isr_transmit hw u2 w2 else (u2, w2)) of (u3, w3) \<Rightarrow> uart_isr hw u3 w3)))"

definition uart_preempt :: "'w uhw \<Rightarrow> uart_t \<Rightarrow> 'w \<Rightarrow> (uart_t \<times> 'w) option" where
  "uart_preempt hw u w = (case uh_irq hw w of (p, w1) \<Rightarrow> if p then uart_isr hw u w1 else Some (u, w1))"

text \<open>A loop that waits until the handler has changed the variables of the driver.\<close>

partial_function (option) uart_spin :: "'w uhw \<Rightarrow> (uart_t \<Rightarrow> bool) \<Rightarrow> uart_t \<Rightarrow> 'w \<Rightarrow> (uart_t \<times> 'w) option" where
  "uart_spin hw P u w =
     (case uart_preempt hw u w of
        None \<Rightarrow> None
      | Some (u1, w1) \<Rightarrow> if P u1 then Some (u1, w1) else uart_spin hw P u1 w1)"

section \<open>Operations\<close>

type_synonym 'w ust = "uart_t \<times> 'w"

definition uart_get :: "nat \<Rightarrow> uart_t \<Rightarrow> bool" where
  "uart_get minor u \<longleftrightarrow> minor < UART_MAX_CNT \<and> u_active u"

text \<open>The loop before a read: whether there are bytes, or the time is over.\<close>

partial_function (option) wait_rx :: "'w uhw \<Rightarrow> time_t \<Rightarrow> time_t \<Rightarrow> uart_t \<Rightarrow> 'w \<Rightarrow> (bool \<times> uart_t \<times> 'w) option" where
  "wait_rx hw start timeout u w =
     (case uart_preempt hw u w of
        None \<Rightarrow> None
      | Some (u1, w1) \<Rightarrow>
          if u_rh u1 \<noteq> u_rt u1 then Some (True, u1, w1)
          else (case uh_timer hw w1 of (t, w2) \<Rightarrow>
                  if t - start \<ge> timeout then Some (False, u1, w2) else wait_rx hw start timeout u1 w2))"

definition rx_take :: "nat \<Rightarrow> uart_t \<Rightarrow> bytes \<times> uart_t" where
  "rx_take len u =
     (let l1 = (if u_rh u > u_rt u then min (u_rh u - u_rt u) len else min (SIZE_RX - u_rt u) len);
          l2 = (if l1 < len \<and> u_rh u < u_rt u then min (len - l1) (u_rh u) else 0)
      in (memcpy_from (u_rx u) (u_rt u) l1 @ memcpy_from (u_rx u) 0 l2,
          u\<lparr>u_rt := (u_rt u + (l1 + l2)) mod SIZE_RX\<rparr>))"

definition uart_read :: "'w uhw \<Rightarrow> nat \<Rightarrow> addr_t \<Rightarrow> size_t \<Rightarrow> time_t \<Rightarrow> ('w ust, bytes) io" where
  "uart_read hw minor offs len timeout uw =
     (case uw of (u, w) \<Rightarrow>
        if \<not> uart_get minor u then Some (Inl EINVAL, u, w)
        else if len = 0 then Some (Inr [], u, w)
        else case uh_timer hw w of (start, w1) \<Rightarrow>
          (case wait_rx hw start timeout u w1 of
             None \<Rightarrow> None
           | Some (False, u2, w2) \<Rightarrow> Some (Inl ETIME, u2, w2)
           | Some (True, u2, w2) \<Rightarrow>
               (case uart_preempt hw u2 w2 of
                  None \<Rightarrow> None
                | Some (u3, w3) \<Rightarrow> (case rx_take (unat len) u3 of (bs, u4) \<Rightarrow> Some (Inr bs, u4, w3)))))"

definition tx_put :: "'w uhw \<Rightarrow> bytes \<Rightarrow> uart_t \<Rightarrow> 'w \<Rightarrow> nat \<times> uart_t \<times> 'w" where
  "tx_put hw buff u w =
     (let len = length buff; th = u_th u; tt = u_tt u;
          l1 = (if th > tt then min (th - tt) len else min (SIZE_TX - tt) len);
          tx1 = memcpy_to (u_tx u) tt (take l1 buff);
          l2 = (if l1 < len \<and> tt \<ge> th then min (len - l1) th else 0);
          tx2 = memcpy_to tx1 0 (take l2 (drop l1 buff));
          w1 = (if tt = th
                then uarthw_write hw (u_hwctx u) ier 0x03 (uarthw_write hw (u_hwctx u) thr (tx2 ! th) w) else w);
          tt' = (tt + (l1 + l2)) mod SIZE_TX
      in (l1 + l2, u\<lparr>u_tx := tx2, u_tt := tt', u_tf := (if tt' = th then True else u_tf u)\<rparr>, w1))"

definition uart_write :: "'w uhw \<Rightarrow> nat \<Rightarrow> bytes \<Rightarrow> ('w ust, nat) io" where
  "uart_write hw minor buff uw =
     (case uw of (u, w) \<Rightarrow>
        if \<not> uart_get minor u then Some (Inl EINVAL, u, w)
        else if buff = [] then Some (Inr 0, u, w)
        else case uart_spin hw (\<lambda>u. \<not> u_tf u) u w of
            None \<Rightarrow> None
          | Some (u1, w1) \<Rightarrow>
              (case uart_preempt hw u1 w1 of
                 None \<Rightarrow> None
               | Some (u2, w2) \<Rightarrow> (case tx_put hw buff u2 w2 of (l, u3, w3) \<Rightarrow> Some (Inr l, u3, w3))))"

partial_function (option) uart_write_loop :: "'w uhw \<Rightarrow> nat \<Rightarrow> bytes \<Rightarrow> nat \<Rightarrow> 'w ust \<Rightarrow> ((errno + nat) \<times> 'w ust) option" where
  "uart_write_loop hw minor buff l uw =
     (if l < length buff then
        (case uart_write hw minor (drop l buff) uw of
           None \<Rightarrow> None
         | Some (Inl e, uw1) \<Rightarrow> Some (Inl e, uw1)
         | Some (Inr res, uw1) \<Rightarrow> uart_write_loop hw minor buff (l + res) uw1)
      else Some (Inr (length buff), uw))"

definition uart_safeWrite :: "'w uhw \<Rightarrow> nat \<Rightarrow> addr_t \<Rightarrow> bytes \<Rightarrow> ('w ust, size_t) io" where
  "uart_safeWrite hw minor offs buff uw =
     map_option (\<lambda>(r, uw'). (map_sum id of_nat r, uw')) (uart_write_loop hw minor buff 0 uw)"

text \<open>The last loop of \<open>_uart_sync\<close> waits for the chip.\<close>

partial_function (option) wait_idle :: "'w uhw \<Rightarrow> uart_t \<Rightarrow> 'w \<Rightarrow> (uart_t \<times> 'w) option" where
  "wait_idle hw u w =
     (case uart_preempt hw u w of
        None \<Rightarrow> None
      | Some (u1, w1) \<Rightarrow>
          (case uarthw_read hw (u_hwctx u1) lsr w1 of (v, w2) \<Rightarrow>
             if v AND 0x40 = 0 then wait_idle hw u1 w2 else Some (u1, w2)))"

definition uart_sync_uart :: "'w uhw \<Rightarrow> ('w ust, unit) io" where
  "uart_sync_uart hw uw =
     (case uw of (u, w) \<Rightarrow>
        case uart_spin hw (\<lambda>u. \<not> u_tf u) u w of
          None \<Rightarrow> None
        | Some (u1, w1) \<Rightarrow>
            (case uart_spin hw (\<lambda>u. u_tt u = u_th u) u1 w1 of
               None \<Rightarrow> None
             | Some (u2, w2) \<Rightarrow>
                 (case wait_idle hw u2 w2 of
                    None \<Rightarrow> None
                  | Some uw3 \<Rightarrow> Some (Inr (), uw3))))"

definition uart_sync :: "'w uhw \<Rightarrow> nat \<Rightarrow> ('w ust, unit) io" where
  "uart_sync hw minor uw =
     (case uw of (u, w) \<Rightarrow> if \<not> uart_get minor u then Some (Inl EINVAL, u, w) else uart_sync_uart hw (u, w))"

definition uart_map :: "nat \<Rightarrow> addr_t \<Rightarrow> size_t \<Rightarrow> u32 \<Rightarrow> addr_t \<Rightarrow> size_t \<Rightarrow> u32 \<Rightarrow> ('w ust, mappable \<times> addr_t) io" where
  "uart_map minor addr sz mode memaddr memsz memmode uw =
     (case uw of (u, w) \<Rightarrow>
        if \<not> uart_get minor u then Some (Inl EINVAL, u, w)
        else if mode AND memmode \<noteq> mode then Some (Inl EINVAL, u, w)
        else Some (Inr (NotMappable, 0), u, w))"

definition uart_done :: "'w uhw \<Rightarrow> nat \<Rightarrow> ('w ust, unit) io" where
  "uart_done hw minor uw =
     (case uw of (u, w) \<Rightarrow>
        if \<not> uart_get minor u then Some (Inl EINVAL, u, w)
        else io_bind (uart_sync_uart hw) (\<lambda>_ (u1, w1).
          (let w2 = uarthw_write hw (u_hwctx u1) ier 0x00 w1;
               w3 = uarthw_write hw (u_hwctx u1) mcr 0x00 w2;
               w4 = uarthw_write hw (u_hwctx u1) fcr 0x06 w3;
               w5 = uh_handler hw (uarthw_irq (u_hwctx u1)) False w4
           in Some (Inr (), u1, w5))) (u, w))"

definition uart_init :: "'w uhw \<Rightarrow> uarthw_context_t \<Rightarrow> nat \<Rightarrow> ('w ust, unit) io" where
  "uart_init hw board minor uw =
     (case uw of (u, w) \<Rightarrow>
        if minor \<ge> UART_MAX_CNT then Some (Inl EINVAL, u, w)
        else case uarthw_init board minor of
            Inl e \<Rightarrow> Some (Inl e, u, w)
          | Inr (c, baud) \<Rightarrow>
              (case uarthw_read hw c iir w of (v, w1) \<Rightarrow>
                 if v = 0xff then Some (Inl ENODEV, u\<lparr>u_hwctx := c\<rparr>, w1)
                 else
                   (let u1 = u\<lparr>u_hwctx := c, u_active := True\<rparr>;
                        w2 = uarthw_write hw c ier 0x00 w1;
                        w3 = uh_handler hw (uarthw_irq c) True w2;
                        divisor = uarthw_getDivisor (bauds ! baud)
                    in if divisor = 0 then Some (Inl EINVAL, u1, w3)
                       else
                         (let w4 = uarthw_write hw c lcr 0x80 w3;
                              w5 = uarthw_write hw c dll (ucast divisor) w4;
                              w6 = uarthw_write hw c dlm (ucast (drop_bit 8 divisor)) w5;
                              w7 = uarthw_write hw c lcr 0x03 w6;
                              w8 = uarthw_write hw c fcr 0xa7 w7;
                              w9 = uarthw_write hw c mcr 0x08 w8;
                              w10 = uarthw_write hw c ier 0x01 w9
                          in Some (Inr (), u1, w10)))))"

definition DEV_UART :: nat where
  "DEV_UART = 0"

definition opsUart16550 :: "'w uhw \<Rightarrow> 'w ust dev_ops_t" where
  "opsUart16550 hw = \<lparr>op_sync = Some (uart_sync hw), op_map = Some uart_map, op_control = None, op_read = Some (uart_read hw),
     op_write = Some (uart_safeWrite hw), op_erase = None\<rparr>"

definition devUart16550 :: "'w uhw \<Rightarrow> uarthw_context_t \<Rightarrow> 'w ust dev_t" where
  "devUart16550 hw board = \<lparr>dev_name = Some ''uart-16550'', dev_init = Some (uart_init hw board), dev_done = Some (uart_done hw),
     dev_ops = Some (opsUart16550 hw)\<rparr>"

definition uart_register :: "'w uhw \<Rightarrow> uarthw_context_t \<Rightarrow> 'w ust devs \<Rightarrow> 'w ust devs" where
  "uart_register hw board devs = devs_register DEV_UART UART_MAX_CNT (devUart16550 hw board) devs"

declare isr_receive.simps [code] uart_isr.simps [code] uart_spin.simps [code] wait_rx.simps [code] uart_write_loop.simps [code] wait_idle.simps [code]

section \<open>The rings as queues\<close>

definition rx_list :: "uart_t \<Rightarrow> bytes" where
  "rx_list u = ring (u_rx u) (u_rt u) ((u_rh u + SIZE_RX - u_rt u) mod SIZE_RX)"

definition tx_cnt :: "uart_t \<Rightarrow> nat" where
  "tx_cnt u = (if u_tf u then SIZE_TX else (u_tt u + SIZE_TX - u_th u) mod SIZE_TX)"

text \<open>The first byte of the ring has been given to the chip; the others wait.\<close>

definition tx_list :: "uart_t \<Rightarrow> bytes" where
  "tx_list u = ring (u_tx u) (u_th u) (tx_cnt u)"

definition tx_wait :: "uart_t \<Rightarrow> bytes" where
  "tx_wait u = tl (tx_list u)"

definition uart_ok :: "uart_t \<Rightarrow> bool" where
  "uart_ok u \<longleftrightarrow> length (u_rx u) = SIZE_RX \<and> u_rh u < SIZE_RX \<and> u_rt u < SIZE_RX \<and>
     length (u_tx u) = SIZE_TX \<and> u_th u < SIZE_TX \<and> u_tt u < SIZE_TX \<and> (u_tf u \<longrightarrow> u_tt u = u_th u)"

lemma SIZE_pos [simp]: "0 < SIZE_RX" "0 < SIZE_TX"
  by (simp_all add: SIZE_RX_def SIZE_TX_def)

lemma mod_diff_less: "a < N \<Longrightarrow> b < N \<Longrightarrow> (a + N - b) mod N = (if b \<le> a then a - b else a + N - b)" for a b N :: nat
  by (auto simp: mod_if)

lemma mod_Suc_less: "a < N \<Longrightarrow> Suc a mod N = (if Suc a = N then 0 else Suc a)"
  by auto

lemma mod_add_less: "a < N \<Longrightarrow> k \<le> N \<Longrightarrow> (a + k) mod N = (if a + k < N then a + k else a + k - N)" for a k N :: nat
  by (auto simp: mod_if)

lemma count_take:
  fixes h t k N :: nat
  assumes "h < N" "t < N" "k \<le> (h + N - t) mod N"
  shows "(h + N - (t + k) mod N) mod N = (h + N - t) mod N - k"
proof -
  have k: "k \<le> (if t \<le> h then h - t else h + N - t)" using assms by (simp add: mod_diff_less)
  then have "(t + k) mod N = (if t + k < N then t + k else t + k - N)" "(t + k) mod N < N"
    using assms by (auto simp: mod_add_less split: if_splits)
  then show ?thesis using assms(1,2) k by (auto simp: mod_diff_less split: if_splits)
qed

lemma rx_list_empty: "uart_ok u \<Longrightarrow> rx_list u = [] \<longleftrightarrow> u_rh u = u_rt u"
  unfolding uart_ok_def by (auto simp: rx_list_def ring_def mod_diff_less)

lemma length_rx_list: "uart_ok u \<Longrightarrow> length (rx_list u) < SIZE_RX"
  by (simp add: rx_list_def)

lemma tx_cnt_le: "tx_cnt u \<le> SIZE_TX" "\<not> u_tf u \<Longrightarrow> tx_cnt u < SIZE_TX"
  by (simp_all add: tx_cnt_def less_imp_le)

lemma tx_cnt_0: "uart_ok u \<Longrightarrow> tx_cnt u = 0 \<longleftrightarrow> \<not> u_tf u \<and> u_tt u = u_th u"
  unfolding uart_ok_def by (auto simp: tx_cnt_def mod_diff_less)

text \<open>A byte received into a full ring replaces the oldest one.\<close>

definition keep_last :: "nat \<Rightarrow> 'a list \<Rightarrow> 'a list" where
  "keep_last n xs = drop (length xs - n) xs"

lemma keep_last_all [simp]: "length xs \<le> n \<Longrightarrow> keep_last n xs = xs"
  by (simp add: keep_last_def)

lemma keep_last_snoc: "keep_last n (keep_last n xs @ ys) = keep_last n (xs @ ys)"
  by (cases "length xs \<le> n") (auto simp: keep_last_def add.commute)

lemma rx_put_ok: "uart_ok u \<Longrightarrow> uart_ok (rx_put b u)"
  by (auto simp: uart_ok_def rx_put_def Let_def)

lemma rx_put_list:
  assumes "uart_ok u"
  shows "rx_list (rx_put b u) = keep_last (SIZE_RX - 1) (rx_list u @ [b])"
proof -
  let ?n = "(u_rh u + SIZE_RX - u_rt u) mod SIZE_RX" and ?d = "(u_rx u)[u_rh u := b]"
  have ok: "u_rh u < SIZE_RX" "u_rt u < SIZE_RX" "length (u_rx u) = SIZE_RX" using assms by (simp_all add: uart_ok_def)
  have n: "?n < SIZE_RX" "(u_rt u + ?n) mod SIZE_RX = u_rh u" using ok by (auto simp: mod_diff_less mod_add_less)
  have "ring (memcpy_to (u_rx u) (u_rh u) (take 1 [b])) (u_rt u) (?n + 1) = ring (u_rx u) (u_rt u) ?n @ take 1 [b]"
    using ok n by (intro ring_write1) (simp_all add: Suc_leI)
  then have r: "ring ?d (u_rt u) (Suc ?n) = rx_list u @ [b]" using ok by (simp add: rx_list_def memcpy_to_single)
  show ?thesis
  proof (cases "Suc (u_rh u) mod SIZE_RX = u_rt u")
    case True
    then have m: "Suc ?n = SIZE_RX" using ok by (auto simp: mod_diff_less mod_Suc_less split: if_splits)
    have "(u_rt u + SIZE_RX - Suc (u_rt u) mod SIZE_RX) mod SIZE_RX = SIZE_RX - 1"
      using True ok by (auto simp: mod_diff_less mod_Suc_less split: if_splits)
    then have e: "rx_list (rx_put b u) = ring ?d (Suc (u_rt u) mod SIZE_RX) (SIZE_RX - 1)"
      using True by (simp add: rx_list_def rx_put_def Let_def)
    have "ring ?d ((u_rt u + 1) mod length ?d) (Suc ?n - 1) = drop 1 (ring ?d (u_rt u) (Suc ?n))"
      by (rule ring_drop) simp
    then show ?thesis using e r m ok by (simp add: keep_last_def rx_list_def)
  next
    case False
    then have m: "(Suc (u_rh u) mod SIZE_RX + SIZE_RX - u_rt u) mod SIZE_RX = Suc ?n" "Suc ?n < SIZE_RX"
      using ok by (auto simp: mod_diff_less mod_Suc_less split: if_splits)
    then have "rx_list (rx_put b u) = rx_list u @ [b]" using False r by (simp add: rx_list_def rx_put_def Let_def)
    then show ?thesis using m by (simp add: rx_list_def)
  qed
qed

lemma rx_put_frame [simp]:
  "u_hwctx (rx_put b u) = u_hwctx u" "u_active (rx_put b u) = u_active u" "u_tx (rx_put b u) = u_tx u"
  "u_th (rx_put b u) = u_th u" "u_tt (rx_put b u) = u_tt u" "u_tf (rx_put b u) = u_tf u"
  by (simp_all add: rx_put_def Let_def)

text \<open>The loader takes the oldest bytes.\<close>

lemma rx_take_law:
  assumes "uart_ok u" "u_rh u \<noteq> u_rt u" "rx_take len u = (bs, u')"
  shows "bs = take len (rx_list u) \<and> rx_list u' = drop len (rx_list u) \<and> uart_ok u' \<and> u' = u\<lparr>u_rt := u_rt u'\<rparr>"
proof -
  define n where "n = (u_rh u + SIZE_RX - u_rt u) mod SIZE_RX"
  define l1 where "l1 = (if u_rh u > u_rt u then min (u_rh u - u_rt u) len else min (SIZE_RX - u_rt u) len)"
  define l2 where "l2 = (if l1 < len \<and> u_rh u < u_rt u then min (len - l1) (u_rh u) else 0)"
  have "rx_take len u = (memcpy_from (u_rx u) (u_rt u) l1 @ memcpy_from (u_rx u) 0 l2, u\<lparr>u_rt := (u_rt u + (l1 + l2)) mod SIZE_RX\<rparr>)"
    by (simp add: rx_take_def Let_def flip: l1_def l2_def)
  then have t: "bs = memcpy_from (u_rx u) (u_rt u) l1 @ memcpy_from (u_rx u) 0 l2" "u' = u\<lparr>u_rt := (u_rt u + (l1 + l2)) mod SIZE_RX\<rparr>"
    using assms(3) by simp_all
  have ok: "u_rh u < SIZE_RX" "u_rt u < SIZE_RX" "length (u_rx u) = SIZE_RX" using assms(1) by (simp_all add: uart_ok_def)
  have n: "n = (if u_rt u \<le> u_rh u then u_rh u - u_rt u else u_rh u + SIZE_RX - u_rt u)" using ok by (simp add: n_def mod_diff_less)
  have l: "l1 + l2 = min len n" using ok assms(2) n by (auto simp: l1_def l2_def min_def)
  have "memcpy_from (u_rx u) (u_rt u) l1 @ memcpy_from (u_rx u) 0 l2 = take (l1 + l2) (ring (u_rx u) (u_rt u) n)"
  proof (cases "l2 = 0")
    case True
    moreover have "u_rt u + l1 \<le> SIZE_RX" using ok by (auto simp: l1_def min_def)
    ultimately show ?thesis using l ok ring_read1 [of "u_rt u" l1 "u_rx u" n] by (simp add: memcpy_from_def)
  next
    case False
    then have "u_rt u + l1 = SIZE_RX" using ok by (auto simp: l1_def l2_def min_def split: if_splits)
    then show ?thesis using l ok n by (intro ring_read2) (simp_all add: n_def less_imp_le)
  qed
  then have b: "bs = take len (rx_list u)" using l by (simp add: t rx_list_def flip: n_def) (simp add: min_def)
  have "(u_rh u + SIZE_RX - u_rt u') mod SIZE_RX = n - min len n"
    using count_take [of "u_rh u" SIZE_RX "u_rt u" "min len n"] ok l by (simp add: t flip: n_def)
  then have "rx_list u' = drop (min len n) (rx_list u)"
    using ring_drop [of "min len n" n "u_rx u" "u_rt u"] ok l by (simp add: rx_list_def t flip: n_def)
  then have "rx_list u' = drop len (rx_list u)" by (simp add: rx_list_def min_def flip: n_def)
  then show ?thesis using b assms(1) by (auto simp: t uart_ok_def)
qed

text \<open>The handler advances to the next byte of the ring.\<close>

definition tx_pop :: "uart_t \<Rightarrow> uart_t" where
  "tx_pop u = u\<lparr>u_th := Suc (u_th u) mod SIZE_TX, u_tf := False\<rparr>"

lemma length_tx_list [simp]: "length (tx_list u) = tx_cnt u"
  by (simp add: tx_list_def)

lemma tx_pop_law:
  assumes "uart_ok u" "0 < tx_cnt u"
  shows "uart_ok (tx_pop u)" "tx_cnt (tx_pop u) = tx_cnt u - 1" "tx_list (tx_pop u) = tx_wait u"
proof -
  have ok: "u_th u < SIZE_TX" "u_tt u < SIZE_TX" "length (u_tx u) = SIZE_TX" "u_tf u \<Longrightarrow> u_tt u = u_th u"
    using assms(1) by (simp_all add: uart_ok_def)
  show "uart_ok (tx_pop u)" using assms(1) by (simp add: uart_ok_def tx_pop_def)
  show c: "tx_cnt (tx_pop u) = tx_cnt u - 1"
  proof (cases "u_tf u")
    case True
    have "(u_th u + SIZE_TX - Suc (u_th u) mod SIZE_TX) mod SIZE_TX = SIZE_TX - 1"
      using ok by (auto simp: mod_diff_less mod_Suc_less split: if_splits)
    then show ?thesis using True ok(4) by (simp add: tx_cnt_def tx_pop_def)
  next
    case False
    then show ?thesis using count_take [of "u_tt u" SIZE_TX "u_th u" 1] ok assms(2) by (simp add: tx_cnt_def tx_pop_def)
  qed
  have "ring (u_tx u) ((u_th u + 1) mod length (u_tx u)) (tx_cnt u - 1) = drop 1 (ring (u_tx u) (u_th u) (tx_cnt u))"
    using assms(2) by (intro ring_drop) simp
  then have "ring (u_tx u) (Suc (u_th u) mod SIZE_TX) (tx_cnt u - 1) = tx_wait u"
    by (simp add: tx_wait_def tx_list_def ok(3) drop_Suc)
  then show "tx_list (tx_pop u) = tx_wait u" by (simp add: tx_list_def c) (simp add: tx_pop_def)
qed

lemma hd_tx_list: "uart_ok u \<Longrightarrow> 0 < tx_cnt u \<Longrightarrow> u_tx u ! u_th u = hd (tx_list u)"
  by (subst hd_conv_nth) (auto simp: tx_list_def uart_ok_def simp flip: length_greater_0_conv)

text \<open>The loader puts as many bytes behind the others as there is room for.\<close>

lemma put_lengths:
  fixes th tt N len :: nat
  assumes "th < N" "tt < N" "n = (if th \<le> tt then tt - th else tt + N - th)"
    "l1 = (if th > tt then min (th - tt) len else min (N - tt) len)" "l2 = (if l1 < len \<and> tt \<ge> th then min (len - l1) th else 0)"
  shows "l1 + l2 = min len (N - n)" "l1 \<le> len" "tt + l1 \<le> N" "l2 \<le> len - l1" "l2 = 0 \<or> tt + l1 = N" "l2 \<le> N"
proof -
  have "l1 + l2 = min len (N - n) \<and> l1 \<le> len \<and> tt + l1 \<le> N \<and> l2 \<le> len - l1 \<and> (l2 = 0 \<or> tt + l1 = N) \<and> l2 \<le> N"
  proof (cases "th > tt")
    case True
    then have "N - n = th - tt" "l1 = min (th - tt) len" "l2 = 0" using assms by simp_all
    then show ?thesis using assms(1) True by linarith
  next
    case False
    then have n: "N - n = N - tt + th" "l1 = min (N - tt) len" using assms by simp_all
    show ?thesis
    proof (cases "len \<le> N - tt")
      case True
      then have "l1 = len" "l2 = 0" using n assms(5) by simp_all
      then show ?thesis using n(1) True assms(1,2) by linarith
    next
      case False
      then have "l1 = N - tt" "l2 = min (len - (N - tt)) th" using n assms(5) \<open>\<not> th > tt\<close> by simp_all
      then show ?thesis using n(1) False assms(1,2) by linarith
    qed
  qed
  then show "l1 + l2 = min len (N - n)" "l1 \<le> len" "tt + l1 \<le> N" "l2 \<le> len - l1" "l2 = 0 \<or> tt + l1 = N" "l2 \<le> N" by blast+
qed

lemma count_put:
  fixes t k N :: nat
  assumes "t < N" "0 < k" "k \<le> N"
  shows "(t + k) mod N = t \<longleftrightarrow> k = N" "k < N \<Longrightarrow> ((t + k) mod N + N - t) mod N = k"
proof -
  consider "t + k < N" "(t + k) mod N = t + k" | "N \<le> t + k" "(t + k) mod N = t + k - N"
    using mod_add_less [OF assms(1,3)] by (cases "t + k < N") auto
  then have "((t + k) mod N = t \<longleftrightarrow> k = N) \<and> (k < N \<longrightarrow> ((t + k) mod N + N - t) mod N = k)"
  proof cases
    case 1
    then show ?thesis using assms by simp
  next
    case 2
    then show ?thesis using assms by auto
  qed
  then show "(t + k) mod N = t \<longleftrightarrow> k = N" "k < N \<Longrightarrow> ((t + k) mod N + N - t) mod N = k" by blast+
qed

lemma tx_put_law:
  assumes "uart_ok u" "\<not> u_tf u" "buff \<noteq> []" "tx_put hw buff u w = (l, u', w')"
  shows "l = min (length buff) (SIZE_TX - tx_cnt u)" "uart_ok u'" "tx_list u' = tx_list u @ take l buff"
    "w' = (if tx_cnt u = 0
           then uarthw_write hw (u_hwctx u) ier 0x03 (uarthw_write hw (u_hwctx u) thr (hd buff) w) else w)"
    "u' = u\<lparr>u_tx := u_tx u', u_tt := u_tt u', u_tf := u_tf u'\<rparr>"
proof -
  let ?th = "u_th u" and ?tt = "u_tt u" and ?len = "length buff" and ?n = "tx_cnt u"
  define l1 where "l1 = (if ?th > ?tt then min (?th - ?tt) ?len else min (SIZE_TX - ?tt) ?len)"
  define l2 where "l2 = (if l1 < ?len \<and> ?tt \<ge> ?th then min (?len - l1) ?th else 0)"
  define tx2 where "tx2 = memcpy_to (memcpy_to (u_tx u) ?tt (take l1 buff)) 0 (take l2 (drop l1 buff))"
  define t' where "t' = (?tt + (l1 + l2)) mod SIZE_TX"
  have p: "tx_put hw buff u w = (l1 + l2, u\<lparr>u_tx := tx2, u_tt := t', u_tf := (if t' = ?th then True else u_tf u)\<rparr>,
      if ?tt = ?th then uarthw_write hw (u_hwctx u) ier 0x03 (uarthw_write hw (u_hwctx u) thr (tx2 ! ?th) w) else w)"
    unfolding tx_put_def Let_def tx2_def t'_def l2_def l1_def by (rule refl)
  then have l': "l = l1 + l2" and u': "u' = u\<lparr>u_tx := tx2, u_tt := t', u_tf := (t' = ?th)\<rparr>" using assms(2,4) by auto
  have ok: "?th < SIZE_TX" "?tt < SIZE_TX" "length (u_tx u) = SIZE_TX" using assms(1) by (simp_all add: uart_ok_def)
  have n: "?n = (if ?th \<le> ?tt then ?tt - ?th else ?tt + SIZE_TX - ?th)" using ok assms(2) by (simp add: tx_cnt_def mod_diff_less)
  note pl = put_lengths [OF ok(1,2) n l1_def l2_def]
  show l: "l = min ?len (SIZE_TX - ?n)" using pl(1) by (simp add: l')
  have "?n < SIZE_TX" "0 < ?len" using tx_cnt_le(2) [OF assms(2)] assms(3) by simp_all
  then have lpos: "0 < l" "l \<le> ?len" "?n + l \<le> SIZE_TX" using l by linarith+
  have len: "l1 \<le> ?len" "?tt + l1 \<le> SIZE_TX" "l2 \<le> ?len - l1" by (fact pl)+
  have e: "?tt = (?th + ?n) mod SIZE_TX" using ok n by (auto simp: mod_add_less)
  have r: "ring tx2 ?th (?n + l) = tx_list u @ take l buff"
    using pl(5)
  proof
    assume z: "l2 = 0"
    then show ?thesis using ok e len lpos unfolding l' tx2_def tx_list_def by (simp, intro ring_write1) auto
  next
    assume z: "?tt + l1 = SIZE_TX"
    then show ?thesis using ok e len lpos unfolding l' tx2_def tx_list_def by (intro ring_write2) auto
  qed
  have lt: "length tx2 = SIZE_TX" using ok len pl(6) by (simp add: tx2_def memcpy_to_def)
  show ok': "uart_ok u'" using assms(1) lt by (auto simp: u' uart_ok_def t'_def)
  have "tx_cnt u' = ?n + l"
  proof -
    have "t' = (?th + (?n + l)) mod SIZE_TX" using e by (simp add: t'_def l' mod_add_left_eq add.assoc)
    then show ?thesis using count_put [of ?th SIZE_TX "?n + l"] ok(1) lpos by (auto simp: u' tx_cnt_def [of "u\<lparr>u_tx := _, u_tt := _, u_tf := _\<rparr>"])
  qed
  then show tl: "tx_list u' = tx_list u @ take l buff" using r by (simp add: tx_list_def [of u']) (simp add: u')
  have "tx2 ! ?th = hd buff" if "?n = 0"
  proof -
    have "hd (tx_list u') = hd buff" using that tl lpos by (simp add: tx_list_def [of u] hd_take)
    moreover have "0 < tx_cnt u'" using tl lpos by (metis length_tx_list length_append length_take min.absorb2 add_gr_0)
    ultimately show ?thesis using hd_tx_list [OF ok'] by (simp add: u')
  qed
  then show "w' = (if ?n = 0 then uarthw_write hw (u_hwctx u) ier 0x03 (uarthw_write hw (u_hwctx u) thr (hd buff) w) else w)"
    using p assms(2,4) tx_cnt_0 [OF assms(1)] by auto
  show "u' = u\<lparr>u_tx := u_tx u', u_tt := u_tt u', u_tf := u_tf u'\<rparr>" by (simp add: u')
qed

end
