(* ===== verification/Uart_Chip.thy ===== *)
theory Uart_Chip
  imports Uart16550
begin

text \<open>
  The serial port driver with its chip: the contract of a 16550 (locale \<open>ns16550\<close>), the invariant that joins the rings and the registers, and
  the laws of the interrupt handler and of all operations, with interrupts at any point where they are enabled.
\<close>

section \<open>The contract of the chip\<close>

text \<open>
  What is known of a 16550: the bytes still to be received (\<open>uv_line\<close>; the first can be read when \<open>uv_ready\<close>), the bytes
  put into the holding register in their order, whether this register is free and its interrupt is pending, the interrupts
  enabled, and whether the divisor latch hides the registers.
\<close>

record uview =
  uv_line :: bytes
  uv_ready :: bool
  uv_out :: bytes
  uv_free :: bool
  uv_pend :: bool
  uv_ier :: u8
  uv_dlab :: bool

text \<open>What the chip may do by itself: bytes become ready, the holding register becomes free and demands an interrupt.\<close>

definition later :: "uview \<Rightarrow> uview \<Rightarrow> bool" where
  "later a b \<longleftrightarrow> uv_line b = uv_line a \<and> uv_out b = uv_out a \<and> uv_ier b = uv_ier a \<and> uv_dlab b = uv_dlab a \<and>
     (uv_ready a \<longrightarrow> uv_ready b) \<and> (uv_free a \<longrightarrow> uv_free b) \<and> (uv_pend a \<longrightarrow> uv_pend b) \<and> (\<not> uv_free a \<and> uv_free b \<longrightarrow> uv_pend b)"

lemma later_refl [simp]: "later a a"
  by (simp add: later_def)

lemma later_trans: "later a b \<Longrightarrow> later b c \<Longrightarrow> later a c"
  by (auto simp: later_def)

lemma laterD:
  "later a b \<Longrightarrow> uv_line b = uv_line a" "later a b \<Longrightarrow> uv_out b = uv_out a" "later a b \<Longrightarrow> uv_ier b = uv_ier a"
  "later a b \<Longrightarrow> uv_dlab b = uv_dlab a" "later a b \<Longrightarrow> uv_ready a \<Longrightarrow> uv_ready b" "later a b \<Longrightarrow> uv_pend a \<Longrightarrow> uv_pend b"
  by (simp_all add: later_def)

text \<open>
  The laws hold for accesses in the order the driver makes them: a byte is put into the holding register only when it is free.
  \<open>delay\<close> bounds the time the transmitter needs, \<open>clock\<close> counts cycles, of which \<open>rate\<close> make a millisecond.
\<close>

locale ns16550 =
  fixes hw :: "'w uhw" and base :: addr_t and view :: "'w \<Rightarrow> uview" and delay :: "'w \<Rightarrow> nat" and clock :: "'w \<Rightarrow> nat" and rate :: nat
  assumes rate_pos: "0 < rate"
    and read_time: "uh_read hw a w = (v, w') \<Longrightarrow> clock w < clock w' \<and> delay w' \<le> delay w"
    and write_time: "clock w < clock (uh_write hw a v w)"
    and ready_line: "uv_ready (view w) \<Longrightarrow> uv_line (view w) \<noteq> []"
    and read_iir: "uv_ier (view w) \<in> {1, 3} \<Longrightarrow> uh_read hw (base + 2) w = (v, w') \<Longrightarrow>
      (if bit v 0 then later (view w) (view w') \<and> \<not> (uv_pend (view w) \<and> uv_ier (view w) = 3)
       else if bit v 2 then \<not> bit v 1 \<and> later (view w) (view w') \<and> uv_ready (view w')
       else bit v 1 \<and> uv_ier (view w) = 3 \<and> later ((view w)\<lparr>uv_pend := False\<rparr>) (view w') \<and> uv_free (view w'))"
    and read_lsr: "uh_read hw (base + 5) w = (v, w') \<Longrightarrow> later (view w) (view w') \<and>
      (bit v 0 \<longrightarrow> uv_ready (view w')) \<and> (uv_ready (view w) \<longrightarrow> bit v 0) \<and> (\<not> bit v 6 \<longrightarrow> delay w' < delay w)"
    and read_rbr: "\<not> uv_dlab (view w) \<Longrightarrow> uv_ready (view w) \<Longrightarrow> uh_read hw base w = (v, w') \<Longrightarrow>
      v = hd (uv_line (view w)) \<and> later ((view w)\<lparr>uv_line := tl (uv_line (view w)), uv_ready := False\<rparr>) (view w')"
    and write_thr: "\<not> uv_dlab (view w) \<Longrightarrow> uv_free (view w) \<Longrightarrow>
      later ((view w)\<lparr>uv_out := uv_out (view w) @ [b], uv_free := False, uv_pend := False\<rparr>) (view (uh_write hw base b w))"
    and write_ier: "\<not> uv_dlab (view w) \<Longrightarrow> later ((view w)\<lparr>uv_ier := v\<rparr>) (view (uh_write hw (base + 1) v w))"
    and timer_law: "uh_timer hw w = (t, w') \<Longrightarrow>
      later (view w) (view w') \<and> clock w < clock w' \<and> delay w' \<le> delay w \<and> t = int (clock w' div rate)"
    and irq_law: "uh_irq hw w = (p, w') \<Longrightarrow> later (view w) (view w') \<and> clock w < clock w' \<and> delay w' \<le> delay w"
    and irq_progress: "uh_irq hw w = (p, w') \<Longrightarrow> uv_ier (view w) = 3 \<Longrightarrow> uv_free (view w) \<longrightarrow> uv_pend (view w) \<Longrightarrow>
      p \<and> uv_pend (view w') \<or> delay w' < delay w"

section \<open>The handler and the chip\<close>

definition drv_inv :: "addr_t \<Rightarrow> uart_t \<Rightarrow> uview \<Rightarrow> bool" where
  "drv_inv base u v \<longleftrightarrow> uart_ok u \<and> u_active u \<and> hc_base (u_hwctx u) = base \<and> \<not> uv_dlab v \<and>
     uv_ier v = (if tx_cnt u = 0 then 1 else 3) \<and> (if tx_cnt u = 0 then uv_free v else uv_free v \<longrightarrow> uv_pend v)"

lemma drv_inv_later: "drv_inv base u v \<Longrightarrow> later v v' \<Longrightarrow> drv_inv base u v'"
  unfolding drv_inv_def later_def by (auto split: if_splits)

text \<open>
  What interrupts do to the two queues: bytes are received in order, the oldest ones are lost when there are too many; bytes
  to be sent go to the chip in order.
\<close>

definition moved :: "uart_t \<Rightarrow> uview \<Rightarrow> uart_t \<Rightarrow> uview \<Rightarrow> bool" where
  "moved u v u' v' \<longleftrightarrow>
     (\<exists>got. uv_line v = got @ uv_line v' \<and> rx_list u' = keep_last (SIZE_RX - 1) (rx_list u @ got)) \<and>
     (\<exists>sent. tx_wait u = sent @ tx_wait u' \<and> uv_out v' = uv_out v @ sent) \<and>
     tx_cnt u' \<le> tx_cnt u \<and> (u_tf u' \<longrightarrow> u_tf u)"

lemma rx_list_keep: "uart_ok u \<Longrightarrow> keep_last (SIZE_RX - 1) (rx_list u) = rx_list u"
  using length_rx_list [of u] by simp

lemma moved_refl: "uart_ok u \<Longrightarrow> uv_line v' = uv_line v \<Longrightarrow> uv_out v' = uv_out v \<Longrightarrow> moved u v u v'"
  unfolding moved_def using rx_list_keep [of u] by auto

lemma moved_trans: 
  assumes "moved a v b v'" "moved b v' c v''"
  shows "moved a v c v''"
proof -
  obtain g s where 1: "uv_line v = g @ uv_line v'" "rx_list b = keep_last (SIZE_RX - 1) (rx_list a @ g)"
      "tx_wait a = s @ tx_wait b" "uv_out v' = uv_out v @ s" "tx_cnt b \<le> tx_cnt a" "u_tf b \<longrightarrow> u_tf a"
    using assms(1) by (auto simp: moved_def)
  obtain g' s' where 2: "uv_line v' = g' @ uv_line v''" "rx_list c = keep_last (SIZE_RX - 1) (rx_list b @ g')"
      "tx_wait b = s' @ tx_wait c" "uv_out v'' = uv_out v' @ s'" "tx_cnt c \<le> tx_cnt b" "u_tf c \<longrightarrow> u_tf b"
    using assms(2) by (auto simp: moved_def)
  have "rx_list c = keep_last (SIZE_RX - 1) (rx_list a @ g @ g')" using 1(2) 2(2) by (simp add: keep_last_snoc)
  then show ?thesis unfolding moved_def using 1 2 by (intro conjI exI [of _ "g @ g'"] exI [of _ "s @ s'"]) auto
qed

lemma moved_later: "later v0 v \<Longrightarrow> moved u v u' v' \<Longrightarrow> moved u v0 u' v'" "moved u v u' v' \<Longrightarrow> later v' v1 \<Longrightarrow> moved u v u' v1"
  by (simp_all add: moved_def later_def)

definition work :: "uart_t \<Rightarrow> uview \<Rightarrow> nat" where
  "work u v = tx_cnt u + length (uv_line v)"

lemma moved_work: "moved u v u' v' \<Longrightarrow> work u' v' \<le> work u v"
  by (auto simp: moved_def work_def)

lemma tx_view_rx_put [simp]: "tx_cnt (rx_put b u) = tx_cnt u" "tx_wait (rx_put b u) = tx_wait u"
  by (simp_all add: tx_cnt_def tx_wait_def tx_list_def)

lemma drv_inv_rx_put: "drv_inv base u v \<Longrightarrow> drv_inv base (rx_put b u) v"
  by (simp add: drv_inv_def rx_put_ok)

lemma bit_ands [simp]:
  "((v::u8) AND 1 = 0) = (\<not> bit v 0)" "(v AND 2 = 0) = (\<not> bit v 1)" "(v AND 4 = 0) = (\<not> bit v 2)" "(v AND 64 = 0) = (\<not> bit v 6)"
  using and_exp_eq_0_iff_not_bit [of v 0] and_exp_eq_0_iff_not_bit [of v 1] and_exp_eq_0_iff_not_bit [of v 2]
    and_exp_eq_0_iff_not_bit [of v 6] by simp_all

context ns16550
begin

lemma isr_receive_law:
  assumes "drv_inv base u (view w)"
  shows "\<exists>u' w'. isr_receive hw u w = Some (u', w') \<and> drv_inv base u' (view w') \<and> moved u (view w) u' (view w') \<and>
    clock w < clock w' \<and> (uv_ready (view w) \<longrightarrow> work u' (view w') < work u (view w))"
  using assms
proof (induction "length (uv_line (view w))" arbitrary: u w rule: less_induct)
  case less
  have hc: "hc_base (u_hwctx u) = base" and ok: "uart_ok u" using less.prems by (simp_all add: drv_inv_def)
  obtain v w1 where r: "uh_read hw (base + 5) w = (v, w1)" by fastforce
  note l = read_lsr [OF r] and t = read_time [OF r]
  have i1: "drv_inv base u (view w1)" using drv_inv_later [OF less.prems] l by blast
  show ?case
  proof (cases "bit v 0")
    case False
    then have "isr_receive hw u w = Some (u, w1)" by (subst isr_receive.simps) (simp add: uarthw_read_def hc r)
    moreover have "moved u (view w) u (view w1)" using moved_refl [OF ok] l by (simp add: laterD)
    ultimately show ?thesis using i1 t l False by blast
  next
    case True
    then have rd: "uv_ready (view w1)" using l by blast
    obtain b w2 where r2: "uh_read hw base w1 = (b, w2)" by fastforce
    have "\<not> uv_dlab (view w1)" using i1 by (simp add: drv_inv_def)
    then have b: "b = hd (uv_line (view w1))"
        "later ((view w1)\<lparr>uv_line := tl (uv_line (view w1)), uv_ready := False\<rparr>) (view w2)"
      using read_rbr [OF _ rd r2] by blast+
    have ne: "uv_line (view w1) \<noteq> []" using ready_line [OF rd] .
    then have ln: "uv_line (view w) = [b] @ uv_line (view w2)" using b l laterD(1) [OF b(2)] laterD(1) [of "view w" "view w1"] by simp
    have "drv_inv base u ((view w1)\<lparr>uv_line := tl (uv_line (view w1)), uv_ready := False\<rparr>)" using i1 by (simp add: drv_inv_def)
    then have i2: "drv_inv base (rx_put b u) (view w2)" using drv_inv_later b(2) drv_inv_rx_put by blast
    have out: "uv_out (view w2) = uv_out (view w)" using laterD(2) [OF b(2)] laterD(2) [of "view w" "view w1"] l by simp
    have m: "moved u (view w) (rx_put b u) (view w2)"
      unfolding moved_def using ln rx_put_list [OF ok, of b] out
      by (intro conjI exI [of _ "[b]"] exI [of _ "[]"]) simp_all
    obtain u' w' where c: "isr_receive hw (rx_put b u) w2 = Some (u', w')" "drv_inv base u' (view w')"
        "moved (rx_put b u) (view w2) u' (view w')" "clock w2 < clock w'"
      using less.hyps [OF _ i2] ln by auto
    have e: "isr_receive hw u w = Some (u', w')"
      using c(1) True by (subst isr_receive.simps) (simp add: uarthw_read_def hc r r2)
    have "work (rx_put b u) (view w2) < work u (view w)" using ln by (simp add: work_def)
    then have "work u' (view w') < work u (view w)" using moved_work [OF c(3)] by linarith
    then show ?thesis using e c moved_trans [OF m c(3)] t read_time [OF r2] by (intro exI [of _ u'] exI [of _ w']) auto
  qed
qed

lemma isr_transmit_law:
  assumes "uart_ok u" "u_active u" "hc_base (u_hwctx u) = base" "0 < tx_cnt u" "\<not> uv_dlab (view w)" "uv_free (view w)" "uv_ier (view w) = 3"
    and "isr_transmit hw u w = (u', w')"
  shows "drv_inv base u' (view w') \<and> moved u (view w) u' (view w') \<and> clock w < clock w' \<and> work u' (view w') < work u (view w)"
proof -
  note p = tx_pop_law [OF assms(1,4)]
  have u': "u' = tx_pop u" using assms(8) by (simp add: isr_transmit_def tx_pop_def Let_def)
  have fr: "u_active u'" "hc_base (u_hwctx u') = base" "u_tt u' = u_tt u" "u_th u' = Suc (u_th u) mod SIZE_TX" "\<not> u_tf u'" "u_tx u' = u_tx u"
      "rx_list u' = rx_list u"
    using assms(2,3) by (simp_all add: u' tx_pop_def rx_list_def)
  have z: "tx_cnt u' = 0 \<longleftrightarrow> u_tt u = Suc (u_th u) mod SIZE_TX" using tx_cnt_0 [OF p(1)] fr by (simp add: u')
  have w': "w' = (if tx_cnt u' = 0 then uh_write hw (base + 1) 1 w else uh_write hw base (u_tx u ! (Suc (u_th u) mod SIZE_TX)) w)"
    using assms(3,8) z by (auto simp: isr_transmit_def Let_def uarthw_write_def)
  show ?thesis
  proof (cases "tx_cnt u' = 0")
    case True
    then have l: "later ((view w)\<lparr>uv_ier := 1\<rparr>) (view w')" using write_ier [OF assms(5)] w' by simp
    have "drv_inv base u' ((view w)\<lparr>uv_ier := 1\<rparr>)" using True p(1) fr assms(5,6) by (simp add: drv_inv_def u')
    moreover have "tx_wait u = []" "tx_wait u' = []" using True p by (simp_all add: u' tx_wait_def flip: length_0_conv)
    ultimately show ?thesis
      using l p(2) True fr write_time [of w "base + 1" 1] assms(4) rx_list_keep [OF assms(1)]
      by (simp add: drv_inv_later w') (auto simp: moved_def work_def laterD u')
  next
    case False
    define b where "b = u_tx u ! (Suc (u_th u) mod SIZE_TX)"
    have bh: "b = hd (tx_list u')" using hd_tx_list [OF p(1)] False fr by (simp add: b_def u')
    have l: "later ((view w)\<lparr>uv_out := uv_out (view w) @ [b], uv_free := False, uv_pend := False\<rparr>) (view w')"
      using write_thr [OF assms(5,6)] w' False by (simp add: b_def)
    have "drv_inv base u' ((view w)\<lparr>uv_out := uv_out (view w) @ [b], uv_free := False, uv_pend := False\<rparr>)"
      using False p(1) fr assms(5,7) by (simp add: drv_inv_def u')
    moreover have "tx_wait u = [b] @ tx_wait u'"
    proof -
      have "tx_list u' \<noteq> []" using False length_tx_list [of u'] by (metis list.size(3))
      then show ?thesis using p(3) bh by (simp add: tx_wait_def [of "tx_pop u"] u')
    qed
    ultimately show ?thesis
      using l p(2) fr write_time [of w base b] assms(4) rx_list_keep [OF assms(1)] False
      by (simp add: drv_inv_later w' flip: b_def) (auto simp: moved_def work_def laterD u')
  qed
qed

end

context ns16550
begin

text \<open>The handler returns; it has done something, or there was nothing to do.\<close>

lemma uart_isr_law:
  assumes "drv_inv base u (view w)"
  shows "\<exists>u' w'. uart_isr hw u w = Some (u', w') \<and> drv_inv base u' (view w') \<and> moved u (view w) u' (view w') \<and> clock w < clock w' \<and>
    (work u' (view w') < work u (view w) \<or> u' = u \<and> delay w' \<le> delay w \<and> \<not> (uv_pend (view w) \<and> 0 < tx_cnt u))"
  using assms
proof (induction "work u (view w)" arbitrary: u w rule: less_induct)
  case less
  have inv: "uart_ok u" "u_active u" "hc_base (u_hwctx u) = base" "\<not> uv_dlab (view w)" "uv_ier (view w) = (if tx_cnt u = 0 then 1 else 3)"
    using less.prems by (simp_all add: drv_inv_def)
  then have ie: "uv_ier (view w) \<in> {1, 3}" by simp
  obtain v w1 where r: "uh_read hw (base + 2) w = (v, w1)" by fastforce
  note l = read_iir [OF ie r] and t = read_time [OF r]
  have rest: "\<exists>u' w'. uart_isr hw u w = Some (u', w') \<and> drv_inv base u' (view w') \<and> moved u (view w) u' (view w') \<and> clock w < clock w' \<and>
      work u' (view w') < work u (view w)"
    if "drv_inv base u1 (view w2)" "moved u (view w) u1 (view w2)" "clock w < clock w2" "work u1 (view w2) < work u (view w)"
      "uart_isr hw u w = uart_isr hw u1 w2" for u1 w2
  proof -
    note th = that
    obtain u' w' where c: "uart_isr hw u1 w2 = Some (u', w')" "drv_inv base u' (view w')" "moved u1 (view w2) u' (view w')" "clock w2 < clock w'"
      using less.hyps [OF th(4,1)] by blast
    show ?thesis using c th moved_trans [OF th(2) c(3)] moved_work [OF c(3)] by (intro exI [of _ u'] exI [of _ w']) auto
  qed
  consider (none) "bit v 0" | (recv) "\<not> bit v 0" "bit v 2" "\<not> bit v 1" | (xmit) "\<not> bit v 0" "\<not> bit v 2" "bit v 1"
    using l by (auto split: if_splits)
  then show ?case
  proof cases
    case none
    then have "uart_isr hw u w = Some (u, w1)" by (subst uart_isr.simps) (simp add: uarthw_read_def inv(3) r)
    moreover have la: "later (view w) (view w1)" "\<not> (uv_pend (view w) \<and> 0 < tx_cnt u)" using l none inv(5) by (auto split: if_splits)
    ultimately show ?thesis
      using drv_inv_later [OF less.prems la(1)] moved_refl [OF inv(1)] la t by (auto simp: laterD intro!: exI [of _ u] exI [of _ w1])
  next
    case recv
    then have la: "later (view w) (view w1)" "uv_ready (view w1)" using l by auto
    obtain u1 w2 where c: "isr_receive hw u w1 = Some (u1, w2)" "drv_inv base u1 (view w2)" "moved u (view w1) u1 (view w2)"
        "clock w1 < clock w2" "work u1 (view w2) < work u (view w1)"
      using isr_receive_law [OF drv_inv_later [OF less.prems la(1)]] la(2) by blast
    have "uart_isr hw u w = uart_isr hw u1 w2"
      using c(1) recv by (subst uart_isr.simps) (simp add: uarthw_read_def inv(3) r)
    moreover have "work u (view w1) = work u (view w)" using laterD(1) [OF la(1)] by (simp add: work_def)
    ultimately show ?thesis using rest [of u1 w2] c moved_later(1) [OF la(1) c(3)] t by auto
  next
    case xmit
    then have la: "later ((view w)\<lparr>uv_pend := False\<rparr>) (view w1)" "uv_free (view w1)" "uv_ier (view w) = 3" using l by auto
    then have cnt: "0 < tx_cnt u" using inv(5) by (simp split: if_splits)
    obtain u1 w2 where c: "isr_transmit hw u w1 = (u1, w2)" by fastforce
    have v1: "uv_line (view w1) = uv_line (view w)" "uv_out (view w1) = uv_out (view w)" "uv_ier (view w1) = 3" "\<not> uv_dlab (view w1)"
      using la inv(4) laterD(1-4) [OF la(1)] by simp_all
    note x = isr_transmit_law [OF inv(1,2,3) cnt v1(4) la(2) v1(3) c]
    have "uart_isr hw u w = uart_isr hw u1 w2"
      using c xmit by (subst uart_isr.simps) (simp add: uarthw_read_def inv(3) r)
    moreover have "moved u (view w) u1 (view w2)" "work u1 (view w2) < work u (view w)" using x v1(1,2) by (auto simp: moved_def work_def)
    ultimately show ?thesis using rest [of u1 w2] x t by auto
  qed
qed

lemma uart_preempt_law:
  assumes "drv_inv base u (view w)"
  obtains u' w' where "uart_preempt hw u w = Some (u', w')" "drv_inv base u' (view w')" "moved u (view w) u' (view w')" "clock w < clock w'"
    "work u' (view w') < work u (view w) \<or> u' = u \<and> delay w' \<le> delay w \<and> (0 < tx_cnt u \<longrightarrow> delay w' < delay w)"
proof -
  obtain p w1 where r: "uh_irq hw w = (p, w1)" by fastforce
  note l = irq_law [OF r]
  have i1: "drv_inv base u (view w1)" and ok: "uart_ok u" using drv_inv_later [OF assms] l assms by (auto simp: drv_inv_def)
  have wk: "work u (view w1) = work u (view w)" using l by (simp add: work_def later_def)
  have pr: "p \<and> uv_pend (view w1) \<or> delay w1 < delay w" if "0 < tx_cnt u"
    using irq_progress [OF r] assms that by (auto simp: drv_inv_def)
  show thesis
  proof (cases p)
    case False
    then have "uart_preempt hw u w = Some (u, w1)" by (simp add: uart_preempt_def r)
    moreover have "moved u (view w) u (view w1)" using moved_refl [OF ok] l by (auto simp: later_def)
    ultimately show thesis using i1 l pr False by (intro that [of u w1]) auto
  next
    case True
    obtain u' w' where c: "uart_isr hw u w1 = Some (u', w')" "drv_inv base u' (view w')" "moved u (view w1) u' (view w')" "clock w1 < clock w'"
        "work u' (view w') < work u (view w1) \<or> u' = u \<and> delay w' \<le> delay w1 \<and> \<not> (uv_pend (view w1) \<and> 0 < tx_cnt u)"
      using uart_isr_law [OF i1] by blast
    have "uart_preempt hw u w = Some (u', w')" using True c(1) by (simp add: uart_preempt_def r)
    moreover have "moved u (view w) u' (view w')" using moved_later(1) c(3) l by blast
    ultimately show thesis using c l wk pr by (intro that [of u' w']) auto
  qed
qed

end

text \<open>
  The effect of an operation of the driver, with all interrupts meanwhile: the bytes \<open>taken\<close> are taken from those received, the bytes \<open>given\<close>
  are put behind those to be sent.
\<close>

definition flow :: "uart_t \<Rightarrow> uview \<Rightarrow> uart_t \<Rightarrow> uview \<Rightarrow> bytes \<Rightarrow> bool" where
  "flow u v u' v' given \<longleftrightarrow>
     (\<exists>got. uv_line v = got @ uv_line v' \<and> rx_list u' = keep_last (SIZE_RX - 1) (rx_list u @ got)) \<and>
     uv_out v' @ tx_wait u' = uv_out v @ tx_wait u @ given \<and> (\<exists>sent. uv_out v' = uv_out v @ sent)"

lemma moved_flow: "moved u v u' v' \<Longrightarrow> flow u v u' v' []"
  unfolding moved_def flow_def by auto

lemma flow_trans:
  assumes "flow a v b v' x" "flow b v' c v'' y"
  shows "flow a v c v'' (x @ y)"
proof -
  obtain g s where 1: "uv_line v = g @ uv_line v'" "rx_list b = keep_last (SIZE_RX - 1) (rx_list a @ g)"
      "uv_out v' @ tx_wait b = uv_out v @ tx_wait a @ x" "uv_out v' = uv_out v @ s"
    using assms(1) by (auto simp: flow_def)
  obtain g' s' where 2: "uv_line v' = g' @ uv_line v''" "rx_list c = keep_last (SIZE_RX - 1) (rx_list b @ g')"
      "uv_out v'' @ tx_wait c = uv_out v' @ tx_wait b @ y" "uv_out v'' = uv_out v' @ s'"
    using assms(2) by (auto simp: flow_def)
  have "rx_list c = keep_last (SIZE_RX - 1) (rx_list a @ g @ g')" using 1(2) 2(2) by (simp add: keep_last_snoc)
  moreover have "uv_out v'' @ tx_wait c = uv_out v @ tx_wait a @ x @ y" using 1(3) 2(3) by (metis append.assoc)
  ultimately show ?thesis unfolding flow_def using 1 2 by (intro conjI exI [of _ "g @ g'"] exI [of _ "s @ s'"]) auto
qed

context ns16550
begin

lemma uart_spin_law:
  assumes "drv_inv base u (view w)" and P: "\<And>u. uart_ok u \<Longrightarrow> \<not> P u \<Longrightarrow> 0 < tx_cnt u"
  shows "\<exists>u' w'. uart_spin hw P u w = Some (u', w') \<and> drv_inv base u' (view w') \<and> moved u (view w) u' (view w') \<and> clock w < clock w' \<and> P u'"
  using assms(1)
proof (induction "(u, w)" arbitrary: u w rule: wf_induct_rule [OF wf_measures [of "[\<lambda>(u, w). work u (view w), \<lambda>(u, w). delay w]"]])
  case (1 u w)
  obtain u1 w1 where c: "uart_preempt hw u w = Some (u1, w1)" "drv_inv base u1 (view w1)" "moved u (view w) u1 (view w1)" "clock w < clock w1"
      "work u1 (view w1) < work u (view w) \<or> u1 = u \<and> delay w1 \<le> delay w \<and> (0 < tx_cnt u \<longrightarrow> delay w1 < delay w)"
    by (rule uart_preempt_law [OF 1(2)])
  show ?case
  proof (cases "P u1")
    case True
    then show ?thesis using c by (subst uart_spin.simps) simp
  next
    case False
    then have "0 < tx_cnt u1" using P c(2) by (simp add: drv_inv_def)
    then have "((u1, w1), (u, w)) \<in> measures [\<lambda>(u, w). work u (view w), \<lambda>(u, w). delay w]"
      using c(5) moved_work [OF c(3)] by auto
    from 1(1) [OF this c(2)] obtain u' w' where d: "uart_spin hw P u1 w1 = Some (u', w')" "drv_inv base u' (view w')"
        "moved u1 (view w1) u' (view w')" "clock w1 < clock w'" "P u'"
      by blast
    then have "uart_spin hw P u w = Some (u', w')" using c(1) False by (subst uart_spin.simps) simp
    then show ?thesis using d moved_trans [OF c(3) d(3)] c(4) by auto
  qed
qed

lemma tx_put_chip:
  assumes "drv_inv base u (view w)" "\<not> u_tf u" "buff \<noteq> []" "tx_put hw buff u w = (l, u', w')"
  shows "0 < l" "l \<le> length buff" "drv_inv base u' (view w')" "flow u (view w) u' (view w') (take l buff)" "clock w \<le> clock w'"
proof -
  have inv: "uart_ok u" "u_active u" "hc_base (u_hwctx u) = base" "\<not> uv_dlab (view w)" using assms(1) by (simp_all add: drv_inv_def)
  note p = tx_put_law [OF inv(1) assms(2-4)]
  show l: "0 < l" "l \<le> length buff" using p(1) tx_cnt_le(2) [OF assms(2)] assms(3) by auto
  obtain tx tt tf where "u' = u\<lparr>u_tx := tx, u_tt := tt, u_tf := tf\<rparr>" using p(5) by blast
  then have fr: "u_active u'" "hc_base (u_hwctx u') = base" "rx_list u' = rx_list u" using inv(2,3) by (simp_all add: rx_list_def)
  have n: "tx_cnt u' = tx_cnt u + l" using arg_cong [OF p(3), of length] l by simp
  have r: "rx_list u' = keep_last (SIZE_RX - 1) (rx_list u @ [])" using fr(3) rx_list_keep [OF inv(1)] by simp
  have "drv_inv base u' (view w') \<and> flow u (view w) u' (view w') (take l buff) \<and> clock w \<le> clock w'"
  proof (cases "tx_cnt u = 0")
    case False
    then have w': "w' = w" using p(4) by simp
    have "tx_list u \<noteq> []" using False length_tx_list [of u] by (metis list.size(3))
    then have "tx_wait u' = tx_wait u @ take l buff" using p(3) by (simp add: tx_wait_def)
    then have "flow u (view w) u' (view w') (take l buff)" unfolding flow_def w' using r by (intro conjI exI [of _ "[]"]) simp_all
    moreover have "drv_inv base u' (view w')" using assms(1) p(2) fr n False by (simp add: drv_inv_def w')
    ultimately show ?thesis by (simp add: w')
  next
    case True
    define w1 where "w1 = uh_write hw base (hd buff) w"
    have w': "w' = uh_write hw (base + 1) 3 w1" using p(4) True inv(3) by (simp add: uarthw_write_def w1_def)
    have fr1: "uv_free (view w)" using assms(1) True by (simp add: drv_inv_def)
    note l1 = write_thr [OF inv(4) fr1, of "hd buff"]
    let ?v1 = "(view w)\<lparr>uv_out := uv_out (view w) @ [hd buff], uv_free := False, uv_pend := False\<rparr>"
    have d1: "\<not> uv_dlab (view w1)" using l1 inv(4) by (simp add: w1_def later_def)
    have l2: "later ((view w1)\<lparr>uv_ier := 3\<rparr>) (view w')" using write_ier [OF d1, of 3] by (simp add: w')
    have "later (?v1\<lparr>uv_ier := 3\<rparr>) ((view w1)\<lparr>uv_ier := 3\<rparr>)" using l1 by (simp add: later_def w1_def)
    then have l3: "later (?v1\<lparr>uv_ier := 3\<rparr>) (view w')" using l2 later_trans by blast
    have "drv_inv base u' (?v1\<lparr>uv_ier := 3\<rparr>)" using p(2) fr n l(1) inv(4) by (simp add: drv_inv_def)
    then have i: "drv_inv base u' (view w')" using l3 drv_inv_later by blast
    have "tx_list u = []" "tx_wait u = []" using True by (simp_all add: tx_wait_def tx_list_def)
    moreover have "take l buff = hd buff # tl (take l buff)" using l assms(3) by (cases buff; cases l) simp_all
    ultimately have "uv_out (view w') @ tx_wait u' = uv_out (view w) @ tx_wait u @ take l buff" "uv_out (view w') = uv_out (view w) @ [hd buff]"
        "uv_line (view w') = uv_line (view w)"
      using l3 p(3) by (simp_all add: tx_wait_def later_def)
    then have "flow u (view w) u' (view w') (take l buff)" unfolding flow_def using r by (metis append_Nil)
    then show ?thesis using i write_time [of w base "hd buff"] write_time [of w1 "base + 1" 3] by (simp add: w' w1_def)
  qed
  then show "drv_inv base u' (view w')" "flow u (view w) u' (view w') (take l buff)" "clock w \<le> clock w'" by blast+
qed

end

context ns16550
begin

lemma uart_get_0: "drv_inv base u v \<Longrightarrow> uart_get 0 u"
  by (simp add: drv_inv_def uart_get_def UART_MAX_CNT_def)

lemma wait_not_full:
  assumes "drv_inv base u (view w)"
  obtains u' w' where "uart_spin hw (\<lambda>u. \<not> u_tf u) u w = Some (u', w')" "drv_inv base u' (view w')" "moved u (view w) u' (view w')" "\<not> u_tf u'"
proof -
  have "\<exists>u' w'. uart_spin hw (\<lambda>u. \<not> u_tf u) u w = Some (u', w') \<and> drv_inv base u' (view w') \<and> moved u (view w) u' (view w') \<and>
      clock w < clock w' \<and> \<not> u_tf u'"
    by (rule uart_spin_law [OF assms]) (simp add: tx_cnt_def)
  then show thesis by (elim exE conjE) (rule that)
qed

lemma wait_drained:
  assumes "drv_inv base u (view w)"
  obtains u' w' where "uart_spin hw (\<lambda>u. u_tt u = u_th u) u w = Some (u', w')" "drv_inv base u' (view w')" "moved u (view w) u' (view w')"
    "u_tt u' = u_th u'"
proof -
  have "\<exists>u' w'. uart_spin hw (\<lambda>u. u_tt u = u_th u) u w = Some (u', w') \<and> drv_inv base u' (view w') \<and> moved u (view w) u' (view w') \<and>
      clock w < clock w' \<and> u_tt u' = u_th u'"
    by (rule uart_spin_law [OF assms]) (metis gr0I tx_cnt_0)
  then show thesis by (elim exE conjE) (rule that)
qed

lemma uart_write_law:
  assumes "drv_inv base u (view w)" "buff \<noteq> []"
  obtains l u' w' where "uart_write hw 0 buff (u, w) = Some (Inr l, u', w')" "0 < l" "l \<le> length buff" "drv_inv base u' (view w')"
    "flow u (view w) u' (view w') (take l buff)"
proof -
  obtain u1 w1 where s: "uart_spin hw (\<lambda>u. \<not> u_tf u) u w = Some (u1, w1)"
      "drv_inv base u1 (view w1)" "moved u (view w) u1 (view w1)" "\<not> u_tf u1"
    by (rule wait_not_full [OF assms(1)])
  obtain u2 w2 where c: "uart_preempt hw u1 w1 = Some (u2, w2)" "drv_inv base u2 (view w2)" "moved u1 (view w1) u2 (view w2)"
    by (rule uart_preempt_law [OF s(2)])
  have tf: "\<not> u_tf u2" using c(3) s(4) by (simp add: moved_def)
  obtain l u3 w3 where p: "tx_put hw buff u2 w2 = (l, u3, w3)" using prod_cases3 by blast
  note q = tx_put_chip [OF c(2) tf assms(2) p]
  have "uart_write hw 0 buff (u, w) = Some (Inr l, u3, w3)" using assms s(1) c(1) p by (simp add: uart_write_def uart_get_0)
  moreover have "flow u (view w) u3 (view w3) (take l buff)"
    using flow_trans [OF moved_flow [OF moved_trans [OF s(3) c(3)]] q(4)] by simp
  ultimately show thesis using that q by blast
qed

lemma uart_write_loop_law:
  "drv_inv base u (view w) \<Longrightarrow> l \<le> length buff \<Longrightarrow>
   \<exists>u' w'. uart_write_loop hw 0 buff l (u, w) = Some (Inr (length buff), u', w') \<and> drv_inv base u' (view w') \<and>
     flow u (view w) u' (view w') (drop l buff)"
proof (induction "length buff - l" arbitrary: l u w rule: less_induct)
  case less
  show ?case
  proof (cases "l < length buff")
    case False
    then show ?thesis
      using less.prems moved_flow [OF moved_refl, of u "view w" "view w"]
      by (subst uart_write_loop.simps) (simp add: drv_inv_def)
  next
    case True
    then have "drop l buff \<noteq> []" by simp
    from uart_write_law [OF less.prems(1) this] obtain n u1 w1 where c: "uart_write hw 0 (drop l buff) (u, w) = Some (Inr n, u1, w1)" "0 < n"
        "n \<le> length (drop l buff)" "drv_inv base u1 (view w1)" "flow u (view w) u1 (view w1) (take n (drop l buff))" by metis
    have "length buff - (l + n) < length buff - l" "l + n \<le> length buff" using c(2,3) True by auto
    from less.hyps [OF this(1) c(4) this(2)] obtain u' w' where d: "uart_write_loop hw 0 buff (l + n) (u1, w1) = Some (Inr (length buff), u', w')"
        "drv_inv base u' (view w')" "flow u1 (view w1) u' (view w') (drop (l + n) buff)" by blast
    have "take n (drop l buff) @ drop (l + n) buff = drop l buff" by (metis add.commute append_take_drop_id drop_drop)
    then have "flow u (view w) u' (view w') (drop l buff)" using flow_trans [OF c(5) d(3)] by simp
    then show ?thesis using c(1) d(1,2) True by (subst uart_write_loop.simps) simp
  qed
qed

lemma uart_safeWrite_law:
  assumes "drv_inv base u (view w)"
  shows "\<exists>u' w'. uart_safeWrite hw 0 offs buff (u, w) = Some (Inr (of_nat (length buff)), u', w') \<and> drv_inv base u' (view w') \<and>
     flow u (view w) u' (view w') buff"
  using uart_write_loop_law [OF assms, of 0 buff] by (auto simp: uart_safeWrite_def)

lemma wait_idle_law:
  assumes "drv_inv base u (view w)"
  shows "\<exists>u' w'. wait_idle hw u w = Some (u', w') \<and> drv_inv base u' (view w') \<and> moved u (view w) u' (view w')"
  using assms
proof (induction "(u, w)" arbitrary: u w rule: wf_induct_rule [OF wf_measures [of "[\<lambda>(u, w). work u (view w), \<lambda>(u, w). delay w]"]])
  case (1 u w)
  obtain u1 w1 where c: "uart_preempt hw u w = Some (u1, w1)" "drv_inv base u1 (view w1)" "moved u (view w) u1 (view w1)"
      "work u1 (view w1) < work u (view w) \<or> u1 = u \<and> delay w1 \<le> delay w \<and> (0 < tx_cnt u \<longrightarrow> delay w1 < delay w)"
    by (rule uart_preempt_law [OF 1(2)])
  obtain v w2 where r: "uh_read hw (base + 5) w1 = (v, w2)" by fastforce
  note l = read_lsr [OF r]
  have hc: "hc_base (u_hwctx u1) = base" using c(2) by (simp add: drv_inv_def)
  have i: "drv_inv base u1 (view w2)" and m: "moved u (view w) u1 (view w2)" using drv_inv_later [OF c(2)] moved_later(2) [OF c(3)] l by blast+
  show ?case
  proof (cases "bit v 6")
    case True
    then show ?thesis using c(1) i m r hc by (subst wait_idle.simps) (simp add: uarthw_read_def)
  next
    case False
    then have "((u1, w2), (u, w)) \<in> measures [\<lambda>(u, w). work u (view w), \<lambda>(u, w). delay w]"
      using c(4) moved_work [OF m] l by (auto simp: work_def later_def)
    from 1(1) [OF this i] obtain u' w' where d: "wait_idle hw u1 w2 = Some (u', w')" "drv_inv base u' (view w')"
        "moved u1 (view w2) u' (view w')" by blast
    then have "wait_idle hw u w = Some (u', w')" using c(1) r hc False by (subst wait_idle.simps) (simp add: uarthw_read_def)
    then show ?thesis using d moved_trans [OF m d(3)] by blast
  qed
qed

lemma uart_sync_law:
  assumes "drv_inv base u (view w)"
  shows "\<exists>u' w'. uart_sync hw 0 (u, w) = Some (Inr (), u', w') \<and> drv_inv base u' (view w') \<and> flow u (view w) u' (view w') [] \<and>
    tx_cnt u' = 0 \<and> uv_out (view w') = uv_out (view w) @ tx_wait u"
proof -
  obtain u1 w1 where s: "uart_spin hw (\<lambda>u. \<not> u_tf u) u w = Some (u1, w1)"
      "drv_inv base u1 (view w1)" "moved u (view w) u1 (view w1)" "\<not> u_tf u1"
    by (rule wait_not_full [OF assms(1)])
  obtain u2 w2 where t: "uart_spin hw (\<lambda>u. u_tt u = u_th u) u1 w1 = Some (u2, w2)"
      "drv_inv base u2 (view w2)" "moved u1 (view w1) u2 (view w2)" "u_tt u2 = u_th u2"
    by (rule wait_drained [OF s(2)])
  have z: "tx_cnt u2 = 0" using t(2-4) s(4) tx_cnt_0 [of u2] by (auto simp: moved_def drv_inv_def)
  obtain u3 w3 where d: "wait_idle hw u2 w2 = Some (u3, w3)" "drv_inv base u3 (view w3)" "moved u2 (view w2) u3 (view w3)"
    using wait_idle_law [OF t(2)] by blast
  have z3: "tx_cnt u3 = 0" using d(3) z by (simp add: moved_def)
  have "tx_wait u3 = []" using z3 by (simp add: tx_wait_def tx_list_def)
  moreover have m: "moved u (view w) u3 (view w3)" by (rule moved_trans [OF s(3) moved_trans [OF t(3) d(3)]])
  ultimately have "uv_out (view w3) = uv_out (view w) @ tx_wait u" by (auto simp: moved_def)
  moreover have "uart_sync hw 0 (u, w) = Some (Inr (), u3, w3)"
    using assms s(1) t(1) d(1) by (simp add: uart_sync_def uart_sync_uart_def uart_get_0)
  ultimately show ?thesis using d(2) moved_flow [OF m] z3 by blast
qed

end

lemma keep_last_Nil: "0 < n \<Longrightarrow> keep_last n xs = [] \<longleftrightarrow> xs = []"
  by (cases xs) (auto simp: keep_last_def)

lemma moved_rx_nonempty: "moved u v u' v' \<Longrightarrow> rx_list u \<noteq> [] \<Longrightarrow> rx_list u' \<noteq> []"
proof -
  have "0 < SIZE_RX - 1" by (simp add: SIZE_RX_def)
  from keep_last_Nil [OF this] show "moved u v u' v' \<Longrightarrow> rx_list u \<noteq> [] \<Longrightarrow> rx_list u' \<noteq> []" unfolding moved_def by (metis append_is_Nil_conv)
qed

context ns16550
begin

lemma wait_rx_law:
  assumes "drv_inv base u (view w)"
  shows "\<exists>b u' w'. wait_rx hw (int s) t u w = Some (b, u', w') \<and> drv_inv base u' (view w') \<and> moved u (view w) u' (view w') \<and>
    b = (rx_list u' \<noteq> []) \<and> (\<not> b \<longrightarrow> int s + t \<le> int (clock w' div rate))"
  using assms
proof (induction "nat (int s + t) * rate - clock w" arbitrary: u w rule: less_induct)
  case less
  obtain u1 w1 where c: "uart_preempt hw u w = Some (u1, w1)" "drv_inv base u1 (view w1)" "moved u (view w) u1 (view w1)" "clock w < clock w1"
    by (rule uart_preempt_law [OF less.prems])
  have ne: "u_rh u1 \<noteq> u_rt u1 \<longleftrightarrow> rx_list u1 \<noteq> []" using rx_list_empty c(2) by (simp add: drv_inv_def)
  obtain x w2 where r: "uh_timer hw w1 = (x, w2)" by fastforce
  note l = timer_law [OF r]
  have i: "drv_inv base u1 (view w2)" and m: "moved u (view w) u1 (view w2)" using drv_inv_later [OF c(2)] moved_later(2) [OF c(3)] l by blast+
  consider "rx_list u1 \<noteq> []" | "rx_list u1 = []" "x - int s \<ge> t" | "rx_list u1 = []" "x - int s < t" by fastforce
  then show ?case
  proof cases
    case 1
    then have "wait_rx hw (int s) t u w = Some (True, u1, w1)" using c(1) ne by (subst wait_rx.simps) simp
    then show ?thesis using 1 c(2,3) by blast
  next
    case 2
    then have "wait_rx hw (int s) t u w = Some (False, u1, w2)" using c(1) ne r by (subst wait_rx.simps) simp
    moreover have "int s + t \<le> int (clock w2 div rate)" using 2 l by linarith
    ultimately show ?thesis using 2 i m by blast
  next
    case 3
    then have e: "wait_rx hw (int s) t u w = wait_rx hw (int s) t u1 w2" using c(1) ne r by (subst wait_rx.simps) simp
    have "clock w2 div rate < nat (int s + t)" using 3 l by linarith
    then have "clock w2 < nat (int s + t) * rate" using rate_pos by (simp add: div_less_iff_less_mult)
    then have "nat (int s + t) * rate - clock w2 < nat (int s + t) * rate - clock w" using c(4) l by linarith
    from less.hyps [OF this i] show ?thesis unfolding e using moved_trans [OF m] by blast
  qed
qed

lemma uart_read_law:
  assumes "drv_inv base u (view w)" "0 < len"
  shows "\<exists>r u' w'. uart_read hw 0 offs len timeout (u, w) = Some (r, u', w') \<and> drv_inv base u' (view w') \<and>
    (case r of
       Inl e \<Rightarrow> e = ETIME \<and> rx_list u = [] \<and> flow u (view w) u' (view w') [] \<and> rx_list u' = [] \<and>
         int (clock w div rate) + timeout \<le> int (clock w' div rate)
     | Inr bs \<Rightarrow> bs \<noteq> [] \<and> (\<exists>u1. flow u (view w) u1 (view w') [] \<and> bs = take (unat len) (rx_list u1) \<and> rx_list u' = drop (unat len) (rx_list u1) \<and>
         tx_wait u' = tx_wait u1))"
proof -
  obtain x w0 where r: "uh_timer hw w = (x, w0)" by fastforce
  note l = timer_law [OF r]
  have i0: "drv_inv base u (view w0)" using drv_inv_later [OF assms(1)] l by blast
  have x: "x = int (clock w0 div rate)" "clock w div rate \<le> clock w0 div rate" using l by (simp_all add: div_le_mono less_imp_le)
  obtain b u1 w1 where c: "wait_rx hw (int (clock w0 div rate)) timeout u w0 = Some (b, u1, w1)" "drv_inv base u1 (view w1)"
      "moved u (view w0) u1 (view w1)" "b = (rx_list u1 \<noteq> [])" "\<not> b \<longrightarrow> int (clock w0 div rate) + timeout \<le> int (clock w1 div rate)"
    using wait_rx_law [OF i0] by metis
  have m: "moved u (view w) u1 (view w1)" using moved_later(1) c(3) l by blast
  have len: "len \<noteq> 0" using assms(2) by auto
  have e: "uart_read hw 0 offs len timeout (u, w) =
      (if b then (case uart_preempt hw u1 w1 of None \<Rightarrow> None
         | Some (u3, w3) \<Rightarrow> (case rx_take (unat len) u3 of (bs, u4) \<Rightarrow> Some (Inr bs, u4, w3)))
       else Some (Inl ETIME, u1, w1))"
    using uart_get_0 [OF assms(1)] c(1) len by (simp add: uart_read_def r x(1))
  show ?thesis
  proof (cases b)
    case False
    then have "uart_read hw 0 offs len timeout (u, w) = Some (Inl ETIME, u1, w1)" using e by simp
    moreover have "rx_list u = []" using moved_rx_nonempty [OF m] c(4) False by blast
    ultimately show ?thesis using c m False x(2) moved_flow by (intro exI [of _ "Inl ETIME"] exI [of _ u1] exI [of _ w1]) auto
  next
    case True
    obtain u2 w2 where d: "uart_preempt hw u1 w1 = Some (u2, w2)" "drv_inv base u2 (view w2)" "moved u1 (view w1) u2 (view w2)"
      by (rule uart_preempt_law [OF c(2)])
    obtain bs u3 where t: "rx_take (unat len) u2 = (bs, u3)" by fastforce
    have ok2: "uart_ok u2" using d(2) by (simp add: drv_inv_def)
    have ne: "rx_list u2 \<noteq> []" using moved_rx_nonempty [OF d(3)] c(4) True by blast
    then have "u_rh u2 \<noteq> u_rt u2" using rx_list_empty [OF ok2] by simp
    note k = rx_take_law [OF ok2 this t]
    obtain rt where u3: "u3 = u2\<lparr>u_rt := rt\<rparr>" using k by blast
    have fr: "u_active u3 = u_active u2" "u_hwctx u3 = u_hwctx u2" "tx_cnt u3 = tx_cnt u2" "tx_wait u3 = tx_wait u2"
      by (simp_all add: u3 tx_cnt_def tx_wait_def tx_list_def)
    have "drv_inv base u3 (view w2)" using d(2) k fr by (simp add: drv_inv_def)
    moreover have "uart_read hw 0 offs len timeout (u, w) = Some (Inr bs, u3, w2)" using e True d(1) t by simp
    moreover have "flow u (view w) u2 (view w2) []" using moved_flow moved_trans m d(3) by blast
    moreover have "bs \<noteq> []" using k ne len by (simp add: unat_eq_0)
    ultimately show ?thesis using k fr(4) by (intro exI [of _ "Inr bs"] exI [of _ u3] exI [of _ w2]) auto
  qed
qed

end

end
