(* ===== verification/Uart_Props.thy ===== *)
theory Uart_Props
  imports Uart_Chip Msg
begin

text \<open>
  The serial port from its initialisation on: the chip after a reset, the port as the link of \<open>Msg\<close>, an emulated chip that
  keeps the contract, the driver in the device table, and what the loader can rely on in every state it reaches.
\<close>

section \<open>The chip after a reset\<close>

locale ns16550_reset = ns16550 +
  assumes present: "uh_read hw (base + 2) w = (v, w') \<Longrightarrow> v \<noteq> 0xff \<and> (\<exists>p. later ((view w)\<lparr>uv_pend := p\<rparr>) (view w'))"
    and write_lcr: "later ((view w)\<lparr>uv_dlab := bit v 7\<rparr>) (view (uh_write hw (base + 3) v w))"
    and write_divisor: "uv_dlab (view w) \<Longrightarrow> r \<in> {0, 1} \<Longrightarrow> later (view w) (view (uh_write hw (base + r) v w))"
    and write_fcr: "\<exists>k b. later ((view w)\<lparr>uv_line := drop k (uv_line (view w)), uv_ready := b\<rparr>) (view (uh_write hw (base + 2) v w))"
    and write_mcr: "later (view w) (view (uh_write hw (base + 4) v w))"
    and handler: "later (view w) (view (uh_handler hw i b w))"
begin

lemma uart_init_law:
  assumes "uart_ok u" "tx_cnt u = 0" "\<not> uv_dlab (view w)" "uv_free (view w)"
  shows "\<exists>u' w'. uart_init hw \<lparr>hc_base = base, hc_irq = i\<rparr> 0 (u, w) = Some (Inr (), u', w') \<and> drv_inv base u' (view w') \<and>
    uv_out (view w') = uv_out (view w) \<and> tx_cnt u' = 0 \<and> rx_list u' = rx_list u"
proof -
  let ?c = "\<lparr>hc_base = base, hc_irq = i\<rparr>" and ?keep = "\<lambda>w'. uv_free (view w') \<and> uv_out (view w') = uv_out (view w)"
  obtain v w1 where r: "uh_read hw (base + 2) w = (v, w1)" by fastforce
  have s1: "?keep w1 \<and> \<not> uv_dlab (view w1)" and v: "v \<noteq> 0xff" using present [OF r] assms(3,4) by (auto simp: later_def)
  define w2 where "w2 = uh_write hw (base + 1) 0 w1"
  have s2: "?keep w2 \<and> \<not> uv_dlab (view w2)" using write_ier [of w1 0] s1 by (simp add: later_def w2_def)
  define w3 where "w3 = uh_handler hw i True w2"
  have s3: "?keep w3" using handler [of w2 i True] s2 by (simp add: later_def w3_def)
  define w4 where "w4 = uh_write hw (base + 3) 0x80 w3"
  have "bit (0x80 :: u8) 7" by simp
  then have s4: "?keep w4 \<and> uv_dlab (view w4)" using write_lcr [of "0x80" w3] s3 by (simp add: later_def w4_def)
  define w5 where "w5 = uh_write hw base 1 w4"
  have s5: "?keep w5 \<and> uv_dlab (view w5)" using write_divisor [of w4 0 1] s4 by (simp add: later_def w5_def)
  define w6 where "w6 = uh_write hw (base + 1) 0 w5"
  have s6: "?keep w6" using write_divisor [of w5 1 0] s5 by (simp add: later_def w6_def)
  define w7 where "w7 = uh_write hw (base + 3) 3 w6"
  have "\<not> bit (3 :: u8) 7" by simp
  then have s7: "?keep w7 \<and> \<not> uv_dlab (view w7)" using write_lcr [of 3 w6] s6 by (simp add: later_def w7_def)
  define w8 where "w8 = uh_write hw (base + 2) 0xa7 w7"
  have s8: "?keep w8 \<and> \<not> uv_dlab (view w8)" using write_fcr [of w7 "0xa7"] s7 by (auto simp: later_def w8_def)
  define w9 where "w9 = uh_write hw (base + 4) 8 w8"
  have s9: "?keep w9 \<and> \<not> uv_dlab (view w9)" using write_mcr [of w8 8] s8 by (simp add: later_def w9_def)
  define w10 where "w10 = uh_write hw (base + 1) 1 w9"
  have s10: "?keep w10 \<and> \<not> uv_dlab (view w10) \<and> uv_ier (view w10) = 1" using write_ier [of w9 1] s9 by (simp add: later_def w10_def)
  let ?u = "u\<lparr>u_hwctx := ?c, u_active := True\<rparr>"
  have d: "uarthw_getDivisor (bauds ! bps_115200) = 1" by code_simp
  have "uart_init hw ?c 0 (u, w) = Some (Inr (), ?u, w10)"
    using v by (simp add: uart_init_def UART_MAX_CNT_def uarthw_init_def uarthw_uarts_def uarthw_read_def uarthw_write_def uarthw_irq_def r d Let_def)
      (simp add: w10_def w9_def w8_def w7_def w6_def w5_def w4_def w3_def w2_def)
  moreover have "tx_cnt ?u = tx_cnt u" by (simp add: tx_cnt_def)
  then have u: "uart_ok ?u" "tx_cnt ?u = 0" "rx_list ?u = rx_list u" using assms(1,2) by (simp_all add: uart_ok_def rx_list_def)
  moreover have "drv_inv base ?u (view w10)" using u s10 by (simp add: drv_inv_def)
  ultimately show ?thesis using s10 by blast
qed

end

section \<open>The serial port as a link for messages\<close>

text \<open>
  The port accepts any number of bytes; the bound of \<open>byte_sink\<close> is an arbitrary number.
\<close>

definition uart_accepted :: "('w \<Rightarrow> uview) \<Rightarrow> 'w ust \<Rightarrow> bytes" where
  "uart_accepted view uw = uv_out (view (snd uw)) @ tx_wait (fst uw)"

lemma flow_accepted: "flow u (view w) u' (view w') bs \<Longrightarrow> uart_accepted view (u', w') = uart_accepted view (u, w) @ bs"
  by (simp add: flow_def uart_accepted_def)

sublocale ns16550 \<subseteq> tx: byte_sink "\<lambda>(u, w). drv_inv base u (view w)" "uart_accepted view"
  "\<lambda>uw. bound - length (uart_accepted view uw)" "uart_safeWrite hw 0 0" for bound
proof
  fix uw :: "'w ust" and p :: bytes
  assume a: "case uw of (u, w) \<Rightarrow> drv_inv base u (view w)"
  obtain u w where uw: "uw = (u, w)" by fastforce
  obtain u' w' where c: "uart_safeWrite hw 0 0 p (u, w) = Some (Inr (of_nat (length p)), u', w')" "drv_inv base u' (view w')"
      "flow u (view w) u' (view w') p"
    using uart_safeWrite_law [of u w 0 p] a uw by blast
  then show "\<exists>n w'. uart_safeWrite hw 0 0 p uw = Some (Inr n, w') \<and> (case w' of (u, w) \<Rightarrow> drv_inv base u (view w)) \<and>
      uart_accepted view w' = uart_accepted view uw @ p \<and>
      bound - length (uart_accepted view w') = bound - length (uart_accepted view uw) - length p"
    using flow_accepted [of u view w u' w' p] by (auto simp: uw)
qed

context ns16550
begin

text \<open>A message written and the port synchronised: the chip got the frame.\<close>

lemma uart_msg_law:
  assumes "drv_inv base u (view w)" "msg_fits m"
  obtains u1 w1 u2 w2 where "msg_write (uart_safeWrite hw 0 0) m (u, w) = Some (Inr (MSG_HDRSZ + unat (msg_getlen m)), u1, w1)"
    "uart_sync hw 0 (u1, w1) = Some (Inr (), u2, w2)" "uv_out (view w2) = uv_out (view w) @ tx_wait u @ msg_frame m"
proof -
  have a: "case (u, w) of (u, w) \<Rightarrow> drv_inv base u (view w)" using assms(1) by simp
  let ?b = "length (uart_accepted view (u, w)) + length (msg_frame m)"
  obtain u1 w1
    where 1: "msg_write (uart_safeWrite hw 0 0) m (u, w) = Some (Inr (MSG_HDRSZ + unat (msg_getlen m)), u1, w1)" "drv_inv base u1 (view w1)"
      "uart_accepted view (u1, w1) = uart_accepted view (u, w) @ msg_frame m"
    using tx.msg_write_sink [OF a, of m ?b] assms(2) by auto
  from uart_sync_law [OF 1(2)] obtain u2 w2 where "uart_sync hw 0 (u1, w1) = Some (Inr (), u2, w2)"
      "uv_out (view w2) = uv_out (view w1) @ tx_wait u1" by blast
  then show thesis using 1 that by (auto simp: uart_accepted_def)
qed

end

section \<open>An emulated port\<close>

text \<open>
  A chip at address 0 whose received bytes are ready at once and which needs some steps to send a byte; a millisecond has ten
  cycles.
\<close>

record usim =
  us_line :: bytes
  us_out :: bytes
  us_busy :: nat
  us_pend :: bool
  us_ier :: u8
  us_dlab :: bool
  us_clock :: nat

definition us_view :: "usim \<Rightarrow> uview" where
  "us_view s = \<lparr>uv_line = us_line s, uv_ready = (us_line s \<noteq> []), uv_out = us_out s, uv_free = (us_busy s = 0), uv_pend = (us_pend s \<and> us_busy s = 0),
     uv_ier = us_ier s, uv_dlab = us_dlab s\<rparr>"

definition us_step :: "usim \<Rightarrow> usim" where
  "us_step s = s\<lparr>us_busy := us_busy s - 1, us_pend := (us_pend s \<or> us_busy s = 1), us_clock := us_clock s + 1\<rparr>"

definition us_read :: "addr_t \<Rightarrow> usim \<Rightarrow> u8 \<times> usim" where
  "us_read a s =
     (if a = 0 \<and> us_line s \<noteq> [] then (hd (us_line s), us_step (s\<lparr>us_line := tl (us_line s)\<rparr>))
      else if a = 2 then
        (if us_line s \<noteq> [] then (4, us_step s)
         else if us_pend s \<and> us_busy s = 0 \<and> us_ier s = 3 then (2, (us_step s)\<lparr>us_pend := False\<rparr>) else (1, us_step s))
      else if a = 5 then ((if us_line s \<noteq> [] then 1 else 0) OR (if us_busy s = 0 then 0x40 else 0), us_step s)
      else (0, us_step s))"

definition us_write :: "nat \<Rightarrow> addr_t \<Rightarrow> u8 \<Rightarrow> usim \<Rightarrow> usim" where
  "us_write n a v s =
     (let s = s\<lparr>us_clock := us_clock s + 1\<rparr> in
      if a = 0 \<and> \<not> us_dlab s then s\<lparr>us_out := us_out s @ [v], us_busy := n, us_pend := (n = 0)\<rparr>
      else if a = 1 \<and> \<not> us_dlab s then s\<lparr>us_ier := v\<rparr>
      else if a = 3 then s\<lparr>us_dlab := bit v 7\<rparr> else s)"

definition us_hw :: "nat \<Rightarrow> usim uhw" where
  "us_hw n = \<lparr>uh_read = us_read, uh_write = us_write n, uh_timer = (\<lambda>s. (int (us_clock (us_step s) div 10), us_step s)),
     uh_irq = (\<lambda>s. (us_line s \<noteq> [] \<or> us_pend s \<and> us_busy s = 0 \<and> us_ier s = 3, us_step s)), uh_handler = (\<lambda>_ _ s. s)\<rparr>"

lemma us_step_later: "later (us_view s) (us_view (us_step s))"
  by (auto simp: later_def us_view_def us_step_def)

lemma us_step_simps: "us_clock (us_step s) = Suc (us_clock s)" "us_busy (us_step s) = us_busy s - 1" "us_line (us_step s) = us_line s"
  by (simp_all add: us_step_def)

lemmas us_defs = us_hw_def us_read_def us_write_def us_view_def us_step_def later_def Let_def

interpretation usim: ns16550_reset "us_hw n" 0 us_view us_busy us_clock 10 for n
proof (unfold_locales, goal_cases)
  case (2 a w v w')
  then show ?case by (auto simp: us_hw_def us_read_def us_step_def split: if_splits)
next
  case (5 w v w')
  then show ?case by (auto simp: us_defs bit_simps split: if_splits)
next
  case (6 w v w')
  then show ?case by (auto simp: us_defs bit_simps split: if_splits)
next
  case (16 w v)
  then show ?case by (intro exI [of _ 0] exI [of _ False]) (auto simp: us_defs)
qed (auto simp: us_defs split: if_splits)

section \<open>The driver in the device table\<close>

definition uart_devs :: "'w uhw \<Rightarrow> uarthw_context_t \<Rightarrow> 'w ust devs" where
  "uart_devs hw board = uart_register hw board (\<lambda>_ _. None)"

lemma uart_devs_ops: "devs_ops (uart_devs hw board) DEV_UART 0 = Some (opsUart16550 hw)"
proof -
  have "register_loop 16 1 0 (devUart16550 hw board) (\<lambda>_. None) 0 = Some (devUart16550 hw board)"
    by (simp add: eval_nat_numeral)
  moreover have "(0::nat) < 11" "\<not> (11::nat) \<le> 0" "\<not> (16::nat) \<le> 1" by simp_all
  ultimately show ?thesis
    by (simp add: devs_ops_def devs_get_def uart_devs_def uart_register_def devs_register_def DEV_UART_def UART_MAX_CNT_def SIZE_MAJOR_def
        SIZE_MINOR_def devUart16550_def)
qed

lemma uart_devs_calls:
  "devs_write (uart_devs hw board) DEV_UART 0 = uart_safeWrite hw 0"
  "devs_read (uart_devs hw board) DEV_UART 0 = uart_read hw 0"
  "devs_sync (uart_devs hw board) DEV_UART 0 = uart_sync hw 0"
  by (simp_all add: fun_eq_iff devs_write_def devs_read_def devs_sync_def devs_call_def uart_devs_ops opsUart16550_def)

text \<open>The variables of the driver before it runs, and the states the loader reaches with the port.\<close>

definition uart_zero :: uart_t where
  "uart_zero = \<lparr>u_hwctx = \<lparr>hc_base = 0, hc_irq = 0\<rparr>, u_active = False, u_rx = replicate SIZE_RX 0, u_rh = 0, u_rt = 0,
     u_tx = replicate SIZE_TX 0, u_th = 0, u_tt = 0, u_tf = False\<rparr>"

inductive uart_reach :: "'w uhw \<Rightarrow> uarthw_context_t \<Rightarrow> ('w \<Rightarrow> bool) \<Rightarrow> 'w ust \<Rightarrow> bool" for hw board start where
  reach_init: "start w \<Longrightarrow> uart_init hw board 0 (uart_zero, w) = Some (Inr (), s) \<Longrightarrow> uart_reach hw board start s"
| reach_read: "uart_reach hw board start s \<Longrightarrow> devs_read (uart_devs hw board) DEV_UART 0 offs len timeout s = Some (r, s') \<Longrightarrow> uart_reach hw board start s'"
| reach_write: "uart_reach hw board start s \<Longrightarrow> devs_write (uart_devs hw board) DEV_UART 0 offs buff s = Some (r', s') \<Longrightarrow> uart_reach hw board start s'"
| reach_sync: "uart_reach hw board start s \<Longrightarrow> devs_sync (uart_devs hw board) DEV_UART 0 s = Some (r'', s') \<Longrightarrow> uart_reach hw board start s'"

definition chip_reset :: "('w \<Rightarrow> uview) \<Rightarrow> 'w \<Rightarrow> bool" where
  "chip_reset view w \<longleftrightarrow> \<not> uv_dlab (view w) \<and> uv_free (view w)"

lemma uart_zero_ok: "uart_ok uart_zero" "tx_cnt uart_zero = 0" "rx_list uart_zero = []"
  by (simp_all add: uart_zero_def uart_ok_def tx_cnt_def rx_list_def)

lemma uart_reach_drv_inv:
  assumes "ns16550_reset hw base view delay clock rate" "uart_reach hw \<lparr>hc_base = base, hc_irq = i\<rparr> (chip_reset view) s"
  shows "drv_inv base (fst s) (view (snd s))"
proof -
  note chip = ns16550_reset.axioms(1) [OF assms(1)]
  show ?thesis using assms(2)
  proof induction
    case (reach_init w s)
    then show ?case using ns16550_reset.uart_init_law [OF assms(1) uart_zero_ok(1,2), of w i] by (auto simp: chip_reset_def)
  next
    case (reach_read s offs len timeout r s')
    then show ?case
      using ns16550.uart_read_law [OF chip, of "fst s" "snd s" len offs timeout] ns16550.uart_get_0 [OF chip, of "fst s"]
      by (cases "len = 0") (auto simp: uart_devs_calls uart_read_def word_neq_0_conv split: prod.splits)
  next
    case (reach_write s offs buff r' s')
    then show ?case using ns16550.uart_safeWrite_law [OF chip, of "fst s" "snd s" offs buff] by (auto simp: uart_devs_calls)
  next
    case (reach_sync s r'' s')
    then show ?case using ns16550.uart_sync_law [OF chip, of "fst s" "snd s"] by (auto simp: uart_devs_calls)
  qed
qed

section \<open>Properties\<close>

text \<open>
  C12: In every state the loader reaches with the serial port, whatever interrupts occur, writing returns after all bytes were
  accepted, and synchronising returns after the chip got exactly these bytes, behind those that were waiting, in their order.
\<close>

theorem uart_sends_all:
  assumes "ns16550_reset hw base view delay clock rate" "uart_reach hw \<lparr>hc_base = base, hc_irq = i\<rparr> (chip_reset view) (u, w)"
  shows "\<exists>u1 w1 u2 w2. devs_write (uart_devs hw \<lparr>hc_base = base, hc_irq = i\<rparr>) DEV_UART 0 offs buff (u, w) = Some (Inr (of_nat (length buff)), u1, w1) \<and>
    devs_sync (uart_devs hw \<lparr>hc_base = base, hc_irq = i\<rparr>) DEV_UART 0 (u1, w1) = Some (Inr (), u2, w2) \<and>
    uv_out (view w2) = uv_out (view w) @ tx_wait u @ buff \<and> tx_cnt u2 = 0"
proof -
  note chip = ns16550_reset.axioms(1) [OF assms(1)]
  have "drv_inv base u (view w)" using uart_reach_drv_inv [OF assms] by simp
  from ns16550.uart_safeWrite_law [OF chip this] obtain u1 w1 where 1: "uart_safeWrite hw 0 offs buff (u, w) = Some (Inr (of_nat (length buff)), u1, w1)"
      "drv_inv base u1 (view w1)" "flow u (view w) u1 (view w1) buff" by blast
  from ns16550.uart_sync_law [OF chip 1(2)] obtain u2 w2 where "uart_sync hw 0 (u1, w1) = Some (Inr (), u2, w2)" "tx_cnt u2 = 0"
      "uv_out (view w2) = uv_out (view w1) @ tx_wait u1" by blast
  then show ?thesis using 1 by (auto simp: uart_devs_calls flow_def)
qed

text \<open>
  C13: A read from the serial port returns: with the oldest bytes received, where bytes that arrive while 2047
  are waiting replace the oldest ones, or with ETIME if there were none and the time given, which may be negative, has passed. What is still to be sent is not touched.
\<close>

theorem uart_read_oldest:
  assumes "ns16550_reset hw base view delay clock rate" "uart_reach hw \<lparr>hc_base = base, hc_irq = i\<rparr> (chip_reset view) (u, w)" "0 < len"
  shows "\<exists>r u' w' got. devs_read (uart_devs hw \<lparr>hc_base = base, hc_irq = i\<rparr>) DEV_UART 0 offs len timeout (u, w) = Some (r, u', w') \<and>
    uv_line (view w) = got @ uv_line (view w') \<and> uv_out (view w') @ tx_wait u' = uv_out (view w) @ tx_wait u \<and>
    (case r of
       Inl e \<Rightarrow> e = ETIME \<and> rx_list u @ got = [] \<and> int (clock w div rate) + timeout \<le> int (clock w' div rate)
     | Inr bs \<Rightarrow> bs \<noteq> [] \<and> length bs \<le> unat len \<and> bs @ rx_list u' = keep_last (SIZE_RX - 1) (rx_list u @ got))"
proof -
  note chip = ns16550_reset.axioms(1) [OF assms(1)]
  have "drv_inv base u (view w)" using uart_reach_drv_inv [OF assms(1,2)] by simp
  from ns16550.uart_read_law [OF chip this assms(3), of offs timeout] obtain r u' w' where r: "uart_read hw 0 offs len timeout (u, w) = Some (r, u', w')"
      "case r of
         Inl e \<Rightarrow> e = ETIME \<and> rx_list u = [] \<and> flow u (view w) u' (view w') [] \<and> rx_list u' = [] \<and> int (clock w div rate) + timeout \<le> int (clock w' div rate)
       | Inr bs \<Rightarrow> bs \<noteq> [] \<and> (\<exists>u1. flow u (view w) u1 (view w') [] \<and> bs = take (unat len) (rx_list u1) \<and> rx_list u' = drop (unat len) (rx_list u1) \<and>
           tx_wait u' = tx_wait u1)"
    by (elim exE conjE) (rule that)
  show ?thesis
  proof (cases r)
    case (Inl e)
    then obtain got where "uv_line (view w) = got @ uv_line (view w')" "rx_list u' = keep_last (SIZE_RX - 1) (rx_list u @ got)" and
        f: "e = ETIME" "rx_list u = []" "flow u (view w) u' (view w') []" "rx_list u' = []" "int (clock w div rate) + timeout \<le> int (clock w' div rate)"
      using r(2) by (auto simp: flow_def)
    moreover from this have "got = []" using keep_last_Nil [of "SIZE_RX - 1" got] by (simp add: SIZE_RX_def)
    ultimately show ?thesis using r(1) Inl by (intro exI [of _ r] exI [of _ u'] exI [of _ w'] exI [of _ got]) (simp add: uart_devs_calls flow_def)
  next
    case (Inr bs)
    then obtain u1 got where "flow u (view w) u1 (view w') []" "bs = take (unat len) (rx_list u1)" "rx_list u' = drop (unat len) (rx_list u1)"
        "tx_wait u' = tx_wait u1" "bs \<noteq> []" "uv_line (view w) = got @ uv_line (view w')" "rx_list u1 = keep_last (SIZE_RX - 1) (rx_list u @ got)"
      using r(2) by (auto simp: flow_def)
    then show ?thesis using r(1) Inr by (intro exI [of _ r] exI [of _ u'] exI [of _ w'] exI [of _ got]) (auto simp: uart_devs_calls flow_def)
  qed
qed

text \<open>
  C14: A message of at most 512 data bytes written to the serial port, and the port synchronised, puts exactly one frame on the line
  behind the bytes that were waiting: a mark, and behind it bytes that give, when the escapes are decoded, the two header words and
  the data of the message, with no further mark among them.
\<close>

theorem uart_msg_frame:
  assumes "ns16550_reset hw base view delay clock rate" "uart_reach hw \<lparr>hc_base = base, hc_irq = i\<rparr> (chip_reset view) (u, w)" "msg_fits m"
  shows "\<exists>s u2 w2 bs. msg_write (devs_write (uart_devs hw \<lparr>hc_base = base, hc_irq = i\<rparr>) DEV_UART 0 0) m (u, w) = Some (Inr (MSG_HDRSZ + unat (msg_getlen m)), s) \<and>
    devs_sync (uart_devs hw \<lparr>hc_base = base, hc_irq = i\<rparr>) DEV_UART 0 s = Some (Inr (), u2, w2) \<and>
    uv_out (view w2) = uv_out (view w) @ tx_wait u @ bs \<and> is_frame m bs"
proof -
  note chip = ns16550_reset.axioms(1) [OF assms(1)]
  have "drv_inv base u (view w)" using uart_reach_drv_inv [OF assms(1,2)] by simp
  from ns16550.uart_msg_law [OF chip this assms(3)] show ?thesis unfolding uart_devs_calls is_frame_iff by metis
qed

section \<open>The emulated port at work\<close>

definition us_start :: "bytes \<Rightarrow> usim" where
  "us_start line = \<lparr>us_line = line, us_out = [], us_busy = 0, us_pend = False, us_ier = 0, us_dlab = False, us_clock = 0\<rparr>"

lemma us_reach:
  "\<exists>u w. uart_reach (us_hw n) \<lparr>hc_base = 0, hc_irq = i\<rparr> (chip_reset us_view) (u, w) \<and> us_out w = [] \<and> us_line w = line \<and>
     tx_wait u = [] \<and> rx_list u = []"
proof -
  let ?c = "\<lparr>hc_base = 0, hc_irq = i\<rparr>" and ?w = "us_start line"
  have s: "chip_reset us_view ?w" by (simp add: chip_reset_def us_start_def us_view_def)
  have d: "uarthw_getDivisor (bauds ! bps_115200) = 1" by code_simp
  have "\<exists>w. uart_init (us_hw n) ?c 0 (uart_zero, ?w) = Some (Inr (), uart_zero\<lparr>u_hwctx := ?c, u_active := True\<rparr>, w) \<and>
      us_out w = [] \<and> us_line w = line"
    by (simp add: uart_init_def UART_MAX_CNT_def uarthw_init_def uarthw_uarts_def uarthw_read_def uarthw_write_def uarthw_irq_def d Let_def
        us_start_def us_hw_def us_read_def us_write_def us_step_def)
  then obtain w where "uart_init (us_hw n) ?c 0 (uart_zero, ?w) = Some (Inr (), uart_zero\<lparr>u_hwctx := ?c, u_active := True\<rparr>, w)"
      "us_out w = []" "us_line w = line" by blast
  then show ?thesis
    using uart_reach.reach_init [where start = "chip_reset us_view", OF s]
    by (intro exI [of _ "uart_zero\<lparr>u_hwctx := ?c, u_active := True\<rparr>"] exI [of _ w]) (simp add: uart_zero_def tx_wait_def tx_list_def tx_cnt_def rx_list_def)
qed

theorem uart_sends_all_witness:
  "\<exists>s u2 w2. uart_reach (us_hw 3) \<lparr>hc_base = 0, hc_irq = 10\<rparr> (chip_reset us_view) s \<and>
     devs_sync (uart_devs (us_hw 3) \<lparr>hc_base = 0, hc_irq = 10\<rparr>) DEV_UART 0 s = Some (Inr (), u2, w2) \<and> us_out w2 = [104, 105]"
proof -
  obtain u w where a: "uart_reach (us_hw 3) \<lparr>hc_base = 0, hc_irq = 10\<rparr> (chip_reset us_view) (u, w)" "us_out w = []" "tx_wait u = []" "rx_list u = []" "us_line w = [104, 105]"
    using us_reach by blast
  from uart_sends_all [OF usim.ns16550_reset_axioms a(1), of 0 "[104, 105]"] obtain s1 u2 w2
    where "devs_write (uart_devs (us_hw 3) \<lparr>hc_base = 0, hc_irq = 10\<rparr>) DEV_UART 0 0 [104, 105] (u, w) = Some (Inr (of_nat (length [104, 105 :: u8])), s1)"
      "devs_sync (uart_devs (us_hw 3) \<lparr>hc_base = 0, hc_irq = 10\<rparr>) DEV_UART 0 s1 = Some (Inr (), u2, w2)"
      "uv_out (us_view w2) = uv_out (us_view w) @ tx_wait u @ [104, 105]"
    by blast
  then show ?thesis using reach_write [OF a(1)] a(2,3) by (intro exI [of _ s1] exI [of _ u2] exI [of _ w2]) (simp add: us_view_def)
qed

theorem uart_read_oldest_witness:
  "\<exists>s r u' w'. uart_reach (us_hw 3) \<lparr>hc_base = 0, hc_irq = 10\<rparr> (chip_reset us_view) s \<and>
     devs_read (uart_devs (us_hw 3) \<lparr>hc_base = 0, hc_irq = 10\<rparr>) DEV_UART 0 0 16 5 s = Some (r, u', w') \<and>
     (r = Inl ETIME \<and> 5 \<le> us_clock w' div 10 \<or> r \<in> {Inr [104], Inr [104, 105]})"
proof -
  obtain u w where a: "uart_reach (us_hw 3) \<lparr>hc_base = 0, hc_irq = 10\<rparr> (chip_reset us_view) (u, w)" "rx_list u = []" "us_line w = [104, 105]"
    using us_reach by blast
  have n: "(0 :: size_t) < 16" "unat (16 :: size_t) = 16" by simp_all
  obtain r u' w' got where c: "devs_read (uart_devs (us_hw 3) \<lparr>hc_base = 0, hc_irq = 10\<rparr>) DEV_UART 0 0 16 5 (u, w) = Some (r, u', w')"
      "uv_line (us_view w) = got @ uv_line (us_view w')"
      "case r of Inl e \<Rightarrow> e = ETIME \<and> rx_list u @ got = [] \<and> int (us_clock w div 10) + 5 \<le> int (us_clock w' div 10)
       | Inr bs \<Rightarrow> bs \<noteq> [] \<and> length bs \<le> unat (16 :: size_t) \<and> bs @ rx_list u' = keep_last (SIZE_RX - 1) (rx_list u @ got)"
    using uart_read_oldest [OF usim.ns16550_reset_axioms a(1) n(1), of 0 5] by (elim exE conjE) (rule that)
  have "r = Inl ETIME \<and> 5 \<le> us_clock w' div 10 \<or> r \<in> {Inr [104], Inr [104, 105]}"
  proof (cases r)
    case (Inl e)
    then show ?thesis using c(3) by simp
  next
    case (Inr bs)
    have g: "[104, 105] = got @ us_line w'" using c(2) a(3) by (simp add: us_view_def)
    then have "length got \<le> 2" by (metis le_add1 length_append list.size(3,4) One_nat_def Suc_1 add.commute plus_1_eq_Suc)
    then have "keep_last (SIZE_RX - 1) got = got" by (simp add: SIZE_RX_def)
    then have "[104, 105] = bs @ (rx_list u' @ us_line w')" "bs \<noteq> []" using c(3) Inr a(2) g by simp_all
    then show ?thesis using Inr by (auto simp: Cons_eq_append_conv)
  qed
  then show ?thesis using a(1) c(1) by blast
qed

theorem uart_msg_frame_witness:
  "\<exists>s s1 u2 w2 bs. msg_write (devs_write (uart_devs (us_hw 3) \<lparr>hc_base = 0, hc_irq = 10\<rparr>) DEV_UART 0 0)
       \<lparr>msg_csum = 0x7d, msg_type = 0x1007e, msg_data = replicate 512 0x7d\<rparr> s = Some (Inr 9, s1) \<and>
     devs_sync (uart_devs (us_hw 3) \<lparr>hc_base = 0, hc_irq = 10\<rparr>) DEV_UART 0 s1 = Some (Inr (), u2, w2) \<and>
     us_out w2 = [0x7e, 0x7d, 0x5d, 0, 0, 0, 0x7d, 0x5e, 0, 1, 0, 0x7d, 0x5d]"
proof -
  let ?m = "\<lparr>msg_csum = 0x7d, msg_type = 0x1007e, msg_data = replicate 512 0x7d\<rparr>"
  obtain u w where a: "uart_reach (us_hw 3) \<lparr>hc_base = 0, hc_irq = 10\<rparr> (chip_reset us_view) (u, w)" "us_out w = []" "tx_wait u = []"
    using us_reach by blast
  have l: "unat (msg_getlen ?m) = 1" and f: "msg_frame ?m = [0x7e, 0x7d, 0x5d, 0, 0, 0, 0x7d, 0x5e, 0, 1, 0, 0x7d, 0x5d]"
    by code_simp+
  then have "msg_fits ?m" by (simp add: msg_fits_def MSG_MAXLEN_def)
  from uart_msg_frame [OF usim.ns16550_reset_axioms a(1) this] show ?thesis
    using a(2,3) unfolding is_frame_iff f l by (simp add: us_view_def MSG_HDRSZ_def del: split_paired_Ex) blast
qed

end
