(* ===== verification/Spec2Isabelle.thy ===== *)
theory Spec2Isabelle
  imports Cbuffer Crc32 Strtoul Getopt Rtt Ptable Phfs Syspage_Props Cmd_Load Cmd_Console Cmd_Mem Cmd_Flash Flash_Props Mpu8 Dtb_Props Uart_Props
begin

text \<open>
  A verification development for plo, the loader of Phoenix-RTOS.

  \<^bold>\<open>The program.\<close> plo starts on the bare machine, registers the drivers in the device table (\<open>devices/devs.c\<close>), runs a script and then
  a prompt (\<open>cmds/cmd.c\<close>). The commands register devices and files (\<open>cmds/phfs.c\<close>, \<open>cmds/alias.c\<close>), define memory maps (\<open>cmds/map.c\<close>),
  copy data (\<open>cmds/copy.c\<close>) and load programs and the kernel (\<open>cmds/app.c\<close>, \<open>blob.c\<close>, \<open>kernel.c\<close>). Files are reached through \<open>phfs/phfs.c\<close>,
  either raw on a device or by messages (\<open>phfs/msg.c\<close>, \<open>phfs/phoenixd.c\<close>) to a server on a host. What the kernel gets is the system
  page (\<open>syspage.c\<close>): the maps with their allocated ranges, and the programs.

  \<^bold>\<open>The theories.\<close>

  \<^item> \<open>Prelude\<close>: word types, times (\<open>time_t\<close>, signed), error codes (\<open>lib/errno.h\<close>), operations on a world with errors (\<open>io\<close>), block copies, stores that may
    leave their array, rings.
  \<^item> \<open>Cbuffer\<close>: the circular buffer \<open>lib/cbuffer.c\<close>, with the interface of a byte queue; it refines a bounded FIFO.
  \<^item> \<open>Crc32\<close>: \<open>lib/crc32.c\<close>, the table variant equals the bitwise one; a changed byte changes the sum.
  \<^item> \<open>Hal_String\<close>: \<open>hal/aarch64/string.c\<close> and \<open>lib/ctype.c\<close>. \<open>Strtoul\<close>: \<open>lib/strtoul.c\<close>, and that it reads what \<open>hal_i2s\<close> prints.
    \<open>Getopt\<close>: \<open>lib/getopt.c\<close>, termination and bounds.
  \<^item> \<open>Devs\<close>: \<open>devices/devs.c\<close>, the table and the dispatch to drivers over a world \<open>'w\<close>.
  \<^item> \<open>Msg\<close>: \<open>phfs/msg.c\<close>, framing, the receiver as a state machine, retries. What a frame is (\<open>is_frame\<close>) is stated by the bytes a receiver gets when it undoes the
    escapes, without the functions of the code. \<open>Rtt\<close>: \<open>devices/pipe-rtt\<close>, the rings shared with a debugger, which works while the loader reads the time (locale
    \<open>rtt_debugger\<close>: it may put bytes into the receive ring whenever the time is read, and while bytes are still to come the ring does not stay empty for the time-out of a read); a frame is received however it arrives, and an emulated
    debugger keeps the contract. \<open>Phoenixd\<close>: \<open>phfs/phoenixd.c\<close> over any byte link, interpreted on the debugger pipe.
  \<^item> \<open>Ptable\<close>: \<open>lib/ptable.c\<close>, what an accepted partition table guarantees, and that writing and reading a table agree.
  \<^item> \<open>Ramdrv\<close>: the contract of a storage device (locale \<open>storage\<close>) and \<open>devices/ram-storage/ramdrv.c\<close>, which fulfils it.
    \<open>Phfs\<close>: \<open>phfs/phfs.c\<close>; unique aliases in every reachable state, files are what their aliases say.
  \<^item> \<open>Clist\<close>: \<open>lib/list.c\<close> and the sorted insertion of \<open>syspage.c\<close> at the level of links, refining operations on sequences.
    \<open>Syspage\<close>: \<open>syspage.c\<close> and the memory functions of \<open>hal/aarch64/generic/hal.c\<close>. \<open>Syspage_Props\<close>: maps stay disjoint in every page built by the operations (\<open>page_reach\<close>),
    new maps keep the loader's own memory, the best-fit search is sound and complete and allocated blocks do not overlap where the
    search does what it should (a size that is not 0, a map with an aligned end below 4 GiB, and room for the block if the map has no entries; \<open>search_fine\<close>, \<open>entry_fine\<close>).
  \<^item> \<open>Cmd\<close>: \<open>cmds/cmd.c\<close>; lines are split within their arrays (\<open>parseArgLine_store\<close>, on the arrays themselves, agrees with the list model), scripts run line by line,
    the prompt stays in its arrays and runs what is typed.
    \<open>Cmd_Files\<close> and \<open>Cmd_Load\<close>: the commands \<open>phfs\<close>, \<open>alias\<close>, \<open>map\<close>, \<open>copy\<close>, \<open>erase\<close>, \<open>app\<close>, \<open>blob\<close>, \<open>kernel\<close>, \<open>call\<close>, \<open>script\<close>; copies and
    loads move exactly the bytes they should (locales \<open>copy_ends\<close>, \<open>copy_file\<close>, \<open>load_ends\<close>, interpreted on files of the RAM storage).

  \<^item> \<open>Format\<close> and \<open>Format_Props\<close>: \<open>lib/format.c\<close> and \<open>lib/sprintf.c\<close>; conversions of numbers agree with a reference field, and what \<open>lib_sprintf\<close>
    prints the number parser reads back. \<open>Console\<close>: \<open>lib/console.c\<close> and \<open>lib/printf.c\<close>, output as the chunks handed to the devices, the rows of a memory dump.
    \<open>Cmd_Console\<close>: \<open>lib/log.c\<close> and the commands \<open>console\<close>, \<open>echo\<close>, \<open>dump\<close>. \<open>Cmd_Mem\<close>: the command \<open>mem\<close>, which writes only where a map allows it.
    \<open>Cmd_Flash\<close>: the commands \<open>jffs2\<close>, which marks the blocks of a device as clean and touches nothing else, and \<open>ptable\<close>, which shows only verified tables.

  \<^item> \<open>Qspi\<close>: \<open>devices/flash-zynq/qspi.c\<close>, the driver of the Quad-SPI controller at the level of its registers. The locale \<open>qspi_ctrl\<close> is what the controller does
    (FIFOs, the delayed status bit, the chip select, a slave that answers byte by byte), \<open>spi_bus\<close> what the driver makes of it: a transfer sends the bytes given and
    returns the answers, or ends with ETIME after the timeout.
    \<open>Flashcfg\<close>: \<open>flashcfg.c\<close>, command tables, the data of the known chips, their set-up. \<open>Flashdrv\<close>: \<open>flashdrv.c\<close>, the storage device with its buffer of one sector.
    \<open>Flash_Cmds\<close>: the contract of a NOR flash chip (locale \<open>nor_chip\<close>) and the effect of each command over any bus with the contract \<open>spi_bus\<close>.
    \<open>Flash_Store\<close>: the device as an array of bytes seen through the write buffer; write, sync and erase. \<open>Flash_Props\<close>: the driver on the controller, called through the device
    table; the known chips; an emulated controller and chip on which all contracts hold. Every operation on the flash returns: with its result, or with ETIME and
    then at least the shortest timeout, five milliseconds, has passed (\<open>prompt\<close>).

  \<^item> \<open>Mpu\<close>: \<open>hal/armv7m/mpu.c\<close>, the regions of the memory protection unit made for the maps. \<open>Mpu_Regions\<close>: what the hardware makes of the table, and that
    the regions generated for a range match exactly this range. \<open>Mpu_Props\<close>: the contract of a protection unit (locale \<open>protection\<close>), and that after any requests for maps that
    do not overlap every address has the rights of the map it is in; the words of the registers are decoded into rights as the manuals of the processors
    define them (\<open>perm7\<close>, \<open>perm8\<close>). \<open>Mpu8\<close>: the same for \<open>hal/armv8m/mpu.c\<close>. Addresses have 32 bits there.

  \<^item> \<open>Dtb\<close>: \<open>hal/riscv64/dtb.c\<close>, the device tree of the firmware parsed in memory; the parser runs a machine over the tokens of the tree.
    \<open>Dtb_Props\<close>: for every encoded tree with at most eight processors the parser returns, counts them, and finds the interrupt controllers of SoC nodes that
    have no processor as a child (\<open>is_soc\<close>).

  \<^item> \<open>Uart16550\<close>: \<open>devices/uart-16550\<close> with \<open>uarthw-riscv.c\<close>, the serial port driver: two rings, an interrupt handler, and operations that wait for it. Interrupts may
    occur wherever they are enabled (\<open>uart_preempt\<close>). \<open>Uart_Chip\<close>: the contract of the chip (locale \<open>ns16550\<close>) and the laws of the handler and of every operation; all of them return.
    \<open>Uart_Props\<close>: in every reachable state what is written is sent, in order, and what is read is the oldest received; messages of \<open>Msg\<close> go through the port
    (a \<open>sublocale\<close> of its link); an emulated chip keeps the contract.

  \<^bold>\<open>Conventions.\<close> A C function that can fail returns a sum, \<open>Inl\<close> of the error; one that changes state takes and returns it; a loop that may
  not end is a \<open>partial_function\<close> with \<open>None\<close> for not returning, and where the code is meant to return this is proved. Integers
  have the width of the 64-bit aarch64 port. \<open>call\<close> may nest; the command table is built for a nesting depth (\<open>plo_cmds\<close>), every
  use states its result for each depth. Hardware, the linker's symbols, the kernel's headers (structure sizes, attribute bits, page size) and
  the contents of uninitialised locals are parameters.

  \<^bold>\<open>Not modelled.\<close> The messages of the commands other than those named above, which do not influence the state, and the conversions of floating point numbers,
  which are compiled out;
  the board code under \<open>hal/\<close> apart from the functions named above, and the drivers under \<open>devices/\<close> other than \<open>ram-storage\<close>, \<open>pipe-rtt\<close>, \<open>flash-zynq\<close> and \<open>uart-16550\<close>,
  which consist of register accesses; the commands that only print or drive such hardware; \<open>wait\<close>,
  the confirmation prompt (\<open>lib/prompt.c\<close>) and the start-up (\<open>plo.c\<close>), which calls the parts above in order.
\<close>

end
